(* ===== verification/Prelude.thy ===== *)
theory Prelude
  imports "HOL-Library.Word" "HOL-Library.Monad_Syntax"
begin

text \<open>
  Types and helpers shared by every component.

  \<^item> Machine integers keep their width (\<open>u8\<close>, \<open>u16\<close>, \<open>u32\<close>, \<open>u64\<close>); quantities of type
    \<open>size_t\<close> that index memory are \<open>nat\<close>.
  \<^item> A C++ access outside its buffer is undefined behaviour. Buffers are lists and every access goes
    through \<open>rd\<close>, \<open>wr\<close>, \<open>slice\<close> or \<open>splice\<close>, which answer \<open>None\<close> when the access leaves the buffer.
    An operation of result type \<open>'a option\<close> is therefore defined behaviour exactly when it is
    \<open>Some\<close>; that it is so is always a theorem, never an assumption.
  \<^item> \<open>le_word\<close> and \<open>le_bytes\<close> are \<open>memcpy\<close> between eight bytes and a \<open>uint64_t\<close> on a little-endian
    machine (the engine is x86 code: it includes \<open>x86intrin.h\<close>).

  The collection \<open>access\<close> holds the rules that discharge in-range accesses; \<open>geom\<close> holds the facts
  about page geometry.
\<close>

unbundle bit_operations_syntax

type_synonym u8 = "8 word"
type_synonym u16 = "16 word"
type_synonym u32 = "32 word"
type_synonym u64 = "64 word"

named_theorems access \<open>in-range buffer accesses\<close>
named_theorems geom \<open>page and block geometry\<close>

section \<open>Checked buffer accesses\<close>

definition rd :: "'a list \<Rightarrow> nat \<Rightarrow> 'a option" where
  "rd xs i = (if i < length xs then Some (xs ! i) else None)"

definition wr :: "'a list \<Rightarrow> nat \<Rightarrow> 'a \<Rightarrow> 'a list option" where
  "wr xs i v = (if i < length xs then Some (xs[i := v]) else None)"

definition slice :: "'a list \<Rightarrow> nat \<Rightarrow> nat \<Rightarrow> 'a list option" where
  "slice xs off n = (if off + n \<le> length xs then Some (take n (drop off xs)) else None)"

definition splice :: "'a list \<Rightarrow> nat \<Rightarrow> 'a list \<Rightarrow> 'a list option" where
  "splice xs off ys =
     (if off + length ys \<le> length xs
      then Some (take off xs @ ys @ drop (off + length ys) xs) else None)"

lemma rd_Some [access]: "i < length xs \<Longrightarrow> rd xs i = Some (xs ! i)"
  by (simp add: rd_def)

lemma wr_Some [access]: "i < length xs \<Longrightarrow> wr xs i v = Some (xs[i := v])"
  by (simp add: wr_def)

lemma slice_Some [access]: "off + n \<le> length xs \<Longrightarrow> slice xs off n = Some (take n (drop off xs))"
  by (simp add: slice_def)

lemma splice_Some [access]:
  "off + length ys \<le> length xs \<Longrightarrow>
   splice xs off ys = Some (take off xs @ ys @ drop (off + length ys) xs)"
  by (simp add: splice_def)

lemma rd_eq_SomeD: "rd xs i = Some v \<Longrightarrow> i < length xs \<and> v = xs ! i"
  by (simp add: rd_def split: if_splits)

lemma wr_eq_SomeD: "wr xs i v = Some ys \<Longrightarrow> i < length xs \<and> ys = xs[i := v]"
  by (simp add: wr_def split: if_splits)

lemma length_splice: "splice xs off ys = Some zs \<Longrightarrow> length zs = length xs"
  by (auto simp: splice_def split: if_splits)

lemma nth_splice:
  "splice xs off ys = Some zs \<Longrightarrow> i < length xs \<Longrightarrow>
   zs ! i = (if off \<le> i \<and> i < off + length ys then ys ! (i - off) else xs ! i)"
  by (auto simp: splice_def nth_append min_def split: if_splits)

lemma length_slice: "slice xs off n = Some ys \<Longrightarrow> length ys = n"
  by (auto simp: slice_def split: if_splits)

lemma nth_slice: "slice xs off n = Some ys \<Longrightarrow> i < n \<Longrightarrow> ys ! i = xs ! (off + i)"
  by (auto simp: slice_def split: if_splits)

section \<open>Signed 32-bit arithmetic\<close>

text \<open>The value of an \<open>int\<close> expression; signed overflow is undefined behaviour.\<close>

definition int32 :: "int \<Rightarrow> int option" where
  "int32 z = (if - (2 ^ 31) \<le> z \<and> z < 2 ^ 31 then Some z else None)"

lemma int32_Some [access]: "- (2 ^ 31) \<le> z \<Longrightarrow> z < 2 ^ 31 \<Longrightarrow> int32 z = Some z"
  by (simp add: int32_def)

section \<open>Bytes and words\<close>

fun le_word :: "u8 list \<Rightarrow> u64" where
  "le_word [] = 0"
| "le_word (b # bs) = ucast b OR push_bit 8 (le_word bs)"

definition le_bytes :: "u64 \<Rightarrow> u8 list" where
  "le_bytes w = map (\<lambda>k. ucast (drop_bit (8 * k) w)) [0..<8]"

lemma length_le_bytes [simp]: "length (le_bytes w) = 8"
  by (simp add: le_bytes_def)

lemma bit_le_word:
  "n < 64 \<Longrightarrow> bit (le_word bs) n \<longleftrightarrow> n div 8 < length bs \<and> bit (bs ! (n div 8)) (n mod 8)"
proof (induction bs arbitrary: n)
  case Nil
  then show ?case by simp
next
  case (Cons b bs)
  show ?case
  proof (cases "n < 8")
    case True
    then show ?thesis by (simp add: bit_or_iff bit_ucast_iff bit_push_bit_iff)
  next
    case False
    then obtain m where m: "n = m + 8" by (metis add.commute le_Suc_ex not_less)
    moreover have "(m + 8) div 8 = Suc (m div 8)" by simp
    ultimately show ?thesis
      using Cons.prems Cons.IH [of m] bit_imp_le_length [of b "m + 8"]
      by (auto simp: bit_or_iff bit_ucast_iff bit_push_bit_iff)
  qed
qed

lemma le_bytes_word: "length bs = 8 \<Longrightarrow> le_bytes (le_word bs) = bs"
proof (rule nth_equalityI)
  assume len: "length bs = 8"
  then show "length (le_bytes (le_word bs)) = length bs" by simp
  fix k assume "k < length (le_bytes (le_word bs))"
  then have k: "k < 8" by simp
  show "le_bytes (le_word bs) ! k = bs ! k"
  proof (rule bit_word_eqI)
    fix n assume "n < LENGTH(8)"
    then have n: "n < 8" by simp
    with k have "8 * k + n < 64" by simp
    with k n len show "bit (le_bytes (le_word bs) ! k) n = bit (bs ! k) n"
      by (simp add: le_bytes_def bit_ucast_iff bit_drop_bit_eq bit_le_word)
  qed
qed

lemma le_word_bytes: "le_word (le_bytes w) = w"
proof (rule bit_word_eqI)
  fix n assume "n < LENGTH(64)"
  then have n: "n < 64" by simp
  then have "n div 8 < 8" by simp
  with n show "bit (le_word (le_bytes w)) n = bit w n"
    by (simp add: bit_le_word le_bytes_def bit_ucast_iff bit_drop_bit_eq)
qed

lemma le_word_zeros [simp]: "le_word (replicate n 0) = 0"
  by (induction n) simp_all

lemma word_xor_eq_0: "(a :: 'a::len word) XOR b = 0 \<longleftrightarrow> a = b"
proof
  assume "a XOR b = 0"
  then have "(a XOR b) XOR b = 0 XOR b" by simp
  then show "a = b" by (simp add: xor.assoc)
qed simp

lemma word_eq_xor_self: "(a :: 'a::len word) = a XOR b \<longleftrightarrow> b = 0"
proof
  assume "a = a XOR b"
  then have "a XOR a = a XOR (a XOR b)" by simp
  then show "b = 0" by (simp add: xor.assoc [symmetric])
qed simp

section \<open>Lists\<close>

text \<open>A caller's buffer with room for \<open>k\<close> entries, as the library functions that fill one report it: \<open>False\<close> and
  unchanged when it is full.\<close>

definition room :: "nat \<Rightarrow> 'a \<Rightarrow> 'a list \<Rightarrow> bool \<times> 'a list" where
  "room k x buf = (if length buf < k then (True, buf @ [x]) else (False, buf))"

text \<open>In a sorted list a predicate that is inherited downwards holds of a prefix.\<close>

lemma takeWhile_sorted_filter:
  assumes "sorted_wrt R xs" "\<And>x y. x \<in> set xs \<Longrightarrow> y \<in> set xs \<Longrightarrow> R x y \<Longrightarrow> P y \<Longrightarrow> P x"
  shows "takeWhile P xs = filter P xs"
  using assms
proof (induction xs)
  case (Cons x xs)
  show ?case
  proof (cases "P x")
    case False
    then have "\<forall>y \<in> set xs. \<not> P y" using Cons.prems by (meson list.set_intros sorted_wrt.simps(2))
    then show ?thesis using False by simp
  next
    case True
    have "takeWhile P xs = filter P xs"
    proof (rule Cons.IH)
      show "sorted_wrt R xs" using Cons.prems(1) by simp
      show "P a" if "a \<in> set xs" "b \<in> set xs" "R a b" "P b" for a b using Cons.prems(2) [of a b] that by simp
    qed
    then show ?thesis using True by simp
  qed
qed simp

end
