(* ===== verification/Latency.thy ===== *)
theory Latency
  imports Prelude Complex_Main
begin

text \<open>
  \<open>LatencyInjector\<close> of \<open>src/ftj_engine.cpp\<close>: calibration of the time stamp counter and the spin
  wait. The counter (\<open>__rdtsc\<close>) and the reference clock are hardware: they are parameters, a
  function from the number of the reading to its value. A spin loop is \<open>None\<close> when it never ends.
\<close>

record tsc_state =
  calibrated :: bool
  cycles_per_ns :: real

text \<open>First reading, from reading \<open>k\<close> on, at which the reference clock has advanced 10 ms.\<close>

partial_function (option) calibrate_wait :: "(nat \<Rightarrow> real) \<Rightarrow> nat \<Rightarrow> nat option" where
  "calibrate_wait elapsed_ms k =
     (if elapsed_ms k < 10 then calibrate_wait elapsed_ms (Suc k) else Some k)"

text \<open>
  \<open>freq_ok\<close> is the answer of \<open>QueryPerformanceFrequency\<close> (True on the other platforms, which do not
  ask); \<open>start_tsc\<close> and \<open>end_tsc\<close> are the two counter readings.
\<close>

definition Calibrate ::
  "bool \<Rightarrow> (nat \<Rightarrow> real) \<Rightarrow> u64 \<Rightarrow> (nat \<Rightarrow> u64) \<Rightarrow> tsc_state \<Rightarrow> tsc_state option" where
  "Calibrate freq_ok elapsed_ms start_tsc end_tsc st =
     (if calibrated st then Some st
      else if \<not> freq_ok then Some \<lparr>calibrated = True, cycles_per_ns = 3\<rparr>
      else do {
        k \<leftarrow> calibrate_wait elapsed_ms 0;
        let total_ns = elapsed_ms k * 1000000;
        let cycles = real (unat (end_tsc k - start_tsc)) / total_ns;
        Some \<lparr>calibrated = True, cycles_per_ns = (if cycles \<le> 0.1 then 3 else cycles)\<rparr>
      })"

text \<open>The spin loop: reads the counter until \<open>target_cycles\<close> have gone by since \<open>start\<close>.\<close>

partial_function (option) spin :: "(nat \<Rightarrow> u64) \<Rightarrow> u64 \<Rightarrow> u64 \<Rightarrow> nat \<Rightarrow> nat option" where
  "spin rdtsc start target_cycles k =
     (if rdtsc k - start < target_cycles then spin rdtsc start target_cycles (Suc k) else Some k)"

definition target_cycles :: "u64 \<Rightarrow> real \<Rightarrow> u64" where
  "target_cycles latency_ns cycles = of_int \<lfloor>real (unat latency_ns) * cycles\<rfloor>"

text \<open>\<open>Inject\<close>, entered at counter reading \<open>k\<close>; the result is the reading after which it returns.\<close>

definition Inject :: "u64 \<Rightarrow> real \<Rightarrow> (nat \<Rightarrow> u64) \<Rightarrow> nat \<Rightarrow> nat option" where
  "Inject latency_ns cycles rdtsc k =
     (if latency_ns = 0 then Some k
      else spin rdtsc (rdtsc k) (target_cycles latency_ns cycles) (Suc k))"

section \<open>Least readings\<close>

text \<open>A loop that scans readings until a condition holds, for both loops above.\<close>

locale scan_loop =
  fixes loop :: "nat \<Rightarrow> nat option" and busy :: "nat \<Rightarrow> bool"
  assumes loop_eq: "loop k = (if busy k then loop (Suc k) else Some k)"
begin

lemma loop_first:
  assumes "k \<le> n" "\<not> busy n" "\<forall>j. k \<le> j \<and> j < n \<longrightarrow> busy j"
  shows "loop k = Some n"
  using assms
proof (induction "n - k" arbitrary: k)
  case 0
  then show ?case using loop_eq [of k] by simp
next
  case (Suc d)
  then have "loop (Suc k) = Some n" by simp
  moreover have "busy k" using Suc by simp
  ultimately show ?case using loop_eq [of k] by simp
qed

lemma loop_returns:
  assumes "k \<le> m" "\<not> busy m"
  shows "\<exists>n. loop k = Some n \<and> k \<le> n \<and> n \<le> m \<and> \<not> busy n \<and> (\<forall>j. k \<le> j \<and> j < n \<longrightarrow> busy j)"
proof -
  let ?P = "\<lambda>n. k \<le> n \<and> \<not> busy n"
  let ?n = "LEAST n. ?P n"
  have "?P ?n" using assms by (intro LeastI [of ?P m]) simp
  moreover have "\<forall>j. k \<le> j \<and> j < ?n \<longrightarrow> busy j" using not_less_Least [of _ ?P] by blast
  moreover have "?n \<le> m" using assms by (intro Least_le) simp
  ultimately show ?thesis using loop_first [of k ?n] by blast
qed

end

interpretation calibrate: scan_loop "calibrate_wait elapsed_ms" "\<lambda>k. elapsed_ms k < 10"
  by unfold_locales (rule calibrate_wait.simps)

interpretation spin: scan_loop "spin rdtsc start target" "\<lambda>k. rdtsc k - start < target"
  by unfold_locales (rule spin.simps)

text \<open>the spin wait returns as soon as a counter reading shows that the target number of cycles
  has gone by, and not before: every earlier reading was short of the target. The elapsed count is the
  wrap-around difference of two 64-bit readings, so an overflow of the counter does not matter.\<close>

lemma Inject_waits:
  assumes "latency_ns \<noteq> 0" "k < m" "target_cycles latency_ns cycles \<le> rdtsc m - rdtsc k"
  shows "\<exists>n. Inject latency_ns cycles rdtsc k = Some n \<and> k < n \<and> n \<le> m \<and>
    target_cycles latency_ns cycles \<le> rdtsc n - rdtsc k \<and>
    (\<forall>j. k < j \<and> j < n \<longrightarrow> rdtsc j - rdtsc k < target_cycles latency_ns cycles)"
  using spin.loop_returns [of "Suc k" m rdtsc "rdtsc k" "target_cycles latency_ns cycles"] assms
  by (simp add: Inject_def not_less Suc_le_eq)

text \<open>when the reference clock reaches 10 ms, calibration returns with a usable factor (above 0.1
  cycles per nanosecond), and calibrating again changes nothing.\<close>

lemma Calibrate_sane:
  assumes "\<not> calibrated st" "\<exists>m. 10 \<le> elapsed_ms m"
  shows "\<exists>st'. Calibrate freq_ok elapsed_ms start_tsc end_tsc st = Some st' \<and> calibrated st' \<and>
    0.1 < cycles_per_ns st' \<and>
    Calibrate freq_ok' elapsed_ms' start_tsc' end_tsc' st' = Some st'"
proof -
  obtain m where "\<not> elapsed_ms m < 10" using assms(2) by (auto simp: not_less)
  then obtain k where "calibrate_wait elapsed_ms 0 = Some k"
    using calibrate.loop_returns [of 0 m elapsed_ms] by auto
  then show ?thesis using assms(1) by (auto simp: Calibrate_def Let_def)
qed

end
