(* ===== verification/Ftl.thy ===== *)
theory Ftl
  imports Prelude
begin

text \<open>
  The log-structured translation layer of \<open>FTJController\<close> (\<open>src/ftj_engine.cpp\<close>): logical-to-physical
  mapping, hot and cold free lists, allocation, commit of a page write, garbage collection.

  The metadata is the record \<open>ftl\<close>. The page contents are an abstract store \<open>'m\<close>: the garbage
  collector and the page write take the operation that copies a physical page (\<open>copy\<close>), and the
  operation that fills a freshly allocated one (\<open>put\<close>), as arguments; the theory Controller passes
  the code's memory and ECC buffers, and the metadata can be run on its own with \<open>'m = unit\<close>.

  Page numbers are \<open>int32_t\<close> in the code with -1 for "none"; here they are \<open>nat option\<close>. A \<open>None\<close>
  result is an access outside a vector. The block scores of the collector are \<open>int\<close>s of 32 bits that add up the
  write counters of a block: they wrap around here (\<open>wrap32\<close>), where C++ leaves the overflow of a signed number
  undefined.
\<close>

section \<open>State\<close>

definition PAGE_SIZE :: nat where "PAGE_SIZE = 4096"
definition PAGES_PER_BLOCK :: nat where "PAGES_PER_BLOCK = 256"
definition HOT_THRESHOLD :: u32 where "HOT_THRESHOLD = 4"
definition UINT32_MAX :: u32 where "UINT32_MAX = 0xFFFFFFFF"
definition INT_MAX :: int where "INT_MAX = 2147483647"

record ftl =
  page_count :: nat
  num_blocks :: nat
  l2p_map :: "nat option list"
  phys_valid :: "bool list"
  phys_owner_lba :: "nat option list"
  phys_block :: "nat list"
  block_valid_count :: "int list"
  free_hot :: "nat list"
  free_cold :: "nat list"
  lba_hot_counters :: "u32 list"
  gc_low_watermark :: nat
  gc_target_free :: nat
  page_writes :: "u32 list"
  page_disturbs :: "u32 list"
  total_half_select_disturbs :: u64
  total_physical_bytes_written :: u64

definition free_pages :: "ftl \<Rightarrow> nat list" where
  "free_pages f = free_hot f @ free_cold f"

definition free_count :: "ftl \<Rightarrow> nat" where
  "free_count f = length (free_hot f) + length (free_cold f)"

text \<open>The constructor, from the capacity in bytes.\<close>

definition ftl_init :: "nat \<Rightarrow> ftl" where
  "ftl_init capacity_bytes =
     (let num_pages = (capacity_bytes + PAGE_SIZE - 1) div PAGE_SIZE;
          nb = num_pages div PAGES_PER_BLOCK;
          nblocks = (if nb = 0 then 1 else nb);
          blk = map (\<lambda>p. p div PAGES_PER_BLOCK) [0..<num_pages];
          hot_blocks = max 1 (nblocks div 5)
      in \<lparr>page_count = num_pages, num_blocks = nblocks,
          l2p_map = replicate num_pages None,
          phys_valid = replicate num_pages False,
          phys_owner_lba = replicate num_pages None,
          phys_block = blk,
          block_valid_count = replicate nblocks 0,
          free_hot = filter (\<lambda>p. blk ! p < hot_blocks) (rev [0..<num_pages]),
          free_cold = filter (\<lambda>p. \<not> blk ! p < hot_blocks) (rev [0..<num_pages]),
          lba_hot_counters = replicate num_pages 0,
          gc_low_watermark = max 1 (num_pages div 20),
          gc_target_free = max 1 (num_pages div 10),
          page_writes = replicate num_pages 0,
          page_disturbs = replicate num_pages 0,
          total_half_select_disturbs = 0,
          total_physical_bytes_written = 0\<rparr>)"

section \<open>Allocation\<close>

definition pop_hot :: "ftl \<Rightarrow> (nat option \<times> ftl) option" where
  "pop_hot f = (if free_hot f = [] then None
     else Some (Some (last (free_hot f)), f\<lparr>free_hot := butlast (free_hot f)\<rparr>))"

definition pop_cold :: "ftl \<Rightarrow> (nat option \<times> ftl) option" where
  "pop_cold f = (if free_cold f = [] then None
     else Some (Some (last (free_cold f)), f\<lparr>free_cold := butlast (free_cold f)\<rparr>))"

definition AllocatePhysicalPage :: "ftl \<Rightarrow> bool \<Rightarrow> nat option \<times> ftl" where
  "AllocatePhysicalPage f prefer_hot =
     (if prefer_hot
      then (case pop_hot f of Some r \<Rightarrow> r
            | None \<Rightarrow> (case pop_cold f of Some r \<Rightarrow> r | None \<Rightarrow> (None, f)))
      else (case pop_cold f of Some r \<Rightarrow> r
            | None \<Rightarrow> (case pop_hot f of Some r \<Rightarrow> r | None \<Rightarrow> (None, f))))"

section \<open>Committing a page write\<close>

text \<open>The hot counter of a logical page; the addition wraps before the \<open>std::min\<close>.\<close>

definition bump_hot :: "ftl \<Rightarrow> nat \<Rightarrow> ftl" where
  "bump_hot f lp =
     (if lp < length (lba_hot_counters f)
      then f\<lparr>lba_hot_counters := (lba_hot_counters f)[lp := min UINT32_MAX (lba_hot_counters f ! lp + 1)]\<rparr>
      else f)"

definition prefers_hot :: "ftl \<Rightarrow> nat \<Rightarrow> bool" where
  "prefers_hot f lp \<longleftrightarrow> lp < length (lba_hot_counters f) \<and> lba_hot_counters f ! lp \<ge> HOT_THRESHOLD"

text \<open>Mapping a logical page to a physical page: map, valid flag, owner, block count, write count,
  bytes written. Shared by the write path and the garbage collector.\<close>

definition map_page :: "ftl \<Rightarrow> nat \<Rightarrow> nat \<Rightarrow> ftl option" where
  "map_page f lp new_phys = do {
     l2p \<leftarrow> wr (l2p_map f) lp (Some new_phys);
     valid \<leftarrow> wr (phys_valid f) new_phys True;
     owner \<leftarrow> wr (phys_owner_lba f) new_phys (Some lp);
     b \<leftarrow> rd (phys_block f) new_phys;
     c \<leftarrow> rd (block_valid_count f) b;
     counts \<leftarrow> wr (block_valid_count f) b (c + 1);
     w \<leftarrow> rd (page_writes f) new_phys;
     writes \<leftarrow> wr (page_writes f) new_phys (w + 1);
     Some (f\<lparr>l2p_map := l2p, phys_valid := valid, phys_owner_lba := owner,
       block_valid_count := counts, page_writes := writes,
       total_physical_bytes_written := total_physical_bytes_written f + of_nat PAGE_SIZE\<rparr>)
   }"

definition disturb_neighbor :: "bool \<Rightarrow> ftl \<Rightarrow> nat \<Rightarrow> ftl option" where
  "disturb_neighbor tracking f new_phys =
     (if tracking \<and> page_count f > 1 then do {
        let neighbor_page = (new_phys + 1) mod page_count f;
        d \<leftarrow> rd (page_disturbs f) neighbor_page;
        disturbs \<leftarrow> wr (page_disturbs f) neighbor_page (d + 1);
        Some (f\<lparr>page_disturbs := disturbs,
                total_half_select_disturbs := total_half_select_disturbs f + 1\<rparr>)
      } else Some f)"

definition invalidate_page :: "ftl \<Rightarrow> nat \<Rightarrow> ftl option" where
  "invalidate_page f old_phys = do {
     valid \<leftarrow> wr (phys_valid f) old_phys False;
     owner \<leftarrow> wr (phys_owner_lba f) old_phys None;
     b \<leftarrow> rd (phys_block f) old_phys;
     c \<leftarrow> rd (block_valid_count f) b;
     counts \<leftarrow> wr (block_valid_count f) b (max 0 (c - 1));
     Some (f\<lparr>phys_valid := valid, phys_owner_lba := owner, block_valid_count := counts\<rparr>)
   }"

definition commit_write :: "bool \<Rightarrow> ftl \<Rightarrow> nat \<Rightarrow> nat \<Rightarrow> nat option \<Rightarrow> ftl option" where
  "commit_write tracking f lp new_phys old_phys = do {
     f1 \<leftarrow> map_page f lp new_phys;
     f2 \<leftarrow> disturb_neighbor tracking f1 new_phys;
     (case old_phys of None \<Rightarrow> Some f2 | Some old \<Rightarrow> invalidate_page f2 old)
   }"

section \<open>Garbage collection\<close>

definition block_pages :: "ftl \<Rightarrow> nat \<Rightarrow> nat list" where
  "block_pages f b = [b * PAGES_PER_BLOCK ..< min (page_count f) (b * PAGES_PER_BLOCK + PAGES_PER_BLOCK)]"

text \<open>The scores are of the 32-bit type \<open>int\<close>: the sums wrap when they overflow.\<close>

definition wrap32 :: "int \<Rightarrow> int" where
  "wrap32 z = signed_take_bit 31 z"

fun hot_score :: "ftl \<Rightarrow> nat list \<Rightarrow> int \<Rightarrow> int option" where
  "hot_score f [] score = Some score"
| "hot_score f (p # ps) score = do {
     owner \<leftarrow> rd (phys_owner_lba f) p;
     (case owner of
        Some lba \<Rightarrow> if lba < length (lba_hot_counters f)
          then hot_score f ps (wrap32 (score + sint (lba_hot_counters f ! lba)))
          else hot_score f ps score
      | None \<Rightarrow> hot_score f ps score)
   }"

fun pick_block :: "ftl \<Rightarrow> nat list \<Rightarrow> int \<Rightarrow> nat option \<Rightarrow> nat option option" where
  "pick_block f [] best_metric candidate = Some candidate"
| "pick_block f (b # bs) best_metric candidate = do {
     valid \<leftarrow> rd (block_valid_count f) b;
     score \<leftarrow> hot_score f (block_pages f b) 0;
     let metric = wrap32 (valid * 16 + score);
     if metric < best_metric then pick_block f bs metric (Some b)
     else pick_block f bs best_metric candidate
   }"

definition gc_candidate :: "ftl \<Rightarrow> nat option option" where
  "gc_candidate f = pick_block f [0..<length (block_valid_count f)] INT_MAX None"

definition gc_remap :: "ftl \<Rightarrow> nat option \<Rightarrow> nat \<Rightarrow> nat \<Rightarrow> ftl option" where
  "gc_remap f owner p new_p =
     (case owner of
        Some lba \<Rightarrow> if lba < length (l2p_map f)
          then do { f1 \<leftarrow> map_page f lba new_p; invalidate_page f1 p } else Some f
      | None \<Rightarrow> Some f)"

definition gc_move_page ::
  "(nat \<Rightarrow> nat \<Rightarrow> 'm \<Rightarrow> 'm option) \<Rightarrow> nat \<Rightarrow> ftl \<times> 'm \<Rightarrow> (ftl \<times> 'm) option" where
  "gc_move_page copy p s = do {
     let (f, m) = s;
     v \<leftarrow> rd (phys_valid f) p;
     if \<not> v then Some (f, m) else do {
       owner \<leftarrow> rd (phys_owner_lba f) p;
       (case AllocatePhysicalPage f False of
          (None, _) \<Rightarrow> Some (f, m)
        | (Some new_p, f1) \<Rightarrow> do {
            m' \<leftarrow> copy new_p p m;
            f2 \<leftarrow> gc_remap f1 owner p new_p;
            Some (f2, m')
          })
     }
   }"

fun gc_move_pages ::
  "(nat \<Rightarrow> nat \<Rightarrow> 'm \<Rightarrow> 'm option) \<Rightarrow> nat list \<Rightarrow> ftl \<times> 'm \<Rightarrow> (ftl \<times> 'm) option" where
  "gc_move_pages copy [] s = Some s"
| "gc_move_pages copy (p # ps) s = do { s' \<leftarrow> gc_move_page copy p s; gc_move_pages copy ps s' }"

definition erase_page :: "nat \<Rightarrow> ftl \<Rightarrow> ftl option" where
  "erase_page p f = do {
     v \<leftarrow> rd (phys_valid f) p;
     if v then Some f else do {
       valid \<leftarrow> wr (phys_valid f) p False;
       owner \<leftarrow> wr (phys_owner_lba f) p None;
       b \<leftarrow> rd (phys_block f) p;
       let f1 = f\<lparr>phys_valid := valid, phys_owner_lba := owner\<rparr>;
       if b < num_blocks f div 5 then Some (f1\<lparr>free_hot := free_hot f1 @ [p]\<rparr>)
       else Some (f1\<lparr>free_cold := free_cold f1 @ [p]\<rparr>)
     }
   }"

fun erase_pages :: "nat list \<Rightarrow> ftl \<Rightarrow> ftl option" where
  "erase_pages [] f = Some f"
| "erase_pages (p # ps) f = do { f' \<leftarrow> erase_page p f; erase_pages ps f' }"

text \<open>One cycle on block \<open>b\<close>: move the valid pages out, erase the block, reset its count.\<close>

definition gc_block ::
  "(nat \<Rightarrow> nat \<Rightarrow> 'm \<Rightarrow> 'm option) \<Rightarrow> nat \<Rightarrow> ftl \<times> 'm \<Rightarrow> (ftl \<times> 'm) option" where
  "gc_block copy b s = do {
     let ps = block_pages (fst s) b;
     (f1, m1) \<leftarrow> gc_move_pages copy ps s;
     f2 \<leftarrow> erase_pages ps f1;
     counts \<leftarrow> wr (block_valid_count f2) b 0;
     Some (f2\<lparr>block_valid_count := counts\<rparr>, m1)
   }"

function RunGC ::
  "(nat \<Rightarrow> nat \<Rightarrow> 'm \<Rightarrow> 'm option) \<Rightarrow> nat \<Rightarrow> ftl \<times> 'm \<Rightarrow> (ftl \<times> 'm) option" where
  "RunGC copy target_free s =
     (if free_count (fst s) < target_free then do {
        candidate \<leftarrow> gc_candidate (fst s);
        (case candidate of
           None \<Rightarrow> Some s
         | Some b \<Rightarrow> do {
             s' \<leftarrow> gc_block copy b s;
             if free_count (fst s') \<le> free_count (fst s) then Some s'
             else if free_count (fst s') \<ge> target_free then Some s'
             else RunGC copy target_free s'
           })
      } else Some s)"
  by pat_completeness auto
termination
  by (relation "measure (\<lambda>(copy, target, s). target - free_count (fst s))") auto

declare RunGC.simps [simp del]

section \<open>The page step of a write\<close>

definition alloc_or_gc ::
  "(nat \<Rightarrow> nat \<Rightarrow> 'm \<Rightarrow> 'm option) \<Rightarrow> bool \<Rightarrow> ftl \<times> 'm \<Rightarrow> (nat option \<times> ftl \<times> 'm) option" where
  "alloc_or_gc copy prefer_hot s =
     (case AllocatePhysicalPage (fst s) prefer_hot of
        (Some p, f') \<Rightarrow> Some (Some p, f', snd s)
      | (None, f') \<Rightarrow> do {
          (f2, m2) \<leftarrow> RunGC copy (gc_target_free f') (f', snd s);
          (case AllocatePhysicalPage f2 prefer_hot of (r, f3) \<Rightarrow> Some (r, f3, m2))
        })"

definition write_step ::
  "(nat \<Rightarrow> nat \<Rightarrow> 'm \<Rightarrow> 'm option) \<Rightarrow> (nat \<Rightarrow> nat option \<Rightarrow> 'm \<Rightarrow> 'm option) \<Rightarrow> bool \<Rightarrow> nat \<Rightarrow>
   ftl \<times> 'm \<Rightarrow> (bool \<times> ftl \<times> 'm) option" where
  "write_step copy put tracking lp s = do {
     let f1 = bump_hot (fst s) lp;
     r \<leftarrow> alloc_or_gc copy (prefers_hot f1 lp) (f1, snd s);
     (case r of
        (None, f2, m2) \<Rightarrow> Some (False, f2, m2)
      | (Some new_phys, f2, m2) \<Rightarrow> do {
          let old_phys = (if lp < length (l2p_map f2) then l2p_map f2 ! lp else None);
          m3 \<leftarrow> put new_phys old_phys m2;
          f3 \<leftarrow> commit_write tracking f2 lp new_phys old_phys;
          Some (True, f3, m3)
        })
   }"

text \<open>The collection at the end of a write, when free pages run low.\<close>

definition gc_if_low :: "(nat \<Rightarrow> nat \<Rightarrow> 'm \<Rightarrow> 'm option) \<Rightarrow> ftl \<times> 'm \<Rightarrow> (ftl \<times> 'm) option" where
  "gc_if_low copy s =
     (if free_count (fst s) < gc_low_watermark (fst s)
      then RunGC copy (gc_target_free (fst s)) s else Some s)"

end
