(* ===== verification/Ftl_Safety.thy ===== *)
theory Ftl_Safety
  imports Ftl "HOL-Library.Multiset"
begin

text \<open>
  Memory safety of the translation layer. \<open>shape\<close> says that every vector has the length the
  constructor gave it and that every page number stored anywhere is in range. It is established for
  the supported capacities, kept by every operation (garbage collection included, whatever the free
  lists hold), and under it no access leaves its vector: every operation returns \<open>Some\<close>.
\<close>

lemmas page_consts [geom] = PAGE_SIZE_def PAGES_PER_BLOCK_def

definition shape :: "ftl \<Rightarrow> bool" where
  "shape f \<longleftrightarrow> 0 < page_count f \<and> page_count f \<le> num_blocks f * 256 \<and>
     length (l2p_map f) = page_count f \<and> length (phys_valid f) = page_count f \<and>
     length (phys_owner_lba f) = page_count f \<and>
     phys_block f = map (\<lambda>p. p div 256) [0..<page_count f] \<and>
     length (block_valid_count f) = num_blocks f \<and>
     length (lba_hot_counters f) = page_count f \<and>
     length (page_writes f) = page_count f \<and> length (page_disturbs f) = page_count f \<and>
     (\<forall>p \<in> set (free_pages f). p < page_count f) \<and>
     (\<forall>p. Some p \<in> set (l2p_map f) \<longrightarrow> p < page_count f)"

definition same_geom :: "ftl \<Rightarrow> ftl \<Rightarrow> bool" where
  "same_geom f f' \<longleftrightarrow> page_count f' = page_count f \<and> num_blocks f' = num_blocks f \<and>
     gc_low_watermark f' = gc_low_watermark f \<and> gc_target_free f' = gc_target_free f"

lemma same_geom_refl [simp, intro]: "same_geom f f"
  by (simp add: same_geom_def)

lemma same_geom_trans [trans]: "same_geom f g \<Longrightarrow> same_geom g h \<Longrightarrow> same_geom f h"
  by (simp add: same_geom_def)

lemma same_geomD:
  "same_geom f f' \<Longrightarrow> page_count f' = page_count f \<and> num_blocks f' = num_blocks f"
  by (simp add: same_geom_def)

text \<open>The capacities for which the constructor sizes the per-block vector correctly: at most one block,
  or a whole number of blocks.\<close>

definition good_capacity :: "nat \<Rightarrow> bool" where
  "good_capacity capacity \<longleftrightarrow> 0 < capacity \<and> capacity mod PAGE_SIZE = 0 \<and>
     (capacity div PAGE_SIZE \<le> PAGES_PER_BLOCK \<or> capacity mod (PAGES_PER_BLOCK * PAGE_SIZE) = 0)"

lemma pages_of_aligned: "capacity mod 4096 = 0 \<Longrightarrow> (4095 + capacity) div 4096 = capacity div (4096::nat)"
proof -
  assume "capacity mod 4096 = 0"
  then obtain k where "capacity = 4096 * k" by (meson mod_0_imp_dvd dvdE)
  then show ?thesis by simp
qed

lemma set_free_init: "set (free_pages (ftl_init capacity)) = {0..<page_count (ftl_init capacity)}"
  by (auto simp: free_pages_def ftl_init_def Let_def)

lemma ftl_init_lengths:
  "length (l2p_map (ftl_init c)) = page_count (ftl_init c)"
  "length (phys_valid (ftl_init c)) = page_count (ftl_init c)"
  "length (phys_owner_lba (ftl_init c)) = page_count (ftl_init c)"
  "phys_block (ftl_init c) = map (\<lambda>p. p div 256) [0..<page_count (ftl_init c)]"
  "length (block_valid_count (ftl_init c)) = num_blocks (ftl_init c)"
  "length (lba_hot_counters (ftl_init c)) = page_count (ftl_init c)"
  "length (page_writes (ftl_init c)) = page_count (ftl_init c)"
  "length (page_disturbs (ftl_init c)) = page_count (ftl_init c)"
  by (simp_all only: ftl_init_def Let_def ftl.select_convs length_replicate PAGES_PER_BLOCK_def)

lemma ftl_init_page_count: "capacity mod 4096 = 0 \<Longrightarrow> page_count (ftl_init capacity) = capacity div 4096"
  by (simp add: ftl_init_def Let_def geom pages_of_aligned)

lemma good_capacity_pages:
  assumes "good_capacity capacity"
  obtains n where "capacity = 4096 * n" "0 < n" "n \<le> (if n div 256 = 0 then 1 else n div 256) * 256"
proof -
  have "4096 dvd capacity" using assms by (simp add: good_capacity_def geom mod_eq_0_iff_dvd)
  then obtain n where n: "capacity = 4096 * n" by (rule dvdE)
  have pos: "0 < n" using assms n by (simp add: good_capacity_def)
  have "n \<le> 256 \<or> 256 dvd n"
  proof (cases "n \<le> 256")
    case False
    then have "256 * 4096 dvd 4096 * n"
      using assms n by (simp add: good_capacity_def geom mod_eq_0_iff_dvd)
    then have "4096 * 256 dvd 4096 * n" by simp
    then show ?thesis using dvd_times_left_cancel_iff [of "4096::nat" 256 n] by simp
  qed simp
  then have "n \<le> (if n div 256 = 0 then 1 else n div 256) * 256" by auto
  then show ?thesis using n pos that by blast
qed

lemma shape_init:
  assumes "good_capacity capacity"
  shows "shape (ftl_init capacity)"
proof -
  obtain n where n: "capacity = 4096 * n" "0 < n" "n \<le> (if n div 256 = 0 then 1 else n div 256) * 256"
    using good_capacity_pages [OF assms] .
  have pages: "page_count (ftl_init capacity) = n"
    using n(1) by (simp add: ftl_init_page_count)
  have nb: "num_blocks (ftl_init capacity) = (if n div 256 = 0 then 1 else n div 256)"
    using pages by (simp add: ftl_init_def Let_def geom)
  have "\<forall>p \<in> set (free_pages (ftl_init capacity)). p < page_count (ftl_init capacity)"
    unfolding set_free_init by simp
  moreover have "set (l2p_map (ftl_init capacity)) \<subseteq> {None}"
    by (simp add: ftl_init_def Let_def set_replicate_conv_if)
  moreover have "page_count (ftl_init capacity) \<le> num_blocks (ftl_init capacity) * 256"
    using n(3) by (simp only: pages nb)
  moreover have "0 < page_count (ftl_init capacity)" using n(2) pages by simp
  ultimately show ?thesis unfolding shape_def by (auto simp only: ftl_init_lengths)
qed

section \<open>Every operation is in range\<close>

lemma block_in_range: "shape f \<Longrightarrow> p < page_count f \<Longrightarrow> p div 256 < num_blocks f"
  unfolding shape_def by (metis less_mult_imp_div_less order_less_le_trans)

lemma phys_block_nth: "shape f \<Longrightarrow> p < page_count f \<Longrightarrow> phys_block f ! p = p div 256"
  by (simp add: shape_def)

lemmas shape_simps = shape_def free_pages_def

lemma map_page_eq:
  assumes "shape f" "lp < page_count f" "p < page_count f"
  shows "map_page f lp p = Some (f\<lparr>l2p_map := (l2p_map f)[lp := Some p],
      phys_valid := (phys_valid f)[p := True],
      phys_owner_lba := (phys_owner_lba f)[p := Some lp],
      block_valid_count := (block_valid_count f)[p div 256 := block_valid_count f ! (p div 256) + 1],
      page_writes := (page_writes f)[p := page_writes f ! p + 1],
      total_physical_bytes_written := total_physical_bytes_written f + of_nat PAGE_SIZE\<rparr>)"
  using assms block_in_range [OF assms(1,3)] phys_block_nth [OF assms(1,3)]
  by (simp add: map_page_def shape_def access)

lemma map_page_shape:
  assumes "shape f" "lp < page_count f" "p < page_count f" "map_page f lp p = Some f'"
  shows "shape f' \<and> same_geom f f'"
  using assms map_page_eq [OF assms(1-3)]
  by (auto simp: shape_simps same_geom_def dest!: subsetD [OF set_update_subset_insert])

lemma invalidate_page_eq:
  assumes "shape f" "p < page_count f"
  shows "invalidate_page f p = Some (f\<lparr>phys_valid := (phys_valid f)[p := False],
      phys_owner_lba := (phys_owner_lba f)[p := None],
      block_valid_count := (block_valid_count f)[p div 256 := max 0 (block_valid_count f ! (p div 256) - 1)]\<rparr>)"
  using assms block_in_range [OF assms] phys_block_nth [OF assms]
  by (simp add: invalidate_page_def shape_def access)

lemma invalidate_page_shape:
  assumes "shape f" "p < page_count f" "invalidate_page f p = Some f'"
  shows "shape f' \<and> same_geom f f'"
  using assms invalidate_page_eq [OF assms(1,2)] by (auto simp: shape_simps same_geom_def)

lemma disturb_neighbor_eq:
  assumes "shape f"
  shows "\<exists>d t. disturb_neighbor tr f p = Some (f\<lparr>page_disturbs := d, total_half_select_disturbs := t\<rparr>) \<and>
    length d = page_count f"
proof (cases "tr \<and> page_count f > 1")
  case True
  then have "(p + 1) mod page_count f < page_count f" by simp
  then show ?thesis using assms True
    by (intro exI [of _ "(page_disturbs f)[(p + 1) mod page_count f := page_disturbs f ! ((p + 1) mod page_count f) + 1]"]
        exI [of _ "total_half_select_disturbs f + 1"])
      (simp add: disturb_neighbor_def shape_def access Let_def)
next
  case False
  then show ?thesis using assms
    by (intro exI [of _ "page_disturbs f"] exI [of _ "total_half_select_disturbs f"])
      (auto simp: disturb_neighbor_def shape_def)
qed

lemma disturb_neighbor_shape:
  "shape f \<Longrightarrow> disturb_neighbor tr f p = Some f' \<Longrightarrow> shape f' \<and> same_geom f f'"
  using disturb_neighbor_eq [of f tr p] by (auto simp: shape_simps same_geom_def)

lemma commit_write_safe:
  assumes "shape f" "lp < page_count f" "p < page_count f"
    and "\<And>q. old = Some q \<Longrightarrow> q < page_count f"
  shows "\<exists>f'. commit_write tr f lp p old = Some f' \<and> shape f' \<and> same_geom f f'"
proof -
  obtain f1 where f1: "map_page f lp p = Some f1" using map_page_eq [OF assms(1-3)] by blast
  note s1 = map_page_shape [OF assms(1-3) f1]
  obtain f2 where f2: "disturb_neighbor tr f1 p = Some f2"
    using disturb_neighbor_eq [OF conjunct1 [OF s1]] by blast
  note s2 = disturb_neighbor_shape [OF conjunct1 [OF s1] f2]
  show ?thesis
  proof (cases old)
    case None
    then show ?thesis using f1 f2 s1 s2 by (auto simp: commit_write_def intro: same_geom_trans)
  next
    case (Some q)
    then have q: "q < page_count f2" using assms(4) s1 s2 by (simp add: same_geom_def)
    then obtain f3 where "invalidate_page f2 q = Some f3"
      using invalidate_page_eq [OF conjunct1 [OF s2]] by blast
    then show ?thesis
      using Some f1 f2 s1 s2 invalidate_page_shape [OF conjunct1 [OF s2] q]
      by (auto simp: commit_write_def intro: same_geom_trans)
  qed
qed

lemma AllocatePhysicalPage_cases:
  obtains (none) "AllocatePhysicalPage f h = (None, f)" "free_pages f = []"
  | (hot) "free_hot f \<noteq> []"
      "AllocatePhysicalPage f h = (Some (last (free_hot f)), f\<lparr>free_hot := butlast (free_hot f)\<rparr>)"
  | (cold) "free_cold f \<noteq> []"
      "AllocatePhysicalPage f h = (Some (last (free_cold f)), f\<lparr>free_cold := butlast (free_cold f)\<rparr>)"
proof (cases "free_hot f = [] \<and> free_cold f = []")
  case True
  then show ?thesis
    by (intro none) (simp_all add: AllocatePhysicalPage_def pop_hot_def pop_cold_def free_pages_def)
next
  case False
  note some = this
  show ?thesis
  proof (cases "free_hot f \<noteq> [] \<and> (h \<or> free_cold f = [])")
    case True
    show ?thesis
      by (rule hot) (use True in \<open>auto simp: AllocatePhysicalPage_def pop_hot_def pop_cold_def\<close>)
  next
    case False
    show ?thesis
      by (rule cold) (use False some in \<open>auto simp: AllocatePhysicalPage_def pop_hot_def pop_cold_def\<close>)
  qed
qed

text \<open>What an allocation does to the free lists, whichever zone it takes the page from.\<close>

lemma AllocatePhysicalPage_free:
  assumes "AllocatePhysicalPage f h = (r, f')"
  shows "\<exists>hs cs. f' = f\<lparr>free_hot := hs, free_cold := cs\<rparr> \<and>
    (case r of None \<Rightarrow> free_pages f = [] \<and> f' = f
     | Some p \<Rightarrow> mset (free_pages f) = add_mset p (mset (hs @ cs)))"
proof (cases rule: AllocatePhysicalPage_cases [of f h])
  case none
  then show ?thesis using assms by (intro exI [of _ "free_hot f"] exI [of _ "free_cold f"]) simp
next
  case hot
  have "mset (free_hot f) = add_mset (last (free_hot f)) (mset (butlast (free_hot f)))"
    using hot(1) by (metis append_butlast_last_id mset.simps(1,2) union_mset_add_mset_right add.right_neutral mset_append)
  then show ?thesis using hot assms
    by (intro exI [of _ "butlast (free_hot f)"] exI [of _ "free_cold f"]) (auto simp: free_pages_def)
next
  case cold
  have "mset (free_cold f) = add_mset (last (free_cold f)) (mset (butlast (free_cold f)))"
    using cold(1) by (metis append_butlast_last_id mset.simps(1,2) union_mset_add_mset_right add.right_neutral mset_append)
  then show ?thesis using cold assms
    by (intro exI [of _ "free_hot f"] exI [of _ "butlast (free_cold f)"]) (auto simp: free_pages_def)
qed

lemma alloc_shape:
  assumes "shape f" "AllocatePhysicalPage f h = (r, f')"
  shows "shape f' \<and> same_geom f f' \<and> (\<forall>p. r = Some p \<longrightarrow> p < page_count f)"
proof -
  obtain hs cs where f': "f' = f\<lparr>free_hot := hs, free_cold := cs\<rparr>"
    and r: "case r of None \<Rightarrow> free_pages f = [] \<and> f' = f
      | Some p \<Rightarrow> mset (free_pages f) = add_mset p (mset (hs @ cs))"
    using AllocatePhysicalPage_free [OF assms(2)] by blast
  show ?thesis
  proof (cases r)
    case None
    then show ?thesis using r assms(1) by simp
  next
    case (Some p)
    then have "mset (free_pages f) = add_mset p (mset (hs @ cs))" using r by simp
    from arg_cong [OF this, of set_mset] have "set (free_pages f) = insert p (set (hs @ cs))" by simp
    moreover have "\<forall>p \<in> set (free_pages f). p < page_count f" using assms(1) by (simp add: shape_def)
    ultimately have "p < page_count f" "\<forall>p \<in> set (free_pages f'). p < page_count f'"
      by (simp_all add: f' free_pages_def)
    moreover have "free_pages f' = hs @ cs" by (simp add: f' free_pages_def)
    moreover have "shape (f\<lparr>free_hot := hs, free_cold := cs\<rparr>) \<longleftrightarrow> shape f"
      if "\<forall>p \<in> set (hs @ cs). p < page_count f"
      using that assms(1) unfolding shape_def free_pages_def by simp
    ultimately show ?thesis using assms(1) Some by (simp add: same_geom_def f')
  qed
qed

lemma bump_hot_shape: "shape f \<Longrightarrow> shape (bump_hot f lp) \<and> same_geom f (bump_hot f lp)"
  by (simp add: bump_hot_def shape_simps same_geom_def)

lemma block_pages_in_range: "p \<in> set (block_pages f b) \<Longrightarrow> p < page_count f"
  by (simp add: block_pages_def)

lemma hot_score_safe:
  "shape f \<Longrightarrow> \<forall>p \<in> set ps. p < page_count f \<Longrightarrow> \<exists>z. hot_score f ps s = Some z"
proof (induction ps arbitrary: s)
  case (Cons p ps)
  then have r: "rd (phys_owner_lba f) p = Some (phys_owner_lba f ! p)" by (simp add: shape_def access)
  show ?case using Cons by (simp add: r split: option.split)
qed simp

lemma pick_block_safe:
  "shape f \<Longrightarrow> \<forall>b \<in> set bs. b < num_blocks f \<Longrightarrow> \<forall>b. c = Some b \<longrightarrow> b < num_blocks f \<Longrightarrow>
   \<exists>r. pick_block f bs best c = Some r \<and> (\<forall>b. r = Some b \<longrightarrow> b < num_blocks f)"
proof (induction f bs best c rule: pick_block.induct)
  case (2 f b bs best c)
  obtain z where z: "hot_score f (block_pages f b) 0 = Some z"
    using hot_score_safe [of f "block_pages f b"] "2.prems"(1) block_pages_in_range by blast
  have b: "rd (block_valid_count f) b = Some (block_valid_count f ! b)"
    using "2.prems"(1,2) by (simp add: shape_def access)
  let ?m = "wrap32 (block_valid_count f ! b * 16 + z)"
  have bs: "\<forall>b \<in> set bs. b < num_blocks f" and bb: "b < num_blocks f" using "2.prems" by simp_all
  show ?case
  proof (cases "?m < best")
    case True
    then show ?thesis using "2.IH"(1) [OF b z _ True] "2.prems"(1) bs bb z b by simp
  next
    case False
    then show ?thesis using "2.IH"(2) [OF b z _ False] "2.prems" bs z b by simp
  qed
qed simp

lemma gc_candidate_safe:
  "shape f \<Longrightarrow> \<exists>r. gc_candidate f = Some r \<and> (\<forall>b. r = Some b \<longrightarrow> b < num_blocks f)"
  unfolding gc_candidate_def by (rule pick_block_safe) (simp_all add: shape_def)

lemma gc_remap_safe:
  assumes "shape f" "p < page_count f" "q < page_count f"
  shows "\<exists>f'. gc_remap f owner p q = Some f' \<and> shape f' \<and> same_geom f f'"
proof (cases "\<exists>lba. owner = Some lba \<and> lba < length (l2p_map f)")
  case True
  then obtain lba where o: "owner = Some lba" "lba < page_count f"
    using assms by (auto simp: shape_def)
  obtain f1 where f1: "map_page f lba q = Some f1" using map_page_eq [OF assms(1) o(2) assms(3)] by blast
  note s1 = map_page_shape [OF assms(1) o(2) assms(3) f1]
  have p: "p < page_count f1" using assms s1 by (simp add: same_geom_def)
  obtain f2 where f2: "invalidate_page f1 p = Some f2"
    using invalidate_page_eq [OF conjunct1 [OF s1] p] by blast
  show ?thesis
    using o f1 f2 s1 invalidate_page_shape [OF conjunct1 [OF s1] p f2] True
    by (auto simp: gc_remap_def intro: same_geom_trans)
next
  case False
  then show ?thesis using assms by (auto simp: gc_remap_def split: option.splits)
qed

lemma erase_page_safe:
  assumes "shape f" "p < page_count f"
  shows "\<exists>f'. erase_page p f = Some f' \<and> shape f' \<and> same_geom f f'"
  using assms by (auto simp: erase_page_def shape_simps same_geom_def access Let_def)

lemma erase_pages_safe:
  "shape f \<Longrightarrow> \<forall>p \<in> set ps. p < page_count f \<Longrightarrow>
   \<exists>f'. erase_pages ps f = Some f' \<and> shape f' \<and> same_geom f f'"
proof (induction ps arbitrary: f)
  case (Cons p ps)
  then obtain f1 where f1: "erase_page p f = Some f1" "shape f1" "same_geom f f1"
    using erase_page_safe [of f p] by auto
  then have "\<forall>p \<in> set ps. p < page_count f1" using Cons.prems by (simp add: same_geom_def)
  then obtain f2 where f2: "erase_pages ps f1 = Some f2" "shape f2" "same_geom f1 f2"
    using Cons.IH f1(2) by blast
  show ?case using f1(1) f2 same_geom_trans [OF f1(3) f2(3)] by simp
qed simp

section \<open>Page stores\<close>

text \<open>
  The interface between the translation layer and the memory that holds the pages: copying an
  in-range page succeeds and changes the destination only. \<open>page m p\<close> is the content of page \<open>p\<close>.
\<close>

locale page_store =
  fixes copy :: "nat \<Rightarrow> nat \<Rightarrow> 'm \<Rightarrow> 'm option"
    and page :: "'m \<Rightarrow> nat \<Rightarrow> 'c"
    and store_ok :: "nat \<Rightarrow> 'm \<Rightarrow> bool"
  assumes copy_ok: "store_ok n m \<Longrightarrow> dst < n \<Longrightarrow> src < n \<Longrightarrow>
    \<exists>m'. copy dst src m = Some m' \<and> store_ok n m' \<and>
      (\<forall>q < n. page m' q = (if q = dst then page m src else page m q))"
begin

lemma gc_move_page_safe:
  assumes "shape f" "store_ok (page_count f) m" "p < page_count f"
  shows "\<exists>f' m'. gc_move_page copy p (f, m) = Some (f', m') \<and> shape f' \<and>
    same_geom f f' \<and> store_ok (page_count f) m'"
proof -
  have v: "rd (phys_valid f) p = Some (phys_valid f ! p)"
    and o: "rd (phys_owner_lba f) p = Some (phys_owner_lba f ! p)"
    using assms by (simp_all add: shape_def access)
  obtain r f1 where a: "AllocatePhysicalPage f False = (r, f1)" by fastforce
  note s1 = alloc_shape [OF assms(1) a]
  show ?thesis
  proof (cases "phys_valid f ! p \<and> r \<noteq> None")
    case True
    then obtain q where q: "r = Some q" "q < page_count f" using s1 by auto
    obtain m' where m': "copy q p m = Some m'" "store_ok (page_count f) m'"
      using copy_ok [OF assms(2) q(2) assms(3)] by blast
    obtain f2 where f2: "gc_remap f1 (phys_owner_lba f ! p) p q = Some f2" "shape f2" "same_geom f1 f2"
      using gc_remap_safe [of f1 p q] s1 assms(3) q by (auto simp: same_geom_def)
    have "same_geom f f2" using s1 f2 same_geom_trans by blast
    then show ?thesis using v o a q m' f2 True by (simp add: gc_move_page_def)
  next
    case False
    then show ?thesis using v o a assms by (auto simp: gc_move_page_def)
  qed
qed

lemma gc_move_pages_safe:
  "shape f \<Longrightarrow> store_ok (page_count f) m \<Longrightarrow> \<forall>p \<in> set ps. p < page_count f \<Longrightarrow>
   \<exists>f' m'. gc_move_pages copy ps (f, m) = Some (f', m') \<and> shape f' \<and>
     same_geom f f' \<and> store_ok (page_count f) m'"
proof (induction ps arbitrary: f m)
  case (Cons p ps)
  then obtain f1 m1 where f1: "gc_move_page copy p (f, m) = Some (f1, m1)" "shape f1"
    "same_geom f f1" "store_ok (page_count f) m1"
    using gc_move_page_safe [of f m p] by auto
  have pc: "page_count f1 = page_count f" using f1(3) by (simp add: same_geom_def)
  obtain f2 m2 where f2: "gc_move_pages copy ps (f1, m1) = Some (f2, m2)" "shape f2"
    "same_geom f1 f2" "store_ok (page_count f) m2"
    using Cons.IH [of f1 m1] f1 Cons.prems(3) by (auto simp: pc)
  show ?case using f1(1) f2 same_geom_trans [OF f1(3) f2(3)] by simp
qed simp

lemma gc_block_safe:
  assumes "shape f" "store_ok (page_count f) m" "b < num_blocks f"
  shows "\<exists>f' m'. gc_block copy b (f, m) = Some (f', m') \<and> shape f' \<and>
    same_geom f f' \<and> store_ok (page_count f) m'"
proof -
  let ?ps = "block_pages f b"
  have ps: "\<forall>p \<in> set ?ps. p < page_count f" using block_pages_in_range by blast
  obtain f1 m1 where m: "gc_move_pages copy ?ps (f, m) = Some (f1, m1)" "shape f1"
    "same_geom f f1" "store_ok (page_count f) m1"
    using gc_move_pages_safe [OF assms(1,2) ps] by blast
  obtain f2 where e: "erase_pages ?ps f1 = Some f2" "shape f2" "same_geom f1 f2"
    using erase_pages_safe [OF m(2), of ?ps] m(3) ps by (auto simp: same_geomD)
  have g: "same_geom f f2" using m(3) e(3) by (rule same_geom_trans)
  then have "wr (block_valid_count f2) b 0 = Some ((block_valid_count f2)[b := 0])"
    using e assms(3) by (simp add: shape_def access same_geomD)
  moreover have "shape (f2\<lparr>block_valid_count := (block_valid_count f2)[b := 0]\<rparr>)"
    "same_geom f (f2\<lparr>block_valid_count := (block_valid_count f2)[b := 0]\<rparr>)"
    using e(2) g by (simp_all add: shape_simps same_geom_def)
  ultimately show ?thesis using m e by (simp add: gc_block_def Let_def)
qed

lemma RunGC_safe:
  "shape f \<Longrightarrow> store_ok (page_count f) m \<Longrightarrow>
   \<exists>f' m'. RunGC copy target (f, m) = Some (f', m') \<and> shape f' \<and>
     same_geom f f' \<and> store_ok (page_count f) m'"
proof (induction "target - free_count f" arbitrary: f m rule: less_induct)
  case less
  obtain c where c: "gc_candidate f = Some c" "\<forall>b. c = Some b \<longrightarrow> b < num_blocks f"
    using gc_candidate_safe [OF less.prems(1)] by blast
  show ?case
  proof (cases "free_count f < target \<and> c \<noteq> None")
    case False
    then show ?thesis using c less.prems by (auto simp: RunGC.simps [of copy target "(f, m)"])
  next
    case True
    then obtain b where b: "c = Some b" by auto
    obtain f1 m1 where f1: "gc_block copy b (f, m) = Some (f1, m1)" "shape f1" "same_geom f f1"
      "store_ok (page_count f) m1"
      using gc_block_safe [OF less.prems, of b] c(2) b by blast
    have pc: "page_count f1 = page_count f" using f1(3) by (simp add: same_geom_def)
    show ?thesis
    proof (cases "free_count f1 \<le> free_count f \<or> free_count f1 \<ge> target")
      case stop: True
      then have "RunGC copy target (f, m) = Some (f1, m1)"
        using True b c(1) f1(1) by (auto simp add: RunGC.simps [of copy target "(f, m)"])
      then show ?thesis using f1 by blast
    next
      case go: False
      then have "target - free_count f1 < target - free_count f" using True go by auto
      then obtain f2 m2 where f2: "RunGC copy target (f1, m1) = Some (f2, m2)" "shape f2"
        "same_geom f1 f2" "store_ok (page_count f) m2"
        using less.hyps [of f1 m1] f1 pc by auto
      have "RunGC copy target (f, m) = RunGC copy target (f1, m1)"
        using go True b c(1) f1(1) by (simp add: RunGC.simps [of copy target "(f, m)"])
      then show ?thesis using f2 same_geom_trans [OF f1(3) f2(3)] by simp
    qed
  qed
qed

lemma gc_if_low_safe:
  assumes "shape f" "store_ok (page_count f) m"
  shows "\<exists>f' m'. gc_if_low copy (f, m) = Some (f', m') \<and> shape f' \<and> same_geom f f' \<and>
    store_ok (page_count f) m'"
  using RunGC_safe [OF assms] assms by (simp add: gc_if_low_def)

lemma alloc_or_gc_safe:
  assumes "shape f" "store_ok (page_count f) m"
  shows "\<exists>r f' m'. alloc_or_gc copy h (f, m) = Some (r, f', m') \<and> shape f' \<and> same_geom f f' \<and>
    store_ok (page_count f) m' \<and> (\<forall>p. r = Some p \<longrightarrow> p < page_count f)"
proof -
  obtain r f1 where a: "AllocatePhysicalPage f h = (r, f1)" by fastforce
  note s1 = alloc_shape [OF assms(1) a]
  show ?thesis
  proof (cases r)
    case (Some p)
    then show ?thesis using a s1 assms by (simp add: alloc_or_gc_def)
  next
    case None
    have pc: "page_count f1 = page_count f" using s1 by (simp add: same_geom_def)
    obtain f2 m2 where f2: "RunGC copy (gc_target_free f1) (f1, m) = Some (f2, m2)" "shape f2"
      "same_geom f1 f2" "store_ok (page_count f) m2"
      using RunGC_safe [of f1 m "gc_target_free f1"] s1 assms(2) pc by auto
    obtain r3 f3 where b: "AllocatePhysicalPage f2 h = (r3, f3)" by fastforce
    note s3 = alloc_shape [OF f2(2) b]
    have "same_geom f f2" using s1 f2(3) same_geom_trans by blast
    then have "same_geom f f3" "page_count f2 = page_count f"
      using s3 same_geom_trans by (blast, simp add: same_geom_def)
    then show ?thesis using a None f2 b s3 by (simp add: alloc_or_gc_def)
  qed
qed

end

text \<open>
  A store that can also be written: \<open>put x p old m\<close> fills page \<open>p\<close> with the version that the update
  \<open>x\<close> makes of the page whose previous copy is in \<open>old\<close> (\<open>None\<close>: never written), and changes no
  other page. \<open>arg_ok\<close> says which updates fit in a page.
\<close>

locale page_writer = page_store copy page store_ok
  for copy :: "nat \<Rightarrow> nat \<Rightarrow> 'm \<Rightarrow> 'm option" and page :: "'m \<Rightarrow> nat \<Rightarrow> 'c"
    and store_ok :: "nat \<Rightarrow> 'm \<Rightarrow> bool" +
  fixes put :: "'x \<Rightarrow> nat \<Rightarrow> nat option \<Rightarrow> 'm \<Rightarrow> 'm option" and arg_ok :: "'x \<Rightarrow> bool"
    and upd :: "'x \<Rightarrow> 'c option \<Rightarrow> 'c"
  assumes put_ok: "arg_ok x \<Longrightarrow> store_ok n m \<Longrightarrow> p < n \<Longrightarrow> (\<And>q. old = Some q \<Longrightarrow> q < n) \<Longrightarrow>
    \<exists>m'. put x p old m = Some m' \<and> store_ok n m' \<and>
      (\<forall>q < n. page m' q = (if q = p then upd x (map_option (page m) old) else page m q))"
begin

lemma write_step_safe:
  assumes "arg_ok x" "shape f" "store_ok (page_count f) m" "lp < page_count f"
  shows "\<exists>ok f' m'. write_step copy (put x) tracking lp (f, m) = Some (ok, f', m') \<and> shape f' \<and>
    same_geom f f' \<and> store_ok (page_count f) m'"
proof -
  define f1 where "f1 = bump_hot f lp"
  have s1: "shape f1" "same_geom f f1" using bump_hot_shape [OF assms(2)] by (simp_all add: f1_def)
  then have pc1: "page_count f1 = page_count f" by (simp add: same_geom_def)
  obtain r f2 m2 where a: "alloc_or_gc copy (prefers_hot f1 lp) (f1, m) = Some (r, f2, m2)" "shape f2"
    "same_geom f1 f2" "store_ok (page_count f) m2" "\<forall>p. r = Some p \<longrightarrow> p < page_count f"
    using alloc_or_gc_safe [of f1 m "prefers_hot f1 lp"] s1(1) assms(3) pc1 by auto
  have g2: "same_geom f f2" using s1(2) a(3) by (rule same_geom_trans)
  then have pc2: "page_count f2 = page_count f" by (simp add: same_geom_def)
  show ?thesis
  proof (cases r)
    case None
    then show ?thesis using a g2
      by (intro exI [of _ False] exI [of _ f2] exI [of _ m2]) (simp add: write_step_def f1_def [symmetric] Let_def)
  next
    case (Some p)
    define old where "old = l2p_map f2 ! lp"
    have lp: "lp < length (l2p_map f2)" using a(2) assms(4) pc2 by (simp add: shape_def)
    have "old \<in> set (l2p_map f2)" using lp by (simp add: old_def)
    then have old: "q < page_count f" if "old = Some q" for q
      using a(2) that pc2 by (simp add: shape_def)
    obtain m3 where m3: "put x p old m2 = Some m3" "store_ok (page_count f) m3"
      using put_ok [OF assms(1) a(4), of p old] a(5) Some old by blast
    obtain f3 where f3: "commit_write tracking f2 lp p old = Some f3" "shape f3" "same_geom f2 f3"
      using commit_write_safe [OF a(2), of lp p old tracking] assms(4) a(5) Some old pc2 by auto
    then show ?thesis using a Some m3 lp g2 same_geom_trans [OF g2 f3(3)]
      by (intro exI [of _ True] exI [of _ f3] exI [of _ m3]) (simp add: write_step_def f1_def [symmetric] old_def [symmetric] Let_def)
  qed
qed

end

end
