(* ===== verification/Ftl_Mapping.thy ===== *)
theory Ftl_Mapping
  imports Ftl_Safety
begin

text \<open>
  What the translation layer means: \<open>view\<close> is the content a logical page shows (the abstract device:
  a map from logical pages to contents). \<open>ftl_inv\<close> is the invariant that makes it well defined: the
  mapping and the owner table are inverse bijections between mapped logical pages and valid physical
  pages, and the free lists hold each free page once, none of them valid. Moving a page, erasing a block that holds no free
  page and one whole collection cycle keep the invariant and the view of every logical page; a page
  write updates exactly one.
\<close>

section \<open>The invariant\<close>

definition ftl_inv :: "ftl \<Rightarrow> bool" where
  "ftl_inv f \<longleftrightarrow> shape f \<and> distinct (free_pages f) \<and>
     (\<forall>p \<in> set (free_pages f). \<not> phys_valid f ! p) \<and>
     (\<forall>lp < page_count f. \<forall>p. l2p_map f ! lp = Some p \<longrightarrow>
        phys_valid f ! p \<and> phys_owner_lba f ! p = Some lp) \<and>
     (\<forall>p < page_count f. phys_valid f ! p \<longrightarrow>
        (\<exists>lp < page_count f. phys_owner_lba f ! p = Some lp \<and> l2p_map f ! lp = Some p))"

lemma ftl_inv_shape: "ftl_inv f \<Longrightarrow> shape f"
  by (simp add: ftl_inv_def)

lemma ftl_inv_l2p:
  "ftl_inv f \<Longrightarrow> lp < page_count f \<Longrightarrow> l2p_map f ! lp = Some p \<Longrightarrow>
   phys_valid f ! p \<and> phys_owner_lba f ! p = Some lp \<and> p < page_count f"
  unfolding ftl_inv_def shape_def by (metis nth_mem)

lemma ftl_inv_valid:
  "ftl_inv f \<Longrightarrow> p < page_count f \<Longrightarrow> phys_valid f ! p \<Longrightarrow>
   \<exists>lp < page_count f. phys_owner_lba f ! p = Some lp \<and> l2p_map f ! lp = Some p"
  by (simp add: ftl_inv_def)

lemma ftl_inv_free: "ftl_inv f \<Longrightarrow> p \<in> set (free_pages f) \<Longrightarrow> \<not> phys_valid f ! p \<and> p < page_count f"
  by (simp add: ftl_inv_def shape_def)

text \<open>Two logical pages never share a physical page.\<close>

lemma l2p_inj:
  "ftl_inv f \<Longrightarrow> lp < page_count f \<Longrightarrow> lq < page_count f \<Longrightarrow> l2p_map f ! lp = Some p \<Longrightarrow>
   l2p_map f ! lq = Some p \<Longrightarrow> lp = lq"
  using ftl_inv_l2p [of f lp p] ftl_inv_l2p [of f lq p] by simp

lemma ftl_inv_init:
  assumes "good_capacity capacity"
  shows "ftl_inv (ftl_init capacity)"
proof -
  let ?n = "page_count (ftl_init capacity)"
  have "free_hot (ftl_init capacity) = filter (\<lambda>p. phys_block (ftl_init capacity) ! p < max 1 (num_blocks (ftl_init capacity) div 5)) (rev [0..<?n])"
    "free_cold (ftl_init capacity) = filter (\<lambda>p. \<not> phys_block (ftl_init capacity) ! p < max 1 (num_blocks (ftl_init capacity) div 5)) (rev [0..<?n])"
    by (simp_all only: ftl_init_def Let_def ftl.select_convs)
  then have "distinct (free_pages (ftl_init capacity))"
    unfolding free_pages_def by (simp add: distinct_append disjoint_iff)
  moreover have "l2p_map (ftl_init capacity) = replicate ?n None"
    "phys_valid (ftl_init capacity) = replicate ?n False"
    by (simp_all only: ftl_init_def Let_def ftl.select_convs)
  moreover have "\<forall>p \<in> set (free_pages (ftl_init capacity)). p < ?n"
    using set_free_init [of capacity] by simp
  ultimately show ?thesis using shape_init [OF assms] by (simp add: ftl_inv_def)
qed

section \<open>Remapping one logical page\<close>

text \<open>
  The common effect of a page write and of a move by the collector: \<open>lp\<close> now lives in the free page
  \<open>q\<close>, and its previous page, if any, is invalid.
\<close>

definition remapped :: "ftl \<Rightarrow> nat \<Rightarrow> nat \<Rightarrow> ftl \<Rightarrow> bool" where
  "remapped f lp q f' \<longleftrightarrow> same_geom f f' \<and>
     mset (free_pages f) = add_mset q (mset (free_pages f')) \<and>
     l2p_map f' = (l2p_map f)[lp := Some q] \<and>
     (case l2p_map f ! lp of
        None \<Rightarrow> phys_valid f' = (phys_valid f)[q := True] \<and>
                phys_owner_lba f' = (phys_owner_lba f)[q := Some lp]
      | Some p \<Rightarrow> phys_valid f' = (phys_valid f)[q := True, p := False] \<and>
                  phys_owner_lba f' = (phys_owner_lba f)[q := Some lp, p := None])"

lemma remapped_free:
  assumes "remapped f lp q f'"
  shows "set (free_pages f) = insert q (set (free_pages f'))"
    and "free_count f = free_count f' + 1"
proof -
  have m: "mset (free_pages f) = add_mset q (mset (free_pages f'))"
    using assms by (simp add: remapped_def)
  from arg_cong [OF m, of set_mset] show "set (free_pages f) = insert q (set (free_pages f'))" by simp
  from arg_cong [OF m, of size] show "free_count f = free_count f' + 1"
    by (simp add: free_count_def free_pages_def)
qed

lemma remapped_inv:
  assumes "ftl_inv f" "shape f'" "lp < page_count f" "remapped f lp q f'"
  shows "ftl_inv f'"
proof -
  have m: "mset (free_pages f) = add_mset q (mset (free_pages f'))"
    and pc: "page_count f' = page_count f"
    and l2p: "l2p_map f' = (l2p_map f)[lp := Some q]"
    using assms(4) by (simp_all add: remapped_def same_geom_def)
  have len: "length (l2p_map f) = page_count f" "length (phys_valid f) = page_count f"
    "length (phys_owner_lba f) = page_count f"
    using assms(1) by (simp_all add: ftl_inv_def shape_def)
  have q: "\<not> phys_valid f ! q" "q < page_count f"
    using ftl_inv_free [OF assms(1), of q] remapped_free(1) [OF assms(4)] by simp_all
  have "distinct (q # free_pages f')"
    using assms(1) m mset_eq_imp_distinct_iff [of "free_pages f" "q # free_pages f'"] by (simp add: ftl_inv_def)
  then have dist: "distinct (free_pages f')" and qf: "q \<notin> set (free_pages f')" by simp_all
  have old: "phys_valid f ! p" "phys_owner_lba f ! p = Some lp" "p < page_count f" "p \<noteq> q"
    if "l2p_map f ! lp = Some p" for p
    using ftl_inv_l2p [OF assms(1,3) that] q by auto
  have valid: "phys_valid f' ! r \<longleftrightarrow> r = q \<or> phys_valid f ! r \<and> l2p_map f ! lp \<noteq> Some r"
    if "r < page_count f" for r
    using assms(4) old that len q
    by (cases "l2p_map f ! lp") (auto simp: remapped_def nth_list_update)
  have owner: "phys_owner_lba f' ! r =
      (if r = q then Some lp else if l2p_map f ! lp = Some r then None else phys_owner_lba f ! r)"
    if "r < page_count f" for r
    using assms(4) old that len q
    by (cases "l2p_map f ! lp") (auto simp: remapped_def nth_list_update)
  have free: "\<not> phys_valid f' ! r" if "r \<in> set (free_pages f')" for r
    using that qf ftl_inv_free [OF assms(1), of r] remapped_free(1) [OF assms(4)] valid [of r] by auto
  have fwd: "phys_valid f' ! r \<and> phys_owner_lba f' ! r = Some lq"
    if "lq < page_count f" "l2p_map f' ! lq = Some r" for lq r
  proof (cases "lq = lp")
    case True
    then show ?thesis using that l2p len q valid owner by simp
  next
    case False
    then have r: "l2p_map f ! lq = Some r" using that l2p by simp
    then have "l2p_map f ! lp \<noteq> Some r" using l2p_inj [OF assms(1,3) that(1)] False by blast
    then show ?thesis using ftl_inv_l2p [OF assms(1) that(1) r] valid [of r] owner [of r] q by auto
  qed
  have bwd: "\<exists>lq < page_count f. phys_owner_lba f' ! r = Some lq \<and> l2p_map f' ! lq = Some r"
    if "r < page_count f" "phys_valid f' ! r" for r
  proof (cases "r = q")
    case True
    then show ?thesis using owner [OF that(1)] l2p len assms(3) by auto
  next
    case False
    note r = that(1)
    from False have "phys_valid f ! r" and ne: "l2p_map f ! lp \<noteq> Some r" using valid that by auto
    then obtain lq where lq: "lq < page_count f" "phys_owner_lba f ! r = Some lq" "l2p_map f ! lq = Some r"
      using ftl_inv_valid [OF assms(1) r] by blast
    then have "lq \<noteq> lp" using ne by blast
    then show ?thesis using lq owner [OF that(1)] False ne l2p by auto
  qed
  show ?thesis unfolding ftl_inv_def pc using assms(2) dist free fwd bwd by blast
qed

lemma alloc_remap_start:
  assumes "ftl_inv f" "AllocatePhysicalPage f h = (Some q, f1)"
  shows "shape f1" "same_geom f f1" "q < page_count f" "q \<in> set (free_pages f)"
    "mset (free_pages f) = add_mset q (mset (free_pages f1))"
    "l2p_map f1 = l2p_map f" "phys_valid f1 = phys_valid f" "phys_owner_lba f1 = phys_owner_lba f"
proof -
  obtain hs cs where f1: "f1 = f\<lparr>free_hot := hs, free_cold := cs\<rparr>"
    and m: "mset (free_pages f) = add_mset q (mset (hs @ cs))"
    using AllocatePhysicalPage_free [OF assms(2)] by auto
  then show "mset (free_pages f) = add_mset q (mset (free_pages f1))" by (simp add: free_pages_def)
  from arg_cong [OF this, of set_mset] show "q \<in> set (free_pages f)" by simp
  show "shape f1" "same_geom f f1" "q < page_count f"
    using alloc_shape [OF ftl_inv_shape [OF assms(1)] assms(2)] by simp_all
  show "l2p_map f1 = l2p_map f" "phys_valid f1 = phys_valid f" "phys_owner_lba f1 = phys_owner_lba f"
    by (simp_all add: f1)
qed

lemma map_invalidate_remapped:
  assumes "ftl_inv f" "AllocatePhysicalPage f h = (Some q, f1)" "lp < page_count f"
    and "map_page f1 lp q = Some f2"
    and "case l2p_map f ! lp of None \<Rightarrow> f3 = f2 | Some p \<Rightarrow> invalidate_page f2 p = Some f3"
  shows "remapped f lp q f3 \<and> shape f3"
proof -
  note a = alloc_remap_start [OF assms(1,2)]
  have pc: "page_count f1 = page_count f" using a(2) by (simp add: same_geom_def)
  note e2 = map_page_eq [OF a(1), of lp q, unfolded pc, OF assms(3) a(3)]
  have s2: "shape f2" "same_geom f1 f2"
    using map_page_shape [OF a(1), of lp q f2, unfolded pc, OF assms(3) a(3) assms(4)] by simp_all
  have pc2: "page_count f2 = page_count f" using s2(2) pc by (simp add: same_geom_def)
  have g2: "same_geom f f2" using a(2) s2(2) by (rule same_geom_trans)
  have f2: "l2p_map f2 = (l2p_map f)[lp := Some q]" "phys_valid f2 = (phys_valid f)[q := True]"
    "phys_owner_lba f2 = (phys_owner_lba f)[q := Some lp]" "free_pages f2 = free_pages f1"
    using e2 assms(4) a(6-8) by (auto simp: free_pages_def)
  show ?thesis
  proof (cases "l2p_map f ! lp")
    case None
    then show ?thesis using assms(5) f2 a(5) s2 g2 by (simp add: remapped_def)
  next
    case (Some p)
    then have p: "p < page_count f2" using ftl_inv_l2p [OF assms(1,3)] pc2 by simp
    have i: "invalidate_page f2 p = Some f3" using assms(5) Some by simp
    have s3: "shape f3" "same_geom f2 f3" using invalidate_page_shape [OF s2(1) p i] by simp_all
    have "l2p_map f3 = l2p_map f2" "phys_valid f3 = (phys_valid f2)[p := False]"
      "phys_owner_lba f3 = (phys_owner_lba f2)[p := None]" "free_pages f3 = free_pages f2"
      using invalidate_page_eq [OF s2(1) p] i by (auto simp: free_pages_def)
    then show ?thesis using Some f2 a(5) s3 same_geom_trans [OF g2 s3(2)] by (simp add: remapped_def)
  qed
qed

text \<open>The write path: half-select disturb touches none of the mapping.\<close>

lemma disturb_neighbor_inv:
  assumes "shape f" "disturb_neighbor tr f p = Some f'"
  shows "l2p_map f' = l2p_map f \<and> phys_valid f' = phys_valid f \<and> phys_owner_lba f' = phys_owner_lba f \<and>
    free_pages f' = free_pages f \<and> same_geom f f'"
  using disturb_neighbor_eq [OF assms(1), of tr p] assms(2) by (auto simp: free_pages_def same_geom_def)

lemma commit_write_remapped:
  assumes "ftl_inv f" "AllocatePhysicalPage f h = (Some q, f1)" "lp < page_count f"
    and "commit_write tr f1 lp q (l2p_map f ! lp) = Some f'"
  shows "remapped f lp q f' \<and> shape f'"
proof -
  note a = alloc_remap_start [OF assms(1,2)]
  have pc: "page_count f1 = page_count f" using a(2) by (simp add: same_geom_def)
  obtain f2 where f2: "map_page f1 lp q = Some f2"
    using assms(4) by (auto simp: commit_write_def split: Option.bind_splits)
  have s2: "shape f2" using map_page_shape [OF a(1), of lp q f2] f2 pc assms(3) a(3) by simp
  obtain f3 where f3: "disturb_neighbor tr f2 q = Some f3"
    using assms(4) f2 by (auto simp: commit_write_def split: Option.bind_splits)
  have s3: "shape f3" using disturb_neighbor_shape [OF s2 f3] by simp
  note d = disturb_neighbor_inv [OF s2 f3]
  have s: "shape f'"
    using commit_write_safe [OF a(1), of lp q "l2p_map f ! lp" tr] assms a(3) pc
      ftl_inv_l2p [OF assms(1,3)] by auto
  show ?thesis
  proof (cases "l2p_map f ! lp")
    case None
    then have "f' = f3" using assms(4) f2 f3 by (simp add: commit_write_def)
    moreover have "remapped f lp q f2"
      using map_invalidate_remapped [OF assms(1-3) f2] None by simp
    ultimately show ?thesis using d s None same_geom_trans by (simp add: remapped_def same_geom_def)
  next
    case (Some p)
    then have i: "invalidate_page f3 p = Some f'" using assms(4) f2 f3 by (simp add: commit_write_def)
    have p: "p < page_count f2"
      using ftl_inv_l2p [OF assms(1,3) Some] pc map_page_shape [OF a(1), of lp q f2] f2 assms(3) a(3)
      by (simp add: same_geom_def)
    obtain g where g: "invalidate_page f2 p = Some g" using invalidate_page_eq [OF s2 p] by blast
    have r: "remapped f lp q g" using map_invalidate_remapped [OF assms(1-3) f2] Some g by simp
    have p3: "p < page_count f3" using p d by (simp add: same_geom_def)
    have "l2p_map f' = l2p_map g \<and> phys_valid f' = phys_valid g \<and> phys_owner_lba f' = phys_owner_lba g \<and>
        free_pages f' = free_pages g \<and> same_geom g f'"
      using invalidate_page_eq [OF s2 p] invalidate_page_eq [OF s3 p3] i g d
      by (auto simp: free_pages_def same_geom_def)
    then show ?thesis using r s Some by (simp add: remapped_def same_geom_def)
  qed
qed

end
