(* ===== verification/Ftl_Gc.thy ===== *)
theory Ftl_Gc
  imports Ftl_Mapping
begin

text \<open>
  The abstract device behind the translation layer and the refinement to it: \<open>view\<close> is the content each
  logical page shows. One page write updates one logical page; moving a page, erasing a block that
  holds no free page, and one whole collection cycle change no logical page.
\<close>

definition view :: "('m \<Rightarrow> nat \<Rightarrow> 'c) \<Rightarrow> ftl \<Rightarrow> 'm \<Rightarrow> nat \<Rightarrow> 'c option" where
  "view page f m lp = map_option (page m) (l2p_map f ! lp)"

definition same_view :: "('m \<Rightarrow> nat \<Rightarrow> 'c) \<Rightarrow> ftl \<Rightarrow> 'm \<Rightarrow> ftl \<Rightarrow> 'm \<Rightarrow> bool" where
  "same_view page f m f' m' \<longleftrightarrow>
     (\<forall>lp < page_count f. view page f' m' lp = view page f m lp) \<and> page_count f' = page_count f"

lemma same_view_refl [simp]: "same_view page f m f m"
  by (simp add: same_view_def)

lemma same_view_trans [trans]:
  "same_view page f m g k \<Longrightarrow> same_view page g k h l \<Longrightarrow> same_view page f m h l"
  by (simp add: same_view_def)

text \<open>A remapped page shows what the store holds in its new place; the others are untouched.\<close>

lemma remapped_view:
  assumes "ftl_inv f" "lp < page_count f" "remapped f lp q f'" "lq < page_count f"
    and "\<forall>r < page_count f. page m' r = (if r = q then c else page m r)"
  shows "view page f' m' lq = (if lq = lp then Some c else view page f m lq)"
proof -
  have l2p: "l2p_map f' = (l2p_map f)[lp := Some q]" using assms(3) by (simp add: remapped_def)
  have len: "length (l2p_map f) = page_count f" using assms(1) by (simp add: ftl_inv_def shape_def)
  have q: "q < page_count f" "\<not> phys_valid f ! q"
    using ftl_inv_free [OF assms(1), of q] remapped_free(1) [OF assms(3)] by simp_all
  show ?thesis
  proof (cases "lq = lp")
    case True
    then show ?thesis using l2p len assms(2,5) q by (simp add: view_def)
  next
    case False
    show ?thesis
    proof (cases "l2p_map f ! lq")
      case None
      then show ?thesis using False l2p by (simp add: view_def)
    next
      case (Some r)
      then have "r < page_count f" "r \<noteq> q" using ftl_inv_l2p [OF assms(1,4) Some] q by auto
      then show ?thesis using False l2p Some assms(5) by (simp add: view_def)
    qed
  qed
qed

section \<open>Erasing\<close>

definition erased :: "ftl \<Rightarrow> nat list \<Rightarrow> ftl \<Rightarrow> bool" where
  "erased f ps f' \<longleftrightarrow> same_geom f f' \<and> l2p_map f' = l2p_map f \<and> phys_valid f' = phys_valid f \<and>
     (\<forall>p < page_count f. phys_valid f ! p \<longrightarrow> phys_owner_lba f' ! p = phys_owner_lba f ! p) \<and>
     mset (free_pages f') = mset (free_pages f) + mset (filter (\<lambda>p. \<not> phys_valid f ! p) ps)"

lemma erase_page_erased:
  assumes "shape f" "p < page_count f" "erase_page p f = Some f'"
  shows "erased f [p] f'"
proof (cases "phys_valid f ! p")
  case True
  then have "f' = f" using assms by (simp add: erase_page_def shape_def access)
  then show ?thesis using True by (simp add: erased_def)
next
  case False
  then have "(phys_valid f)[p := False] = phys_valid f" by (metis (full_types) list_update_id)
  then show ?thesis using False assms
    by (auto simp: erase_page_def erased_def shape_def access free_pages_def same_geom_def Let_def
        nth_list_update split: if_splits)
qed

lemma erase_pages_erased:
  "shape f \<Longrightarrow> \<forall>p \<in> set ps. p < page_count f \<Longrightarrow> erase_pages ps f = Some f' \<Longrightarrow> erased f ps f'"
proof (induction ps arbitrary: f)
  case Nil
  then show ?case by (simp add: erased_def)
next
  case (Cons p ps)
  obtain f1 where f1: "erase_page p f = Some f1" "shape f1" "same_geom f f1"
    using erase_page_safe [of f p] Cons.prems by auto
  have e1: "erased f [p] f1" using erase_page_erased [OF Cons.prems(1) _ f1(1)] Cons.prems(2) by simp
  have pc: "page_count f1 = page_count f" using f1(3) by (simp add: same_geom_def)
  have "erased f1 ps f'" using Cons.IH [OF f1(2)] f1(1) Cons.prems(2,3) pc by simp
  then show ?case using e1 pc by (auto simp: erased_def same_geom_def)
qed

lemma erased_inv:
  assumes "ftl_inv f" "shape f'" "erased f ps f'" "distinct ps" "\<forall>p \<in> set ps. p < page_count f"
    and "set ps \<inter> set (free_pages f) = {}"
  shows "ftl_inv f'"
proof -
  have m: "mset (free_pages f') = mset (free_pages f @ filter (\<lambda>p. \<not> phys_valid f ! p) ps)"
    and pc: "page_count f' = page_count f" and l2p: "l2p_map f' = l2p_map f"
    and v: "phys_valid f' = phys_valid f"
    and ow: "\<forall>p < page_count f. phys_valid f ! p \<longrightarrow> phys_owner_lba f' ! p = phys_owner_lba f ! p"
    using assms(3) by (simp_all add: erased_def same_geom_def)
  have "distinct (free_pages f @ filter (\<lambda>p. \<not> phys_valid f ! p) ps)"
    using assms(1,4,6) by (auto simp: ftl_inv_def)
  then have d: "distinct (free_pages f')" using mset_eq_imp_distinct_iff [OF m] by simp
  from arg_cong [OF m, of set_mset]
  have fr: "\<forall>p \<in> set (free_pages f'). \<not> phys_valid f' ! p" using ftl_inv_free [OF assms(1)] v by auto
  have fwd: "phys_valid f' ! p \<and> phys_owner_lba f' ! p = Some lp"
    if "lp < page_count f" "l2p_map f' ! lp = Some p" for lp p
    using ftl_inv_l2p [OF assms(1) that(1), of p] that(2) l2p v ow by auto
  have bwd: "\<exists>lp < page_count f. phys_owner_lba f' ! p = Some lp \<and> l2p_map f' ! lp = Some p"
    if "p < page_count f" "phys_valid f' ! p" for p
    using ftl_inv_valid [OF assms(1) that(1)] that l2p v ow by auto
  show ?thesis unfolding ftl_inv_def pc using assms(2) d fr fwd bwd by blast
qed

text \<open>
  Erasing pushes every page that is not valid, also one that is in a free list already: a free page
  of an erased block ends up twice in the free lists.
\<close>

lemma erased_duplicates:
  assumes "erased f ps f'" "p \<in> set ps" "p \<in> set (free_pages f)" "\<not> phys_valid f ! p"
  shows "\<not> distinct (free_pages f')"
proof
  assume d: "distinct (free_pages f')"
  have m: "mset (free_pages f') = mset (free_pages f @ filter (\<lambda>p. \<not> phys_valid f ! p) ps)"
    using assms(1) by (simp add: erased_def)
  have "distinct (free_pages f @ filter (\<lambda>p. \<not> phys_valid f ! p) ps)"
    using mset_eq_imp_distinct_iff [OF m] d by simp
  then show False using assms(2-4) by auto
qed

section \<open>A collection cycle\<close>

definition invalid_in :: "ftl \<Rightarrow> nat list \<Rightarrow> nat" where
  "invalid_in f ps = length (filter (\<lambda>p. \<not> phys_valid f ! p) ps)"

text \<open>What moving some pages out of a block leaves unchanged.\<close>

definition moved :: "('m \<Rightarrow> nat \<Rightarrow> 'c) \<Rightarrow> ftl \<Rightarrow> 'm \<Rightarrow> ftl \<Rightarrow> 'm \<Rightarrow> bool" where
  "moved page f m f' m' \<longleftrightarrow> ftl_inv f' \<and> same_geom f f' \<and> same_view page f m f' m' \<and>
     set (free_pages f') \<subseteq> set (free_pages f)"

lemma moved_refl: "ftl_inv f \<Longrightarrow> moved page f m f m"
  by (simp add: moved_def)

lemma moved_trans: "moved page f m g k \<Longrightarrow> moved page g k h l \<Longrightarrow> moved page f m h l"
  unfolding moved_def using same_geom_trans [of f g h] same_view_trans [of page f m g k h l] by blast

text \<open>Moving a page out of a block keeps the number of free pages plus invalid pages of the block.\<close>

lemma invalid_in_move:
  assumes "distinct ps" "p \<in> set ps" "phys_valid f ! p" "q \<notin> set ps"
    and "\<forall>r \<in> set ps. r < length (phys_valid f)"
    and "phys_valid f' = (phys_valid f)[q := True, p := False]"
  shows "invalid_in f' ps = invalid_in f ps + 1"
proof -
  have v: "phys_valid f' ! r \<longleftrightarrow> r \<noteq> p \<and> phys_valid f ! r" if "r \<in> set ps" for r
  proof -
    have "r \<noteq> q" "p < length (phys_valid f)" using assms(2,4,5) that by auto
    then show ?thesis using assms(5,6) that by (cases "r = p") simp_all
  qed
  have c: "invalid_in g ps = card {r \<in> set ps. \<not> phys_valid g ! r}" for g
    using assms(1) by (simp add: invalid_in_def distinct_length_filter Collect_conj_eq Int_commute)
  have "{r \<in> set ps. \<not> phys_valid f' ! r} = insert p {r \<in> set ps. \<not> phys_valid f ! r}"
    using v assms(2) by auto
  then show ?thesis using c assms(3) by simp
qed

context page_store
begin

lemma gc_move_page_moved:
  assumes "ftl_inv f" "store_ok (page_count f) m" "p < page_count f"
    and "gc_move_page copy p (f, m) = Some (f', m')"
  shows "moved page f m f' m' \<and> store_ok (page_count f) m' \<and>
    (f' = f \<or> phys_valid f ! p \<and> (\<exists>lp q. q \<in> set (free_pages f) \<and>
       l2p_map f ! lp = Some p \<and> remapped f lp q f'))"
proof -
  have v: "rd (phys_valid f) p = Some (phys_valid f ! p)"
    and o: "rd (phys_owner_lba f) p = Some (phys_owner_lba f ! p)"
    using assms by (simp_all add: ftl_inv_def shape_def access)
  obtain r f1 where a: "AllocatePhysicalPage f False = (r, f1)" by fastforce
  show ?thesis
  proof (cases "phys_valid f ! p \<and> r \<noteq> None")
    case False
    then have "gc_move_page copy p (f, m) = Some (f, m)"
      by (cases "phys_valid f ! p") (simp_all add: gc_move_page_def v o a)
    then have "f' = f" "m' = m" using assms(4) by simp_all
    then show ?thesis using moved_refl [OF assms(1)] assms(2) by simp
  next
    case True
    then obtain q where q: "r = Some q" by auto
    have aq: "AllocatePhysicalPage f False = (Some q, f1)" using a q by simp
    note st = alloc_remap_start [OF assms(1) aq]
    obtain lp where lp: "lp < page_count f" "phys_owner_lba f ! p = Some lp" "l2p_map f ! lp = Some p"
      using ftl_inv_valid [OF assms(1,3)] True by blast
    have len: "lp < length (l2p_map f1)" using lp(1) st(6) assms(1) by (simp add: ftl_inv_def shape_def)
    obtain m1 where c: "copy q p m = Some m1" "store_ok (page_count f) m1"
      "\<forall>r < page_count f. page m1 r = (if r = q then page m p else page m r)"
      using copy_ok [OF assms(2) st(3) assms(3)] by blast
    have "gc_move_page copy p (f, m) =
        Option.bind (gc_remap f1 (Some lp) p q) (\<lambda>f2. Some (f2, m1))"
      using True by (simp add: gc_move_page_def v o aq lp(2) c(1))
    then have g: "gc_remap f1 (Some lp) p q = Some f'" "m' = m1"
      using assms(4) by (auto split: Option.bind_splits)
    obtain f2 where f2: "map_page f1 lp q = Some f2" "invalidate_page f2 p = Some f'"
      using g(1) len by (auto simp: gc_remap_def split: Option.bind_splits)
    have r: "remapped f lp q f'" "shape f'"
      using map_invalidate_remapped [OF assms(1) aq lp(1) f2(1)] f2(2) lp(3) by simp_all
    have inv: "ftl_inv f'" using remapped_inv [OF assms(1) r(2) lp(1) r(1)] .
    have geom: "same_geom f f'" using r(1) by (simp add: remapped_def)
    have "view page f' m' lq = view page f m lq" if "lq < page_count f" for lq
      using remapped_view [OF assms(1) lp(1) r(1) that c(3)] g(2) lp(3) by (simp add: view_def)
    then have "same_view page f m f' m'" using geom by (simp add: same_view_def same_geom_def)
    moreover have "set (free_pages f') \<subseteq> set (free_pages f)" using remapped_free(1) [OF r(1)] by blast
    ultimately show ?thesis using inv geom c(2) g(2) r(1) lp(3) st(4) True unfolding moved_def by blast
  qed
qed

lemma gc_move_pages_moved:
  "ftl_inv f \<Longrightarrow> store_ok (page_count f) m \<Longrightarrow> \<forall>p \<in> set ps. p < page_count f \<Longrightarrow>
   gc_move_pages copy ps (f, m) = Some (f', m') \<Longrightarrow>
   moved page f m f' m' \<and> store_ok (page_count f) m'"
proof (induction ps arbitrary: f m)
  case Nil
  then show ?case using moved_refl by simp
next
  case (Cons p ps)
  obtain f1 m1 where f1: "gc_move_page copy p (f, m) = Some (f1, m1)"
    using gc_move_page_safe [of f m p] Cons.prems by (auto simp: ftl_inv_def)
  have m1: "moved page f m f1 m1" "store_ok (page_count f) m1"
    using gc_move_page_moved [OF Cons.prems(1,2) _ f1] Cons.prems(3) by simp_all
  have pc: "page_count f1 = page_count f" and inv: "ftl_inv f1"
    using m1(1) by (simp_all add: moved_def same_geom_def)
  have "moved page f1 m1 f' m' \<and> store_ok (page_count f1) m'"
    using Cons.IH [OF inv] m1(2) Cons.prems(3,4) f1 pc by simp
  then show ?case using moved_trans [OF m1(1)] pc by simp
qed

text \<open>Moving out of pages none of which is free: each move turns one free page into an invalid one.\<close>

lemma gc_move_pages_gain:
  "ftl_inv f \<Longrightarrow> store_ok (page_count f) m \<Longrightarrow> \<forall>p \<in> set (done @ ps). p < page_count f \<Longrightarrow>
   distinct (done @ ps) \<Longrightarrow> set (done @ ps) \<inter> set (free_pages f) = {} \<Longrightarrow>
   gc_move_pages copy ps (f, m) = Some (f', m') \<Longrightarrow>
   free_count f' + invalid_in f' (done @ ps) = free_count f + invalid_in f (done @ ps)"
proof (induction ps arbitrary: f m "done")
  case Nil
  then show ?case by simp
next
  case (Cons p ps)
  obtain f1 m1 where f1: "gc_move_page copy p (f, m) = Some (f1, m1)"
    using gc_move_page_safe [of f m p] Cons.prems by (auto simp: ftl_inv_def)
  have p: "p < page_count f" using Cons.prems(3) by simp
  have m1: "moved page f m f1 m1" "store_ok (page_count f) m1"
    and step: "f1 = f \<or> phys_valid f ! p \<and> (\<exists>lp q. q \<in> set (free_pages f) \<and>
      l2p_map f ! lp = Some p \<and> remapped f lp q f1)"
    using gc_move_page_moved [OF Cons.prems(1,2) p f1] by simp_all
  have pc: "page_count f1 = page_count f" and inv: "ftl_inv f1"
    and sub: "set (free_pages f1) \<subseteq> set (free_pages f)"
    using m1(1) by (simp_all add: moved_def same_geom_def)
  have 1: "free_count f1 + invalid_in f1 (done @ p # ps) = free_count f + invalid_in f (done @ p # ps)"
  proof (cases "f1 = f")
    case False
    then obtain lp q where q: "q \<in> set (free_pages f)" "l2p_map f ! lp = Some p" "remapped f lp q f1"
      and v: "phys_valid f ! p" using step by blast
    have "phys_valid f1 = (phys_valid f)[q := True, p := False]" using q(2,3) by (simp add: remapped_def)
    moreover have "q \<notin> set (done @ p # ps)" using q(1) Cons.prems(5) by blast
    moreover have "\<forall>r \<in> set (done @ p # ps). r < length (phys_valid f)"
      using Cons.prems(1,3) by (simp add: ftl_inv_def shape_def)
    ultimately have "invalid_in f1 (done @ p # ps) = invalid_in f (done @ p # ps) + 1"
      using invalid_in_move [OF Cons.prems(4) _ v] by simp
    then show ?thesis using remapped_free(2) [OF q(3)] by simp
  qed simp
  have "free_count f' + invalid_in f' ((done @ [p]) @ ps) = free_count f1 + invalid_in f1 ((done @ [p]) @ ps)"
    by (rule Cons.IH [of f1 m1 "done @ [p]"])
      (use inv m1(2) pc Cons.prems sub f1 in auto)
  then show ?case using 1 by simp
qed

lemma gc_block_refines:
  assumes "ftl_inv f" "store_ok (page_count f) m" "b < num_blocks f"
    and "set (block_pages f b) \<inter> set (free_pages f) = {}"
  shows "\<exists>f' m'. gc_block copy b (f, m) = Some (f', m') \<and> ftl_inv f' \<and>
    store_ok (page_count f) m' \<and> same_view page f m f' m' \<and> same_geom f f' \<and>
    free_count f' = free_count f + invalid_in f (block_pages f b)"
proof -
  let ?ps = "block_pages f b"
  have ps: "\<forall>p \<in> set ?ps. p < page_count f" using block_pages_in_range by blast
  have dist: "distinct ?ps" by (simp add: block_pages_def)
  obtain f1 m1 where f1: "gc_move_pages copy ?ps (f, m) = Some (f1, m1)"
    using gc_move_pages_safe [OF ftl_inv_shape [OF assms(1)] assms(2) ps] by blast
  have mv: "moved page f m f1 m1" "store_ok (page_count f) m1"
    using gc_move_pages_moved [OF assms(1,2) ps f1] by simp_all
  have inv1: "ftl_inv f1" and g1: "same_geom f f1" and v1: "same_view page f m f1 m1"
    and sub: "set (free_pages f1) \<subseteq> set (free_pages f)" using mv(1) by (simp_all add: moved_def)
  have pc1: "page_count f1 = page_count f" using g1 by (simp add: same_geom_def)
  have gain: "free_count f1 + invalid_in f1 ?ps = free_count f + invalid_in f ?ps"
    using gc_move_pages_gain [of f m "[]" ?ps f1 m1] assms ps dist f1 by simp
  have ps1: "\<forall>p \<in> set ?ps. p < page_count f1" using ps pc1 by simp
  obtain f2 where f2: "erase_pages ?ps f1 = Some f2" "shape f2" "same_geom f1 f2"
    using erase_pages_safe [OF ftl_inv_shape [OF inv1] ps1] by blast
  have er: "erased f1 ?ps f2" using erase_pages_erased [OF ftl_inv_shape [OF inv1] ps1 f2(1)] .
  have inv2: "ftl_inv f2" using erased_inv [OF inv1 f2(2) er dist ps1] sub assms(4) by blast
  define f3 where "f3 = f2\<lparr>block_valid_count := (block_valid_count f2)[b := 0]\<rparr>"
  have g2: "same_geom f f2" using g1 f2(3) by (rule same_geom_trans)
  have "wr (block_valid_count f2) b 0 = Some ((block_valid_count f2)[b := 0])"
    using f2(2) assms(3) g2 by (simp add: shape_def access same_geom_def)
  then have r: "gc_block copy b (f, m) = Some (f3, m1)"
    using f1 f2(1) by (simp add: gc_block_def f3_def Let_def)
  have eqs: "l2p_map f3 = l2p_map f2" "phys_valid f3 = phys_valid f2"
    "phys_owner_lba f3 = phys_owner_lba f2" "free_pages f3 = free_pages f2" "page_count f3 = page_count f2"
    "free_count f3 = free_count f2"
    by (simp_all add: f3_def free_pages_def free_count_def)
  have "shape f3" using f2(2) by (simp add: f3_def shape_simps)
  then have inv3: "ftl_inv f3" using inv2 unfolding ftl_inv_def eqs by simp
  have "same_geom f f3" using g2 by (simp add: f3_def same_geom_def)
  moreover have "same_view page f m f3 m1"
    using v1 er pc1 eqs by (simp add: same_view_def view_def erased_def same_geom_def)
  moreover have "free_count f2 = free_count f1 + invalid_in f1 ?ps"
  proof -
    have "mset (free_pages f2) = mset (free_pages f1 @ filter (\<lambda>p. \<not> phys_valid f1 ! p) ?ps)"
      using er by (simp add: erased_def)
    from mset_eq_length [OF this] show ?thesis
      by (simp add: free_count_def free_pages_def invalid_in_def)
  qed
  ultimately show ?thesis using r inv3 mv(2) gain eqs by auto
qed

end

section \<open>A page write\<close>

lemma bump_hot_inv: "ftl_inv f \<Longrightarrow> ftl_inv (bump_hot f lp)"
  using bump_hot_shape [of f lp] by (simp add: ftl_inv_def bump_hot_def free_pages_def)

context page_writer
begin

lemma write_step_refines:
  assumes "arg_ok x" "ftl_inv f" "store_ok (page_count f) m" "lp < page_count f" "free_pages f \<noteq> []"
  shows "\<exists>f' m'. write_step copy (put x) tracking lp (f, m) = Some (True, f', m') \<and> ftl_inv f' \<and>
    store_ok (page_count f) m' \<and> same_geom f f' \<and> free_count f = free_count f' + 1 \<and>
    (\<exists>q \<in> set (free_pages f). l2p_map f' ! lp = Some q) \<and>
    (\<forall>lq < page_count f. view page f' m' lq =
       (if lq = lp then Some (upd x (view page f m lp)) else view page f m lq))"
proof -
  define f1 where "f1 = bump_hot f lp"
  have inv1: "ftl_inv f1" using bump_hot_inv [OF assms(2)] by (simp add: f1_def)
  have eqs: "page_count f1 = page_count f" "l2p_map f1 = l2p_map f" "free_pages f1 = free_pages f"
    "free_count f1 = free_count f" "same_geom f f1"
    by (simp_all add: f1_def bump_hot_def free_pages_def free_count_def same_geom_def)
  let ?h = "prefers_hot f1 lp"
  obtain r f2 where a: "AllocatePhysicalPage f1 ?h = (r, f2)" by fastforce
  have "r \<noteq> None" using AllocatePhysicalPage_free [OF a] assms(5) eqs by (cases r) auto
  then obtain q where q: "r = Some q" by auto
  have aq: "AllocatePhysicalPage f1 ?h = (Some q, f2)" using a q by simp
  note st = alloc_remap_start [OF inv1 aq]
  have pc2: "page_count f2 = page_count f" using st(2) eqs by (simp add: same_geom_def)
  define old where "old = l2p_map f1 ! lp"
  have len: "lp < length (l2p_map f2)" using st(6) inv1 assms(4) eqs by (simp add: ftl_inv_def shape_def)
  have old: "p < page_count f" if "old = Some p" for p
    using ftl_inv_l2p [OF inv1, of lp p] that assms(4) eqs by (simp add: old_def)
  obtain m' where m': "put x q old m = Some m'" "store_ok (page_count f) m'"
    "\<forall>r < page_count f. page m' r = (if r = q then upd x (map_option (page m) old) else page m r)"
    using put_ok [OF assms(1,3), of q old] st(3) eqs old by auto
  obtain f3 where c: "commit_write tracking f2 lp q old = Some f3"
    using commit_write_safe [OF st(1), of lp q old tracking] assms(4) st(3) pc2 eqs old by auto
  have r: "remapped f1 lp q f3" "shape f3"
    using commit_write_remapped [OF inv1 aq, of lp tracking f3] c assms(4) eqs by (simp_all add: old_def)
  have inv3: "ftl_inv f3" using remapped_inv [OF inv1 r(2) _ r(1)] assms(4) eqs by simp
  have g3: "same_geom f f3" using r(1) eqs(5) same_geom_trans by (simp add: remapped_def same_geom_def)
  have step: "write_step copy (put x) tracking lp (f, m) = Some (True, f3, m')"
    using aq len m'(1) c by (simp add: write_step_def alloc_or_gc_def f1_def [symmetric] st(6) old_def [symmetric] Let_def)
  have "view page f3 m' lq = (if lq = lp then Some (upd x (view page f m lp)) else view page f m lq)"
    if "lq < page_count f" for lq
    using remapped_view [OF inv1 _ r(1), of lq page m' "upd x (map_option (page m) old)" m] that assms(4) eqs m'(3)
    by (simp add: view_def old_def)
  moreover have "l2p_map f3 ! lp = Some q" using r(1) len st(6) by (simp add: remapped_def)
  moreover have "free_count f = free_count f3 + 1" using remapped_free(2) [OF r(1)] eqs by simp
  ultimately show ?thesis using step inv3 m'(2) g3 st(4) eqs(3) by auto
qed

end

end
