(* ===== verification/Gc_Choice.thy ===== *)
theory Gc_Choice
  imports Ftl_Gc
begin

text \<open>
  Which block the collector picks. \<open>counts_ok\<close> says that the per-block counters count the valid pages
  exactly; page writes keep it. The candidate minimises \<open>16 * valid + hotness\<close>, so a block without any
  valid page is always preferred, whether its pages are stale or free.
\<close>

section \<open>Exact block counters\<close>

definition valid_in :: "ftl \<Rightarrow> nat \<Rightarrow> nat set" where
  "valid_in f b = {p. p < page_count f \<and> p div 256 = b \<and> phys_valid f ! p}"

definition counts_ok :: "ftl \<Rightarrow> bool" where
  "counts_ok f \<longleftrightarrow> (\<forall>b < num_blocks f. block_valid_count f ! b = int (card (valid_in f b)))"

lemma finite_valid_in [simp]: "finite (valid_in f b)"
  by (rule finite_subset [of _ "{..<page_count f}"]) (auto simp: valid_in_def)

lemma block_pages_iff: "p \<in> set (block_pages f b) \<longleftrightarrow> p < page_count f \<and> p div 256 = b"
proof -
  have "b * 256 \<le> p \<and> p < b * 256 + 256 \<longleftrightarrow> p div 256 = b"
  proof
    assume "b * 256 \<le> p \<and> p < b * 256 + 256"
    then show "p div 256 = b" by (intro div_nat_eqI) simp_all
  next
    assume b: "p div 256 = b"
    have "256 * (p div 256) \<le> p" by (rule times_div_less_eq_dividend)
    moreover have "p < 256 + 256 * (p div 256)" by (rule dividend_less_times_div) simp
    ultimately show "b * 256 \<le> p \<and> p < b * 256 + 256" unfolding b by linarith
  qed
  then show ?thesis by (auto simp: block_pages_def PAGES_PER_BLOCK_def)
qed

lemma counts_ok_init: "good_capacity cap \<Longrightarrow> counts_ok (ftl_init cap)"
proof -
  assume "good_capacity cap"
  have "phys_valid (ftl_init cap) = replicate (page_count (ftl_init cap)) False"
    "block_valid_count (ftl_init cap) = replicate (num_blocks (ftl_init cap)) 0"
    by (simp_all only: ftl_init_def Let_def ftl.select_convs)
  then show ?thesis by (simp add: counts_ok_def valid_in_def)
qed

lemma valid_in_set:
  assumes "q < page_count f" "\<not> phys_valid f ! q" "length (phys_valid f) = page_count f"
  shows "card {p. p < page_count f \<and> p div 256 = b \<and> (phys_valid f)[q := True] ! p} =
    card (valid_in f b) + (if q div 256 = b then 1 else 0)"
proof -
  have "{p. p < page_count f \<and> p div 256 = b \<and> (phys_valid f)[q := True] ! p} =
      (if q div 256 = b then insert q (valid_in f b) else valid_in f b)"
    using assms by (auto simp: valid_in_def nth_list_update)
  moreover have "q \<notin> valid_in f b" using assms(2) by (simp add: valid_in_def)
  ultimately show ?thesis by simp
qed

lemma valid_in_unset:
  assumes "q < page_count f" "phys_valid f ! q" "length (phys_valid f) = page_count f"
  shows "card (valid_in f b) =
    card {p. p < page_count f \<and> p div 256 = b \<and> (phys_valid f)[q := False] ! p} + (if q div 256 = b then 1 else 0)"
proof -
  let ?S = "{p. p < page_count f \<and> p div 256 = b \<and> (phys_valid f)[q := False] ! p}"
  have "valid_in f b = (if q div 256 = b then insert q ?S else ?S)"
    using assms by (auto simp: valid_in_def nth_list_update)
  moreover have "q \<notin> ?S" using assms by simp
  moreover have "finite ?S" by (rule finite_subset [of _ "{..<page_count f}"]) auto
  ultimately show ?thesis by simp
qed

lemma map_page_counts:
  assumes "shape f" "lp < page_count f" "q < page_count f" "counts_ok f" "\<not> phys_valid f ! q"
    and "map_page f lp q = Some f'"
  shows "counts_ok f'"
proof -
  have len: "length (phys_valid f) = page_count f" "length (block_valid_count f) = num_blocks f"
    using assms(1) by (simp_all add: shape_def)
  have f': "page_count f' = page_count f" "num_blocks f' = num_blocks f" "phys_valid f' = (phys_valid f)[q := True]"
    "block_valid_count f' = (block_valid_count f)[q div 256 := block_valid_count f ! (q div 256) + 1]"
    using map_page_eq [OF assms(1-3)] assms(6) by auto
  show ?thesis
    using assms(4) len valid_in_set [OF assms(3,5) len(1)] block_in_range [OF assms(1,3)]
    unfolding counts_ok_def valid_in_def f' by (auto simp: nth_list_update)
qed

lemma invalidate_page_counts:
  assumes "shape f" "q < page_count f" "counts_ok f" "phys_valid f ! q" "invalidate_page f q = Some f'"
  shows "counts_ok f'"
proof -
  have len: "length (phys_valid f) = page_count f" "length (block_valid_count f) = num_blocks f"
    using assms(1) by (simp_all add: shape_def)
  have f': "page_count f' = page_count f" "num_blocks f' = num_blocks f" "phys_valid f' = (phys_valid f)[q := False]"
    "block_valid_count f' = (block_valid_count f)[q div 256 := max 0 (block_valid_count f ! (q div 256) - 1)]"
    using invalidate_page_eq [OF assms(1,2)] assms(5) by auto
  have "block_valid_count f' ! b = int (card (valid_in f' b))" if b: "b < num_blocks f" for b
  proof (cases "q div 256 = b")
    case True
    have "block_valid_count f ! b = int (card (valid_in f b))" using assms(3) b by (simp add: counts_ok_def)
    moreover have "card (valid_in f b) = card (valid_in f' b) + 1"
      using valid_in_unset [OF assms(2,4) len(1), of b] True by (simp add: valid_in_def f')
    ultimately show ?thesis using True b len f' by simp
  next
    case False
    then show ?thesis using valid_in_unset [OF assms(2,4) len(1), of b] assms(3) b f'
      by (simp add: counts_ok_def valid_in_def)
  qed
  then show ?thesis by (simp add: counts_ok_def f')
qed

lemma commit_write_counts:
  assumes "ftl_inv f" "AllocatePhysicalPage f h = (Some q, f1)" "lp < page_count f" "counts_ok f"
    and "commit_write tr f1 lp q (l2p_map f ! lp) = Some f'"
  shows "counts_ok f'"
proof -
  note a = alloc_remap_start [OF assms(1,2)]
  have pc: "page_count f1 = page_count f" using a(2) by (simp add: same_geom_def)
  obtain hs cs where f1: "f1 = f\<lparr>free_hot := hs, free_cold := cs\<rparr>"
    using AllocatePhysicalPage_free [OF assms(2)] by blast
  have c1: "counts_ok f1" using assms(4) by (simp add: f1 counts_ok_def valid_in_def)
  have q: "\<not> phys_valid f ! q" using ftl_inv_free [OF assms(1) a(4)] by simp
  obtain f2 where f2: "map_page f1 lp q = Some f2"
    using assms(5) by (auto simp: commit_write_def split: Option.bind_splits)
  have s2: "shape f2" "same_geom f1 f2"
    using map_page_shape [OF a(1), of lp q f2] f2 pc assms(3) a(3) by simp_all
  have c2: "counts_ok f2"
    using map_page_counts [OF a(1) _ _ c1 _ f2] pc assms(3) a(3,7) q by simp
  obtain f3 where f3: "disturb_neighbor tr f2 q = Some f3"
    using assms(5) f2 by (auto simp: commit_write_def split: Option.bind_splits)
  have s3: "shape f3" using disturb_neighbor_shape [OF s2(1) f3] by simp
  note d = disturb_neighbor_inv [OF s2(1) f3]
  have "block_valid_count f3 = block_valid_count f2"
    using disturb_neighbor_eq [OF s2(1), of tr q] f3 by auto
  then have c3: "counts_ok f3" using c2 d by (simp add: counts_ok_def valid_in_def same_geom_def)
  show ?thesis
  proof (cases "l2p_map f ! lp")
    case None
    then show ?thesis using assms(5) f2 f3 c3 by (simp add: commit_write_def)
  next
    case (Some p)
    then have i: "invalidate_page f3 p = Some f'" using assms(5) f2 f3 by (simp add: commit_write_def)
    have p: "p < page_count f" "phys_valid f ! p" using ftl_inv_l2p [OF assms(1,3) Some] by simp_all
    have "phys_valid f2 = (phys_valid f1)[q := True]"
      using map_page_eq [OF a(1), of lp q] f2 pc assms(3) a(3) by auto
    then have "phys_valid f3 ! p" using p q d a(7) ftl_inv_shape [OF assms(1)]
      by (cases "p = q") (simp_all add: shape_def)
    moreover have "p < page_count f3" using p pc s2(2) d by (simp add: same_geom_def)
    ultimately show ?thesis using invalidate_page_counts [OF s3 _ c3 _ i] by simp
  qed
qed

section \<open>The candidate\<close>

definition block_metric :: "ftl \<Rightarrow> nat \<Rightarrow> int" where
  "block_metric f b = wrap32 (block_valid_count f ! b * 16 + the (hot_score f (block_pages f b) 0))"

lemma pick_block_min:
  assumes "shape f"
  shows "\<forall>b \<in> set bs. b < num_blocks f \<Longrightarrow>
    \<exists>r. pick_block f bs best c = Some r \<and>
      (if \<exists>b \<in> set bs. block_metric f b < best
       then \<exists>b \<in> set bs. r = Some b \<and> block_metric f b < best \<and> (\<forall>d \<in> set bs. block_metric f b \<le> block_metric f d)
       else r = c)"
proof (induction bs arbitrary: best c)
  case (Cons b bs)
  have bs: "\<forall>b \<in> set bs. b < num_blocks f" and b: "b < num_blocks f" using Cons.prems by simp_all
  obtain z where z: "hot_score f (block_pages f b) 0 = Some z"
    using hot_score_safe [OF assms, of "block_pages f b"] block_pages_in_range by blast
  have v: "rd (block_valid_count f) b = Some (block_valid_count f ! b)"
    using assms b by (simp add: shape_def access)
  have m: "block_metric f b = wrap32 (block_valid_count f ! b * 16 + z)" using z by (simp add: block_metric_def)
  show ?case
  proof (cases "block_metric f b < best")
    case True
    then have step: "pick_block f (b # bs) best c = pick_block f bs (block_metric f b) (Some b)"
      using v z m by simp
    show ?thesis unfolding step using Cons.IH [OF bs, of "block_metric f b" "Some b"] True
      by (auto split: if_splits) (metis not_less order.strict_trans less_imp_le order_trans)+
  next
    case False
    then have step: "pick_block f (b # bs) best c = pick_block f bs best c" using v z m by simp
    show ?thesis unfolding step using Cons.IH [OF bs, of best c] False by (auto split: if_splits)
  qed
qed simp

end
