(* ===== verification/Gc_Idle.thy ===== *)
theory Gc_Idle
  imports Gc_Choice
begin

text \<open>
  The collector on a drive where every page without data is free already (nothing was overwritten
  yet). It has nothing to gain; but it prefers a block without valid pages, takes an entirely free one
  when there is one, and pushes its free pages on the free lists a second time. From then on
  a physical page can be handed out twice.
\<close>

definition gc_idle :: "ftl \<Rightarrow> bool" where
  "gc_idle f \<longleftrightarrow> shape f \<and> counts_ok f \<and> (\<forall>x \<in> set (lba_hot_counters f). unat x < 2 ^ 22) \<and>
     (\<forall>p < page_count f. \<not> phys_valid f ! p \<longrightarrow> phys_owner_lba f ! p = None \<and> p \<in> set (free_pages f)) \<and>
     (\<forall>b < num_blocks f. block_pages f b \<noteq> []) \<and>
     (\<exists>b < num_blocks f. valid_in f b = {})"

lemma sint_small:
  assumes "unat (x :: u32) < 2 ^ 31"
  shows "sint x = int (unat x)"
proof -
  have "int (unat x) < int (2 ^ 31)" using assms by (simp only: of_nat_less_iff)
  then have lt: "int (unat x) < 2 ^ 31" by (simp only: of_nat_power of_nat_numeral)
  have "- (2 ^ 31) \<le> int (unat x)" by (rule order_trans [of _ 0]) simp_all
  from signed_take_bit_int_eq_self [OF this lt] show ?thesis by (simp add: sint_uint)
qed

lemma wrap32_small: "- 2147483648 \<le> z \<Longrightarrow> z < 2147483648 \<Longrightarrow> wrap32 z = z"
  unfolding wrap32_def by (rule signed_take_bit_int_eq_self) simp_all

text \<open>Counters below \<open>2 ^ 22\<close>: the score of a block does not overflow.\<close>

lemma hot_score_bounds:
  assumes "shape f" "\<forall>x \<in> set (lba_hot_counters f). unat x < 2 ^ 22"
  shows "\<forall>p \<in> set ps. p < page_count f \<Longrightarrow> 0 \<le> s \<Longrightarrow> s + int (length ps) * 4194304 < 2147483648 \<Longrightarrow>
    \<exists>z. hot_score f ps s = Some z \<and> s \<le> z \<and> z \<le> s + int (length ps) * 4194304"
proof (induction ps arbitrary: s)
  case (Cons p ps)
  then have r: "rd (phys_owner_lba f) p = Some (phys_owner_lba f ! p)" using assms(1) by (simp add: shape_def access)
  have ps: "\<forall>p \<in> set ps. p < page_count f" using Cons.prems(1) by simp
  have len: "s + 4194304 + int (length ps) * 4194304 < 2147483648" using Cons.prems(3) by (simp add: algebra_simps)
  show ?case
  proof (cases "\<exists>lba. phys_owner_lba f ! p = Some lba \<and> lba < length (lba_hot_counters f)")
    case True
    then obtain lba where l: "phys_owner_lba f ! p = Some lba" "lba < length (lba_hot_counters f)" by blast
    define w where "w = lba_hot_counters f ! lba"
    have small: "unat w < 4194304" using assms(2) l(2) by (simp add: w_def)
    have "unat w < 2 ^ 31" using small by simp
    then have sw: "sint w = int (unat w)" by (rule sint_small)
    have "int (unat w) < int 4194304" using small by (simp only: of_nat_less_iff)
    then have "int (unat w) < 4194304" by (simp only: of_nat_numeral)
    then have w: "0 \<le> sint w" "sint w \<le> 4194304" unfolding sw by linarith+
    have k: "wrap32 (s + sint w) = s + sint w"
      by (rule wrap32_small) (use Cons.prems(2) w len in linarith)+
    have "0 \<le> s + sint w" "s + sint w + int (length ps) * 4194304 < 2147483648" using Cons.prems(2) w len by linarith+
    from Cons.IH [OF ps this] obtain z where "hot_score f ps (s + sint w) = Some z" "s + sint w \<le> z"
      "z \<le> s + sint w + int (length ps) * 4194304" by blast
    moreover have "hot_score f (p # ps) s = hot_score f ps (s + sint w)" using r l k by (simp add: w_def)
    ultimately show ?thesis using w by (auto simp: algebra_simps)
  next
    case False
    then have e: "hot_score f (p # ps) s = hot_score f ps s" using r by (auto split: option.split)
    have "s + int (length ps) * 4194304 < 2147483648" using len by linarith
    from Cons.IH [OF ps Cons.prems(2) this] show ?thesis unfolding e by (auto simp: algebra_simps)
  qed
qed simp

lemma hot_score_unowned:
  "\<forall>p \<in> set ps. p < length (phys_owner_lba f) \<and> phys_owner_lba f ! p = None \<Longrightarrow> hot_score f ps s = Some s"
  by (induction ps) (simp_all add: access)

lemma gc_idle_candidate:
  assumes "gc_idle f"
  shows "\<exists>b < num_blocks f. gc_candidate f = Some (Some b) \<and> valid_in f b = {}"
proof -
  have sh: "shape f" and cn: "counts_ok f" and hot: "\<forall>x \<in> set (lba_hot_counters f). unat x < 2 ^ 22"
    and un: "\<forall>p < page_count f. \<not> phys_valid f ! p \<longrightarrow> phys_owner_lba f ! p = None"
    using assms by (auto simp: gc_idle_def)
  obtain e where e: "e < num_blocks f" "valid_in f e = {}" using assms by (auto simp: gc_idle_def)
  have me: "block_metric f e = 0"
  proof -
    have "\<forall>p \<in> set (block_pages f e). p < length (phys_owner_lba f) \<and> phys_owner_lba f ! p = None"
      using e(2) un sh by (auto simp: block_pages_iff valid_in_def shape_def)
    then have "hot_score f (block_pages f e) 0 = Some 0" by (rule hot_score_unowned)
    moreover have "block_valid_count f ! e = 0" using cn e by (simp add: counts_ok_def)
    ultimately show ?thesis by (simp add: block_metric_def wrap32_small)
  qed
  let ?bs = "[0..<length (block_valid_count f)]"
  have nb: "length (block_valid_count f) = num_blocks f" using sh by (simp add: shape_def)
  have all: "\<forall>b \<in> set ?bs. b < num_blocks f" using nb by simp
  have ex: "\<exists>b \<in> set ?bs. block_metric f b < INT_MAX"
    using e(1) me nb by (intro bexI [of _ e]) (simp_all add: INT_MAX_def)
  obtain b where b: "b < num_blocks f" "gc_candidate f = Some (Some b)" "block_metric f b \<le> block_metric f e"
    using pick_block_min [OF sh all, of INT_MAX None] ex e(1) nb unfolding gc_candidate_def by auto
  have len: "length (block_pages f b) \<le> 256" by (simp add: block_pages_def PAGES_PER_BLOCK_def)
  then have len22: "int (length (block_pages f b)) * 4194304 \<le> 256 * 4194304" by (intro mult_right_mono) simp_all
  have ps: "\<forall>p \<in> set (block_pages f b). p < page_count f" using block_pages_in_range by blast
  have "0 + int (length (block_pages f b)) * 4194304 < 2147483648" using len22 by linarith
  from hot_score_bounds [OF sh hot ps order_refl this] obtain z where
    z: "hot_score f (block_pages f b) 0 = Some z" "0 \<le> z" "z \<le> 256 * 4194304" using len22 by auto
  have "valid_in f b \<subseteq> set (block_pages f b)" by (auto simp: block_pages_iff valid_in_def)
  then have "card (valid_in f b) \<le> card (set (block_pages f b))" by (intro card_mono) simp
  also have "\<dots> \<le> length (block_pages f b)" by (rule card_length)
  finally have "card (valid_in f b) \<le> 256" using len by linarith
  then have "wrap32 (int (card (valid_in f b)) * 16 + z) = int (card (valid_in f b)) * 16 + z"
    using z(2,3) by (intro wrap32_small) simp_all
  then have "int (card (valid_in f b)) * 16 + z \<le> 0"
    using b(1,3) me z(1) cn by (simp add: block_metric_def counts_ok_def)
  then have "card (valid_in f b) = 0" using z(2) by linarith
  then show ?thesis using b by auto
qed

lemma gc_move_none:
  assumes "shape f" "\<forall>p \<in> set ps. p < page_count f \<and> \<not> phys_valid f ! p"
  shows "gc_move_pages copy ps (f, m) = Some (f, m)"
  using assms(2)
proof (induction ps)
  case (Cons p ps)
  then have "rd (phys_valid f) p = Some False" using assms(1) by (simp add: shape_def access)
  then have "gc_move_page copy p (f, m) = Some (f, m)" by (simp add: gc_move_page_def)
  then show ?case using Cons by simp
qed simp

context page_store
begin

lemma gc_idle_cycle:
  assumes "gc_idle f" "b < num_blocks f" "valid_in f b = {}"
  shows "\<exists>f'. gc_block copy b (f, m) = Some (f', m) \<and> gc_idle f' \<and> same_geom f f' \<and> l2p_map f' = l2p_map f \<and>
    mset (free_pages f') = mset (free_pages f) + mset (block_pages f b) \<and> block_pages f b \<noteq> [] \<and>
    set (block_pages f b) \<subseteq> set (free_pages f)"
proof -
  let ?ps = "block_pages f b"
  have sh: "shape f" and cn: "counts_ok f"
    and un: "\<forall>p < page_count f. \<not> phys_valid f ! p \<longrightarrow> phys_owner_lba f ! p = None \<and> p \<in> set (free_pages f)"
    using assms(1) by (auto simp: gc_idle_def)
  have inv: "\<forall>p \<in> set ?ps. p < page_count f \<and> \<not> phys_valid f ! p"
    using assms(3) by (auto simp: block_pages_iff valid_in_def)
  have ps: "\<forall>p \<in> set ?ps. p < page_count f" using inv by blast
  obtain f2 where f2: "erase_pages ?ps f = Some f2" "shape f2" "same_geom f f2"
    using erase_pages_safe [OF sh ps] by blast
  have er: "erased f ?ps f2" using erase_pages_erased [OF sh ps f2(1)] .
  have own: "erase_pages qs g = Some h \<Longrightarrow> shape g \<Longrightarrow> \<forall>p \<in> set qs. p < page_count g \<Longrightarrow>
      (\<forall>p < page_count g. \<not> phys_valid g ! p \<longrightarrow> phys_owner_lba g ! p = None) \<Longrightarrow>
      block_valid_count h = block_valid_count g \<and> lba_hot_counters h = lba_hot_counters g \<and>
      (\<forall>p < page_count g. \<not> phys_valid g ! p \<longrightarrow> phys_owner_lba h ! p = None)" for qs g h
  proof (induction qs arbitrary: g)
    case (Cons q qs)
    obtain g1 where g1: "erase_page q g = Some g1" "shape g1" "same_geom g g1"
      using erase_page_safe [of g q] Cons.prems by auto
    have "erased g [q] g1" using erase_page_erased [OF Cons.prems(2) _ g1(1)] Cons.prems(3) by simp
    then have v: "phys_valid g1 = phys_valid g" by (simp add: erased_def)
    have k: "block_valid_count g1 = block_valid_count g \<and> lba_hot_counters g1 = lba_hot_counters g \<and>
        (\<forall>p < page_count g. \<not> phys_valid g ! p \<longrightarrow> phys_owner_lba g1 ! p = None)"
      using g1(1) Cons.prems(2-4)
      by (auto simp: erase_page_def shape_def access Let_def nth_list_update split: if_splits)
    have "erase_pages qs g1 = Some h" using Cons.prems(1) g1(1) by simp
    from Cons.IH [OF this g1(2)] show ?case using Cons.prems(3) v k g1(3) by (simp add: same_geom_def)
  qed simp
  define f3 where "f3 = f2\<lparr>block_valid_count := (block_valid_count f2)[b := 0]\<rparr>"
  have "wr (block_valid_count f2) b 0 = Some ((block_valid_count f2)[b := 0])"
    using f2(2,3) assms(2) by (simp add: shape_def access same_geom_def)
  then have step: "gc_block copy b (f, m) = Some (f3, m)"
    using gc_move_none [OF sh inv, where copy = copy and m = m] f2(1) by (simp add: gc_block_def f3_def Let_def)
  have eqs: "l2p_map f3 = l2p_map f2" "phys_valid f3 = phys_valid f2" "phys_owner_lba f3 = phys_owner_lba f2"
    "free_pages f3 = free_pages f2" "page_count f3 = page_count f" "num_blocks f3 = num_blocks f"
    "lba_hot_counters f3 = lba_hot_counters f2"
    using f2(3) by (simp_all add: f3_def free_pages_def same_geom_def)
  have bc: "block_valid_count f2 = block_valid_count f \<and> lba_hot_counters f2 = lba_hot_counters f \<and>
      (\<forall>p < page_count f. \<not> phys_valid f ! p \<longrightarrow> phys_owner_lba f2 ! p = None)"
    using own [OF f2(1) sh ps] un by blast
  have v: "phys_valid f3 = phys_valid f" using er eqs by (simp add: erased_def)
  have "filter (\<lambda>p. \<not> phys_valid f ! p) ?ps = ?ps" using inv by (simp add: filter_id_conv)
  then have fr: "mset (free_pages f3) = mset (free_pages f) + mset ?ps"
    using er eqs by (simp add: erased_def)
  from arg_cong [OF fr, of set_mset] have sub: "set (free_pages f) \<subseteq> set (free_pages f3)" by auto
  have vi: "valid_in f3 d = valid_in f d" for d using v eqs by (simp add: valid_in_def)
  have "block_valid_count f ! b = 0" using cn assms(2,3) by (simp add: counts_ok_def)
  then have "(block_valid_count f)[b := 0] = block_valid_count f" by (metis list_update_id)
  then have "block_valid_count f3 = block_valid_count f" using bc by (simp add: f3_def)
  then have c3: "counts_ok f3" using cn vi eqs by (simp add: counts_ok_def)
  have "shape f3" using f2(2) by (simp add: f3_def shape_simps)
  then have idle: "gc_idle f3"
    using assms(1) c3 v vi bc eqs sub unfolding gc_idle_def block_pages_def by auto
  have "same_geom f f3" using f2(3) by (simp add: f3_def same_geom_def)
  moreover have "l2p_map f3 = l2p_map f" using er eqs by (simp add: erased_def)
  moreover have "?ps \<noteq> []" using assms(1,2) by (simp add: gc_idle_def)
  moreover have "set ?ps \<subseteq> set (free_pages f)" using inv un by blast
  ultimately show ?thesis using step idle fr by blast
qed

lemma RunGC_idle:
  "gc_idle f \<Longrightarrow> \<exists>f'. RunGC copy target (f, m) = Some (f', m) \<and> l2p_map f' = l2p_map f \<and>
    mset (free_pages f) \<subseteq># mset (free_pages f') \<and>
    (free_count f < target \<longrightarrow> \<not> distinct (free_pages f'))"
proof (induction "target - free_count f" arbitrary: f rule: less_induct)
  case less
  show ?case
  proof (cases "free_count f < target")
    case False
    then show ?thesis by (auto simp: RunGC.simps [of copy target "(f, m)"])
  next
    case True
    obtain b where b: "b < num_blocks f" "gc_candidate f = Some (Some b)" "valid_in f b = {}"
      using gc_idle_candidate [OF less.prems] by blast
    obtain f1 where f1: "gc_block copy b (f, m) = Some (f1, m)" "gc_idle f1" "l2p_map f1 = l2p_map f"
      "mset (free_pages f1) = mset (free_pages f) + mset (block_pages f b)" "block_pages f b \<noteq> []"
      "set (block_pages f b) \<subseteq> set (free_pages f)"
      using gc_idle_cycle [OF less.prems b(1,3)] by blast
    have "mset (free_pages f1) = mset (free_pages f @ block_pages f b)" using f1(4) by simp
    note len = mset_eq_length [OF this] and dist = mset_eq_imp_distinct_iff [OF this]
    have gain: "free_count f < free_count f1"
      using len f1(5) by (simp add: free_count_def free_pages_def)
    have dup: "\<not> distinct (free_pages f1)" using dist f1(5,6) by (cases "block_pages f b") auto
    have sub: "mset (free_pages f) \<subseteq># mset (free_pages f1)" using f1(4) by simp
    show ?thesis
    proof (cases "target \<le> free_count f1")
      case stop: True
      then have "RunGC copy target (f, m) = Some (f1, m)"
        using True b(2) f1(1) gain by (auto simp add: RunGC.simps [of copy target "(f, m)"])
      then show ?thesis using f1(3) sub dup by blast
    next
      case go: False
      then have step: "RunGC copy target (f, m) = RunGC copy target (f1, m)"
        using True b(2) f1(1) gain by (simp add: RunGC.simps [of copy target "(f, m)"])
      have "target - free_count f1 < target - free_count f" using gain True by simp
      from less.hyps [OF this f1(2)] obtain f2 where f2: "RunGC copy target (f1, m) = Some (f2, m)"
        "l2p_map f2 = l2p_map f1" "mset (free_pages f1) \<subseteq># mset (free_pages f2)"
        "\<not> distinct (free_pages f2)" using go by auto
      show ?thesis unfolding step using f2 f1(3) subset_mset.order_trans [OF sub f2(3)] by auto
    qed
  qed
qed

end

end
