(* ===== verification/Ecc.thy ===== *)
theory Ecc
  imports Prelude
begin

text \<open>
  The error-correcting code of the FTJ controller: \<open>FTJController::CalculateECC\<close> and
  \<open>FTJController::DecodeAndCorrect\<close> in \<open>src/ftj_engine.cpp\<close>. A 64-bit word is protected by one byte:
  seven Hamming parities and, in bit 7, the parity of the word together with those seven parities.
\<close>

section \<open>The code\<close>

text \<open>Position of data bit \<open>d\<close> in the Hamming code word: data bits skip the powers of two.\<close>

definition skip_pow :: "nat \<Rightarrow> nat \<Rightarrow> nat" where
  "skip_pow t c = (if c \<ge> t then c + 1 else c)"

definition code_idx :: "nat \<Rightarrow> nat" where
  "code_idx d = skip_pow 64 (skip_pow 32 (skip_pow 16 (skip_pow 8 (skip_pow 4 (skip_pow 2
     (skip_pow 1 (d + 1)))))))"

definition ecc_mask :: "nat \<Rightarrow> u64" where
  "ecc_mask i = fold (\<lambda>d mask. if code_idx d AND push_bit i 1 \<noteq> 0 then mask OR push_bit d 1 else mask)
     [0..<64] 0"

definition popcount :: "'a::len word \<Rightarrow> nat" where
  "popcount w = length (filter (bit w) [0..<LENGTH('a)])"

definition parity_of :: "'a::len word \<Rightarrow> u8" where
  "parity_of w = of_nat (popcount w mod 2)"

definition ecc7 :: "u64 \<Rightarrow> u8" where
  "ecc7 data = fold (\<lambda>i ecc. ecc OR push_bit i (parity_of (data AND ecc_mask i))) [0..<7] 0"

definition CalculateECC :: "u64 \<Rightarrow> u8" where
  "CalculateECC data =
     (let ecc = ecc7 data;
          overall = (parity_of data + parity_of ecc) AND 1
      in ecc OR push_bit 7 overall)"

text \<open>
  The C++ function updates \<open>data\<close> in place and returns 0 (no error), 1 (corrected) or 2
  (uncorrectable); the model returns the code and the word.
\<close>

definition find_data_bit :: "nat \<Rightarrow> nat option" where
  "find_data_bit error_pos = find (\<lambda>d. code_idx d = error_pos) [0..<64]"

definition DecodeAndCorrect :: "u64 \<Rightarrow> u8 \<Rightarrow> int \<times> u64" where
  "DecodeAndCorrect data stored_ecc =
     (let calculated_ecc = CalculateECC data;
          syndrome = (calculated_ecc XOR stored_ecc) AND 0x7F;
          overall_parity = (calculated_ecc XOR stored_ecc) AND 0x80
      in if syndrome = 0 \<and> overall_parity = 0 then (0, data)
         else if overall_parity \<noteq> 0 then
           (case find_data_bit (unat syndrome) of
              Some data_bit \<Rightarrow> (1, data XOR push_bit data_bit 1)
            | None \<Rightarrow> (1, data))
         else (2, data))"

section \<open>Bits of the check byte\<close>

lemma bit_set_one:
  fixes m :: "'a::len word"
  shows "n < LENGTH('a) \<Longrightarrow> bit (m OR push_bit d 1) n \<longleftrightarrow> bit m n \<or> n = d"
  by (auto simp: bit_or_iff bit_exp_iff)

lemma bit_fold_mask:
  fixes m :: u64
  assumes "n < 64"
  shows "bit (fold (\<lambda>d mask. if P d then mask OR push_bit d 1 else mask) ds m) n \<longleftrightarrow>
    bit m n \<or> (n \<in> set ds \<and> P n)"
proof (induction ds arbitrary: m)
  case (Cons d ds)
  have "bit (if P d then m OR push_bit d 1 else m) n \<longleftrightarrow> bit m n \<or> (n = d \<and> P n)"
    using assms bit_set_one [of n m d] by auto
  then show ?case by (auto simp: Cons.IH)
qed simp

lemma bit_ecc_mask:
  assumes "n < 64"
  shows "bit (ecc_mask i) n \<longleftrightarrow> bit (code_idx n) i"
proof -
  have "bit (ecc_mask i) n \<longleftrightarrow>
      bit (0 :: u64) n \<or> (n \<in> set [0..<64] \<and> code_idx n AND push_bit i 1 \<noteq> 0)"
    unfolding ecc_mask_def using assms by (rule bit_fold_mask)
  moreover have "n \<in> set [0..<64]"
    unfolding set_upt atLeastLessThan_iff using assms by simp
  moreover have "\<not> bit (0 :: u64) n" by simp
  moreover have "code_idx n AND push_bit i 1 \<noteq> 0 \<longleftrightarrow> bit (code_idx n) i"
    by (simp only: bit_iff_and_push_bit_not_eq_0)
  ultimately show ?thesis by blast
qed

lemma odd_length_filter_neq:
  "odd (length (filter (\<lambda>x. P x \<noteq> Q x) xs)) \<longleftrightarrow>
   odd (length (filter P xs)) \<noteq> odd (length (filter Q xs))"
  by (induction xs) auto

lemma odd_popcount_xor:
  fixes a b :: "'a::len word"
  shows "odd (popcount (a XOR b)) \<longleftrightarrow> odd (popcount a) \<noteq> odd (popcount b)"
proof -
  have "filter (bit (a XOR b)) [0..<LENGTH('a)] = filter (\<lambda>n. bit a n \<noteq> bit b n) [0..<LENGTH('a)]"
    by (rule filter_cong) (auto simp: bit_xor_iff)
  then show ?thesis by (simp only: popcount_def odd_length_filter_neq)
qed

lemma parity_of_eq: "parity_of w = (if odd (popcount w) then 1 else 0)"
  by (simp add: parity_of_def odd_iff_mod_2_eq_one)

lemma bit_fold_ecc:
  fixes e :: u8
  assumes "n < 8"
  shows "bit (fold (\<lambda>i ecc. ecc OR push_bit i (if P i then 1 else 0)) is e) n \<longleftrightarrow>
    bit e n \<or> (n \<in> set is \<and> P n)"
proof (induction "is" arbitrary: e)
  case (Cons i "is")
  have "bit (e OR push_bit i (if P i then 1 else 0)) n \<longleftrightarrow> bit e n \<or> (n = i \<and> P n)"
    using assms bit_set_one [of n e i] by auto
  then show ?case by (auto simp: Cons.IH)
qed simp

lemma bit_ecc7:
  assumes "n < 8"
  shows "bit (ecc7 data) n \<longleftrightarrow> n < 7 \<and> odd (popcount (data AND ecc_mask n))"
proof -
  have "bit (ecc7 data) n \<longleftrightarrow>
      bit (0 :: u8) n \<or> (n \<in> set [0..<7] \<and> odd (popcount (data AND ecc_mask n)))"
    unfolding ecc7_def parity_of_eq using assms by (rule bit_fold_ecc)
  then show ?thesis by (simp only: set_upt atLeastLessThan_iff bit_0_eq bot_apply) simp
qed

lemma CalculateECC_eq:
  "CalculateECC data = ecc7 data OR
     push_bit 7 (if odd (popcount data) \<noteq> odd (popcount (ecc7 data)) then 1 else 0)"
  by (simp add: CalculateECC_def Let_def parity_of_eq)

lemma bit_CalculateECC:
  "n < 8 \<Longrightarrow> bit (CalculateECC data) n \<longleftrightarrow>
     (if n < 7 then odd (popcount (data AND ecc_mask n))
      else odd (popcount data) \<noteq> odd (popcount (ecc7 data)))"
  by (auto simp: CalculateECC_eq bit_or_iff bit_push_bit_iff bit_ecc7)

lemma ecc7_xor: "ecc7 (a XOR b) = ecc7 a XOR ecc7 b"
proof (rule bit_word_eqI)
  fix n assume "n < LENGTH(8)"
  then have "n < 8" by simp
  moreover have "(a XOR b) AND ecc_mask n = (a AND ecc_mask n) XOR (b AND ecc_mask n)"
    by (rule bit_word_eqI) (auto simp: bit_xor_iff bit_and_iff)
  ultimately show "bit (ecc7 (a XOR b)) n = bit (ecc7 a XOR ecc7 b) n"
    by (auto simp: bit_ecc7 bit_xor_iff odd_popcount_xor)
qed

lemma CalculateECC_xor: "CalculateECC (a XOR b) = CalculateECC a XOR CalculateECC b"
proof (rule bit_word_eqI)
  fix n assume "n < LENGTH(8)"
  then have "n < 8" by simp
  moreover have "(a XOR b) AND ecc_mask n = (a AND ecc_mask n) XOR (b AND ecc_mask n)"
    by (rule bit_word_eqI) (auto simp: bit_xor_iff bit_and_iff)
  ultimately show "bit (CalculateECC (a XOR b)) n = bit (CalculateECC a XOR CalculateECC b) n"
    by (auto simp: bit_CalculateECC bit_xor_iff odd_popcount_xor ecc7_xor)
qed

section \<open>Linear codes\<close>

text \<open>
  What the decoder relies on: the check byte is linear, so the difference between the check byte
  stored at write time and the one recomputed at read time depends on the error alone.
\<close>

locale linear_code =
  fixes enc :: "'a::len word \<Rightarrow> 'b::len word"
  assumes enc_xor: "enc (v XOR w) = enc v XOR enc w"
begin

lemma enc_0: "enc 0 = 0"
  using enc_xor [of 0 0] by simp

lemma syndrome_of_error: "enc (w XOR e) XOR enc w = enc e"
  by (simp add: enc_xor xor.commute xor.left_commute)

lemma syndrome_of_check_error: "enc w XOR (enc w XOR c) = c"
  by (simp add: xor.assoc [symmetric])

end

interpretation ecc: linear_code CalculateECC
  by unfold_locales (rule CalculateECC_xor)

section \<open>Decoding by syndrome\<close>

definition fix_word :: "u8 \<Rightarrow> u64 \<Rightarrow> u64" where
  "fix_word s data =
     (case find_data_bit (unat (s AND 0x7F)) of
        Some d \<Rightarrow> data XOR push_bit d 1 | None \<Rightarrow> data)"

lemma bit_low7: "bit (0x7F :: int) n \<longleftrightarrow> n < 7"
proof -
  have "(0x7F :: int) = mask 7" by (simp add: mask_eq_exp_minus_1)
  then have "bit (0x7F :: int) n = bit (mask 7 :: int) n" by (simp only:)
  also have "\<dots> = (n < 7)" by (simp only: bit_mask_iff possible_bit_int) simp
  finally show ?thesis .
qed

lemma top_bit: "s AND (0x80 :: u8) = 0 \<longleftrightarrow> \<not> bit s 7"
  using and_exp_eq_0_iff_not_bit [of s 7] by simp

lemma u8_zero_split: "(s :: u8) = 0 \<longleftrightarrow> s AND 0x7F = 0 \<and> \<not> bit s 7"
proof
  assume r: "s AND 0x7F = 0 \<and> \<not> bit s 7"
  show "s = 0"
  proof (rule bit_word_eqI)
    fix n assume n: "n < LENGTH(8)"
    have "bit (s AND 0x7F) n = bit (0 :: u8) n" using r by (simp only:)
    then have "\<not> (bit s n \<and> n < 7)" using n by (simp add: bit_and_iff bit_low7)
    with n r have "\<not> bit s n" by (cases "n = 7") auto
    then show "bit s n = bit (0 :: u8) n" by simp
  qed
qed simp

lemma DecodeAndCorrect_syndrome:
  assumes "s = CalculateECC data XOR stored"
  shows "DecodeAndCorrect data stored =
    (if s = 0 then (0, data) else if bit s 7 then (1, fix_word s data) else (2, data))"
  unfolding DecodeAndCorrect_def Let_def assms [symmetric] fix_word_def
  by (simp add: top_bit u8_zero_split [of s] split: option.split)

section \<open>Single-bit error patterns\<close>

text \<open>Number of Hamming parities that a data bit takes part in.\<close>

definition code_weight :: "nat \<Rightarrow> nat" where
  "code_weight d = popcount (of_nat (code_idx d) :: u8)"

lemma popcount_card: "popcount (w :: 'a::len word) = card {n. n < LENGTH('a) \<and> bit w n}"
proof -
  have "popcount w = card ({n. bit w n} \<inter> set [0..<LENGTH('a)])"
    unfolding popcount_def by (rule distinct_length_filter) simp
  also have "{n. bit w n} \<inter> set [0..<LENGTH('a)] = {n. n < LENGTH('a) \<and> bit w n}" by auto
  finally show ?thesis .
qed

lemma bit_single: "n < LENGTH('a) \<Longrightarrow> bit (2 ^ d :: 'a::len word) n \<longleftrightarrow> n = d"
  by (auto simp: bit_exp_iff)

lemma popcount_single_and:
  fixes m :: "'a::len word"
  assumes "d < LENGTH('a)"
  shows "popcount (2 ^ d AND m) = (if bit m d then 1 else 0)"
proof -
  have "{n. n < LENGTH('a) \<and> bit (2 ^ d AND m) n} = (if bit m d then {d} else {})"
    using assms by (auto simp: bit_and_iff bit_exp_iff)
  then show ?thesis by (simp only: popcount_card) simp
qed

lemma popcount_single:
  assumes "d < LENGTH('a)"
  shows "popcount (2 ^ d :: 'a::len word) = 1"
  using popcount_single_and [OF assms, of "- 1"] assms by simp

lemma code_idx_bound: "d < 64 \<Longrightarrow> 1 < code_idx d \<and> code_idx d < 128"
  by (auto simp: code_idx_def skip_pow_def)

lemma code_idx_list:
  "map code_idx [0..<64] =
   [3, 5, 6, 7, 9, 10, 11, 12, 13, 14, 15, 17, 18, 19, 20, 21, 22, 23, 24, 25, 26, 27, 28, 29,
    30, 31, 33, 34, 35, 36, 37, 38, 39, 40, 41, 42, 43, 44, 45, 46, 47, 48, 49, 50, 51, 52, 53,
    54, 55, 56, 57, 58, 59, 60, 61, 62, 63, 65, 66, 67, 68, 69, 70, 71]"
  by (simp add: upt_rec code_idx_def skip_pow_def)

lemma code_idx_mono: "d < e \<Longrightarrow> code_idx d < code_idx e"
  by (auto simp: code_idx_def skip_pow_def)

lemma code_idx_inj: "code_idx d = code_idx e \<longleftrightarrow> d = e"
  using code_idx_mono [of d e] code_idx_mono [of e d] by (metis less_irrefl linorder_neqE_nat)

lemma find_data_bit_code: "d < 64 \<Longrightarrow> find_data_bit (code_idx d) = Some d"
  unfolding find_data_bit_def find_Some_iff
  by (rule exI [of _ d]) (simp add: code_idx_inj)

lemma find_data_bit_SomeD: "find_data_bit k = Some d \<Longrightarrow> d < 64 \<and> code_idx d = k"
  unfolding find_data_bit_def by (auto simp: find_Some_iff)

lemma ecc7_single:
  assumes "d < 64"
  shows "ecc7 (2 ^ d) = of_nat (code_idx d)"
proof (rule bit_word_eqI)
  fix n assume n: "n < LENGTH(8)"
  have "n = 7 \<Longrightarrow> \<not> bit (code_idx d) n"
    using code_idx_bound [OF assms] by (simp add: bit_iff_odd)
  with n assms show "bit (ecc7 (2 ^ d)) n = bit (of_nat (code_idx d) :: u8) n"
    by (cases "n = 7") (auto simp: bit_ecc7 popcount_single_and bit_ecc_mask bit_of_nat_iff)
qed

lemma CalculateECC_single_low:
  assumes "d < 64"
  shows "CalculateECC (2 ^ d) AND 0x7F = of_nat (code_idx d)"
proof (rule bit_word_eqI)
  fix n assume n: "n < LENGTH(8)"
  have "n < 8 \<Longrightarrow> bit (ecc7 (2 ^ d)) n \<longleftrightarrow> bit (of_nat (code_idx d) :: u8) n"
    by (simp only: ecc7_single [OF assms])
  with n show "bit (CalculateECC (2 ^ d) AND 0x7F) n = bit (of_nat (code_idx d) :: u8) n"
    by (auto simp: bit_and_iff bit_low7 bit_CalculateECC bit_ecc7)
qed

lemma CalculateECC_single_top:
  assumes "d < 64"
  shows "bit (CalculateECC (2 ^ d)) 7 \<longleftrightarrow> even (code_weight d)"
  using assms by (simp add: bit_CalculateECC popcount_single ecc7_single code_weight_def)

section \<open>What the decoder does with errors\<close>

lemma syndrome_data_error: "CalculateECC e = CalculateECC (w XOR e) XOR CalculateECC w"
  by (simp add: ecc.syndrome_of_error)

lemma CalculateECC_single_nonzero:
  assumes "d < 64"
  shows "CalculateECC (2 ^ d) \<noteq> 0"
proof
  assume "CalculateECC (2 ^ d) = 0"
  then have "(of_nat (code_idx d) :: u8) = 0"
    using CalculateECC_single_low [OF assms] by simp
  then show False
    using code_idx_bound [OF assms] by (simp add: word_of_nat_eq_0_iff) (auto dest: dvd_imp_le)
qed

lemma unat_code_idx: "d < 64 \<Longrightarrow> unat (of_nat (code_idx d) :: u8) = code_idx d"
  using code_idx_bound [of d] by (simp add: unat_of_nat)

lemma fix_word_single:
  assumes "d < 64"
  shows "fix_word (CalculateECC (2 ^ d)) (w XOR 2 ^ d) = w"
  using assms by (simp add: fix_word_def CalculateECC_single_low unat_code_idx find_data_bit_code
      xor.assoc)

lemma decode_clean: "DecodeAndCorrect w (CalculateECC w) = (0, w)"
  by (subst DecodeAndCorrect_syndrome [OF refl]) simp

text \<open>the decoder reports no error only for a word whose check byte is the stored one: every
  corruption that leaves the check byte behind is noticed.\<close>

lemma ecc_no_error_iff: "fst (DecodeAndCorrect data stored) = 0 \<longleftrightarrow> stored = CalculateECC data"
  by (subst DecodeAndCorrect_syndrome [OF refl]) (auto simp: word_xor_eq_0)

text \<open>C20: a single flipped data bit is corrected exactly when the bit takes part in an even number of
  Hamming parities. For the other data bits the recomputed overall parity cancels the flip and
  the decoder answers 2 (uncorrectable) and leaves the flipped bit in place.\<close>

theorem ecc_single_bit:
  assumes "d < 64"
  shows "DecodeAndCorrect (w XOR push_bit d 1) (CalculateECC w) =
    (if even (code_weight d) then (1, w) else (2, w XOR push_bit d 1))"
  using assms CalculateECC_single_nonzero [OF assms] CalculateECC_single_top [OF assms]
    fix_word_single [OF assms, of w]
  by (simp add: DecodeAndCorrect_syndrome [OF syndrome_data_error])

theorem ecc_single_bit_witness:
  "(5::nat) < 64 \<and>
   DecodeAndCorrect (0x0123456789ABCDEF XOR push_bit 5 1) (CalculateECC 0x0123456789ABCDEF) =
     (if even (code_weight 5) then (1, 0x0123456789ABCDEF)
      else (2, 0x0123456789ABCDEF XOR push_bit 5 1))"
proof -
  have h: "(5::nat) < 64" by simp
  show ?thesis using h ecc_single_bit [OF h, of "0x0123456789ABCDEF"] by blast
qed

lemma code_weight_eval: "code_weight d = length (filter (bit (of_nat (code_idx d) :: u8)) [0..<8])"
  by (simp add: code_weight_def popcount_def)

text \<open>29 of the 64 data bits are not protected against a single flip.\<close>

lemma ecc_uncorrectable_bits: "length (filter (\<lambda>d. odd (code_weight d)) [0..<64]) = 29"
  unfolding code_weight_eval by (simp add: upt_rec code_idx_def skip_pow_def)

lemma CalculateECC_double_low:
  assumes "d < 64" "e < 64"
  shows "CalculateECC (2 ^ d XOR 2 ^ e) AND 0x7F = of_nat (code_idx d) XOR of_nat (code_idx e)"
proof -
  have "CalculateECC (2 ^ d XOR 2 ^ e) AND 0x7F =
      (CalculateECC (2 ^ d) AND 0x7F) XOR (CalculateECC (2 ^ e) AND 0x7F)"
    unfolding CalculateECC_xor by (rule bit_word_eqI) (auto simp: bit_xor_iff bit_and_iff)
  then show ?thesis using assms by (simp only: CalculateECC_single_low)
qed

lemma of_nat_code_idx_inj:
  assumes "d < 64" "e < 64"
  shows "(of_nat (code_idx d) :: u8) = of_nat (code_idx e) \<longleftrightarrow> d = e"
  using unat_code_idx [OF assms(1)] unat_code_idx [OF assms(2)] by (metis code_idx_inj)

lemma double_syndrome_nonzero:
  assumes "d < 64" "e < 64" "d \<noteq> e"
  shows "CalculateECC (2 ^ d XOR 2 ^ e) \<noteq> 0"
proof
  assume "CalculateECC (2 ^ d XOR 2 ^ e) = 0"
  then have "(of_nat (code_idx d) :: u8) XOR of_nat (code_idx e) = 0"
    using CalculateECC_double_low [OF assms(1,2)] by simp
  then show False using of_nat_code_idx_inj assms by (simp add: word_xor_eq_0)
qed

lemma double_fix_position:
  assumes "d < 64" "e < 64" "find_data_bit (unat (CalculateECC (2 ^ d XOR 2 ^ e) AND 0x7F)) = Some f"
  shows "f \<noteq> d"
proof
  assume "f = d"
  with assms have "code_idx d = unat (of_nat (code_idx d) XOR of_nat (code_idx e) :: u8)"
    using find_data_bit_SomeD [OF assms(3)] CalculateECC_double_low [OF assms(1,2)] by simp
  then have "(of_nat (code_idx d) :: u8) = of_nat (code_idx d) XOR of_nat (code_idx e)"
    using unat_code_idx [OF assms(1)] by (metis word_unat_eq_iff)
  then have "(of_nat (code_idx e) :: u8) = 0"
    by (rule word_eq_xor_self [THEN iffD1])
  then show False
    using unat_code_idx [OF assms(2)] code_idx_bound [OF assms(2)] by simp
qed

lemma double_fix_wrong:
  assumes "d < 64" "e < 64" "d \<noteq> e"
  shows "fix_word (CalculateECC (2 ^ d XOR 2 ^ e)) (w XOR (2 ^ d XOR 2 ^ e)) \<noteq> w"
proof
  let ?r = "fix_word (CalculateECC (2 ^ d XOR 2 ^ e)) (w XOR (2 ^ d XOR 2 ^ e))"
  assume "?r = w"
  then have eq: "bit ?r d = bit w d" by simp
  show False
    using eq assms double_fix_position [OF assms(1,2)]
    by (auto simp: fix_word_def bit_xor_iff bit_exp_iff split: option.splits)
qed

text \<open>C21: two flipped data bits are reported as uncorrectable when the two bits take part in equally
  even numbers of Hamming parities; otherwise the decoder reports a successful correction (1)
  and hands out a word that differs from the one stored.\<close>

theorem ecc_double_bit:
  assumes "d < 64" "e < 64" "d \<noteq> e"
  shows "if even (code_weight d) = even (code_weight e)
    then DecodeAndCorrect (w XOR (push_bit d 1 XOR push_bit e 1)) (CalculateECC w) =
           (2, w XOR (push_bit d 1 XOR push_bit e 1))
    else fst (DecodeAndCorrect (w XOR (push_bit d 1 XOR push_bit e 1)) (CalculateECC w)) = 1 \<and>
         snd (DecodeAndCorrect (w XOR (push_bit d 1 XOR push_bit e 1)) (CalculateECC w)) \<noteq> w"
proof -
  have "bit (CalculateECC (2 ^ d XOR 2 ^ e)) 7 \<longleftrightarrow> even (code_weight d) \<noteq> even (code_weight e)"
    using assms by (simp add: CalculateECC_xor bit_xor_iff CalculateECC_single_top)
  then show ?thesis
    using double_syndrome_nonzero [OF assms] double_fix_wrong [OF assms, of w]
    by (simp add: DecodeAndCorrect_syndrome [OF syndrome_data_error])
qed

theorem ecc_double_bit_witness:
  "(5::nat) < 64 \<and> (3::nat) < 64 \<and> (5::nat) \<noteq> 3 \<and>
   fst (DecodeAndCorrect (0 XOR (push_bit 5 1 XOR push_bit 3 1)) (CalculateECC 0)) = 1"
proof -
  have h: "(5::nat) < 64" "(3::nat) < 64" "(5::nat) \<noteq> 3" by simp_all
  have "code_weight 5 = 2" "code_weight 3 = 3"
    unfolding code_weight_eval by (simp_all add: upt_rec code_idx_def skip_pow_def)
  then show ?thesis using h ecc_double_bit [OF h, of 0] by simp
qed

lemma check_error_fix_0: "fix_word (2 ^ 7) w = w"
proof -
  have "find_data_bit 0 = None"
    using find_data_bit_SomeD [of 0] code_idx_bound by (cases "find_data_bit 0") fastforce+
  then show ?thesis by (simp add: fix_word_def)
qed

text \<open>a flip inside the stored check byte never changes the data; it is accepted when it hits the
  overall parity and reported as uncorrectable when it hits one of the seven Hamming parities.\<close>

lemma ecc_check_bit:
  assumes "i < 8"
  shows "DecodeAndCorrect w (CalculateECC w XOR push_bit i 1) = (if i = 7 then 1 else 2, w)"
proof -
  have s: "2 ^ i = CalculateECC w XOR (CalculateECC w XOR 2 ^ i)"
    by (simp add: ecc.syndrome_of_check_error)
  have "(2 ^ i :: u8) \<noteq> 0" using assms bit_exp_iff [where 'a = u8, of i i] by force
  then show ?thesis
    using assms check_error_fix_0 [of w]
    by (auto simp: DecodeAndCorrect_syndrome [OF s] bit_exp_iff)
qed

end
