(* ===== verification/Store.thy ===== *)
theory Store
  imports Ftl_Gc Ecc
begin

text \<open>
  The page buffers of \<open>FTJController\<close> (\<open>src/ftj_engine.cpp\<close>): the data bytes and one check byte per
  eight of them. \<open>copy_page\<close> is the copy that a page write and the collector both make, \<open>put_page\<close>
  the body of the page write: old version or zeros, new bytes, check bytes of the chunks they touch.

  The interpretation \<open>buf\<close> gives the translation layer its store.
\<close>

record store =
  memory_buffer :: "u8 list"
  ecc_buffer :: "u8 list"

definition copy_page :: "nat \<Rightarrow> nat \<Rightarrow> store \<Rightarrow> store option" where
  "copy_page dst src st = do {
     bytes \<leftarrow> slice (memory_buffer st) (src * PAGE_SIZE) PAGE_SIZE;
     mem \<leftarrow> splice (memory_buffer st) (dst * PAGE_SIZE) bytes;
     checks \<leftarrow> slice (ecc_buffer st) (src * PAGE_SIZE div 8) (PAGE_SIZE div 8);
     ecc \<leftarrow> splice (ecc_buffer st) (dst * PAGE_SIZE div 8) checks;
     Some \<lparr>memory_buffer = mem, ecc_buffer = ecc\<rparr>
   }"

definition zero_page :: "nat \<Rightarrow> store \<Rightarrow> store option" where
  "zero_page dst st = do {
     mem \<leftarrow> splice (memory_buffer st) (dst * PAGE_SIZE) (replicate PAGE_SIZE 0);
     ecc \<leftarrow> splice (ecc_buffer st) (dst * PAGE_SIZE div 8) (replicate (PAGE_SIZE div 8) 0);
     Some \<lparr>memory_buffer = mem, ecc_buffer = ecc\<rparr>
   }"

fun refresh_ecc :: "nat list \<Rightarrow> store \<Rightarrow> store option" where
  "refresh_ecc [] st = Some st"
| "refresh_ecc (c # cs) st = do {
     bytes \<leftarrow> slice (memory_buffer st) (c * 8) 8;
     ecc \<leftarrow> wr (ecc_buffer st) c (CalculateECC (le_word bytes));
     refresh_ecc cs (st\<lparr>ecc_buffer := ecc\<rparr>)
   }"

definition put_page :: "nat \<Rightarrow> u8 list \<Rightarrow> nat \<Rightarrow> nat option \<Rightarrow> store \<Rightarrow> store option" where
  "put_page page_offset src new_phys old_phys st = do {
     st1 \<leftarrow> (case old_phys of Some old \<Rightarrow> copy_page new_phys old st | None \<Rightarrow> zero_page new_phys st);
     mem \<leftarrow> splice (memory_buffer st1) (new_phys * PAGE_SIZE + page_offset) src;
     let first_chunk = (new_phys * PAGE_SIZE + page_offset) div 8;
     let last_chunk = (new_phys * PAGE_SIZE + page_offset + length src - 1) div 8;
     refresh_ecc [first_chunk..<Suc last_chunk] (st1\<lparr>memory_buffer := mem\<rparr>)
   }"

section \<open>Pages and chunks\<close>

definition page_bytes :: "store \<Rightarrow> nat \<Rightarrow> u8 list" where
  "page_bytes st p = take 4096 (drop (p * 4096) (memory_buffer st))"

definition chunk :: "u8 list \<Rightarrow> nat \<Rightarrow> u8 list" where
  "chunk mem c = take 8 (drop (c * 8) mem)"

definition sized :: "nat \<Rightarrow> store \<Rightarrow> bool" where
  "sized n st \<longleftrightarrow> length (memory_buffer st) = n * 4096 \<and> length (ecc_buffer st) = n * 512"

definition checked :: "nat \<Rightarrow> store \<Rightarrow> bool" where
  "checked n st \<longleftrightarrow> (\<forall>c < n * 512. ecc_buffer st ! c = CalculateECC (le_word (chunk (memory_buffer st) c)))"

definition store_clean :: "nat \<Rightarrow> store \<Rightarrow> bool" where
  "store_clean n st \<longleftrightarrow> sized n st \<and> checked n st"

definition upd_page :: "nat \<Rightarrow> u8 list \<Rightarrow> u8 list option \<Rightarrow> u8 list" where
  "upd_page off src old =
     (let base = (case old of Some bytes \<Rightarrow> bytes | None \<Rightarrow> replicate 4096 0)
      in take off base @ src @ drop (off + length src) base)"

lemma length_page_bytes: "sized n st \<Longrightarrow> p < n \<Longrightarrow> length (page_bytes st p) = 4096"
  by (simp add: page_bytes_def sized_def)

lemma page_bytes_nth: "sized n st \<Longrightarrow> p < n \<Longrightarrow> i < 4096 \<Longrightarrow> page_bytes st p ! i = memory_buffer st ! (p * 4096 + i)"
  by (simp add: page_bytes_def sized_def)

lemma chunk_nth: "c * 8 + 8 \<le> length mem \<Longrightarrow> i < 8 \<Longrightarrow> chunk mem c ! i = mem ! (c * 8 + i)"
  by (simp add: chunk_def)

lemma length_chunk: "c * 8 + 8 \<le> length mem \<Longrightarrow> length (chunk mem c) = 8"
  by (simp add: chunk_def)

lemma chunk_eqI:
  assumes "c * 8 + 8 \<le> length mem" "d * 8 + 8 \<le> length mem'"
    "\<And>i. i < 8 \<Longrightarrow> mem ! (c * 8 + i) = mem' ! (d * 8 + i)"
  shows "chunk mem c = chunk mem' d"
  by (rule nth_equalityI) (simp_all add: assms length_chunk chunk_nth)

lemma page_eqI:
  assumes "sized n st" "sized n st'" "p < n" "q < n"
    "\<And>i. i < 4096 \<Longrightarrow> memory_buffer st ! (p * 4096 + i) = memory_buffer st' ! (q * 4096 + i)"
  shows "page_bytes st p = page_bytes st' q"
  by (rule nth_equalityI) (use assms in \<open>simp_all add: length_page_bytes page_bytes_nth\<close>)

text \<open>Addresses of different pages are different.\<close>

lemma in_page_iff:
  assumes "i < 4096"
  shows "p * 4096 \<le> q * 4096 + i \<and> q * 4096 + i < p * 4096 + 4096 \<longleftrightarrow> q = (p::nat)"
proof (cases p q rule: linorder_cases)
  case less
  then have "p + 1 \<le> q" by simp
  then show ?thesis using assms by linarith
next
  case greater
  then have "q + 1 \<le> p" by simp
  then show ?thesis using assms by linarith
qed (use assms in simp)

lemma in_page_chunk_iff:
  assumes "i < 8"
  shows "p * 4096 \<le> c * 8 + i \<and> c * 8 + i < p * 4096 + 4096 \<longleftrightarrow> p * 512 \<le> c \<and> c < p * (512::nat) + 512"
proof -
  consider "c < p * 512" | "p * 512 \<le> c" "c < p * 512 + 512" | "p * 512 + 512 \<le> c" by linarith
  then show ?thesis
  proof cases
    case 1
    then have "c + 1 \<le> p * 512" by simp
    then have "c * 8 + i < p * 4096" using assms by linarith
    then show ?thesis using 1 by simp
  next
    case 2
    then have "c + 1 \<le> p * 512 + 512" by simp
    then have "c * 8 + i < p * 4096 + 4096" using assms by linarith
    moreover have "p * 4096 \<le> c * 8 + i" using 2 by linarith
    ultimately show ?thesis using 2 by simp
  next
    case 3
    then have "p * 4096 + 4096 \<le> c * 8 + i" by linarith
    then show ?thesis using 3 by simp
  qed
qed

lemma chunk_other_page:
  assumes "length mem = n * 4096" "length mem' = n * 4096" "c < n * 512"
    "\<not> (dst * 512 \<le> c \<and> c < dst * 512 + 512)"
    "\<And>a. a < n * 4096 \<Longrightarrow> \<not> (dst * 4096 \<le> a \<and> a < dst * 4096 + 4096) \<Longrightarrow> mem' ! a = mem ! a"
  shows "chunk mem' c = chunk mem c"
proof (rule chunk_eqI)
  fix i :: nat assume i: "i < 8"
  then have "c * 8 + i < n * 4096" using assms(3) by simp
  then show "mem' ! (c * 8 + i) = mem ! (c * 8 + i)"
    using assms(4,5) in_page_chunk_iff [OF i, of dst c] by blast
qed (use assms in simp_all)

section \<open>Copying and zeroing\<close>

lemma page_store_geom [geom]: "p * 4096 div 8 = p * (512::nat)" "4096 div 8 = (512::nat)"
  by simp_all

lemma copy_page_eq:
  assumes "sized n st" "dst < n" "src < n"
  shows "\<exists>st'. copy_page dst src st = Some st' \<and> sized n st' \<and>
    (\<forall>a < n * 4096. memory_buffer st' ! a =
       (if dst * 4096 \<le> a \<and> a < dst * 4096 + 4096 then memory_buffer st ! (src * 4096 + (a - dst * 4096))
        else memory_buffer st ! a)) \<and>
    (\<forall>c < n * 512. ecc_buffer st' ! c =
       (if dst * 512 \<le> c \<and> c < dst * 512 + 512 then ecc_buffer st ! (src * 512 + (c - dst * 512))
        else ecc_buffer st ! c))"
proof -
  have len: "length (memory_buffer st) = n * 4096" "length (ecc_buffer st) = n * 512"
    using assms(1) by (simp_all add: sized_def)
  obtain bytes where b: "slice (memory_buffer st) (src * 4096) 4096 = Some bytes"
    using assms(3) len by (simp add: slice_def)
  obtain mem where m: "splice (memory_buffer st) (dst * 4096) bytes = Some mem"
    using assms(2) len length_slice [OF b] by (simp add: splice_def)
  obtain checks where k: "slice (ecc_buffer st) (src * 512) 512 = Some checks"
    using assms(3) len by (simp add: slice_def)
  obtain ecc where e: "splice (ecc_buffer st) (dst * 512) checks = Some ecc"
    using assms(2) len length_slice [OF k] by (simp add: splice_def)
  have "copy_page dst src st = Some \<lparr>memory_buffer = mem, ecc_buffer = ecc\<rparr>"
    using b m k e by (simp add: copy_page_def geom)
  moreover have "mem ! a = (if dst * 4096 \<le> a \<and> a < dst * 4096 + 4096
      then memory_buffer st ! (src * 4096 + (a - dst * 4096)) else memory_buffer st ! a)" if "a < n * 4096" for a
    using nth_splice [OF m, of a] nth_slice [OF b, of "a - dst * 4096"] length_slice [OF b] that len by auto
  moreover have "ecc ! c = (if dst * 512 \<le> c \<and> c < dst * 512 + 512
      then ecc_buffer st ! (src * 512 + (c - dst * 512)) else ecc_buffer st ! c)" if "c < n * 512" for c
    using nth_splice [OF e, of c] nth_slice [OF k, of "c - dst * 512"] length_slice [OF k] that len by auto
  moreover have "sized n \<lparr>memory_buffer = mem, ecc_buffer = ecc\<rparr>"
    using length_splice [OF m] length_splice [OF e] len by (simp add: sized_def)
  ultimately show ?thesis by simp
qed

lemma zero_page_eq:
  assumes "sized n st" "dst < n"
  shows "\<exists>st'. zero_page dst st = Some st' \<and> sized n st' \<and>
    (\<forall>a < n * 4096. memory_buffer st' ! a =
       (if dst * 4096 \<le> a \<and> a < dst * 4096 + 4096 then 0 else memory_buffer st ! a)) \<and>
    (\<forall>c < n * 512. ecc_buffer st' ! c =
       (if dst * 512 \<le> c \<and> c < dst * 512 + 512 then 0 else ecc_buffer st ! c))"
proof -
  have len: "length (memory_buffer st) = n * 4096" "length (ecc_buffer st) = n * 512"
    using assms(1) by (simp_all add: sized_def)
  obtain mem where m: "splice (memory_buffer st) (dst * 4096) (replicate 4096 0) = Some mem"
    using assms(2) len by (simp add: splice_def)
  obtain ecc where e: "splice (ecc_buffer st) (dst * 512) (replicate 512 0) = Some ecc"
    using assms(2) len by (simp add: splice_def)
  have "zero_page dst st = Some \<lparr>memory_buffer = mem, ecc_buffer = ecc\<rparr>"
    using m e by (simp add: zero_page_def geom)
  moreover have "mem ! a = (if dst * 4096 \<le> a \<and> a < dst * 4096 + 4096 then 0 else memory_buffer st ! a)"
    if "a < n * 4096" for a using nth_splice [OF m, of a] that len by auto
  moreover have "ecc ! c = (if dst * 512 \<le> c \<and> c < dst * 512 + 512 then 0 else ecc_buffer st ! c)"
    if "c < n * 512" for c using nth_splice [OF e, of c] that len by auto
  moreover have "sized n \<lparr>memory_buffer = mem, ecc_buffer = ecc\<rparr>"
    using length_splice [OF m] length_splice [OF e] len by (simp add: sized_def)
  ultimately show ?thesis by simp
qed

lemma copy_page_checked:
  assumes "store_clean n st" "dst < n" "src < n" "copy_page dst src st = Some st'"
  shows "store_clean n st'"
proof -
  have sz: "sized n st" and ck: "checked n st" using assms(1) by (simp_all add: store_clean_def)
  have sz': "sized n st'"
    and mem: "\<forall>a < n * 4096. memory_buffer st' ! a =
       (if dst * 4096 \<le> a \<and> a < dst * 4096 + 4096 then memory_buffer st ! (src * 4096 + (a - dst * 4096))
        else memory_buffer st ! a)"
    and ecc: "\<forall>c < n * 512. ecc_buffer st' ! c =
       (if dst * 512 \<le> c \<and> c < dst * 512 + 512 then ecc_buffer st ! (src * 512 + (c - dst * 512))
        else ecc_buffer st ! c)"
    using copy_page_eq [OF sz assms(2,3)] assms(4) by simp_all
  have len: "length (memory_buffer st) = n * 4096" "length (memory_buffer st') = n * 4096"
    using sz sz' by (simp_all add: sized_def)
  have "ecc_buffer st' ! c = CalculateECC (le_word (chunk (memory_buffer st') c))" if c: "c < n * 512" for c
  proof (cases "dst * 512 \<le> c \<and> c < dst * 512 + 512")
    case False
    have "chunk (memory_buffer st') c = chunk (memory_buffer st) c"
      using c len mem False by (intro chunk_other_page [where dst = dst and n = n]) auto
    then show ?thesis using ecc ck c False by (auto simp: checked_def)
  next
    case True
    then obtain k where k: "c = dst * 512 + k" "k < 512" by (metis le_Suc_ex add_less_cancel_left)
    have s: "src * 512 + k < n * 512" using assms(3) k(2) by simp
    have "chunk (memory_buffer st') c = chunk (memory_buffer st) (src * 512 + k)"
    proof (rule chunk_eqI)
      fix i :: nat assume i: "i < 8"
      have "c * 8 + i < n * 4096" using c i by simp
      then have "memory_buffer st' ! (c * 8 + i) = memory_buffer st ! (src * 4096 + (c * 8 + i - dst * 4096))"
        using in_page_chunk_iff [OF i, of dst c] True mem by simp
      also have "src * 4096 + (c * 8 + i - dst * 4096) = (src * 512 + k) * 8 + i" using k by simp
      finally show "memory_buffer st' ! (c * 8 + i) = memory_buffer st ! ((src * 512 + k) * 8 + i)" .
    qed (use c s len in simp_all)
    moreover have "ecc_buffer st' ! c = ecc_buffer st ! (src * 512 + k)" using ecc c True k by simp
    ultimately show ?thesis using ck s by (simp add: checked_def)
  qed
  then show ?thesis using sz' by (simp add: store_clean_def checked_def)
qed

lemma zero_page_checked:
  assumes "store_clean n st" "dst < n" "zero_page dst st = Some st'"
  shows "store_clean n st'"
proof -
  have sz: "sized n st" and ck: "checked n st" using assms(1) by (simp_all add: store_clean_def)
  have sz': "sized n st'"
    and mem: "\<forall>a < n * 4096. memory_buffer st' ! a =
       (if dst * 4096 \<le> a \<and> a < dst * 4096 + 4096 then 0 else memory_buffer st ! a)"
    and ecc: "\<forall>c < n * 512. ecc_buffer st' ! c =
       (if dst * 512 \<le> c \<and> c < dst * 512 + 512 then 0 else ecc_buffer st ! c)"
    using zero_page_eq [OF sz assms(2)] assms(3) by simp_all
  have len: "length (memory_buffer st) = n * 4096" "length (memory_buffer st') = n * 4096"
    using sz sz' by (simp_all add: sized_def)
  have "ecc_buffer st' ! c = CalculateECC (le_word (chunk (memory_buffer st') c))" if c: "c < n * 512" for c
  proof (cases "dst * 512 \<le> c \<and> c < dst * 512 + 512")
    case False
    have "chunk (memory_buffer st') c = chunk (memory_buffer st) c"
      using c len mem False by (intro chunk_other_page [where dst = dst and n = n]) auto
    then show ?thesis using ecc ck c False by (auto simp: checked_def)
  next
    case True
    have "chunk (memory_buffer st') c = replicate 8 0"
    proof (rule nth_equalityI)
      fix i assume "i < length (chunk (memory_buffer st') c)"
      then have i: "i < 8" using length_chunk [of c "memory_buffer st'"] c len by simp
      then have "c * 8 + i < n * 4096" using c by simp
      then have "memory_buffer st' ! (c * 8 + i) = 0"
        using in_page_chunk_iff [OF i, of dst c] True mem by simp
      then show "chunk (memory_buffer st') c ! i = replicate 8 0 ! i"
        using c len i by (simp add: chunk_nth)
    qed (use c len in \<open>simp add: length_chunk\<close>)
    then show ?thesis using ecc c True ecc.enc_0 by simp
  qed
  then show ?thesis using sz' by (simp add: store_clean_def checked_def)
qed

section \<open>Recomputing check bytes\<close>

lemma refresh_ecc_eq:
  "sized n st \<Longrightarrow> \<forall>c \<in> set cs. c < n * 512 \<Longrightarrow>
   \<exists>ecc. refresh_ecc cs st = Some (st\<lparr>ecc_buffer := ecc\<rparr>) \<and> length ecc = n * 512 \<and>
     (\<forall>c < n * 512. ecc ! c = (if c \<in> set cs then CalculateECC (le_word (chunk (memory_buffer st) c))
        else ecc_buffer st ! c))"
proof (induction cs arbitrary: st)
  case Nil
  then show ?case by (intro exI [of _ "ecc_buffer st"]) (simp add: sized_def)
next
  case (Cons c cs)
  let ?w = "CalculateECC (le_word (chunk (memory_buffer st) c))"
  let ?st = "st\<lparr>ecc_buffer := (ecc_buffer st)[c := ?w]\<rparr>"
  have c: "c < n * 512" and cs: "\<forall>c \<in> set cs. c < n * 512" using Cons.prems(2) by simp_all
  have len: "length (memory_buffer st) = n * 4096" "length (ecc_buffer st) = n * 512"
    using Cons.prems(1) by (simp_all add: sized_def)
  have s: "slice (memory_buffer st) (c * 8) 8 = Some (chunk (memory_buffer st) c)"
    using c len by (simp add: slice_def chunk_def)
  have step: "refresh_ecc (c # cs) st = refresh_ecc cs ?st"
    using c len by (simp add: s access)
  have "sized n ?st" using len by (simp add: sized_def)
  from Cons.IH [OF this cs] obtain ecc where e: "refresh_ecc cs ?st = Some (?st\<lparr>ecc_buffer := ecc\<rparr>)"
    "length ecc = n * 512"
    "\<forall>d < n * 512. ecc ! d = (if d \<in> set cs then CalculateECC (le_word (chunk (memory_buffer st) d))
        else (ecc_buffer st)[c := ?w] ! d)" by auto
  have "\<forall>d < n * 512. ecc ! d = (if d \<in> set (c # cs) then CalculateECC (le_word (chunk (memory_buffer st) d))
        else ecc_buffer st ! d)"
    using e(3) c len by (auto simp: nth_list_update)
  then show ?case unfolding step using e(1,2) by (intro exI [of _ ecc]) simp
qed

section \<open>Writing a page\<close>

definition fits_page :: "nat \<times> u8 list \<Rightarrow> bool" where
  "fits_page x \<longleftrightarrow> snd x \<noteq> [] \<and> fst x + length (snd x) \<le> 4096"

text \<open>The page that the new version starts from: the old version, or zeros.\<close>

lemma base_page:
  assumes "sized n st" "p < n" "\<And>q. old = Some q \<Longrightarrow> q < n"
  shows "\<exists>st1. (case old of Some q \<Rightarrow> copy_page p q st | None \<Rightarrow> zero_page p st) = Some st1 \<and>
    sized n st1 \<and> (checked n st \<longrightarrow> checked n st1) \<and>
    page_bytes st1 p = (case old of Some q \<Rightarrow> page_bytes st q | None \<Rightarrow> replicate 4096 0) \<and>
    (\<forall>r < n. r \<noteq> p \<longrightarrow> page_bytes st1 r = page_bytes st r)"
proof (cases old)
  case (Some q)
  have q: "q < n" using Some assms(3) by blast
  obtain st1 where st1: "copy_page p q st = Some st1" "sized n st1"
    "\<forall>a < n * 4096. memory_buffer st1 ! a =
       (if p * 4096 \<le> a \<and> a < p * 4096 + 4096 then memory_buffer st ! (q * 4096 + (a - p * 4096))
        else memory_buffer st ! a)"
    using copy_page_eq [OF assms(1,2) q] by blast
  have "page_bytes st1 p = page_bytes st q"
    by (rule page_eqI [OF st1(2) assms(1,2) q]) (use st1(3) assms(2) in simp)
  moreover have "page_bytes st1 r = page_bytes st r" if "r < n" "r \<noteq> p" for r
    by (rule page_eqI [OF st1(2) assms(1) that(1,1)]) (use st1(3) in_page_iff [of _ p r] that in auto)
  moreover have "checked n st1" if "checked n st"
    using copy_page_checked [of n st p q st1] that assms(1,2) q st1(1) by (simp add: store_clean_def)
  ultimately show ?thesis using Some st1(1,2) by auto
next
  case None
  obtain st1 where st1: "zero_page p st = Some st1" "sized n st1"
    "\<forall>a < n * 4096. memory_buffer st1 ! a =
       (if p * 4096 \<le> a \<and> a < p * 4096 + 4096 then 0 else memory_buffer st ! a)"
    using zero_page_eq [OF assms(1,2)] by blast
  have "page_bytes st1 p = replicate 4096 0"
    by (rule nth_equalityI)
      (use st1(2,3) assms(2) in \<open>simp_all add: length_page_bytes [of n] page_bytes_nth [of n]\<close>)
  moreover have "page_bytes st1 r = page_bytes st r" if "r < n" "r \<noteq> p" for r
    by (rule page_eqI [OF st1(2) assms(1) that(1,1)]) (use st1(3) in_page_iff [of _ p r] that in auto)
  moreover have "checked n st1" if "checked n st"
    using zero_page_checked [of n st p st1] that assms(1,2) st1(1) by (simp add: store_clean_def)
  ultimately show ?thesis using None st1(1,2) by auto
qed

lemma put_page_eq:
  assumes "fits_page (off, src)" "sized n st" "p < n" "\<And>q. old = Some q \<Longrightarrow> q < n"
  shows "\<exists>st'. put_page off src p old st = Some st' \<and> sized n st' \<and> (checked n st \<longrightarrow> checked n st') \<and>
    (\<forall>r < n. page_bytes st' r =
       (if r = p then upd_page off src (map_option (page_bytes st) old) else page_bytes st r))"
proof -
  have src: "src \<noteq> []" "off + length src \<le> 4096" using assms(1) by (simp_all add: fits_page_def)
  obtain st1 where st1: "(case old of Some q \<Rightarrow> copy_page p q st | None \<Rightarrow> zero_page p st) = Some st1"
    "sized n st1" "checked n st \<longrightarrow> checked n st1"
    "page_bytes st1 p = (case old of Some q \<Rightarrow> page_bytes st q | None \<Rightarrow> replicate 4096 0)"
    "\<forall>r < n. r \<noteq> p \<longrightarrow> page_bytes st1 r = page_bytes st r"
    using base_page [OF assms(2,3), of old] assms(4) by blast
  have len1: "length (memory_buffer st1) = n * 4096" "length (ecc_buffer st1) = n * 512"
    using st1(2) by (simp_all add: sized_def)
  have top: "p * 4096 + 4096 \<le> n * 4096" using assms(3) by simp
  obtain mem where m: "splice (memory_buffer st1) (p * 4096 + off) src = Some mem"
    using src top len1 by (simp add: splice_def)
  have lm: "length mem = n * 4096" using length_splice [OF m] len1 by simp
  let ?cs = "[(p * 4096 + off) div 8..<Suc ((p * 4096 + off + length src - 1) div 8)]"
  have bound: "(p * 4096 + off + length src - 1) div 8 < n * 512"
    using src top by (intro less_mult_imp_div_less) (cases src; simp)
  have cs: "\<forall>c \<in> set ?cs. c < n * 512" using bound by auto
  have sz: "sized n (st1\<lparr>memory_buffer := mem\<rparr>)" using lm len1 by (simp add: sized_def)
  obtain ecc where e0: "refresh_ecc ?cs (st1\<lparr>memory_buffer := mem\<rparr>) = Some (st1\<lparr>memory_buffer := mem\<rparr>\<lparr>ecc_buffer := ecc\<rparr>)"
    "length ecc = n * 512"
    "\<forall>c < n * 512. ecc ! c = (if c \<in> set ?cs then CalculateECC (le_word (chunk (memory_buffer (st1\<lparr>memory_buffer := mem\<rparr>)) c))
       else ecc_buffer (st1\<lparr>memory_buffer := mem\<rparr>) ! c)"
    using refresh_ecc_eq [OF sz cs] by blast
  have sel: "memory_buffer (st1\<lparr>memory_buffer := mem\<rparr>) = mem"
    "ecc_buffer (st1\<lparr>memory_buffer := mem\<rparr>) = ecc_buffer st1" by simp_all
  have e: "refresh_ecc ?cs (st1\<lparr>memory_buffer := mem\<rparr>) = Some (st1\<lparr>memory_buffer := mem, ecc_buffer := ecc\<rparr>)"
    "length ecc = n * 512"
    "\<forall>c < n * 512. ecc ! c = (if c \<in> set ?cs then CalculateECC (le_word (chunk mem c)) else ecc_buffer st1 ! c)"
    using e0 unfolding sel by blast+
  let ?st = "st1\<lparr>memory_buffer := mem, ecc_buffer := ecc\<rparr>"
  have put: "put_page off src p old st = Some ?st"
    using st1(1) m e(1) by (simp add: put_page_def geom)
  have szf: "sized n ?st" using lm e(2) by (simp add: sized_def)
  have bytes: "mem ! a = (if p * 4096 + off \<le> a \<and> a < p * 4096 + off + length src
      then src ! (a - (p * 4096 + off)) else memory_buffer st1 ! a)" if "a < n * 4096" for a
    using nth_splice [OF m, of a] that len1 by simp
  have chunk_out: "chunk mem c = chunk (memory_buffer st1) c" if c: "c < n * 512" "c \<notin> set ?cs" for c
  proof (rule chunk_eqI)
    fix i :: nat assume i: "i < 8"
    have "\<not> (p * 4096 + off \<le> c * 8 + i \<and> c * 8 + i < p * 4096 + off + length src)"
    proof
      assume a: "p * 4096 + off \<le> c * 8 + i \<and> c * 8 + i < p * 4096 + off + length src"
      have cd: "(c * 8 + i) div 8 = c" using i by simp
      have "(p * 4096 + off) div 8 \<le> (c * 8 + i) div 8" using a div_le_mono by blast
      moreover have "(c * 8 + i) div 8 \<le> (p * 4096 + off + length src - 1) div 8"
        using a by (intro div_le_mono) linarith
      ultimately show False using c(2) cd by simp
    qed
    moreover have "c * 8 + i < n * 4096" using c(1) i by simp
    ultimately show "mem ! (c * 8 + i) = memory_buffer st1 ! (c * 8 + i)" using bytes [of "c * 8 + i"] by (metis (full_types))
  qed (use c lm len1 in simp_all)
  have "checked n ?st" if "checked n st"
    using that st1(3) e(3) chunk_out by (auto simp: checked_def)
  moreover have "page_bytes ?st p = upd_page off src (map_option (page_bytes st) old)"
  proof (rule nth_equalityI)
    let ?base = "page_bytes st1 p"
    have lb: "length ?base = 4096" using length_page_bytes [OF st1(2) assms(3)] .
    have u: "upd_page off src (map_option (page_bytes st) old) = take off ?base @ src @ drop (off + length src) ?base"
      using st1(4) by (cases old) (simp_all add: upd_page_def Let_def)
    show "length (page_bytes ?st p) = length (upd_page off src (map_option (page_bytes st) old))"
      using length_page_bytes [OF szf assms(3)] lb src by (simp add: u)
    fix i assume "i < length (page_bytes ?st p)"
    then have i: "i < 4096" using length_page_bytes [OF szf assms(3)] by simp
    have "page_bytes ?st p ! i = mem ! (p * 4096 + i)" using page_bytes_nth [OF szf assms(3) i] by simp
    also have "\<dots> = (if off \<le> i \<and> i < off + length src then src ! (i - off) else memory_buffer st1 ! (p * 4096 + i))"
      using bytes [of "p * 4096 + i"] i top by simp
    also have "\<dots> = (take off ?base @ src @ drop (off + length src) ?base) ! i"
      using page_bytes_nth [OF st1(2) assms(3) i] lb i src by (auto simp: nth_append min_def)
    finally show "page_bytes ?st p ! i = upd_page off src (map_option (page_bytes st) old) ! i" unfolding u .
  qed
  moreover have "page_bytes ?st r = page_bytes st r" if r: "r < n" "r \<noteq> p" for r
  proof -
    have "page_bytes ?st r = page_bytes st1 r"
    proof (rule page_eqI [OF szf st1(2) r(1,1)])
      fix i :: nat assume i: "i < 4096"
      have "\<not> (p * 4096 \<le> r * 4096 + i \<and> r * 4096 + i < p * 4096 + 4096)"
        using in_page_iff [OF i, of p r] r by simp
      then show "memory_buffer ?st ! (r * 4096 + i) = memory_buffer st1 ! (r * 4096 + i)"
        using bytes [of "r * 4096 + i"] r i src by auto
    qed
    then show ?thesis using st1(5) r by simp
  qed
  ultimately show ?thesis using put szf by auto
qed

text \<open>The two guarantees the translation layer can be given.\<close>

lemma copy_page_pages:
  assumes "sized n st" "dst < n" "src < n" "copy_page dst src st = Some st'" "q < n"
  shows "page_bytes st' q = (if q = dst then page_bytes st src else page_bytes st q)"
proof -
  have "\<exists>st1. copy_page dst src st = Some st1 \<and> page_bytes st1 dst = page_bytes st src \<and>
      (\<forall>r < n. r \<noteq> dst \<longrightarrow> page_bytes st1 r = page_bytes st r)"
    using base_page [OF assms(1,2), of "Some src"] assms(3) by auto
  then show ?thesis using assms(4,5) by auto
qed

text \<open>
  The store as the translation layer sees it, in two strengths: \<open>store_inv False\<close> promises sizes
  only and survives any corruption of the data, \<open>store_inv True\<close> also that every check byte matches
  its data.
\<close>

definition store_inv :: "bool \<Rightarrow> nat \<Rightarrow> store \<Rightarrow> bool" where
  "store_inv intact n st \<longleftrightarrow> sized n st \<and> (intact \<longrightarrow> checked n st)"

interpretation buf: page_writer copy_page page_bytes "store_inv intact"
  "\<lambda>x. put_page (fst x) (snd x)" fits_page "\<lambda>x. upd_page (fst x) (snd x)"
proof unfold_locales
  fix n m dst src assume a: "store_inv intact n m" "dst < n" "src < n"
  then have s: "sized n m" by (simp add: store_inv_def)
  obtain m' where m': "copy_page dst src m = Some m'" "sized n m'"
    using copy_page_eq [OF s a(2,3)] by blast
  have "checked n m'" if "checked n m"
    using copy_page_checked [OF _ a(2,3) m'(1)] s that by (simp add: store_clean_def)
  then show "\<exists>m'. copy_page dst src m = Some m' \<and> store_inv intact n m' \<and>
      (\<forall>q < n. page_bytes m' q = (if q = dst then page_bytes m src else page_bytes m q))"
    using a(1) m' copy_page_pages [OF s a(2,3) m'(1)] by (simp add: store_inv_def)
next
  fix x n m p old
  assume "fits_page x" "store_inv intact n m" "p < n" "\<And>q. old = Some q \<Longrightarrow> q < n"
  then show "\<exists>m'. put_page (fst x) (snd x) p old m = Some m' \<and> store_inv intact n m' \<and>
      (\<forall>q < n. page_bytes m' q = (if q = p then upd_page (fst x) (snd x) (map_option (page_bytes m) old)
        else page_bytes m q))"
    using put_page_eq [of "fst x" "snd x" n m p old] by (auto simp: store_inv_def)
qed

end
