(* ===== verification/Physics.thy ===== *)
theory Physics
  imports Prelude Complex_Main
begin

text \<open>
  The crossbar physics of \<open>FTJController\<close> in \<open>include/ftj_engine.hpp\<close> and \<open>src/ftj_engine.cpp\<close>:
  tunnelling electroresistance against temperature, IR drop along the wires, Merz switching latency.
  Doubles are exact reals here: rounding is not modelled, and the statements are bounds and
  monotonicity, not equalities of low-order digits.
\<close>

record physics_cfg =
  ambient_temp_c :: real
  r_wire_wl_ohm :: real
  r_wire_bl_ohm :: real
  v_applied_write :: real
  v_applied_read :: real
  r_lrs_nominal_ohm :: real
  r_hrs_nominal_ohm :: real
  alpha_activation :: real
  selector_v_th :: real
  selector_nonlinearity :: real
  half_select_disturb_threshold :: u32
  enable_ir_drop_sim :: bool
  enable_disturb_tracking :: bool

definition default_cfg :: physics_cfg where
  "default_cfg = \<lparr>ambient_temp_c = 25, r_wire_wl_ohm = 1.8, r_wire_bl_ohm = 1.8,
     v_applied_write = 2.4, v_applied_read = 0.6, r_lrs_nominal_ohm = 10000,
     r_hrs_nominal_ohm = 500000, alpha_activation = 0.85, selector_v_th = 1.2,
     selector_nonlinearity = 1000, half_select_disturb_threshold = 100000,
     enable_ir_drop_sim = True, enable_disturb_tracking = True\<rparr>"

section \<open>The calculations\<close>

definition CalculateTERRatio :: "physics_cfg \<Rightarrow> real \<Rightarrow> real" where
  "CalculateTERRatio cfg temperature_c =
     (let temp_clamped = max 0 (min 150 temperature_c);
          degradation = 1 - (temp_clamped - 25) * 0.0065;
          degradation_factor = (if degradation < 0.2 then 0.2 else degradation);
          nominal_ter = (r_hrs_nominal_ohm cfg - r_lrs_nominal_ohm cfg) / r_lrs_nominal_ohm cfg
      in nominal_ter * degradation_factor)"

definition v_applied :: "physics_cfg \<Rightarrow> bool \<Rightarrow> real" where
  "v_applied cfg is_write = (if is_write then v_applied_write cfg else v_applied_read cfg)"

definition ARRAY_DIM :: nat where "ARRAY_DIM = 512"

definition ir_drop_volts :: "physics_cfg \<Rightarrow> nat \<Rightarrow> bool \<Rightarrow> real" where
  "ir_drop_volts cfg offset is_write =
     (let cell_idx = (offset div 8) mod (ARRAY_DIM * ARRAY_DIM);
          row_x = cell_idx mod ARRAY_DIM;
          col_y = cell_idx div ARRAY_DIM;
          v = v_applied cfg is_write;
          unselected_cell_leakage = (v / 2) / (r_hrs_nominal_ohm cfg * selector_nonlinearity cfg);
          total_line_current = v / r_lrs_nominal_ohm cfg + unselected_cell_leakage * real ARRAY_DIM;
          r_total_wire = real row_x * r_wire_wl_ohm cfg + real col_y * r_wire_bl_ohm cfg;
          drop = total_line_current * r_total_wire
      in if drop > v * 0.35 then v * 0.35 else drop)"

text \<open>The voltage, and the new value of \<open>max_observed_ir_drop_mv_\<close>.\<close>

definition CalculateEffectiveVoltage :: "physics_cfg \<Rightarrow> real \<Rightarrow> nat \<Rightarrow> bool \<Rightarrow> real \<times> real" where
  "CalculateEffectiveVoltage cfg max_drop_mv offset is_write =
     (if \<not> enable_ir_drop_sim cfg then (v_applied cfg is_write, max_drop_mv)
      else (max 0.1 (v_applied cfg is_write - ir_drop_volts cfg offset is_write),
            (let drop_mv = ir_drop_volts cfg offset is_write * 1000
             in if drop_mv > max_drop_mv then drop_mv else max_drop_mv)))"

definition CalculateMerzSwitchingLatency :: "physics_cfg \<Rightarrow> real \<Rightarrow> bool \<Rightarrow> real" where
  "CalculateMerzSwitchingLatency cfg v_eff_volts is_write =
     (let base_latency = (if is_write then 300 else 8);
          v_nominal = v_applied cfg is_write
      in if v_eff_volts \<ge> v_nominal then base_latency
         else (let delta_ratio = v_nominal / v_eff_volts - 1;
                   penalty = exp (alpha_activation cfg * delta_ratio)
               in base_latency * penalty))"

text \<open>\<open>static_cast<uint64_t>\<close> of a non-negative double.\<close>

definition ns_of :: "real \<Rightarrow> u64" where
  "ns_of x = of_int \<lfloor>x\<rfloor>"

section \<open>Bounds\<close>

text \<open>Physically meaningful parameters; the defaults satisfy it.\<close>

definition sane_cfg :: "physics_cfg \<Rightarrow> bool" where
  "sane_cfg cfg \<longleftrightarrow> 0 < r_lrs_nominal_ohm cfg \<and> r_lrs_nominal_ohm cfg \<le> r_hrs_nominal_ohm cfg \<and>
     0 < selector_nonlinearity cfg \<and> 0 \<le> r_wire_wl_ohm cfg \<and> 0 \<le> r_wire_bl_ohm cfg \<and>
     0.2 \<le> v_applied_write cfg \<and> 0.2 \<le> v_applied_read cfg \<and> 0 \<le> alpha_activation cfg"

lemma sane_default: "sane_cfg default_cfg"
  by (simp add: sane_cfg_def default_cfg_def)

lemma sane_v_applied: "sane_cfg cfg \<Longrightarrow> 0.2 \<le> v_applied cfg w"
  by (simp add: sane_cfg_def v_applied_def)

lemma ir_drop_bounds:
  assumes "sane_cfg cfg"
  shows "0 \<le> ir_drop_volts cfg offset w" "ir_drop_volts cfg offset w \<le> v_applied cfg w * 0.35"
proof -
  have "0 \<le> v_applied cfg w" using sane_v_applied [OF assms, of w] by simp
  then show "0 \<le> ir_drop_volts cfg offset w"
    using assms by (simp add: ir_drop_volts_def Let_def sane_cfg_def)
  show "ir_drop_volts cfg offset w \<le> v_applied cfg w * 0.35"
    by (simp add: ir_drop_volts_def Let_def)
qed

text \<open>the effective voltage never exceeds the applied one and never falls below 65% of it, whatever
  the cell; the recorded maximum IR drop never decreases and covers the drop of this access.\<close>

lemma effective_voltage_bounds:
  assumes "sane_cfg cfg" "CalculateEffectiveVoltage cfg m offset w = (v, m')"
  shows "0.65 * v_applied cfg w \<le> v \<and> v \<le> v_applied cfg w \<and> 0 < v \<and> m \<le> m' \<and>
    (enable_ir_drop_sim cfg \<longrightarrow> ir_drop_volts cfg offset w * 1000 \<le> m')"
  using assms(2) ir_drop_bounds [OF assms(1), of offset w] sane_v_applied [OF assms(1), of w]
  by (auto simp: CalculateEffectiveVoltage_def Let_def split: if_splits)

lemma merz_at_nominal: "v_applied cfg w \<le> v \<Longrightarrow>
   CalculateMerzSwitchingLatency cfg v w = (if w then 300 else 8)"
  by (simp add: CalculateMerzSwitchingLatency_def)

lemma merz_below_nominal: "v < v_applied cfg w \<Longrightarrow>
   CalculateMerzSwitchingLatency cfg v w =
     (if w then 300 else 8) * exp (alpha_activation cfg * (v_applied cfg w / v - 1))"
  by (simp add: CalculateMerzSwitchingLatency_def)

lemma merz_mono:
  assumes "sane_cfg cfg" "0 < v1" "v1 \<le> v2"
  shows "CalculateMerzSwitchingLatency cfg v2 w \<le> CalculateMerzSwitchingLatency cfg v1 w"
    "(if w then 300 else 8) \<le> CalculateMerzSwitchingLatency cfg v1 w"
proof -
  let ?n = "v_applied cfg w"
  have a: "0 \<le> alpha_activation cfg" using assms(1) by (simp add: sane_cfg_def)
  have n: "0 < ?n" using sane_v_applied [OF assms(1), of w] by simp
  have ge: "1 \<le> exp (alpha_activation cfg * (?n / v - 1))" if "0 < v" "v < ?n" for v
    using a that mult_nonneg_nonneg [OF a, of "?n / v - 1"] by simp
  show "(if w then 300 else 8) \<le> CalculateMerzSwitchingLatency cfg v1 w"
    using ge [of v1] assms by (cases "v1 < ?n") (auto simp: merz_at_nominal merz_below_nominal)
  show "CalculateMerzSwitchingLatency cfg v2 w \<le> CalculateMerzSwitchingLatency cfg v1 w"
  proof (cases "v2 < ?n")
    case True
    have "?n / v2 \<le> ?n / v1" using assms n by (intro divide_left_mono) auto
    then have "alpha_activation cfg * (?n / v2 - 1) \<le> alpha_activation cfg * (?n / v1 - 1)"
      using a by (intro mult_left_mono) auto
    then show ?thesis using True assms by (cases w) (simp_all add: merz_below_nominal)
  next
    case False
    then show ?thesis
      using ge [of v1] assms by (cases "v1 < ?n") (auto simp: merz_at_nominal merz_below_nominal)
  qed
qed

text \<open>switching slows down as the voltage drops: the latency is antitone in the effective voltage
  and never below the nominal 300 ns (write) or 8 ns (read).\<close>

lemma merz_antitone:
  assumes "sane_cfg cfg" "0 < v1" "v1 \<le> v2"
  shows "CalculateMerzSwitchingLatency cfg v2 w \<le> CalculateMerzSwitchingLatency cfg v1 w \<and>
    (if w then 300 else 8) \<le> CalculateMerzSwitchingLatency cfg v2 w"
  using merz_mono [OF assms] merz_mono(2) [of cfg v2 v2] assms by auto

text \<open>the latency charged to one access, from the voltage the crossbar gives it, lies between the
  nominal latency and the nominal latency times \<open>exp (7/13 * alpha)\<close>.\<close>

lemma access_latency_bounds:
  assumes "sane_cfg cfg"
  shows "(if w then 300 else 8)
      \<le> CalculateMerzSwitchingLatency cfg (fst (CalculateEffectiveVoltage cfg m offset w)) w \<and>
    CalculateMerzSwitchingLatency cfg (fst (CalculateEffectiveVoltage cfg m offset w)) w
      \<le> (if w then 300 else 8) * exp (7 / 13 * alpha_activation cfg)"
proof -
  obtain v m' where v: "CalculateEffectiveVoltage cfg m offset w = (v, m')" by fastforce
  let ?n = "v_applied cfg w"
  have n: "0 < ?n" using sane_v_applied [OF assms, of w] by simp
  have a: "0 \<le> alpha_activation cfg" using assms by (simp add: sane_cfg_def)
  have lo: "0.65 * ?n \<le> v" and pos: "0 < v"
    using effective_voltage_bounds [OF assms v] by auto
  have "?n / v \<le> 20 / 13" using lo pos n by (simp add: field_simps)
  then have "alpha_activation cfg * (?n / v - 1) \<le> 7 / 13 * alpha_activation cfg"
    using mult_left_mono [OF _ a, of "?n / v - 1" "7 / 13"] by (simp add: mult.commute)
  then have "CalculateMerzSwitchingLatency cfg v w \<le> (if w then 300 else 8) * exp (7 / 13 * alpha_activation cfg)"
    using a by (cases "v < ?n") (auto simp: merz_at_nominal merz_below_nominal)
  then show ?thesis using merz_mono(2) [OF assms pos order.refl] by (simp add: v)
qed

text \<open>the sensing margin falls as the junction warms up, stays within 20% and 117% of its nominal
  value over the whole range, and is the nominal one at 25 degrees.\<close>

lemma TER_bounds:
  assumes "sane_cfg cfg"
    and "nominal = (r_hrs_nominal_ohm cfg - r_lrs_nominal_ohm cfg) / r_lrs_nominal_ohm cfg"
  shows "(t1 \<le> t2 \<longrightarrow> CalculateTERRatio cfg t2 \<le> CalculateTERRatio cfg t1) \<and>
    0.2 * nominal \<le> CalculateTERRatio cfg t1 \<and> CalculateTERRatio cfg t1 \<le> 1.1625 * nominal \<and>
    CalculateTERRatio cfg 25 = nominal"
proof -
  let ?f = "\<lambda>t::real. if 1 - (max 0 (min 150 t) - 25) * 0.0065 < 0.2 then 0.2
      else 1 - (max 0 (min 150 t) - 25) * 0.0065"
  have eq: "CalculateTERRatio cfg t = nominal * ?f t" for t
    unfolding CalculateTERRatio_def Let_def assms(2) by (rule refl)
  have n: "0 \<le> nominal" using assms by (simp add: sane_cfg_def)
  have f: "0.2 \<le> ?f t \<and> ?f t \<le> 1.1625" for t
  proof -
    have "0.2 \<le> (if 1 - (x - 25) * 0.0065 < 0.2 then 0.2 else 1 - (x - 25) * 0.0065) \<and>
        (if 1 - (x - 25) * 0.0065 < 0.2 then 0.2 else 1 - (x - 25) * 0.0065) \<le> 1.1625"
      if "0 \<le> x" for x :: real
      using that by (auto simp: field_simps)
    from this [of "max 0 (min 150 t)"] show ?thesis by (simp only: max.cobounded1)
  qed
  have mono: "t1 \<le> t2 \<Longrightarrow> ?f t2 \<le> ?f t1" by (auto simp: max_def min_def)
  have 1: "t1 \<le> t2 \<Longrightarrow> CalculateTERRatio cfg t2 \<le> CalculateTERRatio cfg t1"
    unfolding eq by (rule mult_left_mono [OF mono n])
  have 2: "0.2 * nominal \<le> CalculateTERRatio cfg t1" "CalculateTERRatio cfg t1 \<le> 1.1625 * nominal"
    unfolding eq using mult_left_mono [OF conjunct1 [OF f] n, of t1]
      mult_left_mono [OF conjunct2 [OF f] n, of t1] by (simp_all only: mult.commute)
  have 3: "CalculateTERRatio cfg 25 = nominal" unfolding eq by simp
  show ?thesis using 1 2 3 by blast
qed

end
