(* ===== verification/Prng.thy ===== *)
theory Prng
  imports Prelude Complex_Main
begin

text \<open>
  The pseudo-random bit flips of worn or disturbed cells: \<open>SimpleRand\<close> and the bit-error block of
  \<open>FTJController::Read\<close> in \<open>src/ftj_engine.cpp\<close>. The seed is the thread-local \<open>g_seed\<close>, passed
  explicitly. Doubles are modelled as exact reals (no rounding); the one place where the code can
  divide by zero is written out with the IEEE result.
\<close>

definition SimpleRand :: "u64 \<Rightarrow> u64" where
  "SimpleRand seed = seed * 6364136223846793005 + 1442695040888963407"

text \<open>
  The comparison \<open>rand_val < prob\<close>. With a zero disturb threshold the second summand is
  \<open>disturbs / 0.0\<close>: infinity for a positive count, NaN (every comparison false) for a zero count.
\<close>

definition WEAR_THRESHOLD :: u32 where "WEAR_THRESHOLD = 50000"

definition below_prob :: "real \<Rightarrow> u32 \<Rightarrow> u32 \<Rightarrow> u32 \<Rightarrow> bool" where
  "below_prob rand_val writes disturbs threshold =
     (let wear = real (unat (if writes > WEAR_THRESHOLD then writes - WEAR_THRESHOLD else 0))
                 / real (unat WEAR_THRESHOLD) * 0.03
      in if threshold = 0 then disturbs \<noteq> 0
         else rand_val < wear + real (unat disturbs) / (real (unat threshold) * 10))"

definition rand_unit :: "u64 \<Rightarrow> real" where
  "rand_unit r = real (unat r mod 10000) / 10000"

text \<open>The loop \<open>while (bit2 == bit1) bit2 = SimpleRand(g_seed) % 64;\<close>: \<open>None\<close> is "does not return".\<close>

partial_function (option) redraw :: "nat \<Rightarrow> nat \<Rightarrow> u64 \<Rightarrow> (nat \<times> u64) option" where
  "redraw bit1 bit2 seed =
     (if bit2 = bit1
      then redraw bit1 (unat (SimpleRand seed) mod 64) (SimpleRand seed)
      else Some (bit2, seed))"

text \<open>The word after the simulated errors, the number of flips and the new seed.\<close>

definition FlipBits :: "u32 \<Rightarrow> u32 \<Rightarrow> u32 \<Rightarrow> u64 \<Rightarrow> u64 \<Rightarrow> (u64 \<times> nat \<times> u64) option" where
  "FlipBits writes disturbs threshold seed data_word =
     (if writes > WEAR_THRESHOLD \<or> disturbs > threshold then
        (let s0 = SimpleRand seed in
         if below_prob (rand_unit s0) writes disturbs threshold then
           (let s1 = SimpleRand s0;
                bit1 = unat s1 mod 64;
                w1 = data_word XOR push_bit bit1 1;
                s2 = SimpleRand s1
            in if rand_unit s2 < 0.20 then
                 (let s3 = SimpleRand s2 in
                  do {
                    (bit2, s4) \<leftarrow> redraw bit1 (unat s3 mod 64) s3;
                    Some (w1 XOR push_bit bit2 1, 2, s4)
                  })
               else Some (w1, 1, s2))
         else Some (data_word, 0, s0))
      else Some (data_word, 0, seed))"

section \<open>The second flip never collides with the first\<close>

lemma lcg_mod4:
  "(x * 6364136223846793005 + 1442695040888963407) mod 4 = (x + 3) mod (4::nat)"
proof -
  have "x * 6364136223846793005 + 1442695040888963407 =
      (x + 3) + 4 * (x * 1591034055961698251 + 360673760222240851)" by simp
  then show ?thesis by (simp only: mod_mult_self2)
qed

lemma SimpleRand_mod4: "unat (SimpleRand s) mod 4 = (unat s + 3) mod 4"
proof -
  let ?x = "unat s * 6364136223846793005 + 1442695040888963407"
  have "SimpleRand s = of_nat ?x"
    unfolding SimpleRand_def of_nat_add of_nat_mult of_nat_numeral by simp
  then have "unat (SimpleRand s) = ?x mod 2 ^ 64"
    by (simp only: unat_of_nat len_num1 len_bit0) simp
  moreover have "(4::nat) dvd 2 ^ 64" using le_imp_power_dvd [of 2 64 "2::nat"] by simp
  ultimately show ?thesis by (simp only: mod_mod_cancel lcg_mod4)
qed

lemma mod4_two_steps:
  assumes "(b::nat) mod 4 = (a + 3) mod 4" "c mod 4 = (b + 3) mod 4"
  shows "c mod 4 \<noteq> a mod 4"
proof -
  have "c mod 4 = (b mod 4 + 3) mod 4" unfolding assms(2) by (rule mod_add_left_eq [symmetric])
  also have "\<dots> = (a + 3 + 3) mod 4" unfolding assms(1) by (rule mod_add_left_eq)
  also have "\<dots> \<noteq> a mod 4" by presburger
  finally show ?thesis .
qed

lemma mod64_mod4:
  assumes "(a::nat) mod 64 = b mod 64"
  shows "a mod 4 = b mod 4"
proof -
  have c: "x mod 64 mod 4 = x mod 4" for x :: nat by (rule mod_mod_cancel) simp
  show ?thesis using arg_cong [OF assms, of "\<lambda>x. x mod 4"] by (simp only: c)
qed

lemma third_draw_differs:
  "unat (SimpleRand (SimpleRand s1)) mod 64 \<noteq> unat s1 mod 64"
  using mod4_two_steps [OF SimpleRand_mod4 [of s1] SimpleRand_mod4 [of "SimpleRand s1"]]
    mod64_mod4 by blast

lemma redraw_immediate: "bit2 \<noteq> bit1 \<Longrightarrow> redraw bit1 bit2 seed = Some (bit2, seed)"
  by (subst redraw.simps) simp

lemma FlipBits_closed:
  "FlipBits writes disturbs threshold seed data_word =
     (let s1 = SimpleRand seed; s2 = SimpleRand s1; s3 = SimpleRand s2; s4 = SimpleRand s3;
          w1 = data_word XOR push_bit (unat s2 mod 64) 1
      in if \<not> (writes > WEAR_THRESHOLD \<or> disturbs > threshold) then Some (data_word, 0, seed)
         else if \<not> below_prob (rand_unit s1) writes disturbs threshold then Some (data_word, 0, s1)
         else if rand_unit s3 < 0.20 then Some (w1 XOR push_bit (unat s4 mod 64) 1, 2, s4)
         else Some (w1, 1, s3))"
proof -
  have "redraw (unat s mod 64) (unat (SimpleRand (SimpleRand s)) mod 64) x = Some (unat (SimpleRand (SimpleRand s)) mod 64, x)"
    for s x by (rule redraw_immediate) (rule third_draw_differs)
  then show ?thesis by (simp add: FlipBits_def Let_def)
qed

lemma FlipBits_total: "\<exists>w n seed'. FlipBits writes disturbs threshold seed data_word = Some (w, n, seed')"
  by (simp add: FlipBits_closed Let_def)

text \<open>The bits in which two words differ.\<close>

definition flipped :: "u64 \<Rightarrow> u64 \<Rightarrow> nat set" where
  "flipped v w = {i. i < 64 \<and> bit v i \<noteq> bit w i}"

lemma flipped_simps:
  "flipped v v = {}"
  "b < 64 \<Longrightarrow> flipped v (v XOR 2 ^ b) = {b}"
  "b < 64 \<Longrightarrow> b' < 64 \<Longrightarrow> b \<noteq> b' \<Longrightarrow> flipped v ((v XOR 2 ^ b) XOR 2 ^ b') = {b, b'}"
  by (auto simp: flipped_def bit_xor_iff bit_exp_iff possible_bit_word)

text \<open>C39: the simulated degradation always terminates, because the redraw loop of the second bit is never entered:
  of the draws that follow a seed, the second and the fourth give different bits, whatever the seed. So the outcome
  is known exactly: healthy cells draw nothing; degraded cells draw once and, when the probability is missed, keep the word;
  else one bit is flipped after three draws, or two different bits after four, never more.\<close>

theorem FlipBits_returns:
  "let s1 = SimpleRand seed; s2 = SimpleRand s1; s3 = SimpleRand s2; s4 = SimpleRand s3;
       b1 = unat s2 mod 64; b2 = unat s4 mod 64
   in b2 \<noteq> b1 \<and>
     (\<exists>w n seed'. FlipBits writes disturbs threshold seed data_word = Some (w, n, seed') \<and> n = card (flipped data_word w) \<and>
        (flipped data_word w, seed') =
          (if writes \<le> WEAR_THRESHOLD \<and> disturbs \<le> threshold then ({}, seed)
           else if \<not> below_prob (rand_unit s1) writes disturbs threshold then ({}, s1)
           else if rand_unit s3 < 0.20 then ({b1, b2}, s4)
           else ({b1}, s3)))"
proof -
  let ?s2 = "SimpleRand (SimpleRand seed)"
  let ?b1 = "unat ?s2 mod 64" and ?b2 = "unat (SimpleRand (SimpleRand ?s2)) mod 64"
  have ne: "?b2 \<noteq> ?b1" by (rule third_draw_differs)
  have lt: "?b1 < 64" "?b2 < 64" by simp_all
  note f = flipped_simps(2) [OF lt(1), of data_word] flipped_simps(3) [OF lt ne [symmetric], of data_word]
  have "card {?b1, ?b2} = 2" using ne by simp
  then show ?thesis
    unfolding FlipBits_closed Let_def
    using ne by (simp add: f flipped_simps(1) not_less cong: if_cong)
qed

text \<open>Cells that are neither worn nor disturbed are read back as they are, without drawing.\<close>

lemma FlipBits_healthy:
  "writes \<le> WEAR_THRESHOLD \<Longrightarrow> disturbs \<le> threshold \<Longrightarrow>
   FlipBits writes disturbs threshold seed w = Some (w, 0, seed)"
  by (simp add: FlipBits_def leD)

end
