(* ===== verification/Controller.thy ===== *)
theory Controller
  imports Store Physics Prng
begin

text \<open>
  \<open>FTJController\<close> of \<open>include/ftj_engine.hpp\<close> and \<open>src/ftj_engine.cpp\<close>: the simulated drive. A
  controller holds the translation layer, the page buffers, the physics parameters and the counters;
  \<open>g_seed\<close> is the seed of the calling thread. A pointer argument is \<open>None\<close> when null and otherwise
  the bytes of the caller's buffer, so that a too short buffer shows as undefined behaviour.

  The latency itself is the theory Latency; here an access computes how many nanoseconds it waits.
\<close>

record ctrl =
  capacity :: nat
  latency_ns :: u64
  buffers :: store
  meta :: ftl
  physics_cfg :: physics_cfg
  total_autonomous_refreshes :: u64
  max_observed_ir_drop_mv :: real
  total_switching_latency_accum_ns :: u64
  total_switching_ops :: u64
  total_reads :: u64
  total_writes :: u64
  corrected_errors :: u64
  uncorrectable_errors :: u64
  total_bit_flips :: u64
  g_seed :: u64

definition FTJController :: "nat \<Rightarrow> u64 \<Rightarrow> ctrl" where
  "FTJController capacity_bytes latency =
     \<lparr>capacity = capacity_bytes, latency_ns = latency,
      buffers = \<lparr>memory_buffer = replicate capacity_bytes 0,
                 ecc_buffer = replicate ((capacity_bytes + 7) div 8) 0\<rparr>,
      meta = ftl_init capacity_bytes, physics_cfg = default_cfg,
      total_autonomous_refreshes = 0, max_observed_ir_drop_mv = 0,
      total_switching_latency_accum_ns = 0, total_switching_ops = 0,
      total_reads = 0, total_writes = 0, corrected_errors = 0, uncorrectable_errors = 0,
      total_bit_flips = 0, g_seed = 1337\<rparr>"

definition SetPhysicsConfig :: "physics_cfg \<Rightarrow> ctrl \<Rightarrow> ctrl" where
  "SetPhysicsConfig config c = c\<lparr>physics_cfg := config\<rparr>"

definition GetPhysicsConfig :: "ctrl \<Rightarrow> physics_cfg" where
  "GetPhysicsConfig c = physics_cfg c"

text \<open>What \<open>Read\<close> and \<open>Write\<close> do first: the nanoseconds they wait, and the updated statistics. The latency is an exact real, and
  \<open>ns_of\<close> takes its integer part modulo \<open>2 ^ 64\<close>: for a latency outside the range of the 64-bit integer, which a strange
  configuration can produce, the conversion of the code is undefined.\<close>

definition access_start :: "ctrl \<Rightarrow> nat \<Rightarrow> bool \<Rightarrow> u64 \<times> ctrl" where
  "access_start c offset is_write =
     (let (v_eff, drop_mv) =
            CalculateEffectiveVoltage (physics_cfg c) (max_observed_ir_drop_mv c) offset is_write;
          dynamic_latency = CalculateMerzSwitchingLatency (physics_cfg c) v_eff is_write
      in (if dynamic_latency > real (unat (latency_ns c)) then ns_of dynamic_latency else latency_ns c,
          c\<lparr>max_observed_ir_drop_mv := drop_mv,
            total_switching_latency_accum_ns := total_switching_latency_accum_ns c + ns_of dynamic_latency,
            total_switching_ops := total_switching_ops c + 1\<rparr>))"

section \<open>Writing\<close>

function write_loop :: "bool \<Rightarrow> nat \<Rightarrow> u8 list \<Rightarrow> ftl \<times> store \<Rightarrow> (bool \<times> ftl \<times> store) option" where
  "write_loop tracking start_byte src s =
     (if src = [] then Some (True, s) else do {
        let lp = start_byte div PAGE_SIZE;
        let page_offset = start_byte mod PAGE_SIZE;
        let to_write = min (length src) (PAGE_SIZE - page_offset);
        (ok, s') \<leftarrow> write_step copy_page (put_page page_offset (take to_write src)) tracking lp s;
        if ok then write_loop tracking (start_byte + to_write) (drop to_write src) s'
        else Some (False, s')
      })"
  by pat_completeness auto
termination
  by (relation "measure (\<lambda>(tracking, start, src, s). length src)") (auto simp: PAGE_SIZE_def)

declare write_loop.simps [simp del]

definition Write :: "ctrl \<Rightarrow> nat \<Rightarrow> u8 list option \<Rightarrow> nat \<Rightarrow> (bool \<times> ctrl) option" where
  "Write c offset src sz =
     (case src of
        None \<Rightarrow> Some (False, c)
      | Some buf \<Rightarrow>
          if sz > capacity c \<or> offset > capacity c - sz then Some (False, c)
          else do {
            let c1 = snd (access_start c offset True);
            bytes \<leftarrow> slice buf 0 sz;
            (ok, f, st) \<leftarrow> write_loop (enable_disturb_tracking (physics_cfg c1)) offset bytes
              (meta c1, buffers c1);
            let c2 = c1\<lparr>meta := f, buffers := st\<rparr>;
            if \<not> ok then Some (False, c2) else do {
              let c3 = c2\<lparr>total_writes := total_writes c2 + 1\<rparr>;
              (f', st') \<leftarrow> gc_if_low copy_page (meta c3, buffers c3);
              Some (True, c3\<lparr>meta := f', buffers := st'\<rparr>)
            }
          })"

section \<open>Reading\<close>

text \<open>One chunk of eight bytes: simulated degradation, correction, and the bytes asked for.\<close>

definition read_chunk :: "nat \<Rightarrow> nat \<Rightarrow> nat \<Rightarrow> nat \<Rightarrow> ctrl \<Rightarrow> (bool \<times> u8 list \<times> ctrl) option" where
  "read_chunk phys page_offset to_copy chunk_offset c = do {
     let local_offset = chunk_offset - phys * PAGE_SIZE;
     let start_b = (if local_offset < page_offset then page_offset else local_offset);
     let end_b = min (local_offset + 8) (page_offset + to_copy);
     bytes \<leftarrow> slice (memory_buffer (buffers c)) (phys * PAGE_SIZE + local_offset) 8;
     stored_ecc \<leftarrow> rd (ecc_buffer (buffers c)) ((phys * PAGE_SIZE + local_offset) div 8);
     writes \<leftarrow> rd (page_writes (meta c)) phys;
     disturbs \<leftarrow> rd (page_disturbs (meta c)) phys;
     (data_word, flips, seed) \<leftarrow> FlipBits writes disturbs
       (half_select_disturb_threshold (physics_cfg c)) (g_seed c) (le_word bytes);
     let (err, word) = DecodeAndCorrect data_word stored_ecc;
     out \<leftarrow> slice (le_bytes word) (start_b - local_offset) (end_b - start_b);
     Some (err \<noteq> 2, out,
       c\<lparr>g_seed := seed, total_bit_flips := total_bit_flips c + of_nat flips,
         corrected_errors := (if err = 1 then corrected_errors c + 1 else corrected_errors c),
         uncorrectable_errors := (if err = 2 then uncorrectable_errors c + 1 else uncorrectable_errors c)\<rparr>)
   }"

text \<open>The loop from \<open>chunk_start\<close> to \<open>chunk_end\<close> in steps of eight; \<open>x & ~7\<close> is \<open>8 * (x div 8)\<close>.\<close>

definition chunk_offsets :: "nat \<Rightarrow> nat \<Rightarrow> nat \<Rightarrow> nat list" where
  "chunk_offsets phys page_offset to_copy =
     map (\<lambda>k. 8 * k) [(phys * PAGE_SIZE + page_offset) div 8 ..<
       (phys * PAGE_SIZE + page_offset + to_copy + 7) div 8]"

fun read_chunks :: "nat \<Rightarrow> nat \<Rightarrow> nat \<Rightarrow> nat list \<Rightarrow> ctrl \<Rightarrow> (bool \<times> u8 list \<times> ctrl) option" where
  "read_chunks phys page_offset to_copy [] c = Some (True, [], c)"
| "read_chunks phys page_offset to_copy (k # ks) c = do {
     (ok1, out1, c1) \<leftarrow> read_chunk phys page_offset to_copy k c;
     (ok2, out2, c2) \<leftarrow> read_chunks phys page_offset to_copy ks c1;
     Some (ok1 \<and> ok2, out1 @ out2, c2)
   }"

text \<open>The part of the read that falls in one logical page; unmapped pages read as zeros.\<close>

definition read_page :: "nat \<Rightarrow> nat \<Rightarrow> nat \<Rightarrow> ctrl \<Rightarrow> (bool \<times> u8 list \<times> ctrl) option" where
  "read_page lp page_offset to_copy c =
     (case (if lp < length (l2p_map (meta c)) then l2p_map (meta c) ! lp else None) of
        None \<Rightarrow> Some (True, replicate to_copy 0, c)
      | Some phys \<Rightarrow> do {
          valid \<leftarrow> rd (phys_valid (meta c)) phys;
          if \<not> valid then Some (True, replicate to_copy 0, c)
          else read_chunks phys page_offset to_copy (chunk_offsets phys page_offset to_copy) c
        })"

function read_loop :: "nat \<Rightarrow> nat \<Rightarrow> ctrl \<Rightarrow> (bool \<times> u8 list \<times> ctrl) option" where
  "read_loop start_byte end_byte c =
     (if start_byte < end_byte then do {
        let lp = start_byte div PAGE_SIZE;
        let page_offset = start_byte mod PAGE_SIZE;
        let to_copy = min (end_byte - start_byte) (PAGE_SIZE - page_offset);
        (ok1, out1, c1) \<leftarrow> read_page lp page_offset to_copy c;
        (ok2, out2, c2) \<leftarrow> read_loop (start_byte + to_copy) end_byte c1;
        Some (ok1 \<and> ok2, out1 @ out2, c2)
      } else Some (True, [], c))"
  by pat_completeness auto
termination
  by (relation "measure (\<lambda>(s, e, c). e - s)") (auto simp: PAGE_SIZE_def)

declare read_loop.simps [simp del]

definition Read :: "ctrl \<Rightarrow> nat \<Rightarrow> u8 list option \<Rightarrow> nat \<Rightarrow> (bool \<times> u8 list option \<times> ctrl) option" where
  "Read c offset dest sz =
     (case dest of
        None \<Rightarrow> Some (False, dest, c)
      | Some buf \<Rightarrow>
          if sz > capacity c \<or> offset > capacity c - sz then Some (False, dest, c)
          else do {
            let c1 = snd (access_start c offset False);
            (ok, out, c2) \<leftarrow> read_loop offset (offset + sz) c1;
            buf' \<leftarrow> splice buf 0 out;
            Some (ok, Some buf', c2\<lparr>total_reads := total_reads c2 + 1\<rparr>)
          })"

section \<open>Maintenance and telemetry\<close>

definition TriggerAutonomousRefresh :: "ctrl \<Rightarrow> u64 \<times> ctrl" where
  "TriggerAutonomousRefresh c =
     (let refreshed = of_nat (length (filter (\<lambda>d. d > 0) (page_disturbs (meta c))))
      in (refreshed, c\<lparr>meta := (meta c)\<lparr>page_disturbs := map (\<lambda>d. if d > 0 then 0 else d) (page_disturbs (meta c))\<rparr>,
            total_autonomous_refreshes := total_autonomous_refreshes c + refreshed\<rparr>))"

definition drift_prob :: "real \<Rightarrow> real \<Rightarrow> real" where
  "drift_prob elapsed_hours temperature_c =
     (let t_kelvin = temperature_c + 273.15;
          thermal_rate = exp (- (1.1 / (8.617333 / 10 ^ 5 * t_kelvin)));
          prob = 1 - exp (- thermal_rate * elapsed_hours * 3600 * 10 ^ 8)
      in max 0 (min 0.08 prob))"

definition drift_page :: "real \<Rightarrow> nat \<Rightarrow> ctrl \<Rightarrow> ctrl option" where
  "drift_page prob p c = do {
     valid \<leftarrow> rd (phys_valid (meta c)) p;
     if \<not> valid then Some c else
       (let s0 = SimpleRand (g_seed c) in
        if rand_unit s0 < prob then do {
          let s1 = SimpleRand s0;
          let byte_pos = p * PAGE_SIZE + unat s1 mod PAGE_SIZE;
          let s2 = SimpleRand s1;
          b \<leftarrow> rd (memory_buffer (buffers c)) byte_pos;
          mem \<leftarrow> wr (memory_buffer (buffers c)) byte_pos (b XOR push_bit (unat s2 mod 8) 1);
          Some (c\<lparr>buffers := (buffers c)\<lparr>memory_buffer := mem\<rparr>, g_seed := s2,
            total_bit_flips := total_bit_flips c + 1\<rparr>)
        } else Some (c\<lparr>g_seed := s0\<rparr>))
   }"

fun drift_pages :: "real \<Rightarrow> nat list \<Rightarrow> ctrl \<Rightarrow> ctrl option" where
  "drift_pages prob [] c = Some c"
| "drift_pages prob (p # ps) c = do { c' \<leftarrow> drift_page prob p c; drift_pages prob ps c' }"

definition SimulateRetentionDrift :: "real \<Rightarrow> real \<Rightarrow> ctrl \<Rightarrow> ctrl option" where
  "SimulateRetentionDrift elapsed_hours temperature_c c =
     drift_pages (drift_prob elapsed_hours temperature_c) [0..<page_count (meta c)] c"

definition InjectHeavyWear :: "nat \<Rightarrow> u32 \<Rightarrow> ctrl \<Rightarrow> ctrl option" where
  "InjectHeavyWear offset write_count c =
     (let page = offset div 4096 in
      if page < page_count (meta c) then do {
        writes \<leftarrow> wr (page_writes (meta c)) page write_count;
        Some (c\<lparr>meta := (meta c)\<lparr>page_writes := writes\<rparr>\<rparr>)
      } else Some c)"

definition GetMaxWearPercentage :: "ctrl \<Rightarrow> real" where
  "GetMaxWearPercentage c =
     (if page_count (meta c) = 0 then 0
      else real (unat (fold max (page_writes (meta c)) 0)) / real (unat WEAR_THRESHOLD) * 100)"

definition GetTotalPhysicalBytesWritten :: "ctrl \<Rightarrow> u64" where
  "GetTotalPhysicalBytesWritten c = total_physical_bytes_written (meta c)"

record telemetry =
  max_ir_drop_mv :: real
  min_ter_ratio :: real
  avg_switching_latency_ns :: real
  current_temperature_c :: real
  tel_half_select_disturbs :: u64
  tel_autonomous_refreshes :: u64

definition GetPhysicsTelemetry :: "ctrl \<Rightarrow> telemetry" where
  "GetPhysicsTelemetry c =
     \<lparr>max_ir_drop_mv = max_observed_ir_drop_mv c,
      min_ter_ratio = CalculateTERRatio (physics_cfg c) (ambient_temp_c (physics_cfg c)),
      avg_switching_latency_ns =
        (if total_switching_ops c > 0
         then real (unat (total_switching_latency_accum_ns c)) / real (unat (total_switching_ops c))
         else real (unat (latency_ns c))),
      current_temperature_c = ambient_temp_c (physics_cfg c),
      tel_half_select_disturbs = total_half_select_disturbs (meta c),
      tel_autonomous_refreshes = total_autonomous_refreshes c\<rparr>"

end
