(* ===== verification/Controller_Safety.thy ===== *)
theory Controller_Safety
  imports Controller
begin

text \<open>
  No operation of the controller leaves its buffers, whatever the free lists, the wear counters and the
  data look like: under \<open>ctrl_safe\<close> every operation is defined and returns, and \<open>ctrl_safe\<close> is kept.
  \<open>ctrl_safe True\<close> also says that every check byte matches its data; writes and garbage collection
  keep it.
\<close>

definition ctrl_safe :: "bool \<Rightarrow> ctrl \<Rightarrow> bool" where
  "ctrl_safe intact c \<longleftrightarrow> shape (meta c) \<and> store_inv intact (page_count (meta c)) (buffers c) \<and>
     capacity c = page_count (meta c) * 4096"

lemma ctrl_safe_weaken: "ctrl_safe True c \<Longrightarrow> ctrl_safe intact c"
  by (simp add: ctrl_safe_def store_inv_def)

lemma good_capacity_size:
  assumes "good_capacity cap"
  shows "cap = page_count (ftl_init cap) * 4096"
  using assms div_mult_mod_eq [of cap 4096] by (simp add: good_capacity_def geom ftl_init_page_count)

lemma FTJController_safe:
  assumes "good_capacity cap"
  shows "ctrl_safe True (FTJController cap lat)"
proof -
  let ?n = "page_count (ftl_init cap)"
  have cap: "cap = ?n * 4096" using good_capacity_size [OF assms] .
  have ecc: "(cap + 7) div 8 = ?n * 512" by (subst cap) simp
  have "chunk (replicate cap 0) k = replicate 8 0" if "k < ?n * 512" for k
  proof -
    have "cap - k * 8 \<ge> 8" using that cap by simp
    then show ?thesis by (simp add: chunk_def min_def)
  qed
  then have "checked ?n \<lparr>memory_buffer = replicate cap 0, ecc_buffer = replicate ((cap + 7) div 8) 0\<rparr>"
    unfolding checked_def ecc by (simp add: ecc.enc_0)
  then show ?thesis using shape_init [OF assms] cap ecc
    by (simp add: ctrl_safe_def store_inv_def sized_def FTJController_def)
qed

lemma access_start_frame:
  "snd (access_start c off w) = c\<lparr>max_observed_ir_drop_mv := max_observed_ir_drop_mv (snd (access_start c off w)),
     total_switching_latency_accum_ns := total_switching_latency_accum_ns (snd (access_start c off w)),
     total_switching_ops := total_switching_ops c + 1\<rparr>"
  by (simp add: access_start_def Let_def split: prod.splits)

lemma access_start_keeps [simp]:
  "meta (snd (access_start c off w)) = meta c" "buffers (snd (access_start c off w)) = buffers c"
  "capacity (snd (access_start c off w)) = capacity c"
  "physics_cfg (snd (access_start c off w)) = physics_cfg c"
  "g_seed (snd (access_start c off w)) = g_seed c"
  by (subst access_start_frame; simp)+

section \<open>Writes\<close>

text \<open>The first page-sized piece of a write fits in its page, and stays inside the device.\<close>

lemma first_piece:
  assumes "src \<noteq> []" "start + length src \<le> n * 4096"
  defines "piece \<equiv> min (length src) (4096 - start mod 4096)"
  shows "fits_page (start mod 4096, take piece src)" "start div 4096 < n" "0 < piece"
    "start + piece + length (drop piece src) = start + length src"
proof -
  have m: "start mod 4096 < 4096" by simp
  then show "0 < piece" using assms(1) by (simp add: piece_def)
  then show "fits_page (start mod 4096, take piece src)"
    using assms(1) m by (auto simp: fits_page_def piece_def)
  have "start < n * 4096" using assms(1,2) by (cases src) simp_all
  then show "start div 4096 < n" by (intro less_mult_imp_div_less) simp
  show "start + piece + length (drop piece src) = start + length src" by (simp add: piece_def)
qed

lemma write_loop_safe:
  "shape f \<Longrightarrow> store_inv intact (page_count f) st \<Longrightarrow> start + length src \<le> page_count f * 4096 \<Longrightarrow>
   \<exists>ok f' st'. write_loop tracking start src (f, st) = Some (ok, f', st') \<and> shape f' \<and>
     same_geom f f' \<and> store_inv intact (page_count f) st'"
proof (induction "length src" arbitrary: start src f st rule: less_induct)
  case less
  show ?case
  proof (cases "src = []")
    case True
    then show ?thesis using less.prems by (auto simp: write_loop.simps)
  next
    case False
    define piece where "piece = min (length src) (4096 - start mod 4096)"
    note fp = first_piece [OF False less.prems(3), folded piece_def]
    obtain ok f1 st1 where w:
      "write_step copy_page (put_page (start mod 4096) (take piece src)) tracking (start div 4096) (f, st) = Some (ok, f1, st1)"
      "shape f1" "same_geom f f1" "store_inv intact (page_count f) st1"
      using buf.write_step_safe [OF fp(1) less.prems(1,2) fp(2), of tracking] by auto
    have pc: "page_count f1 = page_count f" using w(3) by (simp add: same_geom_def)
    have step: "write_loop tracking start src (f, st) =
        (if ok then write_loop tracking (start + piece) (drop piece src) (f1, st1) else Some (False, f1, st1))"
      using False w(1) by (simp add: write_loop.simps [of tracking start src] geom piece_def Let_def)
    show ?thesis
    proof (cases ok)
      case True
      have "length (drop piece src) < length src" using False fp(3) by simp
      then obtain ok2 f2 st2 where "write_loop tracking (start + piece) (drop piece src) (f1, st1) = Some (ok2, f2, st2)"
        "shape f2" "same_geom f1 f2" "store_inv intact (page_count f) st2"
        using less.hyps [OF _ w(2), of "drop piece src" st1 "start + piece"] w(4) pc fp(4) less.prems(3) by auto
      then show ?thesis using step True same_geom_trans [OF w(3)] by auto
    next
      case False
      then show ?thesis using step w(2-4) by auto
    qed
  qed
qed

lemma Write_safe:
  assumes "ctrl_safe intact c" "\<And>buf. src = Some buf \<Longrightarrow> n \<le> length buf"
  shows "\<exists>ok c'. Write c offset src n = Some (ok, c') \<and> ctrl_safe intact c' \<and> capacity c' = capacity c"
proof (cases "src = None \<or> n > capacity c \<or> offset > capacity c - n")
  case True
  then show ?thesis using assms(1) by (auto simp: Write_def split: option.splits)
next
  case False
  then obtain buf where buf: "src = Some buf" by auto
  let ?f = "meta c" and ?c1 = "snd (access_start c offset True)"
  have safe: "shape ?f" "store_inv intact (page_count ?f) (buffers c)" "capacity c = page_count ?f * 4096"
    using assms(1) by (simp_all add: ctrl_safe_def)
  have sl: "slice buf 0 n = Some (take n buf)" using assms(2) [OF buf] by (simp add: slice_def)
  have "offset + length (take n buf) \<le> page_count ?f * 4096"
    using False assms(2) [OF buf] safe(3) by auto
  then obtain ok f1 st1 where w: "write_loop (enable_disturb_tracking (physics_cfg c)) offset (take n buf) (?f, buffers c) = Some (ok, f1, st1)"
    "shape f1" "same_geom ?f f1" "store_inv intact (page_count ?f) st1"
    using write_loop_safe [OF safe(1,2)] by blast
  have pc: "page_count f1 = page_count ?f" using w(3) by (simp add: same_geom_def)
  obtain f2 st2 where g: "gc_if_low copy_page (f1, st1) = Some (f2, st2)" "shape f2" "same_geom f1 f2"
    "store_inv intact (page_count ?f) st2"
    using buf.gc_if_low_safe [of f1 intact st1] w(2,4) pc by auto
  have pc2: "page_count f2 = page_count ?f" using g(3) pc by (simp add: same_geom_def)
  show ?thesis
  proof (cases ok)
    case True
    then show ?thesis using False buf sl w g pc pc2 safe(3)
      by (simp add: Write_def Let_def ctrl_safe_def) blast
  next
    case not_ok: False
    then show ?thesis using False buf sl w pc safe(3)
      by (simp add: Write_def Let_def ctrl_safe_def) blast
  qed
qed

section \<open>Reads\<close>

text \<open>Reading changes no page and no metadata: only the seed and the error counters.\<close>

definition only_counters :: "ctrl \<Rightarrow> ctrl \<Rightarrow> bool" where
  "only_counters c c' \<longleftrightarrow> meta c' = meta c \<and> buffers c' = buffers c \<and> capacity c' = capacity c \<and>
     physics_cfg c' = physics_cfg c \<and> latency_ns c' = latency_ns c"

lemma only_counters_refl [simp]: "only_counters c c"
  by (simp add: only_counters_def)

lemma only_counters_trans: "only_counters a b \<Longrightarrow> only_counters b c \<Longrightarrow> only_counters a c"
  by (simp add: only_counters_def)

lemma only_counters_safe: "only_counters c c' \<Longrightarrow> ctrl_safe k c \<Longrightarrow> ctrl_safe k c'"
  by (simp add: only_counters_def ctrl_safe_def)

text \<open>The chunk at byte \<open>8 * k\<close> of the buffer, for a chunk that meets the bytes asked for.\<close>

definition chunk_lo :: "nat \<Rightarrow> nat \<Rightarrow> nat \<Rightarrow> nat" where
  "chunk_lo phys po k = (if 8 * k - phys * 4096 < po then po else 8 * k - phys * 4096)"

definition chunk_hi :: "nat \<Rightarrow> nat \<Rightarrow> nat \<Rightarrow> nat \<Rightarrow> nat" where
  "chunk_hi phys po n k = min (8 * k - phys * 4096 + 8) (po + n)"

lemma chunk_bounds:
  assumes "(phys * 4096 + po) div 8 \<le> k" "k < (phys * 4096 + po + n + 7) div 8" "po + n \<le> 4096"
    "phys < pages"
  shows "phys * 4096 \<le> 8 * k" "8 * k - phys * 4096 + 8 \<le> 4096" "8 * k + 8 \<le> pages * 4096"
    "chunk_lo phys po k - (8 * k - phys * 4096) + (chunk_hi phys po n k - chunk_lo phys po k) \<le> 8"
proof -
  have "phys * 512 \<le> (phys * 4096 + po) div 8" by simp
  then have a: "phys * 512 \<le> k" using assms(1) by linarith
  then show 1: "phys * 4096 \<le> 8 * k" by linarith
  let ?x = "phys * 4096 + po + n + 7"
  have "k + 1 \<le> ?x div 8" using assms(2) by simp
  then have "8 * (k + 1) \<le> 8 * (?x div 8)" by (rule mult_le_mono2)
  also have "\<dots> \<le> ?x" by (rule times_div_less_eq_dividend)
  finally have up: "8 * k + 8 \<le> ?x" by simp
  have "k + 1 \<le> phys * 512 + 512"
  proof (rule ccontr)
    assume "\<not> k + 1 \<le> phys * 512 + 512"
    then have "phys * 512 + 512 \<le> k" by simp
    then have "phys * 4096 + 4096 \<le> 8 * k" by simp
    then show False using up assms(3) by simp
  qed
  then show 2: "8 * k - phys * 4096 + 8 \<le> 4096" using 1 by linarith
  then show "8 * k + 8 \<le> pages * 4096" using 1 assms(4) by linarith
  let ?y = "phys * 4096 + po"
  have "?y < 8 + 8 * (?y div 8)" by (rule dividend_less_times_div) simp
  moreover have "8 * (?y div 8) \<le> 8 * k" using assms(1) by (rule mult_le_mono2)
  ultimately have y: "?y < 8 * k + 8" by linarith
  obtain l where l: "8 * k = phys * 4096 + l" using 1 le_Suc_ex by blast
  then show "chunk_lo phys po k - (8 * k - phys * 4096) + (chunk_hi phys po n k - chunk_lo phys po k) \<le> 8"
    using y unfolding chunk_lo_def chunk_hi_def l by (auto simp: min_def)
qed

lemma read_chunk_safe:
  assumes "ctrl_safe intact c" "phys < page_count (meta c)" "po + n \<le> 4096"
    and "8 * k \<in> set (chunk_offsets phys po n)"
  shows "\<exists>ok out c'. read_chunk phys po n (8 * k) c = Some (ok, out, c') \<and> only_counters c c' \<and>
    length out = chunk_hi phys po n k - chunk_lo phys po k"
proof -
  have k: "(phys * 4096 + po) div 8 \<le> k" "k < (phys * 4096 + po + n + 7) div 8"
    using assms(4) by (auto simp: chunk_offsets_def geom)
  note b = chunk_bounds [OF k assms(3,2)]
  let ?local = "8 * k - phys * 4096"
  have len: "length (memory_buffer (buffers c)) = page_count (meta c) * 4096"
    "length (ecc_buffer (buffers c)) = page_count (meta c) * 512"
    "length (page_writes (meta c)) = page_count (meta c)" "length (page_disturbs (meta c)) = page_count (meta c)"
    using assms(1) by (simp_all add: ctrl_safe_def store_inv_def sized_def shape_def)
  have at: "phys * 4096 + ?local = 8 * k" using b(1) by simp
  obtain bytes where bytes: "slice (memory_buffer (buffers c)) (8 * k) 8 = Some bytes"
    using b(3) len by (simp add: slice_def)
  obtain e where e: "rd (ecc_buffer (buffers c)) k = Some e" using b(3) len by (simp add: rd_def)
  obtain w where w: "rd (page_writes (meta c)) phys = Some w" using assms(2) len by (simp add: rd_def)
  obtain d where d: "rd (page_disturbs (meta c)) phys = Some d" using assms(2) len by (simp add: rd_def)
  obtain dw flips seed where f: "FlipBits w d (half_select_disturb_threshold (physics_cfg c)) (g_seed c) (le_word bytes)
      = Some (dw, flips, seed)"
    using FlipBits_total by blast
  obtain err word where dec: "DecodeAndCorrect dw e = (err, word)" by fastforce
  obtain out where out: "slice (le_bytes word) (chunk_lo phys po k - ?local) (chunk_hi phys po n k - chunk_lo phys po k) = Some out"
    using b(4) by (simp add: slice_def)
  show ?thesis using length_slice [OF out] bytes e w d f dec out
    by (auto simp: read_chunk_def at geom Let_def chunk_lo_def [symmetric] chunk_hi_def [symmetric] only_counters_def)
qed

text \<open>Consecutive chunks meet: together they cover exactly the bytes asked for.\<close>

lemma chunks_meet:
  assumes "(phys * 4096 + po) div 8 \<le> k" "k < (phys * 4096 + po + n + 7) div 8" "0 < n"
  shows "chunk_lo phys po k \<le> chunk_hi phys po n k"
    "Suc k < (phys * 4096 + po + n + 7) div 8 \<Longrightarrow> chunk_hi phys po n k = chunk_lo phys po (Suc k)"
    "Suc k = (phys * 4096 + po + n + 7) div 8 \<Longrightarrow> chunk_hi phys po n k = po + n"
proof -
  let ?x = "phys * 4096 + po + n + 7" and ?y = "phys * 4096 + po"
  have "phys * 512 \<le> ?y div 8" by simp
  then have "phys * 4096 \<le> 8 * k" using assms(1) by linarith
  then obtain l where l: "8 * k = phys * 4096 + l" using le_Suc_ex by blast
  have "?y < 8 + 8 * (?y div 8)" by (rule dividend_less_times_div) simp
  moreover have "8 * (?y div 8) \<le> 8 * k" using assms(1) by (rule mult_le_mono2)
  ultimately have lo: "po < l + 8" using l by linarith
  have "Suc k \<le> ?x div 8" using assms(2) by simp
  then have "8 * Suc k \<le> 8 * (?x div 8)" by (rule mult_le_mono2)
  moreover have "8 * (?x div 8) \<le> ?x" by (rule times_div_less_eq_dividend)
  ultimately have "8 * k + 8 \<le> ?x" by simp
  then have hi: "l + 1 \<le> po + n" using l by simp
  show "chunk_lo phys po k \<le> chunk_hi phys po n k"
    using lo hi assms(3) unfolding chunk_lo_def chunk_hi_def l by (auto simp: min_def)
  have l2: "8 * Suc k - phys * 4096 = l + 8" using l by simp
  show "chunk_hi phys po n k = chunk_lo phys po (Suc k)" if "Suc k < ?x div 8"
  proof -
    have "8 * (Suc k + 1) \<le> 8 * (?x div 8)" using that by (intro mult_le_mono2) simp
    moreover have "8 * (?x div 8) \<le> ?x" by (rule times_div_less_eq_dividend)
    ultimately have "l + 9 \<le> po + n" using l by simp
    then show ?thesis using lo unfolding chunk_lo_def chunk_hi_def l2 unfolding l by (auto simp: min_def)
  qed
  show "chunk_hi phys po n k = po + n" if "Suc k = ?x div 8"
  proof -
    have "?x < 8 + 8 * (?x div 8)" by (rule dividend_less_times_div) simp
    then have "po + n \<le> l + 8" using that l by linarith
    then show ?thesis unfolding chunk_hi_def l by simp
  qed
qed

lemma read_chunks_safe:
  assumes "po + n \<le> 4096" "0 < n"
  defines "J phys \<equiv> (phys * 4096 + po + n + 7) div 8"
  shows "ctrl_safe intact c \<Longrightarrow> phys < page_count (meta c) \<Longrightarrow> (phys * 4096 + po) div 8 \<le> i \<Longrightarrow> i < J phys \<Longrightarrow>
    \<exists>ok out c'. read_chunks phys po n (map (\<lambda>k. 8 * k) [i..<J phys]) c = Some (ok, out, c') \<and>
      only_counters c c' \<and> length out = po + n - chunk_lo phys po i"
proof (induction "J phys - i" arbitrary: i c)
  case (Suc m)
  have "8 * i \<in> set (chunk_offsets phys po n)"
    using Suc.prems(3,4) by (simp add: chunk_offsets_def geom J_def)
  then obtain ok out c' where r: "read_chunk phys po n (8 * i) c = Some (ok, out, c')" "only_counters c c'"
    "length out = chunk_hi phys po n i - chunk_lo phys po i"
    using read_chunk_safe [OF Suc.prems(1,2) assms(1)] by blast
  note meet = chunks_meet [of phys po i n, folded J_def, OF Suc.prems(3,4) assms(2)]
  have list: "[i..<J phys] = i # [Suc i..<J phys]" using Suc.prems(4) by (rule upt_conv_Cons)
  show ?case
  proof (cases "Suc i < J phys")
    case False
    then have last: "Suc i = J phys" using Suc.prems(4) by simp
    then have "read_chunks phys po n (map (\<lambda>k. 8 * k) [i..<J phys]) c = Some (ok, out, c')"
      using r(1) list by simp
    then show ?thesis using r meet(3) [OF last] by auto
  next
    case True
    have pc: "page_count (meta c') = page_count (meta c)" using r(2) by (simp add: only_counters_def)
    have m: "m = J phys - Suc i" using Suc.hyps(2) by simp
    obtain ok2 out2 c2 where r2: "read_chunks phys po n (map (\<lambda>k. 8 * k) [Suc i..<J phys]) c' = Some (ok2, out2, c2)"
      "only_counters c' c2" "length out2 = po + n - chunk_lo phys po (Suc i)"
      using Suc.hyps(1) [of "Suc i" c', OF m only_counters_safe [OF r(2) Suc.prems(1)]] Suc.prems(2,3) True pc
      by auto
    have "read_chunks phys po n (map (\<lambda>k. 8 * k) [i..<J phys]) c = Some (ok \<and> ok2, out @ out2, c2)"
      using r(1) r2(1) list by simp
    moreover have "chunk_hi phys po n (Suc i) \<le> po + n" by (simp add: chunk_hi_def)
    moreover have "chunk_lo phys po (Suc i) \<le> chunk_hi phys po n (Suc i)"
      using chunks_meet(1) [of phys po "Suc i" n, folded J_def] Suc.prems(3) True assms(2) by simp
    ultimately show ?thesis
      using r(3) r2(3) meet(1,2) True only_counters_trans [OF r(2) r2(2)] by auto
  qed
qed simp

lemma read_page_safe:
  assumes "ctrl_safe intact c" "po + n \<le> 4096" "0 < n"
  shows "\<exists>ok out c'. read_page lp po n c = Some (ok, out, c') \<and> only_counters c c' \<and> length out = n"
proof (cases "if lp < length (l2p_map (meta c)) then l2p_map (meta c) ! lp else None")
  case None
  then have "read_page lp po n c = Some (True, replicate n 0, c)" by (simp add: read_page_def)
  then show ?thesis by auto
next
  case (Some phys)
  then have "Some phys \<in> set (l2p_map (meta c))" by (auto split: if_splits dest: nth_mem)
  then have p: "phys < page_count (meta c)" using assms(1) by (simp add: ctrl_safe_def shape_def)
  then have v: "rd (phys_valid (meta c)) phys = Some (phys_valid (meta c) ! phys)"
    using assms(1) by (simp add: ctrl_safe_def shape_def access)
  let ?i = "(phys * 4096 + po) div 8" and ?J = "(phys * 4096 + po + n + 7) div 8"
  have "(phys * 4096 + po + 8) div 8 \<le> ?J" using assms(3) by (intro div_le_mono) simp
  then have ij: "?i < ?J" by simp
  have "chunk_lo phys po k = po" if "8 * k \<le> phys * 4096 + po" for k
    using that unfolding chunk_lo_def by (simp, linarith)
  then have lo: "chunk_lo phys po ?i = po" using times_div_less_eq_dividend by blast
  obtain ok out c' where r: "read_chunks phys po n (map (\<lambda>k. 8 * k) [?i..<?J]) c = Some (ok, out, c')"
    "only_counters c c'" "length out = po + n - chunk_lo phys po ?i"
    using read_chunks_safe [OF assms(2,3,1) p order_refl ij] by blast
  have "read_page lp po n c = (if \<not> phys_valid (meta c) ! phys then Some (True, replicate n 0, c)
      else Some (ok, out, c'))"
    unfolding read_page_def Some using r(1) v by (simp add: chunk_offsets_def geom)
  then show ?thesis using r lo by (cases "phys_valid (meta c) ! phys") auto
qed

lemma read_loop_safe:
  "ctrl_safe intact c \<Longrightarrow>
   \<exists>ok out c'. read_loop s e c = Some (ok, out, c') \<and> only_counters c c' \<and> length out = e - s"
proof (induction "e - s" arbitrary: s c rule: less_induct)
  case less
  show ?case
  proof (cases "s < e")
    case False
    then have "read_loop s e c = Some (True, [], c)" by (simp add: read_loop.simps)
    then show ?thesis using False by auto
  next
    case True
    define piece where "piece = min (e - s) (4096 - s mod 4096)"
    have m: "s mod 4096 < 4096" by simp
    have piece: "0 < piece" "s mod 4096 + piece \<le> 4096" "piece \<le> e - s"
      using True m by (simp_all add: piece_def)
    obtain ok1 out1 c1 where r1: "read_page (s div 4096) (s mod 4096) piece c = Some (ok1, out1, c1)"
      "only_counters c c1" "length out1 = piece"
      using read_page_safe [OF less.prems piece(2,1)] by blast
    have shorter: "e - (s + piece) < e - s" using piece(1) True by linarith
    obtain ok2 out2 c2 where r2: "read_loop (s + piece) e c1 = Some (ok2, out2, c2)"
      "only_counters c1 c2" "length out2 = e - (s + piece)"
      using less.hyps [OF shorter only_counters_safe [OF r1(2) less.prems]] by blast
    have "read_loop s e c = Some (ok1 \<and> ok2, out1 @ out2, c2)"
      using True r1(1) r2(1) by (simp add: read_loop.simps [of s e c] geom piece_def [symmetric] Let_def)
    moreover have "length (out1 @ out2) = e - s" using r1(3) r2(3) piece(3) by simp
    ultimately show ?thesis using only_counters_trans [OF r1(2) r2(2)] by blast
  qed
qed

lemma Read_safe_lemma:
  assumes "ctrl_safe intact c" "\<And>buf. dest = Some buf \<Longrightarrow> n \<le> length buf"
  shows "\<exists>ok dest' c'. Read c offset dest n = Some (ok, dest', c') \<and> only_counters c c' \<and>
    map_option length dest' = map_option length dest"
proof (cases "dest = None \<or> n > capacity c \<or> offset > capacity c - n")
  case True
  then have "Read c offset dest n = Some (False, dest, c)" by (auto simp: Read_def split: option.splits)
  then show ?thesis by auto
next
  case False
  then obtain buf where buf: "dest = Some buf" by auto
  let ?c1 = "snd (access_start c offset False)"
  have oc: "only_counters c ?c1" by (subst access_start_frame) (simp add: only_counters_def)
  obtain ok out c2 where r: "read_loop offset (offset + n) ?c1 = Some (ok, out, c2)" "only_counters ?c1 c2"
    "length out = offset + n - offset"
    using read_loop_safe [OF only_counters_safe [OF oc assms(1)]] by blast
  have "length out \<le> length buf" using r(3) assms(2) [OF buf] by simp
  then obtain buf' where b: "splice buf 0 out = Some buf'" by (simp add: splice_def)
  have "only_counters c (c2\<lparr>total_reads := total_reads c2 + 1\<rparr>)"
    using only_counters_trans [OF oc r(2)] by (simp add: only_counters_def)
  moreover have "Read c offset dest n = Some (ok, Some buf', c2\<lparr>total_reads := total_reads c2 + 1\<rparr>)"
    using False buf r(1) b by (simp add: Read_def)
  ultimately show ?thesis using buf length_splice [OF b] by simp
qed

section \<open>Maintenance\<close>

lemma refresh_safe: "ctrl_safe k c \<Longrightarrow> ctrl_safe k (snd (TriggerAutonomousRefresh c))"
  by (simp add: TriggerAutonomousRefresh_def Let_def ctrl_safe_def shape_def free_pages_def)

lemma InjectHeavyWear_safe:
  "ctrl_safe k c \<Longrightarrow> \<exists>c'. InjectHeavyWear off w c = Some c' \<and> ctrl_safe k c'"
  by (auto simp: InjectHeavyWear_def Let_def ctrl_safe_def shape_def free_pages_def access)

lemma drift_page_safe:
  assumes "ctrl_safe False c" "p < page_count (meta c)"
  shows "\<exists>c'. drift_page prob p c = Some c' \<and> ctrl_safe False c' \<and> meta c' = meta c"
proof -
  let ?n = "page_count (meta c)"
  have len: "length (memory_buffer (buffers c)) = ?n * 4096" "length (ecc_buffer (buffers c)) = ?n * 512"
    using assms(1) by (simp_all add: ctrl_safe_def store_inv_def sized_def)
  have v: "rd (phys_valid (meta c)) p = Some (phys_valid (meta c) ! p)"
    using assms by (simp add: ctrl_safe_def shape_def access)
  let ?pos = "p * 4096 + unat (SimpleRand (SimpleRand (g_seed c))) mod 4096"
  have "?pos < p * 4096 + 4096" by simp
  also have "\<dots> \<le> ?n * 4096" using assms(2) by simp
  finally have pos: "?pos < length (memory_buffer (buffers c))" using len by simp
  have "ctrl_safe False (c\<lparr>buffers := (buffers c)\<lparr>memory_buffer := mem\<rparr>, g_seed := s, total_bit_flips := t\<rparr>)"
    if "length mem = ?n * 4096" for mem s t
    using assms(1) that len by (simp add: ctrl_safe_def store_inv_def sized_def)
  moreover have "ctrl_safe False (c\<lparr>g_seed := s\<rparr>)" for s using assms(1) by (simp add: ctrl_safe_def)
  ultimately show ?thesis using v pos len assms(1)
    by (cases "phys_valid (meta c) ! p"; cases "rand_unit (SimpleRand (g_seed c)) < prob")
      (simp_all add: drift_page_def geom Let_def access)
qed

lemma drift_pages_safe:
  "ctrl_safe False c \<Longrightarrow> \<forall>p \<in> set ps. p < page_count (meta c) \<Longrightarrow>
   \<exists>c'. drift_pages prob ps c = Some c' \<and> ctrl_safe False c' \<and> meta c' = meta c"
proof (induction ps arbitrary: c)
  case (Cons p ps)
  then obtain c1 where c1: "drift_page prob p c = Some c1" "ctrl_safe False c1" "meta c1 = meta c"
    using drift_page_safe [of c p prob] by auto
  then show ?case using Cons.IH [of c1] Cons.prems(2) by auto
qed simp

section \<open>The guarantees\<close>

text \<open>C12: writes have no undefined behaviour and always return, on every drive of supported size in any
  state, garbage collection and full device included, when the caller's buffer has the announced
  length; the check bytes stay consistent with the data.\<close>

theorem Write_defined:
  assumes "ctrl_safe intact c" "\<And>buf. src = Some buf \<Longrightarrow> n \<le> length buf"
  shows "\<exists>ok c'. Write c offset src n = Some (ok, c') \<and> ctrl_safe intact c' \<and> capacity c' = capacity c"
  using Write_safe [OF assms] .

lemma good_1MiB: "good_capacity 1048576"
  by (simp add: good_capacity_def geom)

theorem Write_defined_witness:
  "ctrl_safe True (FTJController 1048576 10) \<and>
   (\<exists>ok c'. Write (FTJController 1048576 10) 4090 (Some (replicate 100 7)) 100 = Some (ok, c') \<and>
      ctrl_safe True c')"
proof -
  have h: "ctrl_safe True (FTJController 1048576 10)" by (rule FTJController_safe [OF good_1MiB])
  have l: "Some (replicate 100 (7::u8)) = Some buf \<Longrightarrow> 100 \<le> length buf" for buf by auto
  show ?thesis using h Write_defined [OF h l] by blast
qed

text \<open>reads have no undefined behaviour and always return, however worn the cells and corrupted
  the data; they change neither the data nor the mapping, and fill exactly the caller's buffer.\<close>

lemma Read_defined:
  assumes "ctrl_safe intact c" "\<And>buf. dest = Some buf \<Longrightarrow> n \<le> length buf"
  shows "\<exists>ok dest' c'. Read c offset dest n = Some (ok, dest', c') \<and> meta c' = meta c \<and>
    buffers c' = buffers c \<and> map_option length dest' = map_option length dest"
  using Read_safe_lemma [OF assms, where offset = offset] unfolding only_counters_def by blast

text \<open>a request with a null pointer, or one that does not fit in the capacity, is refused without
  changing anything.\<close>

lemma out_of_range_rejected:
  assumes "ptr = None \<or> capacity c < offset + n"
  shows "Write c offset ptr n = Some (False, c) \<and> Read c offset ptr n = Some (False, ptr, c)"
  using assms by (auto simp: Write_def Read_def split: option.splits)

text \<open>simulating retention drift is always defined; it corrupts data bytes only, never the mapping.\<close>

lemma retention_drift_defined:
  assumes "ctrl_safe False c"
  shows "\<exists>c'. SimulateRetentionDrift hours temp c = Some c' \<and> ctrl_safe False c' \<and> meta c' = meta c"
  using drift_pages_safe [OF assms, of "[0..<page_count (meta c)]"] by (simp add: SimulateRetentionDrift_def)

text \<open>an autonomous refresh clears every disturb counter, reports how many were set, and a second
  refresh finds nothing to do.\<close>

lemma refresh_clears_disturbs:
  "\<exists>n c'. TriggerAutonomousRefresh c = (n, c') \<and>
     n = of_nat (length (filter (\<lambda>d. d > 0) (page_disturbs (meta c)))) \<and>
     page_disturbs (meta c') = replicate (length (page_disturbs (meta c))) 0 \<and>
     total_autonomous_refreshes c' = total_autonomous_refreshes c + n \<and>
     fst (TriggerAutonomousRefresh c') = 0"
proof -
  have "map (\<lambda>d. if d > 0 then 0 else d) ds = replicate (length ds) (0::u32)" for ds
    by (induction ds) (auto simp: word_gt_0)
  then show ?thesis by (simp add: TriggerAutonomousRefresh_def Let_def)
qed

end
