(* ===== verification/Controller_Spec.thy ===== *)
theory Controller_Spec
  imports Controller_Safety
begin

text \<open>
  The drive as its user sees it: an array of bytes. \<open>dev_byte\<close> reads the byte at a logical address
  through the mapping (unmapped pages are zero). A write that does not trigger a collection updates
  exactly the addressed bytes; a read of healthy cells returns them.
\<close>

definition dev_byte :: "ftl \<Rightarrow> store \<Rightarrow> nat \<Rightarrow> u8" where
  "dev_byte f st a = (case view page_bytes f st (a div 4096) of None \<Rightarrow> 0 | Some bytes \<Rightarrow> bytes ! (a mod 4096))"

definition byte_at :: "ctrl \<Rightarrow> nat \<Rightarrow> u8" where
  "byte_at c a = dev_byte (meta c) (buffers c) a"

definition contents :: "ctrl \<Rightarrow> nat \<Rightarrow> nat \<Rightarrow> u8 list" where
  "contents c off n = map (byte_at c) [off..<off + n]"

definition ctrl_ok :: "ctrl \<Rightarrow> bool" where
  "ctrl_ok c \<longleftrightarrow> ftl_inv (meta c) \<and> store_inv True (page_count (meta c)) (buffers c) \<and>
     capacity c = page_count (meta c) * 4096"

lemma ctrl_ok_safe: "ctrl_ok c \<Longrightarrow> ctrl_safe True c"
  by (simp add: ctrl_ok_def ctrl_safe_def ftl_inv_def)

lemma FTJController_ok: "good_capacity cap \<Longrightarrow> ctrl_ok (FTJController cap lat)"
  using FTJController_safe [of cap lat] ftl_inv_init [of cap]
  by (simp add: ctrl_ok_def ctrl_safe_def FTJController_def)

text \<open>A fresh drive is all zeros, and all its pages are free.\<close>

lemma FTJController_zeros:
  assumes "good_capacity cap" "a < cap"
  shows "byte_at (FTJController cap lat) a = 0"
proof -
  have "a div 4096 < page_count (ftl_init cap)"
    using assms(2) by (subst (asm) good_capacity_size [OF assms(1)]) (rule less_mult_imp_div_less)
  moreover have "l2p_map (ftl_init cap) = replicate (page_count (ftl_init cap)) None"
    by (simp only: ftl_init_def Let_def ftl.select_convs)
  ultimately show ?thesis by (simp add: byte_at_def dev_byte_def view_def FTJController_def)
qed

lemma free_count_init: "free_count (ftl_init cap) = page_count (ftl_init cap)"
proof -
  let ?n = "page_count (ftl_init cap)" and ?h = "max 1 (num_blocks (ftl_init cap) div 5)"
  have "free_hot (ftl_init cap) = filter (\<lambda>p. phys_block (ftl_init cap) ! p < ?h) (rev [0..<?n])"
    "free_cold (ftl_init cap) = filter (\<lambda>p. \<not> phys_block (ftl_init cap) ! p < ?h) (rev [0..<?n])"
    by (simp_all only: ftl_init_def Let_def ftl.select_convs)
  then have "free_count (ftl_init cap) = length (rev [0..<?n])"
    unfolding free_count_def by (simp only: sum_length_filter_compl)
  then show ?thesis by simp
qed

section \<open>Writes\<close>

text \<open>How many pages the bytes from \<open>start\<close> on occupy: each costs one free page.\<close>

definition pages_spanned :: "nat \<Rightarrow> nat \<Rightarrow> nat" where
  "pages_spanned start len = (if len = 0 then 0 else (start + len + 4095) div 4096 - start div 4096)"

lemma pages_spanned_piece:
  assumes "0 < len" and piece_def: "piece = min len (4096 - start mod 4096)"
  shows "pages_spanned start len = Suc (pages_spanned (start + piece) (len - piece))"
proof -
  define q r where "q = start div 4096" and "r = start mod 4096"
  have s: "start = q * 4096 + r" and r: "r < 4096" by (simp_all add: q_def r_def)
  have div_in: "(q * 4096 + x) div 4096 = q + x div 4096" for x by simp
  show ?thesis
  proof (cases "r + len \<le> 4096")
    case True
    then have p: "piece = len" by (simp add: piece_def r_def [symmetric])
    have "start + len + 4095 = q * 4096 + (r + len + 4095)" using s by simp
    then have "(start + len + 4095) div 4096 = q + (r + len + 4095) div 4096" by (simp only: div_in)
    moreover have "(r + len + 4095) div 4096 = 1" using True assms(1) by (intro div_nat_eqI) simp_all
    ultimately show ?thesis using assms(1) p by (simp add: pages_spanned_def q_def)
  next
    case False
    then have p: "piece = 4096 - r" by (simp add: piece_def r_def [symmetric])
    have sp: "start + piece = (q + 1) * 4096" using s r p by simp
    have "start + piece + (len - piece) = start + len" using False r p by simp
    moreover have "(start + piece) div 4096 = q + 1" using sp by simp
    moreover have "len - piece \<noteq> 0" using False r p by simp
    moreover have "q + 2 \<le> (start + len + 4095) div 4096"
    proof -
      have "(q + 2) * 4096 \<le> start + len + 4095" using False s by simp
      then have "(q + 2) * 4096 div 4096 \<le> (start + len + 4095) div 4096" by (rule div_le_mono)
      then show ?thesis by simp
    qed
    ultimately show ?thesis using assms(1) by (simp add: pages_spanned_def q_def [symmetric])
  qed
qed

lemma view_page_length:
  "ftl_inv f \<Longrightarrow> store_inv k (page_count f) st \<Longrightarrow> lp < page_count f \<Longrightarrow>
   view page_bytes f st lp = Some bytes \<Longrightarrow> length bytes = 4096"
  using ftl_inv_l2p [of f lp] length_page_bytes [of "page_count f" st]
  by (auto simp: view_def store_inv_def)

text \<open>One updated page, byte by byte.\<close>

lemma upd_page_byte:
  assumes "fits_page (off, src)" "i < 4096" "\<And>bytes. old = Some bytes \<Longrightarrow> length bytes = 4096"
  shows "upd_page off src old ! i = (if off \<le> i \<and> i < off + length src then src ! (i - off)
     else (case old of None \<Rightarrow> 0 | Some bytes \<Rightarrow> bytes ! i))"
proof -
  define base where "base = (case old of Some bytes \<Rightarrow> bytes | None \<Rightarrow> replicate 4096 (0::u8))"
  have len: "length base = 4096" using assms(3) by (simp add: base_def split: option.split)
  have "upd_page off src old ! i = (take off base @ src @ drop (off + length src) base) ! i"
    by (simp add: upd_page_def base_def Let_def)
  also have "\<dots> = (if off \<le> i \<and> i < off + length src then src ! (i - off) else base ! i)"
    using assms(1,2) len by (auto simp: nth_append min_def fits_page_def)
  also have "base ! i = (case old of None \<Rightarrow> 0 | Some bytes \<Rightarrow> bytes ! i)"
    using assms(2) by (simp add: base_def split: option.split)
  finally show ?thesis .
qed

lemma write_step_bytes:
  assumes "fits_page (start mod 4096, src)" "ftl_inv f" "store_inv k (page_count f) st"
    and "start div 4096 < page_count f" "free_pages f \<noteq> []"
  shows "\<exists>f' st'. write_step copy_page (put_page (start mod 4096) src) tracking (start div 4096) (f, st) =
      Some (True, f', st') \<and> ftl_inv f' \<and> store_inv k (page_count f) st' \<and> same_geom f f' \<and>
    free_count f = free_count f' + 1 \<and>
    (\<forall>a < page_count f * 4096. dev_byte f' st' a =
       (if start \<le> a \<and> a < start + length src then src ! (a - start) else dev_byte f st a))"
proof -
  let ?lp = "start div 4096" and ?off = "start mod 4096"
  obtain f' st' where w: "write_step copy_page (put_page ?off src) tracking ?lp (f, st) = Some (True, f', st')"
    "ftl_inv f'" "store_inv k (page_count f) st'" "same_geom f f'" "free_count f = free_count f' + 1"
    "\<forall>lq < page_count f. view page_bytes f' st' lq =
       (if lq = ?lp then Some (upd_page ?off src (view page_bytes f st ?lp)) else view page_bytes f st lq)"
    using buf.write_step_refines [OF assms(1-5), of tracking] by auto
  have start: "start = ?lp * 4096 + ?off" by simp
  have off: "?off + length src \<le> 4096" using assms(1) by (simp add: fits_page_def)
  have "dev_byte f' st' a = (if start \<le> a \<and> a < start + length src then src ! (a - start) else dev_byte f st a)"
    if a: "a < page_count f * 4096" for a
  proof -
    define q i where "q = a div 4096" and "i = a mod 4096"
    have ai: "a = q * 4096 + i" "i < 4096" by (simp_all add: q_def i_def)
    have q: "q < page_count f" using a unfolding q_def by (rule less_mult_imp_div_less)
    show ?thesis
    proof (cases "q = ?lp")
      case True
      have "dev_byte f' st' a = upd_page ?off src (view page_bytes f st ?lp) ! i"
        using w(6) q True by (simp add: dev_byte_def q_def i_def)
      also have "\<dots> = (if ?off \<le> i \<and> i < ?off + length src then src ! (i - ?off)
          else (case view page_bytes f st ?lp of None \<Rightarrow> 0 | Some bytes \<Rightarrow> bytes ! i))"
        using view_page_length [OF assms(2,3,4)] by (intro upd_page_byte assms(1) ai(2))
      also have "(?off \<le> i \<and> i < ?off + length src) = (start \<le> a \<and> a < start + length src)"
        using ai(1) start True by linarith
      also have "i - ?off = a - start" using ai(1) start True by linarith
      also have "(case view page_bytes f st ?lp of None \<Rightarrow> 0 | Some bytes \<Rightarrow> bytes ! i) = dev_byte f st a"
        using True unfolding dev_byte_def i_def q_def by (simp only:)
      finally show ?thesis .
    next
      case False
      have "\<not> (start \<le> a \<and> a < start + length src)"
      proof
        assume "start \<le> a \<and> a < start + length src"
        then have "?lp * 4096 \<le> q * 4096 + i \<and> q * 4096 + i < ?lp * 4096 + 4096"
          using ai(1) start off by linarith
        then show False using in_page_iff [OF ai(2), of ?lp q] False by simp
      qed
      moreover have "dev_byte f' st' a = dev_byte f st a"
        using w(6) q False by (simp add: dev_byte_def q_def)
      ultimately show ?thesis by (simp only: if_False)
    qed
  qed
  then show ?thesis using w(1-5) by blast
qed

lemma write_loop_bytes:
  "ftl_inv f \<Longrightarrow> store_inv k (page_count f) st \<Longrightarrow> start + length src \<le> page_count f * 4096 \<Longrightarrow>
   pages_spanned start (length src) \<le> free_count f \<Longrightarrow>
   \<exists>f' st'. write_loop tracking start src (f, st) = Some (True, f', st') \<and> ftl_inv f' \<and> same_geom f f' \<and>
     store_inv k (page_count f) st' \<and> free_count f = free_count f' + pages_spanned start (length src) \<and>
     (\<forall>a < page_count f * 4096. dev_byte f' st' a =
        (if start \<le> a \<and> a < start + length src then src ! (a - start) else dev_byte f st a))"
proof (induction "length src" arbitrary: start src f st rule: less_induct)
  case less
  show ?case
  proof (cases "src = []")
    case True
    then show ?thesis using less.prems by (auto simp: write_loop.simps pages_spanned_def)
  next
    case False
    define piece where "piece = min (length src) (4096 - start mod 4096)"
    note fp = first_piece [OF False less.prems(3), folded piece_def]
    have span: "pages_spanned start (length src) = Suc (pages_spanned (start + piece) (length (drop piece src)))"
      using pages_spanned_piece [OF _ piece_def] False by simp
    then have "free_count f \<noteq> 0" using less.prems(4) by simp
    then have fr: "free_pages f \<noteq> []" by (auto simp: free_count_def free_pages_def)
    have lt: "length (take piece src) = piece" by (simp add: piece_def)
    obtain f1 st1 where w:
      "write_step copy_page (put_page (start mod 4096) (take piece src)) tracking (start div 4096) (f, st) = Some (True, f1, st1)"
      "ftl_inv f1" "store_inv k (page_count f) st1" "same_geom f f1" "free_count f = free_count f1 + 1"
      "\<forall>a < page_count f * 4096. dev_byte f1 st1 a =
        (if start \<le> a \<and> a < start + piece then take piece src ! (a - start) else dev_byte f st a)"
      using write_step_bytes [OF fp(1) less.prems(1,2) fp(2) fr, of tracking] unfolding lt by blast
    have pc: "page_count f1 = page_count f" using w(4) by (simp add: same_geom_def)
    have "length (drop piece src) < length src" using False fp(3) by simp
    from less.hyps [OF this w(2), of st1 "start + piece"]
    obtain f2 st2 where r: "write_loop tracking (start + piece) (drop piece src) (f1, st1) = Some (True, f2, st2)"
      "ftl_inv f2" "same_geom f1 f2" "store_inv k (page_count f) st2"
      "free_count f1 = free_count f2 + pages_spanned (start + piece) (length (drop piece src))"
      "\<forall>a < page_count f * 4096. dev_byte f2 st2 a =
        (if start + piece \<le> a \<and> a < start + piece + length (drop piece src) then drop piece src ! (a - (start + piece))
         else dev_byte f1 st1 a)"
      using w(3,5) pc fp(4) less.prems(3,4) span by auto
    have step: "write_loop tracking start src (f, st) = Some (True, f2, st2)"
      using False w(1) r(1) by (simp add: write_loop.simps [of tracking start src] geom piece_def [symmetric] Let_def)
    have pl: "piece \<le> length src" by (simp add: piece_def)
    have "dev_byte f2 st2 a = (if start \<le> a \<and> a < start + length src then src ! (a - start) else dev_byte f st a)"
      if a: "a < page_count f * 4096" for a
    proof -
      consider "a < start" | "start \<le> a" "a < start + piece" | "start + piece \<le> a" "a < start + length src"
        | "start + length src \<le> a" by linarith
      then show ?thesis
      proof cases
        case 3
        then have "drop piece src ! (a - (start + piece)) = src ! (a - start)" using pl by simp
        then show ?thesis using 3 r(6) a pl by simp
      qed (use r(6) w(6) a pl in simp_all)
    qed
    moreover have "free_count f = free_count f2 + pages_spanned start (length src)"
      using w(5) r(5) span by simp
    ultimately show ?thesis using step r(2,4) same_geom_trans [OF w(4) r(3)] by blast
  qed
qed

lemma Write_bytes:
  assumes "ctrl_ok c" "n \<le> length buf" "offset + n \<le> capacity c"
    and "pages_spanned offset n + gc_low_watermark (meta c) \<le> free_count (meta c)"
  shows "\<exists>c'. Write c offset (Some buf) n = Some (True, c') \<and> ctrl_ok c' \<and> capacity c' = capacity c \<and>
    physics_cfg c' = physics_cfg c \<and> total_writes c' = total_writes c + 1 \<and>
    free_count (meta c) = free_count (meta c') + pages_spanned offset n \<and>
    (\<forall>a < capacity c. byte_at c' a = (if offset \<le> a \<and> a < offset + n then buf ! (a - offset) else byte_at c a))"
proof -
  let ?f = "meta c" and ?c1 = "snd (access_start c offset True)"
  have ok: "ftl_inv ?f" "store_inv True (page_count ?f) (buffers c)" "capacity c = page_count ?f * 4096"
    using assms(1) by (simp_all add: ctrl_ok_def)
  have sl: "slice buf 0 n = Some (take n buf)" using assms(2) by (simp add: slice_def)
  have len: "length (take n buf) = n" using assms(2) by simp
  have fit: "offset + length (take n buf) \<le> page_count ?f * 4096" using assms(3) ok(3) len by simp
  have enough: "pages_spanned offset (length (take n buf)) \<le> free_count ?f" using assms(4) len by simp
  obtain f1 st1 where w: "write_loop (enable_disturb_tracking (physics_cfg c)) offset (take n buf) (?f, buffers c) = Some (True, f1, st1)"
    "ftl_inv f1" "same_geom ?f f1" "store_inv True (page_count ?f) st1"
    "free_count ?f = free_count f1 + pages_spanned offset n"
    "\<forall>a < page_count ?f * 4096. dev_byte f1 st1 a =
       (if offset \<le> a \<and> a < offset + n then take n buf ! (a - offset) else dev_byte ?f (buffers c) a)"
    using write_loop_bytes [OF ok(1,2) fit enough, of "enable_disturb_tracking (physics_cfg c)"]
    unfolding len by blast
  have "gc_low_watermark f1 = gc_low_watermark ?f" "page_count f1 = page_count ?f"
    using w(3) by (simp_all add: same_geom_def)
  moreover from this have "gc_if_low copy_page (f1, st1) = Some (f1, st1)"
    using w(5) assms(4) by (simp add: gc_if_low_def)
  moreover have "\<not> (n > capacity c \<or> offset > capacity c - n)" using assms(3) by auto
  moreover have "total_writes ?c1 = total_writes c" by (subst access_start_frame) simp
  moreover have "(if offset \<le> a \<and> a < offset + n then take n buf ! (a - offset) else x) =
      (if offset \<le> a \<and> a < offset + n then buf ! (a - offset) else x)" for a x by auto
  ultimately show ?thesis using sl w ok
    by (simp add: Write_def Let_def ctrl_ok_def byte_at_def)
qed

section \<open>Reads\<close>

text \<open>No page is worn beyond the threshold or disturbed beyond its limit: reads inject no errors.\<close>

definition healthy :: "ctrl \<Rightarrow> bool" where
  "healthy c \<longleftrightarrow> (\<forall>w \<in> set (page_writes (meta c)). w \<le> WEAR_THRESHOLD) \<and>
     (\<forall>d \<in> set (page_disturbs (meta c)). d \<le> half_select_disturb_threshold (physics_cfg c))"

lemma slice_map_nth:
  "slice xs off n = Some ys \<Longrightarrow> ys = map (\<lambda>i. xs ! (off + i)) [0..<n]"
  by (rule nth_equalityI) (simp_all add: length_slice nth_slice)

lemma map_nth_shift: "map (\<lambda>i. f (a + i)) [0..<b - a] = map f [a..<b]"
  by (rule nth_equalityI) simp_all

lemma read_chunk_healthy:
  assumes "ctrl_ok c" "healthy c" "phys < page_count (meta c)" "po + n \<le> 4096"
    and "8 * k \<in> set (chunk_offsets phys po n)"
  shows "read_chunk phys po n (8 * k) c =
    Some (True, map (\<lambda>x. memory_buffer (buffers c) ! (phys * 4096 + x)) [chunk_lo phys po k..<chunk_hi phys po n k], c)"
proof -
  let ?mem = "memory_buffer (buffers c)" and ?N = "page_count (meta c)"
  have k: "(phys * 4096 + po) div 8 \<le> k" "k < (phys * 4096 + po + n + 7) div 8"
    using assms(5) by (auto simp: chunk_offsets_def geom)
  note b = chunk_bounds [OF k assms(4,3)]
  let ?local = "8 * k - phys * 4096"
  have len: "length ?mem = ?N * 4096" "length (ecc_buffer (buffers c)) = ?N * 512"
    "length (page_writes (meta c)) = ?N" "length (page_disturbs (meta c)) = ?N"
    and ck: "checked ?N (buffers c)"
    using assms(1) by (simp_all add: ctrl_ok_def ftl_inv_def store_inv_def sized_def shape_def)
  have at: "phys * 4096 + ?local = 8 * k" using b(1) by simp
  have bytes: "slice ?mem (8 * k) 8 = Some (chunk ?mem k)"
    using b(3) len by (simp add: slice_def chunk_def mult.commute)
  have kn: "k < ?N * 512" using b(3) by simp
  have e: "rd (ecc_buffer (buffers c)) k = Some (CalculateECC (le_word (chunk ?mem k)))"
    using kn len ck by (simp add: rd_def checked_def)
  have w: "rd (page_writes (meta c)) phys = Some (page_writes (meta c) ! phys)"
    and d: "rd (page_disturbs (meta c)) phys = Some (page_disturbs (meta c) ! phys)"
    using assms(3) len by (simp_all add: rd_def)
  have "page_writes (meta c) ! phys \<le> WEAR_THRESHOLD"
    "page_disturbs (meta c) ! phys \<le> half_select_disturb_threshold (physics_cfg c)"
    using assms(2,3) len by (simp_all add: healthy_def)
  note f = FlipBits_healthy [OF this]
  have cl: "length (chunk ?mem k) = 8" using b(3) len by (simp add: length_chunk mult.commute)
  have lb: "le_bytes (le_word (chunk ?mem k)) = chunk ?mem k" using le_bytes_word [OF cl] .
  obtain out where out: "slice (chunk ?mem k) (chunk_lo phys po k - ?local) (chunk_hi phys po n k - chunk_lo phys po k) = Some out"
    using b(4) cl by (simp add: slice_def)
  have lo: "?local \<le> chunk_lo phys po k" by (simp add: chunk_lo_def)
  have "out = map (\<lambda>x. ?mem ! (phys * 4096 + x)) [chunk_lo phys po k..<chunk_hi phys po n k]"
  proof (rule nth_equalityI)
    show "length out = length (map (\<lambda>x. ?mem ! (phys * 4096 + x)) [chunk_lo phys po k..<chunk_hi phys po n k])"
      using length_slice [OF out] by simp
    fix i assume "i < length out"
    then have i: "i < chunk_hi phys po n k - chunk_lo phys po k" using length_slice [OF out] by simp
    have j: "chunk_lo phys po k - ?local + i < 8" using b(4) i by linarith
    have "out ! i = chunk ?mem k ! (chunk_lo phys po k - ?local + i)" using nth_slice [OF out i] .
    also have "\<dots> = ?mem ! (k * 8 + (chunk_lo phys po k - ?local + i))"
      using j b(3) len by (intro chunk_nth) simp_all
    also have "k * 8 + (chunk_lo phys po k - ?local + i) = phys * 4096 + (chunk_lo phys po k + i)"
      using lo b(1) by linarith
    finally show "out ! i = map (\<lambda>x. ?mem ! (phys * 4096 + x)) [chunk_lo phys po k..<chunk_hi phys po n k] ! i"
      using i by simp
  qed
  then show ?thesis using bytes e w d f out
    by (simp add: read_chunk_def at geom Let_def chunk_lo_def [symmetric] chunk_hi_def [symmetric] decode_clean lb)
qed

lemma read_chunks_healthy:
  assumes "ctrl_ok c" "healthy c" "phys < page_count (meta c)" "po + n \<le> 4096" "0 < n"
  defines "J \<equiv> (phys * 4096 + po + n + 7) div 8"
  shows "(phys * 4096 + po) div 8 \<le> i \<Longrightarrow> i < J \<Longrightarrow>
    read_chunks phys po n (map (\<lambda>k. 8 * k) [i..<J]) c =
      Some (True, map (\<lambda>x. memory_buffer (buffers c) ! (phys * 4096 + x)) [chunk_lo phys po i..<po + n], c)"
proof (induction "J - i" arbitrary: i)
  case (Suc m)
  let ?g = "\<lambda>x. memory_buffer (buffers c) ! (phys * 4096 + x)"
  have "8 * i \<in> set (chunk_offsets phys po n)"
    using Suc.prems by (simp add: chunk_offsets_def geom J_def)
  then have r: "read_chunk phys po n (8 * i) c = Some (True, map ?g [chunk_lo phys po i..<chunk_hi phys po n i], c)"
    using read_chunk_healthy [OF assms(1-4)] by blast
  note meet = chunks_meet [of phys po i n, folded J_def, OF Suc.prems assms(5)]
  have list: "[i..<J] = i # [Suc i..<J]" using Suc.prems(2) by (rule upt_conv_Cons)
  show ?case
  proof (cases "Suc i < J")
    case False
    then have last: "Suc i = J" using Suc.prems by simp
    then show ?thesis using r list meet(3) [OF last] by simp
  next
    case True
    have m: "m = J - Suc i" using Suc.hyps(2) by simp
    have "read_chunks phys po n (map (\<lambda>k. 8 * k) [Suc i..<J]) c =
        Some (True, map ?g [chunk_lo phys po (Suc i)..<po + n], c)"
      using Suc.hyps(1) [OF m _ True] Suc.prems(1) by simp
    moreover have "chunk_lo phys po (Suc i) \<le> po + n"
      using chunks_meet(1) [of phys po "Suc i" n, folded J_def] Suc.prems(1) True assms(5)
      by (simp add: chunk_hi_def)
    moreover have "[a..<b] @ [b..<e] = [a..<e]" if "a \<le> b" "b \<le> e" for a b e :: nat
      using that by (metis le_Suc_ex upt_add_eq_append)
    ultimately show ?thesis
      using r list meet(1,2) True by (simp add: map_append [symmetric] del: map_append)
  qed
qed simp

lemma read_page_healthy:
  assumes "ctrl_ok c" "healthy c" "lp < page_count (meta c)" "po + n \<le> 4096" "0 < n"
  shows "read_page lp po n c = Some (True, map (byte_at c) [lp * 4096 + po..<lp * 4096 + po + n], c)"
proof -
  let ?f = "meta c" and ?N = "page_count (meta c)"
  have inv: "ftl_inv ?f" and sz: "sized ?N (buffers c)"
    using assms(1) by (simp_all add: ctrl_ok_def store_inv_def)
  have lp: "lp < length (l2p_map ?f)" using inv assms(3) by (simp add: ftl_inv_def shape_def)
  have split: "(lp * 4096 + x) div 4096 = lp \<and> (lp * 4096 + x) mod 4096 = x" if "x < 4096" for x
    using that by simp
  have shift: "map (byte_at c) [lp * 4096 + po..<lp * 4096 + po + n] = map (\<lambda>x. byte_at c (lp * 4096 + x)) [po..<po + n]"
    by (rule nth_equalityI) (simp_all add: add.assoc)
  show ?thesis
  proof (cases "l2p_map ?f ! lp")
    case None
    have "byte_at c (lp * 4096 + x) = 0" if "x < 4096" for x
      using split [OF that] None by (simp add: byte_at_def dev_byte_def view_def)
    then have "map (\<lambda>x. byte_at c (lp * 4096 + x)) [po..<po + n] = replicate n 0"
      using assms(4) by (intro nth_equalityI) simp_all
    then show ?thesis using None lp shift by (simp add: read_page_def)
  next
    case (Some phys)
    then have p: "phys < ?N" "phys_valid ?f ! phys" using ftl_inv_l2p [OF inv assms(3)] by simp_all
    have v: "rd (phys_valid ?f) phys = Some True"
      using p inv by (simp add: ftl_inv_def shape_def access)
    let ?i = "(phys * 4096 + po) div 8" and ?J = "(phys * 4096 + po + n + 7) div 8"
    have "(phys * 4096 + po + 8) div 8 \<le> ?J" using assms(5) by (intro div_le_mono) simp
    then have ij: "?i < ?J" by simp
    have "chunk_lo phys po k = po" if "8 * k \<le> phys * 4096 + po" for k
      using that unfolding chunk_lo_def by (simp, linarith)
    then have lo: "chunk_lo phys po ?i = po" using times_div_less_eq_dividend by blast
    have r: "read_chunks phys po n (map (\<lambda>k. 8 * k) [?i..<?J]) c =
        Some (True, map (\<lambda>x. memory_buffer (buffers c) ! (phys * 4096 + x)) [po..<po + n], c)"
      using read_chunks_healthy [OF assms(1,2) p(1) assms(4,5) order_refl ij] unfolding lo .
    have "memory_buffer (buffers c) ! (phys * 4096 + x) = byte_at c (lp * 4096 + x)" if "x < 4096" for x
      using split [OF that] Some page_bytes_nth [OF sz p(1) that]
      by (simp add: byte_at_def dev_byte_def view_def)
    then have "map (\<lambda>x. memory_buffer (buffers c) ! (phys * 4096 + x)) [po..<po + n] =
        map (\<lambda>x. byte_at c (lp * 4096 + x)) [po..<po + n]"
      using assms(4) by (intro map_cong) simp_all
    then show ?thesis using Some lp v r shift by (simp add: read_page_def chunk_offsets_def geom)
  qed
qed

lemma read_loop_healthy:
  "ctrl_ok c \<Longrightarrow> healthy c \<Longrightarrow> e \<le> capacity c \<Longrightarrow> read_loop s e c = Some (True, map (byte_at c) [s..<e], c)"
proof (induction "e - s" arbitrary: s rule: less_induct)
  case less
  show ?case
  proof (cases "s < e")
    case False
    then show ?thesis by (simp add: read_loop.simps)
  next
    case True
    define piece where "piece = min (e - s) (4096 - s mod 4096)"
    have m: "s mod 4096 < 4096" by simp
    have piece: "0 < piece" "s mod 4096 + piece \<le> 4096" "s + piece \<le> e"
      using True m by (simp_all add: piece_def)
    have "s < page_count (meta c) * 4096" using True less.prems(1,3) by (simp add: ctrl_ok_def)
    then have lp: "s div 4096 < page_count (meta c)" by (rule less_mult_imp_div_less)
    have sd: "s div 4096 * 4096 + s mod 4096 = s" by simp
    have r1: "read_page (s div 4096) (s mod 4096) piece c = Some (True, map (byte_at c) [s..<s + piece], c)"
      using read_page_healthy [OF less.prems(1,2) lp piece(2,1)] unfolding sd .
    have shorter: "e - (s + piece) < e - s" using piece(1) True by linarith
    have r2: "read_loop (s + piece) e c = Some (True, map (byte_at c) [s + piece..<e], c)"
      using less.hyps [OF shorter less.prems] .
    have "[s..<e] = [s..<s + piece] @ [s + piece..<e]"
      using piece(3) by (metis le_Suc_ex upt_add_eq_append le_add1)
    then show ?thesis
      using True r1 r2 by (simp add: read_loop.simps [of s e c] geom piece_def [symmetric] Let_def)
  qed
qed

lemma contents_access_start: "contents (snd (access_start c o' w)) off n = contents c off n"
  by (simp add: contents_def byte_at_def)

lemma Read_contents:
  assumes "ctrl_ok c" "healthy c" "n \<le> length buf" "offset + n \<le> capacity c"
  shows "\<exists>c'. Read c offset (Some buf) n = Some (True, Some (contents c offset n @ drop n buf), c') \<and>
    ctrl_ok c' \<and> total_reads c' = total_reads c + 1"
proof -
  let ?c1 = "snd (access_start c offset False)"
  have ok1: "ctrl_ok ?c1" "healthy ?c1" using assms(1,2) by (simp_all add: ctrl_ok_def healthy_def)
  have "\<not> (n > capacity c \<or> offset > capacity c - n)" using assms(4) by auto
  moreover have "read_loop offset (offset + n) ?c1 = Some (True, contents c offset n, ?c1)"
    using read_loop_healthy [OF ok1, of "offset + n" offset] assms(4) contents_access_start [of c offset False]
    by (simp add: contents_def)
  moreover have "splice buf 0 (contents c offset n) = Some (contents c offset n @ drop n buf)"
    using assms(3) by (simp add: splice_def contents_def)
  moreover have "total_reads ?c1 = total_reads c" by (subst access_start_frame) simp
  ultimately show ?thesis using assms(1) by (simp add: Read_def ctrl_ok_def)
qed

end
