(* ===== verification/Drive.thy ===== *)
theory Drive
  imports Controller_Spec
begin

text \<open>
  The guarantees of the drive for its users: what writes do to the bytes of the device, what reads
  return, read after write. They hold while the write does not exhaust the reserve of free pages (no
  garbage collection) and the cells are healthy; \<open>wear_slack k\<close> says that \<open>k\<close> more page writes leave
  them healthy.
\<close>

section \<open>Wear\<close>

definition wear_slack :: "nat \<Rightarrow> u32 \<Rightarrow> ftl \<Rightarrow> bool" where
  "wear_slack k limit f \<longleftrightarrow> (\<forall>w \<in> set (page_writes f). unat w + k \<le> unat WEAR_THRESHOLD) \<and>
     (\<forall>d \<in> set (page_disturbs f). unat d + k \<le> unat limit)"

lemma unat_suc_slack:
  fixes w :: u32
  assumes "unat w + Suc k \<le> unat (limit :: u32)"
  shows "unat (w + 1) + k \<le> unat limit"
proof -
  have "unat limit < 2 ^ 32" using unsigned_less [of limit] by simp
  then have "unat w + 1 < 2 ^ 32" using assms by linarith
  then have "unat (w + 1) = unat w + 1" by (simp add: unat_word_ariths)
  then show ?thesis using assms by simp
qed

lemma slack_bump:
  fixes ws :: "u32 list"
  assumes "\<forall>w \<in> set ws. unat w + Suc k \<le> unat (limit :: u32)"
  shows "\<forall>w \<in> set (ws[i := ws ! i + 1]). unat w + k \<le> unat limit"
proof (cases "i < length ws")
  case True
  show ?thesis
  proof
    fix w assume "w \<in> set (ws[i := ws ! i + 1])"
    then have "w = ws ! i + 1 \<or> w \<in> set ws" using set_update_subset_insert by fast
    then show "unat w + k \<le> unat limit"
      using assms unat_suc_slack [of "ws ! i" k limit] True by fastforce
  qed
next
  case False
  then have "length ws \<le> i" by simp
  then have "ws[i := ws ! i + 1] = ws" by (rule list_update_beyond)
  then show ?thesis using assms by auto
qed

lemma slack_weaken: "\<forall>w \<in> set ws. unat w + Suc k \<le> b \<Longrightarrow> \<forall>w \<in> set ws. unat w + k \<le> b"
  by fastforce

lemma map_page_wear:
  assumes "map_page f lp q = Some f'"
  shows "page_writes f' = (page_writes f)[q := page_writes f ! q + 1] \<and> page_disturbs f' = page_disturbs f"
  using assms by (auto simp: map_page_def rd_def wr_def split: Option.bind_splits if_splits)

lemma disturb_wear:
  assumes "disturb_neighbor tr f q = Some f'"
  shows "page_writes f' = page_writes f \<and>
    (page_disturbs f' = page_disturbs f \<or> (\<exists>i. page_disturbs f' = (page_disturbs f)[i := page_disturbs f ! i + 1]))"
  using assms by (auto simp: disturb_neighbor_def rd_def wr_def Let_def split: Option.bind_splits if_splits)

lemma invalidate_wear:
  "invalidate_page f q = Some f' \<Longrightarrow> page_writes f' = page_writes f \<and> page_disturbs f' = page_disturbs f"
  by (auto simp: invalidate_page_def rd_def wr_def split: Option.bind_splits if_splits)

text \<open>A committed page is counted in the physical bytes.\<close>

lemma map_page_bytes:
  "map_page f lp q = Some f' \<Longrightarrow> total_physical_bytes_written f' = total_physical_bytes_written f + 4096"
  by (auto simp: map_page_def rd_def wr_def PAGE_SIZE_def split: Option.bind_splits if_splits)

lemma disturb_bytes:
  "disturb_neighbor tr f q = Some f' \<Longrightarrow> total_physical_bytes_written f' = total_physical_bytes_written f"
  by (auto simp: disturb_neighbor_def rd_def wr_def Let_def split: Option.bind_splits if_splits)

lemma invalidate_bytes:
  "invalidate_page f q = Some f' \<Longrightarrow> total_physical_bytes_written f' = total_physical_bytes_written f"
  by (auto simp: invalidate_page_def rd_def wr_def split: Option.bind_splits if_splits)

lemma commit_write_slack:
  assumes "wear_slack (Suc k) limit f" "commit_write tr f lp q old = Some f'"
  shows "wear_slack k limit f' \<and> total_physical_bytes_written f' = total_physical_bytes_written f + 4096"
proof -
  obtain f1 where f1: "map_page f lp q = Some f1"
    using assms(2) by (auto simp: commit_write_def split: Option.bind_splits)
  obtain f2 where f2: "disturb_neighbor tr f1 q = Some f2"
    using assms(2) f1 by (auto simp: commit_write_def split: Option.bind_splits)
  have e: "page_writes f' = page_writes f2 \<and> page_disturbs f' = page_disturbs f2"
    using assms(2) f1 f2 invalidate_wear [of f2] by (auto simp: commit_write_def split: option.splits)
  have s: "\<forall>w \<in> set (page_writes f). unat w + Suc k \<le> unat WEAR_THRESHOLD"
    "\<forall>d \<in> set (page_disturbs f). unat d + Suc k \<le> unat limit"
    using assms(1) by (simp_all add: wear_slack_def)
  have "\<forall>w \<in> set (page_writes f'). unat w + k \<le> unat WEAR_THRESHOLD"
    using e map_page_wear [OF f1] disturb_wear [OF f2] slack_bump [OF s(1)] by simp
  moreover have "\<forall>d \<in> set (page_disturbs f'). unat d + k \<le> unat limit"
    using e map_page_wear [OF f1] disturb_wear [OF f2] slack_bump [OF s(2)] slack_weaken [OF s(2)] by auto
  moreover have "total_physical_bytes_written f' = total_physical_bytes_written f + 4096"
    using assms(2) f1 f2 map_page_bytes [OF f1] disturb_bytes [OF f2] invalidate_bytes [of f2]
    by (auto simp: commit_write_def split: option.splits)
  ultimately show ?thesis by (simp add: wear_slack_def)
qed

lemma write_step_slack:
  assumes "wear_slack (Suc k) limit f" "free_pages f \<noteq> []"
    and "write_step copy put tr lp (f, m) = Some (ok, f', m')"
  shows "wear_slack k limit f' \<and> total_physical_bytes_written f' = total_physical_bytes_written f + 4096"
proof -
  obtain r f2 where a: "AllocatePhysicalPage (bump_hot f lp) (prefers_hot (bump_hot f lp) lp) = (r, f2)" by fastforce
  obtain hs cs where f2: "f2 = (bump_hot f lp)\<lparr>free_hot := hs, free_cold := cs\<rparr>"
    and r: "case r of None \<Rightarrow> free_pages (bump_hot f lp) = [] \<and> f2 = bump_hot f lp
      | Some p \<Rightarrow> mset (free_pages (bump_hot f lp)) = add_mset p (mset (hs @ cs))"
    using AllocatePhysicalPage_free [OF a] by blast
  have "free_pages (bump_hot f lp) = free_pages f" by (simp add: bump_hot_def free_pages_def)
  then obtain q where q: "r = Some q" using r assms(2) by (cases r) auto
  have s2: "wear_slack (Suc k) limit f2" using assms(1) by (simp add: f2 wear_slack_def bump_hot_def)
  have "\<exists>old. commit_write tr f2 lp q old = Some f'"
    using assms(3) a q by (auto simp: write_step_def alloc_or_gc_def Let_def split: Option.bind_splits)
  moreover have "total_physical_bytes_written f2 = total_physical_bytes_written f" by (simp add: f2 bump_hot_def)
  ultimately show ?thesis using commit_write_slack [OF s2] by metis
qed

lemma write_loop_slack:
  "ftl_inv f \<Longrightarrow> store_inv k (page_count f) st \<Longrightarrow> start + length src \<le> page_count f * 4096 \<Longrightarrow>
   pages_spanned start (length src) \<le> free_count f \<Longrightarrow>
   wear_slack (pages_spanned start (length src) + j) limit f \<Longrightarrow>
   write_loop tracking start src (f, st) = Some (ok, f', st') \<Longrightarrow>
   wear_slack j limit f' \<and> total_physical_bytes_written f' =
     total_physical_bytes_written f + of_nat (4096 * pages_spanned start (length src))"
proof (induction "length src" arbitrary: start src f st rule: less_induct)
  case less
  show ?case
  proof (cases "src = []")
    case True
    then show ?thesis using less.prems by (simp add: write_loop.simps pages_spanned_def)
  next
    case False
    define piece where "piece = min (length src) (4096 - start mod 4096)"
    note fp = first_piece [OF False less.prems(3), folded piece_def]
    have span: "pages_spanned start (length src) = Suc (pages_spanned (start + piece) (length (drop piece src)))"
      using pages_spanned_piece [OF _ piece_def] False by simp
    then have "free_count f \<noteq> 0" using less.prems(4) by simp
    then have fr: "free_pages f \<noteq> []" by (auto simp: free_count_def free_pages_def)
    obtain f1 st1 where w:
      "write_step copy_page (put_page (start mod 4096) (take piece src)) tracking (start div 4096) (f, st) = Some (True, f1, st1)"
      "ftl_inv f1" "store_inv k (page_count f) st1" "same_geom f f1" "free_count f = free_count f1 + 1"
      using write_step_bytes [OF fp(1) less.prems(1,2) fp(2) fr, of tracking] by blast
    have pc: "page_count f1 = page_count f" using w(4) by (simp add: same_geom_def)
    have slack: "wear_slack (pages_spanned (start + piece) (length (drop piece src)) + j) limit f1"
      and bytes: "total_physical_bytes_written f1 = total_physical_bytes_written f + 4096"
      using write_step_slack [OF _ fr w(1), of "pages_spanned (start + piece) (length (drop piece src)) + j" limit] less.prems(5)
      unfolding span by simp_all
    have "write_loop tracking (start + piece) (drop piece src) (f1, st1) = Some (ok, f', st')"
      using less.prems(6) False w(1)
      by (simp add: write_loop.simps [of tracking start src] geom piece_def [symmetric] Let_def)
    moreover have "length (drop piece src) < length src" using False fp(3) by simp
    ultimately have "wear_slack j limit f' \<and> total_physical_bytes_written f' =
        total_physical_bytes_written f1 + of_nat (4096 * pages_spanned (start + piece) (length (drop piece src)))"
      using less.hyps [OF _ w(2), of "drop piece src" st1 "start + piece"] w(3,5) pc fp(4) less.prems(3,4) span slack
      by simp
    then show ?thesis unfolding span bytes by (simp add: algebra_simps)
  qed
qed

lemma slack_healthy:
  assumes "wear_slack 0 (half_select_disturb_threshold (physics_cfg c)) (meta c)"
  shows "healthy c"
  using assms by (simp add: healthy_def wear_slack_def word_le_nat_alt)

lemma Write_wear:
  assumes "ctrl_ok c" "n \<le> length buf" "offset + n \<le> capacity c"
    and "pages_spanned offset n + gc_low_watermark (meta c) \<le> free_count (meta c)"
    and "wear_slack (pages_spanned offset n + j) (half_select_disturb_threshold (physics_cfg c)) (meta c)"
    and "Write c offset (Some buf) n = Some (True, c')"
  shows "wear_slack j (half_select_disturb_threshold (physics_cfg c')) (meta c') \<and>
    total_physical_bytes_written (meta c') = total_physical_bytes_written (meta c) + of_nat (4096 * pages_spanned offset n) \<and>
    gc_low_watermark (meta c') = gc_low_watermark (meta c) \<and> capacity c' = capacity c"
proof -
  let ?f = "meta c"
  have ok: "ftl_inv ?f" "store_inv True (page_count ?f) (buffers c)" "capacity c = page_count ?f * 4096"
    using assms(1) by (simp_all add: ctrl_ok_def)
  have len: "length (take n buf) = n" using assms(2) by simp
  have fit: "offset + length (take n buf) \<le> page_count ?f * 4096" using assms(3) ok(3) len by simp
  have enough: "pages_spanned offset (length (take n buf)) \<le> free_count ?f" using assms(4) len by simp
  obtain f1 st1 where w: "write_loop (enable_disturb_tracking (physics_cfg c)) offset (take n buf) (?f, buffers c) = Some (True, f1, st1)"
    "same_geom ?f f1" "free_count ?f = free_count f1 + pages_spanned offset n"
    using write_loop_bytes [OF ok(1,2) fit enough, of "enable_disturb_tracking (physics_cfg c)"] unfolding len by blast
  have "gc_low_watermark f1 = gc_low_watermark ?f" using w(2) by (simp add: same_geom_def)
  then have g: "gc_if_low copy_page (f1, st1) = Some (f1, st1)" using w(3) assms(4) by (simp add: gc_if_low_def)
  have "slice buf 0 n = Some (take n buf)" using assms(2) by (simp add: slice_def)
  moreover have "\<not> (n > capacity c \<or> offset > capacity c - n)" using assms(3) by auto
  ultimately have "meta c' = f1 \<and> physics_cfg c' = physics_cfg c \<and> capacity c' = capacity c"
    using assms(6) w(1) g by (auto simp: Write_def Let_def)
  moreover have "wear_slack j (half_select_disturb_threshold (physics_cfg c)) f1 \<and>
      total_physical_bytes_written f1 = total_physical_bytes_written ?f + of_nat (4096 * pages_spanned offset n)"
    using write_loop_slack [OF ok(1,2) fit enough _ w(1), of j] assms(5) unfolding len by blast
  moreover have "gc_low_watermark f1 = gc_low_watermark ?f" using w(2) by (simp add: same_geom_def)
  ultimately show ?thesis by simp
qed

lemma Write_healthy:
  assumes "ctrl_ok c" "n \<le> length buf" "offset + n \<le> capacity c"
    and "pages_spanned offset n + gc_low_watermark (meta c) \<le> free_count (meta c)"
    and "wear_slack (pages_spanned offset n) (half_select_disturb_threshold (physics_cfg c)) (meta c)"
    and "Write c offset (Some buf) n = Some (True, c')"
  shows "healthy c'"
  using Write_wear [OF assms(1-4), of 0 c'] assms(5,6) by (intro slack_healthy) simp

section \<open>The fresh one-megabyte drive\<close>

definition drive_1MiB :: ctrl where
  "drive_1MiB = FTJController 1048576 10"

lemma drive_1MiB_ok: "ctrl_ok drive_1MiB"
  using FTJController_ok [OF good_1MiB] by (simp add: drive_1MiB_def)

lemma drive_1MiB_pages: "page_count (ftl_init 1048576) = 256"
  by (simp add: ftl_init_page_count)

lemma drive_1MiB_facts:
  "capacity drive_1MiB = 1048576" "meta drive_1MiB = ftl_init 1048576"
  "physics_cfg drive_1MiB = default_cfg" "free_count (ftl_init 1048576) = 256"
  "gc_low_watermark (ftl_init 1048576) = 12"
proof -
  show "capacity drive_1MiB = 1048576" "meta drive_1MiB = ftl_init 1048576"
    "physics_cfg drive_1MiB = default_cfg" by (simp_all add: drive_1MiB_def FTJController_def)
  show "free_count (ftl_init 1048576) = 256" by (simp add: free_count_init drive_1MiB_pages)
  have "gc_low_watermark (ftl_init 1048576) = max 1 (page_count (ftl_init 1048576) div 20)"
    by (simp only: ftl_init_def Let_def ftl.select_convs)
  then show "gc_low_watermark (ftl_init 1048576) = 12" unfolding drive_1MiB_pages by simp
qed

lemma drive_1MiB_slack: "k \<le> 50000 \<Longrightarrow> wear_slack k (half_select_disturb_threshold (physics_cfg drive_1MiB)) (meta drive_1MiB)"
proof -
  assume k: "k \<le> 50000"
  have "page_writes (ftl_init 1048576) = replicate (page_count (ftl_init 1048576)) 0"
    "page_disturbs (ftl_init 1048576) = replicate (page_count (ftl_init 1048576)) 0"
    by (simp_all only: ftl_init_def Let_def ftl.select_convs)
  then show ?thesis using k
    by (simp add: wear_slack_def drive_1MiB_facts WEAR_THRESHOLD_def default_cfg_def drive_1MiB_pages
        set_replicate_conv_if)
qed

section \<open>The guarantees\<close>

text \<open>C10: a write that fits and does not use up the reserve of free pages succeeds and updates exactly the
  addressed bytes: afterwards every byte of the device is the written one inside the range and the
  previous one outside. It costs one free page per page it touches and is counted once, and the
  drive invariant (mapping bijective, free pages unique, check bytes correct) is kept.\<close>

theorem Write_updates_bytes:
  assumes "ctrl_ok c" "n \<le> length buf" "offset + n \<le> capacity c"
    and "pages_spanned offset n + gc_low_watermark (meta c) \<le> free_count (meta c)"
  shows "\<exists>c'. Write c offset (Some buf) n = Some (True, c') \<and> ctrl_ok c' \<and>
    total_writes c' = total_writes c + 1 \<and>
    free_count (meta c) = free_count (meta c') + pages_spanned offset n \<and>
    (\<forall>a < capacity c. byte_at c' a = (if offset \<le> a \<and> a < offset + n then buf ! (a - offset) else byte_at c a))"
  using Write_bytes [OF assms] by blast

theorem Write_updates_bytes_witness:
  "ctrl_ok drive_1MiB \<and>
   (\<exists>c'. Write drive_1MiB 4090 (Some (replicate 100 7)) 100 = Some (True, c') \<and> ctrl_ok c' \<and>
      free_count (meta c') = 254 \<and> byte_at c' 4095 = 7 \<and> byte_at c' 4096 = 7 \<and> byte_at c' 4089 = 0)"
proof -
  have h: "ctrl_ok drive_1MiB" "100 \<le> length (replicate 100 (7::u8))" "4090 + 100 \<le> capacity drive_1MiB"
    "pages_spanned 4090 100 + gc_low_watermark (meta drive_1MiB) \<le> free_count (meta drive_1MiB)"
    using drive_1MiB_ok by (simp_all add: drive_1MiB_facts pages_spanned_def)
  obtain c' where c': "Write drive_1MiB 4090 (Some (replicate 100 7)) 100 = Some (True, c')" "ctrl_ok c'"
    "free_count (meta drive_1MiB) = free_count (meta c') + pages_spanned 4090 100"
    "\<forall>a < capacity drive_1MiB. byte_at c' a =
      (if 4090 \<le> a \<and> a < 4090 + 100 then replicate 100 7 ! (a - 4090) else byte_at drive_1MiB a)"
    using Write_updates_bytes [OF h] by blast
  have "byte_at drive_1MiB 4089 = 0"
    unfolding drive_1MiB_def by (rule FTJController_zeros [OF good_1MiB]) simp
  then have "byte_at c' 4089 = 0" using c'(4) by (simp add: drive_1MiB_facts)
  moreover have "byte_at c' 4095 = 7" "byte_at c' 4096 = 7" using c'(4) by (simp_all add: drive_1MiB_facts)
  moreover have "free_count (meta c') = 254" using c'(3) by (simp add: drive_1MiB_facts pages_spanned_def)
  ultimately show ?thesis using c'(1,2) h(1) by blast
qed

text \<open>C11: a read of healthy cells succeeds and returns the bytes of the device, in the addressed part of
  the caller's buffer and nowhere else.\<close>

theorem Read_returns_bytes:
  assumes "ctrl_ok c" "healthy c" "n \<le> length buf" "offset + n \<le> capacity c"
  shows "\<exists>c'. Read c offset (Some buf) n = Some (True, Some (contents c offset n @ drop n buf), c') \<and>
    ctrl_ok c' \<and> total_reads c' = total_reads c + 1"
  using Read_contents [OF assms] .

theorem Read_returns_bytes_witness:
  "ctrl_ok drive_1MiB \<and> healthy drive_1MiB \<and>
   (\<exists>c'. Read drive_1MiB 4094 (Some [1, 2, 3, 4, 5]) 4 = Some (True, Some (contents drive_1MiB 4094 4 @ [5]), c'))"
proof -
  have h: "ctrl_ok drive_1MiB" "healthy drive_1MiB" "4 \<le> length [1, 2, 3, 4, 5 :: u8]"
    "4094 + 4 \<le> capacity drive_1MiB"
    using drive_1MiB_ok slack_healthy [OF drive_1MiB_slack [of 0]] by (simp_all add: drive_1MiB_facts)
  show ?thesis using h Read_returns_bytes [OF h] by auto
qed

lemma read_after_write_lemma:
  assumes "ctrl_ok c" "n \<le> length buf" "n \<le> length dst" "offset + n \<le> capacity c"
    and "pages_spanned offset n + gc_low_watermark (meta c) \<le> free_count (meta c)"
    and "wear_slack (pages_spanned offset n) (half_select_disturb_threshold (physics_cfg c)) (meta c)"
  shows "\<exists>c1 c2. Write c offset (Some buf) n = Some (True, c1) \<and>
    Read c1 offset (Some dst) n = Some (True, Some (take n buf @ drop n dst), c2)"
proof -
  obtain c1 where w: "Write c offset (Some buf) n = Some (True, c1)" "ctrl_ok c1" "capacity c1 = capacity c"
    "\<forall>a < capacity c. byte_at c1 a = (if offset \<le> a \<and> a < offset + n then buf ! (a - offset) else byte_at c a)"
    using Write_bytes [OF assms(1,2,4,5)] by blast
  have "healthy c1" using Write_healthy [OF assms(1,2,4,5,6) w(1)] .
  then obtain c2 where r: "Read c1 offset (Some dst) n = Some (True, Some (contents c1 offset n @ drop n dst), c2)"
    using Read_contents [OF w(2) _ assms(3)] assms(4) w(3) by auto
  have "contents c1 offset n = take n buf"
    by (rule nth_equalityI) (use w(4) assms(2,4) in \<open>simp_all add: contents_def\<close>)
  then show ?thesis using w(1) r by simp
qed

text \<open>C1: what was written is what is read back: after a write that fits in the reserve of free pages, on
  cells with wear to spare, a read of the same range returns the written bytes.\<close>

theorem read_after_write:
  assumes "ctrl_ok c" "n \<le> length buf" "n \<le> length dst" "offset + n \<le> capacity c"
    and "pages_spanned offset n + gc_low_watermark (meta c) \<le> free_count (meta c)"
    and "wear_slack (pages_spanned offset n) (half_select_disturb_threshold (physics_cfg c)) (meta c)"
  shows "\<exists>c1 c2. Write c offset (Some buf) n = Some (True, c1) \<and>
    Read c1 offset (Some dst) n = Some (True, Some (take n buf @ drop n dst), c2)"
  by (rule read_after_write_lemma [OF assms])

theorem read_after_write_witness:
  "ctrl_ok drive_1MiB \<and>
   (\<exists>c1 c2. Write drive_1MiB 4094 (Some [1, 2, 3, 4]) 4 = Some (True, c1) \<and>
      Read c1 4094 (Some [0, 0, 0, 0, 0]) 4 = Some (True, Some [1, 2, 3, 4, 0], c2))"
proof -
  have h: "ctrl_ok drive_1MiB" "4 \<le> length [1, 2, 3, 4 :: u8]" "4 \<le> length [0, 0, 0, 0, 0 :: u8]"
    "4094 + 4 \<le> capacity drive_1MiB"
    "pages_spanned 4094 4 + gc_low_watermark (meta drive_1MiB) \<le> free_count (meta drive_1MiB)"
    "wear_slack (pages_spanned 4094 4) (half_select_disturb_threshold (physics_cfg drive_1MiB)) (meta drive_1MiB)"
    using drive_1MiB_ok drive_1MiB_slack by (simp_all add: drive_1MiB_facts pages_spanned_def)
  show ?thesis using h(1) read_after_write [OF h] by simp
qed

text \<open>C13: a fresh drive of supported size satisfies the drive invariant, has all its pages free and
  reads as zeros everywhere.\<close>

theorem fresh_drive:
  assumes "good_capacity cap"
  shows "ctrl_ok (FTJController cap lat) \<and> free_count (meta (FTJController cap lat)) * 4096 = cap \<and>
    (\<forall>a < cap. byte_at (FTJController cap lat) a = 0)"
  using FTJController_ok [OF assms] FTJController_zeros [OF assms] good_capacity_size [OF assms]
  by (simp add: FTJController_def free_count_init)

theorem fresh_drive_witness:
  "good_capacity 67108864 \<and> ctrl_ok (FTJController 67108864 10)"
proof -
  have h: "good_capacity 67108864" by (simp add: good_capacity_def geom)
  then show ?thesis using fresh_drive [OF h] by blast
qed

text \<open>the page buffers are sized in bytes, the mapping in whole pages: on a drive smaller than a page
  any non-empty write that is accepted leaves the memory buffer (undefined behaviour).\<close>

lemma unaligned_capacity_overflow:
  assumes "0 < cap" "cap < 4096" "0 < n" "offset + n \<le> cap" "n \<le> length buf"
  shows "Write (FTJController cap lat) offset (Some buf) n = None"
proof -
  let ?c = "FTJController cap lat"
  let ?c1 = "snd (access_start ?c offset True)"
  have "(4095 + cap) div 4096 = 1" using assms(1,2) by (intro div_nat_eqI) simp_all
  then have f: "free_hot (ftl_init cap) = [0]" "free_cold (ftl_init cap) = []" "l2p_map (ftl_init cap) = [None]"
    "lba_hot_counters (ftl_init cap) = [0]"
    by (simp_all add: ftl_init_def Let_def geom)
  have off: "offset div 4096 = 0" using assms by simp
  have "zero_page 0 (buffers ?c) = None"
    using assms(2) by (simp add: FTJController_def zero_page_def splice_def geom)
  then have "put_page po src 0 None (buffers ?c) = None" for po src by (simp add: put_page_def)
  moreover have "meta ?c = ftl_init cap" by (simp add: FTJController_def)
  moreover have "AllocatePhysicalPage (bump_hot (ftl_init cap) 0) h = (Some 0, (bump_hot (ftl_init cap) 0)\<lparr>free_hot := []\<rparr>)" for h
    using f by (simp add: AllocatePhysicalPage_def pop_hot_def pop_cold_def bump_hot_def)
  ultimately have step: "write_step copy_page (put_page po src) tr 0 (meta ?c, buffers ?c) = None" for po src tr
    using f by (simp add: write_step_def alloc_or_gc_def bump_hot_def Let_def)
  have ne: "take n buf \<noteq> []" using assms(3,5) by auto
  have "write_loop tr offset (take n buf) (meta ?c, buffers ?c) = None" for tr
    using ne step off by (simp add: write_loop.simps [of tr offset "take n buf"] geom Let_def)
  moreover have "slice buf 0 n = Some (take n buf)" using assms(5) by (simp add: slice_def)
  moreover have "\<not> (n > capacity ?c \<or> offset > capacity ?c - n)"
    using assms(4) by (auto simp: FTJController_def)
  ultimately show ?thesis by (simp add: Write_def Let_def)
qed

end
