(* ===== verification/Workloads.thy ===== *)
theory Workloads
  imports Drive
begin

text \<open>
  The programs that drive the controller: the benchmark loops of \<open>main.cpp\<close>, the workloads of
  \<open>analysis_tool.cpp\<close>, the loop of \<open>waf_harness.cpp\<close>, and the simulated NAND of \<open>main.cpp\<close> they are compared
  with. The draws of the random generators are functions of the loop counter; clocks and reports are not
  modelled.
\<close>

section \<open>The simulated NAND\<close>

record nand =
  total_erases :: u64
  nand_writes :: u64
  nand_reads :: u64
  total_latency_ns :: u64

definition READ_LATENCY_NS :: u64 where
  "READ_LATENCY_NS = 25000"

definition WRITE_LATENCY_NS :: u64 where
  "WRITE_LATENCY_NS = 100000"

definition ERASE_LATENCY_NS :: u64 where
  "ERASE_LATENCY_NS = 3000000"

definition NandReset :: "nand \<Rightarrow> nand" where
  "NandReset n = n\<lparr>total_erases := 0, nand_writes := 0, nand_reads := 0, total_latency_ns := 0\<rparr>"

definition NandWrite :: "u64 \<Rightarrow> u64 \<Rightarrow> nand \<Rightarrow> nand" where
  "NandWrite offset sz n =
     (let pages_needed = (sz + 4096 - 1) div 4096;
          n1 = n\<lparr>nand_writes := nand_writes n + pages_needed,
                 total_latency_ns := total_latency_ns n + pages_needed * WRITE_LATENCY_NS\<rparr>
      in if nand_writes n1 mod 64 = 0
         then n1\<lparr>total_erases := total_erases n1 + 1, total_latency_ns := total_latency_ns n1 + ERASE_LATENCY_NS\<rparr>
         else n1)"

definition NandRead :: "u64 \<Rightarrow> u64 \<Rightarrow> nand \<Rightarrow> nand" where
  "NandRead offset sz n =
     (let pages_needed = (sz + 4096 - 1) div 4096
      in n\<lparr>nand_reads := nand_reads n + pages_needed,
           total_latency_ns := total_latency_ns n + pages_needed * READ_LATENCY_NS\<rparr>)"

section \<open>The benchmark loops of the main program\<close>

text \<open>\<open>for (i = 0; i < n; ++i)\<close>; a body that is undefined makes the loop undefined.\<close>

fun for_loop :: "(nat \<Rightarrow> 's \<Rightarrow> 's option) \<Rightarrow> nat \<Rightarrow> nat \<Rightarrow> 's \<Rightarrow> 's option" where
  "for_loop body i 0 s = Some s"
| "for_loop body i (Suc n) s = do { s' \<leftarrow> body i s; for_loop body (Suc i) n s' }"

text \<open>Calls whose answer is not looked at; a read fills the buffer.\<close>

definition do_write :: "nat \<Rightarrow> nat \<Rightarrow> u8 list \<times> ctrl \<Rightarrow> (u8 list \<times> ctrl) option" where
  "do_write offset sz s = do { (ok, c) \<leftarrow> Write (snd s) offset (Some (fst s)) sz; Some (fst s, c) }"

definition do_read :: "nat \<Rightarrow> nat \<Rightarrow> u8 list \<times> ctrl \<Rightarrow> (u8 list \<times> ctrl) option" where
  "do_read offset sz s = do {
     (ok, dest, c) \<leftarrow> Read (snd s) offset (Some (fst s)) sz;
     Some (case dest of None \<Rightarrow> fst s | Some buf \<Rightarrow> buf, c)
   }"

text \<open>\<open>position % (cap - block)\<close>: the subtraction wraps, and a division by zero is undefined.\<close>

definition seq_offset :: "u64 \<Rightarrow> u64 \<Rightarrow> u64 \<Rightarrow> u64 option" where
  "seq_offset position cap block = (if cap - block = 0 then None else Some (position mod (cap - block)))"

definition seq_write :: "u64 \<Rightarrow> nat \<Rightarrow> nat \<Rightarrow> nat \<Rightarrow> u8 list \<times> ctrl \<Rightarrow> (u8 list \<times> ctrl) option" where
  "seq_write cap stride block i s = do {
     offset \<leftarrow> seq_offset (of_nat i * of_nat stride) cap (of_nat block);
     do_write (unat offset) block s
   }"

definition random_writes :: "(nat \<Rightarrow> nat) \<Rightarrow> ctrl \<Rightarrow> (u8 list \<times> ctrl) option" where
  "random_writes draw c = for_loop (\<lambda>i. do_write (draw i) 4096) 0 50000 (replicate 4096 0xAF, c)"

definition sequential_rw :: "u64 \<Rightarrow> ctrl \<Rightarrow> (u8 list \<times> ctrl) option" where
  "sequential_rw engine_capacity c =
     for_loop (\<lambda>i s. do {
         offset \<leftarrow> seq_offset (of_nat i * 256) engine_capacity 256;
         if i mod 2 = 0 then do_write (unat offset) 256 s else do_read (unat offset) 256 s
       })
       0 200000 (replicate 256 0x55, c)"

definition mixed_rw :: "(nat \<Rightarrow> nat) \<Rightarrow> (nat \<Rightarrow> int) \<Rightarrow> ctrl \<Rightarrow> (u8 list \<times> ctrl) option" where
  "mixed_rw draw op c =
     for_loop (\<lambda>i. if op i \<le> 70 then do_read (draw i) 4096 else do_write (draw i) 4096)
       0 100000 (replicate 4096 0x33, c)"

definition nand_comparison_ftj :: "u64 \<Rightarrow> ctrl \<Rightarrow> (u8 list \<times> ctrl) option" where
  "nand_comparison_ftj engine_capacity c =
     for_loop (seq_write engine_capacity 4096 4096) 0 20000 (replicate 4096 0xCC, c)"

definition nand_comparison :: "u64 \<Rightarrow> nand \<Rightarrow> nand option" where
  "nand_comparison engine_capacity n =
     for_loop (\<lambda>i n. do { offset \<leftarrow> seq_offset (of_nat i * 4096) engine_capacity 4096; Some (NandWrite offset 4096 n) })
       0 20000 (NandReset n)"

text \<open>The wear benchmark: 10000 reads of the eight bytes just written, and how many of them failed.\<close>

definition wear_reads :: "nat \<Rightarrow> u8 list \<times> nat \<times> ctrl \<Rightarrow> (u8 list \<times> nat \<times> ctrl) option" where
  "wear_reads i s = (case s of (buf, failed, c) \<Rightarrow> do {
     (ok, dest, c1) \<leftarrow> Read c 0 (Some buf) 8;
     Some (case dest of None \<Rightarrow> buf | Some b \<Rightarrow> b, if ok then failed else failed + 1, c1)
   })"

definition wear_benchmark :: "ctrl \<Rightarrow> (nat \<times> ctrl) option" where
  "wear_benchmark c = do {
     c1 \<leftarrow> InjectHeavyWear 0 (WEAR_THRESHOLD + 15000) c;
     (ok, c2) \<leftarrow> Write c1 0 (Some (le_bytes 0xAA55AA55AA55AA55)) 8;
     (buf, failed, c3) \<leftarrow> for_loop wear_reads 0 10000 (le_bytes 0, 0, c2);
     Some (failed, c3)
   }"

definition crossbar_stress :: "u64 \<Rightarrow> ctrl \<Rightarrow> (telemetry \<times> u64 \<times> ctrl) option" where
  "crossbar_stress engine_capacity c = do {
     let c1 = SetPhysicsConfig ((GetPhysicsConfig c)\<lparr>ambient_temp_c := 85, enable_ir_drop_sim := True,
                enable_disturb_tracking := True\<rparr>) c;
     (buf, c2) \<leftarrow> for_loop (seq_write engine_capacity 8192 4096) 0 15000 (replicate 4096 0x55, c1);
     let t = GetPhysicsTelemetry c2;
     let (refreshed, c3) = TriggerAutonomousRefresh c2;
     Some (t, refreshed, c3)
   }"

text \<open>One round of the workload thread behind the live monitor, from three draws.\<close>

definition monitor_round :: "nat \<Rightarrow> nat \<Rightarrow> nat \<Rightarrow> u8 list \<times> ctrl \<Rightarrow> (u8 list \<times> ctrl) option" where
  "monitor_round offset r1 r2 s = do {
     (buf, c) \<leftarrow> (if r1 mod 10 < 4 then do_write offset 4096 s else do_read offset 4096 s);
     if r2 mod 50 = 0 then do {
       s1 \<leftarrow> do_write 0 8 (le_bytes 0xAA55AA55AA55AA55, c);
       (pattern, c') \<leftarrow> do_read 0 8 s1;
       Some (buf, c')
     } else Some (buf, c)
   }"

section \<open>The workloads of the analysis tool\<close>

record run_result =
  logical_bytes :: u64
  physical_bytes :: u64
  waf :: real

definition waf_of :: "u64 \<Rightarrow> u64 \<Rightarrow> real" where
  "waf_of logical physical = (if logical > 0 then real (unat physical) / real (unat logical) else 0)"

definition run_report :: "u8 list \<times> u64 \<times> ctrl \<Rightarrow> run_result \<times> ctrl" where
  "run_report s = (case s of (buf, logical, c) \<Rightarrow>
     (\<lparr>logical_bytes = logical, physical_bytes = GetTotalPhysicalBytesWritten c,
       waf = waf_of logical (GetTotalPhysicalBytesWritten c)\<rparr>, c))"

definition counted_write :: "nat \<Rightarrow> nat \<Rightarrow> u8 list \<times> u64 \<times> ctrl \<Rightarrow> (u8 list \<times> u64 \<times> ctrl) option" where
  "counted_write off block s = (case s of (buf, logical, c) \<Rightarrow> do {
     (buf', c') \<leftarrow> do_write off block (buf, c);
     Some (buf', logical + of_nat block, c')
   })"

definition Random4KMixed :: "(nat \<Rightarrow> nat) \<Rightarrow> (nat \<Rightarrow> int) \<Rightarrow> nat \<Rightarrow> ctrl \<Rightarrow> (run_result \<times> ctrl) option" where
  "Random4KMixed draw op num_ops c = map_option run_report
     (for_loop (\<lambda>i s. if op i \<le> 70
          then (case s of (buf, logical, c) \<Rightarrow> do { (buf', c') \<leftarrow> do_read (draw i) 4096 (buf, c); Some (buf', logical, c') })
          else counted_write (draw i) 4096 s)
       0 num_ops (replicate 4096 0xAA, 0, c))"

definition SequentialLargeWrites :: "u64 \<Rightarrow> nat \<Rightarrow> ctrl \<Rightarrow> (run_result \<times> ctrl) option" where
  "SequentialLargeWrites logical_capacity num_ops c = map_option run_report
     (for_loop (\<lambda>i s. do {
         off \<leftarrow> seq_offset (of_nat i * 131072) logical_capacity 131072;
         counted_write (unat off) 131072 s
       })
       0 num_ops (replicate 131072 0xBB, 0, c))"

definition DB_WAL_Append :: "u64 \<Rightarrow> nat \<Rightarrow> ctrl \<Rightarrow> (run_result \<times> ctrl) option" where
  "DB_WAL_Append logical_capacity num_ops c = map_option run_report
     (for_loop (\<lambda>i s. do {
         off \<leftarrow> seq_offset (0 + of_nat i * 8192) logical_capacity 8192;
         counted_write (unat off) 8192 s
       })
       0 num_ops (replicate 8192 0xCC, 0, c))"

text \<open>The size of the drive for a share of over-provisioning.\<close>

definition phys_cap :: "nat \<Rightarrow> real \<Rightarrow> nat" where
  "phys_cap logical_capacity opct =
     (let n = nat \<lfloor>real logical_capacity * (1 + opct)\<rfloor>
      in if n mod 4096 \<noteq> 0 then (n + 4096 - 1) div 4096 * 4096 else n)"

section \<open>The WAF harness\<close>

text \<open>The state: read buffer, bytes written and read, the drive. The exit codes are 2 and 3; a division by zero is
  undefined. The size of the block is a word, so the subtraction from the capacity wraps.\<close>

definition harness_offset :: "bool \<Rightarrow> (nat \<Rightarrow> u64) \<Rightarrow> u64 \<Rightarrow> u64 \<Rightarrow> nat \<Rightarrow> u64 option" where
  "harness_offset random_access draw cap block i =
     (if random_access then Some (draw i) else seq_offset (of_nat i * block) cap block)"

fun harness_loop :: "bool \<Rightarrow> int \<Rightarrow> (nat \<Rightarrow> u64) \<Rightarrow> (nat \<Rightarrow> int) \<Rightarrow> u64 \<Rightarrow> u64 \<Rightarrow> u8 list \<Rightarrow> nat \<Rightarrow> nat \<Rightarrow>
    u8 list \<times> u64 \<times> u64 \<times> ctrl \<Rightarrow> (nat + u8 list \<times> u64 \<times> u64 \<times> ctrl) option" where
  "harness_loop random_access read_percentage draw op cap block write_buf i 0 s = Some (Inr s)"
| "harness_loop random_access read_percentage draw op cap block write_buf i (Suc n) (read_buf, written, bytes_read, c) = do {
     off \<leftarrow> harness_offset random_access draw cap block i;
     if op i \<le> read_percentage then do {
       (ok, dest, c') \<leftarrow> Read c (unat off) (Some read_buf) (unat block);
       if \<not> ok then Some (Inl 3)
       else harness_loop random_access read_percentage draw op cap block write_buf (Suc i) n
              (case dest of None \<Rightarrow> read_buf | Some b \<Rightarrow> b, written, bytes_read + block, c')
     } else do {
       (ok, c') \<leftarrow> Write c (unat off) (Some write_buf) (unat block);
       if \<not> ok then Some (Inl 2)
       else harness_loop random_access read_percentage draw op cap block write_buf (Suc i) n
              (read_buf, written + block, bytes_read, c')
     }
   }"

definition waf_harness :: "nat \<Rightarrow> u64 \<Rightarrow> int \<Rightarrow> bool \<Rightarrow> (nat \<Rightarrow> u64) \<Rightarrow> (nat \<Rightarrow> int) \<Rightarrow>
    (nat + u64 \<times> u64 \<times> u64 \<times> real) option" where
  "waf_harness ops block read_percentage random_access draw op = do {
     r \<leftarrow> harness_loop random_access read_percentage draw op 67108864 block (replicate (unat block) 0x5A) 0 ops
            (replicate (unat block) 0, 0, 0, FTJController 67108864 8);
     Some (case r of Inl code \<Rightarrow> Inl code
       | Inr (buf, written, bytes_read, c) \<Rightarrow>
           (let physical = GetTotalPhysicalBytesWritten c
            in Inr (written, bytes_read, physical,
                 if physical > 0 \<and> written > 0 then real (unat physical) / real (unat written) else 0)))
   }"

section \<open>Every loop is defined\<close>

lemma for_loop_inv:
  assumes "\<And>i s. P s \<Longrightarrow> i < k + n \<Longrightarrow> \<exists>s'. body i s = Some s' \<and> P s'" "P s"
  shows "\<exists>s'. for_loop body k n s = Some s' \<and> P s'"
  using assms
proof (induction n arbitrary: k s)
  case (Suc n)
  obtain s1 where s1: "body k s = Some s1" "P s1" using Suc.prems(1) [OF Suc.prems(2), of k] by auto
  then have "\<exists>s'. for_loop body (Suc k) n s1 = Some s' \<and> P s'" using Suc.prems(1) by (intro Suc.IH) auto
  then show ?case using s1 by simp
qed simp

text \<open>The drive is in a safe state and the buffer has its length.\<close>

definition io_ok :: "nat \<Rightarrow> nat \<Rightarrow> u8 list \<times> ctrl \<Rightarrow> bool" where
  "io_ok cap n s \<longleftrightarrow> length (fst s) = n \<and> ctrl_safe False (snd s) \<and> capacity (snd s) = cap"

lemma do_write_ok: "io_ok cap n s \<Longrightarrow> sz \<le> n \<Longrightarrow> \<exists>s'. do_write off sz s = Some s' \<and> io_ok cap n s'"
  using Write_safe [of False "snd s" "Some (fst s)" sz off] by (auto simp: io_ok_def do_write_def)

lemma do_read_ok: "io_ok cap n s \<Longrightarrow> sz \<le> n \<Longrightarrow> \<exists>s'. do_read off sz s = Some s' \<and> io_ok cap n s'"
proof -
  assume ok: "io_ok cap n s" "sz \<le> n"
  then obtain b dest c' where r: "Read (snd s) off (Some (fst s)) sz = Some (b, dest, c')" "only_counters (snd s) c'"
    "map_option length dest = map_option length (Some (fst s))"
    using Read_safe_lemma [of False "snd s" "Some (fst s)" sz off] unfolding io_ok_def by auto
  then obtain buf where "dest = Some buf" "length buf = n" using ok(1) by (auto simp: io_ok_def)
  then show ?thesis using r ok(1) only_counters_safe [OF r(2)]
    by (auto simp: io_ok_def do_read_def only_counters_def)
qed

lemma rw_loop_io:
  assumes "io_ok cap n s" "sz \<le> n" "\<And>i s. body i s = do_write (off i) sz s \<or> body i s = do_read (off i) sz s"
  shows "\<exists>s'. for_loop body k m s = Some s' \<and> io_ok cap n s'"
proof (rule for_loop_inv [where P = "io_ok cap n"])
  show "\<exists>s'. body i s = Some s' \<and> io_ok cap n s'" if "io_ok cap n s" for i s
    using assms(3) [of i s] do_write_ok [OF that assms(2)] do_read_ok [OF that assms(2)] by auto
qed (rule assms(1))

lemma seq_offset_defined [simp]:
  "engine_capacity \<noteq> block \<Longrightarrow> seq_offset p engine_capacity block = Some (p mod (engine_capacity - block))"
  by (simp add: seq_offset_def)

lemma io_start: "ctrl_safe False c \<Longrightarrow> length buf = n \<Longrightarrow> io_ok (capacity c) n (buf, c)"
  by (simp add: io_ok_def)

lemma random_writes_ok: "ctrl_safe False c \<Longrightarrow> \<exists>s'. random_writes draw c = Some s' \<and> io_ok (capacity c) 4096 s'"
  unfolding random_writes_def by (rule rw_loop_io [where off = draw and sz = 4096]) (simp_all add: io_start)

lemma sequential_rw_ok: "ctrl_safe False c \<Longrightarrow> cap \<noteq> 256 \<Longrightarrow> \<exists>s'. sequential_rw cap c = Some s' \<and> io_ok (capacity c) 256 s'"
  unfolding sequential_rw_def
  by (rule rw_loop_io [where off = "\<lambda>i. unat (of_nat i * 256 mod (cap - 256))" and sz = 256]) (simp_all add: io_start)

lemma seq_write_loop:
  "io_ok k n s \<Longrightarrow> block \<le> n \<Longrightarrow> cap \<noteq> of_nat block \<Longrightarrow> \<exists>s'. for_loop (seq_write cap stride block) i m s = Some s' \<and> io_ok k n s'"
  by (rule rw_loop_io [where off = "\<lambda>i. unat (of_nat i * of_nat stride mod (cap - of_nat block))" and sz = block])
    (simp_all add: seq_write_def)

lemma mixed_rw_ok: "ctrl_safe False c \<Longrightarrow> \<exists>s'. mixed_rw draw op c = Some s' \<and> io_ok (capacity c) 4096 s'"
  unfolding mixed_rw_def by (rule rw_loop_io [where off = draw and sz = 4096]) (simp_all add: io_start)

lemma nand_comparison_ftj_ok:
  "ctrl_safe False c \<Longrightarrow> cap \<noteq> 4096 \<Longrightarrow> \<exists>s'. nand_comparison_ftj cap c = Some s' \<and> io_ok (capacity c) 4096 s'"
  unfolding nand_comparison_ftj_def by (rule seq_write_loop) (simp_all add: io_start)

lemma crossbar_stress_ok:
  assumes safe: "ctrl_safe False c" and cap: "cap \<noteq> 4096"
  shows "\<exists>t n c'. crossbar_stress cap c = Some (t, n, c') \<and> ctrl_safe False c'"
proof -
  let ?c = "SetPhysicsConfig ((GetPhysicsConfig c)\<lparr>ambient_temp_c := 85, enable_ir_drop_sim := True, enable_disturb_tracking := True\<rparr>) c"
  have "io_ok (capacity c) 4096 (replicate 4096 0x55, ?c)"
    using safe by (simp add: io_ok_def SetPhysicsConfig_def ctrl_safe_def)
  from seq_write_loop [OF this order.refl, of cap 8192 0 15000] cap obtain s' where s':
    "for_loop (seq_write cap 8192 4096) 0 15000 (replicate 4096 0x55, ?c) = Some s'" "io_ok (capacity c) 4096 s'"
    by auto
  obtain n c' where r: "TriggerAutonomousRefresh (snd s') = (n, c')" by (cases "TriggerAutonomousRefresh (snd s')")
  then have "ctrl_safe False c'" using refresh_safe [of False "snd s'"] s'(2) by (simp add: io_ok_def)
  then show ?thesis using s'(1) r by (cases s') (simp add: crossbar_stress_def Let_def)
qed

lemma wear_benchmark_ok: "ctrl_safe False c \<Longrightarrow> \<exists>failed c'. wear_benchmark c = Some (failed, c') \<and> ctrl_safe False c'"
proof -
  assume safe: "ctrl_safe False c"
  obtain c1 where c1: "InjectHeavyWear 0 (WEAR_THRESHOLD + 15000) c = Some c1" "ctrl_safe False c1"
    using InjectHeavyWear_safe [OF safe] by blast
  obtain ok c2 where c2: "Write c1 0 (Some (le_bytes 0xAA55AA55AA55AA55)) 8 = Some (ok, c2)" "ctrl_safe False c2"
    using Write_safe [OF c1(2), of "Some (le_bytes 0xAA55AA55AA55AA55)" 8 0] by auto
  let ?P = "\<lambda>s :: u8 list \<times> nat \<times> ctrl. case s of (buf, failed, c) \<Rightarrow> length buf = 8 \<and> ctrl_safe False c"
  have "\<exists>s'. wear_reads i s = Some s' \<and> ?P s'" if "?P s" for i s
  proof -
    obtain buf failed c where s: "s = (buf, failed, c)" by (cases s)
    then have "length buf = 8" "ctrl_safe False c" using that by simp_all
    then obtain b dest c' where "Read c 0 (Some buf) 8 = Some (b, dest, c')" "only_counters c c'"
      "map_option length dest = Some 8"
      using Read_safe_lemma [of False c "Some buf" 8 0] by auto
    then show ?thesis using s only_counters_safe [of c c' False] \<open>ctrl_safe False c\<close> by (auto simp: wear_reads_def)
  qed
  then obtain s' where "for_loop wear_reads 0 10000 (le_bytes 0, 0, c2) = Some s'" "?P s'"
    using for_loop_inv [of ?P 0 10000 wear_reads "(le_bytes 0, 0, c2)"] c2(2) by auto
  then show ?thesis using c1(1) c2(1) by (cases s') (auto simp: wear_benchmark_def)
qed

section \<open>The harness\<close>

lemma pages_spanned_bounds:
  "pages_spanned start n \<le> n div 4096 + 2" "n \<le> 4096 * pages_spanned start n"
proof -
  have "start + n + 4095 = (start mod 4096 + n + 4095) + start div 4096 * 4096" by simp
  then have "(start + n + 4095) div 4096 = ((start mod 4096 + n + 4095) + start div 4096 * 4096) div 4096" by (rule arg_cong)
  also have "\<dots> = start div 4096 + (start mod 4096 + n + 4095) div 4096" by (rule div_mult_self1) simp
  finally have "(start + n + 4095) div 4096 = start div 4096 + (start mod 4096 + n + 4095) div 4096" .
  then have p: "0 < n \<Longrightarrow> pages_spanned start n = (start mod 4096 + n + 4095) div 4096" by (simp add: pages_spanned_def)
  have "start mod 4096 + n + 4095 \<le> n + 2 * 4096" using mod_less_divisor [of 4096 start] by linarith
  then have "(start mod 4096 + n + 4095) div 4096 \<le> (n + 2 * 4096) div 4096" by (rule div_le_mono)
  also have "\<dots> = 2 + n div 4096" by (rule div_mult_self1) simp
  finally have "(start mod 4096 + n + 4095) div 4096 \<le> 2 + n div 4096" .
  then show "pages_spanned start n \<le> n div 4096 + 2" using p by (cases "n = 0") (simp_all add: pages_spanned_def)
  have "n \<le> 4096 * ((start mod 4096 + n + 4095) div 4096)" by linarith
  then show "n \<le> 4096 * pages_spanned start n" using p by (cases "n = 0") simp_all
qed

lemma wear_slack_mono: "wear_slack k limit f \<Longrightarrow> j \<le> k \<Longrightarrow> wear_slack j limit f"
  by (fastforce simp: wear_slack_def)

text \<open>With \<open>n\<close> operations to go of at most \<open>m\<close> pages each: the reserve and the wear left suffice, and the bytes counted so far
  are those of the operations done.\<close>

definition harness_inv :: "nat \<Rightarrow> nat \<Rightarrow> nat \<Rightarrow> nat \<Rightarrow> u8 list \<times> u64 \<times> u64 \<times> ctrl \<Rightarrow> bool" where
  "harness_inv block m did n s \<longleftrightarrow> (case s of (buf, written, bytes_read, c) \<Rightarrow>
     length buf = block \<and> ctrl_ok c \<and> capacity c = 67108864 \<and>
     n * m + gc_low_watermark (meta c) \<le> free_count (meta c) \<and>
     wear_slack (n * m) (half_select_disturb_threshold (physics_cfg c)) (meta c) \<and>
     unat written + unat bytes_read = did * block \<and> unat written \<le> unat (total_physical_bytes_written (meta c)) \<and>
     unat (total_physical_bytes_written (meta c)) \<le> did * (4096 * m))"

lemma unat_add_less: "unat (a :: u64) + k < 2 ^ 64 \<Longrightarrow> unat (a + of_nat k) = unat a + k"
proof -
  assume a: "unat a + k < 2 ^ 64"
  then have "unat (of_nat k :: u64) = k" by (simp add: unat_of_nat take_bit_eq_mod unsigned_of_nat)
  then show ?thesis using a by (simp add: unat_word_ariths)
qed

lemma unat_word: "unat (w :: u64) = k \<Longrightarrow> w = of_nat k"
  by auto

lemma harness_write:
  assumes inv: "harness_inv block m did (Suc n) (buf, written, bytes_read, c)" and len: "length wbuf = block"
    and off: "unat off + block \<le> 67108864" and m: "m = block div 4096 + 2"
    and small: "Suc did * (4096 * m) < 2 ^ 63" and b: "unat (w :: u64) = block"
  shows "\<exists>c'. Write c (unat (off :: u64)) (Some wbuf) block = Some (True, c') \<and>
    harness_inv block m (Suc did) n (buf, written + w, bytes_read, c')"
proof -
  let ?o = "unat off"
  have c: "ctrl_ok c" "capacity c = 67108864" "Suc n * m + gc_low_watermark (meta c) \<le> free_count (meta c)"
    "wear_slack (Suc n * m) (half_select_disturb_threshold (physics_cfg c)) (meta c)"
    "unat written + unat bytes_read = did * block" "unat written \<le> unat (total_physical_bytes_written (meta c))"
    "unat (total_physical_bytes_written (meta c)) \<le> did * (4096 * m)" "length buf = block"
    using inv by (simp_all add: harness_inv_def)
  have p: "pages_spanned ?o block \<le> m" "block \<le> 4096 * pages_spanned ?o block"
    using pages_spanned_bounds m by simp_all
  have fit: "block \<le> length wbuf" "?o + block \<le> capacity c" using len off c(2) by simp_all
  have res: "pages_spanned ?o block + gc_low_watermark (meta c) \<le> free_count (meta c)" using c(3) p(1) by simp
  obtain c' where w: "Write c ?o (Some wbuf) block = Some (True, c')" "ctrl_ok c'"
    "free_count (meta c) = free_count (meta c') + pages_spanned ?o block"
    using Write_bytes [OF c(1) fit res] by blast
  have "wear_slack (pages_spanned ?o block + n * m) (half_select_disturb_threshold (physics_cfg c)) (meta c)"
    using p(1) by (intro wear_slack_mono [OF c(4)]) simp
  note more = Write_wear [OF c(1) fit res this w(1)]
  let ?P = "unat (total_physical_bytes_written (meta c))"
  have le: "?P + 4096 * pages_spanned ?o block \<le> Suc did * (4096 * m)" using c(7) p(1) by simp
  then have phys: "unat (total_physical_bytes_written (meta c')) = ?P + 4096 * pages_spanned ?o block"
    using small more unat_add_less [of "total_physical_bytes_written (meta c)" "4096 * pages_spanned ?o block"] by simp
  have "(2::nat) ^ 63 < 2 ^ 64" by simp
  then have "unat written + block < 2 ^ 64" using c(6) le p(2) small by linarith
  then have wr: "unat (written + w) = unat written + block" using unat_add_less [of written block] unat_word [OF b] by simp
  have "harness_inv block m (Suc did) n (buf, written + w, bytes_read, c')"
    unfolding harness_inv_def using c w more phys wr le p by simp
  then show ?thesis using w(1) by blast
qed

lemma harness_read:
  assumes inv: "harness_inv block m did (Suc n) (buf, written, bytes_read, c)"
    and off: "unat off + block \<le> 67108864" and m: "m = block div 4096 + 2"
    and small: "Suc did * (4096 * m) < 2 ^ 63" and b: "unat (w :: u64) = block"
  shows "\<exists>buf' c'. Read c (unat (off :: u64)) (Some buf) block = Some (True, Some buf', c') \<and>
    harness_inv block m (Suc did) n (buf', written, bytes_read + w, c')"
proof -
  let ?o = "unat off"
  have c: "ctrl_ok c" "capacity c = 67108864" "Suc n * m + gc_low_watermark (meta c) \<le> free_count (meta c)"
    "wear_slack (Suc n * m) (half_select_disturb_threshold (physics_cfg c)) (meta c)"
    "unat written + unat bytes_read = did * block" "unat written \<le> unat (total_physical_bytes_written (meta c))"
    "unat (total_physical_bytes_written (meta c)) \<le> did * (4096 * m)" "length buf = block"
    using inv by (simp_all add: harness_inv_def)
  have "healthy c" by (rule slack_healthy [OF wear_slack_mono [OF c(4)]]) simp
  from Read_contents [OF c(1) this] obtain buf' c' where r: "Read c ?o (Some buf) block = Some (True, Some buf', c')" "ctrl_ok c'"
    using c(2,8) off by force
  have oc: "only_counters c c'" "length buf' = block"
    using Read_safe_lemma [of False c "Some buf" block ?o] ctrl_safe_weaken [OF ctrl_ok_safe [OF c(1)]] c(8) r(1) by auto
  have "did * block \<le> did * (4096 * m)" "Suc did * block \<le> Suc did * (4096 * m)" using m by (intro mult_le_mono; simp)+
  then have "unat bytes_read + block < 2 ^ 64" using c(5) small by simp
  then have "unat (bytes_read + w) = unat bytes_read + block" using unat_add_less [of bytes_read block] unat_word [OF b] by simp
  moreover have "wear_slack (n * m) (half_select_disturb_threshold (physics_cfg c)) (meta c)"
    by (rule wear_slack_mono [OF c(4)]) simp
  ultimately have "harness_inv block m (Suc did) n (buf', written, bytes_read + w, c')"
    unfolding harness_inv_def using c r(2) oc by (simp add: only_counters_def)
  then show ?thesis using r(1) by blast
qed

lemma harness_loop_ok:
  assumes "harness_inv block m did n s" "length wbuf = block" "m = block div 4096 + 2" "(did + n) * (4096 * m) < 2 ^ 63"
    and "unat w = block" "\<And>j. i \<le> j \<Longrightarrow> j < i + n \<Longrightarrow> \<exists>off. harness_offset rnd draw cap w j = Some off \<and> unat off + block \<le> 67108864"
  shows "\<exists>s'. harness_loop rnd pct draw op cap w wbuf i n s = Some (Inr s') \<and> harness_inv block m (did + n) 0 s'"
  using assms
proof (induction n arbitrary: i did s)
  case (Suc n)
  obtain buf written bytes_read c where s: "s = (buf, written, bytes_read, c)" by (cases s)
  obtain off where off: "harness_offset rnd draw cap w i = Some off" "unat off + block \<le> 67108864"
    using Suc.prems(6) [of i] by auto
  have "Suc did * (4096 * m) \<le> (did + Suc n) * (4096 * m)" by (intro mult_le_mono1) simp
  then have small: "Suc did * (4096 * m) < 2 ^ 63" using Suc.prems(4) by linarith
  have rest: "(Suc did + n) * (4096 * m) < 2 ^ 63" using Suc.prems(4) by simp
  have offs: "\<exists>off. harness_offset rnd draw cap w j = Some off \<and> unat off + block \<le> 67108864" if "Suc i \<le> j" "j < Suc i + n" for j
    using Suc.prems(6) [of j] that by simp
  show ?case
  proof (cases "op i \<le> pct")
    case True
    obtain buf' c' where r: "Read c (unat off) (Some buf) block = Some (True, Some buf', c')"
      "harness_inv block m (Suc did) n (buf', written, bytes_read + w, c')"
      using harness_read [OF Suc.prems(1) [unfolded s] off(2) Suc.prems(3) small Suc.prems(5)] by blast
    from Suc.IH [OF r(2) Suc.prems(2,3) rest Suc.prems(5) offs] show ?thesis
      using True off(1) r(1) Suc.prems(5) s by simp
  next
    case False
    obtain c' where r: "Write c (unat off) (Some wbuf) block = Some (True, c')"
      "harness_inv block m (Suc did) n (buf, written + w, bytes_read, c')"
      using harness_write [OF Suc.prems(1) [unfolded s] Suc.prems(2) off(2) Suc.prems(3) small Suc.prems(5)] by blast
    from Suc.IH [OF r(2) Suc.prems(2,3) rest Suc.prems(5) offs] show ?thesis
      using False off(1) r(1) Suc.prems(5) s by simp
  qed
qed simp

definition drive_64MiB :: ctrl where
  "drive_64MiB = FTJController 67108864 8"

lemma good_64MiB: "good_capacity 67108864"
  by (simp add: good_capacity_def geom)

lemma drive_64MiB_facts:
  "ctrl_ok drive_64MiB" "capacity drive_64MiB = 67108864" "free_count (meta drive_64MiB) = 16384"
  "gc_low_watermark (meta drive_64MiB) = 819" "total_physical_bytes_written (meta drive_64MiB) = 0"
  "k \<le> 50000 \<Longrightarrow> wear_slack k (half_select_disturb_threshold (physics_cfg drive_64MiB)) (meta drive_64MiB)"
proof -
  show "ctrl_ok drive_64MiB" using FTJController_ok [OF good_64MiB] by (simp add: drive_64MiB_def)
  have pages: "page_count (ftl_init 67108864) = 16384" by (simp add: ftl_init_page_count)
  have m: "meta drive_64MiB = ftl_init 67108864" "physics_cfg drive_64MiB = default_cfg"
    by (simp_all add: drive_64MiB_def FTJController_def)
  show "capacity drive_64MiB = 67108864" by (simp add: drive_64MiB_def FTJController_def)
  show "free_count (meta drive_64MiB) = 16384" by (simp add: m free_count_init pages)
  have "gc_low_watermark (ftl_init 67108864) = max 1 (page_count (ftl_init 67108864) div 20)"
    "total_physical_bytes_written (ftl_init 67108864) = 0"
    "page_writes (ftl_init 67108864) = replicate (page_count (ftl_init 67108864)) 0"
    "page_disturbs (ftl_init 67108864) = replicate (page_count (ftl_init 67108864)) 0"
    by (simp_all only: ftl_init_def Let_def ftl.select_convs)
  note f = this [unfolded pages]
  show "gc_low_watermark (meta drive_64MiB) = 819" "total_physical_bytes_written (meta drive_64MiB) = 0" by (simp_all add: m f)
  show "wear_slack k (half_select_disturb_threshold (physics_cfg drive_64MiB)) (meta drive_64MiB)" if "k \<le> 50000"
    using that by (simp add: wear_slack_def m f WEAR_THRESHOLD_def default_cfg_def set_replicate_conv_if)
qed

text \<open>C36: the write-amplification harness: while the reserve of free pages lasts, no operation fails, every byte asked for is
  counted once as written or read, and the drive has written at least the bytes it was asked to write and at
  most the pages they can touch.\<close>

theorem waf_harness_succeeds:
  assumes "0 < unat block" "unat block < 67108864" "\<forall>i < ops. unat (draw i) + unat block \<le> 67108864"
    and "ops * (unat block div 4096 + 2) \<le> 15565"
  shows "\<exists>w r p f. waf_harness ops block pct rnd draw op = Some (Inr (w, r, p, f)) \<and>
    unat w + unat r = ops * unat block \<and> unat w \<le> unat p \<and> (0 < w \<longrightarrow> 1 \<le> f) \<and>
    unat p \<le> 4096 * (ops * (unat block div 4096 + 2))"
proof -
  let ?b = "unat block" and ?m = "unat block div 4096 + 2"
  have inv: "harness_inv ?b ?m 0 ops (replicate ?b 0, 0, 0, drive_64MiB)"
    using assms(4) by (simp add: harness_inv_def drive_64MiB_facts)
  have "(0 + ops) * (4096 * ?m) = 4096 * (ops * ?m)" by (simp add: algebra_simps)
  also have "\<dots> \<le> 4096 * 15565" using assms(4) by (intro mult_le_mono) simp_all
  finally have small: "(0 + ops) * (4096 * ?m) < 2 ^ 63" by simp
  have offs: "\<exists>off. harness_offset rnd draw 67108864 block j = Some off \<and> unat off + ?b \<le> 67108864" if "j < ops" for j
  proof (cases rnd)
    case True
    then show ?thesis using assms(3) that by (simp add: harness_offset_def)
  next
    case False
    have d: "unat (67108864 - block) = 67108864 - ?b" using assms(2) by (simp add: unat_sub word_le_nat_alt)
    then have "67108864 - block \<noteq> 0" using assms(2) by auto
    moreover have "unat ((of_nat j * block) mod (67108864 - block)) < 67108864 - ?b"
      unfolding unat_mod d using assms(2) by (intro mod_less_divisor) simp
    ultimately show ?thesis using False by (auto simp: harness_offset_def seq_offset_def)
  qed
  obtain s' where s': "harness_loop rnd pct draw op 67108864 block (replicate ?b 0x5A) 0 ops (replicate ?b 0, 0, 0, drive_64MiB) = Some (Inr s')"
    "harness_inv ?b ?m (0 + ops) 0 s'"
    using harness_loop_ok [OF inv _ _ small, where wbuf = "replicate ?b 0x5A" and w = block and i = 0 and rnd = rnd
        and draw = draw and cap = 67108864 and pct = pct and op = op] offs by auto
  obtain buf w r c where s: "s' = (buf, w, r, c)" by (cases s')
  define p where "p = total_physical_bytes_written (meta c)"
  define f where "f = (if p > 0 \<and> w > 0 then real (unat p) / real (unat w) else 0)"
  have h: "unat w + unat r = ops * ?b" "unat w \<le> unat p" "unat p \<le> ops * (4096 * ?m)"
    using s'(2) unfolding s harness_inv_def p_def by simp_all
  have "waf_harness ops block pct rnd draw op = Some (Inr (w, r, p, f))"
    using s'(1) by (simp add: waf_harness_def drive_64MiB_def [symmetric] s GetTotalPhysicalBytesWritten_def p_def f_def Let_def)
  moreover have "1 \<le> f" if "0 < w"
  proof -
    have "0 < unat w" using that by (simp add: word_less_nat_alt)
    then have "0 < unat p" using h(2) by linarith
    then have "0 < p" by (simp add: word_less_nat_alt)
    have "real (unat w) \<le> real (unat p)" using h(2) by (rule of_nat_mono)
    then have "1 \<le> real (unat p) / real (unat w)" using \<open>0 < unat w\<close> by (simp only: le_divide_eq_1_pos of_nat_0_less_iff)
    then show ?thesis using that \<open>0 < p\<close> by (simp only: f_def simp_thms if_True)
  qed
  moreover have "unat p \<le> 4096 * (ops * ?m)" using h(3) by (simp add: algebra_simps)
  ultimately show ?thesis using h(1,2) by blast
qed

theorem waf_harness_succeeds_witness:
  "\<exists>w r p f. waf_harness 5 6000 20 False (\<lambda>i. 0) (\<lambda>i. if i = 2 then 1 else 90) = Some (Inr (w, r, p, f)) \<and> unat w + unat r = 30000"
proof -
  have h: "0 < unat (6000 :: u64)" "unat (6000 :: u64) < 67108864" "\<forall>i < 5 :: nat. unat (0 :: u64) + unat (6000 :: u64) \<le> 67108864"
    "5 * (unat (6000 :: u64) div 4096 + 2) \<le> 15565" by simp_all
  show ?thesis using waf_harness_succeeds [where draw = "\<lambda>i. 0", OF h, of 20 False "\<lambda>i. if i = 2 then 1 else 90"] by auto
qed

text \<open>A block of the size of the drive: sequential offsets divide by zero.\<close>

lemma harness_whole_drive_undefined: "waf_harness (Suc ops) 67108864 pct False draw op = None"
  by (simp add: waf_harness_def harness_offset_def seq_offset_def)

text \<open>The benchmark loops have no undefined behaviour on the drive, whatever is drawn: every loop runs to its end, leaves
  the drive in a safe state, and keeps the length of its buffer.\<close>

lemma benchmarks_defined:
  assumes "ctrl_safe False c" "cap \<noteq> 256" "cap \<noteq> 4096"
  shows "\<exists>buf c'. random_writes draw c = Some (buf, c') \<and> length buf = 4096 \<and> ctrl_safe False c'"
    "\<exists>buf c'. sequential_rw cap c = Some (buf, c') \<and> length buf = 256 \<and> ctrl_safe False c'"
    "\<exists>buf c'. mixed_rw draw op c = Some (buf, c') \<and> length buf = 4096 \<and> ctrl_safe False c'"
    "\<exists>buf c'. nand_comparison_ftj cap c = Some (buf, c') \<and> length buf = 4096 \<and> ctrl_safe False c'"
    "\<exists>failed c'. wear_benchmark c = Some (failed, c') \<and> ctrl_safe False c'"
    "\<exists>t n c'. crossbar_stress cap c = Some (t, n, c') \<and> ctrl_safe False c'"
  using random_writes_ok [OF assms(1), of draw] sequential_rw_ok [OF assms(1,2)] mixed_rw_ok [OF assms(1), of draw op]
    nand_comparison_ftj_ok [OF assms(1,3)] wear_benchmark_ok [OF assms(1)] crossbar_stress_ok [OF assms(1,3)]
  by (simp_all add: io_ok_def) blast+

section \<open>The NAND model\<close>

text \<open>Page by page it erases once every 64 page writes.\<close>

lemma nand_pages:
  assumes "k + n < 2 ^ 64"
  shows "for_loop (\<lambda>i x. Some (NandWrite (off i) 4096 x)) i n
      \<lparr>total_erases = of_nat (k div 64), nand_writes = of_nat k, nand_reads = r,
       total_latency_ns = of_nat (k * 100000 + k div 64 * 3000000)\<rparr> =
    Some \<lparr>total_erases = of_nat ((k + n) div 64), nand_writes = of_nat (k + n), nand_reads = r,
       total_latency_ns = of_nat ((k + n) * 100000 + (k + n) div 64 * 3000000)\<rparr>"
  using assms
proof (induction n arbitrary: i k)
  case (Suc n)
  have "unat (of_nat (Suc k) :: u64) = Suc k" using Suc.prems by (simp only: unat_of_nat len_num1 len_bit0) simp
  then have "(of_nat (Suc k) :: u64) mod 64 = 0 \<longleftrightarrow> Suc k mod 64 = 0"
    by (simp add: word_unat_eq_iff unat_mod del: of_nat_Suc)
  moreover have "Suc k div 64 = (if Suc k mod 64 = 0 then Suc (k div 64) else k div 64)" by (simp add: div_Suc)
  moreover have "(of_nat (Suc k) :: u64) = of_nat k + 1"
    "(of_nat (k * 100000 + e * 3000000 + 100000) :: u64) = of_nat (k * 100000 + e * 3000000) + 100000"
    "(of_nat (Suc e) :: u64) = of_nat e + 1"
    "(of_nat (Suc k * 100000 + Suc e * 3000000) :: u64) = of_nat (k * 100000 + e * 3000000) + 100000 + 3000000"
    "(of_nat (Suc k * 100000 + e * 3000000) :: u64) = of_nat (k * 100000 + e * 3000000) + 100000" for e
    by (simp_all add: algebra_simps)
  ultimately have "NandWrite (off i) 4096 \<lparr>total_erases = of_nat (k div 64), nand_writes = of_nat k, nand_reads = r,
       total_latency_ns = of_nat (k * 100000 + k div 64 * 3000000)\<rparr> =
    \<lparr>total_erases = of_nat (Suc k div 64), nand_writes = of_nat (Suc k), nand_reads = r,
       total_latency_ns = of_nat (Suc k * 100000 + Suc k div 64 * 3000000)\<rparr>"
    by (simp add: NandWrite_def Let_def WRITE_LATENCY_NS_def ERASE_LATENCY_NS_def del: of_nat_Suc of_nat_add of_nat_mult mult_Suc)
  then show ?case using Suc.IH [of "Suc k" "Suc i"] Suc.prems by simp
qed simp

text \<open>The figures of the comparison with NAND are those of 20000 page writes: 312 erases and 2936 milliseconds.\<close>

lemma nand_comparison_totals:
  assumes "engine_capacity \<noteq> 4096"
  shows "nand_comparison engine_capacity n =
     Some \<lparr>total_erases = 312, nand_writes = 20000, nand_reads = 0, total_latency_ns = 2936000000\<rparr>"
proof -
  have "NandReset n = \<lparr>total_erases = of_nat (0 div 64), nand_writes = of_nat 0, nand_reads = 0,
      total_latency_ns = of_nat (0 * 100000 + 0 div 64 * 3000000)\<rparr>" by (cases n) (simp add: NandReset_def)
  then show ?thesis
    using nand_pages [of 0 20000 "\<lambda>i. of_nat i * 4096 mod (engine_capacity - 4096)" 0 0] assms by (simp add: nand_comparison_def)
qed

text \<open>The erases are counted on the total after a call: two calls of 65 pages pass two multiples of 64 without one, and an
  empty call at a multiple adds one.\<close>

lemma nand_multi_page_erases:
  "total_erases (NandWrite 0 266240 (NandWrite 0 266240 (NandReset n))) = 0"
  "total_erases (NandWrite 0 0 (NandReset n)) = 1"
  by (simp_all add: NandWrite_def NandReset_def Let_def)

end
