(* ===== verification/Gc_Fill.thy ===== *)
theory Gc_Fill
  imports Gc_Idle Workloads
begin

text \<open>
  The collector at work on a drive. Collecting a block of used pages keeps the contents of every logical page and
  gains exactly the stale pages of the block. The second part is
  what happens when a new drive is filled from its first page to its last. Every page goes to the next
  page of the free lists until the free pages fall below the watermark; then the collector prefers a block
  that is free already and puts its pages on the free list again, four times over. The writes that follow
  take the same physical page twice, and two logical pages share it.
\<close>

section \<open>Collecting a block of used pages\<close>

text \<open>C3: a cycle of the collector on a block none of whose pages is on the free lists: it is defined, every byte of the drive
  keeps its value, the mapping stays consistent, and exactly the stale pages of the block become free, even when
  there is no room to move the valid ones.\<close>

theorem collection_keeps_contents:
  assumes "ftl_inv f" "store_inv k (page_count f) st" "b < num_blocks f" "set (block_pages f b) \<inter> set (free_pages f) = {}"
  shows "\<exists>f' st'. gc_block copy_page b (f, st) = Some (f', st') \<and> ftl_inv f' \<and> store_inv k (page_count f) st' \<and>
    (\<forall>a < page_count f * 4096. dev_byte f' st' a = dev_byte f st a) \<and>
    free_count f' = free_count f + length (filter (\<lambda>p. \<not> phys_valid f ! p) (block_pages f b))"
proof -
  obtain f' st' where g: "gc_block copy_page b (f, st) = Some (f', st')" "ftl_inv f'" "store_inv k (page_count f) st'"
    "same_view page_bytes f st f' st'" "free_count f' = free_count f + invalid_in f (block_pages f b)"
    using buf.gc_block_refines [OF assms] by blast
  have "dev_byte f' st' a = dev_byte f st a" if "a < page_count f * 4096" for a
  proof -
    have "a div 4096 < page_count f" using that by (intro less_mult_imp_div_less)
    then show ?thesis using g(4) by (simp add: dev_byte_def same_view_def)
  qed
  then show ?thesis using g by (auto simp: invalid_in_def)
qed

text \<open>One page in use and one stale page, with no free page left.\<close>

definition full_ftl :: ftl where
  "full_ftl = \<lparr>page_count = 2, num_blocks = 1, l2p_map = [Some 0, None], phys_valid = [True, False],
     phys_owner_lba = [Some 0, None], phys_block = [0, 0], block_valid_count = [1], free_hot = [], free_cold = [],
     lba_hot_counters = [1, 0], gc_low_watermark = 1, gc_target_free = 1, page_writes = [1, 1], page_disturbs = [0, 0],
     total_half_select_disturbs = 0, total_physical_bytes_written = 8192\<rparr>"

theorem collection_keeps_contents_witness:
  "\<exists>f' st'. gc_block copy_page 0 (full_ftl, \<lparr>memory_buffer = replicate 8192 7, ecc_buffer = replicate 1024 0\<rparr>) = Some (f', st') \<and>
     free_count full_ftl = 0 \<and> free_count f' = 1"
proof -
  let ?st = "\<lparr>memory_buffer = replicate 8192 7, ecc_buffer = replicate 1024 0\<rparr> :: store"
  have two: "(\<forall>p < 2 :: nat. P p) \<longleftrightarrow> P 0 \<and> P 1" for P by (auto simp: less_2_cases_iff)
  have inv: "ftl_inv full_ftl"
    by (auto simp: ftl_inv_def shape_def full_ftl_def free_pages_def two less_2_cases_iff upt_rec)
  have st: "store_inv False (page_count full_ftl) ?st" by (simp add: store_inv_def sized_def full_ftl_def)
  have pages: "block_pages full_ftl 0 = [0, 1]" by (simp add: block_pages_def full_ftl_def PAGES_PER_BLOCK_def upt_rec)
  have "0 < num_blocks full_ftl" "set (block_pages full_ftl 0) \<inter> set (free_pages full_ftl) = {}"
    by (simp_all add: full_ftl_def free_pages_def)
  from collection_keeps_contents [OF inv st this] obtain f' st' where
    "gc_block copy_page 0 (full_ftl, ?st) = Some (f', st')"
    "free_count f' = free_count full_ftl + length (filter (\<lambda>p. \<not> phys_valid full_ftl ! p) [0, 1])" unfolding pages by blast
  moreover have "free_count full_ftl = 0" by (simp add: full_ftl_def free_count_def)
  moreover have "length (filter (\<lambda>p. \<not> phys_valid full_ftl ! p) [0, 1]) = 1" by (simp add: full_ftl_def)
  ultimately show ?thesis by simp
qed

section \<open>Writing a page for the first time\<close>

definition next_free :: "ftl \<Rightarrow> nat" where
  "next_free f = (if free_cold f = [] then last (free_hot f) else last (free_cold f))"

definition fresh_page :: "ftl \<Rightarrow> nat \<Rightarrow> bool" where
  "fresh_page f lp \<longleftrightarrow> lp < page_count f \<and> l2p_map f ! lp = None \<and> lba_hot_counters f ! lp = 0"

definition placed :: "ftl \<Rightarrow> nat \<Rightarrow> ftl \<Rightarrow> bool" where
  "placed f lp f' \<longleftrightarrow> same_geom f f' \<and> shape f' \<and> l2p_map f' = (l2p_map f)[lp := Some (next_free f)] \<and>
     phys_valid f' = (phys_valid f)[next_free f := True] \<and>
     phys_owner_lba f' = (phys_owner_lba f)[next_free f := Some lp] \<and>
     lba_hot_counters f' = (lba_hot_counters f)[lp := 1] \<and>
     free_cold f' = butlast (free_cold f) \<and>
     free_hot f' = (if free_cold f = [] then butlast (free_hot f) else free_hot f) \<and>
     (counts_ok f \<longrightarrow> \<not> phys_valid f ! next_free f \<longrightarrow> counts_ok f')"

lemma alloc_next_free:
  assumes "free_pages f \<noteq> []"
  shows "AllocatePhysicalPage f False = (Some (next_free f), f\<lparr>free_cold := butlast (free_cold f),
    free_hot := (if free_cold f = [] then butlast (free_hot f) else free_hot f)\<rparr>)"
  using assms by (auto simp: AllocatePhysicalPage_def pop_cold_def pop_hot_def next_free_def free_pages_def)

lemma write_step_fresh:
  assumes "shape f" "fresh_page f lp" "free_pages f \<noteq> []" "write_step copy put tr lp (f, m) = Some (ok, f', m')"
  shows "ok \<and> placed f lp f'"
proof -
  define f1 where "f1 = f\<lparr>lba_hot_counters := (lba_hot_counters f)[lp := 1]\<rparr>"
  have lp: "lp < page_count f" "l2p_map f ! lp = None" "lba_hot_counters f ! lp = 0"
    and len: "length (lba_hot_counters f) = page_count f" "length (l2p_map f) = page_count f"
    using assms(1,2) by (simp_all add: fresh_page_def shape_def)
  have "min UINT32_MAX 1 = 1" by (simp add: UINT32_MAX_def min_def word_le_nat_alt)
  then have b: "bump_hot f lp = f1" using lp len by (simp add: bump_hot_def f1_def)
  have "\<not> HOT_THRESHOLD \<le> 1" by (simp add: HOT_THRESHOLD_def word_le_nat_alt)
  then have cold: "prefers_hot f1 lp = False" using lp len by (simp add: prefers_hot_def f1_def)
  have sh1: "shape f1" using bump_hot_shape [OF assms(1), of lp] b by simp
  have free: "free_pages f1 \<noteq> []" "next_free f1 = next_free f" using assms(3) by (simp_all add: f1_def free_pages_def next_free_def)
  define f2 where "f2 = f1\<lparr>free_cold := butlast (free_cold f1),
    free_hot := (if free_cold f1 = [] then butlast (free_hot f1) else free_hot f1)\<rparr>"
  have al: "AllocatePhysicalPage f1 False = (Some (next_free f), f2)" using alloc_next_free [OF free(1)] free(2) by (simp add: f2_def)
  have s2: "shape f2" "next_free f < page_count f" using alloc_shape [OF sh1 al] by (simp_all add: f1_def)
  have old: "(if lp < length (l2p_map f2) then l2p_map f2 ! lp else None) = None"
    using lp by (simp add: f2_def f1_def)
  have pc2: "page_count f2 = page_count f" by (simp add: f2_def f1_def)
  from assms(4) obtain m3 f3 where c: "commit_write tr f2 lp (next_free f) None = Some f3" "ok" "f' = f3"
    unfolding write_step_def by (auto simp: b cold alloc_or_gc_def al old Let_def split: Option.bind_splits)
  then obtain f4 where f4: "map_page f2 lp (next_free f) = Some f4" "disturb_neighbor tr f4 (next_free f) = Some f'"
    by (auto simp: commit_write_def split: Option.bind_splits)
  note mp = map_page_eq [OF s2(1), of lp "next_free f", unfolded pc2, OF lp(1) s2(2)]
  have s4: "shape f4" "same_geom f2 f4" using map_page_shape [OF s2(1) _ _ f4(1)] pc2 lp(1) s2(2) by simp_all
  obtain d t where f': "f' = f4\<lparr>page_disturbs := d, total_half_select_disturbs := t\<rparr>"
    using disturb_neighbor_eq [OF s4(1), of tr "next_free f"] f4(2) by auto
  have s': "shape f'" using disturb_neighbor_shape [OF s4(1) f4(2)] by simp
  have "counts_ok f'" if "counts_ok f" "\<not> phys_valid f ! next_free f"
  proof -
    have "counts_ok f2" "\<not> phys_valid f2 ! next_free f" using that by (simp_all add: f2_def f1_def counts_ok_def valid_in_def)
    then have "counts_ok f4" using map_page_counts [OF s2(1) _ _ _ _ f4(1)] pc2 lp(1) s2(2) by simp
    then show ?thesis by (simp add: f' counts_ok_def valid_in_def)
  qed
  moreover have "same_geom f f'" using s4(2) by (simp add: f' f2_def f1_def same_geom_def)
  moreover have "f4 = f2\<lparr>l2p_map := (l2p_map f2)[lp := Some (next_free f)],
      phys_valid := (phys_valid f2)[next_free f := True],
      phys_owner_lba := (phys_owner_lba f2)[next_free f := Some lp],
      block_valid_count := (block_valid_count f2)[next_free f div 256 := block_valid_count f2 ! (next_free f div 256) + 1],
      page_writes := (page_writes f2)[next_free f := page_writes f2 ! next_free f + 1],
      total_physical_bytes_written := total_physical_bytes_written f2 + of_nat PAGE_SIZE\<rparr>"
    using mp f4(1) by simp
  ultimately show ?thesis using s' c(2) by (auto simp: placed_def f' f2_def f1_def)
qed

section \<open>Collecting a block that is free\<close>

text \<open>A block of the hot zone without valid pages and without owners: collecting it only puts its pages on the free list.\<close>

definition free_block :: "ftl \<Rightarrow> nat \<Rightarrow> bool" where
  "free_block f b \<longleftrightarrow> shape f \<and> counts_ok f \<and> b < num_blocks f div 5 \<and> valid_in f b = {} \<and>
     (\<forall>p \<in> set (block_pages f b). phys_owner_lba f ! p = None)"

lemma free_block_more: "free_block f b \<Longrightarrow> set xs \<subseteq> {..<page_count f} \<Longrightarrow> free_block (f\<lparr>free_hot := xs\<rparr>) b"
  unfolding free_block_def by (auto simp: shape_simps counts_ok_def valid_in_def block_pages_def)

lemma erase_free:
  assumes "\<forall>p \<in> set ps. p < page_count f \<and> \<not> phys_valid f ! p \<and> phys_owner_lba f ! p = None \<and> p div 256 < num_blocks f div 5"
  shows "shape f \<Longrightarrow> erase_pages ps f = Some (f\<lparr>free_hot := free_hot f @ ps\<rparr>)"
  using assms
proof (induction ps arbitrary: f)
  case (Cons p ps)
  have p: "p < page_count f" "\<not> phys_valid f ! p" "phys_owner_lba f ! p = None" "p div 256 < num_blocks f div 5"
    using Cons.prems(2) by simp_all
  have len: "length (phys_valid f) = page_count f" "length (phys_owner_lba f) = page_count f"
    using Cons.prems(1) by (simp_all add: shape_def)
  have same: "(phys_valid f)[p := False] = phys_valid f" "(phys_owner_lba f)[p := None] = phys_owner_lba f"
    using p(2,3) list_update_id [of "phys_valid f" p] list_update_id [of "phys_owner_lba f" p] by simp_all
  have pb: "rd (phys_block f) p = Some (p div 256)"
    using phys_block_nth [OF Cons.prems(1) p(1)] Cons.prems(1) p(1) by (simp add: shape_def access)
  have step: "erase_page p f = Some (f\<lparr>free_hot := free_hot f @ [p]\<rparr>)"
    using p len pb by (simp add: erase_page_def access same Let_def)
  have sh: "shape (f\<lparr>free_hot := free_hot f @ [p]\<rparr>)" using Cons.prems(1) p(1) by (auto simp: shape_simps)
  show ?case using Cons.IH [OF sh] Cons.prems(2) step by simp
qed simp

lemma gc_block_free:
  assumes "free_block f b"
  shows "gc_block copy_page b (f, m) = Some (f\<lparr>free_hot := free_hot f @ block_pages f b\<rparr>, m)"
proof -
  let ?ps = "block_pages f b"
  have sh: "shape f" and b: "b < num_blocks f" "b < num_blocks f div 5" and cn: "block_valid_count f ! b = 0"
    using assms by (auto simp: free_block_def counts_ok_def)
  have inv: "\<forall>p \<in> set ?ps. p < page_count f \<and> \<not> phys_valid f ! p"
    using assms by (auto simp: free_block_def block_pages_iff valid_in_def)
  have "gc_move_pages copy_page ?ps (f, m) = Some (f, m)" by (rule gc_move_none [OF sh inv])
  moreover have "\<forall>p \<in> set ?ps. p < page_count f \<and> \<not> phys_valid f ! p \<and> phys_owner_lba f ! p = None \<and> p div 256 < num_blocks f div 5"
    using inv assms b(2) by (auto simp: free_block_def block_pages_iff)
  then have "erase_pages ?ps f = Some (f\<lparr>free_hot := free_hot f @ ?ps\<rparr>)" using sh by (rule erase_free)
  moreover have "wr (block_valid_count f) b 0 = Some (block_valid_count f)"
    using sh b cn list_update_id [of "block_valid_count f" b] by (simp add: shape_def access)
  ultimately show ?thesis by (simp add: gc_block_def)
qed

text \<open>The choice of the block does not look at the free lists, so the collector takes the same block again.\<close>

lemma hot_score_free_lists: "hot_score (f\<lparr>free_hot := xs\<rparr>) ps z = hot_score f ps z"
  by (induction ps arbitrary: z) (auto split: option.split intro!: bind_option_cong)

lemma pick_block_free_lists: "pick_block (f\<lparr>free_hot := xs\<rparr>) bs best c = pick_block f bs best c"
proof (induction bs arbitrary: best c)
  case (Cons b bs)
  have "block_pages (f\<lparr>free_hot := xs\<rparr>) b = block_pages f b" by (simp add: block_pages_def)
  then show ?case by (simp add: hot_score_free_lists Cons Let_def cong: if_cong)
qed simp

lemma collect_again:
  assumes "free_block f b" "gc_candidate f = Some (Some b)" "free_cold f = []" "set xs \<subseteq> {..<page_count f}" "block_pages f b \<noteq> []"
  shows "RunGC copy_page t (f\<lparr>free_hot := xs\<rparr>, m) =
    (if t \<le> length xs then Some (f\<lparr>free_hot := xs\<rparr>, m)
     else if t \<le> length xs + length (block_pages f b) then Some (f\<lparr>free_hot := xs @ block_pages f b\<rparr>, m)
     else RunGC copy_page t (f\<lparr>free_hot := xs @ block_pages f b\<rparr>, m))"
proof -
  have c: "gc_candidate (f\<lparr>free_hot := xs\<rparr>) = Some (Some b)"
    using assms(2) by (simp add: gc_candidate_def pick_block_free_lists)
  have "block_pages (f\<lparr>free_hot := xs\<rparr>) b = block_pages f b" by (simp add: block_pages_def)
  then have g: "gc_block copy_page b (f\<lparr>free_hot := xs\<rparr>, m) = Some (f\<lparr>free_hot := xs @ block_pages f b\<rparr>, m)"
    using gc_block_free [OF free_block_more [OF assms(1,4)], of m] by simp
  have n: "free_count (f\<lparr>free_hot := zs\<rparr>) = length zs" for zs using assms(3) by (simp add: free_count_def)
  show ?thesis using assms(5) by (subst RunGC.simps) (simp add: c g n)
qed

section \<open>Filling the drive up to the watermark\<close>

text \<open>The 64 MiB drive after its first \<open>k\<close> logical pages were written once, in order: the pages of the cold zone
  (3072 and up) are used first, then those of the hot zone.\<close>

definition filled :: "nat \<Rightarrow> ftl \<Rightarrow> bool" where
  "filled k f \<longleftrightarrow> shape f \<and> counts_ok f \<and> page_count f = 16384 \<and> num_blocks f = 64 \<and>
     gc_low_watermark f = 819 \<and> gc_target_free f = 1638 \<and>
     free_cold f = rev [3072 + k..<16384] \<and> free_hot f = rev [k - 13312..<3072] \<and>
     (\<forall>lp. k \<le> lp \<longrightarrow> lp < 16384 \<longrightarrow> fresh_page f lp) \<and>
     (\<forall>x \<in> set (lba_hot_counters f). unat x < 2 ^ 22) \<and>
     (\<forall>p \<in> set (free_pages f). \<not> phys_valid f ! p \<and> phys_owner_lba f ! p = None) \<and>
     (\<forall>p < 16384. p \<notin> set (free_pages f) \<longrightarrow> phys_valid f ! p)"

lemma filledD:
  assumes "filled k f"
  shows "shape f" "counts_ok f" "page_count f = 16384" "num_blocks f = 64"
    "\<forall>x \<in> set (lba_hot_counters f). unat x < 2 ^ 22"
    "\<forall>p \<in> set (free_pages f). \<not> phys_valid f ! p \<and> phys_owner_lba f ! p = None"
    "\<forall>p < 16384. p \<notin> set (free_pages f) \<longrightarrow> phys_valid f ! p"
    "set (free_hot f) = {k - 13312..<3072}" "set (free_cold f) = {3072 + k..<16384}"
    "length (free_hot f) = 3072 - (k - 13312)" "13312 \<le> k \<Longrightarrow> free_cold f = []"
    "k \<le> lp \<Longrightarrow> lp < 16384 \<Longrightarrow> fresh_page f lp" "gc_low_watermark f = 819" "gc_target_free f = 1638"
  using assms by (simp_all add: filled_def)

lemma filled_free_count: "filled k f \<Longrightarrow> k \<le> 16384 \<Longrightarrow> free_count f = 16384 - k"
  by (simp add: filled_def free_count_def)

lemma last_rev_upt: "a < b \<Longrightarrow> last (rev [a..<b]) = a"
  by (simp add: last_rev)

lemma butlast_rev_upt: "butlast (rev [a..<b]) = rev [Suc a..<b]"
  by (simp add: butlast_rev)

lemma filled_next:
  assumes "filled k f" "k < 16384"
  shows "next_free f \<in> set (free_pages f)" "free_pages f \<noteq> []"
    and "set (free_pages f) = insert (next_free f) ({Suc k - 13312..<3072} \<union> {3072 + Suc k..<16384})"
    and "next_free f \<notin> {Suc k - 13312..<3072} \<union> {3072 + Suc k..<16384}"
proof -
  have l: "free_cold f = rev [3072 + k..<16384]" "free_hot f = rev [k - 13312..<3072]" using assms(1) by (simp_all add: filled_def)
  have n: "next_free f = (if k < 13312 then 3072 + k else k - 13312)"
    using assms(2) by (simp add: next_free_def l last_rev_upt)
  have s: "set (free_pages f) = {k - 13312..<3072} \<union> {3072 + k..<16384}" by (auto simp: free_pages_def l)
  show "next_free f \<in> set (free_pages f)" unfolding s n using assms(2) by auto
  then show "free_pages f \<noteq> []" by auto
  show "set (free_pages f) = insert (next_free f) ({Suc k - 13312..<3072} \<union> {3072 + Suc k..<16384})"
    unfolding s n using assms(2) by auto
  show "next_free f \<notin> {Suc k - 13312..<3072} \<union> {3072 + Suc k..<16384}" unfolding n using assms(2) by auto
qed

lemma filled_step:
  assumes "filled k f" "k < 16384" "placed f k f'"
  shows "filled (Suc k) f'"
proof -
  note n = filled_next [OF assms(1,2)]
  have F: "shape f" "counts_ok f" "page_count f = 16384" "free_cold f = rev [3072 + k..<16384]" "free_hot f = rev [k - 13312..<3072]"
    "\<And>lp. k \<le> lp \<Longrightarrow> lp < 16384 \<Longrightarrow> fresh_page f lp" "\<forall>x \<in> set (lba_hot_counters f). unat x < 2 ^ 22"
    "\<forall>p \<in> set (free_pages f). \<not> phys_valid f ! p \<and> phys_owner_lba f ! p = None"
    "\<forall>p < 16384. p \<notin> set (free_pages f) \<longrightarrow> phys_valid f ! p"
    using assms(1) by (simp_all add: filled_def)
  have len: "length (phys_valid f) = 16384" "length (phys_owner_lba f) = 16384" "length (l2p_map f) = 16384" "length (lba_hot_counters f) = 16384"
    using F(1,3) by (simp_all add: shape_def)
  have P: "same_geom f f'" "shape f'" "l2p_map f' = (l2p_map f)[k := Some (next_free f)]" "phys_valid f' = (phys_valid f)[next_free f := True]"
    "phys_owner_lba f' = (phys_owner_lba f)[next_free f := Some k]" "lba_hot_counters f' = (lba_hot_counters f)[k := 1]"
    "free_cold f' = butlast (free_cold f)" "free_hot f' = (if free_cold f = [] then butlast (free_hot f) else free_hot f)"
    using assms(3) by (simp_all add: placed_def)
  have cold: "free_cold f' = rev [3072 + Suc k..<16384]" unfolding P(7) F(4) butlast_rev_upt by simp
  have "free_cold f = [] \<longleftrightarrow> \<not> k < 13312" using F(4) by auto
  then have hot: "free_hot f' = rev [Suc k - 13312..<3072]"
  proof (cases "k < 13312")
    case True
    then show ?thesis using P(8) F(5) \<open>free_cold f = [] \<longleftrightarrow> \<not> k < 13312\<close> by simp
  next
    case False
    then have "Suc (k - 13312) = Suc k - 13312" by linarith
    then show ?thesis using False P(8) F(5) \<open>free_cold f = [] \<longleftrightarrow> \<not> k < 13312\<close> butlast_rev_upt [of "k - 13312" 3072] by simp
  qed
  have set': "set (free_pages f') = {Suc k - 13312..<3072} \<union> {3072 + Suc k..<16384}" by (auto simp: free_pages_def cold hot)
  have nf: "next_free f < 16384" "\<not> phys_valid f ! next_free f" using n(1) F(1,3,8) by (simp_all add: shape_def)
  have "counts_ok f'" using assms(3) F(2) nf(2) by (simp add: placed_def)
  moreover have "\<forall>x \<in> set (lba_hot_counters f'). unat x < 2 ^ 22"
    unfolding P(6) using F(7) set_update_subset_insert [of "lba_hot_counters f" k 1] by fastforce
  moreover have "fresh_page f' lp" if "Suc k \<le> lp" "lp < 16384" for lp
    using F(6) [of lp] that P(1,3,6) by (simp add: fresh_page_def same_geom_def)
  moreover have "\<not> phys_valid f' ! p \<and> phys_owner_lba f' ! p = None" if "p \<in> set (free_pages f')" for p
  proof -
    have "p \<noteq> next_free f" "p \<in> set (free_pages f)" using that n(3,4) set' by auto
    then show ?thesis using F(8) P(4,5) by simp
  qed
  moreover have "phys_valid f' ! p" if "p < 16384" "p \<notin> set (free_pages f')" for p
  proof (cases "p = next_free f")
    case True
    then show ?thesis using P(4) nf(1) len(1) by simp
  next
    case False
    then have "p \<notin> set (free_pages f)" using that(2) n(3) set' by auto
    then show ?thesis using F(9) that(1) False P(4) by simp
  qed
  ultimately show ?thesis using assms(1) P(1,2) cold hot unfolding filled_def by (simp add: same_geom_def)
qed

lemma upt_split: "i \<le> j \<Longrightarrow> j \<le> k \<Longrightarrow> [i..<k] = [i..<j] @ [j..<k]"
  using upt_add_eq_append [of i j "k - j"] by simp

lemma filter_zones:
  assumes "a \<le> b"
  shows "filter (\<lambda>p. \<not> p < a) (rev [0..<b]) = rev [a..<b]" "filter (\<lambda>p. p < a) (rev [0..<b]) = rev [0..<a]"
  using upt_split [OF le0 assms] by (simp_all add: filter_empty_conv)

lemma filled_init: "filled 0 (meta drive_64MiB)"
proof -
  have pages: "page_count (ftl_init 67108864) = 16384" by (simp add: ftl_init_page_count)
  have m: "meta drive_64MiB = ftl_init 67108864" by (simp add: drive_64MiB_def FTJController_def)
  have "num_blocks (ftl_init 67108864) = 64" by (simp add: ftl_init_def Let_def geom)
  have blk: "map (\<lambda>p. p div 256) [0..<16384] ! p < 12 \<longleftrightarrow> p < 3072" if "p < 16384" for p
    using that by (simp add: div_less_iff_less_mult)
  have c: "free_cold (ftl_init 67108864) = filter (\<lambda>p. \<not> map (\<lambda>p. p div 256) [0..<16384] ! p < 12) (rev [0..<16384])"
    and h: "free_hot (ftl_init 67108864) = filter (\<lambda>p. map (\<lambda>p. p div 256) [0..<16384] ! p < 12) (rev [0..<16384])"
    by (simp_all only: ftl_init_def Let_def ftl.select_convs PAGE_SIZE_def PAGES_PER_BLOCK_def) simp_all
  have c': "filter (\<lambda>p. \<not> map (\<lambda>p. p div 256) [0..<16384] ! p < 12) (rev [0..<16384]) = filter (\<lambda>p. \<not> p < 3072) (rev [0..<16384])"
    by (rule filter_cong) (simp_all add: blk del: nth_map)
  have cold: "free_cold (ftl_init 67108864) = rev [3072..<16384]"
    unfolding c c' by (rule filter_zones(1)) simp
  have h': "filter (\<lambda>p. map (\<lambda>p. p div 256) [0..<16384] ! p < 12) (rev [0..<16384]) = filter (\<lambda>p. p < 3072) (rev [0..<16384])"
    by (rule filter_cong) (simp_all add: blk del: nth_map)
  have hot: "free_hot (ftl_init 67108864) = rev [0..<3072]"
    unfolding h h' by (rule filter_zones(2)) simp
  have reps: "l2p_map (ftl_init 67108864) = replicate (page_count (ftl_init 67108864)) None"
    "lba_hot_counters (ftl_init 67108864) = replicate (page_count (ftl_init 67108864)) 0"
    "phys_valid (ftl_init 67108864) = replicate (page_count (ftl_init 67108864)) False"
    "phys_owner_lba (ftl_init 67108864) = replicate (page_count (ftl_init 67108864)) None"
    "gc_low_watermark (ftl_init 67108864) = max 1 (page_count (ftl_init 67108864) div 20)"
    "gc_target_free (ftl_init 67108864) = max 1 (page_count (ftl_init 67108864) div 10)"
    by (simp_all only: ftl_init_def Let_def ftl.select_convs)
  let ?f = "ftl_init 67108864"
  have "set (free_pages ?f) = {0..<16384}" using set_free_init pages by simp
  then have free: "\<forall>p \<in> set (free_pages ?f). \<not> phys_valid ?f ! p \<and> phys_owner_lba ?f ! p = None"
    "\<forall>p < 16384. p \<notin> set (free_pages ?f) \<longrightarrow> phys_valid ?f ! p" by (simp_all add: reps pages)
  have counters: "\<forall>x \<in> set (lba_hot_counters ?f). unat x < 2 ^ 22" by (simp add: reps pages)
  have fresh: "\<forall>lp. 0 \<le> lp \<longrightarrow> lp < 16384 \<longrightarrow> fresh_page ?f lp" by (simp add: fresh_page_def reps pages)
  have lists: "free_cold ?f = rev [3072 + 0..<16384]" "free_hot ?f = rev [0 - 13312..<3072]"
    unfolding cold hot by (simp_all only: add_0_right diff_0_eq_0)
  have geometry: "gc_low_watermark ?f = 819" "gc_target_free ?f = 1638" by (simp_all add: reps pages)
  have sane: "shape ?f" "counts_ok ?f"
    using ftl_inv_shape [OF ftl_inv_init [OF good_64MiB]] counts_ok_init [OF good_64MiB] by simp_all
  show ?thesis unfolding m filled_def
    using sane pages \<open>num_blocks ?f = 64\<close> geometry lists fresh counters free by (intro conjI)
qed

section \<open>The first collection\<close>

text \<open>With 818 free pages left the collector is called for 1638. Blocks 9 to 11 are free; it takes one of them, four times.\<close>

lemma div_nat_eq_iff: "(p :: nat) div 256 = b \<longleftrightarrow> b * 256 \<le> p \<and> p < b * 256 + 256"
  by (auto intro: div_nat_eqI)

lemma filled_idle:
  assumes "filled 15566 f"
  shows "gc_idle f"
proof -
  note F = filledD [OF assms]
  have free: "2254 \<le> p \<Longrightarrow> p < 3072 \<Longrightarrow> p \<in> set (free_pages f)" for p
    unfolding free_pages_def set_append F(8) by simp
  have "\<not> phys_valid f ! p" if "p < page_count f" "p div 256 = 9" for p
  proof -
    have "2254 \<le> p" "p < 3072" using that(2) by (simp_all add: div_nat_eq_iff)
    then show ?thesis using free F(6) by blast
  qed
  then have "valid_in f 9 = {}" by (auto simp: valid_in_def)
  then have "\<exists>b < num_blocks f. valid_in f b = {}" using F(4) by (intro exI [of _ 9]) simp
  moreover have "block_pages f b \<noteq> []" if "b < num_blocks f" for b
    using that F(3,4) by (simp add: block_pages_def PAGES_PER_BLOCK_def)
  moreover have "\<not> phys_valid f ! p \<longrightarrow> phys_owner_lba f ! p = None \<and> p \<in> set (free_pages f)" if "p < page_count f" for p
    using F(6,7) that unfolding F(3) by blast
  ultimately show ?thesis using F(1,2,5) unfolding gc_idle_def by blast
qed

lemma first_collection:
  assumes "filled 15566 f"
  shows "\<exists>ps. length ps = 256 \<and> set ps \<subseteq> {..<16384} \<and>
    RunGC copy_page 1638 (f, m) = Some (f\<lparr>free_hot := free_hot f @ ps @ ps @ ps @ ps\<rparr>, m)"
proof -
  note D = filledD [OF assms]
  have F: "shape f" "counts_ok f" "page_count f = 16384" "num_blocks f = 64" "free_cold f = []"
    "\<forall>p \<in> set (free_pages f). \<not> phys_valid f ! p \<and> phys_owner_lba f ! p = None"
    "\<forall>p < 16384. p \<notin> set (free_pages f) \<longrightarrow> phys_valid f ! p" by (simp_all add: D)
  have hot: "set (free_pages f) \<subseteq> {..<3072}" using D(8) F(5) by (auto simp: free_pages_def)
  have n: "length (free_hot f) = 818" using D(10) by simp
  obtain b where b: "b < 64" "gc_candidate f = Some (Some b)" "valid_in f b = {}"
    using gc_idle_candidate [OF filled_idle [OF assms]] F(4) by auto
  let ?ps = "block_pages f b"
  have len: "length ?ps = 256" using b(1) F(3) by (simp add: block_pages_def PAGES_PER_BLOCK_def)
  have pages: "\<forall>p \<in> set ?ps. p \<in> set (free_pages f)"
    using b(3) F(3,7) by (auto simp: block_pages_iff valid_in_def)
  have "b * 256 \<in> set ?ps" using b(1) F(3) by (simp add: block_pages_iff)
  then have "b * 256 < 3072" using pages hot by auto
  then have "b < num_blocks f div 5" using F(4) by simp
  then have fb: "free_block f b" using F(1,2,6) b(3) pages unfolding free_block_def by blast
  have sub: "set (free_hot f) \<subseteq> {..<page_count f}" "set ?ps \<subseteq> {..<page_count f}"
    using hot F(3) by (auto simp: free_pages_def block_pages_iff)
  note again = collect_again [OF fb b(2) F(5)]
  have "?ps \<noteq> []" using len by auto
  then have step: "RunGC copy_page 1638 (f\<lparr>free_hot := xs\<rparr>, m) =
    (if 1638 \<le> length xs then Some (f\<lparr>free_hot := xs\<rparr>, m)
     else if 1638 \<le> length xs + 256 then Some (f\<lparr>free_hot := xs @ ?ps\<rparr>, m)
     else RunGC copy_page 1638 (f\<lparr>free_hot := xs @ ?ps\<rparr>, m))" if "set xs \<subseteq> {..<page_count f}" for xs
    using again [OF that, of 1638 m] len by simp
  have "RunGC copy_page 1638 (f\<lparr>free_hot := free_hot f\<rparr>, m) = Some (f\<lparr>free_hot := free_hot f @ ?ps @ ?ps @ ?ps @ ?ps\<rparr>, m)"
    using step [of "free_hot f"] step [of "free_hot f @ ?ps"] step [of "free_hot f @ ?ps @ ?ps"] step [of "free_hot f @ ?ps @ ?ps @ ?ps"]
      sub n len by simp
  then show ?thesis using len sub(2) F(3) by auto
qed

section \<open>The writes\<close>

lemma Write_fresh:
  assumes "ctrl_safe False c" "fresh_page (meta c) lp" "free_pages (meta c) \<noteq> []" "length buf = 4096"
  shows "\<exists>c' f st. Write c (lp * 4096) (Some buf) 4096 = Some (True, c') \<and> ctrl_safe False c' \<and> capacity c' = capacity c \<and>
    placed (meta c) lp f \<and> gc_if_low copy_page (f, st) = Some (meta c', buffers c')"
proof -
  have safe: "shape (meta c)" "store_inv False (page_count (meta c)) (buffers c)" "capacity c = page_count (meta c) * 4096"
    using assms(1) by (simp_all add: ctrl_safe_def)
  have lp: "lp < page_count (meta c)" using assms(2) by (simp add: fresh_page_def)
  then have room: "\<not> (4096 > capacity c \<or> lp * 4096 > capacity c - 4096)" using safe(3) by auto
  have sl: "slice buf 0 4096 = Some buf" using assms(4) by (simp add: slice_def)
  obtain ok c' where w: "Write c (lp * 4096) (Some buf) 4096 = Some (ok, c')" "ctrl_safe False c'" "capacity c' = capacity c"
    using Write_safe [OF assms(1), of "Some buf" 4096 "lp * 4096"] assms(4) by auto
  let ?tr = "enable_disturb_tracking (physics_cfg c)"
  have "fits_page (0, buf)" using assms(4) by (auto simp: fits_page_def)
  then obtain ok1 f st where s: "write_step copy_page (put_page 0 buf) ?tr lp (meta c, buffers c) = Some (ok1, f, st)"
    using buf.write_step_safe [of "(0, buf)" "meta c" False "buffers c" lp ?tr] safe lp by auto
  note p = write_step_fresh [OF safe(1) assms(2,3) s]
  have "write_loop ?tr (lp * 4096) buf (meta c, buffers c) = Some (True, f, st)"
    using s p assms(4) by (subst write_loop.simps) (auto simp: geom write_loop.simps [of _ _ "[]"] Let_def)
  then have "ok \<and> gc_if_low copy_page (f, st) = Some (meta c', buffers c')"
    using w(1) room sl by (auto simp: Write_def Let_def split: Option.bind_splits)
  then show ?thesis using w p by auto
qed

fun write_pages :: "nat \<Rightarrow> nat \<Rightarrow> (nat \<Rightarrow> u8 list) \<Rightarrow> ctrl \<Rightarrow> ctrl option" where
  "write_pages lp 0 data c = Some c"
| "write_pages lp (Suc n) data c =
     (case Write c (lp * 4096) (Some (data lp)) 4096 of
        Some (True, c') \<Rightarrow> write_pages (Suc lp) n data c'
      | _ \<Rightarrow> None)"

lemma write_pages_add: "write_pages lp (m + n) data c = do { c' \<leftarrow> write_pages lp m data c; write_pages (lp + m) n data c' }"
  by (induction m arbitrary: lp c) (auto split: option.split bool.split)

lemma fill_pages:
  assumes "\<forall>lp. length (data lp) = 4096"
  shows "ctrl_safe False c \<Longrightarrow> filled k (meta c) \<Longrightarrow> k + n \<le> 15565 \<Longrightarrow>
    \<exists>c'. write_pages k n data c = Some c' \<and> ctrl_safe False c' \<and> filled (k + n) (meta c')"
proof (induction n arbitrary: k c)
  case (Suc n)
  have k: "k < 16384" using Suc.prems(3) by simp
  have d: "length (data k) = 4096" using assms by simp
  have fresh: "fresh_page (meta c) k" by (rule filledD(12) [OF Suc.prems(2)]) (use k in simp_all)
  obtain c1 f st where w: "Write c (k * 4096) (Some (data k)) 4096 = Some (True, c1)" "ctrl_safe False c1"
    "placed (meta c) k f" "gc_if_low copy_page (f, st) = Some (meta c1, buffers c1)"
    using Write_fresh [OF Suc.prems(1) fresh filled_next(2) [OF Suc.prems(2) k] d] by blast
  have f: "filled (Suc k) f" by (rule filled_step [OF Suc.prems(2) k w(3)])
  have "free_count f = 16384 - Suc k" by (rule filled_free_count [OF f]) (use k in simp)
  then have "gc_low_watermark f \<le> free_count f" using filledD(13) [OF f] Suc.prems(3) by linarith
  then have "gc_if_low copy_page (f, st) = Some (f, st)" by (simp add: gc_if_low_def)
  then have "filled (Suc k) (meta c1)" using w(4) f by simp
  then show ?case using Suc.IH [OF w(2), of "Suc k"] Suc.prems(3) w(1) by simp
qed simp

text \<open>After the collection: the pages of the list \<open>L\<close> are taken from its end, one for each logical page.\<close>

definition drained :: "nat list \<Rightarrow> nat \<Rightarrow> ftl \<Rightarrow> bool" where
  "drained L j f \<longleftrightarrow> page_count f = 16384 \<and> gc_low_watermark f = 819 \<and> free_cold f = [] \<and>
     free_hot f = take (length L - j) L \<and> length (l2p_map f) = 16384 \<and>
     (\<forall>lp. 15566 + j \<le> lp \<longrightarrow> lp < 16384 \<longrightarrow> fresh_page f lp) \<and>
     (\<forall>i < j. l2p_map f ! (15566 + i) = Some (rev L ! i))"

lemma drained_step:
  assumes "drained L j f" "j < length L" "15566 + j < 16384" "placed f (15566 + j) f'"
  shows "drained L (Suc j) f'"
proof -
  have L: "length L - j \<noteq> 0" "length L - j \<le> length L" using assms(2) by simp_all
  have D: "page_count f = 16384" "gc_low_watermark f = 819" "free_cold f = []" "free_hot f = take (length L - j) L"
    "length (l2p_map f) = 16384" "\<And>lp. 15566 + j \<le> lp \<Longrightarrow> lp < 16384 \<Longrightarrow> fresh_page f lp"
    "\<And>i. i < j \<Longrightarrow> l2p_map f ! (15566 + i) = Some (rev L ! i)"
    using assms(1) by (simp_all add: drained_def)
  have "take (length L - j) L \<noteq> []" using L(1) assms(2) by auto
  then have "last (take (length L - j) L) = rev L ! j" using assms(2) by (simp add: last_conv_nth rev_nth)
  then have n: "next_free f = rev L ! j" by (simp add: next_free_def D)
  have P: "same_geom f f'" "l2p_map f' = (l2p_map f)[15566 + j := Some (rev L ! j)]"
    "lba_hot_counters f' = (lba_hot_counters f)[15566 + j := 1]" "free_cold f' = []" "free_hot f' = butlast (free_hot f)"
    using assms(4) by (simp_all add: placed_def n D)
  have "free_hot f' = take (length L - Suc j) L" unfolding P(5) D(4) butlast_take [OF L(2)] by simp
  moreover have "fresh_page f' lp" if "15566 + Suc j \<le> lp" "lp < 16384" for lp
    using D(6) [of lp] that P(1,2,3) by (simp add: fresh_page_def same_geom_def)
  moreover have "l2p_map f' ! (15566 + i) = Some (rev L ! i)" if "i < Suc j" for i
    using D(5) D(7) [of i] that assms(3) P(2) by (cases "i = j") simp_all
  ultimately show ?thesis using P(1,2,4) D(1,2,5) by (simp add: drained_def same_geom_def)
qed

lemma drain_pages:
  assumes "\<forall>lp. length (data lp) = 4096"
  shows "ctrl_safe False c \<Longrightarrow> drained L j (meta c) \<Longrightarrow> j + n + 819 \<le> length L \<Longrightarrow> 15566 + j + n \<le> 16384 \<Longrightarrow>
    \<exists>c'. write_pages (15566 + j) n data c = Some c' \<and> ctrl_safe False c' \<and> drained L (j + n) (meta c')"
proof (induction n arbitrary: j c)
  case (Suc n)
  let ?k = "15566 + j"
  have k: "?k < 16384" and j: "j < length L" using Suc.prems(3,4) by simp_all
  have d: "length (data ?k) = 4096" using assms by simp
  have D: "fresh_page (meta c) ?k" "free_hot (meta c) = take (length L - j) L" using Suc.prems(2) k by (simp_all add: drained_def)
  then have "free_pages (meta c) \<noteq> []" using j by (cases L) (simp_all add: free_pages_def)
  then obtain c1 f st where w: "Write c (?k * 4096) (Some (data ?k)) 4096 = Some (True, c1)" "ctrl_safe False c1"
    "placed (meta c) ?k f" "gc_if_low copy_page (f, st) = Some (meta c1, buffers c1)"
    using Write_fresh [OF Suc.prems(1) D(1) _ d] by blast
  have f: "drained L (Suc j) f" by (rule drained_step [OF Suc.prems(2) j k w(3)])
  then have "gc_low_watermark f \<le> free_count f" using Suc.prems(3) by (simp add: drained_def free_count_def)
  then have "gc_if_low copy_page (f, st) = Some (f, st)" by (simp add: gc_if_low_def)
  then have "drained L (Suc j) (meta c1)" using w(4) f by simp
  then show ?case using Suc.IH [OF w(2), of "Suc j"] Suc.prems(3,4) w(1) by simp
qed simp

lemma fill_and_collect:
  assumes "\<forall>lp. length (data lp) = 4096"
  shows "\<exists>c L ps. write_pages 0 15566 data drive_64MiB = Some c \<and> ctrl_safe False c \<and> length ps = 256 \<and> length L = 1330 \<and>
    drained (L @ ps @ ps) 0 (meta c)"
proof -
  have start: "ctrl_safe False drive_64MiB" by (rule ctrl_safe_weaken [OF ctrl_ok_safe [OF drive_64MiB_facts(1)]])
  obtain c where c: "write_pages 0 15565 data drive_64MiB = Some c" "ctrl_safe False c" "filled 15565 (meta c)"
    using fill_pages [OF assms start filled_init, of 15565] by auto
  have fresh: "fresh_page (meta c) 15565" by (rule filledD(12) [OF c(3)]) simp_all
  have room: "free_pages (meta c) \<noteq> []" by (rule filled_next(2) [OF c(3)]) simp
  have d: "length (data 15565) = 4096" using assms by simp
  obtain c1 f st where w: "Write c (15565 * 4096) (Some (data 15565)) 4096 = Some (True, c1)" "ctrl_safe False c1"
    "placed (meta c) 15565 f" "gc_if_low copy_page (f, st) = Some (meta c1, buffers c1)"
    using Write_fresh [OF c(2) fresh room d] by blast
  have "filled (Suc 15565) f" by (rule filled_step [OF c(3) _ w(3)]) simp
  then have f: "filled 15566 f" by simp
  note D = filledD [OF f]
  have "free_count f = 818" using filled_free_count [OF f] by simp
  then have "RunGC copy_page 1638 (f, st) = Some (meta c1, buffers c1)" using w(4) D(13,14) by (simp add: gc_if_low_def)
  then obtain ps where ps: "length ps = 256" "meta c1 = f\<lparr>free_hot := free_hot f @ ps @ ps @ ps @ ps\<rparr>"
    using first_collection [OF f, of st] by auto
  have "length (l2p_map f) = 16384" using D(1,3) by (simp add: shape_def)
  then have "drained ((free_hot f @ ps @ ps) @ ps @ ps) 0 (meta c1)"
    using D(3,11,13) D(12) unfolding drained_def ps(2) by (simp add: fresh_page_def)
  moreover have "length (free_hot f @ ps @ ps) = 1330" using D(10) ps(1) by simp
  moreover have "write_pages 0 15566 data drive_64MiB = Some c1"
  proof -
    have one: "write_pages (0 + 15565) (Suc 0) data c = Some c1" using w(1) by simp
    have "write_pages 0 15566 data drive_64MiB = write_pages 0 (15565 + Suc 0) data drive_64MiB"
      by (rule arg_cong [where f = "\<lambda>n. write_pages 0 n data drive_64MiB"]) simp
    also have "\<dots> = Some c1" unfolding write_pages_add c(1) using one by (simp only: bind.bind_lunit)
    finally show ?thesis .
  qed
  ultimately show ?thesis using w(2) ps(1) by blast
qed

lemma page_byte:
  "i < 4096 \<Longrightarrow> byte_at c (lp * 4096 + i) = (case l2p_map (meta c) ! lp of None \<Rightarrow> 0 | Some p \<Rightarrow> page_bytes (buffers c) p ! i)"
  by (simp add: byte_at_def dev_byte_def view_def split: option.split)

text \<open>C4: a new 64 MiB drive that is filled page after page loses data: all writes are answered with true, but logical pages
  15566 and 15822 end up on the same physical page, so both read the same bytes, whatever was written.\<close>

theorem sequential_fill_loses_data:
  assumes "\<forall>lp. length (data lp) = 4096"
  shows "\<exists>c p. write_pages 0 15823 data drive_64MiB = Some c \<and> l2p_map (meta c) ! 15566 = Some p \<and>
    l2p_map (meta c) ! 15822 = Some p \<and>
    (\<forall>i < 4096. byte_at c (15566 * 4096 + i) = byte_at c (15822 * 4096 + i))"
proof -
  obtain c L ps where c: "write_pages 0 15566 data drive_64MiB = Some c" "ctrl_safe False c" "length ps = 256" "length L = 1330"
    "drained (L @ ps @ ps) 0 (meta c)" using fill_and_collect [OF assms] by blast
  have "0 + 257 + 819 \<le> length (L @ ps @ ps)" using c(3,4) by simp
  from drain_pages [OF assms c(2,5) this] obtain c1 where c1: "write_pages 15566 257 data c = Some c1"
    "drained (L @ ps @ ps) 257 (meta c1)" by auto
  have "rev (L @ ps @ ps) ! 0 = rev ps ! 0" "rev (L @ ps @ ps) ! 256 = rev ps ! 0"
    using c(3) by (simp_all add: nth_append)
  moreover have "l2p_map (meta c1) ! (15566 + i) = Some (rev (L @ ps @ ps) ! i)" if "i < 257" for i
    using c1(2) that by (simp add: drained_def)
  from this [of 0] this [of 256] have "l2p_map (meta c1) ! 15566 = Some (rev (L @ ps @ ps) ! 0)"
    "l2p_map (meta c1) ! 15822 = Some (rev (L @ ps @ ps) ! 256)" by simp_all
  ultimately have same: "l2p_map (meta c1) ! 15566 = Some (rev ps ! 0)" "l2p_map (meta c1) ! 15822 = Some (rev ps ! 0)" by simp_all
  have "byte_at c1 (15566 * 4096 + i) = byte_at c1 (15822 * 4096 + i)" if "i < 4096" for i
    unfolding page_byte [OF that] same ..
  moreover have "write_pages 0 15823 data drive_64MiB = Some c1"
    using write_pages_add [of 0 15566 257 data drive_64MiB] c(1) c1(1) by simp
  ultimately show ?thesis using same by blast
qed

theorem sequential_fill_loses_data_witness:
  "\<exists>c. write_pages 0 15823 (\<lambda>lp. replicate 4096 (of_nat lp)) drive_64MiB = Some c \<and>
     byte_at c (15566 * 4096) = byte_at c (15822 * 4096)"
proof -
  have "\<forall>lp. length (replicate 4096 (of_nat lp :: u8)) = 4096" by simp
  from sequential_fill_loses_data [OF this] obtain c where
    c: "write_pages 0 15823 (\<lambda>lp. replicate 4096 (of_nat lp)) drive_64MiB = Some c"
    "\<forall>i < 4096. byte_at c (15566 * 4096 + i) = byte_at c (15822 * 4096 + i)" by blast
  have "byte_at c (15566 * 4096 + 0) = byte_at c (15822 * 4096 + 0)" by (rule c(2) [rule_format]) simp
  then have "byte_at c (15566 * 4096) = byte_at c (15822 * 4096)" by (simp only: add_0_right)
  then show ?thesis using c(1) by blast
qed

end
