(* ===== verification/Ring.thy ===== *)
theory Ring
  imports Prelude
begin

text \<open>
  \<open>LockFreeRingBuffer\<close> and \<open>NVMeQueuePair\<close> of \<open>include/ftj_engine.hpp\<close>: a bounded queue with a sequence
  number per cell, and the submission and completion queues built from two of them.

  Operations are modelled as one thread runs them: the loops of \<open>Push\<close> and \<open>Pop\<close> reload the shared
  position, which no other thread changes, so a compare-and-swap fails only when the loaded position is
  stale. A \<open>None\<close> is an access outside the cells, or a loop that never ends. The difference of a
  sequence number and a position is signed; positions stay below \<open>2 ^ 63\<close> in the invariant, where the
  subtraction cannot overflow.
\<close>

section \<open>The code\<close>

record 'a cell =
  sequence :: u64
  data :: 'a

record 'a ring =
  ring_size :: u64
  buffer_mask :: u64
  cells :: "'a cell list"
  enqueue_pos :: u64
  dequeue_pos :: u64

partial_function (option) next_pow2 :: "u64 \<Rightarrow> u64 \<Rightarrow> u64 option" where
  "next_pow2 buffer_size sz = (if sz < buffer_size then next_pow2 buffer_size (push_bit 1 sz) else Some sz)"

definition new_cells :: "'a \<Rightarrow> u64 \<Rightarrow> 'a cell list" where
  "new_cells init sz = map (\<lambda>i. \<lparr>sequence = of_nat i, data = init\<rparr>) [0..<unat sz]"

definition LockFreeRingBuffer :: "'a \<Rightarrow> u64 \<Rightarrow> 'a ring option" where
  "LockFreeRingBuffer init buffer_size =
     (if buffer_size AND (buffer_size - 1) \<noteq> 0 then do {
        sz \<leftarrow> next_pow2 buffer_size 1;
        Some \<lparr>ring_size = sz, buffer_mask = sz - 1, cells = new_cells init sz,
              enqueue_pos = 0, dequeue_pos = 0\<rparr>
      } else Some \<lparr>ring_size = buffer_size, buffer_mask = buffer_size - 1,
              cells = new_cells init buffer_size, enqueue_pos = 0, dequeue_pos = 0\<rparr>)"

partial_function (option) push_from :: "'a ring \<Rightarrow> 'a \<Rightarrow> u64 \<Rightarrow> (bool \<times> 'a ring) option" where
  "push_from r x pos = do {
     let i = unat (pos AND buffer_mask r);
     cell \<leftarrow> rd (cells r) i;
     let dif = sint (sequence cell) - sint pos;
     if dif = 0 then
       if enqueue_pos r = pos then
         Some (True, r\<lparr>enqueue_pos := pos + 1,
                       cells := (cells r)[i := \<lparr>sequence = pos + 1, data = x\<rparr>]\<rparr>)
       else push_from r x (enqueue_pos r)
     else if dif < 0 then Some (False, r)
     else push_from r x (enqueue_pos r)
   }"

definition Push :: "'a \<Rightarrow> 'a ring \<Rightarrow> (bool \<times> 'a ring) option" where
  "Push x r = push_from r x (enqueue_pos r)"

partial_function (option) pop_from :: "'a ring \<Rightarrow> u64 \<Rightarrow> ('a option \<times> 'a ring) option" where
  "pop_from r pos = do {
     let i = unat (pos AND buffer_mask r);
     cell \<leftarrow> rd (cells r) i;
     let dif = sint (sequence cell) - sint (pos + 1);
     if dif = 0 then
       if dequeue_pos r = pos then
         Some (Some (data cell), r\<lparr>dequeue_pos := pos + 1,
                       cells := (cells r)[i := cell\<lparr>sequence := pos + ring_size r\<rparr>]\<rparr>)
       else pop_from r (dequeue_pos r)
     else if dif < 0 then Some (None, r)
     else pop_from r (dequeue_pos r)
   }"

definition Pop :: "'a ring \<Rightarrow> ('a option \<times> 'a ring) option" where
  "Pop r = pop_from r (dequeue_pos r)"

text \<open>The buffer of an entry is a pointer: an address, 0 when null.\<close>

record SQEntry =
  opcode :: u8
  sq_offset :: u64
  sq_buffer :: nat
  sq_size :: nat
  sq_cid :: u32

record CQEntry =
  cq_cid :: u32
  cq_status :: u32

record NVMeQueuePair =
  sq :: "SQEntry ring"
  cq :: "CQEntry ring"

definition NewQueuePair :: "u64 \<Rightarrow> NVMeQueuePair option" where
  "NewQueuePair queue_depth = do {
     sq1 \<leftarrow> LockFreeRingBuffer \<lparr>opcode = 0, sq_offset = 0, sq_buffer = 0, sq_size = 0, sq_cid = 0\<rparr> queue_depth;
     cq1 \<leftarrow> LockFreeRingBuffer \<lparr>cq_cid = 0, cq_status = 0\<rparr> queue_depth;
     Some \<lparr>sq = sq1, cq = cq1\<rparr>
   }"

definition Submit :: "SQEntry \<Rightarrow> NVMeQueuePair \<Rightarrow> (bool \<times> NVMeQueuePair) option" where
  "Submit e q = do { (ok, sq1) \<leftarrow> Push e (sq q); Some (ok, q\<lparr>sq := sq1\<rparr>) }"

definition Reap :: "NVMeQueuePair \<Rightarrow> (CQEntry option \<times> NVMeQueuePair) option" where
  "Reap q = do { (e, cq1) \<leftarrow> Pop (cq q); Some (e, q\<lparr>cq := cq1\<rparr>) }"

definition PopRequest :: "NVMeQueuePair \<Rightarrow> (SQEntry option \<times> NVMeQueuePair) option" where
  "PopRequest q = do { (e, sq1) \<leftarrow> Pop (sq q); Some (e, q\<lparr>sq := sq1\<rparr>) }"

definition CompleteRequest :: "CQEntry \<Rightarrow> NVMeQueuePair \<Rightarrow> (bool \<times> NVMeQueuePair) option" where
  "CompleteRequest e q = do { (ok, cq1) \<leftarrow> Push e (cq q); Some (ok, q\<lparr>cq := cq1\<rparr>) }"

section \<open>Bounded queues\<close>

text \<open>
  What a user of a bounded queue relies on: \<open>abs\<close> is the list of waiting elements, \<open>room\<close> the capacity,
  \<open>life\<close> how many more elements can be pushed before the position counter leaves its range. A full
  queue refuses, an empty one answers \<open>None\<close>, and elements come out in the order they went in.
\<close>

locale roomy_queue =
  fixes ok :: "'s \<Rightarrow> bool" and abs :: "'s \<Rightarrow> 'a list" and room :: "'s \<Rightarrow> nat" and life :: "'s \<Rightarrow> nat"
    and push :: "'a \<Rightarrow> 's \<Rightarrow> (bool \<times> 's) option" and pop :: "'s \<Rightarrow> ('a option \<times> 's) option"
  assumes push_room: "ok s \<Longrightarrow> 0 < life s \<Longrightarrow> length (abs s) < room s \<Longrightarrow>
      \<exists>s'. push x s = Some (True, s') \<and> ok s' \<and> abs s' = abs s @ [x] \<and> room s' = room s \<and> life s = Suc (life s')"
    and pop_some: "ok s \<Longrightarrow> abs s = x # xs \<Longrightarrow>
      \<exists>s'. pop s = Some (Some x, s') \<and> ok s' \<and> abs s' = xs \<and> room s' = room s \<and> life s' = life s"
    and pop_empty: "ok s \<Longrightarrow> abs s = [] \<Longrightarrow> pop s = Some (None, s)"
    and bounded: "ok s \<Longrightarrow> length (abs s) \<le> room s"
begin

text \<open>A push where there is room and a pop, both at once: the shape in which clients use the two.\<close>

lemma push_then:
  assumes "ok s" "0 < life s" "length (abs s) < room s" "push x s = Some (b, s')"
  shows "b \<and> ok s' \<and> abs s' = abs s @ [x] \<and> room s' = room s \<and> life s = Suc (life s')"
  using push_room [OF assms(1-3), of x] assms(4) by auto

lemma pop_then:
  assumes "ok s" "pop s = Some (y, s')"
  shows "ok s' \<and> room s' = room s \<and> life s' = life s \<and>
    (case y of None \<Rightarrow> abs s = [] \<and> s' = s | Some x \<Rightarrow> abs s = x # abs s')"
proof (cases "abs s")
  case Nil
  then show ?thesis using pop_empty [OF assms(1)] assms by auto
next
  case (Cons x xs)
  then show ?thesis using pop_some [OF assms(1) Cons] assms(2) by auto
qed

lemma pop_defined: "ok s \<Longrightarrow> pop s \<noteq> None"
  using pop_empty [of s] pop_some [of s] by (cases "abs s") force+

end

text \<open>A queue that also refuses when it is full.\<close>

locale bounded_queue = roomy_queue ok abs room life push pop
  for ok :: "'s \<Rightarrow> bool" and abs :: "'s \<Rightarrow> 'a list" and room :: "'s \<Rightarrow> nat" and life :: "'s \<Rightarrow> nat"
    and push :: "'a \<Rightarrow> 's \<Rightarrow> (bool \<times> 's) option" and pop :: "'s \<Rightarrow> ('a option \<times> 's) option" +
  assumes push_full: "ok s \<Longrightarrow> length (abs s) = room s \<Longrightarrow> push x s = Some (False, s)"
begin

fun push_all :: "'a list \<Rightarrow> 's \<Rightarrow> (nat \<times> 's) option" where
  "push_all [] s = Some (0, s)"
| "push_all (x # xs) s = do {
     (b, s') \<leftarrow> push x s;
     if b then do { (n, t) \<leftarrow> push_all xs s'; Some (Suc n, t) } else Some (0, s') }"

fun pop_all :: "nat \<Rightarrow> 's \<Rightarrow> ('a list \<times> 's) option" where
  "pop_all 0 s = Some ([], s)"
| "pop_all (Suc n) s = do {
     (x, s') \<leftarrow> pop s;
     (case x of None \<Rightarrow> Some ([], s')
      | Some x \<Rightarrow> do { (xs, t) \<leftarrow> pop_all n s'; Some (x # xs, t) }) }"

lemma push_all_spec:
  "ok s \<Longrightarrow> length xs \<le> life s \<Longrightarrow>
   \<exists>t. push_all xs s = Some (min (length xs) (room s - length (abs s)), t) \<and> ok t \<and>
     abs t = abs s @ take (room s - length (abs s)) xs \<and> room t = room s"
proof (induction xs arbitrary: s)
  case (Cons x xs)
  show ?case
  proof (cases "length (abs s) < room s")
    case True
    obtain s' where s': "push x s = Some (True, s')" "ok s'" "abs s' = abs s @ [x]" "room s' = room s"
      "life s = Suc (life s')"
      using push_room [OF Cons.prems(1) _ True, of x] Cons.prems(2) by auto
    obtain t where t: "push_all xs s' = Some (min (length xs) (room s' - length (abs s')), t)" "ok t"
      "abs t = abs s' @ take (room s' - length (abs s')) xs" "room t = room s'"
      using Cons.IH [OF s'(2)] Cons.prems(2) s'(5) by auto
    have "room s - length (abs s) = Suc (room s' - length (abs s'))" using True s'(3,4) by simp
    then show ?thesis using s' t by simp
  next
    case False
    then have "length (abs s) = room s" using bounded [OF Cons.prems(1)] by simp
    then show ?thesis using push_full [OF Cons.prems(1), of x] Cons.prems(1) by simp
  qed
qed simp

lemma pop_all_spec:
  "ok s \<Longrightarrow> \<exists>t. pop_all n s = Some (take n (abs s), t) \<and> ok t \<and> abs t = drop n (abs s) \<and> room t = room s"
proof (induction n arbitrary: s)
  case (Suc n)
  show ?case
  proof (cases "abs s")
    case Nil
    then show ?thesis using pop_empty [OF Suc.prems] Suc.prems by simp
  next
    case (Cons x xs)
    obtain s' where s': "pop s = Some (Some x, s')" "ok s'" "abs s' = xs" "room s' = room s"
      using pop_some [OF Suc.prems Cons] by blast
    then show ?thesis using Suc.IH [OF s'(2)] Cons by auto
  qed
qed simp

text \<open>First in, first out: what a batch of pushes gets in, a batch of pops gets back in order.\<close>

lemma fifo:
  assumes "ok s" "abs s = []" "length xs \<le> life s" "length xs \<le> room s"
  shows "\<exists>t u. push_all xs s = Some (length xs, t) \<and> pop_all (length xs) t = Some (xs, u) \<and> ok u \<and> abs u = []"
proof -
  obtain t where t: "push_all xs s = Some (min (length xs) (room s - length (abs s)), t)" "ok t"
    "abs t = abs s @ take (room s - length (abs s)) xs"
    using push_all_spec [OF assms(1,3)] by blast
  then have "abs t = xs" "push_all xs s = Some (length xs, t)" using assms(2,4) by (simp_all add: min_def)
  then show ?thesis using pop_all_spec [OF t(2), of "length xs"] by auto
qed

end

section \<open>The ring is a bounded queue\<close>

definition ring_at :: "'a ring \<Rightarrow> nat \<Rightarrow> 'a cell" where
  "ring_at r p = cells r ! (p mod length (cells r))"

definition ring_wf :: "'a ring \<Rightarrow> bool" where
  "ring_wf r \<longleftrightarrow> (let n = length (cells r); E = unat (enqueue_pos r); D = unat (dequeue_pos r) in
     1 \<le> n \<and> unat (ring_size r) = n \<and> (\<forall>p. unat (p AND buffer_mask r) = unat p mod n) \<and>
     D \<le> E \<and> E \<le> D + n \<and> E + n < 2 ^ 63 \<and>
     (\<forall>p. D \<le> p \<and> p < E \<longrightarrow> unat (sequence (ring_at r p)) = p + 1) \<and>
     (\<forall>p. E \<le> p \<and> p < D + n \<longrightarrow> unat (sequence (ring_at r p)) = p))"

text \<open>With one cell only, the next push cannot tell a full ring from an empty one.\<close>

definition ring_ok :: "'a ring \<Rightarrow> bool" where
  "ring_ok r \<longleftrightarrow> 2 \<le> length (cells r) \<and> ring_wf r"

definition ring_abs :: "'a ring \<Rightarrow> 'a list" where
  "ring_abs r = map (\<lambda>p. data (ring_at r p)) [unat (dequeue_pos r)..<unat (enqueue_pos r)]"

definition ring_room :: "'a ring \<Rightarrow> nat" where
  "ring_room r = length (cells r)"

definition ring_life :: "'a ring \<Rightarrow> nat" where
  "ring_life r = 2 ^ 63 - 1 - length (cells r) - unat (enqueue_pos r)"

lemma sint_small64: "unat (w :: u64) < 2 ^ 63 \<Longrightarrow> sint w = int (unat w)"
proof -
  assume a: "unat w < 2 ^ 63"
  have "nat (uint w) < nat (2 ^ 63)" using a unfolding unat_eq_nat_uint by simp
  then have lt: "uint w < 2 ^ 63" by (simp only: nat_less_eq_zless uint_ge_0)
  have "- (2 ^ 63) \<le> (0 :: int)" by simp
  also have "0 \<le> uint w" by (rule uint_ge_0)
  finally have ge: "- (2 ^ 63) \<le> uint w" .
  have "signed_take_bit 63 (uint w) = uint w" using ge lt by (rule signed_take_bit_int_eq_self)
  then have "sint w = uint w" by (simp add: sint_uint)
  then show ?thesis by simp
qed

lemma sint_of_unat: "unat (w :: u64) = k \<Longrightarrow> k < 2 ^ 63 \<Longrightarrow> sint w = int k"
  using sint_small64 [of w] by blast

lemma mod_length: "1 \<le> length xs \<Longrightarrow> p mod length xs < length xs"
  by (intro mod_less_divisor) linarith

lemma unat_add_small: "unat (w :: u64) + unat v < 2 ^ 63 \<Longrightarrow> unat (w + v) = unat w + unat v"
  by (simp add: unat_word_ariths)

lemma unat_suc_small: "unat (w :: u64) + 1 < 2 ^ 63 \<Longrightarrow> unat (w + 1) = unat w + 1"
  using unat_add_small [of w 1] by simp

lemma window_inj:
  assumes "(d::nat) \<le> p" "p < d + n" "d \<le> q" "q < d + n" "p mod n = q mod n"
  shows "p = q"
proof -
  have step: "p = q" if "p \<le> q" "q < p + n" "p mod n = q mod n" for p q :: nat
  proof -
    have "n dvd q - p" using mod_eq_dvd_iff_nat [OF that(1), of n] that(3) by simp
    then have "q - p = 0 \<or> n \<le> q - p" using dvd_imp_le by blast
    then show ?thesis using that(1,2) by linarith
  qed
  show ?thesis
  proof (cases "p \<le> q")
    case True
    then show ?thesis using assms step [of p q] by linarith
  next
    case False
    then show ?thesis using assms step [of q p] by linarith
  qed
qed

lemma ring_wfD:
  assumes "ring_wf r"
  defines "n \<equiv> length (cells r)" and "E \<equiv> unat (enqueue_pos r)" and "D \<equiv> unat (dequeue_pos r)"
  shows "1 \<le> n" "unat (ring_size r) = n" "unat (p AND buffer_mask r) = unat p mod n" "D \<le> E" "E \<le> D + n"
    "E + n < 2 ^ 63" "D \<le> i \<Longrightarrow> i < E \<Longrightarrow> unat (sequence (ring_at r i)) = i + 1"
    "E \<le> i \<Longrightarrow> i < D + n \<Longrightarrow> unat (sequence (ring_at r i)) = i"
  using assms(1) unfolding ring_wf_def Let_def n_def E_def D_def by blast+

lemma ring_okD: "ring_ok r \<Longrightarrow> 2 \<le> length (cells r)" "ring_ok r \<Longrightarrow> ring_wf r"
  by (simp_all add: ring_ok_def)

lemma ring_rd: "ring_wf r \<Longrightarrow> rd (cells r) (unat (p AND buffer_mask r)) = Some (ring_at r (unat p))"
  using ring_wfD(1,3) [of r] mod_length [of "cells r"] by (simp add: rd_def ring_at_def)

text \<open>Replacing the cell of position \<open>p\<close> changes no other position of the window.\<close>

lemma ring_at_update:
  assumes "cells r' = (cells r)[p mod length (cells r) := c]" "1 \<le> length (cells r)"
    and "d \<le> p" "p < d + length (cells r)" "d \<le> i" "i < d + length (cells r)"
  shows "ring_at r' i = (if i = p then c else ring_at r i)"
proof -
  let ?n = "length (cells r)"
  have "p mod ?n < ?n" using assms(2) by (rule mod_length)
  moreover have "i mod ?n = p mod ?n \<longleftrightarrow> i = p" using window_inj [of d i ?n p] assms(3-6) by auto
  ultimately show ?thesis unfolding ring_at_def assms(1) by (auto simp: nth_list_update)
qed

lemma Push_room:
  assumes "ring_wf r" "unat (enqueue_pos r) < unat (dequeue_pos r) + length (cells r)" "0 < ring_life r"
  shows "\<exists>r'. Push x r = Some (True, r') \<and> ring_wf r' \<and> ring_abs r' = ring_abs r @ [x] \<and>
    ring_room r' = ring_room r \<and> ring_life r = Suc (ring_life r')"
proof -
  define n E D where "n = length (cells r)" and "E = unat (enqueue_pos r)" and "D = unat (dequeue_pos r)"
  note ok = ring_wfD [OF assms(1), folded n_def E_def D_def]
  have room: "E < D + n" using assms(2) by (simp add: n_def E_def D_def)
  have lf: "E + 1 + n < 2 ^ 63" using assms(3) by (simp add: ring_life_def n_def E_def)
  define i where "i = unat (enqueue_pos r AND buffer_mask r)"
  have i: "i = E mod n" using ok(3) by (simp add: i_def E_def)
  have rd: "rd (cells r) i = Some (ring_at r E)" using ring_rd [OF assms(1)] by (simp add: i_def E_def)
  have "unat (sequence (ring_at r E)) = E" using ok(8) [of E] room by simp
  then have "sequence (ring_at r E) = enqueue_pos r" by (simp add: E_def word_unat_eq_iff)
  moreover define r' where "r' = r\<lparr>enqueue_pos := enqueue_pos r + 1,
      cells := (cells r)[i := \<lparr>sequence = enqueue_pos r + 1, data = x\<rparr>]\<rparr>"
  ultimately have push: "Push x r = Some (True, r')"
    using rd by (simp add: Push_def push_from.simps [of r x "enqueue_pos r"] i_def [symmetric] Let_def)
  have E1: "unat (enqueue_pos r + 1) = E + 1" using lf by (simp add: unat_suc_small E_def)
  have at: "ring_at r' p = (if p = E then \<lparr>sequence = enqueue_pos r + 1, data = x\<rparr> else ring_at r p)"
    if "D \<le> p" "p < D + n" for p
    by (rule ring_at_update [where d = D]) (use that ok(1,4) room i in \<open>simp_all add: r'_def n_def\<close>)
  have n': "length (cells r') = n" "unat (enqueue_pos r') = E + 1" "unat (dequeue_pos r') = D"
    "ring_size r' = ring_size r" "buffer_mask r' = buffer_mask r"
    using E1 by (simp_all add: r'_def n_def D_def)
  have "ring_wf r'"
    unfolding ring_wf_def Let_def n'
    using ok(1-6) room lf at ok(7,8) E1 by (auto simp: less_Suc_eq)
  moreover have "ring_abs r' = ring_abs r @ [x]"
  proof -
    have "map (\<lambda>p. data (ring_at r' p)) [D..<E] = map (\<lambda>p. data (ring_at r p)) [D..<E]"
      using at room by (intro map_cong) auto
    then show ?thesis using at [of E] ok(4) room by (simp add: ring_abs_def n' D_def [symmetric] E_def [symmetric])
  qed
  moreover have "ring_room r' = ring_room r" using n' by (simp add: ring_room_def n_def)
  moreover have "ring_life r = Suc (ring_life r')"
    using lf n' by (simp add: ring_life_def n_def [symmetric] E_def [symmetric])
  ultimately show ?thesis using push by blast
qed

lemma Push_full:
  assumes "ring_ok r" "unat (enqueue_pos r) = unat (dequeue_pos r) + length (cells r)"
  shows "Push x r = Some (False, r)"
proof -
  define n E D where "n = length (cells r)" and "E = unat (enqueue_pos r)" and "D = unat (dequeue_pos r)"
  note wf = ring_okD(2) [OF assms(1)]
  note ok = ring_wfD [OF wf, folded n_def E_def D_def]
  have two: "2 \<le> n" using ring_okD(1) [OF assms(1)] by (simp add: n_def)
  have full: "E = D + n" using assms(2) by (simp add: n_def E_def D_def)
  have "ring_at r E = ring_at r D" using full by (simp add: ring_at_def n_def)
  then have s: "unat (sequence (ring_at r E)) = D + 1" using ok(7) [of D] full ok(1) by simp
  have rd: "rd (cells r) (unat (enqueue_pos r AND buffer_mask r)) = Some (ring_at r E)"
    using ring_rd [OF wf] by (simp add: E_def)
  have "sint (sequence (ring_at r E)) = int (D + 1)" using ok(1,6) full by (intro sint_of_unat [OF s]) simp
  moreover have "sint (enqueue_pos r) = int E" using ok(6) by (intro sint_of_unat) (simp_all add: E_def)
  ultimately have "sint (sequence (ring_at r E)) - sint (enqueue_pos r) < 0" using full two by simp
  then show ?thesis using rd by (simp add: Push_def push_from.simps [of r x "enqueue_pos r"] Let_def)
qed

lemma Pop_some:
  assumes "ring_wf r" "unat (dequeue_pos r) < unat (enqueue_pos r)"
  shows "\<exists>r'. Pop r = Some (Some (data (ring_at r (unat (dequeue_pos r)))), r') \<and> ring_wf r' \<and>
    ring_abs r = data (ring_at r (unat (dequeue_pos r))) # ring_abs r' \<and>
    ring_room r' = ring_room r \<and> ring_life r' = ring_life r"
proof -
  define n E D where "n = length (cells r)" and "E = unat (enqueue_pos r)" and "D = unat (dequeue_pos r)"
  note ok = ring_wfD [OF assms(1), folded n_def E_def D_def]
  have lt: "D < E" using assms(2) by (simp add: E_def D_def)
  define i where "i = unat (dequeue_pos r AND buffer_mask r)"
  have i: "i = D mod n" using ok(3) by (simp add: i_def D_def)
  have rd: "rd (cells r) i = Some (ring_at r D)" using ring_rd [OF assms(1)] by (simp add: i_def D_def)
  have D1: "unat (dequeue_pos r + 1) = D + 1" using lt ok(6) by (simp add: unat_suc_small D_def)
  have "unat (sequence (ring_at r D)) = D + 1" using ok(7) [of D] lt by simp
  then have "sequence (ring_at r D) = dequeue_pos r + 1" using D1 by (simp add: word_unat_eq_iff)
  moreover define c where "c = (ring_at r D)\<lparr>sequence := dequeue_pos r + ring_size r\<rparr>"
  moreover define r' where "r' = r\<lparr>dequeue_pos := dequeue_pos r + 1, cells := (cells r)[i := c]\<rparr>"
  ultimately have pop: "Pop r = Some (Some (data (ring_at r D)), r')"
    using rd by (simp add: Pop_def pop_from.simps [of r "dequeue_pos r"] i_def [symmetric] Let_def)
  have sz: "unat (dequeue_pos r + ring_size r) = D + n"
    using unat_add_small [of "dequeue_pos r" "ring_size r"] ok(2,6) lt by (simp add: D_def)
  have at: "ring_at r' p = (if p = D then c else ring_at r p)" if "D \<le> p" "p < D + n" for p
  proof -
    have "D < D + length (cells r)" using ok(1) n_def by linarith
    then show ?thesis
      by (intro ring_at_update [where d = D]) (use that ok(1) i in \<open>simp_all add: r'_def n_def\<close>)
  qed
  have n': "length (cells r') = n" "unat (enqueue_pos r') = E" "unat (dequeue_pos r') = D + 1"
    "ring_size r' = ring_size r" "buffer_mask r' = buffer_mask r"
    using D1 by (simp_all add: r'_def n_def E_def)
  have wrap: "ring_at r' (D + n) = c"
    using at [of D] ok(1) n'(1) by (simp add: ring_at_def)
  have seqs: "unat (sequence (ring_at r' p)) = (if p < E then p + 1 else p)" if "D + 1 \<le> p" "p < D + 1 + n" for p
  proof (cases "p = D + n")
    case True
    then show ?thesis using wrap sz ok(5) by (simp add: c_def)
  next
    case False
    then show ?thesis using at [of p] that ok(7,8) [of p] by simp
  qed
  have "ring_wf r'" unfolding ring_wf_def Let_def n' using ok(1-6) lt seqs by simp
  moreover have "ring_abs r = data (ring_at r D) # ring_abs r'"
  proof -
    have "[D..<E] = D # [D + 1..<E]" using lt by (simp add: upt_conv_Cons)
    moreover have "map (\<lambda>p. data (ring_at r p)) [D + 1..<E] = map (\<lambda>p. data (ring_at r' p)) [D + 1..<E]"
      using at ok(5) by (intro map_cong) auto
    ultimately show ?thesis by (simp add: ring_abs_def n' D_def [symmetric] E_def [symmetric])
  qed
  moreover have "ring_room r' = ring_room r" "ring_life r' = ring_life r"
    using n' by (simp_all add: ring_room_def ring_life_def n_def E_def)
  ultimately show ?thesis using pop by (simp add: D_def)
qed

lemma Pop_empty:
  assumes "ring_wf r" "unat (dequeue_pos r) = unat (enqueue_pos r)"
  shows "Pop r = Some (None, r)"
proof -
  define n E D where "n = length (cells r)" and "E = unat (enqueue_pos r)" and "D = unat (dequeue_pos r)"
  note ok = ring_wfD [OF assms(1), folded n_def E_def D_def]
  have eq: "D = E" using assms(2) by (simp add: D_def E_def)
  have s: "unat (sequence (ring_at r D)) = D" using ok(8) [of D] eq ok(1) by simp
  have rd: "rd (cells r) (unat (dequeue_pos r AND buffer_mask r)) = Some (ring_at r D)"
    using ring_rd [OF assms(1)] by (simp add: D_def)
  have D1: "unat (dequeue_pos r + 1) = D + 1" using eq ok(1,6) by (simp add: unat_suc_small D_def)
  have "sint (sequence (ring_at r D)) = int D" using ok(6) eq by (intro sint_of_unat [OF s]) simp
  moreover have "sint (dequeue_pos r + 1) = int (D + 1)" using ok(1,6) eq by (intro sint_of_unat [OF D1]) simp
  ultimately have "sint (sequence (ring_at r D)) - sint (dequeue_pos r + 1) < 0" by simp
  then show ?thesis using rd by (simp add: Pop_def pop_from.simps [of r "dequeue_pos r"] Let_def)
qed

interpretation wf_ring: roomy_queue ring_wf ring_abs ring_room ring_life Push Pop
proof unfold_locales
  fix s :: "'a ring" and x
  have len: "length (ring_abs s) = unat (enqueue_pos s) - unat (dequeue_pos s)" for s :: "'a ring"
    by (simp add: ring_abs_def)
  show "\<exists>s'. Push x s = Some (True, s') \<and> ring_wf s' \<and> ring_abs s' = ring_abs s @ [x] \<and>
      ring_room s' = ring_room s \<and> ring_life s = Suc (ring_life s')"
    if "ring_wf s" "0 < ring_life s" "length (ring_abs s) < ring_room s"
    using Push_room [OF that(1) _ that(2)] that(3) len [of s] by (simp add: ring_room_def)
  show "\<exists>s'. Pop s = Some (Some x, s') \<and> ring_wf s' \<and> ring_abs s' = xs \<and> ring_room s' = ring_room s \<and>
      ring_life s' = ring_life s" if "ring_wf s" "ring_abs s = x # xs" for xs
  proof -
    have "unat (dequeue_pos s) < unat (enqueue_pos s)" using that(2) len [of s] by simp
    from Pop_some [OF that(1) this] show ?thesis using that(2) by auto
  qed
  show "Pop s = Some (None, s)" if "ring_wf s" "ring_abs s = []"
    using Pop_empty [OF that(1)] that(2) len [of s] ring_wfD(4) [OF that(1)] by simp
  show "length (ring_abs s) \<le> ring_room s" if "ring_wf s"
    using len [of s] ring_wfD(5) [OF that] by (simp add: ring_room_def)
qed

interpretation ring: bounded_queue ring_ok ring_abs ring_room ring_life Push Pop
proof unfold_locales
  fix s :: "'a ring" and x
  show "\<exists>s'. Push x s = Some (True, s') \<and> ring_ok s' \<and> ring_abs s' = ring_abs s @ [x] \<and>
      ring_room s' = ring_room s \<and> ring_life s = Suc (ring_life s')"
    if "ring_ok s" "0 < ring_life s" "length (ring_abs s) < ring_room s"
    using wf_ring.push_room [OF ring_okD(2) [OF that(1)] that(2,3), of x] ring_okD(1) [OF that(1)]
    by (auto simp: ring_ok_def ring_room_def)
  show "\<exists>s'. Pop s = Some (Some x, s') \<and> ring_ok s' \<and> ring_abs s' = xs \<and> ring_room s' = ring_room s \<and>
      ring_life s' = ring_life s" if "ring_ok s" "ring_abs s = x # xs" for xs
    using wf_ring.pop_some [OF ring_okD(2) [OF that(1)] that(2)] ring_okD(1) [OF that(1)]
    by (auto simp: ring_ok_def ring_room_def)
  show "Pop s = Some (None, s)" if "ring_ok s" "ring_abs s = []"
    by (rule wf_ring.pop_empty [OF ring_okD(2) [OF that(1)] that(2)])
  show "length (ring_abs s) \<le> ring_room s" if "ring_ok s"
    by (rule wf_ring.bounded [OF ring_okD(2) [OF that]])
  show "Push x s = Some (False, s)" if "ring_ok s" "length (ring_abs s) = ring_room s"
    using Push_full [OF that(1)] that(2) ring_wfD(4) [OF ring_okD(2) [OF that(1)]] by (simp add: ring_room_def ring_abs_def)
qed

section \<open>Construction\<close>

lemma unat_exp64: "k < 64 \<Longrightarrow> unat (2 ^ k :: u64) = 2 ^ k"
proof -
  assume "k < 64"
  then have "(2 ^ k :: nat) < 2 ^ 64" by (intro power_strict_increasing) simp_all
  then have "unat (of_nat (2 ^ k) :: u64) = 2 ^ k" by (simp only: unat_of_nat len_num1 len_bit0) simp
  then show ?thesis by simp
qed

lemma next_pow2_eq:
  "k \<le> j \<Longrightarrow> j < 64 \<Longrightarrow> \<forall>i. k \<le> i \<and> i < j \<longrightarrow> 2 ^ i < unat n \<Longrightarrow> unat n \<le> 2 ^ j \<Longrightarrow>
   next_pow2 n (2 ^ k) = Some (2 ^ j)"
proof (induction "j - k" arbitrary: k)
  case 0
  then have "\<not> (2 ^ j :: u64) < n" using unat_exp64 [of j] by (simp add: word_less_nat_alt)
  then show ?case using 0 by (subst next_pow2.simps) simp
next
  case (Suc d)
  then have kj: "k < j" by simp
  have "(2 ^ k :: u64) < n" using Suc.prems(2,3) kj unat_exp64 [of k] by (simp add: word_less_nat_alt)
  moreover have "push_bit 1 (2 ^ k :: u64) = 2 ^ Suc k" by (simp add: push_bit_eq_mult)
  moreover have "next_pow2 n (2 ^ Suc k) = Some (2 ^ j)"
    using Suc kj by (intro Suc.hyps(1)) auto
  ultimately show ?case by (subst next_pow2.simps) (simp only: if_True)
qed

text \<open>The test \<open>n & (n - 1)\<close> recognises powers of two.\<close>

lemma pow2_test:
  assumes "(n :: u64) AND (n - 1) = 0" "n \<noteq> 0"
  shows "\<exists>k < 64. n = 2 ^ k"
proof -
  have pos: "1 \<le> unat n" using assms(2) by (simp add: unat_gt_0 Suc_le_eq)
  then obtain h where h: "2 ^ h \<le> unat n" "unat n < 2 ^ (h + 1)" using ex_power_ivl1 [of 2 "unat n"] by auto
  have "unat n < 2 ^ 64" using unsigned_less [of n] by simp
  then have h64: "h < 64" using h(1) by (meson le_less_trans power_less_imp_less_exp one_less_numeral_iff semiring_norm(76))
  have top: "bit w h" if "2 ^ h \<le> unat w" "unat w < 2 ^ (h + 1)" for w :: u64
  proof -
    have "unat w div 2 ^ h = 1" using that by (intro div_nat_eqI) simp_all
    then have "bit (unat w) h" by (simp add: bit_iff_odd)
    then show ?thesis by (simp add: bit_unsigned_iff)
  qed
  have "unat n = 2 ^ h"
  proof (rule ccontr)
    assume "unat n \<noteq> 2 ^ h"
    then have "2 ^ h \<le> unat n - 1" using h(1) by linarith
    moreover have "unat (n - 1) = unat n - 1" using assms(2) by (rule unat_minus_one)
    ultimately have "bit (n - 1) h" using h(2) by (intro top) simp_all
    then have "bit (n AND (n - 1)) h" using top [OF h] by (simp add: bit_and_iff)
    then show False using assms(1) by simp
  qed
  then have "n = 2 ^ h" using unat_exp64 [OF h64] by (simp add: word_unat_eq_iff)
  then show ?thesis using h64 by blast
qed

lemma ring_pow2_ok:
  fixes init :: 'a
  assumes "1 \<le> k" "k \<le> 62"
  defines "r \<equiv> \<lparr>ring_size = 2 ^ k, buffer_mask = 2 ^ k - 1, cells = new_cells init (2 ^ k),
              enqueue_pos = 0, dequeue_pos = 0\<rparr>"
  shows "ring_ok r \<and> ring_abs r = [] \<and> ring_room r = 2 ^ k \<and> ring_life r = 2 ^ 63 - 1 - 2 ^ k"
proof -
  have sz: "unat (2 ^ k :: u64) = 2 ^ k" using assms(2) by (intro unat_exp64) simp
  have len: "length (cells r) = 2 ^ k" by (simp add: r_def new_cells_def sz)
  have mask: "unat (p AND buffer_mask r) = unat p mod 2 ^ k" for p
  proof -
    have "p AND (2 ^ k - 1) = take_bit k p" by (simp only: mask_eq_exp_minus_1 [symmetric] take_bit_eq_mask)
    moreover have "unat (take_bit k p) = take_bit k (unat p)" by (rule unsigned_take_bit_eq)
    ultimately have "unat (p AND (2 ^ k - 1)) = unat p mod 2 ^ k"
      using take_bit_eq_mod [of k "unat p"] by (simp only:)
    then show ?thesis by (simp add: r_def)
  qed
  have "(2 ^ 1 :: nat) \<le> 2 ^ k" "(2 ^ k :: nat) \<le> 2 ^ 62"
    using power_increasing [of 1 k "2 :: nat"] power_increasing [of k 62 "2 :: nat"] assms(1,2) by simp_all
  then have b: "(2::nat) \<le> 2 ^ k" "(2 ^ k :: nat) < 2 ^ 63" by simp_all
  have seq: "unat (sequence (ring_at r p)) = p" if "p < 2 ^ k" for p
  proof -
    have "ring_at r p = \<lparr>sequence = of_nat p, data = init\<rparr>"
      using that len by (simp add: ring_at_def) (simp add: r_def new_cells_def sz)
    moreover have "p mod 2 ^ 64 = p" using that b(2) by simp
    ultimately show ?thesis by (simp only: cell.select_convs unat_of_nat len_num1 len_bit0) simp
  qed
  have "ring_ok r"
    unfolding ring_ok_def ring_wf_def Let_def len using b mask seq sz by (simp add: r_def)
  then show ?thesis using len by (simp add: ring_abs_def ring_room_def ring_life_def) (simp add: r_def)
qed

lemma ring_new:
  assumes "2 \<le> unat n" "unat n \<le> 2 ^ 62"
  shows "\<exists>r k. LockFreeRingBuffer init n = Some r \<and> ring_ok r \<and> ring_abs r = [] \<and>
    ring_room r = 2 ^ k \<and> unat n \<le> 2 ^ k \<and> 2 ^ k < 2 * unat n \<and> k \<le> 62 \<and> enqueue_pos r = 0 \<and> dequeue_pos r = 0"
proof (cases "n AND (n - 1) = 0")
  case True
  moreover have "n \<noteq> 0" using assms(1) by auto
  ultimately obtain k where k: "k < 64" "n = 2 ^ k" using pow2_test [of n] by blast
  then have u: "unat n = 2 ^ k" using unat_exp64 by simp
  have "1 \<le> k" using assms(1) u by (cases k) simp_all
  moreover have "k \<le> 62"
    using assms(2) u power_le_imp_le_exp [of "2::nat" k 62] by simp
  ultimately show ?thesis
    using True ring_pow2_ok [of k init] k(2) u by (auto simp: LockFreeRingBuffer_def intro!: exI [of _ k])
next
  case False
  define j where "j = (LEAST j. unat n \<le> 2 ^ j)"
  have nj: "unat n \<le> 2 ^ j" unfolding j_def by (rule LeastI [of _ 62]) (use assms(2) in simp)
  have j62: "j \<le> 62" unfolding j_def by (rule Least_le) (use assms(2) in simp)
  have least: "\<not> unat n \<le> 2 ^ i" if "i < j" for i using that unfolding j_def by (rule not_less_Least)
  have j1: "1 \<le> j" using nj assms(1) by (cases j) simp_all
  have "next_pow2 n (2 ^ 0) = Some (2 ^ j)"
    by (rule next_pow2_eq) (use j62 least nj in \<open>auto simp: not_le\<close>)
  then have new: "LockFreeRingBuffer init n = Some \<lparr>ring_size = 2 ^ j, buffer_mask = 2 ^ j - 1,
      cells = new_cells init (2 ^ j), enqueue_pos = 0, dequeue_pos = 0\<rparr>"
    using False by (simp add: LockFreeRingBuffer_def)
  have "(2 :: nat) ^ j = 2 * 2 ^ (j - 1)" using j1 by (cases j) simp_all
  moreover have "2 ^ (j - 1) < unat n" using least [of "j - 1"] j1 by simp
  ultimately have up: "2 ^ j < 2 * unat n" by linarith
  note ok = ring_pow2_ok [OF j1 j62, of init]
  show ?thesis
    by (rule exI [of _ "\<lparr>ring_size = 2 ^ j, buffer_mask = 2 ^ j - 1, cells = new_cells init (2 ^ j),
              enqueue_pos = 0, dequeue_pos = 0\<rparr>"], rule exI [of _ j])
      (use new ok nj up j62 in simp)
qed

lemma ring_new_wf:
  assumes "1 \<le> unat n" "unat n \<le> 2 ^ 62"
  shows "\<exists>r. LockFreeRingBuffer init n = Some r \<and> ring_wf r \<and> ring_abs r = [] \<and> unat n \<le> ring_room r \<and> 2 ^ 62 - 1 \<le> ring_life r"
proof (cases "2 \<le> unat n")
  case True
  obtain r k where r: "LockFreeRingBuffer init n = Some r" "ring_ok r" "ring_abs r = []" "ring_room r = 2 ^ k"
    "unat n \<le> 2 ^ k" "k \<le> 62" "enqueue_pos r = 0"
    using ring_new [OF True assms(2), of init] by blast
  have "(2::nat) ^ k \<le> 2 ^ 62" using r(6) by (intro power_increasing) simp_all
  then have "2 ^ 62 - 1 \<le> ring_life r" using r(4,7) by (simp add: ring_life_def ring_room_def)
  then show ?thesis using r ring_okD(2) by auto
next
  case False
  then have "n = 1" using assms(1) by (simp add: word_unat_eq_iff)
  let ?r = "\<lparr>ring_size = 1, buffer_mask = 0, cells = [\<lparr>sequence = 0, data = init\<rparr>], enqueue_pos = 0, dequeue_pos = 0\<rparr>"
  have "LockFreeRingBuffer init 1 = Some ?r" by (simp add: LockFreeRingBuffer_def new_cells_def)
  moreover have "ring_wf ?r" by (simp add: ring_wf_def ring_at_def)
  ultimately show ?thesis using \<open>n = 1\<close> by (auto simp: ring_abs_def ring_room_def ring_life_def)
qed

text \<open>the constructor of a ring of any requested size from 2 to \<open>2 ^ 62\<close> terminates and gives an empty,
  well-formed ring whose capacity is the least power of two that is large enough.\<close>

lemma ring_constructor:
  assumes "2 \<le> unat n" "unat n \<le> 2 ^ 62"
  shows "\<exists>r k. LockFreeRingBuffer init n = Some r \<and> ring_ok r \<and> ring_abs r = [] \<and>
    ring_room r = 2 ^ k \<and> unat n \<le> 2 ^ k \<and> 2 ^ k < 2 * unat n"
  using ring_new [OF assms, of init] by blast

lemma ring_8: "\<exists>r. LockFreeRingBuffer init 8 = Some r \<and> ring_ok r \<and> ring_abs r = [] \<and> ring_room r = 8 \<and> 8 \<le> ring_life r"
proof -
  let ?r = "\<lparr>ring_size = 8, buffer_mask = 7, cells = new_cells init 8, enqueue_pos = 0, dequeue_pos = 0\<rparr>"
  have "LockFreeRingBuffer init 8 = Some ?r" by (simp add: LockFreeRingBuffer_def)
  moreover have "ring_ok ?r \<and> ring_abs ?r = [] \<and> ring_room ?r = 8 \<and> ring_life ?r = 2 ^ 63 - 1 - 8"
    using ring_pow2_ok [of 3 init] by simp
  moreover have "(8 :: nat) \<le> 2 ^ 63 - 1 - 8" by simp
  ultimately show ?thesis by metis
qed

text \<open>C6: a push on a well-formed ring appends to the queue it represents, or answers false and changes
  nothing when the queue is full; a pop takes the oldest element, or answers that the queue is
  empty and changes nothing.\<close>

theorem ring_refines_queue:
  assumes "ring_ok r" "0 < ring_life r"
  shows "\<exists>ok r1 y r2. Push x r = Some (ok, r1) \<and> ring_ok r1 \<and>
      (if length (ring_abs r) < ring_room r then ok \<and> ring_abs r1 = ring_abs r @ [x] else \<not> ok \<and> r1 = r) \<and>
      Pop r = Some (y, r2) \<and> ring_ok r2 \<and>
      (case ring_abs r of [] \<Rightarrow> y = None \<and> r2 = r | z # zs \<Rightarrow> y = Some z \<and> ring_abs r2 = zs)"
proof -
  have "\<exists>ok r1. Push x r = Some (ok, r1) \<and> ring_ok r1 \<and>
      (if length (ring_abs r) < ring_room r then ok \<and> ring_abs r1 = ring_abs r @ [x] else \<not> ok \<and> r1 = r)"
    using ring.push_room [OF assms, of x] ring.push_full [OF assms(1), of x] ring.bounded [OF assms(1)] assms(1)
    by (cases "length (ring_abs r) < ring_room r") auto
  moreover have "\<exists>y r2. Pop r = Some (y, r2) \<and> ring_ok r2 \<and>
      (case ring_abs r of [] \<Rightarrow> y = None \<and> r2 = r | z # zs \<Rightarrow> y = Some z \<and> ring_abs r2 = zs)"
    using ring.pop_empty [OF assms(1)] ring.pop_some [OF assms(1)] assms(1)
    by (cases "ring_abs r") auto
  ultimately show ?thesis by blast
qed

theorem ring_refines_queue_witness:
  "\<exists>r r1. LockFreeRingBuffer (0 :: nat) 8 = Some r \<and> ring_ok r \<and> Push 5 r = Some (True, r1) \<and> ring_abs r1 = [5]"
proof -
  obtain r where r: "LockFreeRingBuffer (0 :: nat) 8 = Some r" "ring_ok r" "ring_abs r = []" "ring_room r = 8"
    "8 \<le> ring_life r" using ring_8 [of "0 :: nat"] by blast
  then have "0 < ring_life r" by simp
  from ring_refines_queue [OF r(2) this, of 5] show ?thesis using r by auto
qed

section \<open>A ring of one cell\<close>

text \<open>In a ring of one cell the sequence number after a push is the one the next push waits for.\<close>

lemma pop_stuck:
  fixes r :: "'a ring"
  assumes "cells r = [c]" "buffer_mask r = 0" "sint (sequence c) > sint (dequeue_pos r + 1)"
  shows "pop_from r (dequeue_pos r) = None"
proof -
  have "t = r \<and> pos = dequeue_pos r \<longrightarrow> False" if "pop_from t pos = Some y" for t :: "'a ring" and pos y
  proof (rule pop_from.raw_induct [OF _ that, where P = "\<lambda>t pos y. t = r \<and> pos = dequeue_pos r \<longrightarrow> False"])
    fix pop :: "'a ring \<Rightarrow> u64 \<Rightarrow> ('a option \<times> 'a ring) option" and t pos y
    assume IH: "\<And>t pos y. pop t pos = Some y \<Longrightarrow> t = r \<and> pos = dequeue_pos r \<longrightarrow> False"
    assume run: "(do {
       let i = unat (pos AND buffer_mask t);
       cell \<leftarrow> rd (cells t) i;
       let dif = sint (sequence cell) - sint (pos + 1);
       if dif = 0 then
         if dequeue_pos t = pos then
           Some (Some (data cell), t\<lparr>dequeue_pos := pos + 1, cells := (cells t)[i := cell\<lparr>sequence := pos + ring_size t\<rparr>]\<rparr>)
         else pop t (dequeue_pos t)
       else if dif < 0 then Some (None, t)
       else pop t (dequeue_pos t)
     }) = Some y"
    show "t = r \<and> pos = dequeue_pos r \<longrightarrow> False"
    proof (intro impI)
      assume at: "t = r \<and> pos = dequeue_pos r"
      then have "pop r (dequeue_pos r) = Some y" using run assms by (simp add: rd_def)
      then show False using IH [of r "dequeue_pos r" y] by simp
    qed
  qed
  then show ?thesis by (metis option.exhaust)
qed

text \<open>a ring of one cell loses an element and then hangs: a second push before the first pop is accepted and
  overwrites the first element, and from then on \<open>Pop\<close> never returns.\<close>

lemma ring_of_one_hangs:
  "\<exists>r0 r1 r2. LockFreeRingBuffer init 1 = Some r0 \<and> Push x r0 = Some (True, r1) \<and> Push y r1 = Some (True, r2) \<and> Pop r2 = None"
proof -
  let ?r = "\<lambda>s d e. \<lparr>ring_size = 1, buffer_mask = 0, cells = [\<lparr>sequence = s, data = d\<rparr>], enqueue_pos = e, dequeue_pos = 0\<rparr>"
  have "LockFreeRingBuffer init 1 = Some (?r 0 init 0)" by (simp add: LockFreeRingBuffer_def new_cells_def)
  moreover have "Push x (?r 0 init 0) = Some (True, ?r 1 x 1)" "Push y (?r 1 x 1) = Some (True, ?r 2 y 2)"
    by (simp_all add: Push_def push_from.simps rd_def Let_def)
  moreover have "Pop (?r 2 y 2) = None" 
    unfolding Pop_def by (rule pop_stuck [where c = "\<lparr>sequence = 2, data = y\<rparr>"]) (simp_all add: sint_of_unat [where k = 2])
  ultimately show ?thesis by blast
qed

end
