(* ===== verification/Ring_Threads.thy ===== *)
theory Ring_Threads
  imports Ring
begin

text \<open>
  \<open>LockFreeRingBuffer\<close> under concurrency: \<open>Push\<close> and \<open>Pop\<close> of \<open>include/ftj_engine.hpp\<close> cut at their accesses
  to shared memory, run by any number of threads in any order. One step of a thread is one load, one
  compare-and-swap, one plain access of a cell's data or one store of a sequence number. A weak
  compare-and-swap may fail for no reason and reloads the position when it fails.

  The steps interleave in one order that all threads see (sequential consistency). The code relies on
  release and acquire for the sequence numbers only; what the weaker order of the position counters
  allows beyond that is not modelled.
\<close>

section \<open>The code, step by step\<close>

text \<open>Where a thread is: the local variables it needs from there on.\<close>

datatype 'a pc =
    Outside
  | PushLoad 'a
  | PushSeq 'a u64
  | PushCas 'a u64
  | PushData 'a u64
  | PushStore u64
  | PushDone bool
  | PopLoad
  | PopSeq u64
  | PopCas u64
  | PopData u64
  | PopStore u64 'a
  | PopDone "'a option"

text \<open>What a step is to an observer: an element gets its position, or the element of a position is taken.\<close>

datatype 'a event = Quiet | Enqueued 'a | Dequeued nat 'a

definition cell_of :: "'a ring \<Rightarrow> u64 \<Rightarrow> nat" where
  "cell_of r pos = unat (pos AND buffer_mask r)"

fun push_step :: "bool \<Rightarrow> 'a pc \<Rightarrow> 'a ring \<Rightarrow> ('a event \<times> 'a pc \<times> 'a ring) option" where
  "push_step spurious (PushLoad x) r = Some (Quiet, PushSeq x (enqueue_pos r), r)"
| "push_step spurious (PushSeq x pos) r = do {
     cell \<leftarrow> rd (cells r) (cell_of r pos);
     let dif = sint (sequence cell) - sint pos;
     Some (Quiet, if dif = 0 then PushCas x pos else if dif < 0 then PushDone False else PushLoad x, r)
   }"
| "push_step spurious (PushCas x pos) r =
     (if enqueue_pos r = pos \<and> \<not> spurious
      then Some (Enqueued x, PushData x pos, r\<lparr>enqueue_pos := pos + 1\<rparr>)
      else Some (Quiet, PushSeq x (enqueue_pos r), r))"
| "push_step spurious (PushData x pos) r = do {
     cell \<leftarrow> rd (cells r) (cell_of r pos);
     Some (Quiet, PushStore pos, r\<lparr>cells := (cells r)[cell_of r pos := cell\<lparr>data := x\<rparr>]\<rparr>)
   }"
| "push_step spurious (PushStore pos) r = do {
     cell \<leftarrow> rd (cells r) (cell_of r pos);
     Some (Quiet, PushDone True, r\<lparr>cells := (cells r)[cell_of r pos := cell\<lparr>sequence := pos + 1\<rparr>]\<rparr>)
   }"
| "push_step spurious _ r = None"

fun pop_step :: "bool \<Rightarrow> 'a pc \<Rightarrow> 'a ring \<Rightarrow> ('a event \<times> 'a pc \<times> 'a ring) option" where
  "pop_step spurious PopLoad r = Some (Quiet, PopSeq (dequeue_pos r), r)"
| "pop_step spurious (PopSeq pos) r = do {
     cell \<leftarrow> rd (cells r) (cell_of r pos);
     let dif = sint (sequence cell) - sint (pos + 1);
     Some (Quiet, if dif = 0 then PopCas pos else if dif < 0 then PopDone None else PopLoad, r)
   }"
| "pop_step spurious (PopCas pos) r =
     (if dequeue_pos r = pos \<and> \<not> spurious
      then Some (Quiet, PopData pos, r\<lparr>dequeue_pos := pos + 1\<rparr>)
      else Some (Quiet, PopSeq (dequeue_pos r), r))"
| "pop_step spurious (PopData pos) r = do {
     cell \<leftarrow> rd (cells r) (cell_of r pos);
     Some (Dequeued (unat pos) (data cell), PopStore pos (data cell), r)
   }"
| "pop_step spurious (PopStore pos x) r = do {
     cell \<leftarrow> rd (cells r) (cell_of r pos);
     Some (Quiet, PopDone (Some x), r\<lparr>cells := (cells r)[cell_of r pos := cell\<lparr>sequence := pos + ring_size r\<rparr>]\<rparr>)
   }"
| "pop_step spurious _ r = None"

fun pushing_pc :: "'a pc \<Rightarrow> bool" where
  "pushing_pc (PushLoad x) = True" | "pushing_pc (PushSeq x p) = True" | "pushing_pc (PushCas x p) = True"
| "pushing_pc (PushData x p) = True" | "pushing_pc (PushStore p) = True" | "pushing_pc _ = False"

fun popping_pc :: "'a pc \<Rightarrow> bool" where
  "popping_pc PopLoad = True" | "popping_pc (PopSeq p) = True" | "popping_pc (PopCas p) = True"
| "popping_pc (PopData p) = True" | "popping_pc (PopStore p x) = True" | "popping_pc _ = False"

definition idle_pc :: "'a pc \<Rightarrow> bool" where
  "idle_pc pc \<longleftrightarrow> \<not> pushing_pc pc \<and> \<not> popping_pc pc"

inductive ring_step :: "'a ring \<times> (nat \<Rightarrow> 'a pc) \<Rightarrow> 'a event \<Rightarrow> 'a ring \<times> (nat \<Rightarrow> 'a pc) \<Rightarrow> bool" where
  call_push: "idle_pc (T t) \<Longrightarrow> ring_step (r, T) Quiet (r, T(t := PushLoad x))"
| call_pop: "idle_pc (T t) \<Longrightarrow> ring_step (r, T) Quiet (r, T(t := PopLoad))"
| run_push: "push_step spurious (T t) r = Some (ev, pc, r') \<Longrightarrow> ring_step (r, T) ev (r', T(t := pc))"
| run_pop: "pop_step spurious (T t) r = Some (ev, pc, r') \<Longrightarrow> ring_step (r, T) ev (r', T(t := pc))"

text \<open>A run with the events it showed, oldest first.\<close>

inductive ring_run :: "'a ring \<Rightarrow> 'a event list \<Rightarrow> 'a ring \<times> (nat \<Rightarrow> 'a pc) \<Rightarrow> bool" for r0 where
  run_start: "ring_run r0 [] (r0, \<lambda>_. Outside)"
| run_more: "ring_run r0 tr s \<Longrightarrow> ring_step s ev s' \<Longrightarrow> ring_run r0 (tr @ [ev]) s'"

fun enqueued :: "'a event list \<Rightarrow> 'a list" where
  "enqueued [] = []"
| "enqueued (Enqueued x # es) = x # enqueued es"
| "enqueued (_ # es) = enqueued es"

fun dequeued :: "'a event list \<Rightarrow> (nat \<times> 'a) list" where
  "dequeued [] = []"
| "dequeued (Dequeued i x # es) = (i, x) # dequeued es"
| "dequeued (_ # es) = dequeued es"

lemma enqueued_append [simp]: "enqueued (xs @ ys) = enqueued xs @ enqueued ys"
  by (induction xs rule: enqueued.induct) simp_all

lemma dequeued_append [simp]: "dequeued (xs @ ys) = dequeued xs @ dequeued ys"
  by (induction xs rule: dequeued.induct) simp_all

section \<open>The invariant\<close>

text \<open>The position a thread has claimed and not yet published or released.\<close>

fun push_pos :: "'a pc \<Rightarrow> nat option" where
  "push_pos (PushData x p) = Some (unat p)"
| "push_pos (PushStore p) = Some (unat p)"
| "push_pos _ = None"

fun pop_pos :: "'a pc \<Rightarrow> nat option" where
  "pop_pos (PopData p) = Some (unat p)"
| "pop_pos (PopStore p x) = Some (unat p)"
| "pop_pos _ = None"

fun read_pos :: "'a pc \<Rightarrow> nat option" where
  "read_pos (PopData p) = Some (unat p)"
| "read_pos _ = None"

definition seq_at :: "'a ring \<Rightarrow> nat \<Rightarrow> nat" where
  "seq_at r p = unat (sequence (ring_at r p))"

definition data_at :: "'a ring \<Rightarrow> nat \<Rightarrow> 'a" where
  "data_at r p = data (ring_at r p)"

text \<open>What a thread knows; \<open>xs\<close> are the elements in the order of their positions.\<close>

fun pc_ok :: "'a list \<Rightarrow> 'a ring \<Rightarrow> 'a pc \<Rightarrow> bool" where
  "pc_ok xs r (PushSeq x p) \<longleftrightarrow> unat p \<le> unat (enqueue_pos r)"
| "pc_ok xs r (PushCas x p) \<longleftrightarrow> unat p \<le> unat (enqueue_pos r) \<and> (p = enqueue_pos r \<longrightarrow> seq_at r (unat p) = unat p)"
| "pc_ok xs r (PushData x p) \<longleftrightarrow> unat (dequeue_pos r) \<le> unat p \<and> unat p < unat (enqueue_pos r) \<and>
     seq_at r (unat p) = unat p \<and> x = xs ! unat p"
| "pc_ok xs r (PushStore p) \<longleftrightarrow> unat (dequeue_pos r) \<le> unat p \<and> unat p < unat (enqueue_pos r) \<and>
     seq_at r (unat p) = unat p \<and> data_at r (unat p) = xs ! unat p"
| "pc_ok xs r (PopSeq p) \<longleftrightarrow> unat p \<le> unat (dequeue_pos r)"
| "pc_ok xs r (PopCas p) \<longleftrightarrow> unat p \<le> unat (dequeue_pos r) \<and> (p = dequeue_pos r \<longrightarrow> seq_at r (unat p) = unat p + 1)"
| "pc_ok xs r (PopData p) \<longleftrightarrow> unat p < unat (dequeue_pos r) \<and> unat (enqueue_pos r) \<le> unat p + length (cells r) \<and>
     seq_at r (unat p) = unat p + 1 \<and> data_at r (unat p) = xs ! unat p"
| "pc_ok xs r (PopStore p x) \<longleftrightarrow> unat p < unat (dequeue_pos r) \<and> unat (enqueue_pos r) \<le> unat p + length (cells r) \<and>
     seq_at r (unat p) = unat p + 1 \<and> x = xs ! unat p"
| "pc_ok xs r _ \<longleftrightarrow> True"

definition geometry :: "'a ring \<Rightarrow> bool" where
  "geometry r \<longleftrightarrow> 2 \<le> length (cells r) \<and> unat (ring_size r) = length (cells r) \<and>
     (\<forall>p. cell_of r p = unat p mod length (cells r)) \<and> unat (dequeue_pos r) \<le> unat (enqueue_pos r) \<and>
     unat (enqueue_pos r) \<le> unat (dequeue_pos r) + length (cells r) \<and> unat (enqueue_pos r) + length (cells r) < 2 ^ 63"

text \<open>A claimed position is published or its thread is at work on it; a free one is released or its last
  element is being taken.\<close>

definition cells_ok :: "'a list \<Rightarrow> 'a ring \<Rightarrow> (nat \<Rightarrow> 'a pc) \<Rightarrow> bool" where
  "cells_ok xs r T \<longleftrightarrow>
     (\<forall>p. unat (dequeue_pos r) \<le> p \<and> p < unat (enqueue_pos r) \<longrightarrow>
        seq_at r p = p + 1 \<and> data_at r p = xs ! p \<or> seq_at r p = p \<and> (\<exists>t. push_pos (T t) = Some p)) \<and>
     (\<forall>p. unat (enqueue_pos r) \<le> p \<and> p < unat (dequeue_pos r) + length (cells r) \<longrightarrow>
        seq_at r p = p \<or> length (cells r) \<le> p \<and> seq_at r p = p - length (cells r) + 1 \<and>
          (\<exists>t. pop_pos (T t) = Some (p - length (cells r))))"

definition claims_ok :: "(nat \<Rightarrow> 'a pc) \<Rightarrow> bool" where
  "claims_ok T \<longleftrightarrow>
     (\<forall>t u p. push_pos (T t) = Some p \<and> push_pos (T u) = Some p \<longrightarrow> t = u) \<and>
     (\<forall>t u p. pop_pos (T t) = Some p \<and> pop_pos (T u) = Some p \<longrightarrow> t = u)"

text \<open>The elements taken so far: each position below the dequeue counter once, but for those still to be read.\<close>

definition taken_ok :: "'a list \<Rightarrow> (nat \<times> 'a) list \<Rightarrow> 'a ring \<Rightarrow> (nat \<Rightarrow> 'a pc) \<Rightarrow> bool" where
  "taken_ok xs ys r T \<longleftrightarrow> distinct (map fst ys) \<and> (\<forall>i y. (i, y) \<in> set ys \<longrightarrow> y = xs ! i) \<and>
     (\<forall>i. i < unat (dequeue_pos r) \<longleftrightarrow> i \<in> fst ` set ys \<or> (\<exists>t. read_pos (T t) = Some i)) \<and>
     (\<forall>t i. read_pos (T t) = Some i \<longrightarrow> i \<notin> fst ` set ys)"

definition ring_inv :: "'a list \<Rightarrow> (nat \<times> 'a) list \<Rightarrow> 'a ring \<times> (nat \<Rightarrow> 'a pc) \<Rightarrow> bool" where
  "ring_inv xs ys s \<longleftrightarrow> (case s of (r, T) \<Rightarrow> geometry r \<and> length xs = unat (enqueue_pos r) \<and> cells_ok xs r T \<and>
     claims_ok T \<and> (\<forall>t. pc_ok xs r (T t)) \<and> taken_ok xs ys r T)"

section \<open>Every step keeps the invariant\<close>

lemma at_fields [simp]:
  "seq_at (r\<lparr>enqueue_pos := e\<rparr>) p = seq_at r p" "data_at (r\<lparr>enqueue_pos := e\<rparr>) p = data_at r p"
  "seq_at (r\<lparr>dequeue_pos := e\<rparr>) p = seq_at r p" "data_at (r\<lparr>dequeue_pos := e\<rparr>) p = data_at r p"
  "cell_of (r\<lparr>enqueue_pos := e\<rparr>) q = cell_of r q" "cell_of (r\<lparr>dequeue_pos := e\<rparr>) q = cell_of r q"
  "cell_of (r\<lparr>cells := cs\<rparr>) q = cell_of r q"
  by (simp_all add: seq_at_def data_at_def ring_at_def cell_of_def)

lemma geometryD:
  assumes "geometry r"
  shows "2 \<le> length (cells r)" "unat (ring_size r) = length (cells r)" "cell_of r p = unat p mod length (cells r)"
    "unat (dequeue_pos r) \<le> unat (enqueue_pos r)" "unat (enqueue_pos r) \<le> unat (dequeue_pos r) + length (cells r)"
    "unat (enqueue_pos r) + length (cells r) < 2 ^ 63"
  using assms by (simp_all add: geometry_def)

lemma at_update:
  assumes "geometry r"
  shows "seq_at (r\<lparr>cells := (cells r)[cell_of r pos := c]\<rparr>) p =
      (if p mod length (cells r) = unat pos mod length (cells r) then unat (sequence c) else seq_at r p)"
    and "data_at (r\<lparr>cells := (cells r)[cell_of r pos := c]\<rparr>) p =
      (if p mod length (cells r) = unat pos mod length (cells r) then data c else data_at r p)"
  using geometryD(3) [OF assms, of pos] mod_length [OF order.trans [OF one_le_numeral geometryD(1) [OF assms]]]
  by (auto simp: seq_at_def data_at_def ring_at_def nth_list_update)

lemma cell_rd: "geometry r \<Longrightarrow> rd (cells r) (cell_of r pos) = Some (ring_at r (unat pos))"
  using geometryD(1,3) [of r] mod_length [of "cells r"] by (simp add: rd_def ring_at_def)

lemma at_wrap: "p mod length (cells r) = q mod length (cells r) \<Longrightarrow> seq_at r p = seq_at r q"
  "p mod length (cells r) = q mod length (cells r) \<Longrightarrow> data_at r p = data_at r q"
  by (simp_all add: seq_at_def data_at_def ring_at_def)

lemma cells_okD:
  assumes "cells_ok xs r T"
  shows "unat (dequeue_pos r) \<le> p \<Longrightarrow> p < unat (enqueue_pos r) \<Longrightarrow>
      seq_at r p = p + 1 \<and> data_at r p = xs ! p \<or> seq_at r p = p \<and> (\<exists>t. push_pos (T t) = Some p)"
    and "unat (enqueue_pos r) \<le> p \<Longrightarrow> p < unat (dequeue_pos r) + length (cells r) \<Longrightarrow>
        seq_at r p = p \<or> length (cells r) \<le> p \<and> seq_at r p = p - length (cells r) + 1 \<and>
          (\<exists>t. pop_pos (T t) = Some (p - length (cells r)))"
  using assms unfolding cells_ok_def by blast+

text \<open>The cell the enqueue counter stands at shows its position exactly when it is free; the one the dequeue
  counter stands at shows the next one exactly when its element is there.\<close>

lemma free_at:
  assumes "geometry r" "cells_ok xs r T" "seq_at r (unat (enqueue_pos r)) = unat (enqueue_pos r)"
  shows "unat (enqueue_pos r) < unat (dequeue_pos r) + length (cells r)"
proof (rule ccontr)
  let ?D = "unat (dequeue_pos r)" and ?E = "unat (enqueue_pos r)" and ?n = "length (cells r)"
  note g = geometryD [OF assms(1)]
  assume "\<not> ?E < ?D + ?n"
  then have e: "?E = ?D + ?n" using g(5) by simp
  then have "seq_at r ?E = seq_at r ?D" by (intro at_wrap) simp
  moreover have "?D < ?E" using g(1) e by linarith
  then have "seq_at r ?D = ?D + 1 \<or> seq_at r ?D = ?D" using cells_okD(1) [OF assms(2), of ?D] by blast
  ultimately show False using assms(3) e g(1) by linarith
qed

lemma filled_at:
  assumes "geometry r" "cells_ok xs r T" "seq_at r (unat (dequeue_pos r)) = unat (dequeue_pos r) + 1"
  shows "unat (dequeue_pos r) < unat (enqueue_pos r)"
    and "data_at r (unat (dequeue_pos r)) = xs ! unat (dequeue_pos r)"
proof -
  let ?D = "unat (dequeue_pos r)" and ?E = "unat (enqueue_pos r)" and ?n = "length (cells r)"
  note g = geometryD [OF assms(1)]
  show lt: "?D < ?E"
  proof (rule ccontr)
    assume "\<not> ?D < ?E"
    then have eq: "?D = ?E" using g(4) by simp
    moreover have "?D < ?D + ?n" using g(1) by linarith
    ultimately have "seq_at r ?D = ?D \<or> ?n \<le> ?D \<and> seq_at r ?D = ?D - ?n + 1"
      using cells_okD(2) [OF assms(2), of ?D] by auto
    then show False using assms(3) g(1) by linarith
  qed
  show "data_at r ?D = xs ! ?D" using cells_okD(1) [OF assms(2), of ?D] lt assms(3) by auto
qed

lemma ring_invD:
  assumes "ring_inv xs ys (r, T)"
  shows "geometry r" "length xs = unat (enqueue_pos r)" "cells_ok xs r T" "claims_ok T" "pc_ok xs r (T t)" "taken_ok xs ys r T"
  using assms by (simp_all add: ring_inv_def)

lemma claims_okD:
  assumes "claims_ok T"
  shows "push_pos (T t) = Some p \<Longrightarrow> push_pos (T u) = Some p \<Longrightarrow> t = u"
    "pop_pos (T t) = Some p \<Longrightarrow> pop_pos (T u) = Some p \<Longrightarrow> t = u"
  using assms unfolding claims_ok_def by blast+

lemma taken_okD:
  assumes "taken_ok xs ys r T"
  shows "distinct (map fst ys)" "(i, y) \<in> set ys \<Longrightarrow> y = xs ! i" "(i, y) \<in> set ys \<Longrightarrow> i < unat (dequeue_pos r)"
    "i < unat (dequeue_pos r) \<longleftrightarrow> i \<in> fst ` set ys \<or> (\<exists>t. read_pos (T t) = Some i)"
    "read_pos (T t) = Some i \<Longrightarrow> i \<notin> fst ` set ys"
proof -
  show "distinct (map fst ys)" "(i, y) \<in> set ys \<Longrightarrow> y = xs ! i"
    and iff: "i < unat (dequeue_pos r) \<longleftrightarrow> i \<in> fst ` set ys \<or> (\<exists>t. read_pos (T t) = Some i)"
    and "read_pos (T t) = Some i \<Longrightarrow> i \<notin> fst ` set ys"
    using assms unfolding taken_ok_def by blast+
  assume "(i, y) \<in> set ys"
  then have "i \<in> fst ` set ys" by (rule image_eqI [rotated]) simp
  then show "i < unat (dequeue_pos r)" using iff by simp
qed

lemma local_step:
  assumes inv: "ring_inv xs ys (r, T)"
    and "push_pos pc = push_pos (T t)" "pop_pos pc = pop_pos (T t)" "read_pos pc = read_pos (T t)" "pc_ok xs r pc"
  shows "ring_inv xs ys (r, T(t := pc))"
proof -
  have same: "push_pos ((T(t := pc)) u) = push_pos (T u)" "pop_pos ((T(t := pc)) u) = pop_pos (T u)"
    "read_pos ((T(t := pc)) u) = read_pos (T u)" for u
    using assms(2-4) by simp_all
  have "cells_ok xs r (T(t := pc)) = cells_ok xs r T" "claims_ok (T(t := pc)) = claims_ok T"
    "taken_ok xs ys r (T(t := pc)) = taken_ok xs ys r T"
    unfolding cells_ok_def claims_ok_def taken_ok_def same by (rule refl)+
  then show ?thesis using inv assms(5) by (auto simp: ring_inv_def)
qed

text \<open>A push claims a position.\<close>

lemma push_claim_step:
  assumes inv: "ring_inv xs ys (r, T)" and at: "T t = PushCas x (enqueue_pos r)"
    and life: "unat (enqueue_pos r) + 1 + length (cells r) < 2 ^ 63"
  shows "ring_inv (xs @ [x]) ys (r\<lparr>enqueue_pos := enqueue_pos r + 1\<rparr>, T(t := PushData x (enqueue_pos r)))"
proof -
  note I = ring_invD [OF inv]
  note g = geometryD [OF I(1)]
  let ?D = "unat (dequeue_pos r)" and ?E = "unat (enqueue_pos r)" and ?n = "length (cells r)"
  let ?T = "T(t := PushData x (enqueue_pos r))" and ?r = "r\<lparr>enqueue_pos := enqueue_pos r + 1\<rparr>"
  have E1: "unat (enqueue_pos r + 1) = ?E + 1" using life by (intro unat_suc_small) simp
  have free: "seq_at r ?E = ?E" using I(5) [of t] at by simp
  have room: "?E < ?D + ?n" by (rule free_at [OF I(1,3) free])
  have push: "push_pos (?T u) = (if u = t then Some ?E else push_pos (T u))" for u by simp
  have pop: "pop_pos (?T u) = pop_pos (T u)" "read_pos (?T u) = read_pos (T u)" for u using at by simp_all
  have fresh: "push_pos (T u) \<noteq> Some ?E" for u using I(5) [of u] by (cases "T u") auto
  have nopop: "pop_pos (T u) = Some p \<Longrightarrow> ?E + 1 \<le> p + ?n" for u p
  proof -
    assume a: "pop_pos (T u) = Some p"
    then have b: "p < ?D" "?E \<le> p + ?n" "seq_at r p = p + 1" using I(5) [of u] by (cases "T u"; auto)+
    have "?E \<noteq> p + ?n"
    proof
      assume e: "?E = p + ?n"
      then have "seq_at r ?E = seq_at r p" by (intro at_wrap) simp
      then show False using b(3) free e g(1) by linarith
    qed
    then show ?thesis using b(2) by linarith
  qed
  have "geometry ?r" using I(1) room life E1 by (simp add: geometry_def)
  moreover have "length (xs @ [x]) = unat (enqueue_pos ?r)" using I(2) E1 by simp
  moreover have "cells_ok (xs @ [x]) ?r ?T"
    unfolding cells_ok_def
  proof (intro conjI allI impI)
    fix p assume a: "unat (dequeue_pos ?r) \<le> p \<and> p < unat (enqueue_pos ?r)"
    show "seq_at ?r p = p + 1 \<and> data_at ?r p = (xs @ [x]) ! p \<or> seq_at ?r p = p \<and> (\<exists>u. push_pos (?T u) = Some p)"
    proof (cases "p = ?E")
      case True
      then show ?thesis using free push by auto
    next
      case False
      then have p: "?D \<le> p" "p < ?E" using a E1 by simp_all
      then have "(xs @ [x]) ! p = xs ! p" using I(2) by (simp add: nth_append)
      moreover have "push_pos (T u) = Some p \<Longrightarrow> push_pos (?T u) = Some p" for u using at by (cases "u = t") simp_all
      ultimately show ?thesis using cells_okD(1) [OF I(3) p] by (simp del: push_pos.simps fun_upd_apply) blast
    qed
  next
    fix p assume a: "unat (enqueue_pos ?r) \<le> p \<and> p < unat (dequeue_pos ?r) + length (cells ?r)"
    then show "seq_at ?r p = p \<or> length (cells ?r) \<le> p \<and> seq_at ?r p = p - length (cells ?r) + 1 \<and>
          (\<exists>u. pop_pos (?T u) = Some (p - length (cells ?r)))"
      using cells_okD(2) [OF I(3), of p] E1 pop by auto
  qed
  moreover have "claims_ok ?T"
    unfolding claims_ok_def push pop using claims_okD [OF I(4)] fresh by (auto split: if_splits)
  moreover have "pc_ok (xs @ [x]) ?r (?T u)" for u
  proof (cases "u = t")
    case True
    then show ?thesis using room free I(2) g(4) E1 by (simp add: nth_append)
  next
    case False
    then show ?thesis using I(5) [of u] nopop [of u] E1 I(2) g(4)
      by (cases "T u") (auto simp: nth_append word_unat_eq_iff)
  qed
  moreover have "taken_ok (xs @ [x]) ys ?r ?T"
  proof -
    have "y = (xs @ [x]) ! i" if "(i, y) \<in> set ys" for i y
    proof -
      have "i < ?D" using taken_okD(3) [OF I(6) that] .
      then show ?thesis using taken_okD(2) [OF I(6) that] I(2) g(4) by (simp add: nth_append)
    qed
    then show ?thesis using I(6) pop unfolding taken_ok_def by simp
  qed
  ultimately show ?thesis by (simp add: ring_inv_def)
qed

lemma other_cell:
  assumes "p \<noteq> q" "p < q + n" "q < p + (n::nat)"
  shows "p mod n \<noteq> q mod n"
proof
  assume "p mod n = q mod n"
  then show False using window_inj [of "min p q" p n q] assms by linarith
qed

text \<open>It stores its element.\<close>

lemma push_data_step:
  assumes inv: "ring_inv xs ys (r, T)" and at: "T t = PushData x pos"
  shows "ring_inv xs ys (r\<lparr>cells := (cells r)[cell_of r pos := (ring_at r (unat pos))\<lparr>data := x\<rparr>]\<rparr>, T(t := PushStore pos))"
proof -
  note I = ring_invD [OF inv]
  note g = geometryD [OF I(1)]
  let ?D = "unat (dequeue_pos r)" and ?E = "unat (enqueue_pos r)" and ?n = "length (cells r)" and ?p = "unat pos"
  let ?T = "T(t := PushStore pos)" and ?r = "r\<lparr>cells := (cells r)[cell_of r pos := (ring_at r (unat pos))\<lparr>data := x\<rparr>]\<rparr>"
  have me: "?D \<le> ?p" "?p < ?E" "seq_at r ?p = ?p" "x = xs ! ?p" using I(5) [of t] at by simp_all
  have same: "push_pos (?T u) = push_pos (T u)" "pop_pos (?T u) = pop_pos (T u)" "read_pos (?T u) = read_pos (T u)" for u
    using at by simp_all
  have seq: "seq_at ?r q = seq_at r q" for q
    using at_wrap(1) [of q r ?p] unfolding at_update(1) [OF I(1)] by (simp add: seq_at_def)
  have dat: "data_at ?r q = (if q mod ?n = ?p mod ?n then x else data_at r q)" for q
    unfolding at_update(2) [OF I(1)] by simp
  have keep: "data_at ?r q = data_at r q" if "q \<noteq> ?p" "q < ?p + ?n" "?p < q + ?n" for q
    using other_cell [OF that] dat by simp
  have "geometry ?r" using I(1) by (simp add: geometry_def)
  moreover have "cells_ok xs ?r ?T"
  proof -
    have "seq_at r p = p + 1 \<and> data_at ?r p = xs ! p \<or> seq_at r p = p \<and> (\<exists>u. push_pos (T u) = Some p)"
      if "?D \<le> p" "p < ?E" for p
    proof (cases "p = ?p")
      case True
      moreover have "push_pos (T t) = Some ?p" using at by simp
      ultimately show ?thesis using me by blast
    next
      case False
      then have "data_at ?r p = data_at r p" using that me g(5) by (intro keep) linarith+
      then show ?thesis using cells_okD(1) [OF I(3) that] by simp
    qed
    then show ?thesis using cells_okD(2) [OF I(3)] unfolding cells_ok_def same seq by simp
  qed
  moreover have "claims_ok ?T" using I(4) unfolding claims_ok_def same .
  moreover have "pc_ok xs ?r (?T u)" for u
  proof (cases "u = t")
    case True
    then show ?thesis using me seq dat [of ?p] by simp
  next
    case False
    have "push_pos (T u) \<noteq> Some ?p" using claims_okD(1) [OF I(4), of u ?p t] at False by auto
    then have "data_at ?r q = data_at r q" if "push_pos (T u) = Some q" "?D \<le> q" "q < ?E" for q
      using that me g(5) by (intro keep) (auto simp del: push_pos.simps)
    moreover have "data_at ?r q = data_at r q" if "q < ?D" "?E \<le> q + ?n" for q
      using that me g(5) by (intro keep) linarith+
    ultimately show ?thesis using I(5) [of u] False seq by (cases "T u") auto
  qed
  moreover have "taken_ok xs ys ?r ?T" using I(6) unfolding taken_ok_def same by simp
  ultimately show ?thesis using I(2) by (simp add: ring_inv_def)
qed

text \<open>It publishes the position.\<close>

lemma push_publish_step:
  assumes inv: "ring_inv xs ys (r, T)" and at: "T t = PushStore pos"
  shows "ring_inv xs ys (r\<lparr>cells := (cells r)[cell_of r pos := (ring_at r (unat pos))\<lparr>sequence := pos + 1\<rparr>]\<rparr>, T(t := PushDone True))"
proof -
  note I = ring_invD [OF inv]
  note g = geometryD [OF I(1)]
  let ?D = "unat (dequeue_pos r)" and ?E = "unat (enqueue_pos r)" and ?n = "length (cells r)" and ?p = "unat pos"
  let ?T = "T(t := PushDone True)" and ?r = "r\<lparr>cells := (cells r)[cell_of r pos := (ring_at r (unat pos))\<lparr>sequence := pos + 1\<rparr>]\<rparr>"
  have me: "?D \<le> ?p" "?p < ?E" "seq_at r ?p = ?p" "data_at r ?p = xs ! ?p" using I(5) [of t] at by simp_all
  have p1: "unat (pos + 1) = ?p + 1" using me(2) g(6) by (intro unat_suc_small) linarith
  have push: "push_pos (?T u) = (if u = t then None else push_pos (T u))" for u by simp
  have same: "pop_pos (?T u) = pop_pos (T u)" "read_pos (?T u) = read_pos (T u)" for u using at by simp_all
  have dat: "data_at ?r q = data_at r q" for q
    using at_wrap(2) [of q r ?p] unfolding at_update(2) [OF I(1)] by (simp add: data_at_def)
  have seq: "seq_at ?r q = (if q mod ?n = ?p mod ?n then ?p + 1 else seq_at r q)" for q
    unfolding at_update(1) [OF I(1)] by (simp add: p1)
  have keep: "seq_at ?r q = seq_at r q" if "q \<noteq> ?p" "q < ?p + ?n" "?p < q + ?n" for q
    using other_cell [OF that] seq by simp
  have keepD: "seq_at ?r q = seq_at r q" if "q \<noteq> ?p" "?D \<le> q" "q < ?D + ?n" for q
    using that me g(5) by (intro keep) linarith+
  have "geometry ?r" using I(1) by (simp add: geometry_def)
  moreover have "cells_ok xs ?r ?T"
  proof -
    have "seq_at ?r p = p + 1 \<and> data_at r p = xs ! p \<or> seq_at ?r p = p \<and> (\<exists>u. push_pos (?T u) = Some p)"
      if "?D \<le> p" "p < ?E" for p
    proof (cases "p = ?p")
      case True
      then show ?thesis using seq [of p] me by simp
    next
      case False
      then have "seq_at ?r p = seq_at r p" using that g(5) by (intro keepD) linarith+
      moreover have "push_pos (T u) = Some p \<Longrightarrow> push_pos (?T u) = Some p" for u using at False by (cases "u = t") simp_all
      ultimately show ?thesis using cells_okD(1) [OF I(3) that] by metis
    qed
    moreover have "seq_at ?r p = seq_at r p" if "?E \<le> p" "p < ?D + ?n" for p
      using that me g(4) by (intro keepD) linarith+
    ultimately show ?thesis using cells_okD(2) [OF I(3)] unfolding cells_ok_def same dat by simp
  qed
  moreover have "claims_ok ?T" using claims_okD [OF I(4)] unfolding claims_ok_def same push by (auto split: if_splits)
  moreover have "pc_ok xs ?r (?T u)" for u
  proof (cases "u = t")
    case False
    have other: "push_pos (T u) \<noteq> Some ?p" using claims_okD(1) [OF I(4), of u ?p t] at False by auto
    then have a: "seq_at ?r q = seq_at r q" if "push_pos (T u) = Some q" "?D \<le> q" "q < ?E" for q
      using that g(5) by (intro keepD) (auto simp del: push_pos.simps)
    have b: "seq_at ?r q = seq_at r q" if "q < ?D" "?E \<le> q + ?n" for q
      using that me g(5) by (intro keep) linarith+
    have c: "seq_at ?r ?E = ?E" if "seq_at r ?E = ?E"
      using that free_at [OF I(1,3) that] me g(4) keepD [of ?E] by simp
    have d: "seq_at ?r ?D = ?D + 1" if "seq_at r ?D = ?D + 1"
    proof -
      have "?D \<noteq> ?p" "?D < ?D + ?n" using that me(3) g(1) by (metis n_not_Suc_n Suc_eq_plus1, linarith)
      then show ?thesis using that keepD [of ?D] by simp
    qed
    show ?thesis using I(5) [of u] False a b c d dat by (cases "T u") auto
  qed simp
  moreover have "taken_ok xs ys ?r ?T" using I(6) unfolding taken_ok_def same by simp
  ultimately show ?thesis using I(2) by (simp add: ring_inv_def)
qed

text \<open>A pop claims a position.\<close>

lemma pop_claim_step:
  assumes inv: "ring_inv xs ys (r, T)" and at: "T t = PopCas (dequeue_pos r)"
  shows "ring_inv xs ys (r\<lparr>dequeue_pos := dequeue_pos r + 1\<rparr>, T(t := PopData (dequeue_pos r)))"
proof -
  note I = ring_invD [OF inv]
  note g = geometryD [OF I(1)]
  let ?D = "unat (dequeue_pos r)" and ?E = "unat (enqueue_pos r)" and ?n = "length (cells r)"
  let ?T = "T(t := PopData (dequeue_pos r))" and ?r = "r\<lparr>dequeue_pos := dequeue_pos r + 1\<rparr>"
  have here: "seq_at r ?D = ?D + 1" using I(5) [of t] at by simp
  note lt = filled_at [OF I(1,3) here]
  have D1: "unat (dequeue_pos r + 1) = ?D + 1" using lt(1) g(6) by (intro unat_suc_small) linarith
  have push: "push_pos (?T u) = push_pos (T u)" for u using at by simp
  have pop: "pop_pos (?T u) = (if u = t then Some ?D else pop_pos (T u))" for u by simp
  have read: "read_pos (?T u) = (if u = t then Some ?D else read_pos (T u))" for u by simp
  have low: "pop_pos (T u) = Some p \<Longrightarrow> p < ?D" for u p using I(5) [of u] by (cases "T u") auto
  have keep: "pop_pos (T u) = Some p \<Longrightarrow> pop_pos (?T u) = Some p" for u p using at by (cases "u = t") simp_all
  have notD: "push_pos (T u) \<noteq> Some ?D" for u using I(5) [of u] here by (cases "T u") auto
  have "geometry ?r" using I(1) lt(1) D1 by (simp add: geometry_def)
  moreover have "cells_ok xs ?r ?T"
  proof -
    have "seq_at r p = p \<or> ?n \<le> p \<and> seq_at r p = p - ?n + 1 \<and> (\<exists>u. pop_pos (?T u) = Some (p - ?n))"
      if "?E \<le> p" "p < ?D + 1 + ?n" for p
    proof (cases "p = ?D + ?n")
      case True
      then have "seq_at r p = seq_at r ?D" by (intro at_wrap) simp
      moreover have "pop_pos (?T t) = Some (p - ?n)" using True by simp
      ultimately show ?thesis using True here by auto
    next
      case False
      then have "p < ?D + ?n" using that by linarith
      from cells_okD(2) [OF I(3) that(1) this] show ?thesis using keep by blast
    qed
    then show ?thesis using cells_okD(1) [OF I(3)] D1 unfolding cells_ok_def push by simp
  qed
  moreover have "pop_pos (T u) \<noteq> Some ?D" for u using low [of u ?D] by blast
  then have "claims_ok ?T" using claims_okD [OF I(4)] unfolding claims_ok_def push pop by (auto split: if_splits)
  moreover have "pc_ok xs ?r (?T u)" for u
  proof (cases "u = t")
    case True
    then show ?thesis using here lt g(5) D1 by simp
  next
    case False
    show ?thesis using I(5) [of u] notD [of u] False D1
      by (cases "T u") (auto simp: word_unat_eq_iff)
  qed
  moreover have "taken_ok xs ys ?r ?T"
  proof -
    note tk = taken_okD [OF I(6)]
    have noread: "read_pos (T t) = None" using at by simp
    have fresh: "?D \<notin> fst ` set ys" using tk(4) [of ?D] by auto
    have "i < ?D + 1 \<longleftrightarrow> i \<in> fst ` set ys \<or> (\<exists>u. read_pos (?T u) = Some i)" for i
    proof -
      have "(\<exists>u. read_pos (?T u) = Some i) \<longleftrightarrow> i = ?D \<or> (\<exists>u. read_pos (T u) = Some i)"
        using noread read by (metis option.distinct(1) option.inject)
      then show ?thesis using tk(4) [of i] by auto
    qed
    moreover have "i \<notin> fst ` set ys" if "read_pos (?T u) = Some i" for u i
      using that tk(5) [of u i] fresh unfolding read by (auto split: if_splits)
    ultimately show ?thesis using tk(1,2) D1 unfolding taken_ok_def by simp
  qed
  ultimately show ?thesis using I(2) by (simp add: ring_inv_def)
qed

text \<open>It reads the element of its position.\<close>

lemma pop_read_step:
  assumes inv: "ring_inv xs ys (r, T)" and at: "T t = PopData pos"
  shows "ring_inv xs (ys @ [(unat pos, data_at r (unat pos))]) (r, T(t := PopStore pos (data_at r (unat pos))))"
proof -
  note I = ring_invD [OF inv]
  let ?p = "unat pos" and ?T = "T(t := PopStore pos (data_at r (unat pos)))"
  have me: "pc_ok xs r (PopData pos)" using I(5) [of t] at by simp
  have same: "push_pos (?T u) = push_pos (T u)" "pop_pos (?T u) = pop_pos (T u)" for u using at by simp_all
  have read: "read_pos (?T u) = (if u = t then None else read_pos (T u))" for u by simp
  have mine: "read_pos (T t) = Some ?p" using at by simp
  have other: "read_pos (T u) \<noteq> Some ?p" if "u \<noteq> t" for u
  proof
    assume "read_pos (T u) = Some ?p"
    then have "pop_pos (T u) = Some ?p" by (cases "T u") simp_all
    then show False using claims_okD(2) [OF I(4), of u ?p t] at that by simp
  qed
  have "cells_ok xs r ?T" "claims_ok ?T" using I(3,4) unfolding cells_ok_def claims_ok_def same by blast+
  moreover have "pc_ok xs r (?T u)" for u using I(5) [of u] me by (cases "u = t") simp_all
  moreover have "taken_ok xs (ys @ [(?p, data_at r ?p)]) r ?T"
  proof -
    note tk = taken_okD [OF I(6)]
    have "?p \<notin> fst ` set ys" using tk(5) [OF mine] .
    moreover have "(\<exists>u. read_pos (T u) = Some i) \<longleftrightarrow> i = ?p \<or> (\<exists>u. read_pos (?T u) = Some i)" for i
      using mine other unfolding read by (metis option.distinct(1) option.inject)
    ultimately show ?thesis using tk me other unfolding taken_ok_def read by (auto split: if_splits)
  qed
  ultimately show ?thesis using I(1,2) by (simp add: ring_inv_def)
qed

text \<open>It releases the cell for the next lap.\<close>

lemma pop_release_step:
  assumes inv: "ring_inv xs ys (r, T)" and at: "T t = PopStore pos x"
  shows "ring_inv xs ys (r\<lparr>cells := (cells r)[cell_of r pos := (ring_at r (unat pos))\<lparr>sequence := pos + ring_size r\<rparr>]\<rparr>,
    T(t := PopDone (Some x)))"
proof -
  note I = ring_invD [OF inv]
  note g = geometryD [OF I(1)]
  let ?D = "unat (dequeue_pos r)" and ?E = "unat (enqueue_pos r)" and ?n = "length (cells r)" and ?p = "unat pos"
  let ?T = "T(t := PopDone (Some x))"
  let ?r = "r\<lparr>cells := (cells r)[cell_of r pos := (ring_at r (unat pos))\<lparr>sequence := pos + ring_size r\<rparr>]\<rparr>"
  have me: "?p < ?D" "?E \<le> ?p + ?n" "seq_at r ?p = ?p + 1" using I(5) [of t] at by simp_all
  have pn: "unat (pos + ring_size r) = ?p + ?n"
    using unat_add_small [of pos "ring_size r"] me(1) g(2,4,6) by linarith
  have pop: "pop_pos (?T u) = (if u = t then None else pop_pos (T u))" for u by simp
  have same: "push_pos (?T u) = push_pos (T u)" "read_pos (?T u) = read_pos (T u)" for u using at by simp_all
  have dat: "data_at ?r q = data_at r q" for q
    using at_wrap(2) [of q r ?p] unfolding at_update(2) [OF I(1)] by (simp add: data_at_def)
  have seq: "seq_at ?r q = (if q mod ?n = ?p mod ?n then ?p + ?n else seq_at r q)" for q
    unfolding at_update(1) [OF I(1)] by (simp add: pn)
  have keep: "seq_at ?r q = seq_at r q" if "q \<noteq> ?p" "q < ?p + ?n" "?p < q + ?n" for q
    using other_cell [OF that] seq by simp
  have next_lap: "seq_at ?r q = (if q = ?p + ?n then q else seq_at r q)" if "?E \<le> q" "q < ?p + ?n + ?n" for q
  proof (cases "q = ?p + ?n")
    case False
    have "q mod ?n \<noteq> (?p + ?n) mod ?n" using that False me g(1,4,5) by (intro other_cell) linarith+
    then show ?thesis using seq False by simp
  qed (simp add: seq)
  have mine: "pop_pos (T t) = Some ?p" using at by simp
  have other: "pop_pos (T u) \<noteq> Some ?p" if "u \<noteq> t" for u using claims_okD(2) [OF I(4), of u ?p t] mine that by blast
  have "geometry ?r" using I(1) by (simp add: geometry_def)
  moreover have "cells_ok xs ?r ?T"
  proof -
    have "seq_at ?r p = p \<or> ?n \<le> p \<and> seq_at ?r p = p - ?n + 1 \<and> (\<exists>u. pop_pos (?T u) = Some (p - ?n))"
      if "?E \<le> p" "p < ?D + ?n" for p
    proof (cases "p = ?p + ?n")
      case True
      then show ?thesis using seq [of p] by simp
    next
      case False
      have "p < ?p + ?n + ?n" using that(2) me(2) g(4) by linarith
      then have "seq_at ?r p = seq_at r p" using next_lap [OF that(1)] False by simp
      moreover have "pop_pos (T u) = Some (p - ?n) \<Longrightarrow> ?n \<le> p \<Longrightarrow> pop_pos (?T u) = Some (p - ?n)" for u
        using False mine by (cases "u = t") auto
      ultimately show ?thesis using cells_okD(2) [OF I(3) that] by metis
    qed
    moreover have "seq_at ?r p = seq_at r p" if "?D \<le> p" "p < ?E" for p
      using that me by (intro keep) linarith+
    ultimately show ?thesis using cells_okD(1) [OF I(3)] unfolding cells_ok_def same dat by simp
  qed
  moreover have "claims_ok ?T" using claims_okD [OF I(4)] unfolding claims_ok_def same pop by (auto split: if_splits)
  moreover have "pc_ok xs ?r (?T u)" for u
  proof (cases "u = t")
    case False
    have a: "seq_at ?r q = seq_at r q" if "pop_pos (T u) = Some q" "q < ?D" "?E \<le> q + ?n" for q
      using that other [OF False] me g(4) by (intro keep) (auto simp del: pop_pos.simps)
    have b: "seq_at ?r q = seq_at r q" if "?D \<le> q" "q < ?E" for q
      using that me by (intro keep) linarith+
    have c: "seq_at ?r ?E = ?E" if "seq_at r ?E = ?E"
    proof -
      have "?E < ?p + ?n + ?n" using me(2) g(1,4) by linarith
      then show ?thesis using that next_lap [of ?E] by (simp split: if_splits)
    qed
    have d: "seq_at ?r ?D = ?D + 1" if "seq_at r ?D = ?D + 1"
      using b [of ?D] filled_at(1) [OF I(1,3) that] that by simp
    show ?thesis using I(5) [of u] False a b c d dat by (cases "T u") auto
  qed simp
  moreover have "taken_ok xs ys ?r ?T" using I(6) unfolding taken_ok_def same by simp
  ultimately show ?thesis using I(2) by (simp add: ring_inv_def)
qed

lemma position_compare:
  fixes p :: u64
  assumes "geometry r" "unat p \<le> unat (enqueue_pos r)" "q \<le> unat (enqueue_pos r) + length (cells r)" "unat (s :: u64) = q"
  shows "sint s - sint p = int q - int (unat p)"
  using sint_of_unat [OF assms(4)] sint_of_unat [of p, OF refl] assms(2,3) geometryD(6) [OF assms(1)] by linarith

text \<open>Every position has the cell of exactly one position of the window.\<close>

lemma window_rep:
  assumes "0 < (n::nat)"
  shows "\<exists>q. d \<le> q \<and> q < d + n \<and> q mod n = p mod n"
proof -
  define q where "q = d + (p + n * d - d) mod n"
  have "d \<le> n * d" using assms by (cases n) simp_all
  then have "d + (p + n * d - d) = p + n * d" by linarith
  then have "q mod n = (p + n * d) mod n" unfolding q_def mod_add_right_eq by (rule arg_cong)
  then show ?thesis using assms by (intro exI [of _ q]) (simp add: q_def)
qed

lemma seq_window:
  assumes "geometry r" "cells_ok xs r T"
  shows "\<exists>q. unat (dequeue_pos r) \<le> q \<and> q < unat (dequeue_pos r) + length (cells r) \<and>
    q mod length (cells r) = p mod length (cells r) \<and> seq_at r p \<le> q + 1 \<and> q + 1 \<le> seq_at r p + length (cells r)"
proof -
  let ?D = "unat (dequeue_pos r)" and ?E = "unat (enqueue_pos r)" and ?n = "length (cells r)"
  note g = geometryD [OF assms(1)]
  have "0 < ?n" using g(1) by linarith
  from window_rep [OF this] obtain q where q: "?D \<le> q" "q < ?D + ?n" "q mod ?n = p mod ?n" by blast
  have "seq_at r q \<le> q + 1 \<and> q + 1 \<le> seq_at r q + ?n"
  proof (cases "q < ?E")
    case True
    then show ?thesis using cells_okD(1) [OF assms(2) q(1)] g(1) by auto
  next
    case False
    then have "?E \<le> q" by simp
    from cells_okD(2) [OF assms(2) this q(2)] show ?thesis using g(1) by linarith
  qed
  then show ?thesis using q at_wrap(1) [OF q(3)] by auto
qed

lemma seq_bound:
  assumes "geometry r" "cells_ok xs r T"
  shows "seq_at r p \<le> unat (enqueue_pos r) + length (cells r)"
  using seq_window [OF assms, of p] geometryD(4) [OF assms(1)] by auto

lemma seq_low:
  assumes "geometry r" "cells_ok xs r T" "p < unat (dequeue_pos r)"
  shows "p < seq_at r p"
proof -
  obtain q where q: "unat (dequeue_pos r) \<le> q" "q mod length (cells r) = p mod length (cells r)"
    "q + 1 \<le> seq_at r p + length (cells r)"
    using seq_window [OF assms(1,2), of p] by blast
  have "\<not> q < p + length (cells r)" using other_cell [of q p "length (cells r)"] q(1,2) assms(3) by auto
  then show ?thesis using q(3) by linarith
qed

text \<open>One step of a thread inside a call: it is defined, and it keeps the invariant.\<close>

lemma push_step_inv:
  assumes inv: "ring_inv xs ys (r, T)" and run: "push_step spurious (T t) r = Some (ev, pc, r')"
    and life: "unat (enqueue_pos r) + length (enqueued [ev]) + length (cells r) < 2 ^ 63"
  shows "ring_inv (xs @ enqueued [ev]) (ys @ dequeued [ev]) (r', T(t := pc)) \<and> length (cells r') = length (cells r)"
proof (cases "T t")
  case (PushLoad x)
  then have "ev = Quiet" "pc = PushSeq x (enqueue_pos r)" "r' = r" using run by auto
  then show ?thesis using local_step [OF inv, of pc t] PushLoad by simp
next
  case (PushSeq x p)
  note I = ring_invD [OF inv]
  have le: "unat p \<le> unat (enqueue_pos r)" using I(5) [of t] PushSeq by simp
  have "ev = Quiet" "r' = r" "pc = PushDone False \<or> pc = PushLoad x \<or> pc = PushCas x p \<and> sint (sequence (ring_at r (unat p))) = sint p"
    using run PushSeq cell_rd [OF I(1), of p] by (auto simp: Let_def split: if_splits)
  moreover have "pc_ok xs r (PushCas x p)" if "sint (sequence (ring_at r (unat p))) = sint p"
  proof -
    have "sequence (ring_at r (unat p)) = p" using that by (rule signed_word_eqI)
    then show ?thesis using le by (auto simp: seq_at_def)
  qed
  ultimately show ?thesis using local_step [OF inv, of pc t] PushSeq by auto
next
  case (PushCas x p)
  show ?thesis
  proof (cases "enqueue_pos r = p \<and> \<not> spurious")
    case True
    then have "ev = Enqueued x" "pc = PushData x p" "r' = r\<lparr>enqueue_pos := p + 1\<rparr>" using run PushCas by simp_all
    then show ?thesis using push_claim_step [OF inv, of t x] life PushCas True by simp
  next
    case False
    then have "ev = Quiet" "pc = PushSeq x (enqueue_pos r)" "r' = r" using run PushCas by (auto split: if_splits)
    then show ?thesis using local_step [OF inv, of pc t] PushCas by simp
  qed
next
  case (PushData x p)
  then show ?thesis using run cell_rd [OF ring_invD(1) [OF inv], of p] push_data_step [OF inv PushData] by auto
next
  case (PushStore p)
  then show ?thesis using run cell_rd [OF ring_invD(1) [OF inv], of p] push_publish_step [OF inv PushStore] by auto
qed (use run in simp_all)

lemma pop_step_inv:
  assumes inv: "ring_inv xs ys (r, T)" and run: "pop_step spurious (T t) r = Some (ev, pc, r')"
  shows "ring_inv (xs @ enqueued [ev]) (ys @ dequeued [ev]) (r', T(t := pc)) \<and> length (cells r') = length (cells r)"
proof (cases "T t")
  case PopLoad
  then have "ev = Quiet" "pc = PopSeq (dequeue_pos r)" "r' = r" using run by auto
  then show ?thesis using local_step [OF inv, of pc t] PopLoad by simp
next
  case (PopSeq p)
  note I = ring_invD [OF inv]
  have le: "unat p \<le> unat (dequeue_pos r)" using I(5) [of t] PopSeq by simp
  have "ev = Quiet" "r' = r" "pc = PopDone None \<or> pc = PopLoad \<or> pc = PopCas p \<and> sint (sequence (ring_at r (unat p))) = sint (p + 1)"
    using run PopSeq cell_rd [OF I(1), of p] by (auto simp: Let_def split: if_splits)
  moreover have "pc_ok xs r (PopCas p)" if "sint (sequence (ring_at r (unat p))) = sint (p + 1)"
  proof -
    have "unat (p + 1) = unat p + 1" using le geometryD(1,4,6) [OF I(1)] by (intro unat_suc_small) linarith
    moreover have "sequence (ring_at r (unat p)) = p + 1" using that by (rule signed_word_eqI)
    ultimately show ?thesis using le by (auto simp: seq_at_def)
  qed
  ultimately show ?thesis using local_step [OF inv, of pc t] PopSeq by auto
next
  case (PopCas p)
  show ?thesis
  proof (cases "dequeue_pos r = p \<and> \<not> spurious")
    case True
    then have "ev = Quiet" "pc = PopData p" "r' = r\<lparr>dequeue_pos := p + 1\<rparr>" using run PopCas by simp_all
    then show ?thesis using pop_claim_step [OF inv, of t] PopCas True by simp
  next
    case False
    then have "ev = Quiet" "pc = PopSeq (dequeue_pos r)" "r' = r" using run PopCas by (auto split: if_splits)
    then show ?thesis using local_step [OF inv, of pc t] PopCas by simp
  qed
next
  case (PopData p)
  then show ?thesis using run cell_rd [OF ring_invD(1) [OF inv], of p] pop_read_step [OF inv PopData] by (auto simp: data_at_def)
next
  case (PopStore p x)
  then show ?thesis using run cell_rd [OF ring_invD(1) [OF inv], of p] pop_release_step [OF inv PopStore] by auto
qed (use run in simp_all)

lemma call_inv:
  assumes inv: "ring_inv xs ys (r, T)" and "idle_pc (T t)" "pc = PushLoad x \<or> pc = PopLoad"
  shows "ring_inv xs ys (r, T(t := pc))"
  by (rule local_step [OF inv]) (use assms(2,3) in \<open>cases "T t"; auto simp: idle_pc_def\<close>)+

lemma defined_step:
  assumes "ring_inv xs ys (r, T)"
  shows "pushing_pc (T t) \<Longrightarrow> push_step spurious (T t) r \<noteq> None" "popping_pc (T t) \<Longrightarrow> pop_step spurious (T t) r \<noteq> None"
  using cell_rd [OF ring_invD(1) [OF assms]] by (cases "T t"; simp add: Let_def)+

section \<open>Runs\<close>

lemma start_inv:
  assumes "2 \<le> unat n" "unat n \<le> 2 ^ 62"
  shows "\<exists>r0. LockFreeRingBuffer init n = Some r0 \<and> ring_inv [] [] (r0, \<lambda>_. Outside) \<and> length (cells r0) < 2 * unat n \<and>
    length (cells r0) \<le> 2 ^ 62"
proof -
  obtain r k where r: "LockFreeRingBuffer init n = Some r" "ring_ok r" "enqueue_pos r = 0" "dequeue_pos r = 0"
    "ring_room r = 2 ^ k" "2 ^ k < 2 * unat n" "k \<le> 62"
    using ring_new [OF assms, of init] by blast
  have "(2::nat) ^ k \<le> 2 ^ 62" using r(7) by (intro power_increasing) simp_all
  moreover note ok = ring_wfD [OF ring_okD(2) [OF r(2)]] and two = ring_okD(1) [OF r(2)]
  have "geometry r" using two ok(1-6) by (simp add: geometry_def cell_of_def)
  moreover have "cells_ok [] r (\<lambda>_. Outside)" using ok(7,8) r(3,4) by (simp add: cells_ok_def seq_at_def)
  moreover have "claims_ok (\<lambda>_. Outside)" "taken_ok [] [] r (\<lambda>_. Outside)" using r(3,4) by (simp_all add: claims_ok_def taken_ok_def)
  ultimately have "ring_inv [] [] (r, \<lambda>_. Outside)" using r(3) by (simp add: ring_inv_def)
  moreover have "length (cells r) = 2 ^ k" using r(5) by (simp add: ring_room_def)
  ultimately show ?thesis using r(1,6) \<open>(2::nat) ^ k \<le> 2 ^ 62\<close> by auto
qed

lemma ring_run_inv:
  assumes "ring_run r0 tr s" "ring_inv [] [] (r0, \<lambda>_. Outside)" "length (enqueued tr) + length (cells r0) < 2 ^ 63"
  shows "ring_inv (enqueued tr) (dequeued tr) s \<and> length (cells (fst s)) = length (cells r0)"
  using assms
proof (induction rule: ring_run.induct)
  case run_start
  then show ?case by simp
next
  case (run_more tr s ev s')
  obtain r T where s: "s = (r, T)" by (cases s)
  have inv: "ring_inv (enqueued tr) (dequeued tr) (r, T)" and len: "length (cells r) = length (cells r0)"
    using run_more.IH run_more.prems s by simp_all
  have life: "unat (enqueue_pos r) + length (enqueued [ev]) + length (cells r) < 2 ^ 63"
    using ring_invD(2) [OF inv] run_more.prems(2) len by simp
  from run_more.hyps(2) [unfolded s] show ?case
  proof (cases rule: ring_step.cases)
    case (call_push t x)
    then show ?thesis using call_inv [OF inv, of t] len by auto
  next
    case (call_pop t)
    then show ?thesis using call_inv [OF inv, of t] len by auto
  next
    case (run_push spurious t pc r')
    then show ?thesis using push_step_inv [OF inv run_push(2) life] len by simp
  next
    case (run_pop spurious t pc r')
    then show ?thesis using pop_step_inv [OF inv run_pop(2)] len by simp
  qed
qed

text \<open>When no call is under way the ring is the queue of the sequential model.\<close>

lemma quiet_ring:
  assumes inv: "ring_inv xs ys (r, T)" and idle: "\<forall>t. idle_pc (T t)"
  shows "ring_ok r \<and> ring_abs r = drop (length ys) xs \<and> length ys = unat (dequeue_pos r)"
proof -
  note I = ring_invD [OF inv]
  note g = geometryD [OF I(1)]
  let ?D = "unat (dequeue_pos r)" and ?E = "unat (enqueue_pos r)"
  have none: "push_pos (T t) = None" "pop_pos (T t) = None" "read_pos (T t) = None" for t
    using idle [rule_format, of t] by (cases "T t"; simp add: idle_pc_def)+
  have b: "seq_at r p = p + 1 \<and> data_at r p = xs ! p" if "?D \<le> p" "p < ?E" for p
    using cells_okD(1) [OF I(3) that] none by simp
  have c: "seq_at r p = p" if "?E \<le> p" "p < ?D + length (cells r)" for p
    using cells_okD(2) [OF I(3) that] none by simp
  have "ring_ok r" unfolding ring_ok_def ring_wf_def Let_def using g b c by (simp add: seq_at_def cell_of_def)
  moreover have "fst ` set ys = {..<?D}" using taken_okD(4) [OF I(6)] none by auto
  then have len: "length ys = ?D" using distinct_card [OF taken_okD(1) [OF I(6)]] by simp
  moreover have "ring_abs r = drop ?D xs"
    by (rule nth_equalityI) (use I(2) b in \<open>simp_all add: ring_abs_def data_at_def\<close>)
  ultimately show ?thesis by simp
qed

text \<open>A refusal is honest: the push that answers false saw the cell of the next position still held by the
  element one lap before; the pop that answers empty saw the next position not yet published.\<close>

lemma push_refused:
  assumes inv: "ring_inv xs ys (r, T)" and "T t = PushSeq x p" "push_step spurious (T t) r = Some (ev, PushDone False, r')"
  shows "p = enqueue_pos r \<and> (length xs = unat (dequeue_pos r) + length (cells r) \<or>
    (\<exists>u. pop_pos (T u) = Some (length xs - length (cells r))))"
proof -
  note I = ring_invD [OF inv]
  note g = geometryD [OF I(1)]
  let ?D = "unat (dequeue_pos r)" and ?E = "unat (enqueue_pos r)" and ?n = "length (cells r)"
  have le: "unat p \<le> ?E" using I(5) [of t] assms(2) by simp
  have "sint (sequence (ring_at r (unat p))) - sint p < 0"
    using assms(2,3) cell_rd [OF I(1), of p] by (auto simp: Let_def split: if_splits)
  moreover have "sint (sequence (ring_at r (unat p))) - sint p = int (seq_at r (unat p)) - int (unat p)"
    by (rule position_compare [OF I(1) le seq_bound [OF I(1,3)] seq_at_def [symmetric]])
  ultimately have low: "seq_at r (unat p) < unat p" by linarith
  have E: "unat p = ?E"
  proof (rule ccontr)
    assume "unat p \<noteq> ?E"
    then have lt: "unat p < ?E" using le by simp
    show False
    proof (cases "?D \<le> unat p")
      case True
      then show False using cells_okD(1) [OF I(3) True lt] low by auto
    next
      case False
      then show False using seq_low [OF I(1,3), of "unat p"] low by simp
    qed
  qed
  have "?E = ?D + ?n \<or> (\<exists>u. pop_pos (T u) = Some (?E - ?n))"
  proof (cases "?E < ?D + ?n")
    case True
    then show ?thesis using cells_okD(2) [OF I(3), of ?E] low E by auto
  next
    case False
    then show ?thesis using g(5) by simp
  qed
  then show ?thesis using E I(2) by (simp add: word_unat_eq_iff)
qed

lemma pop_refused:
  assumes inv: "ring_inv xs ys (r, T)" and "T t = PopSeq p" "pop_step spurious (T t) r = Some (ev, PopDone None, r')"
  shows "p = dequeue_pos r \<and> (length xs = unat (dequeue_pos r) \<or> (\<exists>u. push_pos (T u) = Some (unat (dequeue_pos r))))"
proof -
  note I = ring_invD [OF inv]
  note g = geometryD [OF I(1)]
  let ?D = "unat (dequeue_pos r)" and ?E = "unat (enqueue_pos r)" and ?n = "length (cells r)"
  have le: "unat p \<le> ?D" using I(5) [of t] assms(2) by simp
  have p1: "unat (p + 1) = unat p + 1" using le g(1,4,6) by (intro unat_suc_small) linarith
  have "sint (sequence (ring_at r (unat p))) - sint (p + 1) < 0"
    using assms(2,3) cell_rd [OF I(1), of p] by (auto simp: Let_def split: if_splits)
  moreover have "sint (sequence (ring_at r (unat p))) = int (seq_at r (unat p))"
    using seq_bound [OF I(1,3), of "unat p"] g(6) by (intro sint_of_unat) (simp_all add: seq_at_def)
  moreover have "sint (p + 1) = int (unat p + 1)" using p1 le g(1,4,6) by (intro sint_of_unat) linarith+
  ultimately have low: "seq_at r (unat p) \<le> unat p" by linarith
  have D: "unat p = ?D"
  proof (rule ccontr)
    assume "unat p \<noteq> ?D"
    then show False using seq_low [OF I(1,3), of "unat p"] low le by simp
  qed
  have "?E = ?D \<or> (\<exists>u. push_pos (T u) = Some ?D)"
    using cells_okD(1) [OF I(3), of ?D] g(4) low D by (cases "?D < ?E") auto
  then show ?thesis using D I(2) by (simp add: word_unat_eq_iff)
qed

lemma ring_run_correct:
  assumes "2 \<le> unat n" "unat n \<le> 2 ^ 62" "LockFreeRingBuffer init n = Some r0" "ring_run r0 tr (r, T)"
    and "length (enqueued tr) < 2 ^ 62"
  shows "ring_inv (enqueued tr) (dequeued tr) (r, T)"
proof -
  obtain r1 where r1: "LockFreeRingBuffer init n = Some r1" "ring_inv [] [] (r1, \<lambda>_. Outside)" "length (cells r1) \<le> 2 ^ 62"
    using start_inv [OF assms(1,2), of init] by blast
  then have eq: "r1 = r0" using assms(3) by simp
  have "length (enqueued tr) + length (cells r0) < 2 ^ 62 + 2 ^ 62" using assms(5) r1(3) eq by (intro add_less_le_mono) simp_all
  then show ?thesis using ring_run_inv [OF assms(4)] r1(2) eq by simp
qed

section \<open>Schedules\<close>

text \<open>A run given as a list of scheduling decisions, to evaluate examples.\<close>

datatype 'a act = CallPush nat 'a | CallPop nat | RunPush nat | RunPop nat

fun act_step :: "'a act \<Rightarrow> 'a ring \<times> (nat \<Rightarrow> 'a pc) \<Rightarrow> ('a event \<times> 'a ring \<times> (nat \<Rightarrow> 'a pc)) option" where
  "act_step (CallPush t x) (r, T) = (if idle_pc (T t) then Some (Quiet, r, T(t := PushLoad x)) else None)"
| "act_step (CallPop t) (r, T) = (if idle_pc (T t) then Some (Quiet, r, T(t := PopLoad)) else None)"
| "act_step (RunPush t) (r, T) = map_option (\<lambda>(ev, pc, r'). (ev, r', T(t := pc))) (push_step False (T t) r)"
| "act_step (RunPop t) (r, T) = map_option (\<lambda>(ev, pc, r'). (ev, r', T(t := pc))) (pop_step False (T t) r)"

fun replay :: "'a act list \<Rightarrow> 'a event list \<times> 'a ring \<times> (nat \<Rightarrow> 'a pc) \<Rightarrow> ('a event list \<times> 'a ring \<times> (nat \<Rightarrow> 'a pc)) option" where
  "replay [] s = Some s"
| "replay (a # as) (tr, s) = do { (ev, s') \<leftarrow> act_step a s; replay as (tr @ [ev], s') }"

lemma act_step_sound: "act_step a s = Some (ev, s') \<Longrightarrow> ring_step s ev s'"
  by (cases a; cases s) (auto intro: ring_step.intros split: if_splits)

lemma replay_sound: "replay as (tr, s) = Some (tr', s') \<Longrightarrow> ring_run r0 tr s \<Longrightarrow> ring_run r0 tr' s'"
proof (induction as arbitrary: tr s)
  case (Cons a as)
  then obtain ev s1 where s1: "act_step a s = Some (ev, s1)" "replay as (tr @ [ev], s1) = Some (tr', s')"
    by (auto split: Option.bind_splits)
  then show ?case using Cons.IH [OF s1(2)] run_more [OF Cons.prems(2) act_step_sound [OF s1(1)]] by blast
qed simp

text \<open>Two threads push at the same time, the second loses the race for the first position; a third pops.\<close>

definition demo_schedule :: "nat act list" where
  "demo_schedule = [CallPush 0 5, CallPush 1 7] @ [RunPush 0, RunPush 1, RunPush 0, RunPush 1, RunPush 0, RunPush 1] @
     [RunPush 1, RunPush 1, RunPush 0, RunPush 1, RunPush 0, RunPush 1] @
     CallPop 2 # replicate 5 (RunPop 2)"

lemma demo_replay:
  "\<exists>r0 tr r T. LockFreeRingBuffer (0 :: nat) 2 = Some r0 \<and> ring_run r0 tr (r, T) \<and> enqueued tr = [5, 7] \<and>
     dequeued tr = [(0, 5)] \<and> (\<forall>t. idle_pc (T t)) \<and> dequeue_pos r = 1"
proof -
  obtain r0 :: "nat ring" where r0: "LockFreeRingBuffer (0 :: nat) 2 = Some r0"
    "r0 = \<lparr>ring_size = 2, buffer_mask = 1, cells = [\<lparr>sequence = 0, data = 0\<rparr>, \<lparr>sequence = 1, data = 0\<rparr>], enqueue_pos = 0, dequeue_pos = 0\<rparr>"
    by (simp add: LockFreeRingBuffer_def new_cells_def upt_rec)
  have "\<exists>tr r T. replay demo_schedule ([], r0, \<lambda>_. Outside) = Some (tr, r, T) \<and> enqueued tr = [5, 7] \<and>
     dequeued tr = [(0, 5)] \<and> (\<forall>t. idle_pc (T t)) \<and> dequeue_pos r = 1"
    unfolding r0(2) demo_schedule_def
    by (simp add: rd_def cell_of_def Let_def idle_pc_def eval_nat_numeral)
  then show ?thesis using r0(1) replay_sound [OF _ run_start] by blast
qed

text \<open>A third push while both cells are taken.\<close>

lemma demo_full:
  "\<exists>r0 tr r T. LockFreeRingBuffer (0 :: nat) 2 = Some r0 \<and> ring_run r0 tr (r, T) \<and> enqueued tr = [5, 7] \<and>
     T 0 = PushSeq 9 2 \<and> (\<exists>ev r'. push_step False (PushSeq 9 2) r = Some (ev, PushDone False, r'))"
proof -
  obtain r0 :: "nat ring" where r0: "LockFreeRingBuffer (0 :: nat) 2 = Some r0"
    "r0 = \<lparr>ring_size = 2, buffer_mask = 1, cells = [\<lparr>sequence = 0, data = 0\<rparr>, \<lparr>sequence = 1, data = 0\<rparr>], enqueue_pos = 0, dequeue_pos = 0\<rparr>"
    by (simp add: LockFreeRingBuffer_def new_cells_def upt_rec)
  have "\<exists>tr r T. replay (CallPush 0 5 # replicate 5 (RunPush 0) @ CallPush 0 7 # replicate 5 (RunPush 0) @
      [CallPush 0 9, RunPush 0]) ([], r0, \<lambda>_. Outside) = Some (tr, r, T) \<and> enqueued tr = [5, 7] \<and>
     T 0 = PushSeq 9 2 \<and> (\<exists>ev r'. push_step False (PushSeq 9 2) r = Some (ev, PushDone False, r'))"
    unfolding r0(2)
    by (simp add: rd_def cell_of_def Let_def idle_pc_def eval_nat_numeral)
  then show ?thesis using r0(1) replay_sound [OF _ run_start] by blast
qed

section \<open>The guarantees\<close>

text \<open>C8: however the threads interleave, the ring is a first-in first-out queue of its elements: every element taken
  is the one that got its position, no position is taken twice, and every step of a thread inside a call is defined.\<close>

theorem threads_exactly_once:
  assumes "2 \<le> unat n" "unat n \<le> 2 ^ 62" "LockFreeRingBuffer init n = Some r0" "ring_run r0 tr (r, T)"
    and "length (enqueued tr) < 2 ^ 62"
  shows "distinct (map fst (dequeued tr)) \<and>
    (\<forall>i x. (i, x) \<in> set (dequeued tr) \<longrightarrow> i < length (enqueued tr) \<and> x = enqueued tr ! i) \<and>
    (\<forall>t spurious. (pushing_pc (T t) \<longrightarrow> push_step spurious (T t) r \<noteq> None) \<and>
      (popping_pc (T t) \<longrightarrow> pop_step spurious (T t) r \<noteq> None))"
proof -
  have inv: "ring_inv (enqueued tr) (dequeued tr) (r, T)" by (rule ring_run_correct [OF assms])
  note I = ring_invD [OF inv]
  have "i < length (enqueued tr) \<and> x = enqueued tr ! i" if "(i, x) \<in> set (dequeued tr)" for i x
    using taken_okD(2,3) [OF I(6) that] I(2) geometryD(4) [OF I(1)] by simp
  then show ?thesis using taken_okD(1) [OF I(6)] defined_step [OF inv] by blast
qed

theorem threads_exactly_once_witness:
  "\<exists>r0 tr r T. LockFreeRingBuffer (0 :: nat) 2 = Some r0 \<and> ring_run r0 tr (r, T) \<and> dequeued tr = [(0, 5)] \<and>
     enqueued tr ! 0 = 5"
proof -
  obtain r0 tr r T where run: "LockFreeRingBuffer (0 :: nat) 2 = Some r0" "ring_run r0 tr (r, T)"
    "enqueued tr = [5, 7]" "dequeued tr = [(0, 5)]" using demo_replay by blast
  have "2 \<le> unat (2 :: u64)" "unat (2 :: u64) \<le> 2 ^ 62" "length (enqueued tr) < 2 ^ 62" using run(3) by simp_all
  from threads_exactly_once [OF this(1,2) run(1,2) this(3)] have "enqueued tr ! 0 = 5" using run(4) by simp
  then show ?thesis using run(1,2,4) by blast
qed

text \<open>C16: whenever no call is under way, the shared ring is in a state of the sequential queue model that holds exactly
  the elements enqueued and not yet dequeued, in order: nothing is lost.\<close>

theorem threads_quiescent:
  assumes "2 \<le> unat n" "unat n \<le> 2 ^ 62" "LockFreeRingBuffer init n = Some r0" "ring_run r0 tr (r, T)"
    and "length (enqueued tr) < 2 ^ 62" "\<forall>t. idle_pc (T t)"
  shows "ring_ok r \<and> ring_abs r = drop (length (dequeued tr)) (enqueued tr) \<and>
    fst ` set (dequeued tr) = {..<length (dequeued tr)}"
proof -
  have inv: "ring_inv (enqueued tr) (dequeued tr) (r, T)" by (rule ring_run_correct [OF assms(1-5)])
  note q = quiet_ring [OF inv assms(6)]
  have "read_pos (T t) = None" for t using assms(6) [rule_format, of t] by (cases "T t") (simp_all add: idle_pc_def)
  then have "fst ` set (dequeued tr) = {..<unat (dequeue_pos r)}"
    using taken_okD(4) [OF ring_invD(6) [OF inv]] by auto
  then show ?thesis using q by simp
qed

theorem threads_quiescent_witness:
  "\<exists>r0 tr r T. LockFreeRingBuffer (0 :: nat) 2 = Some r0 \<and> ring_run r0 tr (r, T) \<and> ring_abs r = [7]"
proof -
  obtain r0 tr r T where run: "LockFreeRingBuffer (0 :: nat) 2 = Some r0" "ring_run r0 tr (r, T)"
    "enqueued tr = [5, 7]" "dequeued tr = [(0, 5)]" "\<forall>t. idle_pc (T t)" using demo_replay by blast
  have "2 \<le> unat (2 :: u64)" "unat (2 :: u64) \<le> 2 ^ 62" "length (enqueued tr) < 2 ^ 62" using run(3) by simp_all
  from threads_quiescent [OF this(1,2) run(1,2) this(3) run(5)] have "ring_abs r = [7]" using run(3,4) by simp
  then show ?thesis using run(1,2) by blast
qed

text \<open>refusals under concurrency: a push answers false only when the ring holds as many elements as it has cells or a
  pop of the oldest of them has not released its cell; a pop answers empty only when all elements are taken or the
  next one's push has not published it.\<close>

lemma threads_refusals:
  assumes "2 \<le> unat n" "unat n \<le> 2 ^ 62" "LockFreeRingBuffer init n = Some r0" "ring_run r0 tr (r, T)"
    and "length (enqueued tr) < 2 ^ 62"
  shows "(T t = PushSeq x p \<and> push_step spurious (T t) r = Some (ev, PushDone False, r') \<longrightarrow>
      length (enqueued tr) = unat (dequeue_pos r) + length (cells r) \<or>
      (\<exists>u. pop_pos (T u) = Some (length (enqueued tr) - length (cells r)))) \<and>
    (T t = PopSeq p \<and> pop_step spurious (T t) r = Some (ev, PopDone None, r') \<longrightarrow>
      length (enqueued tr) = unat (dequeue_pos r) \<or> (\<exists>u. push_pos (T u) = Some (unat (dequeue_pos r))))"
  using push_refused [OF ring_run_correct [OF assms]] pop_refused [OF ring_run_correct [OF assms]] by blast

end
