(* ===== verification/Coalescer.thy ===== *)
theory Coalescer
  imports Prelude Complex_Main
begin

text \<open>
  \<open>BurstCoalescer\<close> of \<open>include/ftj_engine.hpp\<close> and \<open>src/ftj_engine.cpp\<close>: a table of staging pages that
  merges small host writes and flushes whole pages to the drive. The drive is the argument \<open>write\<close>
  (offset, bytes, drive state); the theory Coalescer_Drive passes \<open>FTJController::Write\<close>.
  The depth \<open>DEPTH\<close> is a compile-time parameter, the field \<open>depth\<close> here. The mutex makes each operation
  atomic.
\<close>

section \<open>The code\<close>

record coalesce_page =
  pg_data :: "u8 list"
  bytes_committed :: u32
  dirty :: bool
  base_lba :: nat

record coalescer =
  staging :: "coalesce_page list"
  depth :: nat
  host_bytes :: u64
  flash_bytes :: u64
  gc_calls :: u64
  blocks_erased :: u64
  pages_prog :: u64
  queue_depth :: u64

definition PAGE_SZ :: nat where "PAGE_SZ = 4096"

definition clean_page :: coalesce_page where
  "clean_page = \<lparr>pg_data = replicate PAGE_SZ 0, bytes_committed = 0, dirty = False, base_lba = 0\<rparr>"

definition BurstCoalescer :: "nat \<Rightarrow> coalescer" where
  "BurstCoalescer DEPTH =
     \<lparr>staging = replicate DEPTH clean_page, depth = DEPTH, host_bytes = 0, flash_bytes = 0, gc_calls = 0,
      blocks_erased = 0, pages_prog = 0, queue_depth = 0\<rparr>"

definition PushWrite :: "nat \<Rightarrow> u8 list option \<Rightarrow> nat \<Rightarrow> coalescer \<Rightarrow> (bool \<times> coalescer) option" where
  "PushWrite lba_offset src sz bc =
     (case src of
        None \<Rightarrow> Some (False, bc)
      | Some buf \<Rightarrow>
          if sz = 0 \<or> sz > PAGE_SZ then Some (False, bc)
          else do {
            let page_idx = (lba_offset div PAGE_SZ) mod depth bc;
            let page_off = lba_offset mod PAGE_SZ;
            let to_copy = min sz (PAGE_SZ - page_off);
            pg \<leftarrow> rd (staging bc) page_idx;
            let pg1 = (if dirty pg then pg
                       else pg\<lparr>base_lba := (lba_offset div PAGE_SZ) * PAGE_SZ, dirty := True\<rparr>);
            let qd = (if dirty pg then queue_depth bc else queue_depth bc + 1);
            bytes \<leftarrow> slice buf 0 to_copy;
            content \<leftarrow> splice (pg_data pg1) page_off bytes;
            let committed = bytes_committed pg1 + of_nat to_copy;
            let pg2 = pg1\<lparr>pg_data := content,
                          bytes_committed := (if committed > of_nat PAGE_SZ then of_nat PAGE_SZ else committed)\<rparr>;
            Some (True, bc\<lparr>staging := (staging bc)[page_idx := pg2], queue_depth := qd,
                           host_bytes := host_bytes bc + of_nat to_copy\<rparr>)
          })"

text \<open>The loop of \<open>FlushToFTL\<close> over the staging pages, from page \<open>i\<close> on.\<close>

fun flush_loop :: "(nat \<Rightarrow> u8 list \<Rightarrow> 'd \<Rightarrow> (bool \<times> 'd) option) \<Rightarrow> nat \<Rightarrow> nat list \<Rightarrow> nat \<Rightarrow>
   coalescer \<times> 'd \<Rightarrow> (nat \<times> coalescer \<times> 'd) option" where
  "flush_loop write max_pages [] flushed (bc, d) = Some (flushed, bc, d)"
| "flush_loop write max_pages (i # is) flushed (bc, d) =
     (if \<not> flushed < max_pages then Some (flushed, bc, d)
      else do {
        pg \<leftarrow> rd (staging bc) i;
        if \<not> dirty pg then flush_loop write max_pages is flushed (bc, d)
        else do {
          (ok, d') \<leftarrow> write (base_lba pg) (pg_data pg) d;
          let bc1 = (if ok then bc\<lparr>flash_bytes := flash_bytes bc + of_nat PAGE_SZ, pages_prog := pages_prog bc + 1\<rparr>
                     else bc);
          flush_loop write max_pages is (flushed + 1)
            (bc1\<lparr>staging := (staging bc1)[i := clean_page], queue_depth := queue_depth bc1 - 1\<rparr>, d')
        }
      })"

definition FlushToFTL :: "(nat \<Rightarrow> u8 list \<Rightarrow> 'd \<Rightarrow> (bool \<times> 'd) option) \<Rightarrow> nat \<Rightarrow>
   coalescer \<times> 'd \<Rightarrow> (nat \<times> coalescer \<times> 'd) option" where
  "FlushToFTL write max_pages s = do {
     (flushed, bc, d) \<leftarrow> flush_loop write max_pages [0..<depth (fst s)] 0 s;
     let host = host_bytes bc;
     let flash = flash_bytes bc;
     if flushed > 0 \<and> flash > 0 \<and> host > 0 \<and> real (unat flash) / real (unat host) > 1.5
     then Some (flushed, bc\<lparr>gc_calls := gc_calls bc + 1, blocks_erased := blocks_erased bc + 1\<rparr>, d)
     else Some (flushed, bc, d)
   }"

definition GetWAF :: "coalescer \<Rightarrow> real" where
  "GetWAF bc = (if host_bytes bc = 0 then 1 else real (unat (flash_bytes bc)) / real (unat (host_bytes bc)))"

definition GetPendingPages :: "coalescer \<Rightarrow> nat" where
  "GetPendingPages bc = length (filter dirty (staging bc))"

definition GetQueueDepth :: "coalescer \<Rightarrow> nat" where
  "GetQueueDepth bc = unat (queue_depth bc)"

record nand_metrics =
  nm_gc_invocations :: u64
  nm_blocks_erased :: u64
  nm_pages_programmed :: u64
  nm_waf :: real
  nm_max_pe_cycles :: u32
  nm_wear_uniformity :: real
  nm_active_queue_depth :: nat

definition GetNandMetrics :: "coalescer \<Rightarrow> nand_metrics" where
  "GetNandMetrics bc =
     \<lparr>nm_gc_invocations = gc_calls bc, nm_blocks_erased = blocks_erased bc,
      nm_pages_programmed = pages_prog bc, nm_waf = GetWAF bc, nm_max_pe_cycles = 0,
      nm_wear_uniformity = 0, nm_active_queue_depth = GetQueueDepth bc\<rparr>"

definition CoalescerReset :: "coalescer \<Rightarrow> coalescer" where
  "CoalescerReset bc =
     bc\<lparr>staging := map (\<lambda>_. clean_page) (staging bc), host_bytes := 0, flash_bytes := 0, gc_calls := 0,
        blocks_erased := 0, pages_prog := 0, queue_depth := 0\<rparr>"

section \<open>Invariant\<close>

text \<open>The table has its size, every staging page its 4096 bytes; a page that is not dirty is clean; the
  queue depth counts the dirty pages; base addresses are page aligned and belong to their slot.\<close>

definition page_ok :: "nat \<Rightarrow> nat \<Rightarrow> coalesce_page \<Rightarrow> bool" where
  "page_ok dep i pg \<longleftrightarrow> length (pg_data pg) = 4096 \<and> unat (bytes_committed pg) \<le> 4096 \<and>
     (\<not> dirty pg \<longrightarrow> pg = clean_page) \<and>
     (dirty pg \<longrightarrow> base_lba pg mod 4096 = 0 \<and> (base_lba pg div 4096) mod dep = i)"

definition coalescer_ok :: "coalescer \<Rightarrow> bool" where
  "coalescer_ok bc \<longleftrightarrow> 0 < depth bc \<and> depth bc < 2 ^ 64 \<and> length (staging bc) = depth bc \<and>
     (\<forall>i < depth bc. page_ok (depth bc) i (staging bc ! i)) \<and>
     queue_depth bc = of_nat (GetPendingPages bc)"

lemma page_ok_clean: "page_ok dep i clean_page"
  by (simp add: page_ok_def clean_page_def PAGE_SZ_def)

lemma coalescer_ok_init: "0 < n \<Longrightarrow> n < 2 ^ 64 \<Longrightarrow> coalescer_ok (BurstCoalescer n)"
  by (simp add: coalescer_ok_def BurstCoalescer_def page_ok_clean GetPendingPages_def) (simp add: clean_page_def)

lemma coalescer_ok_reset: "coalescer_ok bc \<Longrightarrow> coalescer_ok (CoalescerReset bc) \<and> GetPendingPages (CoalescerReset bc) = 0"
  by (simp add: coalescer_ok_def CoalescerReset_def page_ok_clean GetPendingPages_def filter_map o_def)
    (simp add: clean_page_def)

lemma dirty_update:
  assumes "i < length ps"
  shows "length (filter dirty (ps[i := q])) + (if dirty (ps ! i) then 1 else 0) =
    length (filter dirty ps) + (if dirty q then 1 else 0)"
  using assms
proof (induction ps arbitrary: i)
  case (Cons p ps)
  then show ?case by (cases i) auto
qed simp

lemma committed_bound:
  "unat (if c > of_nat PAGE_SZ then of_nat PAGE_SZ else c :: u32) \<le> 4096"
  by (simp add: PAGE_SZ_def word_less_nat_alt)

text \<open>What an accepted push does.\<close>

lemma PushWrite_accepts:
  fixes lba :: nat
  assumes "coalescer_ok bc" "0 < sz" "sz \<le> 4096" "sz \<le> length buf"
  defines "i \<equiv> (lba div 4096) mod depth bc" and "off \<equiv> lba mod 4096"
  defines "n \<equiv> min sz (4096 - off)"
  shows "\<exists>bc' pg'. PushWrite lba (Some buf) sz bc = Some (True, bc') \<and> coalescer_ok bc' \<and> depth bc' = depth bc \<and>
    i < depth bc \<and> staging bc' = (staging bc)[i := pg'] \<and> dirty pg' \<and>
    base_lba pg' = (if dirty (staging bc ! i) then base_lba (staging bc ! i) else lba div 4096 * 4096) \<and>
    pg_data pg' = take off (pg_data (staging bc ! i)) @ take n buf @ drop (off + n) (pg_data (staging bc ! i)) \<and>
    host_bytes bc' = host_bytes bc + of_nat n \<and> flash_bytes bc' = flash_bytes bc"
proof -
  have ok: "0 < depth bc" "length (staging bc) = depth bc" "\<forall>i < depth bc. page_ok (depth bc) i (staging bc ! i)"
    "queue_depth bc = of_nat (GetPendingPages bc)"
    using assms(1) by (simp_all add: coalescer_ok_def)
  have i: "i < depth bc" using ok(1) by (simp add: i_def)
  define pg where "pg = staging bc ! i"
  have pg: "page_ok (depth bc) i pg" using ok(3) i by (simp add: pg_def)
  have off: "off < 4096" by (simp add: off_def)
  have n: "0 < n" "off + n \<le> 4096" "n \<le> length buf" using assms(2,4) off by (auto simp: n_def)
  have len: "length (pg_data pg) = 4096" using pg by (simp add: page_ok_def)
  have rd: "rd (staging bc) i = Some pg" using i ok(2) by (simp add: rd_def pg_def)
  have sl: "slice buf 0 n = Some (take n buf)" using n by (simp add: slice_def)
  define content where "content = take off (pg_data pg) @ take n buf @ drop (off + n) (pg_data pg)"
  have sp: "splice (pg_data pg) off (take n buf) = Some content"
    using n len by (simp add: splice_def content_def min_def)
  define pg1 where "pg1 = (if dirty pg then pg else pg\<lparr>base_lba := lba div 4096 * 4096, dirty := True\<rparr>)"
  define committed where "committed = bytes_committed pg1 + of_nat n"
  define pg2 where "pg2 = pg1\<lparr>pg_data := content,
     bytes_committed := (if committed > of_nat PAGE_SZ then of_nat PAGE_SZ else committed)\<rparr>"
  define bc' where "bc' = bc\<lparr>staging := (staging bc)[i := pg2],
     queue_depth := (if dirty pg then queue_depth bc else queue_depth bc + 1), host_bytes := host_bytes bc + of_nat n\<rparr>"
  have d1: "pg_data pg1 = pg_data pg" by (simp add: pg1_def)
  have push: "PushWrite lba (Some buf) sz bc = Some (True, bc')"
  proof (cases "dirty pg")
    case True
    then show ?thesis
      using assms(2,3) rd sl sp
      by (simp add: PushWrite_def i_def [symmetric] off_def [symmetric] n_def [symmetric] bc'_def pg2_def pg1_def
          committed_def PAGE_SZ_def)
  next
    case False
    then show ?thesis
      using assms(2,3) rd sl sp
      by (simp add: PushWrite_def i_def [symmetric] off_def [symmetric] n_def [symmetric] bc'_def pg2_def pg1_def
          committed_def PAGE_SZ_def)
  qed
  have dirty2: "dirty pg2" by (simp add: pg2_def pg1_def)
  have base: "base_lba pg2 = (if dirty pg then base_lba pg else lba div 4096 * 4096)"
    by (simp add: pg2_def pg1_def)
  have data: "pg_data pg2 = content" by (simp add: pg2_def)
  have lc: "length content = 4096" using len n by (simp add: content_def)
  have bc2: "bytes_committed pg2 = (if committed > of_nat PAGE_SZ then of_nat PAGE_SZ else committed)"
    unfolding pg2_def by simp
  have "unat (bytes_committed pg2) \<le> 4096" by (simp only: bc2 committed_bound)
  then have pg2_ok: "page_ok (depth bc) i pg2"
    using pg base dirty2 data lc i_def by (auto simp: page_ok_def)
  have "length (filter dirty ((staging bc)[i := pg2])) + (if dirty pg then 1 else 0) = length (filter dirty (staging bc)) + 1"
    using dirty_update [of i "staging bc" pg2] i ok(2) dirty2 by (simp add: pg_def)
  then have "GetPendingPages bc' = (if dirty pg then GetPendingPages bc else GetPendingPages bc + 1)"
    by (auto simp: GetPendingPages_def bc'_def split: if_splits)
  then have "queue_depth bc' = of_nat (GetPendingPages bc')" using ok(4) by (simp add: bc'_def)
  then have "coalescer_ok bc'"
    using assms(1) pg2_ok i by (auto simp: coalescer_ok_def bc'_def nth_list_update)
  then show ?thesis using push i dirty2 base data
    by (intro exI [of _ bc'] exI [of _ pg2]) (simp add: bc'_def pg_def content_def)
qed

lemmas coalescer_okD = coalescer_ok_def [THEN iffD1, THEN conjunct1]
  coalescer_ok_def [THEN iffD1, THEN conjunct2, THEN conjunct2, THEN conjunct1]

text \<open>What a refused push does: a null source, an empty write or one longer than a page changes nothing.\<close>

lemma PushWrite_refuses:
  "src = None \<or> sz = 0 \<or> PAGE_SZ < sz \<Longrightarrow> PushWrite lba src sz bc = Some (False, bc)"
  by (auto simp: PushWrite_def split: option.splits)

section \<open>Flushing\<close>

text \<open>The reference for a flush: the dirty pages in slot order, at most \<open>max_pages\<close> of them, are written
  to the drive one after the other.\<close>

definition dirty_pages :: "coalescer \<Rightarrow> (nat \<times> u8 list) list" where
  "dirty_pages bc = map (\<lambda>pg. (base_lba pg, pg_data pg)) (filter dirty (staging bc))"

fun write_all :: "(nat \<Rightarrow> u8 list \<Rightarrow> 'd \<Rightarrow> (bool \<times> 'd) option) \<Rightarrow> (nat \<times> u8 list) list \<Rightarrow> 'd \<Rightarrow> 'd option" where
  "write_all write [] d = Some d"
| "write_all write ((b, xs) # ws) d = do { (ok, d') \<leftarrow> write b xs d; write_all write ws d' }"

definition flushed_slots :: "coalesce_page list \<Rightarrow> nat list \<Rightarrow> (nat \<times> u8 list) list" where
  "flushed_slots ps is = map (\<lambda>i. (base_lba (ps ! i), pg_data (ps ! i))) (filter (\<lambda>i. dirty (ps ! i)) is)"

lemma flushed_slots_update: "i \<notin> set is \<Longrightarrow> flushed_slots (ps[i := q]) is = flushed_slots ps is"
  unfolding flushed_slots_def by (induction "is") auto

lemma flushed_slots_all: "flushed_slots ps [0..<length ps] = map (\<lambda>pg. (base_lba pg, pg_data pg)) (filter dirty ps)"
proof -
  have "filter (\<lambda>i. dirty (ps ! i)) [0..<length ps] = filter (dirty \<circ> (\<lambda>i. ps ! i)) [0..<length ps]" by (simp add: o_def)
  then have "map (\<lambda>i. ps ! i) (filter (\<lambda>i. dirty (ps ! i)) [0..<length ps]) = filter dirty (map (\<lambda>i. ps ! i) [0..<length ps])"
    by (simp only: filter_map)
  then have "map (\<lambda>pg. (base_lba pg, pg_data pg)) (map (\<lambda>i. ps ! i) (filter (\<lambda>i. dirty (ps ! i)) [0..<length ps])) =
    map (\<lambda>pg. (base_lba pg, pg_data pg)) (filter dirty ps)" by (simp only: map_nth)
  then show ?thesis by (simp add: flushed_slots_def o_def)
qed

lemma flush_loop_writes:
  assumes "distinct is" "set is \<subseteq> {..<length (staging bc)}"
  shows "map_option (\<lambda>(m, bc', d'). (m, d')) (flush_loop write mx is fl (bc, d)) =
    map_option (Pair (fl + length (take (mx - fl) (flushed_slots (staging bc) is))))
      (write_all write (take (mx - fl) (flushed_slots (staging bc) is)) d)"
  using assms
proof (induction "is" arbitrary: fl bc d)
  case Nil
  then show ?case by (simp add: flushed_slots_def)
next
  case (Cons i "is")
  let ?pg = "staging bc ! i"
  have i: "i < length (staging bc)" and out: "i \<notin> set is" "distinct is" using Cons.prems by auto
  show ?case
  proof (cases "fl < mx \<and> dirty ?pg")
    case False
    then show ?thesis
      using Cons.IH [of bc fl d] Cons.prems i by (auto simp: flushed_slots_def access)
  next
    case True
    then have k: "mx - fl = Suc (mx - Suc fl)" by (simp add: Suc_diff_Suc)
    have hd: "flushed_slots (staging bc) (i # is) = (base_lba ?pg, pg_data ?pg) # flushed_slots (staging bc) is"
      using True by (simp add: flushed_slots_def)
    show ?thesis
    proof (cases "write (base_lba ?pg) (pg_data ?pg) d")
      case None
      then show ?thesis unfolding k hd using True i by (simp add: access)
    next
      case (Some r)
      obtain ok d' where r: "r = (ok, d')" by (cases r)
      let ?bc1 = "if ok then bc\<lparr>flash_bytes := flash_bytes bc + of_nat PAGE_SZ, pages_prog := pages_prog bc + 1\<rparr> else bc"
      let ?bc2 = "?bc1\<lparr>staging := (staging ?bc1)[i := clean_page], queue_depth := queue_depth ?bc1 - 1\<rparr>"
      have st: "staging ?bc2 = (staging bc)[i := clean_page]" by (cases ok) simp_all
      have "flush_loop write mx (i # is) fl (bc, d) = flush_loop write mx is (Suc fl) (?bc2, d')"
        using True i Some r by (simp add: access Let_def)
      moreover have "map_option (\<lambda>(m, bc', d'). (m, d')) (flush_loop write mx is (Suc fl) (?bc2, d')) =
         map_option (Pair (Suc fl + length (take (mx - Suc fl) (flushed_slots (staging bc) is))))
           (write_all write (take (mx - Suc fl) (flushed_slots (staging bc) is)) d')"
        using Cons.IH [of ?bc2 "Suc fl" d'] out Cons.prems(2) unfolding st by (simp add: flushed_slots_update)
      ultimately show ?thesis unfolding k hd using Some r by simp
    qed
  qed
qed

lemma flush_writes:
  assumes "coalescer_ok bc"
  shows "map_option (\<lambda>(n, bc', d'). (n, d')) (FlushToFTL write max_pages (bc, d)) =
    map_option (Pair (min max_pages (GetPendingPages bc))) (write_all write (take max_pages (dirty_pages bc)) d)"
proof -
  have len: "length (staging bc) = depth bc" using assms by (simp add: coalescer_ok_def)
  have sub: "set [0..<depth bc] \<subseteq> {..<length (staging bc)}" by (auto simp: len)
  have fs: "flushed_slots (staging bc) [0..<depth bc] = dirty_pages bc"
    using flushed_slots_all [of "staging bc"] by (simp add: len dirty_pages_def)
  have "length (take max_pages (dirty_pages bc)) = min max_pages (GetPendingPages bc)"
    by (simp add: dirty_pages_def GetPendingPages_def)
  then have loop: "map_option (\<lambda>(n, bc', d'). (n, d')) (flush_loop write max_pages [0..<depth bc] 0 (bc, d)) =
    map_option (Pair (min max_pages (GetPendingPages bc))) (write_all write (take max_pages (dirty_pages bc)) d)"
    using flush_loop_writes [OF distinct_upt sub, of "write" max_pages 0 d] fs by simp
  have "map_option (\<lambda>(n, bc', d'). (n, d')) (FlushToFTL write max_pages (bc, d)) =
    map_option (\<lambda>(n, bc', d'). (n, d')) (flush_loop write max_pages [0..<depth bc] 0 (bc, d))"
    by (cases "flush_loop write max_pages [0..<depth bc] 0 (bc, d)") (auto simp: FlushToFTL_def Let_def)
  then show ?thesis using loop by simp
qed

text \<open>What a flush leaves in the table: the dirty pages it did not get to, in their order.\<close>

lemma flush_loop_staging:
  assumes "distinct is" "set is \<subseteq> {..<length (staging bc)}" "flush_loop write mx is fl (bc, d) = Some (m, bc', d')"
  shows "flushed_slots (staging bc') is = drop (mx - fl) (flushed_slots (staging bc) is) \<and>
    length (staging bc') = length (staging bc) \<and> (\<forall>j. j \<notin> set is \<longrightarrow> staging bc' ! j = staging bc ! j)"
  using assms
proof (induction "is" arbitrary: fl bc d)
  case Nil
  then show ?case by (simp add: flushed_slots_def)
next
  case (Cons i "is")
  let ?pg = "staging bc ! i"
  have i: "i < length (staging bc)" and out: "i \<notin> set is" "distinct is" "set is \<subseteq> {..<length (staging bc)}"
    using Cons.prems(1,2) by auto
  consider (full) "\<not> fl < mx" | (clean) "fl < mx" "\<not> dirty ?pg" | (flush) "fl < mx" "dirty ?pg" by blast
  then show ?case
  proof cases
    case full
    then show ?thesis using Cons.prems(3) by simp
  next
    case clean
    then have "flush_loop write mx is fl (bc, d) = Some (m, bc', d')" using Cons.prems(3) i by (simp add: access)
    from Cons.IH [OF out(2,3) this] show ?thesis using clean(2) out(1) by (simp add: flushed_slots_def)
  next
    case flush
    have k: "mx - fl = Suc (mx - Suc fl)" using flush(1) by (simp add: Suc_diff_Suc)
    obtain ok d1 where w: "write (base_lba ?pg) (pg_data ?pg) d = Some (ok, d1)"
      using Cons.prems(3) flush i by (cases "write (base_lba ?pg) (pg_data ?pg) d") (auto simp: access)
    let ?bc1 = "if ok then bc\<lparr>flash_bytes := flash_bytes bc + of_nat PAGE_SZ, pages_prog := pages_prog bc + 1\<rparr> else bc"
    let ?bc2 = "?bc1\<lparr>staging := (staging ?bc1)[i := clean_page], queue_depth := queue_depth ?bc1 - 1\<rparr>"
    have st: "staging ?bc2 = (staging bc)[i := clean_page]" by (cases ok) simp_all
    have "flush_loop write mx is (Suc fl) (?bc2, d1) = Some (m, bc', d')"
      using Cons.prems(3) flush i w by (simp add: access Let_def)
    from Cons.IH [OF out(2) _ this] have IH:
      "flushed_slots (staging bc') is = drop (mx - Suc fl) (flushed_slots (staging bc) is)" "length (staging bc') = length (staging bc)"
      "\<forall>j. j \<notin> set is \<longrightarrow> staging bc' ! j = (staging bc)[i := clean_page] ! j"
      using out(3) unfolding st flushed_slots_update [OF out(1)] by simp_all
    have "staging bc' ! i = clean_page" using IH(3) out(1) i by simp
    then have "flushed_slots (staging bc') (i # is) = flushed_slots (staging bc') is"
      by (simp add: flushed_slots_def clean_page_def)
    moreover have "flushed_slots (staging bc) (i # is) = (base_lba ?pg, pg_data ?pg) # flushed_slots (staging bc) is"
      using flush(2) by (simp add: flushed_slots_def)
    ultimately show ?thesis using IH unfolding k by simp
  qed
qed

lemma flush_leaves:
  assumes "coalescer_ok bc" "FlushToFTL write max_pages (bc, d) = Some (n, bc', d')"
  shows "dirty_pages bc' = drop max_pages (dirty_pages bc)"
proof -
  have len: "length (staging bc) = depth bc" using assms(1) by (simp add: coalescer_ok_def)
  have sub: "set [0..<depth bc] \<subseteq> {..<length (staging bc)}" by (auto simp: len)
  obtain m bc1 d1 where l: "flush_loop write max_pages [0..<depth bc] 0 (bc, d) = Some (m, bc1, d1)" "staging bc' = staging bc1"
    using assms(2) by (auto simp: FlushToFTL_def Let_def split: Option.bind_splits if_splits)
  from flush_loop_staging [OF distinct_upt sub l(1)]
  have "flushed_slots (staging bc1) [0..<depth bc] = drop max_pages (flushed_slots (staging bc) [0..<depth bc])"
    "length (staging bc1) = depth bc" by (simp_all add: len)
  then show ?thesis
    using flushed_slots_all [of "staging bc"] flushed_slots_all [of "staging bc1"] by (simp add: dirty_pages_def len l(2))
qed

text \<open>The staged pages are whole aligned pages with different addresses.\<close>

lemma dirty_pages_shape:
  assumes "coalescer_ok bc"
  shows "\<forall>(b, xs) \<in> set (dirty_pages bc). b mod 4096 = 0 \<and> length xs = 4096" "distinct (map fst (dirty_pages bc))"
proof -
  let ?ps = "staging bc" and ?is = "filter (\<lambda>i. dirty (staging bc ! i)) [0..<depth bc]"
  have len: "length ?ps = depth bc" and pg: "\<forall>i < depth bc. page_ok (depth bc) i (?ps ! i)"
    using assms by (simp_all add: coalescer_ok_def)
  have d: "dirty_pages bc = map (\<lambda>i. (base_lba (?ps ! i), pg_data (?ps ! i))) ?is"
    using flushed_slots_all [of ?ps] by (simp add: len dirty_pages_def flushed_slots_def)
  show "\<forall>(b, xs) \<in> set (dirty_pages bc). b mod 4096 = 0 \<and> length xs = 4096"
    using pg unfolding d by (auto simp: page_ok_def)
  have "inj_on (\<lambda>i. base_lba (?ps ! i)) (set ?is)"
  proof (rule inj_onI)
    fix i j assume "i \<in> set ?is" "j \<in> set ?is" "base_lba (?ps ! i) = base_lba (?ps ! j)"
    moreover have "(base_lba (?ps ! i) div 4096) mod depth bc = i" if "i \<in> set ?is" for i
      using pg that by (auto simp: page_ok_def)
    ultimately show "i = j" by metis
  qed
  then show "distinct (map fst (dirty_pages bc))" unfolding d by (simp add: distinct_map o_def)
qed

lemma coalescer_queue_depth:
  assumes "coalescer_ok bc"
  shows "GetQueueDepth bc = GetPendingPages bc"
proof -
  have "GetPendingPages bc \<le> length (staging bc)" unfolding GetPendingPages_def by (rule length_filter_le)
  then have "GetPendingPages bc < 2 ^ 64" "queue_depth bc = of_nat (GetPendingPages bc)"
    using assms by (simp_all add: coalescer_ok_def)
  then show ?thesis by (simp add: GetQueueDepth_def unat_of_nat)
qed

text \<open>a flush is the reference flush: it hands the dirty staging pages to the drive in slot order, the
  first \<open>max_pages\<close> of them, and returns how many they were.\<close>

lemma flush_in_slot_order:
  assumes "coalescer_ok bc"
  shows "map_option (\<lambda>(n, bc', d'). (n, d')) (FlushToFTL write max_pages (bc, d)) =
    map_option (Pair (min max_pages (GetPendingPages bc))) (write_all write (take max_pages (dirty_pages bc)) d)"
  using flush_writes [OF assms] .

text \<open>on a coalescer with a table every write of 1 to 4096 bytes is accepted, whatever is pending: the
  bytes that fit in the page go to the slot of the address; the answer is never \<open>false\<close> for a full table.\<close>

lemma push_never_full:
  fixes lba :: nat
  assumes "coalescer_ok bc" "0 < sz" "sz \<le> 4096" "sz \<le> length buf"
  shows "\<exists>bc'. PushWrite lba (Some buf) sz bc = Some (True, bc') \<and> coalescer_ok bc' \<and>
    host_bytes bc' = host_bytes bc + of_nat (min sz (4096 - lba mod 4096)) \<and>
    GetPendingPages bc \<le> GetPendingPages bc' \<and> GetPendingPages bc' \<le> depth bc"
proof -
  let ?i = "(lba div 4096) mod depth bc"
  obtain bc' pg' where p: "PushWrite lba (Some buf) sz bc = Some (True, bc')" "coalescer_ok bc'" "depth bc' = depth bc"
    "?i < depth bc" "staging bc' = (staging bc)[?i := pg']" "dirty pg'"
    "host_bytes bc' = host_bytes bc + of_nat (min sz (4096 - lba mod 4096))"
    using PushWrite_accepts [OF assms, of lba] by blast
  have len: "length (staging bc) = depth bc" "length (staging bc') = depth bc"
    using assms(1) p(2,3) by (simp_all add: coalescer_ok_def)
  have "GetPendingPages bc \<le> GetPendingPages bc'"
    using dirty_update [of ?i "staging bc" pg'] p(4-6) len by (simp add: GetPendingPages_def split: if_splits)
  moreover have "GetPendingPages bc' \<le> depth bc"
    unfolding GetPendingPages_def len(2) [symmetric] by (rule length_filter_le)
  ultimately show ?thesis using p by blast
qed

lemma filter_dirty_update:
  assumes "filter dirty ps = []" "i < length ps" "dirty q"
  shows "filter dirty (ps[i := q]) = [q]"
proof -
  have "filter dirty (take i ps) = []" "filter dirty (drop (Suc i) ps) = []"
    using assms(1) by (auto simp: filter_empty_conv dest: in_set_takeD in_set_dropD)
  then show ?thesis using assms(2,3) by (simp add: upd_conv_take_nth_drop)
qed

text \<open>The first push into an empty coalescer: one dirty page, zeros around the bytes.\<close>

lemma PushWrite_first:
  assumes "coalescer_ok bc" "GetPendingPages bc = 0" "0 < sz" "off + sz \<le> 4096" "sz \<le> length buf"
  shows "\<exists>bc' pg. PushWrite (lp * 4096 + off) (Some buf) sz bc = Some (True, bc') \<and> coalescer_ok bc' \<and> depth bc' = depth bc \<and>
    staging bc' = (staging bc)[lp mod depth bc := pg] \<and> filter dirty (staging bc') = [pg] \<and> base_lba pg = lp * 4096 \<and>
    pg_data pg = replicate off 0 @ take sz buf @ replicate (4096 - (off + sz)) 0"
proof -
  let ?lba = "lp * 4096 + off" and ?i = "lp mod depth bc"
  have addr: "(?lba div 4096) mod depth bc = ?i" "?lba mod 4096 = off" "?lba div 4096 = lp"
    using assms(3,4) by simp_all
  have m: "min sz (4096 - off) = sz" and sz: "sz \<le> 4096" using assms(4) by simp_all
  obtain bc1 pg where p: "PushWrite ?lba (Some buf) sz bc = Some (True, bc1)" "coalescer_ok bc1" "depth bc1 = depth bc"
    "?i < depth bc" "staging bc1 = (staging bc)[?i := pg]" "dirty pg"
    "base_lba pg = (if dirty (staging bc ! ?i) then base_lba (staging bc ! ?i) else lp * 4096)"
    "pg_data pg = take off (pg_data (staging bc ! ?i)) @ take sz buf @ drop (off + sz) (pg_data (staging bc ! ?i))"
    using PushWrite_accepts [OF assms(1,3) sz assms(5), of ?lba] unfolding addr m by blast
  have len: "length (staging bc) = depth bc" using assms(1) by (simp add: coalescer_ok_def)
  have none: "filter dirty (staging bc) = []" using assms(2) by (simp add: GetPendingPages_def)
  then have "\<not> dirty (staging bc ! ?i)" using p(4) len by (simp add: filter_empty_conv)
  then have clean: "staging bc ! ?i = clean_page" using assms(1) p(4) by (simp add: coalescer_ok_def page_ok_def)
  have "base_lba pg = lp * 4096" "pg_data pg = replicate off 0 @ take sz buf @ replicate (4096 - (off + sz)) 0"
    using p(7,8) assms(4) unfolding clean by (simp_all add: clean_page_def PAGE_SZ_def)
  moreover have "filter dirty (staging bc1) = [pg]"
    using filter_dirty_update [OF none _ p(6), of ?i] p(4,5) len by simp
  ultimately show ?thesis using p by blast
qed

text \<open>two writes whose pages share a slot collide: the bytes of the second land in the page of the first,
  and the flush writes them to the first page's address. \<open>k\<close> is any distance in whole tables.\<close>

lemma slot_collision:
  assumes "coalescer_ok bc" "GetPendingPages bc = 0" "0 < sz1" "o1 + sz1 \<le> 4096" "sz1 \<le> length buf1"
    and "0 < sz2" "o2 + sz2 \<le> 4096" "sz2 \<le> length buf2"
  shows "\<exists>bc1 bc2 xs. PushWrite (lp * 4096 + o1) (Some buf1) sz1 bc = Some (True, bc1) \<and>
    PushWrite ((lp + k * depth bc) * 4096 + o2) (Some buf2) sz2 bc1 = Some (True, bc2) \<and>
    dirty_pages bc2 = [(lp * 4096, xs)] \<and> take sz2 (drop o2 xs) = take sz2 buf2"
proof -
  let ?i = "lp mod depth bc" and ?lba = "(lp + k * depth bc) * 4096 + o2"
  obtain bc1 pg where p: "PushWrite (lp * 4096 + o1) (Some buf1) sz1 bc = Some (True, bc1)" "coalescer_ok bc1"
    "depth bc1 = depth bc" "staging bc1 = (staging bc)[?i := pg]" "filter dirty (staging bc1) = [pg]" "base_lba pg = lp * 4096"
    using PushWrite_first [OF assms(1-5), of lp] by blast
  have len: "length (staging bc) = depth bc" "0 < depth bc" using assms(1) by (simp_all add: coalescer_ok_def)
  then have i: "?i < length (staging bc)" by simp
  have at: "staging bc1 ! ?i = pg" using p(4) i by simp
  have "pg \<in> set (filter dirty (staging bc1))" using p(5) by simp
  then have dirty: "dirty pg" by simp
  have dm: "(q * 4096 + o2) div 4096 = q" "(q * 4096 + o2) mod 4096 = o2" for q using assms(6,7) by simp_all
  note lp = dm [of "lp + k * depth bc"]
  have addr: "(lp + k * depth bc) mod depth bc1 = ?i" using p(3) by simp
  have m: "min sz2 (4096 - o2) = sz2" and sz: "sz2 \<le> 4096" using assms(7) by simp_all
  obtain bc2 pg' where q: "PushWrite ?lba (Some buf2) sz2 bc1 = Some (True, bc2)" "coalescer_ok bc2"
    "staging bc2 = (staging bc1)[?i := pg']" "dirty pg'" "base_lba pg' = base_lba pg"
    "pg_data pg' = take o2 (pg_data pg) @ take sz2 buf2 @ drop (o2 + sz2) (pg_data pg)"
    using PushWrite_accepts [OF p(2) assms(6) sz assms(8), of ?lba] unfolding lp addr m at using dirty by auto
  have none: "filter dirty (staging bc) = []" using assms(2) by (simp add: GetPendingPages_def)
  have "staging bc2 = (staging bc)[?i := pg']" using q(3) p(4) by simp
  then have "filter dirty (staging bc2) = [pg']" using filter_dirty_update [OF none i q(4)] by simp
  then have dp: "dirty_pages bc2 = [(lp * 4096, pg_data pg')]" by (simp add: dirty_pages_def q(5) p(6))
  have "pg \<in> set (staging bc1)" using at i p(4) by (metis length_list_update nth_mem)
  then obtain j where "j < depth bc1" "staging bc1 ! j = pg" using p(3,4) len(1) by (auto simp: in_set_conv_nth)
  then have "length (pg_data pg) = 4096" using p(2) by (auto simp: coalescer_ok_def page_ok_def)
  then have "take sz2 (drop o2 (pg_data pg')) = take sz2 buf2" using q(6) assms(7,8) by simp
  then show ?thesis using p(1) q(1) dp by blast
qed

section \<open>The drive as seen by the coalescer\<close>

text \<open>A page sink accepts every page in every state, with an answer: nothing more is needed for a flush to
  be defined and to empty the slots it flushes.\<close>

locale page_sink =
  fixes put :: "nat \<Rightarrow> u8 list \<Rightarrow> 'd \<Rightarrow> (bool \<times> 'd) option"
    and sink_inv :: "'d \<Rightarrow> bool"
  assumes accepts: "sink_inv d \<Longrightarrow> length xs = 4096 \<Longrightarrow> \<exists>ok d'. put b xs d = Some (ok, d') \<and> sink_inv d'"
begin

lemma flush_step_ok:
  assumes "coalescer_ok bc" "i < depth bc" "dirty (staging bc ! i)"
    and "staging bc' = (staging bc)[i := clean_page]" "depth bc' = depth bc" "queue_depth bc' = queue_depth bc - 1"
  shows "coalescer_ok bc' \<and> Suc (GetPendingPages bc') = GetPendingPages bc"
proof -
  have ok: "length (staging bc) = depth bc" "\<forall>i < depth bc. page_ok (depth bc) i (staging bc ! i)"
    "queue_depth bc = of_nat (GetPendingPages bc)" "0 < depth bc" "depth bc < 2 ^ 64"
    using assms(1) by (simp_all add: coalescer_ok_def)
  have "\<not> dirty clean_page" by (simp add: clean_page_def)
  then have p: "Suc (GetPendingPages bc') = GetPendingPages bc"
    using dirty_update [of i "staging bc" clean_page] assms(2-4) ok(1) by (simp add: GetPendingPages_def)
  then have "of_nat (GetPendingPages bc) = (of_nat (GetPendingPages bc') + 1 :: u64)"
    by (metis of_nat_Suc add.commute)
  then have "queue_depth bc' = of_nat (GetPendingPages bc')" using ok(3) assms(6) by simp
  then have "coalescer_ok bc'"
    using ok assms(2,4,5) by (auto simp: coalescer_ok_def nth_list_update page_ok_clean)
  then show ?thesis using p by blast
qed

lemma flush_loop_total:
  assumes "coalescer_ok bc" "sink_inv d" "distinct is" "set is \<subseteq> {..<depth bc}"
  shows "\<exists>m bc' d'. flush_loop put mx is fl (bc, d) = Some (fl + m, bc', d') \<and> coalescer_ok bc' \<and> sink_inv d' \<and>
    depth bc' = depth bc \<and> host_bytes bc' = host_bytes bc \<and> GetPendingPages bc' + m = GetPendingPages bc \<and>
    m = min (mx - fl) (length (flushed_slots (staging bc) is))"
  using assms
proof (induction "is" arbitrary: fl bc d)
  case Nil
  then show ?case by (simp add: flushed_slots_def)
next
  case (Cons i "is")
  let ?pg = "staging bc ! i"
  have i: "i < depth bc" "i < length (staging bc)" and out: "i \<notin> set is" "distinct is" "set is \<subseteq> {..<depth bc}"
    using Cons.prems by (auto simp: coalescer_ok_def)
  show ?case
  proof (cases "fl < mx \<and> dirty ?pg")
    case False
    then show ?thesis
      using Cons.IH [OF Cons.prems(1,2) out(2,3), of fl] Cons.prems(1,2) i
      by (auto simp: flushed_slots_def access)
  next
    case True
    have len: "length (pg_data ?pg) = 4096" using Cons.prems(1) i by (simp add: coalescer_ok_def page_ok_def)
    obtain ok d' where w: "put (base_lba ?pg) (pg_data ?pg) d = Some (ok, d')" "sink_inv d'"
      using accepts [OF Cons.prems(2) len] by blast
    let ?bc1 = "if ok then bc\<lparr>flash_bytes := flash_bytes bc + of_nat PAGE_SZ, pages_prog := pages_prog bc + 1\<rparr> else bc"
    let ?bc2 = "?bc1\<lparr>staging := (staging ?bc1)[i := clean_page], queue_depth := queue_depth ?bc1 - 1\<rparr>"
    have f2: "staging ?bc2 = (staging bc)[i := clean_page]" "depth ?bc2 = depth bc"
      "queue_depth ?bc2 = queue_depth bc - 1" "host_bytes ?bc2 = host_bytes bc" by (cases ok; simp)+
    note ok2 = flush_step_ok [OF Cons.prems(1) i(1) conjunct2 [OF True] f2(1-3)]
    have step: "flush_loop put mx (i # is) fl (bc, d) = flush_loop put mx is (Suc fl) (?bc2, d')"
      using True i(2) w(1) by (simp add: access Let_def)
    have "set is \<subseteq> {..<depth ?bc2}" using out(3) f2(2) by simp
    from Cons.IH [OF conjunct1 [OF ok2] w(2) out(2) this, of "Suc fl"]
    obtain m bc' d'' where IH: "flush_loop put mx is (Suc fl) (?bc2, d') = Some (Suc fl + m, bc', d'')"
      "coalescer_ok bc'" "sink_inv d''" "depth bc' = depth ?bc2" "host_bytes bc' = host_bytes ?bc2"
      "GetPendingPages bc' + m = GetPendingPages ?bc2" "m = min (mx - Suc fl) (length (flushed_slots (staging ?bc2) is))"
      by blast
    have "length (flushed_slots (staging bc) (i # is)) = Suc (length (flushed_slots (staging bc) is))"
      using True by (simp add: flushed_slots_def)
    then have "Suc m = min (mx - fl) (length (flushed_slots (staging bc) (i # is)))"
      using IH(7) True unfolding f2(1) flushed_slots_update [OF out(1)] by linarith
    then show ?thesis
      using IH(1-6) step ok2 f2(2,4) by (intro exI [of _ "Suc m"] exI [of _ bc'] exI [of _ d'']) simp
  qed
qed

lemma flush_total:
  assumes "coalescer_ok bc" "sink_inv d"
  shows "\<exists>n bc' d'. FlushToFTL put mx (bc, d) = Some (n, bc', d') \<and> coalescer_ok bc' \<and> sink_inv d' \<and>
    depth bc' = depth bc \<and> GetPendingPages bc' + n = GetPendingPages bc \<and> n = min mx (GetPendingPages bc)"
proof -
  have len: "length (staging bc) = depth bc" using assms(1) by (simp add: coalescer_ok_def)
  have n: "length (flushed_slots (staging bc) [0..<depth bc]) = GetPendingPages bc"
    using flushed_slots_all [of "staging bc"] by (simp add: len GetPendingPages_def)
  have sub: "set [0..<depth bc] \<subseteq> {..<depth bc}" by auto
  obtain m bc' d' where l: "flush_loop put mx [0..<depth bc] 0 (bc, d) = Some (m, bc', d')" "coalescer_ok bc'"
    "sink_inv d'" "depth bc' = depth bc" "GetPendingPages bc' + m = GetPendingPages bc" "m = min mx (GetPendingPages bc)"
    using flush_loop_total [OF assms distinct_upt sub, of mx 0] unfolding n by auto
  have gc: "coalescer_ok (bc'\<lparr>gc_calls := a, blocks_erased := b\<rparr>) = coalescer_ok bc'"
    "GetPendingPages (bc'\<lparr>gc_calls := a, blocks_erased := b\<rparr>) = GetPendingPages bc'" for a b
    by (simp_all add: coalescer_ok_def GetPendingPages_def)
  show ?thesis
    using l gc by (simp add: FlushToFTL_def Let_def)
qed

end

end
