(* ===== verification/Coalescer_Drive.thy ===== *)
theory Coalescer_Drive
  imports Coalescer Drive
begin

text \<open>
  The burst coalescer on top of the drive: \<open>FlushToFTL\<close> with \<open>FTJController::Write\<close>
  (\<open>src/ftj_engine.cpp\<close>). The interpretation \<open>ftl\<close> gives the coalescer its page sink.
\<close>

definition ftl_write :: "nat \<Rightarrow> u8 list \<Rightarrow> ctrl \<Rightarrow> (bool \<times> ctrl) option" where
  "ftl_write base xs c = Write c base (Some xs) PAGE_SZ"

interpretation ftl: page_sink ftl_write "ctrl_safe intact"
proof unfold_locales
  fix d :: ctrl and xs :: "u8 list" and b
  assume "ctrl_safe intact d" "length xs = 4096"
  then show "\<exists>ok d'. ftl_write b xs d = Some (ok, d') \<and> ctrl_safe intact d'"
    using Write_safe [of intact d "Some xs" PAGE_SZ b] by (auto simp: ftl_write_def PAGE_SZ_def)
qed

section \<open>The staged pages reach the drive\<close>

text \<open>The bytes of the device after whole pages are written one after the other.\<close>

fun after_pages :: "(nat \<times> u8 list) list \<Rightarrow> (nat \<Rightarrow> u8) \<Rightarrow> nat \<Rightarrow> u8" where
  "after_pages [] f = f"
| "after_pages ((b, xs) # ws) f = after_pages ws (\<lambda>a. if b \<le> a \<and> a < b + 4096 then xs ! (a - b) else f a)"

lemma after_pages_cong: "(\<forall>a < n. f a = g a) \<Longrightarrow> a < n \<Longrightarrow> after_pages ws f a = after_pages ws g a"
  by (induction ws f arbitrary: g rule: after_pages.induct) auto

lemma after_pages_outside: "\<forall>(b, xs) \<in> set ws. \<not> (b \<le> a \<and> a < b + 4096) \<Longrightarrow> after_pages ws f a = f a"
  by (induction ws f rule: after_pages.induct) auto

lemma aligned_pages_disjoint:
  assumes "b mod 4096 = 0" "b' mod 4096 = (0 :: nat)" "b \<le> a" "a < b + 4096" "b' \<le> a" "a < b' + 4096"
  shows "b = b'"
proof -
  have "4096 dvd b" "4096 dvd b'" using assms(1,2) by (simp_all add: dvd_eq_mod_eq_0)
  then obtain q q' where "b = 4096 * q" "b' = 4096 * q'" by (elim dvdE)
  moreover have "b < b' + 4096" "b' < b + 4096" using assms(3-6) by linarith+
  ultimately show ?thesis by simp
qed

lemma after_pages_inside:
  assumes "distinct (map fst ws)" "\<forall>(b, xs) \<in> set ws. b mod 4096 = 0" "(b, xs) \<in> set ws" "b \<le> a" "a < b + 4096"
  shows "after_pages ws f a = xs ! (a - b)"
  using assms
proof (induction ws f rule: after_pages.induct)
  case (2 b' ys ws f)
  show ?case
  proof (cases "(b, xs) \<in> set ws")
    case True
    then show ?thesis using 2 by simp
  next
    case False
    then have e: "b' = b" "ys = xs" using "2.prems"(3) by auto
    have "\<not> (b1 \<le> a \<and> a < b1 + 4096)" if "(b1, zs) \<in> set ws" for b1 zs
    proof
      assume in1: "b1 \<le> a \<and> a < b1 + 4096"
      have "b mod 4096 = 0" "b1 mod 4096 = 0" using "2.prems"(2) that e(1) by auto
      then have "b = b1" using in1 "2.prems"(4,5) by (intro aligned_pages_disjoint [of b b1 a]) simp_all
      then show False using "2.prems"(1) that e(1) by force
    qed
    then have "\<forall>(b1, zs) \<in> set ws. \<not> (b1 \<le> a \<and> a < b1 + 4096)" by blast
    from after_pages_outside [OF this] show ?thesis using e "2.prems"(4,5) by simp
  qed
qed simp

lemma write_all_bytes:
  assumes "ctrl_ok c" "\<forall>(b, xs) \<in> set ws. b mod 4096 = 0 \<and> length xs = 4096 \<and> b + 4096 \<le> capacity c"
    and "length ws + gc_low_watermark (meta c) \<le> free_count (meta c)"
    and "wear_slack (length ws) (half_select_disturb_threshold (physics_cfg c)) (meta c)"
  shows "\<exists>c'. write_all ftl_write ws c = Some c' \<and> ctrl_ok c' \<and> capacity c' = capacity c \<and> healthy c' \<and>
    free_count (meta c) = free_count (meta c') + length ws \<and> (\<forall>a < capacity c. byte_at c' a = after_pages ws (byte_at c) a)"
  using assms
proof (induction ws arbitrary: c)
  case Nil
  then show ?case by (simp add: slack_healthy)
next
  case (Cons w ws)
  obtain b xs where w: "w = (b, xs)" by (cases w)
  have x: "b mod 4096 = 0" "length xs = 4096" "b + 4096 \<le> capacity c" using Cons.prems(2) w by simp_all
  have "4096 dvd b" using x(1) by (simp add: dvd_eq_mod_eq_0)
  then obtain q where "b = 4096 * q" by (elim dvdE)
  then have span: "pages_spanned b 4096 = 1" by (simp add: pages_spanned_def)
  have h: "4096 \<le> length xs" "pages_spanned b 4096 + gc_low_watermark (meta c) \<le> free_count (meta c)"
    "wear_slack (pages_spanned b 4096 + length ws) (half_select_disturb_threshold (physics_cfg c)) (meta c)"
    using x(2) Cons.prems(3,4) by (simp_all add: span)
  obtain c1 where c1: "Write c b (Some xs) 4096 = Some (True, c1)" "ctrl_ok c1" "capacity c1 = capacity c"
    "free_count (meta c) = free_count (meta c1) + 1"
    "\<forall>a < capacity c. byte_at c1 a = (if b \<le> a \<and> a < b + 4096 then xs ! (a - b) else byte_at c a)"
    using Write_bytes [OF Cons.prems(1) h(1) x(3) h(2)] unfolding span by blast
  have wear: "wear_slack (length ws) (half_select_disturb_threshold (physics_cfg c1)) (meta c1)"
    "gc_low_watermark (meta c1) = gc_low_watermark (meta c)"
    using Write_wear [OF Cons.prems(1) h(1) x(3) h(2,3) c1(1)] by simp_all
  have "\<forall>(b, xs) \<in> set ws. b mod 4096 = 0 \<and> length xs = 4096 \<and> b + 4096 \<le> capacity c1"
    "length ws + gc_low_watermark (meta c1) \<le> free_count (meta c1)"
    using Cons.prems(2,3) c1(3,4) wear(2) by simp_all
  from Cons.IH [OF c1(2) this wear(1)] obtain c' where c': "write_all ftl_write ws c1 = Some c'" "ctrl_ok c'"
    "capacity c' = capacity c1" "healthy c'" "free_count (meta c1) = free_count (meta c') + length ws"
    "\<forall>a < capacity c1. byte_at c' a = after_pages ws (byte_at c1) a" by blast
  have "byte_at c' a = after_pages (w # ws) (byte_at c) a" if "a < capacity c" for a
    using c'(6) that c1(3) after_pages_cong [OF c1(5) that, of ws] by (simp add: w)
  moreover have "write_all ftl_write (w # ws) c = Some c'" using c1(1) c'(1) by (simp add: w ftl_write_def PAGE_SZ_def)
  ultimately show ?case using c'(2-5) c1(3,4) by auto
qed

text \<open>C22: a flush puts the staged pages on the drive. On a drive whose reserve of free pages covers the pages to
  flush, with wear to spare and with every staged page inside the capacity, the flush takes the first
  \<open>max_pages\<close> staged pages in slot order, or all when there are no more; each of them is then on the drive, byte for
  byte, and a read of its address returns it; every other byte of the drive is what it was; the staging table holds
  exactly the pages that were not taken, so none when \<open>max_pages\<close> covers them; each page costs one free page.\<close>

theorem flush_drains:
  assumes "coalescer_ok bc" "ctrl_ok c" "\<forall>(b, xs) \<in> set (dirty_pages bc). b + 4096 \<le> capacity c"
    and "n = min max_pages (GetPendingPages bc)"
    and "n + gc_low_watermark (meta c) \<le> free_count (meta c)"
    and "wear_slack n (half_select_disturb_threshold (physics_cfg c)) (meta c)"
    and "length buf = 4096"
  shows "\<exists>bc' c'. FlushToFTL ftl_write max_pages (bc, c) = Some (n, bc', c') \<and> coalescer_ok bc' \<and> ctrl_ok c' \<and>
    dirty_pages bc' = drop n (dirty_pages bc) \<and> GetQueueDepth bc' = GetPendingPages bc - n \<and>
    free_count (meta c) = free_count (meta c') + n \<and>
    (\<forall>(b, xs) \<in> set (take n (dirty_pages bc)).
       contents c' b 4096 = xs \<and> (\<exists>c''. Read c' b (Some buf) 4096 = Some (True, Some xs, c''))) \<and>
    (\<forall>a < capacity c. (\<forall>(b, xs) \<in> set (take n (dirty_pages bc)). a < b \<or> b + 4096 \<le> a) \<longrightarrow> byte_at c' a = byte_at c a)"
proof -
  let ?ws = "take n (dirty_pages bc)"
  have k: "length (dirty_pages bc) = GetPendingPages bc" by (simp add: dirty_pages_def GetPendingPages_def)
  then have ws: "take max_pages (dirty_pages bc) = ?ws" "drop max_pages (dirty_pages bc) = drop n (dirty_pages bc)" "length ?ws = n"
    using assms(4) by (simp_all add: min_def)
  note shape = dirty_pages_shape [OF assms(1)]
  have pages: "\<forall>(b, xs) \<in> set ?ws. b mod 4096 = 0 \<and> length xs = 4096 \<and> b + 4096 \<le> capacity c"
    using shape(1) assms(3) by (fastforce dest: in_set_takeD)
  have dist: "distinct (map fst ?ws)" using shape(2) by (simp add: take_map [symmetric])
  obtain c' where w: "write_all ftl_write ?ws c = Some c'" "ctrl_ok c'" "capacity c' = capacity c" "healthy c'"
    "free_count (meta c) = free_count (meta c') + n" "\<forall>a < capacity c. byte_at c' a = after_pages ?ws (byte_at c) a"
    using write_all_bytes [OF assms(2) pages] assms(5,6) unfolding ws(3) by blast
  have "map_option (\<lambda>(n, bc', d'). (n, d')) (FlushToFTL ftl_write max_pages (bc, c)) = Some (n, c')"
    using flush_writes [OF assms(1), of ftl_write max_pages c] w(1) assms(4) unfolding ws by simp
  then obtain bc' where f: "FlushToFTL ftl_write max_pages (bc, c) = Some (n, bc', c')" by auto
  have ok: "coalescer_ok bc'" using ftl.flush_total [OF assms(1) ctrl_ok_safe [OF assms(2)], of max_pages] f by auto
  have left: "dirty_pages bc' = drop n (dirty_pages bc)" using flush_leaves [OF assms(1) f] ws(2) by simp
  then have "GetPendingPages bc' = GetPendingPages bc - n"
    using k by (metis GetPendingPages_def dirty_pages_def length_drop length_map)
  then have "GetQueueDepth bc' = GetPendingPages bc - n" using coalescer_queue_depth [OF ok] by simp
  moreover have "contents c' b 4096 = xs \<and> (\<exists>c''. Read c' b (Some buf) 4096 = Some (True, Some xs, c''))"
    if "(b, xs) \<in> set ?ws" for b xs
  proof -
    have fit: "b + 4096 \<le> capacity c" "length xs = 4096" using pages that by auto
    have "contents c' b 4096 = xs"
    proof (rule nth_equalityI)
      fix i assume "i < length (contents c' b 4096)"
      then have "i < 4096" by (simp add: contents_def)
      then have "byte_at c' (b + i) = xs ! i"
        using w(6) fit after_pages_inside [OF dist _ that, of "b + i"] pages by fastforce
      then show "contents c' b 4096 ! i = xs ! i" using \<open>i < 4096\<close> by (simp add: contents_def)
    qed (simp add: contents_def fit(2))
    then show ?thesis using Read_contents [OF w(2,4), of 4096 buf b] assms(7) fit(1) w(3) by auto
  qed
  moreover have "byte_at c' a = byte_at c a"
    if "a < capacity c" "\<forall>(b, xs) \<in> set ?ws. a < b \<or> b + 4096 \<le> a" for a
    using w(6) that after_pages_outside [of ?ws a "byte_at c"] by fastforce
  ultimately show ?thesis using f ok w(2,5) left by blast
qed

definition staged_demo :: coalescer where
  "staged_demo = \<lparr>staging = [clean_page, \<lparr>pg_data = replicate 4096 7, bytes_committed = 4096, dirty = True, base_lba = 5 * 4096\<rparr>,
       \<lparr>pg_data = replicate 4096 9, bytes_committed = 4096, dirty = True, base_lba = 2 * 4096\<rparr>, clean_page],
     depth = 4, host_bytes = 8192, flash_bytes = 0, gc_calls = 0, blocks_erased = 0, pages_prog = 0, queue_depth = 2\<rparr>"

lemma staged_demo_ok:
  "coalescer_ok staged_demo" "GetPendingPages staged_demo = 2"
  "dirty_pages staged_demo = [(5 * 4096, replicate 4096 7), (2 * 4096, replicate 4096 9)]"
proof -
  show p: "GetPendingPages staged_demo = 2" "dirty_pages staged_demo = [(5 * 4096, replicate 4096 7), (2 * 4096, replicate 4096 9)]"
    by (simp_all add: staged_demo_def GetPendingPages_def dirty_pages_def clean_page_def)
  have "page_ok 4 i (staging staged_demo ! i)" if "i < 4" for i
  proof -
    have "i = 0 \<or> i = 1 \<or> i = 2 \<or> i = 3" using that by linarith
    then show ?thesis using page_ok_clean by (elim disjE; simp add: staged_demo_def) (simp_all add: page_ok_def)
  qed
  then show "coalescer_ok staged_demo" using p(1) by (simp add: coalescer_ok_def) (simp add: staged_demo_def)
qed

theorem flush_drains_witness:
  "\<exists>bc' c' c''. FlushToFTL ftl_write 8 (staged_demo, drive_1MiB) = Some (2, bc', c') \<and> dirty_pages bc' = [] \<and>
     contents c' (5 * 4096) 4096 = replicate 4096 7 \<and> contents c' (2 * 4096) 4096 = replicate 4096 9 \<and>
     Read c' (2 * 4096) (Some (replicate 4096 0)) 4096 = Some (True, Some (replicate 4096 9), c'')"
proof -
  have h: "coalescer_ok staged_demo" "ctrl_ok drive_1MiB"
    "\<forall>(b, xs) \<in> set (dirty_pages staged_demo). b + 4096 \<le> capacity drive_1MiB"
    "2 = min 8 (GetPendingPages staged_demo)" "2 + gc_low_watermark (meta drive_1MiB) \<le> free_count (meta drive_1MiB)"
    "wear_slack 2 (half_select_disturb_threshold (physics_cfg drive_1MiB)) (meta drive_1MiB)" "length (replicate 4096 (0 :: u8)) = 4096"
    using drive_1MiB_ok drive_1MiB_slack by (simp_all add: staged_demo_ok drive_1MiB_facts)
  have t: "take 2 (dirty_pages staged_demo) = [(5 * 4096, replicate 4096 7), (2 * 4096, replicate 4096 9)]"
    "drop 2 (dirty_pages staged_demo) = []" by (simp_all add: staged_demo_ok)
  show ?thesis using flush_drains [OF h] unfolding t by fastforce
qed

text \<open>C38: a small write pushed to an empty coalescer and flushed does not only change the bytes it was given:
  the rest of its page is overwritten with zeros, because the staging page starts zeroed and is always
  written whole.\<close>

theorem flush_zeroes_page_rest:
  assumes "coalescer_ok bc" "GetPendingPages bc = 0" "ctrl_ok c" "0 < sz" "sz \<le> length buf"
    and "off + sz \<le> 4096" "lp * 4096 + 4096 \<le> capacity c" "1 + gc_low_watermark (meta c) \<le> free_count (meta c)"
    and "0 < max_pages"
  shows "\<exists>bc1 bc2 c'. PushWrite (lp * 4096 + off) (Some buf) sz bc = Some (True, bc1) \<and>
    FlushToFTL ftl_write max_pages (bc1, c) = Some (1, bc2, c') \<and>
    (\<forall>a < capacity c. byte_at c' a =
       (if lp * 4096 + off \<le> a \<and> a < lp * 4096 + off + sz then buf ! (a - (lp * 4096 + off))
        else if lp * 4096 \<le> a \<and> a < lp * 4096 + 4096 then 0 else byte_at c a))"
proof -
  let ?lba = "lp * 4096 + off"
  define data where "data = replicate off 0 @ take sz buf @ replicate (4096 - (off + sz)) (0 :: u8)"
  obtain bc1 pg where p: "PushWrite ?lba (Some buf) sz bc = Some (True, bc1)" "coalescer_ok bc1"
    "filter dirty (staging bc1) = [pg]" "base_lba pg = lp * 4096" "pg_data pg = data"
    using PushWrite_first [OF assms(1,2,4,6,5), of lp] unfolding data_def by blast
  have ld: "length data = 4096" using assms(5,6) by (simp add: data_def)
  have dp: "take max_pages (dirty_pages bc1) = [(lp * 4096, data)]" "GetPendingPages bc1 = 1"
    using assms(9) by (simp_all add: dirty_pages_def GetPendingPages_def p(3-5))
  have span: "pages_spanned (lp * 4096) 4096 = 1" by (simp add: pages_spanned_def)
  obtain c' where w: "Write c (lp * 4096) (Some data) 4096 = Some (True, c')"
    "\<forall>a < capacity c. byte_at c' a = (if lp * 4096 \<le> a \<and> a < lp * 4096 + 4096 then data ! (a - lp * 4096) else byte_at c a)"
    using Write_bytes [OF assms(3), of 4096 data "lp * 4096"] ld assms(7,8) unfolding span by auto
  have "map_option (\<lambda>(n, bc', d'). (n, d')) (FlushToFTL ftl_write max_pages (bc1, c)) = Some (1, c')"
    using flush_writes [OF p(2), of ftl_write max_pages c] w(1) assms(9) unfolding dp
    by (simp add: ftl_write_def PAGE_SZ_def)
  then obtain bc2 where f: "FlushToFTL ftl_write max_pages (bc1, c) = Some (1, bc2, c')" by auto
  have nth: "data ! k = (if off \<le> k \<and> k < off + sz then buf ! (k - off) else 0)" if "k < 4096" for k
    using that assms(5,6) by (auto simp: data_def nth_append)
  have "byte_at c' a = (if ?lba \<le> a \<and> a < ?lba + sz then buf ! (a - ?lba)
      else if lp * 4096 \<le> a \<and> a < lp * 4096 + 4096 then 0 else byte_at c a)" if "a < capacity c" for a
  proof (cases "lp * 4096 \<le> a \<and> a < lp * 4096 + 4096")
    case True
    then obtain k where k: "a = lp * 4096 + k" "k < 4096" by (metis add_less_cancel_left le_Suc_ex)
    then show ?thesis using w(2) that nth [of k] assms(6) by auto
  next
    case False
    then show ?thesis using w(2) that assms(6) by auto
  qed
  then show ?thesis using p(1) f by blast
qed

theorem flush_zeroes_page_rest_witness:
  "\<exists>bc1 bc2 c'. PushWrite (2 * 4096 + 8) (Some [1, 2]) 2 (BurstCoalescer 4) = Some (True, bc1) \<and>
     FlushToFTL ftl_write 8 (bc1, drive_1MiB) = Some (1, bc2, c') \<and>
     byte_at c' 8200 = 1 \<and> byte_at c' 8201 = 2 \<and> byte_at c' 8202 = 0"
proof -
  have "GetPendingPages (BurstCoalescer 4) = 0"
    by (simp add: GetPendingPages_def BurstCoalescer_def clean_page_def)
  then have h: "coalescer_ok (BurstCoalescer 4)" "GetPendingPages (BurstCoalescer 4) = 0" "ctrl_ok drive_1MiB"
    "0 < (2::nat)" "2 \<le> length [1, 2 :: u8]" "8 + 2 \<le> (4096::nat)" "2 * 4096 + 4096 \<le> capacity drive_1MiB"
    "1 + gc_low_watermark (meta drive_1MiB) \<le> free_count (meta drive_1MiB)" "0 < (8::nat)"
    using drive_1MiB_ok by (simp_all add: coalescer_ok_init drive_1MiB_facts)
  obtain bc1 bc2 c' where w: "PushWrite (2 * 4096 + 8) (Some [1, 2]) 2 (BurstCoalescer 4) = Some (True, bc1)"
    "FlushToFTL ftl_write 8 (bc1, drive_1MiB) = Some (1, bc2, c')"
    "\<forall>a < capacity drive_1MiB. byte_at c' a = (if 2 * 4096 + 8 \<le> a \<and> a < 2 * 4096 + 8 + 2 then [1, 2] ! (a - (2 * 4096 + 8))
        else if 2 * 4096 \<le> a \<and> a < 2 * 4096 + 4096 then 0 else byte_at drive_1MiB a)"
    using flush_zeroes_page_rest [OF h] by blast
  have "byte_at c' 8200 = 1" "byte_at c' 8201 = 2" "byte_at c' 8202 = 0"
    using w(3) by (simp_all add: drive_1MiB_facts)
  then show ?thesis using w(1,2) by blast
qed

end
