(* ===== verification/Memfs_Names.thy ===== *)
theory Memfs_Names
  imports Prelude "HOL-Library.List_Lexorder" "HOL-Library.Product_Lexorder"
begin

text \<open>
  File names of the virtual disk (\<open>src/win_vdisk.cpp\<close>): the upper-case table, the component
  comparison and \<open>MemfsFileNameCompare\<close>, the order of the file table. A wide string is the list of its
  16-bit characters without the terminating NUL.

  \<open>CompareStringW\<close> and \<open>_wcsnicmp\<close>, on which the comparison falls back for characters above 127, are
  Windows functions: they are fields of the record \<open>locale_fns\<close>, an argument.

  \<open>name_key\<close> is the specification: the comparison is the lexicographic order of the keys. This makes
  it a strict weak order, which \<open>std::map\<close> demands and the code nowhere argues.
\<close>

section \<open>The code\<close>

type_synonym wchar = u16
type_synonym wstr = "wchar list"

record locale_fns =
  CompareStringW :: "wstr \<Rightarrow> wstr \<Rightarrow> int"
  wcsnicmp :: "wstr \<Rightarrow> wstr \<Rightarrow> nat \<Rightarrow> int"

abbreviation COLON :: wchar where "COLON \<equiv> 0x3A"
abbreviation BSLASH :: wchar where "BSLASH \<equiv> 0x5C"

definition MemfsUpperChar :: "u32 \<Rightarrow> u32" where
  "MemfsUpperChar c =
     (let s = ((c - 0x61) XOR (c - (0x7A + 1))) AND 0x100 in c AND NOT (drop_bit 3 s))"

text \<open>The character under a pointer; at the end of the string it is the NUL.\<close>

fun char_at :: "wstr \<Rightarrow> wchar" where
  "char_at [] = 0"
| "char_at (c # cs) = c"

fun wcsnicmp_loop :: "locale_fns \<Rightarrow> wstr \<Rightarrow> wstr \<Rightarrow> nat \<Rightarrow> wstr \<Rightarrow> wstr \<Rightarrow> nat \<Rightarrow> int \<Rightarrow> int" where
  "wcsnicmp_loop os s0 t0 n s t 0 v = v"
| "wcsnicmp_loop os s0 t0 n s t (Suc k) v =
     (let sc = ucast (char_at s) :: u32; tc = ucast (char_at t) :: u32 in
      if 0xffffff80 AND (sc OR tc) \<noteq> 0
      then (let v' = CompareStringW os (take n s0) (take n t0) in
            if v' \<noteq> 0 then v' - 2 else wcsnicmp os s t n)
      else (let v' = sint (MemfsUpperChar sc - MemfsUpperChar tc) in
            if v' \<noteq> 0 \<or> tc = 0 then v' else wcsnicmp_loop os s0 t0 n (tl s) (tl t) k v'))"

definition MemfsWcsnicmp :: "locale_fns \<Rightarrow> wstr \<Rightarrow> wstr \<Rightarrow> nat \<Rightarrow> int" where
  "MemfsWcsnicmp os s0 t0 n = wcsnicmp_loop os s0 t0 n s0 t0 n 0"

text \<open>\<open>wcsncmp\<close> of the C library: only the sign of its result is specified, and used.\<close>

fun wcsncmp :: "wstr \<Rightarrow> wstr \<Rightarrow> nat \<Rightarrow> int" where
  "wcsncmp s t 0 = 0"
| "wcsncmp s t (Suc k) =
     (if char_at s \<noteq> char_at t then uint (char_at s) - uint (char_at t)
      else if char_at s = 0 then 0 else wcsncmp (tl s) (tl t) k)"

definition is_sep :: "wchar \<Rightarrow> bool" where
  "is_sep c \<longleftrightarrow> c = COLON \<or> c = BSLASH"

text \<open>Skipping separators: the last one skipped (0 if none) and the rest of the string.\<close>

fun skip_seps :: "wchar \<Rightarrow> wstr \<Rightarrow> wchar \<times> wstr" where
  "skip_seps c [] = (c, [])"
| "skip_seps c (x # xs) = (if is_sep x then skip_seps x xs else (c, x # xs))"

definition sep_class :: "wchar \<Rightarrow> int" where
  "sep_class c = (if c = COLON then 1 else if c = BSLASH then 2 else uint c)"

lemma skip_seps_shorter:
  "length (snd (skip_seps c p)) \<le> length p"
  by (induction p arbitrary: c) (auto intro: le_SucI)

lemma skip_seps_progress:
  assumes "p \<noteq> []"
  shows "length (dropWhile (\<lambda>x. \<not> is_sep x) (snd (skip_seps c p))) < length p"
proof (cases p)
  case Nil
  then show ?thesis using assms by simp
next
  case (Cons x xs)
  have le: "length (dropWhile f ys) \<le> length ys" for f and ys :: wstr by (induction ys) auto
  show ?thesis
  proof (cases "is_sep x")
    case True
    have "length (dropWhile (\<lambda>x. \<not> is_sep x) (snd (skip_seps x xs))) \<le> length (snd (skip_seps x xs))" by (rule le)
    also have "\<dots> \<le> length xs" by (rule skip_seps_shorter)
    finally show ?thesis using Cons True by simp
  next
    case False
    then show ?thesis using Cons le [of "\<lambda>x. \<not> is_sep x" xs] by simp
  qed
qed

function compare_loop :: "locale_fns \<Rightarrow> bool \<Rightarrow> wstr \<Rightarrow> wstr \<Rightarrow> int" where
  "compare_loop os CaseInsensitive p q =
     (if p = [] \<or> q = [] then - (if p = [] then 1 else 0) + (if q = [] then 1 else 0)
      else (let (c, p1) = skip_seps 0 p; (d, q1) = skip_seps 0 q;
                res = sep_class c - sep_class d in
            if res \<noteq> 0 then res
            else (let p2 = dropWhile (\<lambda>x. \<not> is_sep x) p1; q2 = dropWhile (\<lambda>x. \<not> is_sep x) q1;
                      plen = length p1 - length p2; qlen = length q1 - length q2;
                      len = min plen qlen;
                      res = (if CaseInsensitive then MemfsWcsnicmp os p1 q1 len else wcsncmp p1 q1 len);
                      res = (if res = 0 then int plen - int qlen else res) in
                  if res \<noteq> 0 then res else compare_loop os CaseInsensitive p2 q2)))"
  by auto

termination compare_loop
proof (relation "measure (\<lambda>(os, ci, p, q). length p)", goal_cases)
  case (2 os ci p q x c p1 y d q1 r p2 q2)
  have "length (dropWhile (\<lambda>x. \<not> is_sep x) (snd (skip_seps 0 p))) < length p"
    using 2(1) by (intro skip_seps_progress) simp
  moreover have "p1 = snd (skip_seps 0 p)" using 2(2,3) by (metis snd_conv)
  ultimately show ?case using 2(8) by simp
qed simp

text \<open>\<open>MemfsFileNameCompare\<close>; a length of -1 stands for the whole string.\<close>

definition counted :: "wstr \<Rightarrow> int \<Rightarrow> wstr" where
  "counted a alen = (if alen = - 1 then a else take (nat alen) a)"

definition MemfsFileNameCompare :: "locale_fns \<Rightarrow> wstr \<Rightarrow> int \<Rightarrow> wstr \<Rightarrow> int \<Rightarrow> bool \<Rightarrow> int" where
  "MemfsFileNameCompare os a alen b blen CaseInsensitive =
     compare_loop os CaseInsensitive (counted a alen) (counted b blen)"

definition MemfsFileNameHasPrefix :: "locale_fns \<Rightarrow> wstr \<Rightarrow> wstr \<Rightarrow> bool \<Rightarrow> bool" where
  "MemfsFileNameHasPrefix os a b CaseInsensitive \<longleftrightarrow>
     length a \<ge> length b \<and> MemfsFileNameCompare os a (int (length b)) b (int (length b)) CaseInsensitive = 0 \<and>
     (length a = length b \<or> b = [BSLASH] \<or> char_at (drop (length b) a) = BSLASH)"

definition file_node_less :: "locale_fns \<Rightarrow> bool \<Rightarrow> wstr \<Rightarrow> wstr \<Rightarrow> bool" where
  "file_node_less os CaseInsensitive a b \<longleftrightarrow> 0 > MemfsFileNameCompare os a (-1) b (-1) CaseInsensitive"

declare compare_loop.simps [simp del]

section \<open>The specification\<close>

text \<open>A name is a list of components, each with the class of the separators before it.\<close>

definition fold_char :: "bool \<Rightarrow> wchar \<Rightarrow> wchar" where
  "fold_char ci c = (if ci then ucast (MemfsUpperChar (ucast c)) else c)"

function name_key :: "bool \<Rightarrow> wstr \<Rightarrow> (int \<times> wstr) list" where
  "name_key ci p =
     (if p = [] then []
      else (let (c, p1) = skip_seps 0 p in
            (sep_class c, map (fold_char ci) (takeWhile (\<lambda>x. \<not> is_sep x) p1)) #
            name_key ci (dropWhile (\<lambda>x. \<not> is_sep x) p1)))"
  by auto

termination name_key
proof (relation "measure (\<lambda>(ci, p). length p)", goal_cases)
  case (2 ci p x c p1)
  have "length (dropWhile (\<lambda>x. \<not> is_sep x) (snd (skip_seps 0 p))) < length p"
    using 2(1) by (rule skip_seps_progress)
  moreover have "p1 = snd (skip_seps 0 p)" using 2(2,3) by (metis snd_conv)
  ultimately show ?case by simp
qed simp

declare name_key.simps [simp del]

lemma name_key_Nil [simp]: "name_key ci [] = []"
  by (simp add: name_key.simps)

lemma name_key_eq_Nil [simp]: "name_key ci p = [] \<longleftrightarrow> p = []"
  by (subst name_key.simps) (simp add: case_prod_beta Let_def)

lemma Nil_eq_name_key [simp]: "[] = name_key ci p \<longleftrightarrow> p = []"
  using name_key_eq_Nil [of ci p] by metis

text \<open>Names without NUL characters; with case folding, only ASCII ones, so that the fallback to the Windows
  functions is not taken.\<close>

definition name_ok :: "bool \<Rightarrow> wstr \<Rightarrow> bool" where
  "name_ok ci p \<longleftrightarrow> (\<forall>c \<in> set p. c \<noteq> 0 \<and> (ci \<longrightarrow> c < 0x80))"

lemma name_ok_Nil [simp]: "name_ok ci []"
  by (simp add: name_ok_def)

lemma name_ok_Cons [simp]: "name_ok ci (c # cs) \<longleftrightarrow> c \<noteq> 0 \<and> (ci \<longrightarrow> c < 0x80) \<and> name_ok ci cs"
  by (auto simp: name_ok_def)

lemma name_ok_append [simp]: "name_ok ci (p @ q) \<longleftrightarrow> name_ok ci p \<and> name_ok ci q"
  by (auto simp: name_ok_def)

lemma name_ok_take: "name_ok ci p \<Longrightarrow> name_ok ci (take n p)"
  by (auto simp: name_ok_def dest: in_set_takeD)

lemma name_ok_skip: "name_ok ci p \<Longrightarrow> name_ok ci (snd (skip_seps c p))"
  by (induction p arbitrary: c) auto

section \<open>Upper case\<close>

lemma upper_table:
  "list_all (\<lambda>n. MemfsUpperChar (word_of_nat n) = (if 0x61 \<le> n \<and> n \<le> 0x7A then word_of_nat (n - 0x20) else word_of_nat n)) [0..<128]"
  by code_simp

text \<open>On ASCII characters the bit trick maps exactly the letters a to z, to A to Z.\<close>

lemma MemfsUpperChar_ascii:
  assumes "unat c < 128"
  shows "MemfsUpperChar c = (if 0x61 \<le> unat c \<and> unat c \<le> 0x7A then c - 0x20 else c)"
proof -
  have "MemfsUpperChar (word_of_nat (unat c)) = (if 0x61 \<le> unat c \<and> unat c \<le> 0x7A then word_of_nat (unat c - 0x20) else word_of_nat (unat c))"
    using upper_table [unfolded list_all_iff set_upt, THEN bspec, of "unat c"] assms by simp
  moreover have "word_of_nat (unat c - 0x20) = c - 0x20" if "0x61 \<le> unat c"
    using that by (simp add: of_nat_diff)
  ultimately show ?thesis by simp
qed

lemma fold_char_ascii:
  assumes "c < 0x80"
  shows "MemfsUpperChar (ucast c) = ucast (fold_char True c)" "fold_char True c < 0x80" "c \<noteq> 0 \<Longrightarrow> fold_char True c \<noteq> 0"
proof -
  have c: "unat c < 128" using assms by (simp add: word_less_nat_alt)
  then have u: "unat (ucast c :: u32) = unat c" by (simp add: unsigned_ucast_eq take_bit_nat_eq_self)
  let ?u = "MemfsUpperChar (ucast c)"
  have up: "unat ?u = (if 0x61 \<le> unat c \<and> unat c \<le> 0x7A then unat c - 0x20 else unat c)"
    using MemfsUpperChar_ascii [of "ucast c"] c u by (auto simp: unat_sub_if')
  then have small: "unat ?u < 128" using c by auto
  have f: "unat (fold_char True c) = unat ?u"
    using small by (simp add: fold_char_def unsigned_ucast_eq take_bit_nat_eq_self)
  show "?u = ucast (fold_char True c)"
    using small f by (simp add: word_unat_eq_iff unsigned_ucast_eq take_bit_nat_eq_self)
  show "fold_char True c < 0x80" using small f by (simp add: word_less_nat_alt)
  show "fold_char True c \<noteq> 0" if "c \<noteq> 0"
  proof -
    have "0 < unat c" using that by (simp add: unat_gt_0)
    then have "0 < unat (fold_char True c)" using f up by auto
    then show ?thesis by (simp add: unat_gt_0)
  qed
qed

section \<open>The comparison is the order of the keys\<close>

text \<open>A component comparison followed by the comparison of the lengths is the lexicographic order.\<close>

definition part_result :: "int \<Rightarrow> wstr \<Rightarrow> wstr \<Rightarrow> int" where
  "part_result r P Q = (if r = 0 then int (length P) - int (length Q) else r)"

lemma part_result_simps [simp]:
  "part_result r (x # P) (y # Q) = part_result r P Q"
  "r \<noteq> 0 \<Longrightarrow> part_result r P Q = r"
  "part_result 0 P [] = int (length P)" "part_result 0 [] Q = - int (length Q)"
  by (simp_all add: part_result_def)

lemma wcsncmp_lex:
  assumes "name_ok ci P" "name_ok ci Q"
  shows "(part_result (wcsncmp (P @ s) (Q @ t) (min (length P) (length Q))) P Q < 0 \<longleftrightarrow> P < Q) \<and>
    (part_result (wcsncmp (P @ s) (Q @ t) (min (length P) (length Q))) P Q = 0 \<longleftrightarrow> P = Q)"
  using assms
proof (induction P arbitrary: Q)
  case Nil
  then show ?case by (cases Q) simp_all
next
  case (Cons x P)
  show ?case
  proof (cases Q)
    case Nil
    then show ?thesis by simp
  next
    case (Cons y Q')
    note IH = Cons.IH [of Q']
    show ?thesis
    proof (cases "x = y")
      case True
      then show ?thesis using Cons Cons.prems IH by simp
    next
      case False
      then have "uint x \<noteq> uint y" by (simp add: word_uint_eq_iff)
      then show ?thesis using False Cons by (simp add: word_less_def)
    qed
  qed
qed

lemma ascii_test:
  assumes "sc < (0x80 :: u32)" "tc < 0x80"
  shows "0xffffff80 AND (sc OR tc) = 0"
proof (rule bit_word_eqI)
  fix n assume n: "n < LENGTH(32)"
  have small: "\<not> bit w n" if "w < (0x80 :: u32)" "7 \<le> n" for w
  proof -
    have "unat w < 2 ^ 7" using that(1) by (simp add: word_less_nat_alt)
    also have "(2 :: nat) ^ 7 \<le> 2 ^ n" using that(2) by (intro power_increasing) simp_all
    finally have "\<not> bit (unat w) n" by (simp add: bit_iff_odd)
    then show ?thesis by (simp add: bit_unsigned_iff)
  qed
  have mask: "(0xffffff80 :: u32) = NOT (mask 7)" by (simp add: mask_eq_exp_minus_1)
  show "bit (0xffffff80 AND (sc OR tc)) n = bit (0 :: u32) n"
    using small [OF assms(1)] small [OF assms(2)] n unfolding mask
    by (auto simp: bit_and_iff bit_or_iff bit_not_iff bit_mask_iff)
qed

lemma ucast_0_eq_iff_u16: "(ucast (y :: u16) :: u32) = 0 \<longleftrightarrow> y = 0"
proof -
  have "unat y < 2 ^ LENGTH(16)" by (rule unsigned_less)
  then have "unat y < 2 ^ 32" by simp
  then have "unat (ucast y :: u32) = unat y" by (simp add: unsigned_ucast_eq take_bit_nat_eq_self)
  then show ?thesis by (metis unat_eq_zero)
qed

lemma sint_diff_small:
  assumes "(a :: u16) < 0x80" "(b :: u16) < 0x80"
  shows "sint (ucast a - ucast b :: u32) = uint a - uint b"
proof -
  have u: "uint a < 128" "uint b < 128" using assms by (simp_all add: word_less_def)
  have eq: "(ucast a - ucast b :: u32) = word_of_int (uint a - uint b)"
    by (simp add: word_of_int_uint [symmetric] del: word_of_int_uint)
  have "- 2147483648 \<le> uint a - uint b" "uint a - uint b < 2147483648"
    using u uint_ge_0 [of a] uint_ge_0 [of b] by arith+
  then have "sint (word_of_int (uint a - uint b) :: u32) = uint a - uint b"
    by (simp add: signed_of_int signed_take_bit_int_eq_self del: of_int_diff)
  then show ?thesis by (simp only: eq)
qed

lemma wcsnicmp_lex:
  assumes "name_ok True P" "name_ok True Q"
  shows "(part_result (wcsnicmp_loop os s0 t0 n (P @ s) (Q @ t) (min (length P) (length Q)) 0) P Q < 0 \<longleftrightarrow>
      map (fold_char True) P < map (fold_char True) Q) \<and>
    (part_result (wcsnicmp_loop os s0 t0 n (P @ s) (Q @ t) (min (length P) (length Q)) 0) P Q = 0 \<longleftrightarrow>
      map (fold_char True) P = map (fold_char True) Q)"
  using assms
proof (induction P arbitrary: Q)
  case Nil
  then show ?case by (cases Q) simp_all
next
  case (Cons x P)
  show ?case
  proof (cases Q)
    case Nil
    then show ?thesis by simp
  next
    case (Cons y Q')
    note IH = Cons.IH [of Q']
    have xy: "x < 0x80" "y < 0x80" "x \<noteq> 0" "y \<noteq> 0" "name_ok True P" "name_ok True Q'"
      using Cons.prems Cons by simp_all
    have small: "(ucast w :: u32) < 0x80" if "w < (0x80 :: u16)" for w
      using that by (simp add: word_less_nat_alt unsigned_ucast_eq take_bit_nat_eq_self)
    have test: "0xffffff80 AND (ucast x OR ucast y) = (0 :: u32)"
      using ascii_test [OF small [OF xy(1)] small [OF xy(2)]] .
    define a b where "a = fold_char True x" and "b = fold_char True y"
    have ab: "MemfsUpperChar (ucast x) = ucast a" "MemfsUpperChar (ucast y) = ucast b" "a < 0x80" "b < 0x80"
      using fold_char_ascii xy by (simp_all add: a_def b_def)
    have y0: "(ucast y :: u32) \<noteq> 0" using xy(4) by (metis ucast_0_eq_iff_u16)
    have diff: "sint (ucast a - ucast b :: u32) = uint a - uint b"
      using ab(3,4) by (rule sint_diff_small)
    show ?thesis
    proof (cases "a = b")
      case True
      then show ?thesis using Cons xy IH test ab diff y0 by (simp add: a_def [symmetric] b_def [symmetric])
    next
      case False
      then have "uint a \<noteq> uint b" by (simp add: word_uint_eq_iff)
      then show ?thesis
        using False Cons test ab diff by (simp add: a_def [symmetric] b_def [symmetric] word_less_def)
    qed
  qed
qed

lemma skip_seps_class:
  "fst (skip_seps 0 p) = 0 \<or> is_sep (fst (skip_seps 0 p))"
proof -
  have "c = 0 \<or> is_sep c \<Longrightarrow> fst (skip_seps c p) = 0 \<or> is_sep (fst (skip_seps c p))" for c
    by (induction p arbitrary: c) auto
  then show ?thesis by simp
qed

lemma length_minus_dropWhile: "length p - length (dropWhile f p) = length (takeWhile f p)"
  by (metis add_diff_cancel_right' length_append takeWhile_dropWhile_id)

lemma compare_loop_step:
  assumes "p \<noteq> []" "q \<noteq> []" "skip_seps 0 p = (c, p1)" "skip_seps 0 q = (d, q1)"
    and "P = takeWhile (\<lambda>x. \<not> is_sep x) p1" "Q = takeWhile (\<lambda>x. \<not> is_sep x) q1"
    and "p2 = dropWhile (\<lambda>x. \<not> is_sep x) p1" "q2 = dropWhile (\<lambda>x. \<not> is_sep x) q1"
    and "r = part_result (if ci then MemfsWcsnicmp os p1 q1 (min (length P) (length Q))
           else wcsncmp p1 q1 (min (length P) (length Q))) P Q"
  shows "compare_loop os ci p q =
    (if sep_class c \<noteq> sep_class d then sep_class c - sep_class d else if r \<noteq> 0 then r else compare_loop os ci p2 q2)"
  using assms by (subst compare_loop.simps) (simp add: Let_def length_minus_dropWhile part_result_def)

lemma part_result_key:
  assumes "name_ok ci p1" "name_ok ci q1"
    and P: "P = takeWhile (\<lambda>x. \<not> is_sep x) p1" and Q: "Q = takeWhile (\<lambda>x. \<not> is_sep x) q1"
    and "r = part_result (if ci then MemfsWcsnicmp os p1 q1 (min (length P) (length Q))
           else wcsncmp p1 q1 (min (length P) (length Q))) P Q"
  shows "(r < 0 \<longleftrightarrow> map (fold_char ci) P < map (fold_char ci) Q) \<and> (r = 0 \<longleftrightarrow> map (fold_char ci) P = map (fold_char ci) Q)"
proof -
  obtain s t where split: "p1 = P @ s" "q1 = Q @ t" using P Q by (metis takeWhile_dropWhile_id)
  have ok: "name_ok ci P" "name_ok ci Q" using assms(1,2) unfolding split by simp_all
  show ?thesis
  proof (cases ci)
    case True
    then show ?thesis
      using wcsnicmp_lex [of P Q os "P @ s" "Q @ t" "min (length P) (length Q)" s t] ok assms(5) split
      by (simp add: MemfsWcsnicmp_def)
  next
    case False
    moreover have "fold_char False = id" by (simp add: fold_char_def fun_eq_iff)
    ultimately show ?thesis using wcsncmp_lex [OF ok, of s t] assms(5) split by simp
  qed
qed

lemma name_ok_dropWhile: "name_ok ci p \<Longrightarrow> name_ok ci (dropWhile f p)"
  by (auto simp: name_ok_def dest: set_dropWhileD)

lemma compare_loop_key:
  "name_ok ci p \<Longrightarrow> name_ok ci q \<Longrightarrow>
   (compare_loop os ci p q < 0 \<longleftrightarrow> name_key ci p < name_key ci q) \<and>
   (compare_loop os ci p q = 0 \<longleftrightarrow> name_key ci p = name_key ci q)"
proof (induction "length p" arbitrary: p q rule: less_induct)
  case less
  show ?case
  proof (cases "p = [] \<or> q = []")
    case True
    then show ?thesis
    proof
      assume "p = []"
      then show ?thesis by (cases "q = []") (simp_all add: compare_loop.simps list_le_def [symmetric] less_le)
    next
      assume "q = []"
      then show ?thesis by (cases "p = []") (simp_all add: compare_loop.simps)
    qed
  next
    case False
    define c p1 d q1 where "c = fst (skip_seps 0 p)" and "p1 = snd (skip_seps 0 p)"
      and "d = fst (skip_seps 0 q)" and "q1 = snd (skip_seps 0 q)"
    define P Q where "P = takeWhile (\<lambda>x. \<not> is_sep x) p1" and "Q = takeWhile (\<lambda>x. \<not> is_sep x) q1"
    define p2 q2 where "p2 = dropWhile (\<lambda>x. \<not> is_sep x) p1" and "q2 = dropWhile (\<lambda>x. \<not> is_sep x) q1"
    define r where "r = part_result (if ci then MemfsWcsnicmp os p1 q1 (min (length P) (length Q))
           else wcsncmp p1 q1 (min (length P) (length Q))) P Q"
    have sk: "skip_seps 0 p = (c, p1)" "skip_seps 0 q = (d, q1)" by (simp_all add: c_def p1_def d_def q1_def)
    have ok1: "name_ok ci p1" "name_ok ci q1" using less.prems by (simp_all add: p1_def q1_def name_ok_skip)
    have step: "compare_loop os ci p q =
      (if sep_class c \<noteq> sep_class d then sep_class c - sep_class d else if r \<noteq> 0 then r else compare_loop os ci p2 q2)"
      using False sk by (intro compare_loop_step [OF _ _ sk P_def Q_def p2_def q2_def r_def]) simp_all
    have key: "name_key ci p = (sep_class c, map (fold_char ci) P) # name_key ci p2"
      "name_key ci q = (sep_class d, map (fold_char ci) Q) # name_key ci q2"
      using False sk by (subst name_key.simps, simp add: P_def p2_def Q_def q2_def)+
    have "length p2 < length p" using skip_seps_progress [of p 0] False by (simp add: p2_def p1_def)
    moreover have "name_ok ci p2" "name_ok ci q2" using ok1 by (simp_all add: p2_def q2_def name_ok_dropWhile)
    ultimately have IH: "(compare_loop os ci p2 q2 < 0 \<longleftrightarrow> name_key ci p2 < name_key ci q2) \<and>
      (compare_loop os ci p2 q2 = 0 \<longleftrightarrow> name_key ci p2 = name_key ci q2)" by (rule less.hyps)
    note r = part_result_key [OF ok1 P_def Q_def r_def]
    show ?thesis
      using IH r unfolding step key Cons_less_Cons less_prod_def'
      by (cases "sep_class c = sep_class d"; cases "r = 0") auto
  qed
qed

text \<open>An instance of the Windows functions for the witnesses: the fallback is never taken on ASCII names.\<close>

definition ascii_only :: locale_fns where
  "ascii_only = \<lparr>CompareStringW = \<lambda>s t. 2, wcsnicmp = \<lambda>s t n. 0\<rparr>"

lemma file_name_compare_iff:
  assumes "name_ok ci a" "name_ok ci b"
  shows "(MemfsFileNameCompare os a (-1) b (-1) ci < 0 \<longleftrightarrow> name_key ci a < name_key ci b) \<and>
    (MemfsFileNameCompare os a (-1) b (-1) ci = 0 \<longleftrightarrow> name_key ci a = name_key ci b)"
  using compare_loop_key [OF assms] by (simp add: MemfsFileNameCompare_def counted_def)

text \<open>C29: on names without NULs (ASCII ones when case is folded) \<open>MemfsFileNameCompare\<close> is the lexicographic
  order of the names' components, each compared by its separator class, then by its (folded)
  characters: negative exactly below, zero exactly on equal keys.\<close>

theorem file_name_compare_key:
  assumes "name_ok ci a" "name_ok ci b"
  shows "(MemfsFileNameCompare os a (-1) b (-1) ci < 0 \<longleftrightarrow> name_key ci a < name_key ci b) \<and>
    (MemfsFileNameCompare os a (-1) b (-1) ci = 0 \<longleftrightarrow> name_key ci a = name_key ci b)"
  by (rule file_name_compare_iff [OF assms])

theorem file_name_compare_key_witness:
  "name_ok True [BSLASH, 0x41] \<and> name_ok True [BSLASH, BSLASH, 0x61] \<and>
   MemfsFileNameCompare ascii_only [BSLASH, 0x41] (-1) [BSLASH, BSLASH, 0x61] (-1) True = 0"
proof -
  have h: "name_ok True [BSLASH, 0x41]" "name_ok True [BSLASH, BSLASH, 0x61]" by simp_all
  have "name_key True [BSLASH, 0x41] = name_key True [BSLASH, BSLASH, 0x61]"
    by (simp add: name_key.simps is_sep_def fold_char_def MemfsUpperChar_def)
  then show ?thesis using h file_name_compare_key [OF h, of ascii_only] by simp
qed

lemma file_node_less_key:
  "name_ok ci a \<Longrightarrow> name_ok ci b \<Longrightarrow> file_node_less os ci a b \<longleftrightarrow> name_key ci a < name_key ci b"
  using compare_loop_key [of ci a b os] by (simp add: file_node_less_def MemfsFileNameCompare_def counted_def)

text \<open>the order of the file table is a strict weak order, the precondition of \<open>std::map\<close>: irreflexive,
  transitive, and with a transitive incomparability.\<close>

lemma file_order_strict_weak:
  fixes os :: locale_fns
  assumes "name_ok ci a" "name_ok ci b" "name_ok ci c"
  defines "lt \<equiv> file_node_less os ci"
  shows "\<not> lt a a \<and> (lt a b \<longrightarrow> lt b c \<longrightarrow> lt a c) \<and>
    (\<not> lt a b \<and> \<not> lt b a \<longrightarrow> \<not> lt b c \<and> \<not> lt c b \<longrightarrow> \<not> lt a c \<and> \<not> lt c a)"
  using assms(1-3) unfolding lt_def by (auto simp: file_node_less_key)

end
