(* ===== verification/Memfs_File.thy ===== *)
theory Memfs_File
  imports Memfs_Names
begin

text \<open>
  One file of the virtual disk (\<open>src/win_vdisk.cpp\<close>): the large heap, the file node, and the handlers that
  act on an open node: sizes, reading, writing, overwriting, attributes, security, and the device
  control. A handler takes the node and gives the node back; \<open>None\<close> is undefined behaviour (an access
  outside the file's memory block).

  Not under \<open>src\<close>, and so arguments: the Windows heap (record \<open>win_heap\<close>, with its documented behaviour
  \<open>heap_laws\<close>), the clock, and the drive behind \<open>ftj_disk.bin\<close>, of which the theory Memfs_Disk makes the
  controller of the engine.
\<close>

section \<open>Status codes and the large heap\<close>

datatype ntstatus =
    STATUS_SUCCESS | STATUS_END_OF_FILE | STATUS_DISK_FULL | STATUS_INSUFFICIENT_RESOURCES
| STATUS_INVALID_PARAMETER | STATUS_INVALID_DEVICE_REQUEST | STATUS_BUFFER_OVERFLOW | STATUS_ACCESS_DENIED
| STATUS_DIRECTORY_NOT_EMPTY | STATUS_OBJECT_NAME_INVALID | STATUS_OBJECT_NAME_NOT_FOUND
| STATUS_OBJECT_NAME_COLLISION | STATUS_OBJECT_PATH_NOT_FOUND | STATUS_NOT_A_DIRECTORY | STATUS_CANNOT_MAKE | STATUS_UNSUCCESSFUL
| STATUS_NOT_A_REPARSE_POINT | STATUS_BUFFER_TOO_SMALL | STATUS_PENDING

text \<open>The heap functions of Windows and the alignment macro of WinFsp; \<open>None\<close> is a null pointer.\<close>

record win_heap =
  HeapAlloc :: "nat \<Rightarrow> u8 list option"
  HeapReAlloc :: "u8 list \<Rightarrow> nat \<Rightarrow> u8 list option"
  ALIGN_UP :: "nat \<Rightarrow> nat \<Rightarrow> nat"

definition heap_laws :: "win_heap \<Rightarrow> bool" where
  "heap_laws h \<longleftrightarrow>
     (\<forall>n b. HeapAlloc h n = Some b \<longrightarrow> length b = n) \<and>
     (\<forall>old n b. HeapReAlloc h old n = Some b \<longrightarrow>
        length b = n \<and> take (min (length old) n) b = take (min (length old) n) old) \<and>
     (\<forall>n a. n \<le> ALIGN_UP h n a)"

text \<open>The static state of the large heap: \<open>None\<close> until the first initialisation, then whether \<open>HeapCreate\<close> succeeded in
  it, and the alignment. The one-time initialiser reports success in any case, so it never runs again: a heap that could
  not be created stays missing.\<close>

type_synonym large_heap = "(bool \<times> nat) option"

definition LargeHeapInitOnceF :: "win_heap \<Rightarrow> bool \<Rightarrow> nat \<Rightarrow> bool \<times> nat" where
  "LargeHeapInitOnceF h created Alignment = (created, if Alignment \<noteq> 0 then ALIGN_UP h Alignment 4096 else 16 * 4096)"

definition LargeHeapInitialize :: "win_heap \<Rightarrow> bool \<Rightarrow> nat \<Rightarrow> large_heap \<Rightarrow> bool \<times> large_heap" where
  "LargeHeapInitialize h created Alignment lh =
     (let st = (case lh of None \<Rightarrow> LargeHeapInitOnceF h created Alignment | Some st \<Rightarrow> st) in (fst st, Some st))"

definition LargeHeapAlloc :: "win_heap \<Rightarrow> nat \<Rightarrow> nat \<Rightarrow> u8 list option" where
  "LargeHeapAlloc h alignment n = HeapAlloc h (ALIGN_UP h n alignment)"

definition LargeHeapRealloc :: "win_heap \<Rightarrow> nat \<Rightarrow> u8 list option \<Rightarrow> nat \<Rightarrow> u8 list option" where
  "LargeHeapRealloc h alignment ptr n =
     (case ptr of
        Some old \<Rightarrow> if n \<noteq> 0 then HeapReAlloc h old (ALIGN_UP h n alignment) else None
      | None \<Rightarrow> if n \<noteq> 0 then HeapAlloc h (ALIGN_UP h n alignment) else None)"

section \<open>The file node\<close>

record file_info =
  FileAttributes :: u32
  AllocationSize :: u64
  FileSize :: u64
  CreationTime :: u64
  LastAccessTime :: u64
  LastWriteTime :: u64
  ChangeTime :: u64
  IndexNumber :: u64

record file_node =
  FileName :: wstr
  FileInfo :: file_info
  FileSecuritySize :: nat
  FileSecurity :: "u8 list option"
  FileData :: "u8 list option"
  RefCount :: int

abbreviation FILE_ATTRIBUTE_DIRECTORY :: u32 where "FILE_ATTRIBUTE_DIRECTORY \<equiv> 0x10"
abbreviation FILE_ATTRIBUTE_ARCHIVE :: u32 where "FILE_ATTRIBUTE_ARCHIVE \<equiv> 0x20"
abbreviation FILE_ATTRIBUTE_NORMAL :: u32 where "FILE_ATTRIBUTE_NORMAL \<equiv> 0x80"
abbreviation INVALID_FILE_ATTRIBUTES :: u32 where "INVALID_FILE_ATTRIBUTES \<equiv> 0xFFFFFFFF"

text \<open>The name of the virtual disk file, a backslash followed by \<open>ftj_disk.bin\<close>.\<close>

definition ftj_disk_bin :: wstr where
  "ftj_disk_bin = [0x5C, 0x66, 0x74, 0x6A, 0x5F, 0x64, 0x69, 0x73, 0x6B, 0x2E, 0x62, 0x69, 0x6E]"

text \<open>\<open>MEMFS_SECTOR_SIZE * MEMFS_SECTORS_PER_ALLOCATION_UNIT\<close>\<close>

definition AllocationUnit :: u64 where "AllocationUnit = 512 * 1"

definition MemfsFileNodeGetFileInfo :: "file_node \<Rightarrow> file_info" where
  "MemfsFileNodeGetFileInfo node = FileInfo node"

abbreviation set_info :: "(file_info \<Rightarrow> file_info) \<Rightarrow> file_node \<Rightarrow> file_node" where
  "set_info f node \<equiv> node\<lparr>FileInfo := f (FileInfo node)\<rparr>"

section \<open>Sizes\<close>

definition SetAllocation :: "win_heap \<Rightarrow> nat \<Rightarrow> u32 \<Rightarrow> u64 \<Rightarrow> file_node \<Rightarrow> ntstatus \<times> file_node" where
  "SetAllocation h alignment MaxFileSize NewSize node =
     (if AllocationSize (FileInfo node) \<noteq> NewSize then
        if NewSize > ucast MaxFileSize then (STATUS_DISK_FULL, node)
        else (let data = LargeHeapRealloc h alignment (FileData node) (unat NewSize) in
          if data = None \<and> NewSize \<noteq> 0 then (STATUS_INSUFFICIENT_RESOURCES, node)
          else (STATUS_SUCCESS,
                set_info (\<lambda>i. i\<lparr>AllocationSize := NewSize,
                               FileSize := (if FileSize i > NewSize then NewSize else FileSize i)\<rparr>)
                  (node\<lparr>FileData := data\<rparr>)))
      else (STATUS_SUCCESS, node))"

definition SetFileSizeInternal :: "win_heap \<Rightarrow> nat \<Rightarrow> u32 \<Rightarrow> u64 \<Rightarrow> bool \<Rightarrow> file_node \<Rightarrow> (ntstatus \<times> file_node) option" where
  "SetFileSizeInternal h alignment MaxFileSize NewSize SetAllocationSize node =
     (if SetAllocationSize then Some (SetAllocation h alignment MaxFileSize NewSize node)
      else if FileSize (FileInfo node) = NewSize then Some (STATUS_SUCCESS, node)
      else (let (st, node1) =
              (if AllocationSize (FileInfo node) < NewSize
               then SetAllocation h alignment MaxFileSize ((NewSize + AllocationUnit - 1) div AllocationUnit * AllocationUnit) node
               else (STATUS_SUCCESS, node)) in
            if st \<noteq> STATUS_SUCCESS then Some (st, node1)
            else do {
              data \<leftarrow> (if FileSize (FileInfo node1) < NewSize
                then (case FileData node1 of
                        None \<Rightarrow> None
                      | Some d \<Rightarrow> map_option Some (splice d (unat (FileSize (FileInfo node1)))
                          (replicate (unat (NewSize - FileSize (FileInfo node1))) 0)))
                else Some (FileData node1));
              Some (STATUS_SUCCESS, set_info (\<lambda>i. i\<lparr>FileSize := NewSize\<rparr>) (node1\<lparr>FileData := data\<rparr>))
            }))"

definition SetFileSize :: "win_heap \<Rightarrow> nat \<Rightarrow> u32 \<Rightarrow> u64 \<Rightarrow> bool \<Rightarrow> file_node \<Rightarrow> (ntstatus \<times> file_info option \<times> file_node) option" where
  "SetFileSize h alignment MaxFileSize NewSize SetAllocationSize node = do {
     (st, node1) \<leftarrow> SetFileSizeInternal h alignment MaxFileSize NewSize SetAllocationSize node;
     if st \<noteq> STATUS_SUCCESS then Some (st, None, node1)
     else Some (STATUS_SUCCESS, Some (MemfsFileNodeGetFileInfo node1), node1)
   }"

section \<open>Reading and writing\<close>

text \<open>\<open>min\<close> of \<open>EndOffset\<close> and the file size, as the handlers compute it.\<close>

definition clamped_end :: "u64 \<Rightarrow> u32 \<Rightarrow> u64 \<Rightarrow> u64" where
  "clamped_end Offset Length size_of_file =
     (let EndOffset = Offset + ucast Length in if EndOffset > size_of_file then size_of_file else EndOffset)"

text \<open>\<open>Read\<close>: the status, the caller's buffer, the number of bytes if it was reported, the drive.
  \<open>ctrl\<close> is \<open>g_controller\<close> with its \<open>Read\<close>.\<close>

definition MemfsRead :: "(nat \<Rightarrow> u8 list option \<Rightarrow> nat \<Rightarrow> 'd \<Rightarrow> (bool \<times> u8 list option \<times> 'd) option) \<Rightarrow> file_node \<Rightarrow>
   u8 list \<Rightarrow> u64 \<Rightarrow> u32 \<Rightarrow> 'd option \<Rightarrow> (ntstatus \<times> u8 list \<times> u32 option \<times> 'd option) option" where
  "MemfsRead dev_read node Buffer Offset Length ctrl =
     (if FileName node = ftj_disk_bin then
        if Offset \<ge> FileSize (FileInfo node) then Some (STATUS_END_OF_FILE, Buffer, None, ctrl)
        else (let EndOffset = clamped_end Offset Length (FileSize (FileInfo node));
                  n = ucast (EndOffset - Offset) :: u32 in
              case ctrl of
                None \<Rightarrow> Some (STATUS_INVALID_PARAMETER, Buffer, None, None)
              | Some d \<Rightarrow> do {
                  (ok, buf, d') \<leftarrow> dev_read (unat Offset) (Some Buffer) (unat n) d;
                  let Buffer' = (case buf of Some b \<Rightarrow> b | None \<Rightarrow> Buffer);
                  if ok then Some (STATUS_SUCCESS, Buffer', Some n, Some d')
                  else Some (STATUS_INVALID_PARAMETER, Buffer', None, Some d')
                })
      else if Offset \<ge> FileSize (FileInfo node) then Some (STATUS_END_OF_FILE, Buffer, None, ctrl)
      else (let EndOffset = clamped_end Offset Length (FileSize (FileInfo node)) in do {
        data \<leftarrow> FileData node;
        bytes \<leftarrow> slice data (unat Offset) (unat (EndOffset - Offset));
        Buffer' \<leftarrow> splice Buffer 0 bytes;
        Some (STATUS_SUCCESS, Buffer', Some (ucast (EndOffset - Offset)), ctrl)
      }))"

definition MemfsWrite :: "win_heap \<Rightarrow> nat \<Rightarrow> u32 \<Rightarrow> u64 \<Rightarrow>
   (nat \<Rightarrow> u8 list option \<Rightarrow> nat \<Rightarrow> 'd \<Rightarrow> (bool \<times> 'd) option) \<Rightarrow> file_node \<Rightarrow> u8 list \<Rightarrow> u64 \<Rightarrow> u32 \<Rightarrow> bool \<Rightarrow> bool \<Rightarrow> bool \<Rightarrow>
   'd option \<Rightarrow> (ntstatus \<times> u32 option \<times> file_info option \<times> file_node \<times> 'd option) option" where
  "MemfsWrite h alignment MaxFileSize now dev_write node Buffer Offset0 Length WriteToEndOfFile ConstrainedIo want_info ctrl =
     (let size_of_file = FileSize (FileInfo node) in
      if ConstrainedIo \<and> Offset0 \<ge> size_of_file then Some (STATUS_SUCCESS, None, None, node, ctrl)
      else (let Offset = (if \<not> ConstrainedIo \<and> WriteToEndOfFile then size_of_file else Offset0) in
        if FileName node = ftj_disk_bin then
          (let EndOffset = clamped_end Offset Length size_of_file; n = ucast (EndOffset - Offset) :: u32 in
           case ctrl of
             None \<Rightarrow> Some (STATUS_INVALID_PARAMETER, None, None, node, None)
           | Some d \<Rightarrow> do {
               (ok, d') \<leftarrow> dev_write (unat Offset) (Some Buffer) (unat n) d;
               if ok then
                 (let node' = (if want_info then set_info (\<lambda>i. i\<lparr>LastWriteTime := now, ChangeTime := now\<rparr>) node else node) in
                  Some (STATUS_SUCCESS, Some n, if want_info then Some (FileInfo node') else None, node', Some d'))
               else Some (STATUS_INVALID_PARAMETER, None, None, node, Some d')
             })
        else do {
          (EndOffset, st, node1) \<leftarrow>
            (if ConstrainedIo then Some (clamped_end Offset Length size_of_file, STATUS_SUCCESS, node)
             else (let EndOffset = Offset + ucast Length in
               if EndOffset > size_of_file
               then map_option (\<lambda>(st, node1). (EndOffset, st, node1))
                      (SetFileSizeInternal h alignment MaxFileSize EndOffset False node)
               else Some (EndOffset, STATUS_SUCCESS, node)));
          if st \<noteq> STATUS_SUCCESS then Some (st, None, None, node1, ctrl)
          else do {
            bytes \<leftarrow> slice Buffer 0 (unat (EndOffset - Offset));
            data \<leftarrow> FileData node1;
            data' \<leftarrow> splice data (unat Offset) bytes;
            let node2 = node1\<lparr>FileData := Some data'\<rparr>;
            Some (STATUS_SUCCESS, Some (ucast (EndOffset - Offset)), Some (MemfsFileNodeGetFileInfo node2), node2, ctrl)
          }
        }))"

section \<open>The other handlers of an open file\<close>

definition MemfsOverwrite :: "win_heap \<Rightarrow> nat \<Rightarrow> u32 \<Rightarrow> u64 \<Rightarrow> u32 \<Rightarrow> bool \<Rightarrow> u64 \<Rightarrow> file_node \<Rightarrow>
   (ntstatus \<times> file_info option \<times> file_node) option" where
  "MemfsOverwrite h alignment MaxFileSize now attributes ReplaceFileAttributes NewAllocation node = do {
     (st, node1) \<leftarrow> SetFileSizeInternal h alignment MaxFileSize NewAllocation True node;
     if st \<noteq> STATUS_SUCCESS then Some (st, None, node1)
     else (let node2 = set_info (\<lambda>i. i\<lparr>
               FileAttributes := (if ReplaceFileAttributes then attributes OR FILE_ATTRIBUTE_ARCHIVE
                                  else FileAttributes i OR (attributes OR FILE_ATTRIBUTE_ARCHIVE)),
               FileSize := 0, LastAccessTime := now, LastWriteTime := now, ChangeTime := now\<rparr>) node1 in
           Some (STATUS_SUCCESS, Some (MemfsFileNodeGetFileInfo node2), node2))
   }"

definition MemfsFlush :: "file_node option \<Rightarrow> ntstatus \<times> file_info option" where
  "MemfsFlush node0 = (STATUS_SUCCESS, map_option MemfsFileNodeGetFileInfo node0)"

definition MemfsGetFileInfo :: "file_node \<Rightarrow> ntstatus \<times> file_info" where
  "MemfsGetFileInfo node = (STATUS_SUCCESS, MemfsFileNodeGetFileInfo node)"

definition MemfsSetBasicInfo :: "u32 \<Rightarrow> u64 \<Rightarrow> u64 \<Rightarrow> u64 \<Rightarrow> u64 \<Rightarrow> file_node \<Rightarrow> ntstatus \<times> file_info \<times> file_node" where
  "MemfsSetBasicInfo attributes creation lastAccess lastWrite changed node =
     (let node' = set_info (\<lambda>i. i\<lparr>
        FileAttributes := (if INVALID_FILE_ATTRIBUTES \<noteq> attributes then attributes else FileAttributes i),
        CreationTime := (if creation \<noteq> 0 then creation else CreationTime i),
        LastAccessTime := (if lastAccess \<noteq> 0 then lastAccess else LastAccessTime i),
        LastWriteTime := (if lastWrite \<noteq> 0 then lastWrite else LastWriteTime i),
        ChangeTime := (if changed \<noteq> 0 then changed else ChangeTime i)\<rparr>) node in
      (STATUS_SUCCESS, MemfsFileNodeGetFileInfo node', node'))"

text \<open>\<open>GetSecurity\<close>: the status, the reported size, and what is copied to the caller's buffer if there is one.\<close>

definition MemfsGetSecurity :: "nat \<Rightarrow> bool \<Rightarrow> file_node \<Rightarrow> ntstatus \<times> nat \<times> u8 list option" where
  "MemfsGetSecurity PSize has_buffer node =
     (if FileSecuritySize node > PSize then (STATUS_BUFFER_OVERFLOW, FileSecuritySize node, None)
      else (STATUS_SUCCESS, FileSecuritySize node, if has_buffer then FileSecurity node else None))"

text \<open>\<open>SetSecurity\<close>: \<open>modify\<close> is \<open>FspSetSecurityDescriptor\<close> of WinFsp on the present descriptor, \<open>malloc\<close> tells
  whether the block for the new one is granted.\<close>

definition MemfsSetSecurity :: "(u8 list option \<Rightarrow> ntstatus \<times> u8 list) \<Rightarrow> (nat \<Rightarrow> bool) \<Rightarrow> file_node \<Rightarrow> ntstatus \<times> file_node" where
  "MemfsSetSecurity modify malloc node =
     (let (st, descriptor) = modify (FileSecurity node) in
      if st \<noteq> STATUS_SUCCESS then (st, node)
      else if \<not> malloc (length descriptor) then (STATUS_INSUFFICIENT_RESOURCES, node)
      else (STATUS_SUCCESS, node\<lparr>FileSecuritySize := length descriptor, FileSecurity := Some descriptor\<rparr>))"

text \<open>\<open>Control\<close>: the one supported code is the rotation of letters by 13.\<close>

definition rot13_byte :: "u8 \<Rightarrow> u8" where
  "rot13_byte b =
     (if (0x41 \<le> b \<and> b \<le> 0x4D) \<or> (0x61 \<le> b \<and> b \<le> 0x6D) then b + 13
      else if (0x4E \<le> b \<and> b \<le> 0x5A) \<or> (0x6E \<le> b \<and> b \<le> 0x7A) then b - 13
      else b)"

text \<open>\<open>CTL_CODE(0x8000 + 'M', 'R', METHOD_BUFFERED, FILE_ANY_ACCESS)\<close>, with the Windows macro
  \<open>(DeviceType << 16) | (Access << 14) | (Function << 2) | Method\<close>.\<close>

definition rot13_code :: u32 where
  "rot13_code = push_bit 16 (0x8000 + 0x4D) OR push_bit 14 0 OR push_bit 2 0x52 OR 0"

definition MemfsControl :: "u32 \<Rightarrow> u8 list \<Rightarrow> nat \<Rightarrow> ntstatus \<times> u8 list option" where
  "MemfsControl ControlCode InputBuffer OutputBufferLength =
     (if ControlCode = rot13_code then
        if OutputBufferLength \<noteq> length InputBuffer then (STATUS_INVALID_PARAMETER, None)
        else (STATUS_SUCCESS, Some (map rot13_byte InputBuffer))
      else (STATUS_INVALID_DEVICE_REQUEST, None))"

section \<open>What a file contains\<close>

definition block :: "file_node \<Rightarrow> u8 list" where
  "block node = (case FileData node of None \<Rightarrow> [] | Some d \<Rightarrow> d)"

definition file_contents :: "file_node \<Rightarrow> u8 list" where
  "file_contents node = take (unat (FileSize (FileInfo node))) (block node)"

text \<open>The invariant of a regular file: the size is within the allocation, the allocation within the block.\<close>

definition node_ok :: "file_node \<Rightarrow> bool" where
  "node_ok node \<longleftrightarrow> FileSize (FileInfo node) \<le> AllocationSize (FileInfo node) \<and>
     unat (AllocationSize (FileInfo node)) \<le> length (block node)"

lemma file_size_contents: "node_ok node \<Longrightarrow> length (file_contents node) = unat (FileSize (FileInfo node))"
  by (simp add: node_ok_def file_contents_def word_le_nat_alt)

definition same_file :: "file_node \<Rightarrow> file_node \<Rightarrow> bool" where
  "same_file a b \<longleftrightarrow> FileName a = FileName b \<and> RefCount a = RefCount b \<and> FileSecurity a = FileSecurity b \<and>
     FileSecuritySize a = FileSecuritySize b \<and> FileAttributes (FileInfo a) = FileAttributes (FileInfo b) \<and>
     IndexNumber (FileInfo a) = IndexNumber (FileInfo b)"

lemma same_file_refl [simp]: "same_file a a"
  by (simp add: same_file_def)

lemma realloc_spec:
  assumes "heap_laws h" "n \<noteq> 0" "LargeHeapRealloc h al ptr n = Some b"
  shows "n \<le> length b \<and> (\<forall>k. k \<le> n \<longrightarrow> k \<le> length (case ptr of None \<Rightarrow> [] | Some d \<Rightarrow> d) \<longrightarrow>
    take k b = take k (case ptr of None \<Rightarrow> [] | Some d \<Rightarrow> d))"
proof (cases ptr)
  case None
  then show ?thesis using assms by (auto simp: LargeHeapRealloc_def heap_laws_def)
next
  case (Some d)
  then have r: "HeapReAlloc h d (ALIGN_UP h n al) = Some b" using assms(2,3) by (simp add: LargeHeapRealloc_def)
  have up: "n \<le> ALIGN_UP h n al" and len: "length b = ALIGN_UP h n al"
    and pre: "take (min (length d) (ALIGN_UP h n al)) b = take (min (length d) (ALIGN_UP h n al)) d"
    using assms(1) r unfolding heap_laws_def by blast+
  have "take k b = take k d" if "k \<le> n" "k \<le> length d" for k
  proof -
    have "take k (take (min (length d) (ALIGN_UP h n al)) b) = take k (take (min (length d) (ALIGN_UP h n al)) d)"
      using pre by simp
    moreover have "min k (min (length d) (ALIGN_UP h n al)) = k" using that up by simp
    ultimately show ?thesis by (simp only: take_take)
  qed
  then show ?thesis using Some up len by simp
qed

lemma SetAllocation_spec:
  assumes "heap_laws h" "node_ok node" "SetAllocation h al mx NewSize node = (st, node')"
  shows "node_ok node' \<and> same_file node node' \<and>
    (if st = STATUS_SUCCESS then AllocationSize (FileInfo node') = NewSize \<and>
        file_contents node' = take (unat NewSize) (file_contents node)
     else node' = node)"
proof (cases "AllocationSize (FileInfo node) = NewSize")
  case True
  have "length (file_contents node) \<le> unat NewSize"
    using file_size_contents [OF assms(2)] assms(2) True by (simp add: node_ok_def word_le_nat_alt)
  then show ?thesis using True assms by (simp add: SetAllocation_def)
next
  case False
  show ?thesis
  proof (cases "st = STATUS_SUCCESS")
    case False
    then have "node' = node" using \<open>AllocationSize (FileInfo node) \<noteq> NewSize\<close> assms(3)
      by (auto simp: SetAllocation_def Let_def split: if_splits)
    then show ?thesis using False assms(2) by simp
  next
    case True
    let ?data = "LargeHeapRealloc h al (FileData node) (unat NewSize)"
    let ?fs = "if FileSize (FileInfo node) > NewSize then NewSize else FileSize (FileInfo node)"
    have n: "node' = set_info (\<lambda>i. i\<lparr>AllocationSize := NewSize, FileSize := ?fs\<rparr>) (node\<lparr>FileData := ?data\<rparr>)"
      and some: "NewSize = 0 \<or> ?data \<noteq> None"
      using True False assms(3) by (auto simp: SetAllocation_def Let_def split: if_splits)
    have fs: "unat ?fs = min (unat (FileSize (FileInfo node))) (unat NewSize)"
      by (simp add: word_less_nat_alt min_def)
    have old: "unat (FileSize (FileInfo node)) \<le> length (block node)"
      using assms(2) by (simp add: node_ok_def word_le_nat_alt)
    show ?thesis
    proof (cases "NewSize = 0")
      case True
      then show ?thesis
        using n \<open>st = STATUS_SUCCESS\<close> by (auto simp: node_ok_def file_contents_def same_file_def block_def word_gt_0)
    next
      case False
      then obtain b where b: "?data = Some b" using some by blast
      have un: "unat NewSize \<noteq> 0" using False by (simp add: unat_eq_0)
      note sp = realloc_spec [OF assms(1) un b]
      have blk: "block node' = b" "FileSize (FileInfo node') = ?fs" "AllocationSize (FileInfo node') = NewSize"
        unfolding n b by (simp_all add: block_def)
      have "take (unat ?fs) b = take (unat ?fs) (block node)"
        using sp old unfolding fs by (auto simp: block_def)
      then have "file_contents node' = take (unat NewSize) (file_contents node)"
        using blk fs by (simp add: file_contents_def min.commute)
      moreover have "node_ok node'"
        using sp blk fs by (simp add: node_ok_def word_le_nat_alt)
      moreover have "same_file node node'" unfolding n by (simp add: same_file_def)
      ultimately show ?thesis using \<open>st = STATUS_SUCCESS\<close> blk(3) by simp
    qed
  qed
qed

lemma round_up_unit:
  assumes "unat N \<le> 2 ^ 63"
  shows "unat ((N + AllocationUnit - 1) div AllocationUnit * AllocationUnit) = (unat N + 511) div 512 * 512"
proof -
  have "unat (511 + N) = unat N + 511" using assms by (simp add: unat_word_ariths)
  moreover have "N + AllocationUnit - 1 = 511 + N" by (simp add: AllocationUnit_def)
  ultimately have d: "unat ((N + AllocationUnit - 1) div AllocationUnit) = (unat N + 511) div 512"
    by (simp add: AllocationUnit_def unat_div)
  have "(unat N + 511) div 512 * 512 \<le> unat N + 511" by simp
  also have "\<dots> < 2 ^ 64" using assms by simp
  finally show ?thesis using d by (simp add: unat_word_ariths AllocationUnit_def)
qed

text \<open>What the size handlers do to the contents: cut, or extended with zeros; or an error and no change.\<close>

definition resized :: "nat \<Rightarrow> u8 list \<Rightarrow> u8 list" where
  "resized n xs = take n xs @ replicate (n - length xs) 0"

lemma SetFileSizeInternal_spec:
  assumes "heap_laws h" "node_ok node" "unat NewSize \<le> 2 ^ 63"
  shows "\<exists>st node'. SetFileSizeInternal h al mx NewSize False node = Some (st, node') \<and> node_ok node' \<and> same_file node node' \<and>
    (if st = STATUS_SUCCESS then file_contents node' = resized (unat NewSize) (file_contents node) \<and> FileSize (FileInfo node') = NewSize
     else node' = node)"
proof (cases "FileSize (FileInfo node) = NewSize")
  case True
  then show ?thesis
    using assms(2) file_size_contents [OF assms(2)] by (simp add: SetFileSizeInternal_def resized_def)
next
  case neq: False
  let ?up = "(NewSize + AllocationUnit - 1) div AllocationUnit * AllocationUnit"
  obtain st node1 where s: "(if AllocationSize (FileInfo node) < NewSize then SetAllocation h al mx ?up node
      else (STATUS_SUCCESS, node)) = (st, node1)" by fastforce
  have up: "unat NewSize \<le> unat ?up" unfolding round_up_unit [OF assms(3)] by simp
  have spec: "node_ok node1 \<and> same_file node node1 \<and> (st \<noteq> STATUS_SUCCESS \<longrightarrow> node1 = node) \<and>
    (st = STATUS_SUCCESS \<longrightarrow> NewSize \<le> AllocationSize (FileInfo node1) \<and> file_contents node1 = file_contents node \<and>
      FileSize (FileInfo node1) = FileSize (FileInfo node))"
  proof (cases "AllocationSize (FileInfo node) < NewSize")
    case True
    then have a: "SetAllocation h al mx ?up node = (st, node1)" using s by simp
    note sp = SetAllocation_spec [OF assms(1,2) a]
    show ?thesis
    proof (cases "st = STATUS_SUCCESS")
      case True
      have "unat (FileSize (FileInfo node)) \<le> unat ?up"
        using assms(2) \<open>AllocationSize (FileInfo node) < NewSize\<close> up
        by (simp add: node_ok_def word_le_nat_alt word_less_nat_alt)
      then have c: "file_contents node1 = file_contents node"
        using sp True file_size_contents [OF assms(2)] by simp
      then have "unat (FileSize (FileInfo node1)) = unat (FileSize (FileInfo node))"
        using file_size_contents [of node1] file_size_contents [OF assms(2)] sp by simp
      then have "FileSize (FileInfo node1) = FileSize (FileInfo node)" by (simp only: word_unat_eq_iff)
      then show ?thesis using sp True c up by (simp add: word_le_nat_alt)
    next
      case False
      then show ?thesis using sp assms(2) by simp
    qed
  next
    case False
    then have "st = STATUS_SUCCESS" "node1 = node" using s by simp_all
    then show ?thesis using False assms(2) by simp
  qed
  show ?thesis
  proof (cases "st = STATUS_SUCCESS")
    case False
    then show ?thesis
      using s neq spec by (auto simp: SetFileSizeInternal_def)
  next
    case ok: True
    let ?fs = "unat (FileSize (FileInfo node1))" and ?d = "block node1"
    have len: "?fs \<le> length ?d" "unat NewSize \<le> length ?d"
      using spec ok by (auto simp: node_ok_def word_le_nat_alt)
    have fs: "length (file_contents node) = ?fs" "file_contents node = take ?fs ?d"
      using spec ok file_size_contents [OF assms(2)] by (auto simp: file_contents_def)
    show ?thesis
    proof (cases "FileSize (FileInfo node1) < NewSize")
      case True
      then have lt: "?fs < unat NewSize" by (simp add: word_less_nat_alt)
      then have "?d \<noteq> []" using len by auto
      then obtain d where d: "FileData node1 = Some d" "?d = d" by (cases "FileData node1") (simp_all add: block_def)
      let ?d' = "take ?fs d @ replicate (unat NewSize - ?fs) 0 @ drop (unat NewSize) d"
      have sub: "unat (NewSize - FileSize (FileInfo node1)) = unat NewSize - ?fs"
        using True by (simp add: unat_sub word_le_less_eq)
      have "splice d ?fs (replicate (unat (NewSize - FileSize (FileInfo node1))) 0) = Some ?d'"
        unfolding sub using len lt d(2) by (simp add: splice_def)
      then have r: "SetFileSizeInternal h al mx NewSize False node =
          Some (STATUS_SUCCESS, set_info (\<lambda>i. i\<lparr>FileSize := NewSize\<rparr>) (node1\<lparr>FileData := Some ?d'\<rparr>))"
        using s neq ok True d(1) by (simp add: SetFileSizeInternal_def)
      let ?n = "set_info (\<lambda>i. i\<lparr>FileSize := NewSize\<rparr>) (node1\<lparr>FileData := Some ?d'\<rparr>)"
      have b: "block ?n = ?d'" by (simp add: block_def)
      have "file_contents ?n = take (unat NewSize) ?d'" by (simp add: file_contents_def block_def)
      then have "file_contents ?n = resized (unat NewSize) (file_contents node)"
        unfolding fs(2) resized_def using lt len d(2) by simp
      moreover have "node_ok ?n"
        using spec ok lt len d(2) unfolding node_ok_def b by (auto simp: word_le_nat_alt)
      moreover have "same_file node ?n" using spec by (simp add: same_file_def)
      ultimately show ?thesis using r by auto
    next
      case False
      then have le: "unat NewSize \<le> ?fs" by (simp add: word_less_nat_alt not_less)
      have r: "SetFileSizeInternal h al mx NewSize False node =
          Some (STATUS_SUCCESS, set_info (\<lambda>i. i\<lparr>FileSize := NewSize\<rparr>) node1)"
        using s neq ok False by (simp add: SetFileSizeInternal_def)
      let ?n = "set_info (\<lambda>i. i\<lparr>FileSize := NewSize\<rparr>) node1"
      have b: "block ?n = ?d" by (simp add: block_def)
      have "file_contents ?n = take (unat NewSize) ?d" by (simp add: file_contents_def block_def)
      then have "file_contents ?n = resized (unat NewSize) (file_contents node)"
        unfolding fs(2) resized_def using le len by simp
      moreover have "node_ok ?n" using spec ok unfolding node_ok_def b by simp
      moreover have "same_file node ?n" using spec by (simp add: same_file_def)
      ultimately show ?thesis using r by auto
    qed
  qed
qed

end
