(* ===== verification/Memfs_File_Spec.thy ===== *)
theory Memfs_File_Spec
  imports Memfs_File
begin

text \<open>
  What the handlers of Memfs_File do, in terms of the contents of the file: a byte list. Errors leave the
  node as it was.
\<close>

definition patched :: "u8 list \<Rightarrow> nat \<Rightarrow> u8 list \<Rightarrow> u8 list" where
  "patched xs off bs = resized off xs @ bs @ drop (off + length bs) xs"

lemma resized_take: "off \<le> n \<Longrightarrow> take off (resized n xs) = resized off xs"
  by (auto simp: resized_def min_def)

lemma length_resized [simp]: "length (resized n xs) = n"
  by (simp add: resized_def)

lemma resized_short: "n \<le> length xs \<Longrightarrow> resized n xs = take n xs"
  by (simp add: resized_def)

lemma unat_ulong: "unat (ucast (n :: u32) :: u64) = unat n"
proof -
  have "unat n < 2 ^ LENGTH(32)" by (rule unsigned_less)
  then have "unat n < 2 ^ 64" by simp
  then show ?thesis by (simp add: unsigned_ucast_eq take_bit_nat_eq_self)
qed

lemma ucast_ulong [simp]: "ucast (ucast (n :: u32) :: u64) = n"
  by (rule bit_word_eqI) (simp add: bit_ucast_iff)

text \<open>The copy into the file's block, once the block is large enough.\<close>

lemma store_bytes:
  assumes "node_ok node" "off + length bs \<le> unat (FileSize (FileInfo node))" "bs \<noteq> []"
  shows "\<exists>d d'. FileData node = Some d \<and> splice d off bs = Some d' \<and> node_ok (node\<lparr>FileData := Some d'\<rparr>) \<and>
    file_contents (node\<lparr>FileData := Some d'\<rparr>) = patched (file_contents node) off bs"
proof -
  let ?fs = "unat (FileSize (FileInfo node))"
  have len: "?fs \<le> length (block node)" using assms(1) by (simp add: node_ok_def word_le_nat_alt)
  then have "block node \<noteq> []" using assms(2,3) by (cases bs) auto
  then obtain d where d: "FileData node = Some d" "block node = d" by (cases "FileData node") (simp_all add: block_def)
  let ?d' = "take off d @ bs @ drop (off + length bs) d"
  have sp: "splice d off bs = Some ?d'" using len assms(2) d(2) by (simp add: splice_def)
  have b: "block (node\<lparr>FileData := Some ?d'\<rparr>) = ?d'" by (simp add: block_def)
  have ok: "node_ok (node\<lparr>FileData := Some ?d'\<rparr>)"
    using assms(1,2) len d(2) unfolding node_ok_def b by simp
  have "file_contents (node\<lparr>FileData := Some ?d'\<rparr>) = take ?fs ?d'" unfolding file_contents_def b by simp
  also have "\<dots> = take off d @ bs @ take (?fs - off - length bs) (drop (off + length bs) d)"
  proof -
    have "min ?fs off = off" "length bs \<le> ?fs - off" "min (length d) off = off" using assms(2) len d(2) by auto
    then show ?thesis by simp
  qed
  also have "\<dots> = patched (file_contents node) off bs"
    using assms(2) len unfolding file_contents_def d(2)
    by (simp add: patched_def resized_short drop_take min_def)
  finally show ?thesis using d(1) sp ok by blast
qed

lemma MemfsWrite_spec:
  fixes Length :: u32
  assumes "heap_laws h" "node_ok node" "FileName node \<noteq> ftj_disk_bin" "Length \<noteq> 0"
    and "unat Offset + unat Length \<le> 2 ^ 63" "unat (FileSize (FileInfo node)) + unat Length \<le> 2 ^ 63"
    and "unat Length \<le> length Buffer"
    and off: "off = (if toEnd then unat (FileSize (FileInfo node)) else unat Offset)"
  shows "\<exists>st n info node'. MemfsWrite h al mx now dev_write node Buffer Offset Length toEnd False want ctrl =
      Some (st, n, info, node', ctrl) \<and> node_ok node' \<and> same_file node node' \<and>
    (if st = STATUS_SUCCESS then n = Some Length \<and> info = Some (FileInfo node') \<and>
       file_contents node' = patched (file_contents node) off (take (unat Length) Buffer)
     else n = None \<and> node' = node)"
proof -
  let ?fs = "FileSize (FileInfo node)" and ?bs = "take (unat Length) Buffer"
  define O' where "O' = (if toEnd then ?fs else Offset)"
  define E where "E = O' + ucast Length"
  have o: "unat O' = off" by (simp add: O'_def off)
  have ul: "unat (ucast Length :: u64) = unat Length"
    by (rule unat_ulong)
  have bound: "off + unat Length \<le> 2 ^ 63" using assms(5,6) off by simp
  then have e: "unat E = off + unat Length" by (simp add: E_def unat_word_ariths ul o)
  have diff: "E - O' = ucast Length" by (simp add: E_def)
  have bs: "length ?bs = unat Length" using assms(7) by simp
  have ne: "?bs \<noteq> []" using assms(4) bs by (metis length_0_conv unat_eq_0)
  have sl: "slice Buffer 0 (unat (E - O')) = Some ?bs" using assms(7) by (simp add: diff ul slice_def)
  show ?thesis
  proof (cases "E > ?fs")
    case True
    obtain st node1 where s: "SetFileSizeInternal h al mx E False node = Some (st, node1)" "node_ok node1" "same_file node node1"
      "if st = STATUS_SUCCESS then file_contents node1 = resized (unat E) (file_contents node) \<and> FileSize (FileInfo node1) = E
       else node1 = node"
      using SetFileSizeInternal_spec [OF assms(1,2), of E al mx] bound e by auto
    show ?thesis
    proof (cases "st = STATUS_SUCCESS")
      case False
      then show ?thesis
        using s True assms(3) by (simp add: MemfsWrite_def O'_def [symmetric] E_def [symmetric])
    next
      case ok: True
      have "off + length ?bs \<le> unat (FileSize (FileInfo node1))" using s(4) ok e bs by simp
      from store_bytes [OF s(2) this ne] obtain d d' where st: "FileData node1 = Some d" "splice d off ?bs = Some d'"
        "node_ok (node1\<lparr>FileData := Some d'\<rparr>)"
        "file_contents (node1\<lparr>FileData := Some d'\<rparr>) = patched (file_contents node1) off ?bs" by blast
      have "length (file_contents node) \<le> unat E" using True file_size_contents [OF assms(2)] by (simp add: word_less_nat_alt)
      then have "patched (file_contents node1) off ?bs = patched (file_contents node) off ?bs"
        using s(4) ok e bs by (simp add: patched_def resized_take) (simp add: resized_short resized_take)
      moreover have "MemfsWrite h al mx now dev_write node Buffer Offset Length toEnd False want ctrl =
          Some (STATUS_SUCCESS, Some Length, Some (FileInfo node1), node1\<lparr>FileData := Some d'\<rparr>, ctrl)"
        using s(1) ok True assms(3) sl st(1,2)
        by (simp add: MemfsWrite_def O'_def [symmetric] E_def [symmetric] o MemfsFileNodeGetFileInfo_def)
           (simp add: diff)
      moreover have "same_file node (node1\<lparr>FileData := Some d'\<rparr>)" using s(3) by (simp add: same_file_def)
      ultimately show ?thesis using st(3,4) by auto
    qed
  next
    case False
    then have "off + length ?bs \<le> unat ?fs" using e bs by (simp add: word_less_nat_alt)
    from store_bytes [OF assms(2) this ne] obtain d d' where st: "FileData node = Some d" "splice d off ?bs = Some d'"
      "node_ok (node\<lparr>FileData := Some d'\<rparr>)"
      "file_contents (node\<lparr>FileData := Some d'\<rparr>) = patched (file_contents node) off ?bs" by blast
    have "MemfsWrite h al mx now dev_write node Buffer Offset Length toEnd False want ctrl =
        Some (STATUS_SUCCESS, Some Length, Some (FileInfo node), node\<lparr>FileData := Some d'\<rparr>, ctrl)"
      using False assms(3) sl st(1,2)
      by (simp add: MemfsWrite_def O'_def [symmetric] E_def [symmetric] o MemfsFileNodeGetFileInfo_def)
         (simp add: diff)
    moreover have "same_file node (node\<lparr>FileData := Some d'\<rparr>)" by (simp add: same_file_def)
    ultimately show ?thesis using st(3,4) by auto
  qed
qed

lemma clamped_end_unat:
  assumes "unat Offset + unat Length < 2 ^ 64" "Offset < fs"
  shows "unat (clamped_end Offset Length fs) = min (unat Offset + unat Length) (unat fs)"
    "unat (clamped_end Offset Length fs - Offset) = min (unat Length) (unat fs - unat Offset)"
proof -
  have e: "unat (Offset + ucast Length) = unat Offset + unat Length"
    using assms(1) by (simp add: unat_word_ariths unat_ulong)
  show c: "unat (clamped_end Offset Length fs) = min (unat Offset + unat Length) (unat fs)"
    using e by (simp add: clamped_end_def Let_def word_less_nat_alt min_def)
  have "Offset \<le> clamped_end Offset Length fs"
    using c assms(2) by (simp add: word_le_nat_alt word_less_nat_alt)
  then have "unat (clamped_end Offset Length fs - Offset) = unat (clamped_end Offset Length fs) - unat Offset"
    by (rule unat_sub)
  then show "unat (clamped_end Offset Length fs - Offset) = min (unat Length) (unat fs - unat Offset)"
    using c assms(2) by (simp add: word_less_nat_alt min_def) arith
qed

lemma MemfsRead_spec:
  assumes "node_ok node" "FileName node \<noteq> ftj_disk_bin" "unat Offset + unat Length < 2 ^ 64"
    and "unat Length \<le> length Buffer" "Offset < FileSize (FileInfo node)"
  shows "\<exists>n. MemfsRead dev_read node Buffer Offset Length ctrl =
      Some (STATUS_SUCCESS, take n (drop (unat Offset) (file_contents node)) @ drop n Buffer, Some (of_nat n), ctrl) \<and>
    n = min (unat Length) (unat (FileSize (FileInfo node)) - unat Offset)"
proof -
  let ?fs = "FileSize (FileInfo node)"
  define n where "n = min (unat Length) (unat ?fs - unat Offset)"
  define E where "E = clamped_end Offset Length ?fs"
  have un: "unat (E - Offset) = n" unfolding E_def n_def by (rule clamped_end_unat [OF assms(3,5)])
  have lt: "unat Offset < unat ?fs" using assms(5) by (simp add: word_less_nat_alt)
  have len: "unat ?fs \<le> length (block node)" using assms(1) by (simp add: node_ok_def word_le_nat_alt)
  then obtain d where d: "FileData node = Some d" "block node = d"
    using lt by (cases "FileData node") (simp_all add: block_def)
  have "unat Offset + n \<le> unat ?fs" "n \<le> length Buffer" using lt assms(4) by (simp_all add: n_def)
  then have sl: "slice d (unat Offset) n = Some (take n (drop (unat Offset) d))"
    "take n (drop (unat Offset) (file_contents node)) = take n (drop (unat Offset) d)"
    "splice Buffer 0 (take n (drop (unat Offset) d)) = Some (take n (drop (unat Offset) d) @ drop n Buffer)"
    using len d(2) by (simp_all add: slice_def splice_def file_contents_def drop_take min_absorb1)
  have "ucast (E - Offset) = (of_nat n :: u32)"
  proof -
    have "n \<le> unat Length" by (simp add: n_def)
    also have "\<dots> < 2 ^ LENGTH(32)" by (rule unsigned_less)
    finally have "n < 2 ^ 32" by simp
    then show ?thesis using un by (simp add: word_unat_eq_iff unsigned_ucast_eq take_bit_nat_eq_self unat_of_nat)
  qed
  then have "MemfsRead dev_read node Buffer Offset Length ctrl =
      Some (STATUS_SUCCESS, take n (drop (unat Offset) (file_contents node)) @ drop n Buffer, Some (of_nat n), ctrl)"
    using assms(2,5) sl un d(1) by (simp add: MemfsRead_def E_def [symmetric] not_le)
  then show ?thesis by (auto simp: n_def)
qed

section \<open>A heap and a file for the witnesses\<close>

definition plain_heap :: win_heap where
  "plain_heap = \<lparr>HeapAlloc = \<lambda>n. Some (replicate n 0xCC),
     HeapReAlloc = \<lambda>old n. Some (take n old @ replicate (n - length old) 0xCC),
     ALIGN_UP = \<lambda>n a. (if a = 0 then n else (n + a - 1) div a * a)\<rparr>"

definition empty_file :: file_node where
  "empty_file = \<lparr>FileName = [BSLASH, 0x61],
     FileInfo = \<lparr>FileAttributes = 0x20, AllocationSize = 0, FileSize = 0, CreationTime = 1, LastAccessTime = 1,
       LastWriteTime = 1, ChangeTime = 1, IndexNumber = 3\<rparr>,
     FileSecuritySize = 0, FileSecurity = None, FileData = None, RefCount = 2\<rparr>"

lemma plain_heap_laws: "heap_laws plain_heap"
proof -
  have "n \<le> (n + a - 1) div a * a" if "a \<noteq> 0" for n a :: nat
  proof -
    have "(n + a - 1) mod a \<le> a - 1" using that by (metis Suc_pred' less_Suc_eq_le mod_less_divisor neq0_conv)
    moreover have "n + a - 1 = (n + a - 1) div a * a + (n + a - 1) mod a" by simp
    ultimately show ?thesis using that by linarith
  qed
  then show ?thesis by (auto simp: heap_laws_def plain_heap_def min_def)
qed

lemma empty_file_ok: "node_ok empty_file" "FileName empty_file \<noteq> ftj_disk_bin" "file_contents empty_file = []"
  "FileSize (FileInfo empty_file) = 0" "FileData empty_file = None" "AllocationSize (FileInfo empty_file) = 0"
  by (simp_all add: node_ok_def empty_file_def ftj_disk_bin_def file_contents_def)

section \<open>The guarantees\<close>

lemma SetFileSizeInternal_status:
  assumes "node_ok node" "unat NewSize \<le> 2 ^ 63" "SetFileSizeInternal h al mx NewSize False node = Some (st, node')"
  shows "st =
    (let need = (unat NewSize + 511) div 512 * 512 in
     if unat NewSize \<le> unat (AllocationSize (FileInfo node)) then STATUS_SUCCESS
     else if unat mx < need then STATUS_DISK_FULL
     else if LargeHeapRealloc h al (FileData node) need = None then STATUS_INSUFFICIENT_RESOURCES
     else STATUS_SUCCESS)"
proof (cases "NewSize \<le> AllocationSize (FileInfo node)")
  case True
  then have "st = STATUS_SUCCESS"
    using assms(3) by (auto simp: SetFileSizeInternal_def bind_eq_Some_conv not_less [symmetric] split: if_splits)
  then show ?thesis using True by (simp add: word_le_nat_alt)
next
  case False
  let ?up = "(NewSize + AllocationUnit - 1) div AllocationUnit * AllocationUnit"
  have up: "unat ?up = (unat NewSize + 511) div 512 * 512" by (rule round_up_unit [OF assms(2)])
  have grow: "AllocationSize (FileInfo node) < NewSize" "FileSize (FileInfo node) \<noteq> NewSize"
    using False assms(1) by (auto simp: node_ok_def word_le_nat_alt not_le word_less_nat_alt)
  have "unat NewSize \<le> unat ?up" unfolding up by simp
  then have ne: "AllocationSize (FileInfo node) \<noteq> ?up" "?up \<noteq> 0"
    using grow(1) by (auto simp: word_less_nat_alt)
  have lt: "?up > ucast mx \<longleftrightarrow> unat mx < unat ?up" by (simp add: word_less_nat_alt unat_ulong)
  have "st = fst (SetAllocation h al mx ?up node)"
    using assms(3) grow by (auto simp: SetFileSizeInternal_def Let_def bind_eq_Some_conv split: if_splits prod.splits)
  also have "\<dots> = (if unat mx < unat ?up then STATUS_DISK_FULL
     else if LargeHeapRealloc h al (FileData node) (unat ?up) = None then STATUS_INSUFFICIENT_RESOURCES else STATUS_SUCCESS)"
    using ne lt by (simp add: SetAllocation_def Let_def)
  finally show ?thesis using False by (simp add: up word_le_nat_alt)
qed

text \<open>C31: setting the size of a regular file, for every size up to \<open>2 ^ 63\<close>. It succeeds exactly when the size fits the allocated
  block, or when the size rounded up to whole sectors is not above the limit of the volume and the heap gives a block of it; then
  the contents are cut, or extended with zeros, to that size, and the new information is returned. A size above the limit answers that
  the disk is full and a refused block that resources are insufficient, and neither changes the file. The file's invariant is
  kept, and never is memory outside its block touched.\<close>

theorem set_file_size_contents:
  assumes "heap_laws h" "node_ok node" "unat NewSize \<le> 2 ^ 63"
  shows "\<exists>st info node'. SetFileSize h al mx NewSize False node = Some (st, info, node') \<and> node_ok node' \<and> same_file node node' \<and>
    st = (let need = (unat NewSize + 511) div 512 * 512 in
       if unat NewSize \<le> unat (AllocationSize (FileInfo node)) then STATUS_SUCCESS
       else if unat mx < need then STATUS_DISK_FULL
       else if LargeHeapRealloc h al (FileData node) need = None then STATUS_INSUFFICIENT_RESOURCES
       else STATUS_SUCCESS) \<and>
    (if st = STATUS_SUCCESS then file_contents node' = resized (unat NewSize) (file_contents node) \<and>
       FileSize (FileInfo node') = NewSize \<and> info = Some (FileInfo node')
     else info = None \<and> node' = node)"
proof -
  obtain st node' where s: "SetFileSizeInternal h al mx NewSize False node = Some (st, node')" "node_ok node'" "same_file node node'"
    "if st = STATUS_SUCCESS then file_contents node' = resized (unat NewSize) (file_contents node) \<and> FileSize (FileInfo node') = NewSize
     else node' = node" using SetFileSizeInternal_spec [OF assms] by blast
  note st = SetFileSizeInternal_status [OF assms(2,3) s(1)]
  show ?thesis
    using s unfolding st [symmetric] by (cases "st = STATUS_SUCCESS") (simp_all add: SetFileSize_def MemfsFileNodeGetFileInfo_def)
qed

text \<open>An empty file grows to three zero bytes; a limit of 256 bytes refuses that.\<close>

theorem set_file_size_contents_witness:
  "(\<exists>info node'. SetFileSize plain_heap 65536 4096 3 False empty_file = Some (STATUS_SUCCESS, info, node') \<and>
      file_contents node' = [0, 0, 0]) \<and>
   SetFileSize plain_heap 65536 256 3 False empty_file = Some (STATUS_DISK_FULL, None, empty_file)"
proof -
  have h: "heap_laws plain_heap" "node_ok empty_file" "unat (3 :: u64) \<le> 2 ^ 63" using plain_heap_laws empty_file_ok by simp_all
  have r: "resized 3 [] = [0, 0, 0]" by (simp add: resized_def numeral_3_eq_3)
  have a: "LargeHeapRealloc plain_heap 65536 None 512 \<noteq> None" by (simp add: LargeHeapRealloc_def plain_heap_def)
  note n = empty_file_ok r a
  show ?thesis
    using set_file_size_contents [OF h, of 65536 4096] set_file_size_contents [OF h, of 65536 256] by (simp add: n) auto
qed

text \<open>C24: a write to a regular file, at an offset or at the end, is defined; when it succeeds all bytes were
  transferred and the contents are the old ones with the bytes written over them, the gap before them,
  if any, filled with zeros; when it fails the file is unchanged.\<close>

theorem write_patches_contents:
  fixes Length :: u32
  assumes "heap_laws h" "node_ok node" "FileName node \<noteq> ftj_disk_bin" "Length \<noteq> 0"
    and "unat Offset + unat Length \<le> 2 ^ 63" "unat (FileSize (FileInfo node)) + unat Length \<le> 2 ^ 63"
    and "unat Length \<le> length Buffer"
    and "off = (if toEnd then unat (FileSize (FileInfo node)) else unat Offset)"
  shows "\<exists>st n info node'. MemfsWrite h al mx now dev_write node Buffer Offset Length toEnd False want ctrl =
      Some (st, n, info, node', ctrl) \<and> node_ok node' \<and> same_file node node' \<and>
    (if st = STATUS_SUCCESS then n = Some Length \<and> info = Some (FileInfo node') \<and>
       file_contents node' = patched (file_contents node) off (take (unat Length) Buffer)
     else n = None \<and> node' = node)"
  by (rule MemfsWrite_spec [OF assms])

theorem write_patches_contents_witness:
  "heap_laws plain_heap \<and> node_ok empty_file \<and> patched (file_contents empty_file) 2 [7, 8] = [0, 0, 7, 8] \<and>
   (\<exists>st n info node'. MemfsWrite plain_heap 65536 4096 5 (\<lambda>o' b n (d :: unit). None) empty_file [7, 8, 9] 2 2 False False True None =
      Some (st, n, info, node', None) \<and> (st = STATUS_SUCCESS \<longrightarrow> file_contents node' = [0, 0, 7, 8]))"
proof -
  have p: "patched (file_contents empty_file) 2 [7, 8] = [0, 0, 7, 8]"
    by (simp add: patched_def resized_def empty_file_ok numeral_2_eq_2)
  have h: "heap_laws plain_heap" "node_ok empty_file" "FileName empty_file \<noteq> ftj_disk_bin" "(2 :: u32) \<noteq> 0"
    "unat (2 :: u64) + unat (2 :: u32) \<le> 2 ^ 63" "unat (FileSize (FileInfo empty_file)) + unat (2 :: u32) \<le> 2 ^ 63"
    "unat (2 :: u32) \<le> length [7, 8, 9 :: u8]" "2 = (if False then unat (FileSize (FileInfo empty_file)) else unat (2 :: u64))"
    using plain_heap_laws empty_file_ok by simp_all
  have t: "take (unat (2 :: u32)) [7, 8, 9] = [7, 8 :: u8]" by simp
  from write_patches_contents [OF h, of 65536 4096 5 "\<lambda>o' b n (d :: unit). None" True None] show ?thesis
    unfolding t p using plain_heap_laws empty_file_ok p by (auto split: if_splits)
qed

text \<open>C25: what a successful write stored is what a read of the same range returns.\<close>

theorem memfs_read_after_write:
  fixes Length :: u32
  assumes "heap_laws h" "node_ok node" "FileName node \<noteq> ftj_disk_bin" "Length \<noteq> 0"
    and "unat Offset + unat Length \<le> 2 ^ 63" "unat (FileSize (FileInfo node)) + unat Length \<le> 2 ^ 63"
    and "unat Length \<le> length Buffer" "unat Length \<le> length Dest"
    and "MemfsWrite h al mx now dev_write node Buffer Offset Length False False want ctrl =
      Some (STATUS_SUCCESS, n, info, node', ctrl')"
  shows "MemfsRead dev_read node' Dest Offset Length ctrl' =
    Some (STATUS_SUCCESS, take (unat Length) Buffer @ drop (unat Length) Dest, Some Length, ctrl')"
proof -
  let ?n = "unat Length" and ?o = "unat Offset"
  have w: "node_ok node'" "same_file node node'"
    "file_contents node' = patched (file_contents node) ?o (take ?n Buffer)"
    using MemfsWrite_spec [OF assms(1-7), of ?o False al mx now dev_write want ctrl] assms(9) by auto
  have name: "FileName node' \<noteq> ftj_disk_bin" using w(2) assms(3) by (simp add: same_file_def)
  have "?o + ?n \<le> length (file_contents node')" unfolding w(3) using assms(7) by (simp add: patched_def)
  then have fs: "?o + ?n \<le> unat (FileSize (FileInfo node'))" using file_size_contents [OF w(1)] by simp
  have pos: "0 < ?n" using assms(4) by (simp add: unat_gt_0)
  have lt: "Offset < FileSize (FileInfo node')" using fs pos by (simp add: word_less_nat_alt)
  have small: "?o + ?n < 2 ^ 64" using assms(5) by simp
  obtain m where m: "MemfsRead dev_read node' Dest Offset Length ctrl' =
      Some (STATUS_SUCCESS, take m (drop ?o (file_contents node')) @ drop m Dest, Some (of_nat m), ctrl')"
    "m = min ?n (unat (FileSize (FileInfo node')) - ?o)"
    using MemfsRead_spec [OF w(1) name small assms(8) lt] by blast
  have "m = ?n" using m(2) fs by simp
  moreover have "take ?n (drop ?o (file_contents node')) = take ?n Buffer"
    unfolding w(3) using assms(7) by (simp add: patched_def)
  ultimately show ?thesis using m(1) by simp
qed

theorem memfs_read_after_write_witness:
  "\<exists>n info node'. MemfsWrite plain_heap 4 4096 5 (\<lambda>o' b n (d :: unit). None) empty_file [7, 8, 9] 0 2 False False True None =
      Some (STATUS_SUCCESS, n, info, node', None) \<and>
    MemfsRead (\<lambda>o' b n (d :: unit). None) node' [0, 0, 0] 0 2 None = Some (STATUS_SUCCESS, [7, 8, 0], Some 2, None)"
proof -
  have "\<exists>n info node'. MemfsWrite plain_heap 4 4096 5 (\<lambda>o' b n (d :: unit). None) empty_file [7, 8, 9] 0 2 False False True None =
      Some (STATUS_SUCCESS, n, info, node', None)"
  proof -
    have "map_option (\<lambda>(st, n, info, node', d). (st, d)) (MemfsWrite plain_heap 4 4096 5 (\<lambda>o' b n (d :: unit). None)
      empty_file [7, 8, 9] 0 2 False False True None) = Some (STATUS_SUCCESS, None)" by code_simp
    then show ?thesis by auto
  qed
  then obtain n info node' where w: "MemfsWrite plain_heap 4 4096 5 (\<lambda>o' b n (d :: unit). None) empty_file [7, 8, 9] 0 2 False False True None =
      Some (STATUS_SUCCESS, n, info, node', None)" by blast
  have h: "heap_laws plain_heap" "node_ok empty_file" "FileName empty_file \<noteq> ftj_disk_bin" "(2 :: u32) \<noteq> 0"
    "unat (0 :: u64) + unat (2 :: u32) \<le> 2 ^ 63" "unat (FileSize (FileInfo empty_file)) + unat (2 :: u32) \<le> 2 ^ 63"
    "unat (2 :: u32) \<le> length [7, 8, 9 :: u8]" "unat (2 :: u32) \<le> length [0, 0, 0 :: u8]"
    using plain_heap_laws empty_file_ok by simp_all
  have "MemfsRead (\<lambda>o' b n (d :: unit). None) node' [0, 0, 0] 0 2 None = Some (STATUS_SUCCESS, [7, 8, 0], Some 2, None)"
    using memfs_read_after_write [OF h w] by simp
  then show ?thesis using w by blast
qed

text \<open>reading a regular file returns the bytes of its contents that lie in the range, at the front of the
  caller's buffer, and reports their number; at or past the end it reports the end of the file.\<close>

lemma memfs_read_contents:
  assumes "node_ok node" "FileName node \<noteq> ftj_disk_bin" "unat Offset + unat Length < 2 ^ 64" "unat Length \<le> length Buffer"
  shows "MemfsRead dev_read node Buffer Offset Length ctrl =
    (if unat Offset < length (file_contents node)
     then (let bytes = take (unat Length) (drop (unat Offset) (file_contents node)) in
       Some (STATUS_SUCCESS, bytes @ drop (length bytes) Buffer, Some (of_nat (length bytes)), ctrl))
     else Some (STATUS_END_OF_FILE, Buffer, None, ctrl))"
proof (cases "Offset < FileSize (FileInfo node)")
  case True
  let ?n = "min (unat Length) (unat (FileSize (FileInfo node)) - unat Offset)"
  have len: "length (file_contents node) = unat (FileSize (FileInfo node))" by (rule file_size_contents [OF assms(1)])
  have lt: "unat Offset < unat (FileSize (FileInfo node))" using True by (simp add: word_less_nat_alt)
  have "take ?n (drop (unat Offset) (file_contents node)) = take (unat Length) (drop (unat Offset) (file_contents node))"
    using len by (simp add: min_def)
  then show ?thesis using MemfsRead_spec [OF assms True, of dev_read ctrl] lt len by (simp add: Let_def min.commute)
next
  case False
  then show ?thesis
    using file_size_contents [OF assms(1)] assms(2) by (simp add: MemfsRead_def word_less_nat_alt not_less word_le_nat_alt)
qed

text \<open>overwriting a regular file, when it succeeds, leaves it empty with the requested allocation and the
  archive attribute; otherwise the file is unchanged.\<close>

lemma overwrite_empties:
  assumes "heap_laws h" "node_ok node"
  shows "\<exists>st info node'. MemfsOverwrite h al mx now attrs replace allocation node = Some (st, info, node') \<and> node_ok node' \<and>
    (if st = STATUS_SUCCESS then file_contents node' = [] \<and> AllocationSize (FileInfo node') = allocation \<and>
       bit (FileAttributes (FileInfo node')) 5 \<and> info = Some (FileInfo node')
     else info = None \<and> node' = node)"
proof -
  obtain st node1 where a: "SetAllocation h al mx allocation node = (st, node1)" by fastforce
  note sp = SetAllocation_spec [OF assms a]
  have bit5: "bit (a OR (0x20 :: u32)) 5" "bit (a OR (b OR (0x20 :: u32))) 5" for a b
    by (simp_all add: bit_or_iff bit_numeral_rec numeral_eq_Suc)
  show ?thesis
  proof (cases "st = STATUS_SUCCESS")
    case False
    then show ?thesis using a sp assms(2) by (simp add: MemfsOverwrite_def SetFileSizeInternal_def)
  next
    case True
    then show ?thesis
      using a sp bit5
      by (simp add: MemfsOverwrite_def SetFileSizeInternal_def Let_def MemfsFileNodeGetFileInfo_def)
         (auto simp: node_ok_def file_contents_def block_def)
  qed
qed

lemma unat_rot13:
  "unat (rot13_byte b) =
    (if (65 \<le> unat b \<and> unat b \<le> 77) \<or> (97 \<le> unat b \<and> unat b \<le> 109) then unat b + 13
     else if (78 \<le> unat b \<and> unat b \<le> 90) \<or> (110 \<le> unat b \<and> unat b \<le> 122) then unat b - 13
     else unat b)"
  by (auto simp: rot13_byte_def word_le_nat_alt unat_word_ariths unat_sub_if')

lemma rot13_involution: "rot13_byte (rot13_byte b) = b"
proof -
  have "unat (rot13_byte (rot13_byte b)) = unat b"
    unfolding unat_rot13 [of "rot13_byte b"] unfolding unat_rot13 [of b] by auto
  then show ?thesis by (simp only: word_unat_eq_iff)
qed

text \<open>the device control code rotates letters by 13: applied twice it gives back the input, it keeps the
  length, and it refuses buffers of different lengths.\<close>

lemma control_involution:
  "MemfsControl rot13_code xs (length xs) = (STATUS_SUCCESS, Some (map rot13_byte xs)) \<and>
   MemfsControl rot13_code (map rot13_byte xs) (length xs) = (STATUS_SUCCESS, Some xs) \<and>
   (n = length xs \<or> MemfsControl rot13_code xs n = (STATUS_INVALID_PARAMETER, None)) \<and>
   (code = rot13_code \<or> MemfsControl code xs n = (STATUS_INVALID_DEVICE_REQUEST, None))"
proof -
  have "map rot13_byte (map rot13_byte xs) = xs" by (simp add: o_def rot13_involution)
  then show ?thesis by (simp add: MemfsControl_def)
qed

section \<open>The virtual disk file\<close>

text \<open>The node of \<open>ftj_disk.bin\<close> as \<open>MemfsCreateFunnel\<close> makes it: the capacity of the drive as size and
  allocation, and no memory block.\<close>

definition disk_node :: "file_info \<Rightarrow> u64 \<Rightarrow> file_node" where
  "disk_node i cap = \<lparr>FileName = ftj_disk_bin, FileInfo = i\<lparr>AllocationSize := cap, FileSize := cap\<rparr>,
     FileSecuritySize = 0, FileSecurity = None, FileData = None, RefCount = 1\<rparr>"

text \<open>the size handler does not protect the disk file: making it smaller succeeds, and making it larger
  again writes zeros through the null data pointer (undefined behaviour).\<close>

lemma disk_file_regrow_undefined:
  assumes "small < large" "large \<le> cap" "small \<noteq> cap"
  shows "\<exists>info node'. SetFileSize h al mx small False (disk_node i cap) = Some (STATUS_SUCCESS, info, node') \<and>
    SetFileSize h al mx large False node' = None"
proof -
  have "\<not> cap < small" "\<not> cap < large" "small \<noteq> large" using assms by auto
  then have "SetFileSize h al mx small False (disk_node i cap) =
    Some (STATUS_SUCCESS, Some (i\<lparr>AllocationSize := cap, FileSize := small\<rparr>), set_info (\<lambda>i. i\<lparr>FileSize := small\<rparr>) (disk_node i cap))"
    using assms by (auto simp: SetFileSize_def SetFileSizeInternal_def disk_node_def MemfsFileNodeGetFileInfo_def)
  moreover have "SetFileSize h al mx large False (set_info (\<lambda>i. i\<lparr>FileSize := small\<rparr>) (disk_node i cap)) = None"
    using assms \<open>\<not> cap < large\<close> \<open>small \<noteq> large\<close> by (simp add: SetFileSize_def SetFileSizeInternal_def disk_node_def)
  ultimately show ?thesis by blast
qed

text \<open>overwriting the disk file makes it empty for good: every later read answers end of file, although the
  drive still holds the data.\<close>

lemma disk_file_overwrite_blocks_reads:
  "\<exists>info node'. MemfsOverwrite h al mx now attrs replace 0 (disk_node i cap) = Some (STATUS_SUCCESS, info, node') \<and>
     MemfsRead dev_read node' Buffer Offset Length ctrl = Some (STATUS_END_OF_FILE, Buffer, None, ctrl)"
  by (simp add: MemfsOverwrite_def SetFileSizeInternal_def SetAllocation_def LargeHeapRealloc_def disk_node_def
      MemfsRead_def Let_def)

section \<open>The heap configuration\<close>

text \<open>\<open>MemfsHeapConfigure\<close>; \<open>created\<close> tells whether \<open>HeapCreate\<close> succeeds if it is called.\<close>

definition MemfsHeapConfigure :: "win_heap \<Rightarrow> bool \<Rightarrow> nat \<Rightarrow> large_heap \<Rightarrow> ntstatus \<times> large_heap" where
  "MemfsHeapConfigure h created Alignment lh =
     (let LargeHeapAlignment = (case lh of None \<Rightarrow> 0 | Some (_, a) \<Rightarrow> a);
          (ok, lh') = LargeHeapInitialize h created LargeHeapAlignment lh in
      (if ok then STATUS_SUCCESS else STATUS_INSUFFICIENT_RESOURCES, lh'))"

text \<open>\<open>MemfsHeapConfigure\<close> passes the still unset static alignment instead of its argument: whatever is
  asked for, the large heap gets an alignment of 64 KiB.\<close>

lemma heap_alignment_ignored:
  "MemfsHeapConfigure h created Alignment None =
    (if created then STATUS_SUCCESS else STATUS_INSUFFICIENT_RESOURCES, Some (created, 65536))"
  by (simp add: MemfsHeapConfigure_def LargeHeapInitialize_def LargeHeapInitOnceF_def)

text \<open>Every later call gives the result of the first one: after a failure the heap is never created.\<close>

lemma heap_result_permanent:
  "MemfsHeapConfigure h created Alignment (Some (ok, a)) =
    (if ok then STATUS_SUCCESS else STATUS_INSUFFICIENT_RESOURCES, Some (ok, a))"
  by (simp add: MemfsHeapConfigure_def LargeHeapInitialize_def)

end
