(* ===== verification/Memfs_Disk.thy ===== *)
theory Memfs_Disk
  imports Memfs_File_Spec Drive
begin

text \<open>
  The file \<open>ftj_disk.bin\<close> (\<open>src/win_vdisk.cpp\<close>) on the controller of the engine (\<open>src/ftj_engine.cpp\<close>):
  the handlers \<open>Read\<close> and \<open>Write\<close> clamp a request to the file and pass it on.

  The locale \<open>block_device\<close> is what the handlers need of the drive; its interpretation \<open>ftj\<close> is the
  controller. The last property composes both layers: a write through the file system, and the read
  that follows.
\<close>

locale block_device =
  fixes dev_read :: "nat \<Rightarrow> u8 list option \<Rightarrow> nat \<Rightarrow> 'd \<Rightarrow> (bool \<times> u8 list option \<times> 'd) option"
    and dev_write :: "nat \<Rightarrow> u8 list option \<Rightarrow> nat \<Rightarrow> 'd \<Rightarrow> (bool \<times> 'd) option"
    and dev_inv :: "'d \<Rightarrow> bool"
    and dev_size :: "'d \<Rightarrow> nat"
  assumes read_total: "dev_inv d \<Longrightarrow> n \<le> length buf \<Longrightarrow>
      \<exists>ok buf' d'. dev_read off (Some buf) n d = Some (ok, Some buf', d') \<and> length buf' = length buf \<and> dev_inv d'"
    and write_total: "dev_inv d \<Longrightarrow> n \<le> length buf \<Longrightarrow>
      \<exists>ok d'. dev_write off (Some buf) n d = Some (ok, d') \<and> dev_inv d' \<and> dev_size d' = dev_size d"
    and write_refused: "dev_size d < off + n \<Longrightarrow> dev_write off src n d = Some (False, d)"
begin

lemma disk_read_total:
  fixes Length :: u32
  assumes "dev_inv d" "FileName node = ftj_disk_bin" "unat Offset + unat Length < 2 ^ 64" "unat Length \<le> length Buffer"
  shows "\<exists>st buf' n d'. MemfsRead dev_read node Buffer Offset Length (Some d) = Some (st, buf', n, Some d') \<and>
    length buf' = length Buffer \<and> dev_inv d'"
proof (cases "Offset < FileSize (FileInfo node)")
  case False
  then show ?thesis using assms(1,2) by (simp add: MemfsRead_def not_less)
next
  case True
  let ?E = "clamped_end Offset Length (FileSize (FileInfo node))"
  have "unat (?E - Offset) \<le> unat Length" using clamped_end_unat [OF assms(3) True] by simp
  moreover have "unat (ucast (?E - Offset) :: u32) \<le> unat (?E - Offset)"
    by (simp add: unsigned_ucast_eq take_bit_nat_less_eq_self)
  ultimately have "unat (ucast (?E - Offset) :: u32) \<le> length Buffer" using assms(4) by linarith
  from read_total [OF assms(1) this, of "unat Offset"] show ?thesis
    using True assms(2) by (auto simp: MemfsRead_def Let_def not_le split: if_splits)
qed

lemma disk_write_total:
  fixes Length :: u32
  assumes "dev_inv d" "FileName node = ftj_disk_bin" "unat (FileSize (FileInfo node)) = dev_size d"
    and "unat Offset + unat Length < 2 ^ 64" "dev_size d + unat Length < 2 ^ 64" "unat Length \<le> length Buffer"
  shows "\<exists>st n info node' d'. MemfsWrite h al mx now dev_write node Buffer Offset Length toEnd constrained want (Some d) =
      Some (st, n, info, node', Some d') \<and> dev_inv d' \<and> dev_size d' = dev_size d \<and>
      FileSize (FileInfo node') = FileSize (FileInfo node) \<and> FileName node' = ftj_disk_bin"
proof (cases "constrained \<and> FileSize (FileInfo node) \<le> Offset")
  case True
  then show ?thesis using assms(1,2) by (simp add: MemfsWrite_def)
next
  case False
  let ?fs = "FileSize (FileInfo node)"
  define O' where "O' = (if \<not> constrained \<and> toEnd then ?fs else Offset)"
  define n where "n = (ucast (clamped_end O' Length ?fs - O') :: u32)"
  have w: "\<exists>ok d'. dev_write (unat O') (Some Buffer) (unat n) d = Some (ok, d') \<and> dev_inv d' \<and> dev_size d' = dev_size d"
  proof (cases "O' < ?fs")
    case True
    have "unat O' + unat Length < 2 ^ 64" using assms(3,4,5) by (simp add: O'_def)
    then have "unat (clamped_end O' Length ?fs - O') \<le> unat Length" using clamped_end_unat [OF _ True] by simp
    moreover have "unat n \<le> unat (clamped_end O' Length ?fs - O')"
      unfolding n_def by (simp add: unsigned_ucast_eq take_bit_nat_less_eq_self)
    ultimately have "unat n \<le> length Buffer" using assms(6) by linarith
    then show ?thesis using write_total [OF assms(1)] by blast
  next
    case False
    then have le: "unat ?fs \<le> unat O'" by (simp add: word_less_nat_alt not_less)
    show ?thesis
    proof (cases "unat n = 0")
      case True
      then show ?thesis using write_total [OF assms(1), of 0 Buffer] by simp
    next
      case False
      then have "dev_size d < unat O' + unat n" using le assms(3) by linarith
      then show ?thesis using write_refused assms(1) by blast
    qed
  qed
  then obtain ok d' where d': "dev_write (unat O') (Some Buffer) (unat n) d = Some (ok, d')" "dev_inv d'" "dev_size d' = dev_size d"
    by blast
  have "\<exists>st m info node'. MemfsWrite h al mx now dev_write node Buffer Offset Length toEnd constrained want (Some d) =
      Some (st, m, info, node', Some d') \<and> FileSize (FileInfo node') = ?fs \<and> FileName node' = ftj_disk_bin"
    using False assms(2) d'(1)
    by (cases ok) (auto simp: MemfsWrite_def O'_def [symmetric] n_def [symmetric] Let_def)
  then show ?thesis using d'(2,3) by blast
qed

end

interpretation ftj: block_device "\<lambda>off buf n c. Read c off buf n" "\<lambda>off buf n c. Write c off buf n"
  "\<lambda>c. ctrl_safe True c \<and> capacity c = cap" capacity
proof unfold_locales
  fix d :: ctrl and n off :: nat and buf :: "u8 list"
  assume a: "ctrl_safe True d \<and> capacity d = cap" "n \<le> length buf"
  have fits: "b = buf \<Longrightarrow> n \<le> length b" for b using a(2) by simp
  show "\<exists>ok d'. Write d off (Some buf) n = Some (ok, d') \<and> (ctrl_safe True d' \<and> capacity d' = cap) \<and> capacity d' = capacity d"
    using Write_safe [of True d "Some buf" n off] a by auto
  obtain ok dest' d' where r: "Read d off (Some buf) n = Some (ok, dest', d')" "only_counters d d'"
    "map_option length dest' = map_option length (Some buf)"
    using Read_safe_lemma [of True d "Some buf" n off] a by auto
  obtain buf' where b: "dest' = Some buf'" "length buf' = length buf" using r(3) by (cases dest') auto
  have "ctrl_safe True d'" using r(2) a by (simp add: only_counters_safe)
  moreover have "capacity d' = capacity d" using r(2) by (simp add: only_counters_def)
  ultimately show "\<exists>ok buf' d'. Read d off (Some buf) n = Some (ok, Some buf', d') \<and> length buf' = length buf \<and>
      ctrl_safe True d' \<and> capacity d' = cap" using r(1) b a(1) by blast
next
  fix d :: ctrl and off n :: nat and src :: "u8 list option"
  assume "capacity d < off + n"
  then show "Write d off src n = Some (False, d)" by (auto simp: Write_def split: option.splits)
qed

section \<open>The guarantees\<close>

abbreviation disk_file :: "file_node \<Rightarrow> ctrl \<Rightarrow> bool" where
  "disk_file node c \<equiv> FileName node = ftj_disk_bin \<and> unat (FileSize (FileInfo node)) = capacity c"

text \<open>whatever offset, length and flags the kernel passes, a write to the disk file is defined, never
  reaches outside the drive's buffers, keeps the drive safe and the size of the file; a length that
  wraps around for a start beyond the end is refused by the controller.\<close>

lemma disk_file_write_defined:
  fixes Length :: u32
  assumes "ctrl_safe True c" "disk_file node c"
    and "unat Offset + unat Length < 2 ^ 64" "capacity c + unat Length < 2 ^ 64" "unat Length \<le> length Buffer"
  shows "\<exists>st n info node' c'. MemfsWrite h al mx now (\<lambda>off buf n c. Write c off buf n) node Buffer Offset Length toEnd constrained want (Some c) =
      Some (st, n, info, node', Some c') \<and> ctrl_safe True c' \<and> disk_file node' c'"
  using ftj.disk_write_total [where d = c and cap = "capacity c" and node = node and Offset = Offset and Length = Length and
    Buffer = Buffer and h = h and al = al and mx = mx and now = now and toEnd = toEnd and constrained = constrained and
    want = want] assms by fastforce

text \<open>C23: through the file system and the engine: what a write to \<open>ftj_disk.bin\<close> stores, a read of the same range
  returns, on a healthy drive with a reserve of free pages and wear to spare.\<close>

theorem disk_file_round_trip:
  fixes Length :: u32
  assumes "ctrl_ok c" "disk_file node c" "unat Offset + unat Length \<le> capacity c" "capacity c < 2 ^ 64" "Length \<noteq> 0"
    and "unat Length \<le> length Buffer" "unat Length \<le> length Dest"
    and "pages_spanned (unat Offset) (unat Length) + gc_low_watermark (meta c) \<le> free_count (meta c)"
    and "wear_slack (pages_spanned (unat Offset) (unat Length)) (half_select_disturb_threshold (physics_cfg c)) (meta c)"
  shows "\<exists>info node' c1 c2.
    MemfsWrite h al mx now (\<lambda>off buf n c. Write c off buf n) node Buffer Offset Length False constrained want (Some c) =
      Some (STATUS_SUCCESS, Some Length, info, node', Some c1) \<and>
    MemfsRead (\<lambda>off buf n c. Read c off buf n) node' Dest Offset Length (Some c1) =
      Some (STATUS_SUCCESS, take (unat Length) Buffer @ drop (unat Length) Dest, Some Length, Some c2)"
proof -
  let ?o = "unat Offset" and ?n = "unat Length"
  have n0: "0 < ?n" using assms(5) by (simp add: unat_gt_0)
  obtain c1 c2 where rw: "Write c ?o (Some Buffer) ?n = Some (True, c1)"
    "Read c1 ?o (Some Dest) ?n = Some (True, Some (take ?n Buffer @ drop ?n Dest), c2)"
    using read_after_write_lemma [OF assms(1,6,7,3,8,9)] by blast
  have lt: "Offset < FileSize (FileInfo node)" using assms(2,3) n0 by (simp add: word_less_nat_alt)
  have "unat (clamped_end Offset Length (FileSize (FileInfo node)) - Offset) = ?n"
    using clamped_end_unat [OF _ lt] assms(2-4) by simp
  then have n: "ucast (clamped_end Offset Length (FileSize (FileInfo node)) - Offset) = Length"
    by (metis ucast_ulong unat_ulong word_unat_eq_iff)
  define node' where "node' = (if want then set_info (\<lambda>i. i\<lparr>LastWriteTime := now, ChangeTime := now\<rparr>) node else node)"
  have node': "FileName node' = ftj_disk_bin" "FileSize (FileInfo node') = FileSize (FileInfo node)"
    using assms(2) by (simp_all add: node'_def)
  have "\<exists>info. MemfsWrite h al mx now (\<lambda>off buf n c. Write c off buf n) node Buffer Offset Length False constrained want (Some c) =
      Some (STATUS_SUCCESS, Some Length, info, node', Some c1)"
    using assms(2) lt n rw(1) by (cases want) (simp_all add: MemfsWrite_def node'_def not_le Let_def)
  moreover have "MemfsRead (\<lambda>off buf n c. Read c off buf n) node' Dest Offset Length (Some c1) =
      Some (STATUS_SUCCESS, take ?n Buffer @ drop ?n Dest, Some Length, Some c2)"
    using node' lt n rw(2) by (simp add: MemfsRead_def not_le Let_def)
  ultimately show ?thesis by blast
qed

theorem disk_file_round_trip_witness:
  "ctrl_ok drive_1MiB \<and> disk_file (disk_node (FileInfo empty_file) 0x100000) drive_1MiB \<and>
   (\<exists>info node' c1 c2.
    MemfsWrite plain_heap 65536 0x1000000 5 (\<lambda>off buf n c. Write c off buf n) (disk_node (FileInfo empty_file) 0x100000)
      [1, 2, 3, 4] 4094 4 False False True (Some drive_1MiB) = Some (STATUS_SUCCESS, Some 4, info, node', Some c1) \<and>
    MemfsRead (\<lambda>off buf n c. Read c off buf n) node' [0, 0, 0, 0, 9] 4094 4 (Some c1) =
      Some (STATUS_SUCCESS, [1, 2, 3, 4, 9], Some 4, Some c2))"
proof -
  have h: "ctrl_ok drive_1MiB" "disk_file (disk_node (FileInfo empty_file) 0x100000) drive_1MiB"
    "unat (4094 :: u64) + unat (4 :: u32) \<le> capacity drive_1MiB" "capacity drive_1MiB < 2 ^ 64" "(4 :: u32) \<noteq> 0"
    "unat (4 :: u32) \<le> length [1, 2, 3, 4 :: u8]" "unat (4 :: u32) \<le> length [0, 0, 0, 0, 9 :: u8]"
    "pages_spanned (unat (4094 :: u64)) (unat (4 :: u32)) + gc_low_watermark (meta drive_1MiB) \<le> free_count (meta drive_1MiB)"
    "wear_slack (pages_spanned (unat (4094 :: u64)) (unat (4 :: u32))) (half_select_disturb_threshold (physics_cfg drive_1MiB)) (meta drive_1MiB)"
    using drive_1MiB_ok drive_1MiB_slack by (simp_all add: disk_node_def drive_1MiB_facts pages_spanned_def)
  have t: "take (unat (4 :: u32)) [1, 2, 3, 4 :: u8] @ drop (unat (4 :: u32)) [0, 0, 0, 0, 9 :: u8] = [1, 2, 3, 4, 9]" by simp
  from disk_file_round_trip [OF h, where h = plain_heap and al = 65536 and mx = "0x1000000" and now = 5 and constrained = False and
      want = True]
  show ?thesis unfolding t using h(1,2) by blast
qed

end
