(* ===== verification/Memfs_Map.thy ===== *)
theory Memfs_Map
  imports Memfs_Names
begin

text \<open>
  \<open>std::map\<close> as \<open>src/win_vdisk.cpp\<close> uses it: entries in the order of a comparison function, with search,
  insertion that keeps an equivalent key, and erasure. The comparison is an argument.

  The locale \<open>keyed_map\<close> states when this is a finite map: the comparison is the order of a key, on the
  admissible names. Its interpretation \<open>names\<close> is the comparison of file names.
\<close>

section \<open>The container\<close>

definition lower_bound :: "('k \<Rightarrow> 'k \<Rightarrow> bool) \<Rightarrow> 'k \<Rightarrow> ('k \<times> 'v) list \<Rightarrow> ('k \<times> 'v) list" where
  "lower_bound lt k m = dropWhile (\<lambda>e. lt (fst e) k) m"

definition upper_bound :: "('k \<Rightarrow> 'k \<Rightarrow> bool) \<Rightarrow> 'k \<Rightarrow> ('k \<times> 'v) list \<Rightarrow> ('k \<times> 'v) list" where
  "upper_bound lt k m = dropWhile (\<lambda>e. \<not> lt k (fst e)) m"

definition map_find :: "('k \<Rightarrow> 'k \<Rightarrow> bool) \<Rightarrow> 'k \<Rightarrow> ('k \<times> 'v) list \<Rightarrow> 'v option" where
  "map_find lt k m =
     (case lower_bound lt k m of [] \<Rightarrow> None | e # es \<Rightarrow> if lt k (fst e) then None else Some (snd e))"

definition map_insert :: "('k \<Rightarrow> 'k \<Rightarrow> bool) \<Rightarrow> 'k \<Rightarrow> 'v \<Rightarrow> ('k \<times> 'v) list \<Rightarrow> ('k \<times> 'v) list \<times> bool" where
  "map_insert lt k v m =
     (case map_find lt k m of
        Some w \<Rightarrow> (m, False)
      | None \<Rightarrow> (takeWhile (\<lambda>e. lt (fst e) k) m @ (k, v) # lower_bound lt k m, True))"

definition map_erase :: "('k \<Rightarrow> 'k \<Rightarrow> bool) \<Rightarrow> 'k \<Rightarrow> ('k \<times> 'v) list \<Rightarrow> ('k \<times> 'v) list \<times> bool" where
  "map_erase lt k m =
     (case map_find lt k m of
        Some w \<Rightarrow> (takeWhile (\<lambda>e. lt (fst e) k) m @ tl (lower_bound lt k m), True)
      | None \<Rightarrow> (m, False))"

lemma option_eqI: "(\<And>w. (a = Some w) = (b = Some w)) \<Longrightarrow> a = b"
  by (cases a; cases b) auto

section \<open>A comparison that is the order of a key\<close>

locale keyed_map =
  fixes lt :: "'k \<Rightarrow> 'k \<Rightarrow> bool"
    and key :: "'k \<Rightarrow> 'o :: linorder"
    and adm :: "'k \<Rightarrow> bool"
  assumes lt_key: "adm a \<Longrightarrow> adm b \<Longrightarrow> lt a b \<longleftrightarrow> key a < key b"
begin

definition sorted_map :: "('k \<times> 'v) list \<Rightarrow> bool" where
  "sorted_map m \<longleftrightarrow> sorted_wrt (\<lambda>e f. key (fst e) < key (fst f)) m \<and> (\<forall>e \<in> set m. adm (fst e))"

definition map_abs :: "('k \<times> 'v) list \<Rightarrow> 'o \<Rightarrow> 'v option" where
  "map_abs m = map_of (map (\<lambda>(k, v). (key k, v)) m)"

lemma sorted_Nil [simp]: "sorted_map []"
  by (simp add: sorted_map_def)

lemma sorted_Cons: "sorted_map (e # m) \<longleftrightarrow> adm (fst e) \<and> sorted_map m \<and> (\<forall>f \<in> set m. key (fst e) < key (fst f))"
  by (auto simp: sorted_map_def)

lemma sorted_append:
  "sorted_map (m @ m') \<longleftrightarrow> sorted_map m \<and> sorted_map m' \<and> (\<forall>e \<in> set m. \<forall>f \<in> set m'. key (fst e) < key (fst f))"
  by (auto simp: sorted_map_def sorted_wrt_append)

lemma abs_None: "map_abs m o' = None \<longleftrightarrow> (\<forall>e \<in> set m. key (fst e) \<noteq> o')"
  by (force simp: map_abs_def map_of_eq_None_iff)

lemma abs_Some:
  assumes "sorted_map m"
  shows "map_abs m o' = Some v \<longleftrightarrow> (\<exists>k. (k, v) \<in> set m \<and> key k = o')"
  using assms
proof (induction m)
  case (Cons e m)
  obtain a b where e: "e = (a, b)" by (cases e)
  have IH: "map_abs m o' = Some v \<longleftrightarrow> (\<exists>k. (k, v) \<in> set m \<and> key k = o')"
    and gt: "\<forall>f \<in> set m. key a < key (fst f)" using Cons by (simp_all add: sorted_Cons e)
  have step: "map_abs (e # m) o' = (if key a = o' then Some b else map_abs m o')" by (simp add: map_abs_def e)
  show ?case
  proof (cases "key a = o'")
    case True
    have "\<not> (\<exists>k. (k, v) \<in> set m \<and> key k = o')" using gt True by fastforce
    then show ?thesis using True step e by auto
  next
    case False
    then show ?thesis using step IH e by auto
  qed
qed (simp add: map_abs_def)

text \<open>A sorted table splits at every admissible key.\<close>

lemma split_at:
  assumes "sorted_map m" "adm k"
  shows "takeWhile (\<lambda>e. lt (fst e) k) m = filter (\<lambda>e. key (fst e) < key k) m \<and>
    lower_bound lt k m = filter (\<lambda>e. key k \<le> key (fst e)) m \<and>
    upper_bound lt k m = filter (\<lambda>e. key k < key (fst e)) m"
  using assms(1)
proof (induction m)
  case Nil
  then show ?case by (simp add: lower_bound_def upper_bound_def)
next
  case (Cons e m)
  have adm: "adm (fst e)" and rest: "sorted_map m" and gt: "\<forall>f \<in> set m. key (fst e) < key (fst f)"
    using Cons.prems by (simp_all add: sorted_Cons)
  have e: "lt (fst e) k \<longleftrightarrow> key (fst e) < key k" "lt k (fst e) \<longleftrightarrow> key k < key (fst e)"
    using lt_key adm assms(2) by blast+
  have all: "filter (\<lambda>f. key f' \<le> key (fst f)) m = m" "filter (\<lambda>f. key f' < key (fst f)) m = m"
    "filter (\<lambda>f. key (fst f) < key f') m = []" if "key f' \<le> key (fst e)" for f'
    using gt that by (auto simp: filter_id_conv filter_empty_conv)
  show ?case
    using Cons.IH [OF rest] e all [of k] by (auto simp: lower_bound_def upper_bound_def)
qed

lemma lower_split:
  assumes "sorted_map m" "adm k"
  shows "(case lower_bound lt k m of [] \<Rightarrow> map_abs m (key k) = None
    | e # es \<Rightarrow> adm (fst e) \<and> (if lt k (fst e) then map_abs m (key k) = None
       else map_abs m (key k) = Some (snd e) \<and> key (fst e) = key k))"
proof (cases "lower_bound lt k m")
  case Nil
  then have "\<forall>e \<in> set m. \<not> key k \<le> key (fst e)" using split_at [OF assms] by (simp add: filter_empty_conv)
  then show ?thesis using Nil by (auto simp: abs_None)
next
  case (Cons e es)
  then have f: "filter (\<lambda>e. key k \<le> key (fst e)) m = e # es" using split_at [OF assms] by simp
  then have "e \<in> set (filter (\<lambda>e. key k \<le> key (fst e)) m)" by simp
  then have e: "e \<in> set m" "key k \<le> key (fst e)" "adm (fst e)" using assms(1) by (auto simp: sorted_map_def)
  have "sorted_map (filter (\<lambda>e. key k \<le> key (fst e)) m)"
    using assms(1) by (auto simp: sorted_map_def sorted_wrt_filter)
  then have gt: "\<forall>x \<in> set es. key (fst e) < key (fst x)" unfolding f by (simp add: sorted_Cons)
  show ?thesis
  proof (cases "lt k (fst e)")
    case True
    then have "key k < key (fst e)" using lt_key assms(2) e(3) by blast
    then have "key (fst x) \<noteq> key k" if "x \<in> set m" for x
    proof (cases "key k \<le> key (fst x)")
      case True
      then have "x \<in> set (e # es)" using that unfolding f [symmetric] by simp
      then show ?thesis using gt \<open>key k < key (fst e)\<close> by auto
    qed auto
    then show ?thesis using True Cons e(3) by (simp add: abs_None)
  next
    case False
    then have "key (fst e) = key k" using lt_key assms(2) e(2,3) by auto
    moreover have "map_abs m (key (fst e)) = Some (snd e)"
      using e(1) by (subst abs_Some [OF assms(1)]) (metis prod.collapse)
    ultimately show ?thesis using False Cons e(3) by simp
  qed
qed

lemma find_abs:
  assumes "sorted_map m" "adm k"
  shows "map_find lt k m = map_abs m (key k)"
  using lower_split [OF assms] by (simp add: map_find_def split: list.splits if_splits)

lemma mem_split:
  assumes "sorted_map m" "adm k"
  shows "m = filter (\<lambda>e. key (fst e) < key k) m @ filter (\<lambda>e. key k \<le> key (fst e)) m"
proof -
  have "m = takeWhile (\<lambda>e. lt (fst e) k) m @ lower_bound lt k m"
    by (simp add: lower_bound_def)
  then show ?thesis using split_at [OF assms] by simp
qed

lemma insert_abs:
  assumes "sorted_map m" "adm k" "map_insert lt k v m = (m', inserted)"
  shows "sorted_map m' \<and> inserted = (map_abs m (key k) = None) \<and>
    map_abs m' = (if inserted then (map_abs m)(key k \<mapsto> v) else map_abs m) \<and>
    length m' = length m + (if inserted then 1 else 0) \<and> set m' = (if inserted then insert (k, v) (set m) else set m)"
proof (cases "map_abs m (key k)")
  case (Some w)
  then show ?thesis using assms find_abs [OF assms(1,2)] by (simp add: map_insert_def)
next
  case None
  define L H where "L = filter (\<lambda>e. key (fst e) < key k) m" and "H = filter (\<lambda>e. key k \<le> key (fst e)) m"
  have r: "m' = L @ (k, v) # H" "inserted"
    using assms(3) None find_abs [OF assms(1,2)] split_at [OF assms(1,2)] by (auto simp: map_insert_def L_def H_def)
  have ne: "\<forall>e \<in> set m. key (fst e) \<noteq> key k" using None by (simp add: abs_None)
  have m: "m = L @ H" unfolding L_def H_def by (rule mem_split [OF assms(1,2)])
  have hi: "key k < key (fst e)" if "e \<in> set H" for e using ne that by (auto simp: H_def less_le)
  have lo: "key (fst e) < key k" if "e \<in> set L" for e using that by (auto simp: L_def)
  have cross: "key (fst e) < key (fst f)" if "e \<in> set L" "f \<in> set H" for e f
    using lo [OF that(1)] hi [OF that(2)] by (rule less_trans)
  have parts: "sorted_map L" "sorted_map H" using assms(1) by (auto simp: L_def H_def sorted_map_def sorted_wrt_filter)
  have srt: "sorted_map m'" unfolding r(1)
    using parts assms(2) hi lo cross by (simp add: sorted_append sorted_Cons)
  have set: "set m' = insert (k, v) (set m)" unfolding r(1) using m by (metis list.simps(15) set_append Un_insert_right)
  have "map_abs m' o' = ((map_abs m)(key k \<mapsto> v)) o'" for o'
  proof (rule option_eqI)
    fix w
    show "(map_abs m' o' = Some w) = (((map_abs m)(key k \<mapsto> v)) o' = Some w)"
      using ne by (auto simp: abs_Some [OF srt] abs_Some [OF assms(1)] set)
  qed
  moreover have "length m' = length m + 1" unfolding r(1) using arg_cong [OF m, of length] by simp
  ultimately show ?thesis using srt r(2) None set by auto
qed

lemma erase_abs:
  assumes "sorted_map m" "adm k" "map_erase lt k m = (m', erased)"
  shows "sorted_map m' \<and> erased = (map_abs m (key k) \<noteq> None) \<and> map_abs m' = (map_abs m)(key k := None) \<and>
    length m = length m' + (if erased then 1 else 0) \<and> set m' = {e \<in> set m. key (fst e) \<noteq> key k}"
proof (cases "map_abs m (key k)")
  case None
  then have "map_find lt k m = None" using find_abs [OF assms(1,2)] by simp
  then have "m' = m" "\<not> erased" using assms(3) by (simp_all add: map_erase_def)
  moreover have "(map_abs m)(key k := None) = map_abs m" using None by (rule fun_upd_idem)
  moreover have "\<forall>e \<in> set m. key (fst e) \<noteq> key k" using None by (simp add: abs_None)
  ultimately show ?thesis using assms(1) None by auto
next
  case (Some w)
  define L H where "L = filter (\<lambda>e. key (fst e) < key k) m" and "H = filter (\<lambda>e. key k \<le> key (fst e)) m"
  have m: "m = L @ H" unfolding L_def H_def by (rule mem_split [OF assms(1,2)])
  have r: "m' = L @ tl H" "erased"
    using assms(3) Some find_abs [OF assms(1,2)] split_at [OF assms(1,2)] by (auto simp: map_erase_def L_def H_def)
  obtain e es where hi: "H = e # es" "key (fst e) = key k"
  proof (cases "lower_bound lt k m")
    case Nil
    then show ?thesis using lower_split [OF assms(1,2)] Some by simp
  next
    case (Cons e es)
    then show ?thesis
      using that [of e es] lower_split [OF assms(1,2)] Some split_at [OF assms(1,2)] by (auto simp: H_def split: if_splits)
  qed
  have srt: "sorted_map (L @ e # es)" using assms(1) m hi(1) by simp
  then have srt': "sorted_map m'" unfolding r(1) hi(1) by (auto simp: sorted_append sorted_Cons)
  have "\<forall>f \<in> set L. key (fst f) \<noteq> key k" by (auto simp: L_def)
  moreover have "\<forall>f \<in> set es. key (fst f) \<noteq> key k" using srt hi(2) by (auto simp: sorted_append sorted_Cons)
  ultimately have set: "set m' = {f \<in> set m. key (fst f) \<noteq> key k}"
    using hi(2) unfolding r(1) m hi(1) by auto
  have "map_abs m' o' = ((map_abs m)(key k := None)) o'" for o'
  proof (rule option_eqI)
    fix w
    show "(map_abs m' o' = Some w) = (((map_abs m)(key k := None)) o' = Some w)"
      by (auto simp: abs_Some [OF srt'] abs_Some [OF assms(1)] set)
  qed
  moreover have "length m = length m' + 1" unfolding r(1) using arg_cong [OF m, of length] hi(1) by simp
  ultimately show ?thesis using srt' r(2) Some set by auto
qed

end

interpretation names: keyed_map "file_node_less os ci" "name_key ci" "name_ok ci"
  by unfold_locales (rule file_node_less_key)

end
