(* ===== verification/Memfs_Table.thy ===== *)
theory Memfs_Table
  imports Memfs_Map Memfs_File_Spec
begin

text \<open>
  The file system state of \<open>src/win_vdisk.cpp\<close>: the nodes, by address, and the table from names to nodes,
  with the functions on them (\<open>MemfsFileNodeMap...\<close>) and the handlers that open, create, list, rename
  and delete. A handler is \<open>None\<close> when it dereferences a freed node or overruns a name buffer.

  The key of a table entry is the node's own \<open>FileName\<close>; the code changes that name only while the node
  is out of the table, so the entry keeps a copy of it here.

  Not under \<open>src\<close>, and so fields of the argument \<open>env\<close>: the Windows comparison functions, \<open>FspPathSuffix\<close>
  (which splits off the last component of a path; \<open>FspPathCombine\<close> undoes the split in place), the heap,
  the clock during the call, and whether \<open>malloc\<close> and the insertion into the table get their memory.
\<close>

section \<open>State and environment\<close>

abbreviation MEMFS_MAX_PATH :: nat where "MEMFS_MAX_PATH \<equiv> 512"

record env =
  fns :: locale_fns
  path_suffix :: "wstr \<Rightarrow> wstr \<times> wstr"
  win :: win_heap
  LargeHeapAlignment :: nat
  now :: u64
  node_malloc :: bool
  malloc :: "nat \<Rightarrow> bool"
  table_grows :: bool

record memfs =
  nodes :: "nat \<Rightarrow> file_node option"
  fresh_address :: nat
  next_index :: u64
  FileNodeMap :: "(wstr \<times> nat) list"
  CaseInsensitive :: bool
  MaxFileNodes :: u32
  MaxFileSize :: u32
  VolumeLabelLength :: u16
  VolumeLabel :: wstr

definition name_lt :: "env \<Rightarrow> memfs \<Rightarrow> wstr \<Rightarrow> wstr \<Rightarrow> bool" where
  "name_lt e s = file_node_less (fns e) (CaseInsensitive s)"

definition upd_node :: "nat \<Rightarrow> (file_node \<Rightarrow> file_node) \<Rightarrow> memfs \<Rightarrow> memfs" where
  "upd_node r f s = s\<lparr>nodes := (nodes s)(r := map_option f (nodes s r))\<rparr>"

section \<open>Nodes\<close>

definition zero_info :: file_info where
  "zero_info = \<lparr>FileAttributes = 0, AllocationSize = 0, FileSize = 0, CreationTime = 0, LastAccessTime = 0,
     LastWriteTime = 0, ChangeTime = 0, IndexNumber = 0\<rparr>"

text \<open>\<open>wcscpy_s\<close> ends the program when the name does not fit.\<close>

definition MemfsFileNodeCreate :: "env \<Rightarrow> wstr \<Rightarrow> memfs \<Rightarrow> (ntstatus \<times> nat option \<times> memfs) option" where
  "MemfsFileNodeCreate e name s =
     (if \<not> node_malloc e then Some (STATUS_INSUFFICIENT_RESOURCES, None, s)
      else if MEMFS_MAX_PATH \<le> length name then None
      else (let i = zero_info\<lparr>CreationTime := now e, LastAccessTime := now e, LastWriteTime := now e,
                  ChangeTime := now e, IndexNumber := next_index s\<rparr>;
                node = \<lparr>FileName = name, FileInfo = i, FileSecuritySize = 0, FileSecurity = None, FileData = None,
                  RefCount = 0\<rparr>;
                r = fresh_address s in
            Some (STATUS_SUCCESS, Some r, s\<lparr>nodes := (nodes s)(r \<mapsto> node), fresh_address := Suc r,
                                            next_index := next_index s + 1\<rparr>)))"

definition MemfsFileNodeDelete :: "nat \<Rightarrow> memfs \<Rightarrow> memfs" where
  "MemfsFileNodeDelete r s = s\<lparr>nodes := (nodes s)(r := None)\<rparr>"

definition MemfsFileNodeReference :: "nat \<Rightarrow> memfs \<Rightarrow> memfs option" where
  "MemfsFileNodeReference r s =
     (case nodes s r of None \<Rightarrow> None | Some n \<Rightarrow> Some (upd_node r (\<lambda>n. n\<lparr>RefCount := RefCount n + 1\<rparr>) s))"

definition MemfsFileNodeDereference :: "nat \<Rightarrow> memfs \<Rightarrow> memfs option" where
  "MemfsFileNodeDereference r s =
     (case nodes s r of
        None \<Rightarrow> None
      | Some n \<Rightarrow> if RefCount n - 1 = 0 then Some (MemfsFileNodeDelete r s)
                  else Some (upd_node r (\<lambda>n. n\<lparr>RefCount := RefCount n - 1\<rparr>) s))"

section \<open>The table\<close>

definition MemfsFileNodeMapCount :: "memfs \<Rightarrow> nat" where
  "MemfsFileNodeMapCount s = length (FileNodeMap s)"

definition MemfsFileNodeMapGet :: "env \<Rightarrow> wstr \<Rightarrow> memfs \<Rightarrow> nat option" where
  "MemfsFileNodeMapGet e name s = map_find (name_lt e s) name (FileNodeMap s)"

definition MemfsFileNodeMapGetParent :: "env \<Rightarrow> wstr \<Rightarrow> memfs \<Rightarrow> (ntstatus + nat) option" where
  "MemfsFileNodeMapGetParent e name s =
     (if MEMFS_MAX_PATH \<le> length name then None
      else case MemfsFileNodeMapGet e (fst (path_suffix e name)) s of
        None \<Rightarrow> Some (Inl STATUS_OBJECT_PATH_NOT_FOUND)
      | Some r \<Rightarrow> (case nodes s r of
            None \<Rightarrow> None
          | Some n \<Rightarrow> if FileAttributes (FileInfo n) AND FILE_ATTRIBUTE_DIRECTORY = 0
                      then Some (Inl STATUS_NOT_A_DIRECTORY) else Some (Inr r)))"

definition MemfsFileNodeMapTouchParent :: "env \<Rightarrow> wstr \<Rightarrow> memfs \<Rightarrow> memfs option" where
  "MemfsFileNodeMapTouchParent e name s =
     (if name = [BSLASH] then Some s
      else case MemfsFileNodeMapGetParent e name s of
        None \<Rightarrow> None
      | Some (Inl st) \<Rightarrow> Some s
      | Some (Inr p) \<Rightarrow>
          Some (upd_node p (set_info (\<lambda>i. i\<lparr>LastAccessTime := now e, LastWriteTime := now e, ChangeTime := now e\<rparr>)) s))"

definition MemfsFileNodeMapInsert :: "env \<Rightarrow> nat \<Rightarrow> memfs \<Rightarrow> (ntstatus \<times> bool \<times> memfs) option" where
  "MemfsFileNodeMapInsert e r s = do {
     n \<leftarrow> nodes s r;
     if \<not> table_grows e then Some (STATUS_INSUFFICIENT_RESOURCES, False, s)
     else (let (m, inserted) = map_insert (name_lt e s) (FileName n) r (FileNodeMap s) in
       if inserted then do {
         s1 \<leftarrow> MemfsFileNodeReference r (s\<lparr>FileNodeMap := m\<rparr>);
         s2 \<leftarrow> MemfsFileNodeMapTouchParent e (FileName n) s1;
         Some (STATUS_SUCCESS, True, s2)
       }
       else Some (STATUS_SUCCESS, False, s))
   }"

definition MemfsFileNodeMapRemove :: "env \<Rightarrow> nat \<Rightarrow> memfs \<Rightarrow> memfs option" where
  "MemfsFileNodeMapRemove e r s = do {
     n \<leftarrow> nodes s r;
     let (m, erased) = map_erase (name_lt e s) (FileName n) (FileNodeMap s);
     if erased then do {
       s1 \<leftarrow> MemfsFileNodeMapTouchParent e (FileName n) (s\<lparr>FileNodeMap := m\<rparr>);
       MemfsFileNodeDereference r s1
     }
     else Some s
   }"

text \<open>\<open>0 == MemfsFileNameCompare(Remain, -1, FileNode->FileName, -1, ...)\<close>: the directory of a node.\<close>

definition is_parent_name :: "env \<Rightarrow> memfs \<Rightarrow> wstr \<Rightarrow> wstr \<Rightarrow> bool" where
  "is_parent_name e s child dir \<longleftrightarrow>
     MemfsFileNameCompare (fns e) (fst (path_suffix e child)) (-1) dir (-1) (CaseInsensitive s) = 0"

definition MemfsFileNodeMapHasChild :: "env \<Rightarrow> nat \<Rightarrow> memfs \<Rightarrow> bool option" where
  "MemfsFileNodeMapHasChild e r s = do {
     n \<leftarrow> nodes s r;
     (case upper_bound (name_lt e s) (FileName n) (FileNodeMap s) of
        [] \<Rightarrow> Some False
      | (k, r2) # _ \<Rightarrow> do { n2 \<leftarrow> nodes s r2; Some (is_parent_name e s (FileName n2) (FileName n)) })
   }"

text \<open>Listing a directory: the loop from an iterator on, and the function, resuming after \<open>PrevFileName0\<close>.\<close>

fun enum_children :: "env \<Rightarrow> memfs \<Rightarrow> file_node \<Rightarrow> (file_node \<Rightarrow> 'c \<Rightarrow> bool \<times> 'c) \<Rightarrow> (wstr \<times> nat) list \<Rightarrow> 'c \<Rightarrow>
   (bool \<times> 'c) option" where
  "enum_children e s n EnumFn [] ctx = Some (True, ctx)"
| "enum_children e s n EnumFn ((k, r2) # es) ctx = do {
     n2 \<leftarrow> nodes s r2;
     if \<not> MemfsFileNameHasPrefix (fns e) (FileName n2) (FileName n) (CaseInsensitive s) then Some (True, ctx)
     else if is_parent_name e s (FileName n2) (FileName n) then
       (let (continue, ctx') = EnumFn n2 ctx in
        if \<not> continue then Some (False, ctx') else enum_children e s n EnumFn es ctx')
     else enum_children e s n EnumFn es ctx
   }"

definition MemfsFileNodeMapEnumerateChildren :: "env \<Rightarrow> nat \<Rightarrow> wstr option \<Rightarrow> (file_node \<Rightarrow> 'c \<Rightarrow> bool \<times> 'c) \<Rightarrow> memfs \<Rightarrow> 'c \<Rightarrow>
   (bool \<times> 'c) option" where
  "MemfsFileNodeMapEnumerateChildren e r PrevFileName0 EnumFn s ctx = do {
     n \<leftarrow> nodes s r;
     let start = (case PrevFileName0 of
         None \<Rightarrow> FileName n
       | Some prev \<Rightarrow> FileName n @ (if FileName n = [BSLASH] then [] else [BSLASH]) @ prev);
     if PrevFileName0 \<noteq> None \<and> MEMFS_MAX_PATH + 256 \<le> length start then None
     else enum_children e s n EnumFn (upper_bound (name_lt e s) start (FileNodeMap s)) ctx
   }"

text \<open>\<open>MemfsFileNodeMapEnumerateDescendants\<close> with \<open>MemfsFileNodeMapEnumerateFn\<close>: the addresses, each referenced.\<close>

fun enum_descendants :: "env \<Rightarrow> file_node \<Rightarrow> (wstr \<times> nat) list \<Rightarrow> nat list \<Rightarrow> memfs \<Rightarrow> (nat list \<times> memfs) option" where
  "enum_descendants e n [] found s = Some (found, s)"
| "enum_descendants e n ((k, r2) # es) found s = do {
     n2 \<leftarrow> nodes s r2;
     if \<not> MemfsFileNameHasPrefix (fns e) (FileName n2) (FileName n) (CaseInsensitive s) then Some (found, s)
     else do {
       s1 \<leftarrow> MemfsFileNodeReference r2 s;
       enum_descendants e n es (found @ [r2]) s1
     }
   }"

definition MemfsFileNodeMapEnumerateDescendants :: "env \<Rightarrow> nat \<Rightarrow> memfs \<Rightarrow> (nat list \<times> memfs) option" where
  "MemfsFileNodeMapEnumerateDescendants e r s = do {
     n \<leftarrow> nodes s r;
     enum_descendants e n (lower_bound (name_lt e s) (FileName n) (FileNodeMap s)) [] s
   }"

fun MemfsFileNodeMapEnumerateFree :: "nat list \<Rightarrow> memfs \<Rightarrow> memfs option" where
  "MemfsFileNodeMapEnumerateFree [] s = Some s"
| "MemfsFileNodeMapEnumerateFree (r # rs) s = do {
     s1 \<leftarrow> MemfsFileNodeDereference r s;
     MemfsFileNodeMapEnumerateFree rs s1
   }"

text \<open>\<open>MemfsFileNodeMapDelete\<close> deletes the nodes of the table, whatever their counts; deleting a freed node is
  undefined.\<close>

fun delete_entries :: "(wstr \<times> nat) list \<Rightarrow> memfs \<Rightarrow> memfs option" where
  "delete_entries [] s = Some s"
| "delete_entries ((k, r) # es) s =
     (if nodes s r = None then None else delete_entries es (MemfsFileNodeDelete r s))"

definition MemfsFileNodeMapDelete :: "memfs \<Rightarrow> memfs option" where
  "MemfsFileNodeMapDelete s = map_option (\<lambda>s'. s'\<lparr>FileNodeMap := []\<rparr>) (delete_entries (FileNodeMap s) s)"

end
