(* ===== verification/Memfs_Ops.thy ===== *)
theory Memfs_Ops
  imports Memfs_Table
begin

text \<open>
  The handlers of \<open>src/win_vdisk.cpp\<close> that act on the table: the volume, opening and creating, cleanup and
  close, deletion, renaming and directory listings.
\<close>

section \<open>The volume\<close>

record volume_info =
  TotalSize :: u64
  FreeSize :: u64
  LabelLength :: u16
  Label :: wstr

text \<open>\<open>memcpy\<close> of a label counts bytes, two per character.\<close>

definition GetVolumeInfo :: "memfs \<Rightarrow> ntstatus \<times> volume_info" where
  "GetVolumeInfo s =
     (STATUS_SUCCESS,
      \<lparr>TotalSize = ucast (MaxFileNodes s) * ucast (MaxFileSize s),
       FreeSize = (ucast (MaxFileNodes s) - of_nat (MemfsFileNodeMapCount s)) * ucast (MaxFileSize s),
       LabelLength = VolumeLabelLength s,
       Label = take (unat (VolumeLabelLength s) div 2) (VolumeLabel s)\<rparr>)"

definition SetVolumeLabel :: "wstr \<Rightarrow> memfs \<Rightarrow> ntstatus \<times> volume_info \<times> memfs" where
  "SetVolumeLabel label s =
     (let len0 = of_nat (length label * 2) :: u16;
          len = (if unat len0 > 64 then 64 else len0);
          s' = s\<lparr>VolumeLabelLength := len,
                 VolumeLabel := take (unat len div 2) label @ drop (unat len div 2) (VolumeLabel s)\<rparr> in
      (STATUS_SUCCESS,
       \<lparr>TotalSize = ucast (MaxFileNodes s * MaxFileSize s),
        FreeSize = (ucast (MaxFileNodes s) - of_nat (MemfsFileNodeMapCount s)) * ucast (MaxFileSize s),
        LabelLength = VolumeLabelLength s',
        Label = take (unat (VolumeLabelLength s') div 2) (VolumeLabel s')\<rparr>, s'))"

section \<open>Opening and creating\<close>

text \<open>\<open>GetSecurityByName\<close>: the status, the attributes, the size of the descriptor and the copy, when asked for.\<close>

definition GetSecurityByName :: "env \<Rightarrow> wstr \<Rightarrow> nat option \<Rightarrow> bool \<Rightarrow> memfs \<Rightarrow>
   (ntstatus \<times> u32 option \<times> nat option \<times> u8 list option) option" where
  "GetSecurityByName e name PSize has_buffer s =
     (case MemfsFileNodeMapGet e name s of
        None \<Rightarrow> (case MemfsFileNodeMapGetParent e name s of
            None \<Rightarrow> None
          | Some (Inl st) \<Rightarrow> Some (st, None, PSize, None)
          | Some (Inr p) \<Rightarrow> Some (STATUS_OBJECT_NAME_NOT_FOUND, None, PSize, None))
      | Some r \<Rightarrow> do {
          n \<leftarrow> nodes s r;
          (case PSize of
             None \<Rightarrow> Some (STATUS_SUCCESS, Some (FileAttributes (FileInfo n)), None, None)
           | Some size_arg \<Rightarrow>
               if FileSecuritySize n > size_arg
               then Some (STATUS_BUFFER_OVERFLOW, Some (FileAttributes (FileInfo n)), Some (FileSecuritySize n), None)
               else Some (STATUS_SUCCESS, Some (FileAttributes (FileInfo n)), Some (FileSecuritySize n),
                          if has_buffer then FileSecurity n else None))
        })"

abbreviation FILE_DIRECTORY_FILE :: u32 where "FILE_DIRECTORY_FILE \<equiv> 1"

text \<open>What \<open>Create\<close> and \<open>Open\<close> give back: the node, its information, the normalised name.\<close>

type_synonym opened = "nat \<times> file_info \<times> wstr option"

text \<open>The part of \<open>Create\<close> after the new node exists.\<close>

definition finish_create :: "env \<Rightarrow> u32 \<Rightarrow> u8 list option \<Rightarrow> u64 \<Rightarrow> nat \<Rightarrow> memfs \<Rightarrow> (ntstatus \<times> opened option \<times> memfs) option" where
  "finish_create e attributes SecurityDescriptor allocation r s =
     (let s1 = upd_node r (set_info (\<lambda>i. i\<lparr>FileAttributes :=
            if attributes AND FILE_ATTRIBUTE_DIRECTORY \<noteq> 0 then attributes
            else attributes OR FILE_ATTRIBUTE_ARCHIVE\<rparr>)) s in
      if (case SecurityDescriptor of None \<Rightarrow> False | Some sd \<Rightarrow> \<not> malloc e (length sd))
      then Some (STATUS_INSUFFICIENT_RESOURCES, None, MemfsFileNodeDelete r s1)
      else (let s2 = (case SecurityDescriptor of
                None \<Rightarrow> s1
              | Some sd \<Rightarrow> upd_node r (\<lambda>n. n\<lparr>FileSecuritySize := length sd, FileSecurity := Some sd\<rparr>) s1);
                data = (if allocation \<noteq> 0 then LargeHeapAlloc (win e) (LargeHeapAlignment e) (unat allocation) else None);
                s3 = upd_node r (\<lambda>n. set_info (\<lambda>i. i\<lparr>AllocationSize := allocation\<rparr>) (n\<lparr>FileData := data\<rparr>)) s2 in
            if allocation \<noteq> 0 \<and> data = None then Some (STATUS_INSUFFICIENT_RESOURCES, None, MemfsFileNodeDelete r s3)
            else do {
              (st, inserted, s4) \<leftarrow> MemfsFileNodeMapInsert e r s3;
              if st \<noteq> STATUS_SUCCESS \<or> \<not> inserted
              then Some (if st = STATUS_SUCCESS then STATUS_OBJECT_NAME_COLLISION else st, None, MemfsFileNodeDelete r s4)
              else do {
                s5 \<leftarrow> MemfsFileNodeReference r s4;
                n \<leftarrow> nodes s5 r;
                Some (STATUS_SUCCESS,
                      Some (r, MemfsFileNodeGetFileInfo n, if CaseInsensitive s5 then Some (FileName n) else None), s5)
              }
            }))"

text \<open>The name of the new node: with case folding, the parent's spelling and the new last component.\<close>

definition normalized_name :: "env \<Rightarrow> memfs \<Rightarrow> wstr \<Rightarrow> wstr \<Rightarrow> wstr" where
  "normalized_name e s parent name =
     (if CaseInsensitive s
      then parent @ (if 1 < length parent then [BSLASH] else []) @ snd (path_suffix e name)
      else name)"

definition MemfsCreate :: "env \<Rightarrow> wstr \<Rightarrow> u32 \<Rightarrow> u32 \<Rightarrow> u8 list option \<Rightarrow> u64 \<Rightarrow> memfs \<Rightarrow>
   (ntstatus \<times> opened option \<times> memfs) option" where
  "MemfsCreate e name CreateOptions attributes SecurityDescriptor AllocationSize0 s =
     (let allocation = (if CreateOptions AND FILE_DIRECTORY_FILE \<noteq> 0 then 0 else AllocationSize0) in
      if MEMFS_MAX_PATH \<le> length name then Some (STATUS_OBJECT_NAME_INVALID, None, s)
      else if MemfsFileNodeMapGet e name s \<noteq> None then Some (STATUS_OBJECT_NAME_COLLISION, None, s)
      else case MemfsFileNodeMapGetParent e name s of
        None \<Rightarrow> None
      | Some (Inl st) \<Rightarrow> Some (st, None, s)
      | Some (Inr p) \<Rightarrow>
          if MemfsFileNodeMapCount s \<ge> unat (MaxFileNodes s) then Some (STATUS_CANNOT_MAKE, None, s)
          else if allocation > ucast (MaxFileSize s) then Some (STATUS_DISK_FULL, None, s)
          else do {
            parent \<leftarrow> nodes s p;
            let name' = normalized_name e s (FileName parent) name;
            if CaseInsensitive s \<and> MEMFS_MAX_PATH \<le> length name' then Some (STATUS_OBJECT_NAME_INVALID, None, s)
            else do {
              (st, node, s1) \<leftarrow> MemfsFileNodeCreate e name' s;
              (case node of
                 None \<Rightarrow> Some (st, None, s1)
               | Some r \<Rightarrow> finish_create e attributes SecurityDescriptor allocation r s1)
            }
          })"

definition MemfsOpen :: "env \<Rightarrow> wstr \<Rightarrow> memfs \<Rightarrow> (ntstatus \<times> opened option \<times> memfs) option" where
  "MemfsOpen e name s =
     (if MEMFS_MAX_PATH \<le> length name then Some (STATUS_OBJECT_NAME_INVALID, None, s)
      else case MemfsFileNodeMapGet e name s of
        None \<Rightarrow> (case MemfsFileNodeMapGetParent e name s of
            None \<Rightarrow> None
          | Some (Inl st) \<Rightarrow> Some (st, None, s)
          | Some (Inr p) \<Rightarrow> Some (STATUS_OBJECT_NAME_NOT_FOUND, None, s))
      | Some r \<Rightarrow> do {
          s1 \<leftarrow> MemfsFileNodeReference r s;
          n \<leftarrow> nodes s1 r;
          Some (STATUS_SUCCESS,
                Some (r, MemfsFileNodeGetFileInfo n, if CaseInsensitive s1 then Some (FileName n) else None), s1)
        })"

section \<open>Cleanup, close, deletion\<close>

text \<open>The flags \<open>FspCleanup...\<close> of WinFsp.\<close>

record cleanup_flags =
  CleanupDelete :: bool
  SetAllocationSizeFlag :: bool
  SetArchiveBit :: bool
  SetLastAccessTime :: bool
  SetLastWriteTime :: bool
  SetChangeTime :: bool

definition cleanup_info :: "env \<Rightarrow> cleanup_flags \<Rightarrow> file_info \<Rightarrow> file_info" where
  "cleanup_info e fl i =
     (let i1 = (if SetArchiveBit fl \<and> FileAttributes i AND FILE_ATTRIBUTE_DIRECTORY = 0
                then i\<lparr>FileAttributes := FileAttributes i OR FILE_ATTRIBUTE_ARCHIVE\<rparr> else i) in
      i1\<lparr>LastAccessTime := (if SetLastAccessTime fl then now e else LastAccessTime i1),
         LastWriteTime := (if SetLastWriteTime fl then now e else LastWriteTime i1),
         ChangeTime := (if SetChangeTime fl then now e else ChangeTime i1)\<rparr>)"

definition MemfsCleanup :: "env \<Rightarrow> nat \<Rightarrow> cleanup_flags \<Rightarrow> memfs \<Rightarrow> memfs option" where
  "MemfsCleanup e r fl s = do {
     n \<leftarrow> nodes s r;
     let s1 = upd_node r (set_info (cleanup_info e fl)) s;
     s2 \<leftarrow> (if SetAllocationSizeFlag fl then do {
              n1 \<leftarrow> nodes s1 r;
              (st, n2) \<leftarrow> SetFileSizeInternal (win e) (LargeHeapAlignment e) (MaxFileSize s)
                 ((FileSize (FileInfo n1) + AllocationUnit - 1) div AllocationUnit * AllocationUnit) True n1;
              Some (s1\<lparr>nodes := (nodes s1)(r \<mapsto> n2)\<rparr>)
            } else Some s1);
     if CleanupDelete fl then do {
       child \<leftarrow> MemfsFileNodeMapHasChild e r s2;
       if \<not> child then MemfsFileNodeMapRemove e r s2 else Some s2
     }
     else Some s2
   }"

definition MemfsClose :: "nat \<Rightarrow> memfs \<Rightarrow> memfs option" where
  "MemfsClose r s = MemfsFileNodeDereference r s"

definition MemfsCanDelete :: "env \<Rightarrow> nat \<Rightarrow> memfs \<Rightarrow> ntstatus option" where
  "MemfsCanDelete e r s = do {
     n \<leftarrow> nodes s r;
     if FileName n = ftj_disk_bin then Some STATUS_ACCESS_DENIED
     else do {
       child \<leftarrow> MemfsFileNodeMapHasChild e r s;
       Some (if child then STATUS_DIRECTORY_NOT_EMPTY else STATUS_SUCCESS)
     }
   }"

section \<open>Renaming\<close>

fun too_long :: "memfs \<Rightarrow> nat \<Rightarrow> nat \<Rightarrow> nat list \<Rightarrow> bool option" where
  "too_long s old new [] = Some False"
| "too_long s old new (r # rs) = do {
     n \<leftarrow> nodes s r;
     if MEMFS_MAX_PATH \<le> length (FileName n) - old + new then Some True else too_long s old new rs
   }"

fun rename_nodes :: "env \<Rightarrow> nat \<Rightarrow> wstr \<Rightarrow> nat list \<Rightarrow> memfs \<Rightarrow> memfs option" where
  "rename_nodes e old NewFileName [] s = Some s"
| "rename_nodes e old NewFileName (r # rs) s = do {
     s1 \<leftarrow> MemfsFileNodeMapRemove e r s;
     n \<leftarrow> nodes s1 r;
     let s2 = upd_node r (\<lambda>n. n\<lparr>FileName := NewFileName @ drop old (FileName n)\<rparr>) s1;
     (st, inserted, s3) \<leftarrow> MemfsFileNodeMapInsert e r s2;
     if st \<noteq> STATUS_SUCCESS then None else rename_nodes e old NewFileName rs s3
   }"

text \<open>The part of \<open>Rename\<close> after the look at the target.\<close>

definition move_subtree :: "env \<Rightarrow> nat \<Rightarrow> wstr \<Rightarrow> nat option \<Rightarrow> memfs \<Rightarrow> (ntstatus \<times> memfs) option" where
  "move_subtree e r NewFileName target s = do {
     n \<leftarrow> nodes s r;
     (found, s1) \<leftarrow> MemfsFileNodeMapEnumerateDescendants e r s;
     long \<leftarrow> too_long s1 (length (FileName n)) (length NewFileName) found;
     if long then do { s2 \<leftarrow> MemfsFileNodeMapEnumerateFree found s1; Some (STATUS_OBJECT_NAME_INVALID, s2) }
     else do {
       s2 \<leftarrow> (case target of
           None \<Rightarrow> Some s1
         | Some t \<Rightarrow> do {
             a \<leftarrow> MemfsFileNodeReference t s1;
             b \<leftarrow> MemfsFileNodeMapRemove e t a;
             MemfsFileNodeDereference t b
           });
       s3 \<leftarrow> rename_nodes e (length (FileName n)) NewFileName found s2;
       s4 \<leftarrow> MemfsFileNodeMapEnumerateFree found s3;
       Some (STATUS_SUCCESS, s4)
     }
   }"

definition MemfsRename :: "env \<Rightarrow> nat \<Rightarrow> wstr \<Rightarrow> bool \<Rightarrow> memfs \<Rightarrow> (ntstatus \<times> memfs) option" where
  "MemfsRename e r NewFileName ReplaceIfExists s = do {
     n \<leftarrow> nodes s r;
     if FileName n = ftj_disk_bin then Some (STATUS_ACCESS_DENIED, s)
     else (let target = MemfsFileNodeMapGet e NewFileName s in
       case target of
         None \<Rightarrow> move_subtree e r NewFileName target s
       | Some t \<Rightarrow>
           if t = r then move_subtree e r NewFileName target s
           else if \<not> ReplaceIfExists then Some (STATUS_OBJECT_NAME_COLLISION, s)
           else do {
             tn \<leftarrow> nodes s t;
             if FileAttributes (FileInfo tn) AND FILE_ATTRIBUTE_DIRECTORY \<noteq> 0 then Some (STATUS_ACCESS_DENIED, s)
             else move_subtree e r NewFileName target s
           })
   }"

section \<open>Listing\<close>

text \<open>\<open>FspFileSystemAddDirInfo\<close> of WinFsp is the argument \<open>add\<close>: an entry, or the end mark \<open>None\<close>, into the
  caller's buffer; it answers whether the entry did fit.\<close>

type_synonym dir_entry = "wstr \<times> file_info"

definition AddDirInfo :: "env \<Rightarrow> (dir_entry option \<Rightarrow> 'b \<Rightarrow> bool \<times> 'b) \<Rightarrow> file_node \<Rightarrow> wstr option \<Rightarrow> 'b \<Rightarrow> bool \<times> 'b" where
  "AddDirInfo e add n name buf =
     add (Some (case name of None \<Rightarrow> snd (path_suffix e (FileName n)) | Some nm \<Rightarrow> nm, FileInfo n)) buf"

abbreviation DOT :: wchar where "DOT \<equiv> 0x2E"

definition MemfsReadDirectory :: "env \<Rightarrow> (dir_entry option \<Rightarrow> 'b \<Rightarrow> bool \<times> 'b) \<Rightarrow> nat \<Rightarrow> wstr option \<Rightarrow> memfs \<Rightarrow> 'b \<Rightarrow>
   (ntstatus \<times> 'b) option" where
  "MemfsReadDirectory e add r Marker s buf = do {
     n \<leftarrow> nodes s r;
     dots \<leftarrow>
       (if char_at (drop 1 (FileName n)) \<noteq> 0 then
          (case MemfsFileNodeMapGetParent e (FileName n) s of
             None \<Rightarrow> None
           | Some (Inl st) \<Rightarrow> Some (Inl (st, buf))
           | Some (Inr p) \<Rightarrow> do {
               pn \<leftarrow> nodes s p;
               let (ok1, buf1) = (if Marker = None then AddDirInfo e add n (Some [DOT]) buf else (True, buf));
               if \<not> ok1 then Some (Inl (STATUS_SUCCESS, buf1))
               else if Marker = None \<or> Marker = Some [DOT] then
                 (let (ok2, buf2) = AddDirInfo e add pn (Some [DOT, DOT]) buf1 in
                  if \<not> ok2 then Some (Inl (STATUS_SUCCESS, buf2)) else Some (Inr (None, buf2)))
               else Some (Inr (Marker, buf1))
             })
        else Some (Inr (Marker, buf)));
     (case dots of
        Inl result \<Rightarrow> Some result
      | Inr (marker, buf1) \<Rightarrow> do {
          (complete, buf2) \<leftarrow> MemfsFileNodeMapEnumerateChildren e r marker (\<lambda>n b. AddDirInfo e add n None b) s buf1;
          Some (STATUS_SUCCESS, if complete then snd (add None buf2) else buf2)
        })
   }"

definition MemfsGetDirInfoByName :: "env \<Rightarrow> nat \<Rightarrow> wstr \<Rightarrow> memfs \<Rightarrow> (ntstatus \<times> dir_entry option) option" where
  "MemfsGetDirInfoByName e p name s = do {
     parent \<leftarrow> nodes s p;
     let full = FileName parent @ (if 1 < length (FileName parent) then [BSLASH] else []) @ name;
     if MEMFS_MAX_PATH \<le> length full then Some (STATUS_OBJECT_NAME_NOT_FOUND, None)
     else case MemfsFileNodeMapGet e full s of
       None \<Rightarrow> Some (STATUS_OBJECT_NAME_NOT_FOUND, None)
     | Some r \<Rightarrow> do {
         n \<leftarrow> nodes s r;
         Some (STATUS_SUCCESS, Some (snd (path_suffix e (FileName n)), FileInfo n))
       }
   }"

end
