(* ===== verification/Memfs_Paths.thy ===== *)
theory Memfs_Paths
  imports Memfs_Map
begin

text \<open>
  Paths as lists of components, and what the comparison functions of \<open>src/win_vdisk.cpp\<close> say about them:
  the key of a path, the prefix test, and the place of a directory's descendants in the order. This is
  what the directory functions rely on: the descendants of a directory follow it immediately.
\<close>

definition comp_ok :: "wstr \<Rightarrow> bool" where
  "comp_ok c \<longleftrightarrow> c \<noteq> [] \<and> (\<forall>x \<in> set c. \<not> is_sep x)"

definition comps_ok :: "wstr list \<Rightarrow> bool" where
  "comps_ok cs \<longleftrightarrow> (\<forall>c \<in> set cs. comp_ok c)"

lemma comps_ok_simps [simp]:
  "comps_ok []" "comps_ok (c # cs) \<longleftrightarrow> comp_ok c \<and> comps_ok cs" "comps_ok (cs @ ds) \<longleftrightarrow> comps_ok cs \<and> comps_ok ds"
  by (auto simp: comps_ok_def)

lemma comps_ok_take: "comps_ok cs \<Longrightarrow> comps_ok (take n cs)"
  by (auto simp: comps_ok_def dest: in_set_takeD)

text \<open>The path with components \<open>cs\<close>; the root has none.\<close>

definition path_of :: "wstr list \<Rightarrow> wstr" where
  "path_of cs = (if cs = [] then [BSLASH] else concat (map (\<lambda>c. BSLASH # c) cs))"

definition is_path :: "wstr \<Rightarrow> bool" where
  "is_path p \<longleftrightarrow> (\<exists>cs. comps_ok cs \<and> p = path_of cs)"

definition path_key :: "bool \<Rightarrow> wstr list \<Rightarrow> (int \<times> wstr) list" where
  "path_key ci cs = (if cs = [] then [(2, [])] else map (\<lambda>c. (2, map (fold_char ci) c)) cs)"

lemma is_sep_bslash [simp]: "is_sep BSLASH"
  by (simp add: is_sep_def)

lemma sep_class_bslash [simp]: "sep_class BSLASH = 2"
  by (simp add: sep_class_def)

abbreviation joined :: "wstr list \<Rightarrow> wstr" where "joined cs \<equiv> concat (map (\<lambda>c. BSLASH # c) cs)"

lemma takeWhile_comp:
  assumes "comp_ok c" "comps_ok cs"
  shows "takeWhile (\<lambda>x. \<not> is_sep x) (c @ joined cs) = c" "dropWhile (\<lambda>x. \<not> is_sep x) (c @ joined cs) = joined cs"
    "skip_seps 0 (BSLASH # c @ joined cs) = (BSLASH, c @ joined cs)"
proof -
  have c: "\<forall>x \<in> set c. \<not> is_sep x" "c \<noteq> []" using assms(1) by (simp_all add: comp_ok_def)
  show "takeWhile (\<lambda>x. \<not> is_sep x) (c @ joined cs) = c"
    using c by (cases cs) (simp_all add: takeWhile_append)
  show "dropWhile (\<lambda>x. \<not> is_sep x) (c @ joined cs) = joined cs"
    using c by (cases cs) (simp_all add: dropWhile_append)
  show "skip_seps 0 (BSLASH # c @ joined cs) = (BSLASH, c @ joined cs)"
    using c by (cases c) simp_all
qed

lemma name_key_joined: "comps_ok cs \<Longrightarrow> name_key ci (joined cs) = map (\<lambda>c. (2, map (fold_char ci) c)) cs"
proof (induction cs)
  case Nil
  then show ?case by simp
next
  case (Cons c cs)
  then show ?case using takeWhile_comp [of c cs] by (subst name_key.simps) simp
qed

lemma name_key_path: "comps_ok cs \<Longrightarrow> name_key ci (path_of cs) = path_key ci cs"
proof (cases "cs = []")
  case True
  then show ?thesis by (subst name_key.simps) (simp add: path_of_def path_key_def)
next
  case False
  assume "comps_ok cs"
  then show ?thesis using False by (simp add: path_of_def path_key_def name_key_joined)
qed

lemma path_key_length: "length (path_key ci cs) = (if cs = [] then 1 else length cs)"
  by (simp add: path_key_def)

lemma path_key_root: "comps_ok cs \<Longrightarrow> path_key ci cs = [(2, [])] \<longleftrightarrow> cs = []"
  by (cases cs) (auto simp: path_key_def comp_ok_def)

text \<open>The parent of a path: all components but the last.\<close>

definition parent_key :: "(int \<times> wstr) list \<Rightarrow> (int \<times> wstr) list" where
  "parent_key K = (if length K \<le> 1 then [(2, [])] else butlast K)"

lemma path_key_butlast: "path_key ci (butlast cs) = parent_key (path_key ci cs)"
proof (cases cs rule: rev_cases)
  case (snoc ds d)
  then show ?thesis by (cases ds) (simp_all add: path_key_def parent_key_def map_butlast)
qed (simp add: path_key_def parent_key_def)

text \<open>Two paths with the same key have the same length.\<close>

lemma joined_length:
  "map (\<lambda>c. (2 :: int, map g c)) cs = map (\<lambda>c. (2, map g c)) ds \<Longrightarrow> length (joined cs) = length (joined ds)"
proof (induction cs arbitrary: ds)
  case (Cons c cs)
  then obtain d ds' where ds: "ds = d # ds'" by (cases ds) auto
  then have "map g c = map g d" "map (\<lambda>c. (2 :: int, map g c)) cs = map (\<lambda>c. (2, map g c)) ds'"
    using Cons.prems by simp_all
  then show ?case using Cons.IH [of ds'] ds map_eq_imp_length_eq by fastforce
qed simp

lemma path_key_eq_lengths:
  assumes "path_key ci cs = path_key ci ds" "comps_ok cs" "comps_ok ds"
  shows "length (path_of cs) = length (path_of ds)"
proof (cases "cs = [] \<or> ds = []")
  case True
  then have "cs = [] \<and> ds = []" using assms path_key_root by (metis path_key_def)
  then show ?thesis by simp
next
  case False
  then show ?thesis using assms(1) joined_length [of "fold_char ci" cs ds] by (simp add: path_of_def path_key_def)
qed

section \<open>Descendants in the order\<close>

lemma between_extends:
  fixes K :: "'a :: linorder list"
  shows "K < L \<Longrightarrow> L < K @ Z \<Longrightarrow> \<exists>Y. L = K @ Y \<and> Y \<noteq> []"
proof (induction K arbitrary: L)
  case Nil
  then show ?case by (cases L) simp_all
next
  case (Cons k K)
  then obtain l L' where L: "L = l # L'" by (cases L) simp_all
  then have "l = k" "K < L'" "L' < K @ Z" using Cons.prems by auto
  then show ?case using Cons.IH [of L'] L by auto
qed

section \<open>The prefix test\<close>

lemma take_joined:
  assumes "comps_ok cs" "m = length (joined cs) \<or> char_at (drop m (joined cs)) = BSLASH" "m \<le> length (joined cs)"
  shows "\<exists>n \<le> length cs. take m (joined cs) = joined (take n cs)"
  using assms
proof (induction cs arbitrary: m)
  case Nil
  then show ?case by simp
next
  case (Cons c cs)
  have c: "\<forall>x \<in> set c. \<not> is_sep x" "c \<noteq> []" "comps_ok cs" using Cons.prems(1) by (simp_all add: comp_ok_def)
  show ?case
  proof (cases m)
    case 0
    then show ?thesis by (intro exI [of _ 0]) simp
  next
    case (Suc k)
    show ?thesis
    proof (cases "k < length c")
      case True
      then have "drop m (joined (c # cs)) = c ! k # drop (Suc k) c @ joined cs"
        using Suc by (simp add: Cons_nth_drop_Suc [symmetric])
      moreover have "c ! k \<noteq> BSLASH" using c(1) True by (metis is_sep_bslash nth_mem)
      ultimately have False using Cons.prems(2) True Suc by auto
      then show ?thesis ..
    next
      case False
      then obtain j where j: "k = length c + j" by (metis le_Suc_ex not_less)
      have "j = length (joined cs) \<or> char_at (drop j (joined cs)) = BSLASH" "j \<le> length (joined cs)"
        using Cons.prems(2,3) Suc j by auto
      from Cons.IH [OF c(3) this] obtain n where "n \<le> length cs" "take j (joined cs) = joined (take n cs)" by blast
      then show ?thesis using Suc j by (intro exI [of _ "Suc n"]) simp
    qed
  qed
qed

lemma path_key_take: "n \<noteq> 0 \<Longrightarrow> cs \<noteq> [] \<Longrightarrow> path_key ci (take n cs) = take n (path_key ci cs)"
  by (simp add: path_key_def take_map)

lemma path_of_nonempty: "path_of cs \<noteq> []" "take (Suc 0) (path_of cs) = [BSLASH]"
  by (cases cs; simp add: path_of_def)+

lemma counted_int [simp]: "counted a (int n) = take n a"
  by (simp add: counted_def)

lemma has_prefix_iff:
  assumes "comps_ok cs" "comps_ok ds" "name_ok ci (path_of cs)" "name_ok ci (path_of ds)"
  shows "MemfsFileNameHasPrefix os (path_of cs) (path_of ds) ci \<longleftrightarrow>
    ds = [] \<or> cs \<noteq> [] \<and> (\<exists>Y. path_key ci cs = path_key ci ds @ Y)"
proof -
  let ?a = "path_of cs" and ?b = "path_of ds"
  have cmp: "MemfsFileNameCompare os ?a (int (length ?b)) ?b (int (length ?b)) ci = 0 \<longleftrightarrow>
    name_key ci (take (length ?b) ?a) = path_key ci ds"
    using compare_loop_key [OF name_ok_take [OF assms(3)] assms(4), of os "length ?b"] name_key_path [OF assms(2), of ci]
    by (simp add: MemfsFileNameCompare_def)
  show ?thesis
  proof (cases "ds = []")
    case True
    then have "?b = [BSLASH]" by (simp add: path_of_def)
    moreover have "name_key ci [BSLASH] = path_key ci ds" using name_key_path [OF assms(2), of ci] calculation by simp
    moreover have "length ?a \<ge> 1" using path_of_nonempty(1) [of cs] by (simp add: Suc_le_eq)
    ultimately show ?thesis using cmp path_of_nonempty(2) [of cs] True by (simp add: MemfsFileNameHasPrefix_def)
  next
    case ds: False
    then have b2: "2 \<le> length ?b" using assms(2) by (cases ds) (auto simp: path_of_def comp_ok_def Suc_le_eq)
    have bne: "?b \<noteq> [BSLASH]" using b2 by auto
    show ?thesis
    proof (cases "cs = []")
      case True
      then show ?thesis using b2 ds by (simp add: MemfsFileNameHasPrefix_def path_of_def)
    next
      case cs: False
      then have a: "?a = joined cs" by (simp add: path_of_def)
      show ?thesis
      proof
        assume h: "MemfsFileNameHasPrefix os ?a ?b ci"
        then have len: "length ?b \<le> length (joined cs)" and eq: "name_key ci (take (length ?b) (joined cs)) = path_key ci ds"
          and at: "length ?b = length (joined cs) \<or> char_at (drop (length ?b) (joined cs)) = BSLASH"
          using cmp bne a by (auto simp: MemfsFileNameHasPrefix_def)
        obtain n where n: "n \<le> length cs" "take (length ?b) (joined cs) = joined (take n cs)"
          using take_joined [OF assms(1) at len] by blast
        have "length (joined (take n cs)) = length ?b" using n(2) len by (metis length_take min_absorb2)
        then have "n \<noteq> 0" using b2 by (cases n) auto
        have "path_key ci ds = map (\<lambda>c. (2, map (fold_char ci) c)) (take n cs)"
          using eq n(2) name_key_joined [OF comps_ok_take [OF assms(1)], of ci n] by simp
        then have "path_key ci ds = take n (path_key ci cs)" using cs by (simp add: path_key_def take_map)
        then have "path_key ci cs = path_key ci ds @ drop n (path_key ci cs)" by (simp only: append_take_drop_id)
        then show "ds = [] \<or> cs \<noteq> [] \<and> (\<exists>Y. path_key ci cs = path_key ci ds @ Y)" using cs by blast
      next
        assume "ds = [] \<or> cs \<noteq> [] \<and> (\<exists>Y. path_key ci cs = path_key ci ds @ Y)"
        then obtain Y where Y: "path_key ci cs = path_key ci ds @ Y" using ds by blast
        let ?n = "length ds"
        have n0: "?n \<noteq> 0" using ds by simp
        have ld: "length (path_key ci ds) = ?n" using ds by (simp add: path_key_length)
        have "path_key ci (take ?n cs) = take ?n (path_key ci cs)" using path_key_take [OF n0 cs] .
        also have "\<dots> = path_key ci ds" using Y ld by simp
        finally have k: "path_key ci (take ?n cs) = path_key ci ds" .
        have tne: "take ?n cs \<noteq> []" using n0 cs by simp
        have lp: "length (joined (take ?n cs)) = length ?b"
          using path_key_eq_lengths [OF k comps_ok_take [OF assms(1)] assms(2)] tne by (simp add: path_of_def)
        have split: "joined cs = joined (take ?n cs) @ joined (drop ?n cs)"
          by (metis append_take_drop_id concat_append map_append)
        have t: "take (length ?b) ?a = joined (take ?n cs)" "drop (length ?b) ?a = joined (drop ?n cs)"
          unfolding a lp [symmetric] using split by (metis append_eq_conv_conj)+
        have "name_key ci (take (length ?b) ?a) = path_key ci ds"
          unfolding t using k tne name_key_joined [OF comps_ok_take [OF assms(1)], of ci ?n] by (simp add: path_key_def)
        moreover have "length ?b \<le> length ?a" unfolding a using split lp by (metis le_add1 length_append)
        moreover have "length ?a = length ?b \<or> char_at (drop (length ?b) ?a) = BSLASH"
        proof (cases "drop ?n cs")
          case Nil
          then show ?thesis using split lp a by simp
        next
          case (Cons x xs)
          then show ?thesis unfolding t by simp
        qed
        ultimately show "MemfsFileNameHasPrefix os ?a ?b ci" using cmp by (auto simp: MemfsFileNameHasPrefix_def)
      qed
    qed
  qed
qed

end
