(* ===== verification/Memfs_Tree.thy ===== *)
theory Memfs_Tree
  imports Memfs_Ops Memfs_Paths
begin

text \<open>
  The directory tree in the table of \<open>src/win_vdisk.cpp\<close>: when every entry has its parent in the table, the
  look at the next entry (\<open>MemfsFileNodeMapHasChild\<close>) decides whether a directory is empty, and the
  enumeration that stops at the first name without the prefix lists exactly the children.
\<close>

section \<open>Documented behaviour of the path functions\<close>

definition path_laws :: "env \<Rightarrow> bool" where
  "path_laws e \<longleftrightarrow> (\<forall>cs. comps_ok cs \<longrightarrow>
     path_suffix e (path_of cs) = (path_of (butlast cs), if cs = [] then [] else last cs))"

text \<open>An instance for the witnesses: the split at the last backslash.\<close>

definition split_path :: "wstr \<Rightarrow> wstr \<times> wstr" where
  "split_path p =
     (let suffix = rev (takeWhile (\<lambda>x. x \<noteq> BSLASH) (rev p));
          remain = take (length p - length suffix - 1) p in
      (if remain = [] then [BSLASH] else remain, suffix))"

lemma split_path_laws: "path_suffix e = split_path \<Longrightarrow> path_laws e"
proof -
  assume e: "path_suffix e = split_path"
  have "split_path (path_of cs) = (path_of (butlast cs), if cs = [] then [] else last cs)" if ok: "comps_ok cs" for cs
  proof (cases cs rule: rev_cases)
    case Nil
    then show ?thesis by (simp add: split_path_def path_of_def)
  next
    case (snoc ds d)
    have d: "\<forall>x \<in> set d. x \<noteq> BSLASH" using ok snoc by (auto simp: comp_ok_def)
    have p: "path_of cs = joined ds @ BSLASH # d" using snoc by (simp add: path_of_def)
    have suf: "takeWhile (\<lambda>x. x \<noteq> BSLASH) (rev (path_of cs)) = rev d"
      unfolding p using d by (simp add: takeWhile_append)
    have rem: "take (length (path_of cs) - length d - 1) (path_of cs) = joined ds" unfolding p by simp
    have "joined ds = [] \<longleftrightarrow> ds = []" by (cases ds) simp_all
    then show ?thesis
      using suf rem snoc by (simp add: split_path_def Let_def) (simp add: path_of_def)
  qed
  then show ?thesis by (simp add: path_laws_def e)
qed

section \<open>Well-formed tables\<close>

definition adm_path :: "bool \<Rightarrow> wstr \<Rightarrow> bool" where
  "adm_path ci p \<longleftrightarrow> is_path p \<and> name_ok ci p \<and> length p < 512"

abbreviation entry_key :: "memfs \<Rightarrow> wstr \<Rightarrow> (int \<times> wstr) list" where
  "entry_key s k \<equiv> name_key (CaseInsensitive s) k"

definition table_ok :: "memfs \<Rightarrow> bool" where
  "table_ok s \<longleftrightarrow> names.sorted_map (CaseInsensitive s) (FileNodeMap s) \<and>
     (\<forall>(k, r) \<in> set (FileNodeMap s). adm_path (CaseInsensitive s) k \<and> (\<exists>n. nodes s r = Some n \<and> FileName n = k)) \<and>
     distinct (map snd (FileNodeMap s)) \<and> (\<forall>r \<ge> fresh_address s. nodes s r = None)"

definition tree_closed :: "memfs \<Rightarrow> bool" where
  "tree_closed s \<longleftrightarrow> (\<forall>(k, r) \<in> set (FileNodeMap s). k \<noteq> [BSLASH] \<longrightarrow>
     (\<exists>(k2, r2) \<in> set (FileNodeMap s). entry_key s k2 = parent_key (entry_key s k)))"

definition is_child :: "memfs \<Rightarrow> wstr \<Rightarrow> wstr \<Rightarrow> bool" where
  "is_child s dir k \<longleftrightarrow> k \<noteq> [BSLASH] \<and> parent_key (entry_key s k) = entry_key s dir"

lemma adm_pathE:
  assumes "adm_path ci p"
  obtains cs where "comps_ok cs" "p = path_of cs" "name_key ci p = path_key ci cs" "name_ok ci p"
    "p = [BSLASH] \<longleftrightarrow> cs = []"
proof -
  obtain cs where cs: "comps_ok cs" "p = path_of cs" using assms by (auto simp: adm_path_def is_path_def)
  have "p = [BSLASH] \<longleftrightarrow> cs = []"
  proof (cases cs)
    case (Cons c ds)
    then show ?thesis using cs by (simp add: path_of_def comp_ok_def)
  qed (simp add: cs(2) path_of_def)
  then show ?thesis using that [OF cs name_key_path [OF cs(1), of ci, folded cs(2)]] assms by (simp add: adm_path_def)
qed

lemma name_ok_fst_suffix:
  assumes "path_laws e" "adm_path ci p"
  shows "adm_path ci (fst (path_suffix e p)) \<and> name_key ci (fst (path_suffix e p)) = parent_key (name_key ci p) \<and>
    length (fst (path_suffix e p)) \<le> length p"
proof -
  obtain cs where cs: "comps_ok cs" "p = path_of cs" "name_key ci p = path_key ci cs" "name_ok ci p"
    using adm_pathE [OF assms(2)] by blast
  have f: "fst (path_suffix e p) = path_of (butlast cs)" using assms(1) cs(1,2) by (simp add: path_laws_def)
  have ok: "comps_ok (butlast cs)" using cs(1) by (auto simp: comps_ok_def dest: in_set_butlastD)
  have nm: "name_ok ci (path_of (butlast cs)) \<and> length (path_of (butlast cs)) \<le> length p"
  proof (cases cs rule: rev_cases)
    case (snoc ds d)
    then have "p = joined ds @ BSLASH # d" using cs(2) by (simp add: path_of_def)
    then show ?thesis using cs(4) snoc by (cases "ds = []") (simp_all add: path_of_def)
  qed (use cs(2,4) in simp)
  have "is_path (path_of (butlast cs))" using ok by (auto simp: is_path_def)
  moreover have "length p < 512" using assms(2) by (simp add: adm_path_def)
  ultimately show ?thesis
    using nm name_key_path [OF ok, of ci] cs(3) by (simp add: f adm_path_def path_key_butlast)
qed

lemma is_parent_name_iff:
  assumes "path_laws e" "adm_path (CaseInsensitive s) child" "adm_path (CaseInsensitive s) dir"
  shows "is_parent_name e s child dir \<longleftrightarrow> parent_key (entry_key s child) = entry_key s dir"
proof -
  have a: "name_ok (CaseInsensitive s) (fst (path_suffix e child))" "name_ok (CaseInsensitive s) dir"
    using name_ok_fst_suffix [OF assms(1,2)] assms(3) by (auto simp: adm_path_def)
  show ?thesis
    using file_name_compare_iff [OF a, of "fns e"] name_ok_fst_suffix [OF assms(1,2)] by (auto simp: is_parent_name_def)
qed

text \<open>A child comes after its directory.\<close>

lemma child_key:
  assumes "comps_ok cs" "cs \<noteq> []" "comps_ok ds" "parent_key (path_key ci cs) = path_key ci ds"
  shows "path_key ci ds < path_key ci cs \<and>
    (if ds = [] then length (path_key ci cs) = 1 else \<exists>x. path_key ci cs = path_key ci ds @ [x])"
proof (cases "ds = []")
  case True
  have "length cs = 1"
  proof (rule ccontr)
    assume "length cs \<noteq> 1"
    then have "1 < length cs" using assms(2) by (cases cs) auto
    then have "butlast cs \<noteq> []" by (cases cs) auto
    moreover have "path_key ci (butlast cs) = path_key ci ds" using assms(4) by (simp add: path_key_butlast)
    ultimately have "path_key ci (butlast cs) = path_key ci ds" "butlast cs \<noteq> []" by blast+
    then show False using path_key_root [of "butlast cs" ci] assms(1) True
      by (auto simp: path_key_def comps_ok_def dest: in_set_butlastD)
  qed
  then obtain c where c: "cs = [c]" by (cases cs) auto
  then have "map (fold_char ci) c \<noteq> []" using assms(1) by (simp add: comp_ok_def)
  then have "[] < map (fold_char ci) c" by (cases c) simp_all
  then show ?thesis using c True by (simp add: path_key_def less_prod_def')
next
  case False
  have len: "length (path_key ci cs) = length cs" using assms(2) by (simp add: path_key_length)
  have "1 < length cs"
  proof (rule ccontr)
    assume "\<not> 1 < length cs"
    then have "path_key ci ds = [(2, [])]" using assms(4) len by (simp add: parent_key_def)
    then show False using path_key_root [OF assms(3)] False by blast
  qed
  then have "butlast (path_key ci cs) = path_key ci ds" "path_key ci cs \<noteq> []"
    using assms(4) len by (auto simp: parent_key_def)
  then have e: "path_key ci cs = path_key ci ds @ [last (path_key ci cs)]" by (metis append_butlast_last_id)
  have "K < K @ [x]" for K :: "(int \<times> wstr) list" and x by (induction K) simp_all
  then have "path_key ci ds < path_key ci cs" by (subst e) simp
  moreover have "\<exists>x. path_key ci cs = path_key ci ds @ [x]" using e by blast
  ultimately show ?thesis using False by simp
qed

section \<open>Directories with and without children\<close>

lemma table_okD:
  assumes "table_ok s" "(k, r) \<in> set (FileNodeMap s)"
  shows "adm_path (CaseInsensitive s) k" "\<exists>n. nodes s r = Some n \<and> FileName n = k"
  using assms by (auto simp: table_ok_def)

text \<open>All ancestors of an entry are in a closed table.\<close>

lemma ancestors:
  assumes "table_ok s" "tree_closed s"
  shows "(k, r) \<in> set (FileNodeMap s) \<Longrightarrow> 1 \<le> m \<Longrightarrow> m \<le> length (entry_key s k) \<Longrightarrow>
    \<exists>(k2, r2) \<in> set (FileNodeMap s). entry_key s k2 = take m (entry_key s k)"
proof (induction "length (entry_key s k) - m" arbitrary: k r)
  case 0
  then show ?case by auto
next
  case (Suc d)
  then have lt: "m < length (entry_key s k)" by simp
  have "k \<noteq> [BSLASH]"
  proof
    assume "k = [BSLASH]"
    then have "entry_key s k = path_key (CaseInsensitive s) []" using name_key_path [of "[]"] by (simp add: path_of_def)
    then show False using lt Suc.prems(2) by (simp add: path_key_def)
  qed
  then obtain k2 r2 where p: "(k2, r2) \<in> set (FileNodeMap s)" "entry_key s k2 = parent_key (entry_key s k)"
    using assms(2) Suc.prems(1) by (fastforce simp: tree_closed_def)
  have b: "entry_key s k2 = butlast (entry_key s k)" using p(2) lt Suc.prems(2) by (simp add: parent_key_def)
  then have "d = length (entry_key s k2) - m" "m \<le> length (entry_key s k2)" using Suc.hyps(2) lt by simp_all
  from Suc.hyps(1) [OF this(1) p(1) Suc.prems(2) this(2)]
  have "\<exists>(k2, r2) \<in> set (FileNodeMap s). entry_key s k2 = take m (butlast (entry_key s k))" unfolding b .
  moreover have "take m (butlast (entry_key s k)) = take m (entry_key s k)" using lt by (simp add: take_butlast)
  ultimately show ?case by simp
qed

text \<open>The entries above a directory: the first one is a child of it, if it has one at all.\<close>

lemma first_above:
  assumes "table_ok s" "tree_closed s" "adm_path (CaseInsensitive s) dir"
    and up: "filter (\<lambda>e. entry_key s dir < entry_key s (fst e)) (FileNodeMap s) = (k2, r2) # es"
    and child: "(k3, r3) \<in> set (FileNodeMap s)" "is_child s dir k3"
  shows "parent_key (entry_key s k2) = entry_key s dir"
proof -
  let ?ci = "CaseInsensitive s"
  obtain ds where ds: "comps_ok ds" "dir = path_of ds" "entry_key s dir = path_key ?ci ds"
    using adm_pathE [OF assms(3)] by blast
  obtain cs where cs: "comps_ok cs" "k3 = path_of cs" "entry_key s k3 = path_key ?ci cs" "cs \<noteq> []"
    using adm_pathE [OF table_okD(1) [OF assms(1) child(1)]] child(2) by (auto simp: is_child_def)
  have ck: "path_key ?ci ds < path_key ?ci cs"
    "if ds = [] then length (path_key ?ci cs) = 1 else \<exists>x. path_key ?ci cs = path_key ?ci ds @ [x]"
    using child_key [OF cs(1,4) ds(1), of ?ci] child(2) cs(3) ds(3) by (auto simp: is_child_def)
  have srt: "names.sorted_map ?ci ((k2, r2) # es)"
    using assms(1) unfolding up [symmetric] by (auto simp: table_ok_def names.sorted_map_def sorted_wrt_filter)
  have k2: "(k2, r2) \<in> set (FileNodeMap s)" "entry_key s dir < entry_key s k2"
  proof -
    have "(k2, r2) \<in> set (filter (\<lambda>e. entry_key s dir < entry_key s (fst e)) (FileNodeMap s))" unfolding up by simp
    then show "(k2, r2) \<in> set (FileNodeMap s)" "entry_key s dir < entry_key s k2" by simp_all
  qed
  have minimal: "entry_key s k2 \<le> entry_key s k" if "(k, r) \<in> set (FileNodeMap s)" "entry_key s dir < entry_key s k" for k r
  proof -
    have "(k, r) \<in> set ((k2, r2) # es)" unfolding up [symmetric] using that by simp
    then show ?thesis using srt by (auto simp: names.sorted_Cons)
  qed
  obtain ls where ls: "comps_ok ls" "k2 = path_of ls" "entry_key s k2 = path_key ?ci ls"
    using adm_pathE [OF table_okD(1) [OF assms(1) k2(1)]] by blast
  have lsne: "ls \<noteq> []"
  proof
    assume "ls = []"
    then have "path_key ?ci ds < [(2, [])]" using k2(2) ls(3) ds(3) by (simp add: path_key_def)
    then show False by (cases ds) (auto simp: path_key_def less_prod_def')
  qed
  show ?thesis
  proof (cases "ds = []")
    case True
    have "length ls = 1"
    proof (rule ccontr)
      assume "length ls \<noteq> 1"
      then have l2: "2 \<le> length ls" using lsne by (cases ls) (auto simp: Suc_le_eq)
      then obtain k r where a: "(k, r) \<in> set (FileNodeMap s)" "entry_key s k = take 1 (path_key ?ci ls)"
        using ancestors [OF assms(1,2) k2(1), of 1] ls(3) lsne by (auto simp: path_key_length)
      obtain l ls' where l0: "ls = l # ls'" using lsne by (cases ls) simp_all
      then have l: "ls = l # ls'" "ls' \<noteq> []" using l2 by auto
      then have key: "entry_key s k = [(2, map (fold_char ?ci) l)]" using a(2) by (simp add: path_key_def)
      have "map (fold_char ?ci) l \<noteq> []" using ls(1) l by (simp add: comp_ok_def)
      then have "entry_key s dir < entry_key s k"
        unfolding key ds(3) using True by (cases l) (simp_all add: path_key_def less_prod_def')
      then have "entry_key s k2 \<le> entry_key s k" using minimal a(1) by blast
      moreover have "entry_key s k < entry_key s k2" unfolding key ls(3) using l by (cases ls') (simp_all add: path_key_def)
      ultimately show False by simp
    qed
    then show ?thesis using ls(3) ds(3) True lsne by (simp add: parent_key_def path_key_length) (simp add: path_key_def)
  next
    case False
    then obtain x where x: "path_key ?ci cs = path_key ?ci ds @ [x]" using ck(2) by auto
    let ?K = "path_key ?ci ds"
    have le: "path_key ?ci ls \<le> ?K @ [x]" using minimal [OF child(1)] ck(1) ls(3) ds(3) cs(3) x by simp
    have K1: "1 \<le> length ?K" by (cases ds) (simp_all add: path_key_length)
    have "\<exists>Y. path_key ?ci ls = ?K @ Y \<and> Y \<noteq> []"
    proof (cases "path_key ?ci ls = ?K @ [x]")
      case True
      then show ?thesis by blast
    next
      case False
      then have "path_key ?ci ls < ?K @ [x]" using le by simp
      then show ?thesis using between_extends k2(2) ls(3) ds(3) by metis
    qed
    then obtain Y where Y: "path_key ?ci ls = ?K @ Y" "Y \<noteq> []" by blast
    have "length Y = 1"
    proof (rule ccontr)
      assume "length Y \<noteq> 1"
      then have Y2: "2 \<le> length Y" using Y(2) by (cases Y) (auto simp: Suc_le_eq)
      let ?m = "Suc (length ?K)"
      obtain y Y' where y0: "Y = y # Y'" using Y(2) by (cases Y) simp_all
      then have y: "Y = y # Y'" "Y' \<noteq> []" using Y2 by auto
      obtain k r where a: "(k, r) \<in> set (FileNodeMap s)" "entry_key s k = take ?m (path_key ?ci ls)"
        using ancestors [OF assms(1,2) k2(1), of ?m] ls(3) Y Y2 by auto
      then have key: "entry_key s k = ?K @ [y]" using Y y by simp
      have app: "M < M @ (z # Z)" "M @ [z] < M @ z # w # Z" for M Z :: "(int \<times> wstr) list" and z w by (induction M) simp_all
      have "entry_key s dir < entry_key s k" unfolding key ds(3) by (rule app(1))
      then have "entry_key s k2 \<le> entry_key s k" using minimal a(1) by blast
      moreover have "entry_key s k < entry_key s k2"
        unfolding key ls(3) Y(1) y(1) using y(2) app(2) by (metis list.exhaust)
      ultimately show False by simp
    qed
    then have "butlast (path_key ?ci ls) = ?K" using Y by (cases Y) simp_all
    moreover have "1 < length (path_key ?ci ls)"
      unfolding Y(1) length_append using K1 \<open>length Y = 1\<close> by linarith
    ultimately show ?thesis using ls(3) ds(3) by (simp add: parent_key_def)
  qed
qed

lemma child_above:
  assumes "table_ok s" "adm_path (CaseInsensitive s) dir" "(k, r) \<in> set (FileNodeMap s)" "is_child s dir k"
  shows "entry_key s dir < entry_key s k"
proof -
  obtain ds where ds: "comps_ok ds" "entry_key s dir = path_key (CaseInsensitive s) ds"
    using adm_pathE [OF assms(2)] by blast
  obtain cs where cs: "comps_ok cs" "entry_key s k = path_key (CaseInsensitive s) cs" "cs \<noteq> []"
    using adm_pathE [OF table_okD(1) [OF assms(1,3)]] assms(4) by (auto simp: is_child_def)
  show ?thesis using child_key [OF cs(1,3) ds(1), of "CaseInsensitive s"] assms(4) cs(2) ds(2) by (simp add: is_child_def)
qed

lemma upper_bound_table:
  assumes "table_ok s" "name_ok (CaseInsensitive s) k"
  shows "upper_bound (name_lt e s) k (FileNodeMap s) = filter (\<lambda>e. entry_key s k < entry_key s (fst e)) (FileNodeMap s)"
  using names.split_at [OF _ assms(2), of "FileNodeMap s" "fns e"] assms(1) by (simp add: table_ok_def name_lt_def)

lemma root_key: "entry_key s [BSLASH] = [(2, [])]"
  using name_key_path [of "[]"] by (simp add: path_of_def path_key_def)

lemma above_not_root:
  assumes "adm_path (CaseInsensitive s) dir" "entry_key s dir < entry_key s k"
  shows "k \<noteq> [BSLASH]"
proof
  assume k: "k = [BSLASH]"
  obtain ds where ds: "comps_ok ds" "entry_key s dir = path_key (CaseInsensitive s) ds"
    using adm_pathE [OF assms(1)] by blast
  show False using assms(2) unfolding k root_key ds(2) by (cases ds) (auto simp: path_key_def less_prod_def')
qed

lemma HasChild_correct:
  assumes "path_laws e" "table_ok s" "tree_closed s" "nodes s r = Some n" "adm_path (CaseInsensitive s) (FileName n)"
  shows "MemfsFileNodeMapHasChild e r s = Some (\<exists>(k, r2) \<in> set (FileNodeMap s). is_child s (FileName n) k)"
proof -
  let ?up = "filter (\<lambda>e. entry_key s (FileName n) < entry_key s (fst e)) (FileNodeMap s)"
  have up: "upper_bound (name_lt e s) (FileName n) (FileNodeMap s) = ?up"
    by (rule upper_bound_table [OF assms(2)]) (use assms(5) in \<open>simp add: adm_path_def\<close>)
  show ?thesis
  proof (cases ?up)
    case Nil
    then have "\<not> is_child s (FileName n) k" if "(k, r2) \<in> set (FileNodeMap s)" for k r2
      using child_above [OF assms(2,5) that] that by (fastforce simp: filter_empty_conv)
    then show ?thesis using up Nil assms(4) by (auto simp: MemfsFileNodeMapHasChild_def)
  next
    case (Cons p es)
    obtain k2 r2 where p: "p = (k2, r2)" by (cases p)
    have "(k2, r2) \<in> set ?up" unfolding Cons p by simp
    then have k2: "(k2, r2) \<in> set (FileNodeMap s)" "entry_key s (FileName n) < entry_key s k2" by simp_all
    obtain n2 where n2: "nodes s r2 = Some n2" "FileName n2 = k2" using table_okD(2) [OF assms(2) k2(1)] by blast
    have is_p: "is_parent_name e s k2 (FileName n) \<longleftrightarrow> parent_key (entry_key s k2) = entry_key s (FileName n)"
      by (rule is_parent_name_iff [OF assms(1) table_okD(1) [OF assms(2) k2(1)] assms(5)])
    have "(\<exists>(k, r2) \<in> set (FileNodeMap s). is_child s (FileName n) k) \<longleftrightarrow> parent_key (entry_key s k2) = entry_key s (FileName n)"
      using first_above [OF assms(2,3,5) Cons [unfolded p]] k2(1) above_not_root [OF assms(5) k2(2)]
      by (auto simp: is_child_def)
    then show ?thesis using up Cons p assms(4) n2 is_p by (simp add: MemfsFileNodeMapHasChild_def)
  qed
qed

section \<open>Listing a directory\<close>

fun run_enum :: "(file_node \<Rightarrow> 'c \<Rightarrow> bool \<times> 'c) \<Rightarrow> file_node list \<Rightarrow> 'c \<Rightarrow> bool \<times> 'c" where
  "run_enum EnumFn [] ctx = (True, ctx)"
| "run_enum EnumFn (n # ns) ctx =
     (let (continue, ctx') = EnumFn n ctx in if \<not> continue then (False, ctx') else run_enum EnumFn ns ctx')"

definition children_in :: "memfs \<Rightarrow> wstr \<Rightarrow> (wstr \<times> nat) list \<Rightarrow> file_node list" where
  "children_in s dir es = map (\<lambda>(k, r). the (nodes s r)) (filter (\<lambda>(k, r). is_child s dir k) es)"

lemma has_prefix_child:
  assumes "adm_path (CaseInsensitive s) dir" "adm_path (CaseInsensitive s) k" "adm_path (CaseInsensitive s) k'"
    and "entry_key s dir < entry_key s k" "is_child s dir k'" "entry_key s k \<le> entry_key s k'"
  shows "MemfsFileNameHasPrefix os k dir (CaseInsensitive s)"
proof -
  let ?ci = "CaseInsensitive s"
  obtain ds where ds: "comps_ok ds" "dir = path_of ds" "entry_key s dir = path_key ?ci ds" "name_ok ?ci dir"
    using adm_pathE [OF assms(1)] by blast
  obtain cs where cs: "comps_ok cs" "k = path_of cs" "entry_key s k = path_key ?ci cs" "name_ok ?ci k" "k = [BSLASH] \<longleftrightarrow> cs = []"
    using adm_pathE [OF assms(2)] by blast
  obtain cs' where cs': "comps_ok cs'" "entry_key s k' = path_key ?ci cs'" "cs' \<noteq> []"
    using adm_pathE [OF assms(3)] assms(5) by (auto simp: is_child_def)
  have csne: "cs \<noteq> []" using above_not_root [OF assms(1,4)] cs(5) by blast
  have ck: "if ds = [] then length (path_key ?ci cs') = 1 else \<exists>x. path_key ?ci cs' = path_key ?ci ds @ [x]"
  proof (rule conjunct2 [OF child_key [OF cs'(1,3) ds(1)]])
    show "parent_key (path_key ?ci cs') = path_key ?ci ds" using assms(5) cs'(2) ds(3) by (simp add: is_child_def)
  qed
  have "ds = [] \<or> (\<exists>Y. path_key ?ci cs = path_key ?ci ds @ Y)"
  proof (cases "ds = []")
    case False
    then obtain x where x: "path_key ?ci cs' = path_key ?ci ds @ [x]" using ck by auto
    show ?thesis
    proof (cases "path_key ?ci cs = path_key ?ci cs'")
      case True
      then show ?thesis using x by auto
    next
      case False
      then have "path_key ?ci cs < path_key ?ci ds @ [x]" using assms(6) cs(3) cs'(2) x by simp
      then show ?thesis using between_extends assms(4) cs(3) ds(3) by metis
    qed
  qed simp
  then show ?thesis
    using has_prefix_iff [OF cs(1) ds(1), of ?ci os] cs(2,4) ds(2,4) csne by simp
qed

lemma enum_children_list:
  assumes "path_laws e" "table_ok s" "adm_path (CaseInsensitive s) (FileName n)"
  shows "names.sorted_map (CaseInsensitive s) es \<Longrightarrow> set es \<subseteq> set (FileNodeMap s) \<Longrightarrow>
    \<forall>(k, r) \<in> set es. entry_key s (FileName n) < entry_key s k \<Longrightarrow>
    enum_children e s n EnumFn es ctx = Some (run_enum EnumFn (children_in s (FileName n) es) ctx)"
proof (induction es arbitrary: ctx)
  case Nil
  then show ?case by (simp add: children_in_def)
next
  case (Cons p es)
  let ?ci = "CaseInsensitive s"
  obtain k r where p: "p = (k, r)" by (cases p)
  have k: "(k, r) \<in> set (FileNodeMap s)" "entry_key s (FileName n) < entry_key s k"
    and srt: "names.sorted_map ?ci es" "\<forall>f \<in> set es. entry_key s k < entry_key s (fst f)"
    using Cons.prems p by (auto simp: names.sorted_Cons)
  have adm: "adm_path ?ci k" by (rule table_okD(1) [OF assms(2) k(1)])
  obtain n2 where n2: "nodes s r = Some n2" "FileName n2 = k" using table_okD(2) [OF assms(2) k(1)] by blast
  have par: "is_parent_name e s k (FileName n) \<longleftrightarrow> is_child s (FileName n) k"
    using is_parent_name_iff [OF assms(1) adm assms(3)] above_not_root [OF assms(3) k(2)] by (simp add: is_child_def)
  show ?case
  proof (cases "MemfsFileNameHasPrefix (fns e) k (FileName n) ?ci")
    case False
    have "\<not> is_child s (FileName n) k'" if "(k', r') \<in> set (p # es)" for k' r'
    proof
      assume c: "is_child s (FileName n) k'"
      have "adm_path ?ci k'" using table_okD(1) [OF assms(2)] that Cons.prems(2) by blast
      moreover have "entry_key s k \<le> entry_key s k'" using that srt(2) p by (auto simp: less_imp_le)
      ultimately show False using has_prefix_child [OF assms(3) adm _ k(2) c] False by blast
    qed
    then have "filter (\<lambda>(k, r). is_child s (FileName n) k) (p # es) = []" by (auto simp: filter_empty_conv)
    then have "children_in s (FileName n) (p # es) = []" by (simp only: children_in_def) simp
    then show ?thesis using False n2 p by simp
  next
    case True
    have IH: "enum_children e s n EnumFn es c = Some (run_enum EnumFn (children_in s (FileName n) es) c)" for c
      using Cons.IH [of c] Cons.prems srt(1) by auto
    show ?thesis
      using True n2 p par IH by (simp add: children_in_def split: prod.split)
  qed
qed

text \<open>The whole listing, or what follows a marker in the same directory.\<close>

lemma EnumerateChildren_correct:
  assumes "path_laws e" "table_ok s" "nodes s r = Some n" "adm_path (CaseInsensitive s) (FileName n)"
  shows "MemfsFileNodeMapEnumerateChildren e r None EnumFn s ctx =
    Some (run_enum EnumFn (children_in s (FileName n) (FileNodeMap s)) ctx)"
proof -
  let ?K = "entry_key s (FileName n)"
  let ?up = "filter (\<lambda>e. ?K < entry_key s (fst e)) (FileNodeMap s)"
  have up: "upper_bound (name_lt e s) (FileName n) (FileNodeMap s) = ?up"
    by (rule upper_bound_table [OF assms(2)]) (use assms(4) in \<open>simp add: adm_path_def\<close>)
  have srt: "names.sorted_map (CaseInsensitive s) ?up"
    using assms(2) by (auto simp: table_ok_def names.sorted_map_def sorted_wrt_filter)
  have "filter (\<lambda>(k, r). is_child s (FileName n) k) ?up = filter (\<lambda>(k, r). is_child s (FileName n) k) (FileNodeMap s)"
    using child_above [OF assms(2,4)] by (auto simp: filter_filter intro!: filter_cong)
  then have c: "children_in s (FileName n) ?up = children_in s (FileName n) (FileNodeMap s)" by (simp only: children_in_def)
  have "enum_children e s n EnumFn ?up ctx = Some (run_enum EnumFn (children_in s (FileName n) ?up) ctx)"
    by (rule enum_children_list [OF assms(1,2,4) srt]) auto
  then show ?thesis using up assms(3) c by (simp add: MemfsFileNodeMapEnumerateChildren_def)
qed

section \<open>An example file system\<close>

text \<open>For the witnesses: the root, a directory \<open>a\<close> in it, which is open once, and a file \<open>!\<close> in that.\<close>

definition demo_env :: env where
  "demo_env = \<lparr>fns = ascii_only, path_suffix = split_path, win = plain_heap, LargeHeapAlignment = 65536, now = 7,
     node_malloc = True, malloc = \<lambda>_. True, table_grows = True\<rparr>"

definition demo_node :: "wstr \<Rightarrow> u32 \<Rightarrow> int \<Rightarrow> file_node" where
  "demo_node name attributes refs = \<lparr>FileName = name, FileInfo = zero_info\<lparr>FileAttributes := attributes\<rparr>, FileSecuritySize = 0,
     FileSecurity = None, FileData = None, RefCount = refs\<rparr>"

definition demo_fs :: memfs where
  "demo_fs = \<lparr>nodes = [1 \<mapsto> demo_node (path_of []) FILE_ATTRIBUTE_DIRECTORY 1, 2 \<mapsto> demo_node (path_of [[0x61]]) FILE_ATTRIBUTE_DIRECTORY 2,
       3 \<mapsto> demo_node (path_of [[0x61], [0x21]]) FILE_ATTRIBUTE_NORMAL 1],
     fresh_address = 4, next_index = 4, FileNodeMap = [(path_of [], 1), (path_of [[0x61]], 2), (path_of [[0x61], [0x21]], 3)],
     CaseInsensitive = True, MaxFileNodes = 16, MaxFileSize = 4096, VolumeLabelLength = 0, VolumeLabel = replicate 32 0\<rparr>"

lemma demo_env_laws: "path_laws demo_env" "table_grows demo_env"
  by (rule split_path_laws) (simp_all add: demo_env_def)

lemma demo_comps: "comps_ok [[0x61]]" "comps_ok [[0x61], [0x21]]" "comps_ok [[0x63]]" "comps_ok [[0x63], [0x21]]"
  by (simp_all add: comp_ok_def is_sep_def)

lemma adm_path_of: "comps_ok cs \<Longrightarrow> name_ok ci (path_of cs) \<Longrightarrow> length (path_of cs) < 512 \<Longrightarrow> adm_path ci (path_of cs)"
  by (auto simp: adm_path_def is_path_def)

lemma demo_paths:
  "adm_path True (path_of [])" "adm_path True (path_of [[0x61]])" "adm_path True (path_of [[0x61], [0x21]])"
  "adm_path True (path_of [[0x63]])"
  by (rule adm_path_of; simp add: comp_ok_def is_sep_def path_of_def)+

lemma demo_keys [simp]:
  "name_key True (path_of []) = [(2, [])]" "name_key True (path_of [[0x61]]) = [(2, [0x41])]"
  "name_key True (path_of [[0x61], [0x21]]) = [(2, [0x41]), (2, [0x21])]" "name_key True (path_of [[0x63]]) = [(2, [0x43])]"
  using name_key_path demo_comps by (simp_all add: path_key_def fold_char_def MemfsUpperChar_def)

lemma demo_table: "table_ok demo_fs" "tree_closed demo_fs"
proof -
  show "table_ok demo_fs"
    unfolding table_ok_def names.sorted_map_def
    using demo_paths by (auto simp: demo_fs_def demo_node_def less_prod_def' adm_path_def)
  show "tree_closed demo_fs"
    using root_key [of demo_fs] by (auto simp: tree_closed_def demo_fs_def parent_key_def path_of_def [of "[]"])
qed

lemma demo_fields [simp]:
  "nodes demo_fs 2 = Some (demo_node (path_of [[0x61]]) FILE_ATTRIBUTE_DIRECTORY 2)" "CaseInsensitive demo_fs = True"
  "FileName (demo_node k a c) = k" "RefCount (demo_node k a c) = c" "FileAttributes (FileInfo (demo_node k a c)) = a"
  by (simp_all add: demo_fs_def demo_node_def)

section \<open>Properties\<close>

text \<open>C26: on a table whose entries have their directories in the table, \<open>MemfsFileNodeMapHasChild\<close>, which only looks
  at the next entry in the order, is true exactly for a directory with a child.\<close>

theorem has_child_exact:
  assumes "path_laws e" "table_ok s" "tree_closed s" "nodes s r = Some n" "adm_path (CaseInsensitive s) (FileName n)"
  shows "MemfsFileNodeMapHasChild e r s = Some (\<exists>(k, r2) \<in> set (FileNodeMap s). is_child s (FileName n) k)"
  by (rule HasChild_correct [OF assms])

theorem has_child_exact_witness: "MemfsFileNodeMapHasChild demo_env 2 demo_fs = Some True"
proof -
  have "\<exists>(k, r2) \<in> set (FileNodeMap demo_fs). is_child demo_fs (path_of [[0x61]]) k"
    by (simp add: is_child_def demo_fs_def parent_key_def) (simp add: path_of_def)
  then show ?thesis
    using has_child_exact [OF demo_env_laws(1) demo_table demo_fields(1)] demo_paths(2) by simp
qed

end
