(* ===== verification/Memfs_Session.thy ===== *)
theory Memfs_Session
  imports Memfs_Tree "HOL-Library.Multiset"
begin

text \<open>
  The life of nodes in \<open>src/win_vdisk.cpp\<close>: sessions of opening, creating, changing, deleting and closing
  files, as a step relation on the file system state and the multiset of open handles. The invariant:
  a node exists exactly while it is in the table or open, and its reference count is the number of its
  handles, plus one for the table. So no handler touches a freed node, and none is leaked.
\<close>

section \<open>What reference counting looks at\<close>

definition ident :: "file_node \<Rightarrow> wstr \<times> int" where
  "ident n = (FileName n, RefCount n)"

definition idents :: "memfs \<Rightarrow> nat \<Rightarrow> (wstr \<times> int) option" where
  "idents s r = map_option ident (nodes s r)"

definition same_shape :: "memfs \<Rightarrow> memfs \<Rightarrow> bool" where
  "same_shape s s' \<longleftrightarrow> FileNodeMap s' = FileNodeMap s \<and> CaseInsensitive s' = CaseInsensitive s \<and>
     fresh_address s' = fresh_address s \<and> idents s' = idents s"

definition in_table :: "memfs \<Rightarrow> nat \<Rightarrow> bool" where
  "in_table s r \<longleftrightarrow> r \<in> snd ` set (FileNodeMap s)"

definition refs_ok :: "memfs \<Rightarrow> nat multiset \<Rightarrow> bool" where
  "refs_ok s h \<longleftrightarrow> (\<forall>r. (nodes s r \<noteq> None) = (r \<in># h \<or> in_table s r)) \<and>
     (\<forall>r n. nodes s r = Some n \<longrightarrow> adm_path (CaseInsensitive s) (FileName n) \<and>
        RefCount n = int (count h r) + (if in_table s r then 1 else 0))"

definition session_ok :: "memfs \<Rightarrow> nat multiset \<Rightarrow> bool" where
  "session_ok s h \<longleftrightarrow> table_ok s \<and> tree_closed s \<and> refs_ok s h"

lemma same_shape_refl [simp]: "same_shape s s"
  by (simp add: same_shape_def)

lemma same_shape_trans: "same_shape a b \<Longrightarrow> same_shape b c \<Longrightarrow> same_shape a c"
  by (simp add: same_shape_def)

lemma idents_Some: "(\<exists>n. nodes s r = Some n \<and> FileName n = k) \<longleftrightarrow> (\<exists>c. idents s r = Some (k, c))"
  by (auto simp: idents_def ident_def)

lemma idents_None: "nodes s r = None \<longleftrightarrow> idents s r = None"
  by (simp add: idents_def)

lemma idents_all: "(\<forall>n. nodes s r = Some n \<longrightarrow> P (FileName n) (RefCount n)) \<longleftrightarrow> (\<forall>k c. idents s r = Some (k, c) \<longrightarrow> P k c)"
  by (auto simp: idents_def ident_def)

lemma same_shape_table: "same_shape s s' \<Longrightarrow> table_ok s \<Longrightarrow> table_ok s'"
  unfolding table_ok_def idents_Some idents_None by (simp add: same_shape_def)

lemma refs_ok_idents:
  "refs_ok s h \<longleftrightarrow> (\<forall>r. (idents s r \<noteq> None) = (r \<in># h \<or> in_table s r)) \<and>
     (\<forall>r k c. idents s r = Some (k, c) \<longrightarrow> adm_path (CaseInsensitive s) k \<and>
        c = int (count h r) + (if in_table s r then 1 else 0))"
  unfolding refs_ok_def idents_None
  using idents_all [of s _ "\<lambda>k c. adm_path (CaseInsensitive s) k \<and> c = int (count h _) + (if in_table s _ then 1 else 0)"]
  by (simp add: idents_def ident_def)

lemma same_shape_refs: "same_shape s s' \<Longrightarrow> refs_ok s h \<Longrightarrow> refs_ok s' h"
  unfolding refs_ok_idents by (simp add: same_shape_def in_table_def)

lemma same_shape_session: "same_shape s s' \<Longrightarrow> session_ok s h \<Longrightarrow> session_ok s' h"
  using same_shape_table [of s s'] same_shape_refs [of s s' h]
  by (simp add: session_ok_def tree_closed_def same_shape_def)

lemma upd_node_shape: "(\<And>n. nodes s r = Some n \<Longrightarrow> ident (f n) = ident n) \<Longrightarrow> same_shape s (upd_node r f s)"
  by (cases "nodes s r") (auto simp: same_shape_def upd_node_def idents_def fun_eq_iff)

lemma set_info_ident [simp]: "ident (set_info g n) = ident n"
  by (simp add: ident_def)

section \<open>Look-up and the parent directory\<close>

lemma MapGet_abs:
  assumes "table_ok s" "name_ok (CaseInsensitive s) name"
  shows "MemfsFileNodeMapGet e name s = names.map_abs (CaseInsensitive s) (FileNodeMap s) (entry_key s name)"
  using names.find_abs [OF _ assms(2), of "FileNodeMap s" "fns e"] assms(1)
  by (simp add: MemfsFileNodeMapGet_def name_lt_def table_ok_def)

lemma MapGet_Some:
  assumes "table_ok s" "name_ok (CaseInsensitive s) name"
  shows "MemfsFileNodeMapGet e name s = Some r \<longleftrightarrow> (\<exists>k. (k, r) \<in> set (FileNodeMap s) \<and> entry_key s k = entry_key s name)"
  using names.abs_Some [of "CaseInsensitive s" "FileNodeMap s"] MapGet_abs [OF assms] assms(1) by (simp add: table_ok_def)

lemma MapGet_None:
  assumes "table_ok s" "name_ok (CaseInsensitive s) name"
  shows "MemfsFileNodeMapGet e name s = None \<longleftrightarrow> (\<forall>(k, r) \<in> set (FileNodeMap s). entry_key s k \<noteq> entry_key s name)"
  using names.abs_None [of "CaseInsensitive s" "FileNodeMap s"] MapGet_abs [OF assms] by auto

lemma GetParent_total:
  assumes "path_laws e" "table_ok s" "adm_path (CaseInsensitive s) name"
  shows "\<exists>x. MemfsFileNodeMapGetParent e name s = Some x \<and>
    (\<forall>p. x = Inr p \<longrightarrow> (\<exists>k n. (k, p) \<in> set (FileNodeMap s) \<and> entry_key s k = parent_key (entry_key s name) \<and>
       nodes s p = Some n \<and> FileName n = k))"
proof -
  note suf = name_ok_fst_suffix [OF assms(1,3)]
  have ok: "name_ok (CaseInsensitive s) (fst (path_suffix e name))" using suf by (simp add: adm_path_def)
  have len: "\<not> MEMFS_MAX_PATH \<le> length name" using assms(3) by (simp add: adm_path_def)
  show ?thesis
  proof (cases "MemfsFileNodeMapGet e (fst (path_suffix e name)) s")
    case None
    then show ?thesis using len by (simp add: MemfsFileNodeMapGetParent_def)
  next
    case (Some p)
    then obtain k where k: "(k, p) \<in> set (FileNodeMap s)" "entry_key s k = parent_key (entry_key s name)"
      using MapGet_Some [OF assms(2) ok] suf by auto
    obtain n where "nodes s p = Some n" "FileName n = k" using table_okD(2) [OF assms(2) k(1)] by blast
    then show ?thesis using len Some k by (auto simp: MemfsFileNodeMapGetParent_def)
  qed
qed

lemma TouchParent_total:
  assumes "path_laws e" "table_ok s" "adm_path (CaseInsensitive s) name"
  shows "\<exists>s'. MemfsFileNodeMapTouchParent e name s = Some s' \<and> same_shape s s'"
proof -
  obtain x where x: "MemfsFileNodeMapGetParent e name s = Some x" using GetParent_total [OF assms] by blast
  show ?thesis
  proof (cases x)
    case (Inl st)
    then show ?thesis using x by (cases "name = [BSLASH]") (auto simp: MemfsFileNodeMapTouchParent_def)
  next
    case (Inr p)
    have "same_shape s (upd_node p (set_info f) s)" for f by (rule upd_node_shape) simp
    then show ?thesis using x Inr by (cases "name = [BSLASH]") (auto simp: MemfsFileNodeMapTouchParent_def)
  qed
qed

section \<open>Reference counts\<close>

text \<open>The surviving nodes keep their names.\<close>

definition names_kept :: "memfs \<Rightarrow> memfs \<Rightarrow> bool" where
  "names_kept s s' \<longleftrightarrow> (\<forall>q n'. nodes s' q = Some n' \<longrightarrow> (\<exists>n. nodes s q = Some n \<and> FileName n = FileName n'))"

lemma names_keptD: "names_kept s s' \<Longrightarrow> nodes s' q = Some n' \<Longrightarrow> \<exists>n. nodes s q = Some n \<and> FileName n = FileName n'"
  by (simp add: names_kept_def)

lemma names_kept_trans: "names_kept a b \<Longrightarrow> names_kept b c \<Longrightarrow> names_kept a c"
  unfolding names_kept_def by metis

lemma same_shape_names: "same_shape s s' \<Longrightarrow> names_kept s s'"
  unfolding names_kept_def
proof (intro allI impI)
  fix q n'
  assume "same_shape s s'" "nodes s' q = Some n'"
  moreover from this(1) have "idents s' = idents s" by (simp add: same_shape_def)
  then have "idents s' q = idents s q" by simp
  ultimately have "map_option ident (nodes s q) = Some (ident n')" by (simp add: idents_def)
  then show "\<exists>n. nodes s q = Some n \<and> FileName n = FileName n'" by (auto simp: idents_def ident_def)
qed

lemma Reference_ok:
  assumes "refs_ok s h" "table_ok s" "nodes s r \<noteq> None"
  shows "\<exists>s' n'. MemfsFileNodeReference r s = Some s' \<and> table_ok s' \<and> refs_ok s' (add_mset r h) \<and>
    FileNodeMap s' = FileNodeMap s \<and> CaseInsensitive s' = CaseInsensitive s \<and> nodes s' r = Some n' \<and>
    FileInfo n' = FileInfo (the (nodes s r)) \<and> FileName n' = FileName (the (nodes s r)) \<and>
    (\<forall>q. q \<noteq> r \<longrightarrow> nodes s' q = nodes s q)"
proof -
  obtain n where n: "nodes s r = Some n" using assms(3) by blast
  let ?s = "upd_node r (\<lambda>n. n\<lparr>RefCount := RefCount n + 1\<rparr>) s"
  have nd: "nodes ?s = (nodes s)(r \<mapsto> n\<lparr>RefCount := RefCount n + 1\<rparr>)" by (simp add: upd_node_def n)
  have same: "FileNodeMap ?s = FileNodeMap s" "CaseInsensitive ?s = CaseInsensitive s" "fresh_address ?s = fresh_address s"
    by (simp_all add: upd_node_def)
  have "table_ok ?s"
    using assms(2) n unfolding table_ok_def same nd by (fastforce split: if_splits)
  moreover have "refs_ok ?s (add_mset r h)"
    using assms(1) n unfolding refs_ok_def same nd in_table_def by auto
  ultimately show ?thesis using n nd same by (auto simp: MemfsFileNodeReference_def)
qed

lemma Dereference_ok:
  assumes "refs_ok s (add_mset r h)" "table_ok s"
  shows "\<exists>s'. MemfsFileNodeDereference r s = Some s' \<and> table_ok s' \<and> refs_ok s' h \<and>
    FileNodeMap s' = FileNodeMap s \<and> CaseInsensitive s' = CaseInsensitive s \<and> names_kept s s'"
proof -
  obtain n where n: "nodes s r = Some n" using assms(1) by (force simp: refs_ok_def)
  have rc: "RefCount n = int (count h r) + 1 + (if in_table s r then 1 else 0)"
    using assms(1) n by (auto simp: refs_ok_def)
  show ?thesis
  proof (cases "RefCount n - 1 = 0")
    case True
    then have gone: "count h r = 0" "\<not> in_table s r" using rc by (auto split: if_splits)
    let ?s = "MemfsFileNodeDelete r s"
    have nd: "nodes ?s = (nodes s)(r := None)" and same: "FileNodeMap ?s = FileNodeMap s"
      "CaseInsensitive ?s = CaseInsensitive s" "fresh_address ?s = fresh_address s"
      by (simp_all add: MemfsFileNodeDelete_def)
    have "r \<notin> snd ` set (FileNodeMap s)" using gone(2) by (simp add: in_table_def)
    then have "table_ok ?s"
      using assms(2) unfolding table_ok_def same nd by (fastforce simp: image_iff)
    moreover have "refs_ok ?s h"
      using assms(1) gone unfolding refs_ok_def same nd in_table_def by (auto simp: count_eq_zero_iff)
    moreover have "names_kept s ?s" by (auto simp: names_kept_def nd)
    ultimately show ?thesis using n True same by (auto simp: MemfsFileNodeDereference_def)
  next
    case False
    let ?s = "upd_node r (\<lambda>n. n\<lparr>RefCount := RefCount n - 1\<rparr>) s"
    have nd: "nodes ?s = (nodes s)(r \<mapsto> n\<lparr>RefCount := RefCount n - 1\<rparr>)" and same: "FileNodeMap ?s = FileNodeMap s"
      "CaseInsensitive ?s = CaseInsensitive s" "fresh_address ?s = fresh_address s"
      by (simp_all add: upd_node_def n)
    have live: "r \<in># h \<or> in_table s r" using False rc by (auto simp: count_eq_zero_iff [symmetric] split: if_splits)
    have "table_ok ?s"
      using assms(2) n unfolding table_ok_def same nd by (fastforce split: if_splits)
    moreover have "refs_ok ?s h"
      using assms(1) n live rc unfolding refs_ok_def same nd in_table_def by auto
    moreover have "names_kept s ?s" using n by (auto simp: names_kept_def nd)
    ultimately show ?thesis using n False same by (auto simp: MemfsFileNodeDereference_def)
  qed
qed

section \<open>Entering and leaving the table\<close>

lemma Remove_ok:
  assumes "path_laws e" "table_ok s" "refs_ok s h" "nodes s r = Some n" "in_table s r"
  shows "\<exists>s'. MemfsFileNodeMapRemove e r s = Some s' \<and> table_ok s' \<and> refs_ok s' h \<and>
    set (FileNodeMap s') = {p \<in> set (FileNodeMap s). snd p \<noteq> r} \<and> CaseInsensitive s' = CaseInsensitive s \<and>
    names_kept s s'"
proof -
  let ?ci = "CaseInsensitive s"
  have entry: "(FileName n, r) \<in> set (FileNodeMap s)"
  proof -
    obtain k where k: "(k, r) \<in> set (FileNodeMap s)" using assms(5) by (auto simp: in_table_def)
    then show ?thesis using table_okD(2) [OF assms(2) k] assms(4) by auto
  qed
  have adm: "adm_path ?ci (FileName n)" by (rule table_okD(1) [OF assms(2) entry])
  then have ok: "name_ok ?ci (FileName n)" by (simp add: adm_path_def)
  have srt: "names.sorted_map ?ci (FileNodeMap s)" and dist: "distinct (map snd (FileNodeMap s))"
    using assms(2) by (simp_all add: table_ok_def)
  obtain m erased where m: "map_erase (name_lt e s) (FileName n) (FileNodeMap s) = (m, erased)" by fastforce
  note er = names.erase_abs [OF srt ok m [unfolded name_lt_def]]
  have "names.map_abs ?ci (FileNodeMap s) (entry_key s (FileName n)) = Some r"
    using names.abs_Some [OF srt] entry by blast
  then have erased: "erased" using er by simp
  have same: "k = FileName n \<and> q = r" if "(k, q) \<in> set (FileNodeMap s)" "entry_key s k = entry_key s (FileName n) \<or> q = r" for k q
  proof -
    have "q = r"
    proof (cases "q = r")
      case False
      then have "names.map_abs ?ci (FileNodeMap s) (entry_key s (FileName n)) = Some q"
        using names.abs_Some [OF srt] that by metis
      then show ?thesis using \<open>names.map_abs ?ci (FileNodeMap s) (entry_key s (FileName n)) = Some r\<close> by simp
    qed
    moreover have "k = FileName n" using table_okD(2) [OF assms(2) that(1)] assms(4) calculation by auto
    ultimately show ?thesis by blast
  qed
  have iff: "entry_key s (fst p) \<noteq> entry_key s (FileName n) \<longleftrightarrow> snd p \<noteq> r" if "p \<in> set (FileNodeMap s)" for p
    using same [of "fst p" "snd p"] that by auto
  have "set m = {p \<in> set (FileNodeMap s). entry_key s (fst p) \<noteq> entry_key s (FileName n)}" using er by blast
  also have "\<dots> = {p \<in> set (FileNodeMap s). snd p \<noteq> r}" using iff by (intro Collect_cong) blast
  finally have set: "set m = {p \<in> set (FileNodeMap s). snd p \<noteq> r}" .
  let ?s = "s\<lparr>FileNodeMap := m\<rparr>"
  have dm: "distinct (map snd m)"
  proof (rule card_distinct)
    have "set (map snd m) = set (map snd (FileNodeMap s)) - {r}" using set by auto
    moreover have "card (set (map snd (FileNodeMap s))) = length (FileNodeMap s)" using dist by (metis distinct_card length_map)
    moreover have "r \<in> set (map snd (FileNodeMap s))" using entry by force
    ultimately show "card (set (map snd m)) = length (map snd m)" using er erased by (simp add: card_Diff_singleton)
  qed
  have "\<forall>(k, q) \<in> set m. adm_path ?ci k \<and> (\<exists>n. nodes s q = Some n \<and> FileName n = k)"
    using table_okD [OF assms(2)] unfolding set by auto
  then have t: "table_ok ?s"
    using assms(2) er dm by (simp add: table_ok_def)
  have gone: "\<not> in_table ?s r" "\<And>q. q \<noteq> r \<Longrightarrow> in_table ?s q = in_table s q"
    by (force simp: in_table_def set)+
  have rc: "RefCount n = int (count h r) + 1" using assms(3-5) by (auto simp: refs_ok_def)
  have f: "refs_ok ?s (add_mset r h)"
    using assms(3-5) gone rc unfolding refs_ok_def by (auto simp: in_table_def)
  obtain s1 where s1: "MemfsFileNodeMapTouchParent e (FileName n) ?s = Some s1" "same_shape ?s s1"
    using TouchParent_total [OF assms(1) t, of "FileName n"] adm by auto
  obtain s2 where s2: "MemfsFileNodeDereference r s1 = Some s2" "table_ok s2" "refs_ok s2 h"
    "FileNodeMap s2 = FileNodeMap s1" "CaseInsensitive s2 = CaseInsensitive s1" "names_kept s1 s2"
    using Dereference_ok [OF same_shape_refs [OF s1(2) f] same_shape_table [OF s1(2) t]] by blast
  have "MemfsFileNodeMapRemove e r s = Some s2"
    using assms(4) m erased s1(1) s2(1) by (simp add: MemfsFileNodeMapRemove_def)
  moreover have "names_kept s s2"
    using names_kept_trans [OF same_shape_names [OF s1(2)] s2(6)] by (simp add: names_kept_def)
  ultimately show ?thesis using s1(2) s2 set by (auto simp: same_shape_def)
qed

text \<open>A fresh node enters the table.\<close>

lemma Insert_new:
  assumes "path_laws e" "table_ok s" "refs_ok s h" "fresh_address s \<le> r"
    and s1: "FileNodeMap s1 = FileNodeMap s" "CaseInsensitive s1 = CaseInsensitive s" "nodes s1 = (nodes s)(r \<mapsto> n)"
      "fresh_address s1 = Suc r"
    and n: "RefCount n = 0" "adm_path (CaseInsensitive s) (FileName n)"
      "\<forall>(k, q) \<in> set (FileNodeMap s). entry_key s k \<noteq> entry_key s (FileName n)"
  shows "MemfsFileNodeMapInsert e r s1 = Some (STATUS_INSUFFICIENT_RESOURCES, False, s1) \<and> \<not> table_grows e \<or>
    (\<exists>s2. MemfsFileNodeMapInsert e r s1 = Some (STATUS_SUCCESS, True, s2) \<and> table_grows e \<and> table_ok s2 \<and> refs_ok s2 h \<and>
      set (FileNodeMap s2) = insert (FileName n, r) (set (FileNodeMap s)) \<and> CaseInsensitive s2 = CaseInsensitive s \<and>
      length (FileNodeMap s2) = Suc (length (FileNodeMap s)))"
proof (cases "table_grows e")
  case False
  then show ?thesis using s1(3) by (simp add: MemfsFileNodeMapInsert_def)
next
  case True
  let ?ci = "CaseInsensitive s"
  have srt: "names.sorted_map ?ci (FileNodeMap s)" using assms(2) by (simp add: table_ok_def)
  have ok: "name_ok ?ci (FileName n)" using n(2) by (simp add: adm_path_def)
  have free: "nodes s r = None" using assms(2,4) by (simp add: table_ok_def)
  have notin: "r \<notin> snd ` set (FileNodeMap s)" "r \<notin># h"
  proof -
    have "(nodes s r \<noteq> None) = (r \<in># h \<or> in_table s r)" using assms(3) unfolding refs_ok_def by blast
    then show "r \<notin> snd ` set (FileNodeMap s)" "r \<notin># h" using free by (simp_all add: in_table_def)
  qed
  obtain m ins where m: "map_insert (name_lt e s1) (FileName n) r (FileNodeMap s) = (m, ins)" by fastforce
  have m': "map_insert (file_node_less (fns e) ?ci) (FileName n) r (FileNodeMap s) = (m, ins)"
    using m by (simp add: name_lt_def s1(2))
  have none: "names.map_abs ?ci (FileNodeMap s) (entry_key s (FileName n)) = None"
    using names.abs_None [of ?ci "FileNodeMap s"] n(3) by auto
  note ia = names.insert_abs [OF srt ok m']
  have ins: "ins" "set m = insert (FileName n, r) (set (FileNodeMap s))" "length m = Suc (length (FileNodeMap s))"
    "names.sorted_map ?ci m" using ia none by simp_all
  let ?n1 = "n\<lparr>RefCount := RefCount n + 1\<rparr>"
  let ?s = "s1\<lparr>FileNodeMap := m\<rparr>"
  let ?s2 = "upd_node r (\<lambda>n. n\<lparr>RefCount := RefCount n + 1\<rparr>) ?s"
  have f2: "FileNodeMap ?s2 = m" "CaseInsensitive ?s2 = ?ci" "fresh_address ?s2 = Suc r" "nodes ?s2 = (nodes s)(r \<mapsto> ?n1)"
    using s1 by (simp_all add: upd_node_def)
  have dist: "distinct (map snd m)"
  proof -
    have "card (set (map snd m)) = length (map snd m)"
    proof -
      have "set (map snd m) = insert r (set (map snd (FileNodeMap s)))" using ins(2) by auto
      moreover have "distinct (map snd (FileNodeMap s))" using assms(2) by (simp add: table_ok_def)
      then have "card (set (map snd (FileNodeMap s))) = length (FileNodeMap s)" by (metis distinct_card length_map)
      ultimately show ?thesis using notin(1) ins(3) by simp
    qed
    then show ?thesis by (rule card_distinct)
  qed
  have old: "\<exists>nd. ((nodes s)(r \<mapsto> ?n1)) q = Some nd \<and> FileName nd = k" if "(k, q) \<in> set m" for k q
  proof (cases "q = r")
    case True
    then have "k = FileName n" using that notin(1) ins(2) by force
    then show ?thesis using True by simp
  next
    case False
    then have "(k, q) \<in> set (FileNodeMap s)" using that ins(2) by auto
    then show ?thesis using table_okD(2) [OF assms(2)] False by auto
  qed
  have adms: "adm_path ?ci k" if "(k, q) \<in> set m" for k q
    using that ins(2) n(2) table_okD(1) [OF assms(2)] by auto
  have fresh: "((nodes s)(r \<mapsto> ?n1)) q = None" if "Suc r \<le> q" for q
    using that assms(2,4) by (auto simp: table_ok_def)
  have both: "\<forall>(k, q) \<in> set m. adm_path ?ci k \<and> (\<exists>nd. ((nodes s)(r \<mapsto> ?n1)) q = Some nd \<and> FileName nd = k)"
    using old adms by blast
  have t: "table_ok ?s2"
    unfolding table_ok_def f2 using ins(4) both dist fresh by blast
  have it: "in_table ?s2 q \<longleftrightarrow> q = r \<or> in_table s q" for q by (auto simp: in_table_def f2(1) ins(2))
  have rf: "refs_ok ?s2 h"
    using assms(3) notin n(1,2) unfolding refs_ok_def f2(2,4) it by (auto simp: count_eq_zero_iff [symmetric] in_table_def)
  obtain s3 where s3: "MemfsFileNodeMapTouchParent e (FileName n) ?s2 = Some s3" "same_shape ?s2 s3"
    using TouchParent_total [OF assms(1) t, of "FileName n"] n(2) f2(2) by auto
  have "MemfsFileNodeReference r ?s = Some ?s2" using s1(3) by (simp add: MemfsFileNodeReference_def)
  then have "MemfsFileNodeMapInsert e r s1 = Some (STATUS_SUCCESS, True, s3)"
    using True s1(1,3) m ins(1) s3(1) by (simp add: MemfsFileNodeMapInsert_def)
  then show ?thesis
    using True s3(2) same_shape_table [OF s3(2) t] same_shape_refs [OF s3(2) rf] ins f2 by (auto simp: same_shape_def)
qed

section \<open>The handlers keep the invariant\<close>

lemma session_okD: "session_ok s h \<Longrightarrow> table_ok s \<and> tree_closed s \<and> refs_ok s h"
  by (simp add: session_ok_def)

lemma Open_session:
  assumes "path_laws e" "session_ok s h" "adm_path (CaseInsensitive s) name"
  shows "\<exists>st res s'. MemfsOpen e name s = Some (st, res, s') \<and>
    session_ok s' (case res of None \<Rightarrow> h | Some (r, i, nm) \<Rightarrow> add_mset r h) \<and>
    (if MemfsFileNodeMapGet e name s = None then res = None \<and> st \<noteq> STATUS_SUCCESS \<and> s' = s
     else st = STATUS_SUCCESS \<and> (\<exists>r i nm. res = Some (r, i, nm) \<and> MemfsFileNodeMapGet e name s = Some r))"
proof -
  note ok = session_okD [OF assms(2)]
  have nm: "name_ok (CaseInsensitive s) name" "\<not> MEMFS_MAX_PATH \<le> length name" using assms(3) by (simp_all add: adm_path_def)
  show ?thesis
  proof (cases "MemfsFileNodeMapGet e name s")
    case None
    obtain x where x: "MemfsFileNodeMapGetParent e name s = Some x" using GetParent_total [OF assms(1) _ assms(3)] ok by blast
    have "x = Inl st \<Longrightarrow> st \<noteq> STATUS_SUCCESS" for st
      using x by (auto simp: MemfsFileNodeMapGetParent_def split: option.splits if_splits)
    then show ?thesis using None nm(2) x assms(2) by (cases x) (simp_all add: MemfsOpen_def)
  next
    case (Some r)
    then obtain k where k: "(k, r) \<in> set (FileNodeMap s)" using MapGet_Some [OF _ nm(1)] ok by blast
    then have "nodes s r \<noteq> None" using table_okD(2) [of s k r] ok by auto
    then obtain s' n' where r: "MemfsFileNodeReference r s = Some s'" "table_ok s'" "refs_ok s' (add_mset r h)"
      "FileNodeMap s' = FileNodeMap s" "CaseInsensitive s' = CaseInsensitive s" "nodes s' r = Some n'"
      using Reference_ok [of s h r] ok by blast
    have "session_ok s' (add_mset r h)" using r ok by (simp add: session_ok_def tree_closed_def)
    then show ?thesis using Some nm(2) r(1,6) by (simp add: MemfsOpen_def)
  qed
qed

lemma Close_session:
  assumes "session_ok s h" "r \<in># h"
  shows "\<exists>s'. MemfsClose r s = Some s' \<and> session_ok s' (h - {#r#})"
proof -
  note ok = session_okD [OF assms(1)]
  have h: "add_mset r (h - {#r#}) = h" using assms(2) by simp
  obtain s' where s': "MemfsFileNodeDereference r s = Some s'" "table_ok s'" "refs_ok s' (h - {#r#})"
    "FileNodeMap s' = FileNodeMap s" "CaseInsensitive s' = CaseInsensitive s"
    using Dereference_ok [of s r "h - {#r#}"] ok unfolding h by blast
  then show ?thesis using ok by (simp add: MemfsClose_def session_ok_def tree_closed_def)
qed

text \<open>Changing a node without touching its name and its count.\<close>

lemma node_change_shape:
  assumes "nodes s r = Some n" "ident n' = ident n"
  shows "same_shape s (s\<lparr>nodes := (nodes s)(r \<mapsto> n')\<rparr>)"
  using assms by (auto simp: same_shape_def idents_def fun_eq_iff)

lemma SetAllocation_ident: "SetAllocation h al mx N n = (st, n') \<Longrightarrow> ident n' = ident n"
  by (auto simp: SetAllocation_def Let_def ident_def split: if_splits)

lemma Cleanup_session:
  assumes "path_laws e" "session_ok s h" "r \<in># h" "CleanupDelete fl \<Longrightarrow> in_table s r"
  shows "\<exists>s'. MemfsCleanup e r fl s = Some s' \<and> session_ok s' h"
proof -
  note ok = session_okD [OF assms(2)]
  obtain n where n: "nodes s r = Some n" using ok assms(3) unfolding refs_ok_def by blast
  let ?s1 = "upd_node r (set_info (cleanup_info e fl)) s"
  have sh1: "same_shape s ?s1" by (rule upd_node_shape) simp
  have n1: "nodes ?s1 r = Some (set_info (cleanup_info e fl) n)" by (simp add: upd_node_def n)
  define s2 where "s2 = (if SetAllocationSizeFlag fl
    then ?s1\<lparr>nodes := (nodes ?s1)(r \<mapsto> snd (SetAllocation (win e) (LargeHeapAlignment e) (MaxFileSize s)
        ((FileSize (FileInfo (set_info (cleanup_info e fl) n)) + AllocationUnit - 1) div AllocationUnit * AllocationUnit)
        (set_info (cleanup_info e fl) n)))\<rparr>
    else ?s1)"
  have sh2: "same_shape s s2"
  proof (cases "SetAllocationSizeFlag fl")
    case True
    then have "same_shape ?s1 s2" unfolding s2_def if_P [OF True]
      using SetAllocation_ident by (intro node_change_shape [OF n1]) (metis prod.collapse)
    then show ?thesis using sh1 same_shape_trans by blast
  qed (use sh1 in \<open>simp add: s2_def\<close>)
  have ok2: "session_ok s2 h" by (rule same_shape_session [OF sh2 assms(2)])
  obtain n2 where n2: "nodes s2 r = Some n2" "FileName n2 = FileName n"
    using sh2 n by (cases "nodes s2 r") (auto simp: same_shape_def idents_def ident_def fun_eq_iff dest!: spec [of _ r])
  have run: "MemfsCleanup e r fl s =
    (if CleanupDelete fl then do { child \<leftarrow> MemfsFileNodeMapHasChild e r s2; if \<not> child then MemfsFileNodeMapRemove e r s2 else Some s2 }
     else Some s2)"
    using n n1 by (cases "SetAllocationSizeFlag fl"; cases "CleanupDelete fl")
      (simp_all add: MemfsCleanup_def s2_def SetFileSizeInternal_def case_prod_beta Let_def cong: if_cong)
  show ?thesis
  proof (cases "CleanupDelete fl")
    case False
    then show ?thesis using run ok2 by simp
  next
    case True
    have it: "in_table s2 r" using assms(4) [OF True] sh2 by (simp add: same_shape_def in_table_def)
    have adm: "adm_path (CaseInsensitive s2) (FileName n2)"
      using ok2 n2(1) unfolding session_ok_def refs_ok_def by blast
    have hc: "MemfsFileNodeMapHasChild e r s2 = Some (\<exists>(k, q) \<in> set (FileNodeMap s2). is_child s2 (FileName n2) k)"
      using HasChild_correct [OF assms(1) _ _ n2(1) adm] ok2 by (simp add: session_ok_def)
    show ?thesis
    proof (cases "\<exists>(k, q) \<in> set (FileNodeMap s2). is_child s2 (FileName n2) k")
      case True
      then show ?thesis using run \<open>CleanupDelete fl\<close> hc ok2 by simp
    next
      case False
      obtain s' where s': "MemfsFileNodeMapRemove e r s2 = Some s'" "table_ok s'" "refs_ok s' h"
        "set (FileNodeMap s') = {p \<in> set (FileNodeMap s2). snd p \<noteq> r}" "CaseInsensitive s' = CaseInsensitive s2"
        using Remove_ok [OF assms(1) _ _ n2(1) it] ok2 by (auto simp: session_ok_def)
      have "\<exists>p \<in> set (FileNodeMap s'). entry_key s' (fst p) = parent_key (entry_key s' k)"
        if kq: "(k, q) \<in> set (FileNodeMap s')" "k \<noteq> [BSLASH]" for k q
      proof -
        have "(k, q) \<in> set (FileNodeMap s2)" using kq s'(4) by simp
        then obtain k2 q2 where p: "(k2, q2) \<in> set (FileNodeMap s2)" "entry_key s2 k2 = parent_key (entry_key s2 k)"
          using ok2 kq(2) by (fastforce simp: session_ok_def tree_closed_def)
        have "q2 \<noteq> r"
        proof
          assume "q2 = r"
          then have "k2 = FileName n2" using table_okD(2) [OF _ p(1)] ok2 n2(1) by (auto simp: session_ok_def)
          then have "is_child s2 (FileName n2) k" using p(2) kq(2) by (simp add: is_child_def)
          then show False using False \<open>(k, q) \<in> set (FileNodeMap s2)\<close> by blast
        qed
        then have "(k2, q2) \<in> set (FileNodeMap s')" using p(1) s'(4) by simp
        then show ?thesis using p(2) s'(5) by force
      qed
      then have "tree_closed s'" by (fastforce simp: tree_closed_def)
      then show ?thesis using run \<open>CleanupDelete fl\<close> hc False s'(1-3) by (simp add: session_ok_def)
    qed
  qed
qed

section \<open>Creating\<close>

text \<open>A state that differs from \<open>s\<close> by one fresh node that is in no table yet.\<close>

definition with_fresh :: "memfs \<Rightarrow> file_node \<Rightarrow> memfs \<Rightarrow> bool" where
  "with_fresh s n s1 \<longleftrightarrow> FileNodeMap s1 = FileNodeMap s \<and> CaseInsensitive s1 = CaseInsensitive s \<and>
     nodes s1 = (nodes s)(fresh_address s \<mapsto> n) \<and> fresh_address s1 = Suc (fresh_address s)"

lemma with_fresh_upd:
  "with_fresh s n s1 \<Longrightarrow> with_fresh s (f n) (upd_node (fresh_address s) f s1)"
  by (simp add: with_fresh_def upd_node_def)

lemma delete_fresh:
  assumes "session_ok s h" "with_fresh s n s1"
  shows "session_ok (MemfsFileNodeDelete (fresh_address s) s1) h \<and>
    FileNodeMap (MemfsFileNodeDelete (fresh_address s) s1) = FileNodeMap s \<and>
    nodes (MemfsFileNodeDelete (fresh_address s) s1) = nodes s"
proof -
  let ?s = "MemfsFileNodeDelete (fresh_address s) s1"
  have free: "nodes s (fresh_address s) = None" using assms(1) by (simp add: session_ok_def table_ok_def)
  have f: "FileNodeMap ?s = FileNodeMap s" "CaseInsensitive ?s = CaseInsensitive s" "nodes ?s = nodes s"
    "fresh_address ?s = Suc (fresh_address s)"
    using assms(2) free by (auto simp: with_fresh_def MemfsFileNodeDelete_def fun_eq_iff)
  have "table_ok ?s" using assms(1) unfolding session_ok_def table_ok_def f by auto
  moreover have "tree_closed ?s" using assms(1) unfolding session_ok_def tree_closed_def f by blast
  moreover have "refs_ok ?s h" using assms(1) unfolding session_ok_def refs_ok_def in_table_def f by blast
  ultimately show ?thesis using f by (simp add: session_ok_def)
qed

lemma finish_create_ok:
  assumes "path_laws e" "session_ok s h" "with_fresh s n s1" "RefCount n = 0" "adm_path (CaseInsensitive s) (FileName n)"
    and new: "\<forall>(k, q) \<in> set (FileNodeMap s). entry_key s k \<noteq> entry_key s (FileName n)"
    and parent: "\<exists>p \<in> set (FileNodeMap s). entry_key s (fst p) = parent_key (entry_key s (FileName n))"
  shows "\<exists>st res s'. finish_create e attributes sd allocation (fresh_address s) s1 = Some (st, res, s') \<and>
    (res = None \<and> st \<noteq> STATUS_SUCCESS \<and> session_ok s' h \<and> FileNodeMap s' = FileNodeMap s \<and> nodes s' = nodes s \<or>
     st = STATUS_SUCCESS \<and> (\<exists>i nm. res = Some (fresh_address s, i, nm)) \<and> session_ok s' (add_mset (fresh_address s) h) \<and>
       set (FileNodeMap s') = insert (FileName n, fresh_address s) (set (FileNodeMap s)) \<and>
       CaseInsensitive s' = CaseInsensitive s)"
proof -
  let ?r = "fresh_address s"
  define s2 where "s2 = upd_node ?r (set_info (\<lambda>i. i\<lparr>FileAttributes :=
            if attributes AND FILE_ATTRIBUTE_DIRECTORY \<noteq> 0 then attributes
            else attributes OR FILE_ATTRIBUTE_ARCHIVE\<rparr>)) s1"
  define s3 where "s3 = (case sd of None \<Rightarrow> s2
     | Some d \<Rightarrow> upd_node ?r (\<lambda>n. n\<lparr>FileSecuritySize := length d, FileSecurity := Some d\<rparr>) s2)"
  define data where "data = (if allocation \<noteq> 0 then LargeHeapAlloc (win e) (LargeHeapAlignment e) (unat allocation) else None)"
  define s4 where "s4 = upd_node ?r (\<lambda>n. set_info (\<lambda>i. i\<lparr>AllocationSize := allocation\<rparr>) (n\<lparr>FileData := data\<rparr>)) s3"
  obtain n2 where n2: "with_fresh s n2 s2" "ident n2 = ident n"
    unfolding s2_def using with_fresh_upd [OF assms(3)] set_info_ident by blast
  obtain n3 where n3: "with_fresh s n3 s3" "ident n3 = ident n"
  proof (cases sd)
    case None
    then show ?thesis using that n2 by (simp add: s3_def)
  next
    case (Some d)
    show ?thesis
      by (rule that [of "n2\<lparr>FileSecuritySize := length d, FileSecurity := Some d\<rparr>"])
        (use n2 Some with_fresh_upd [OF n2(1)] in \<open>simp_all add: s3_def ident_def\<close>)
  qed
  obtain n4 where n4: "with_fresh s n4 s4" "ident n4 = ident n"
    by (rule that [of "set_info (\<lambda>i. i\<lparr>AllocationSize := allocation\<rparr>) (n3\<lparr>FileData := data\<rparr>)"])
      (use n3 with_fresh_upd [OF n3(1)] in \<open>simp_all add: s4_def ident_def\<close>)
  have run: "finish_create e attributes sd allocation ?r s1 =
    (if (case sd of None \<Rightarrow> False | Some sd \<Rightarrow> \<not> malloc e (length sd))
     then Some (STATUS_INSUFFICIENT_RESOURCES, None, MemfsFileNodeDelete ?r s2)
     else if allocation \<noteq> 0 \<and> data = None then Some (STATUS_INSUFFICIENT_RESOURCES, None, MemfsFileNodeDelete ?r s4)
     else do {
              (st, inserted, s5) \<leftarrow> MemfsFileNodeMapInsert e ?r s4;
              if st \<noteq> STATUS_SUCCESS \<or> \<not> inserted
              then Some (if st = STATUS_SUCCESS then STATUS_OBJECT_NAME_COLLISION else st, None, MemfsFileNodeDelete ?r s5)
              else do {
                s6 \<leftarrow> MemfsFileNodeReference ?r s5;
                n \<leftarrow> nodes s6 ?r;
                Some (STATUS_SUCCESS,
                      Some (?r, MemfsFileNodeGetFileInfo n, if CaseInsensitive s6 then Some (FileName n) else None), s6)
              }
            })"
    unfolding finish_create_def Let_def s2_def [symmetric] s3_def [symmetric] data_def [symmetric] s4_def [symmetric] by (rule refl)
  show ?thesis
  proof (cases "case sd of None \<Rightarrow> False | Some sd \<Rightarrow> \<not> malloc e (length sd)")
    case True
    then show ?thesis using run delete_fresh [OF assms(2) n2(1)] by simp
  next
    case sd: False
    show ?thesis
    proof (cases "allocation \<noteq> 0 \<and> data = None")
      case True
      then show ?thesis using run sd delete_fresh [OF assms(2) n4(1)] by simp
    next
      case False
      have id4: "RefCount n4 = 0" "FileName n4 = FileName n" using n4(2) assms(4) by (simp_all add: ident_def)
      have ok: "table_ok s" "refs_ok s h" "tree_closed s" using assms(2) by (simp_all add: session_ok_def)
      have wf: "FileNodeMap s4 = FileNodeMap s" "CaseInsensitive s4 = CaseInsensitive s" "nodes s4 = (nodes s)(?r \<mapsto> n4)"
        "fresh_address s4 = Suc ?r" using n4(1) by (simp_all add: with_fresh_def)
      have adm4: "adm_path (CaseInsensitive s) (FileName n4)"
        "\<forall>(k, q) \<in> set (FileNodeMap s). entry_key s k \<noteq> entry_key s (FileName n4)"
        using assms(5) new id4(2) by simp_all
      from Insert_new [OF assms(1) ok(1,2) order_refl wf id4(1) adm4] show ?thesis
      proof
        assume "MemfsFileNodeMapInsert e ?r s4 = Some (STATUS_INSUFFICIENT_RESOURCES, False, s4) \<and> \<not> table_grows e"
        then show ?thesis using run sd False delete_fresh [OF assms(2) n4(1)] by simp
      next
        assume "\<exists>s2. MemfsFileNodeMapInsert e ?r s4 = Some (STATUS_SUCCESS, True, s2) \<and> table_grows e \<and> table_ok s2 \<and>
          refs_ok s2 h \<and> set (FileNodeMap s2) = insert (FileName n4, ?r) (set (FileNodeMap s)) \<and>
          CaseInsensitive s2 = CaseInsensitive s \<and> length (FileNodeMap s2) = Suc (length (FileNodeMap s))"
        then obtain s5 where s5: "MemfsFileNodeMapInsert e ?r s4 = Some (STATUS_SUCCESS, True, s5)" "table_ok s5" "refs_ok s5 h"
          "set (FileNodeMap s5) = insert (FileName n, ?r) (set (FileNodeMap s))" "CaseInsensitive s5 = CaseInsensitive s"
          using id4(2) by auto
        have "nodes s5 ?r \<noteq> None" using table_okD(2) [OF s5(2), of "FileName n" ?r] s5(4) by auto
        from Reference_ok [OF s5(3,2) this] obtain s6 n6 where s6: "MemfsFileNodeReference ?r s5 = Some s6" "table_ok s6"
          "refs_ok s6 (add_mset ?r h)" "FileNodeMap s6 = FileNodeMap s5" "CaseInsensitive s6 = CaseInsensitive s5"
          "nodes s6 ?r = Some n6" by blast
        have "tree_closed s6"
        proof -
          have "\<exists>p \<in> set (FileNodeMap s6). entry_key s6 (fst p) = parent_key (entry_key s6 k)"
            if kq: "(k, q) \<in> set (FileNodeMap s6)" "k \<noteq> [BSLASH]" for k q
          proof (cases "(k, q) \<in> set (FileNodeMap s)")
            case True
            then obtain p where "p \<in> set (FileNodeMap s)" "entry_key s (fst p) = parent_key (entry_key s k)"
              using ok(3) kq(2) by (fastforce simp: tree_closed_def)
            then show ?thesis using s5(4,5) s6(4,5) by auto
          next
            case False
            then have "k = FileName n" using kq(1) s5(4) s6(4) by auto
            then show ?thesis using parent s5(4,5) s6(4,5) by auto
          qed
          then show ?thesis by (fastforce simp: tree_closed_def)
        qed
        then show ?thesis using run sd False s5 s6 by (simp add: session_ok_def)
      qed
    qed
  qed
qed

lemma normalized_ok:
  assumes "path_laws e" "adm_path (CaseInsensitive s) name" "adm_path (CaseInsensitive s) dir"
    and "entry_key s dir = parent_key (entry_key s name)" "entry_key s dir \<noteq> entry_key s name"
  shows "entry_key s (normalized_name e s dir name) = entry_key s name \<and>
    (\<not> (CaseInsensitive s \<and> MEMFS_MAX_PATH \<le> length (normalized_name e s dir name)) \<longrightarrow>
       adm_path (CaseInsensitive s) (normalized_name e s dir name))"
proof (cases "CaseInsensitive s")
  case False
  then show ?thesis using assms(2) by (simp add: normalized_name_def)
next
  case True
  let ?ci = "CaseInsensitive s"
  obtain cs where cs: "comps_ok cs" "name = path_of cs" "entry_key s name = path_key ?ci cs" "name_ok ?ci name"
    using adm_pathE [OF assms(2)] by blast
  obtain ds where ds: "comps_ok ds" "dir = path_of ds" "entry_key s dir = path_key ?ci ds" "name_ok ?ci dir"
    using adm_pathE [OF assms(3)] by blast
  have csne: "cs \<noteq> []"
  proof
    assume "cs = []"
    then show False using assms(4,5) cs(3) by (simp add: path_key_def parent_key_def)
  qed
  then obtain as c where ac: "cs = as @ [c]" by (cases cs rule: rev_cases) auto
  have key: "path_key ?ci ds = path_key ?ci as"
    using assms(4) cs(3) ds(3) path_key_butlast [of ?ci cs] ac by simp
  then have root: "ds = [] \<longleftrightarrow> as = []"
    using path_key_root [OF ds(1), of ?ci] path_key_root [of as ?ci] cs(1) ac by auto
  have suf: "snd (path_suffix e name) = c" using assms(1) cs(1,2) csne ac by (simp add: path_laws_def)
  have "1 < length dir \<longleftrightarrow> ds \<noteq> []"
  proof (cases ds)
    case (Cons d ds')
    then show ?thesis using ds(1,2) by (cases d) (simp_all add: path_of_def comp_ok_def)
  qed (simp add: ds(2) path_of_def)
  then have nn: "normalized_name e s dir name = path_of (ds @ [c])"
    using True suf ds(2) by (cases "ds = []") (simp_all add: normalized_name_def path_of_def)
  have okc: "comps_ok (ds @ [c])" using ds(1) cs(1) ac by simp
  have "path_key ?ci (ds @ [c]) = path_key ?ci cs"
    using key root ac by (cases "ds = []") (simp_all add: path_key_def)
  then have k: "entry_key s (normalized_name e s dir name) = entry_key s name"
    using nn name_key_path [OF okc, of ?ci] cs(3) by simp
  have "name_ok ?ci (BSLASH # c)" using cs(2,4) ac by (cases "as = []") (simp_all add: path_of_def)
  then have "name_ok ?ci (path_of (ds @ [c]))" using ds(2,4) by (cases "ds = []") (simp_all add: path_of_def)
  moreover have "is_path (path_of (ds @ [c]))" unfolding is_path_def using okc by blast
  ultimately show ?thesis using k True nn by (simp add: adm_path_def not_le)
qed

lemma Create_session:
  assumes "path_laws e" "session_ok s h" "adm_path (CaseInsensitive s) name"
  shows "\<exists>st res s'. MemfsCreate e name options attributes sd allocation s = Some (st, res, s') \<and>
    (res = None \<and> st \<noteq> STATUS_SUCCESS \<and> session_ok s' h \<and> FileNodeMap s' = FileNodeMap s \<and> nodes s' = nodes s \<or>
     st = STATUS_SUCCESS \<and> MemfsFileNodeMapGet e name s = None \<and>
       (\<exists>r i nm. res = Some (r, i, nm) \<and> nodes s r = None \<and> session_ok s' (add_mset r h) \<and>
          MemfsFileNodeMapGet e name s' = Some r \<and> CaseInsensitive s' = CaseInsensitive s \<and>
          (\<exists>k. set (FileNodeMap s') = insert (k, r) (set (FileNodeMap s)))))"
proof -
  note ok = session_okD [OF assms(2)]
  let ?ci = "CaseInsensitive s"
  let ?alloc = "if options AND FILE_DIRECTORY_FILE \<noteq> 0 then 0 else allocation"
  have nm: "name_ok ?ci name" "\<not> MEMFS_MAX_PATH \<le> length name" using assms(3) by (simp_all add: adm_path_def)
  show ?thesis
  proof (cases "MemfsFileNodeMapGet e name s")
    case (Some r)
    then show ?thesis using nm(2) assms(2) by (simp add: MemfsCreate_def Let_def)
  next
    case none: None
    obtain x where x: "MemfsFileNodeMapGetParent e name s = Some x"
      "\<forall>p. x = Inr p \<longrightarrow> (\<exists>k n. (k, p) \<in> set (FileNodeMap s) \<and> entry_key s k = parent_key (entry_key s name) \<and>
         nodes s p = Some n \<and> FileName n = k)"
      using GetParent_total [OF assms(1) _ assms(3)] ok by blast
    show ?thesis
    proof (cases x)
      case (Inl st)
      have "st \<noteq> STATUS_SUCCESS" using x(1) Inl by (auto simp: MemfsFileNodeMapGetParent_def split: option.splits if_splits)
      then show ?thesis using nm(2) none x(1) Inl assms(2) by (simp add: MemfsCreate_def Let_def)
    next
      case (Inr p)
      then obtain n where p: "(FileName n, p) \<in> set (FileNodeMap s)"
        "entry_key s (FileName n) = parent_key (entry_key s name)" "nodes s p = Some n" using x(2) by blast
      have new: "\<forall>(k, q) \<in> set (FileNodeMap s). entry_key s k \<noteq> entry_key s name"
        using MapGet_None [of s name e] none nm(1) ok by blast
      have dir: "adm_path ?ci (FileName n)" using table_okD(1) [of s "FileName n" p] p(1) ok by blast
      have ne: "entry_key s (FileName n) \<noteq> entry_key s name" using new p(1) by fastforce
      let ?name = "normalized_name e s (FileName n) name"
      note norm = normalized_ok [OF assms(1,3) dir p(2) ne]
      consider (full) "MemfsFileNodeMapCount s \<ge> unat (MaxFileNodes s)"
        | (large) "\<not> MemfsFileNodeMapCount s \<ge> unat (MaxFileNodes s)" "?alloc > ucast (MaxFileSize s)"
        | (long) "\<not> MemfsFileNodeMapCount s \<ge> unat (MaxFileNodes s)" "\<not> ?alloc > ucast (MaxFileSize s)"
            "?ci \<and> MEMFS_MAX_PATH \<le> length ?name"
        | (nomem) "\<not> MemfsFileNodeMapCount s \<ge> unat (MaxFileNodes s)" "\<not> ?alloc > ucast (MaxFileSize s)"
            "\<not> (?ci \<and> MEMFS_MAX_PATH \<le> length ?name)" "\<not> node_malloc e"
        | (go) "\<not> MemfsFileNodeMapCount s \<ge> unat (MaxFileNodes s)" "\<not> ?alloc > ucast (MaxFileSize s)"
            "\<not> (?ci \<and> MEMFS_MAX_PATH \<le> length ?name)" "node_malloc e" by blast
      then show ?thesis
      proof cases
        case full
        then show ?thesis using nm(2) none x(1) Inr assms(2) by (simp add: MemfsCreate_def Let_def)
      next
        case large
        then show ?thesis using nm(2) none x(1) Inr assms(2) by (simp add: MemfsCreate_def Let_def)
      next
        case long
        then show ?thesis using nm(2) none x(1) Inr assms(2) p(3) by (simp add: MemfsCreate_def Let_def)
      next
        case nomem
        then show ?thesis using nm(2) none x(1) Inr assms(2) p(3)
          by (simp add: MemfsCreate_def Let_def MemfsFileNodeCreate_def)
      next
        case go
        have adm: "adm_path ?ci ?name" using norm go(3) by blast
        then have len: "\<not> MEMFS_MAX_PATH \<le> length ?name" by (simp add: adm_path_def)
        define nd where "nd = \<lparr>FileName = ?name, FileInfo = zero_info\<lparr>CreationTime := now e, LastAccessTime := now e,
            LastWriteTime := now e, ChangeTime := now e, IndexNumber := next_index s\<rparr>, FileSecuritySize = 0,
            FileSecurity = None, FileData = None, RefCount = 0\<rparr>"
        define s1 where "s1 = s\<lparr>nodes := (nodes s)(fresh_address s \<mapsto> nd), fresh_address := Suc (fresh_address s),
            next_index := next_index s + 1\<rparr>"
        have mk: "MemfsFileNodeCreate e ?name s = Some (STATUS_SUCCESS, Some (fresh_address s), s1)"
          using go(4) len by (simp add: MemfsFileNodeCreate_def s1_def nd_def Let_def)
        have w: "with_fresh s nd s1" by (simp add: with_fresh_def s1_def)
        have fn: "FileName nd = ?name" "RefCount nd = 0" by (simp_all add: nd_def)
        have run: "MemfsCreate e name options attributes sd allocation s =
            finish_create e attributes sd ?alloc (fresh_address s) s1"
          using nm(2) none x(1) Inr p(3) go mk by (auto simp: MemfsCreate_def Let_def)
        have par: "\<exists>q \<in> set (FileNodeMap s). entry_key s (fst q) = parent_key (entry_key s (FileName nd))"
          using p(1,2) norm fn(1) by force
        have new': "\<forall>(k, q) \<in> set (FileNodeMap s). entry_key s k \<noteq> entry_key s (FileName nd)"
          using new norm fn(1) by simp
        obtain st res s' where f: "finish_create e attributes sd ?alloc (fresh_address s) s1 = Some (st, res, s')"
          "res = None \<and> st \<noteq> STATUS_SUCCESS \<and> session_ok s' h \<and> FileNodeMap s' = FileNodeMap s \<and> nodes s' = nodes s \<or>
           st = STATUS_SUCCESS \<and> (\<exists>i nm. res = Some (fresh_address s, i, nm)) \<and> session_ok s' (add_mset (fresh_address s) h) \<and>
             set (FileNodeMap s') = insert (FileName nd, fresh_address s) (set (FileNodeMap s)) \<and> CaseInsensitive s' = ?ci"
          using finish_create_ok [OF assms(1,2) w fn(2) adm [folded fn(1)] new' par, of attributes sd ?alloc] by blast
        have free: "nodes s (fresh_address s) = None" using ok by (simp add: table_ok_def)
        have get: "MemfsFileNodeMapGet e name s' = Some (fresh_address s)"
          if st: "session_ok s' (add_mset (fresh_address s) h)"
            "set (FileNodeMap s') = insert (FileName nd, fresh_address s) (set (FileNodeMap s))" "CaseInsensitive s' = ?ci"
        proof -
          have "table_ok s'" "name_ok (CaseInsensitive s') name" using st nm(1) by (simp_all add: session_ok_def)
          then show ?thesis using MapGet_Some [of s' name e] st norm fn(1) by auto
        qed
        from f(2) show ?thesis
          using run f(1) none free get by auto
      qed
    qed
  qed
qed

section \<open>Properties\<close>

lemma demo_session: "session_ok demo_fs {#2#}"
proof -
  have "refs_ok demo_fs {#2#}"
    unfolding refs_ok_def in_table_def using demo_paths by (auto simp: demo_fs_def demo_node_def)
  then show ?thesis using demo_table by (simp add: session_ok_def)
qed

text \<open>C15: \<open>Create\<close> is always defined. It succeeds only on a free name, and then the name leads to the new node, which
  has one more handle; \<open>Open\<close> of the name then gives the same node. When it fails, table and nodes are as before,
  and an occupied name or a missing directory fail with their own status.\<close>

theorem create_then_open:
  assumes "path_laws e" "session_ok s h" "adm_path (CaseInsensitive s) name"
  shows "\<exists>st res s'. MemfsCreate e name options attributes sd allocation s = Some (st, res, s') \<and>
    (MemfsFileNodeMapGet e name s \<noteq> None \<longrightarrow> st = STATUS_OBJECT_NAME_COLLISION) \<and>
    (MemfsFileNodeMapGet e name s = None \<and> MemfsFileNodeMapGet e (fst (path_suffix e name)) s = None \<longrightarrow>
       st = STATUS_OBJECT_PATH_NOT_FOUND) \<and>
    (case res of
       None \<Rightarrow> st \<noteq> STATUS_SUCCESS \<and> session_ok s' h \<and> FileNodeMap s' = FileNodeMap s \<and> nodes s' = nodes s
     | Some (r, i, nm) \<Rightarrow> st = STATUS_SUCCESS \<and> MemfsFileNodeMapGet e name s = None \<and> nodes s r = None \<and>
         session_ok s' (add_mset r h) \<and>
         (\<exists>i' nm' s2. MemfsOpen e name s' = Some (STATUS_SUCCESS, Some (r, i', nm'), s2) \<and> session_ok s2 (add_mset r (add_mset r h))))"
proof -
  obtain st res s' where c: "MemfsCreate e name options attributes sd allocation s = Some (st, res, s')"
    "res = None \<and> st \<noteq> STATUS_SUCCESS \<and> session_ok s' h \<and> FileNodeMap s' = FileNodeMap s \<and> nodes s' = nodes s \<or>
     st = STATUS_SUCCESS \<and> MemfsFileNodeMapGet e name s = None \<and>
       (\<exists>r i nm. res = Some (r, i, nm) \<and> nodes s r = None \<and> session_ok s' (add_mset r h) \<and>
          MemfsFileNodeMapGet e name s' = Some r \<and> CaseInsensitive s' = CaseInsensitive s)"
    using Create_session [OF assms, of options attributes sd allocation] by blast
  have short: "\<not> MEMFS_MAX_PATH \<le> length name" using assms(3) by (simp add: adm_path_def)
  have taken: "st = STATUS_OBJECT_NAME_COLLISION" if "MemfsFileNodeMapGet e name s \<noteq> None"
    using c(1) that short by (simp add: MemfsCreate_def Let_def)
  have noparent: "st = STATUS_OBJECT_PATH_NOT_FOUND"
    if "MemfsFileNodeMapGet e name s = None" "MemfsFileNodeMapGet e (fst (path_suffix e name)) s = None"
    using c(1) that short by (simp add: MemfsCreate_def Let_def MemfsFileNodeMapGetParent_def)
  have reopen: "\<exists>i' nm' s2. MemfsOpen e name s' = Some (STATUS_SUCCESS, Some (r, i', nm'), s2) \<and> session_ok s2 (add_mset r (add_mset r h))"
    if "session_ok s' (add_mset r h)" "MemfsFileNodeMapGet e name s' = Some r" "CaseInsensitive s' = CaseInsensitive s" for r
    using Open_session [OF assms(1) that(1), of name] assms(3) that(2,3) by auto
  from c(2) show ?thesis
  proof
    assume f: "res = None \<and> st \<noteq> STATUS_SUCCESS \<and> session_ok s' h \<and> FileNodeMap s' = FileNodeMap s \<and> nodes s' = nodes s"
    show ?thesis using c(1) f taken noparent by (intro exI [of _ st] exI [of _ res] exI [of _ s']) simp
  next
    assume g: "st = STATUS_SUCCESS \<and> MemfsFileNodeMapGet e name s = None \<and>
       (\<exists>r i nm. res = Some (r, i, nm) \<and> nodes s r = None \<and> session_ok s' (add_mset r h) \<and>
          MemfsFileNodeMapGet e name s' = Some r \<and> CaseInsensitive s' = CaseInsensitive s)"
    then obtain r i nm where r: "res = Some (r, i, nm)" "nodes s r = None" "session_ok s' (add_mset r h)"
      "MemfsFileNodeMapGet e name s' = Some r" "CaseInsensitive s' = CaseInsensitive s" by blast
    have "MemfsFileNodeMapGet e (fst (path_suffix e name)) s \<noteq> None" using noparent g by fastforce
    then show ?thesis using c(1) g r(1-3) reopen [OF r(3-5)]
      by (intro exI [of _ st] exI [of _ res] exI [of _ s']) simp
  qed
qed

text \<open>Creating the free name c next to a succeeds.\<close>

lemma demo_create: "\<exists>x s'. MemfsCreate demo_env (path_of [[0x63]]) 0 0 None 0 demo_fs = Some (STATUS_SUCCESS, Some x, s')"
proof -
  let ?p = "path_of [[0x63]]" and ?r = "fresh_address demo_fs"
  note ok = demo_table(1) demo_session
  have adm: "adm_path (CaseInsensitive demo_fs) ?p" "adm_path (CaseInsensitive demo_fs) (path_of [])" using demo_paths by simp_all
  then have nm: "name_ok (CaseInsensitive demo_fs) ?p" "name_ok (CaseInsensitive demo_fs) (path_of [])"
    "\<not> MEMFS_MAX_PATH \<le> length ?p" by (simp_all add: adm_path_def)
  have map: "FileNodeMap demo_fs = [(path_of [], 1), (path_of [[0x61]], 2), (path_of [[0x61], [0x21]], 3)]" by (simp add: demo_fs_def)
  have free: "MemfsFileNodeMapGet demo_env ?p demo_fs = None" using MapGet_None [OF ok(1) nm(1)] by (simp add: map)
  have root: "MemfsFileNodeMapGet demo_env (path_of []) demo_fs = Some 1" using MapGet_Some [OF ok(1) nm(2)] by (simp add: map)
  have suf: "path_suffix demo_env ?p = (path_of [], [0x63])"
    using demo_env_laws(1) demo_comps(3) by (simp add: path_laws_def)
  have rn: "nodes demo_fs 1 = Some (demo_node (path_of []) FILE_ATTRIBUTE_DIRECTORY 1)" by (simp add: demo_fs_def)
  have par: "MemfsFileNodeMapGetParent demo_env ?p demo_fs = Some (Inr 1)"
    using root rn suf nm(3) by (simp add: MemfsFileNodeMapGetParent_def)
  have norm: "normalized_name demo_env demo_fs (path_of []) ?p = ?p" by (simp add: normalized_name_def suf) (simp add: path_of_def)
  define nd where "nd = \<lparr>FileName = ?p, FileInfo = zero_info\<lparr>CreationTime := now demo_env, LastAccessTime := now demo_env,
      LastWriteTime := now demo_env, ChangeTime := now demo_env, IndexNumber := next_index demo_fs\<rparr>, FileSecuritySize = 0,
      FileSecurity = None, FileData = None, RefCount = 0\<rparr>"
  define s1 where "s1 = demo_fs\<lparr>nodes := (nodes demo_fs)(?r \<mapsto> nd), fresh_address := Suc ?r, next_index := next_index demo_fs + 1\<rparr>"
  have mk: "MemfsFileNodeCreate demo_env ?p demo_fs = Some (STATUS_SUCCESS, Some ?r, s1)"
    using nm(3) by (simp add: MemfsFileNodeCreate_def s1_def nd_def Let_def demo_env_def)
  have room: "\<not> MemfsFileNodeMapCount demo_fs \<ge> unat (MaxFileNodes demo_fs)"
    by (simp add: MemfsFileNodeMapCount_def demo_fs_def)
  have c: "MemfsCreate demo_env ?p 0 0 None 0 demo_fs = finish_create demo_env 0 None 0 ?r s1"
    using free par room rn norm mk nm(3) by (simp add: MemfsCreate_def Let_def)
  have w: "with_fresh demo_fs nd s1" by (simp add: with_fresh_def s1_def)
  define s4 where "s4 = upd_node ?r (\<lambda>n. set_info (\<lambda>i. i\<lparr>AllocationSize := 0\<rparr>) (n\<lparr>FileData := None\<rparr>))
      (upd_node ?r (set_info (\<lambda>i. i\<lparr>FileAttributes := FILE_ATTRIBUTE_ARCHIVE\<rparr>)) s1)"
  obtain n4 where n4: "with_fresh demo_fs n4 s4" "FileName n4 = ?p" "RefCount n4 = 0"
    by (rule that, unfold s4_def, rule with_fresh_upd, rule with_fresh_upd [OF w]) (simp_all add: nd_def)
  have new: "\<forall>(k, q) \<in> set (FileNodeMap demo_fs). entry_key demo_fs k \<noteq> entry_key demo_fs (FileName n4)" by (simp add: map n4(2))
  obtain s5 where s5: "MemfsFileNodeMapInsert demo_env ?r s4 = Some (STATUS_SUCCESS, True, s5)" "refs_ok s5 {#2#}"
    "(?p, ?r) \<in> set (FileNodeMap s5)"
    using Insert_new [OF demo_env_laws(1) ok(1) _ order_refl, of "{#2#}" s4 n4] ok(2) n4 new adm demo_env_laws(2)
    by (auto simp: session_ok_def with_fresh_def)
  have "nodes s5 ?r \<noteq> None" using s5(2,3) unfolding refs_ok_def in_table_def by force
  then obtain n where "nodes s5 ?r = Some n" by blast
  moreover have "finish_create demo_env 0 None 0 ?r s1 = do {
      (st, inserted, s5) \<leftarrow> MemfsFileNodeMapInsert demo_env ?r s4;
      if st \<noteq> STATUS_SUCCESS \<or> \<not> inserted
      then Some (if st = STATUS_SUCCESS then STATUS_OBJECT_NAME_COLLISION else st, None, MemfsFileNodeDelete ?r s5)
      else do {
        s6 \<leftarrow> MemfsFileNodeReference ?r s5;
        n \<leftarrow> nodes s6 ?r;
        Some (STATUS_SUCCESS, Some (?r, MemfsFileNodeGetFileInfo n, if CaseInsensitive s6 then Some (FileName n) else None), s6)
      }
    }" by (simp add: finish_create_def s4_def Let_def)
  ultimately show ?thesis
    unfolding c using s5(1) by (auto simp: MemfsFileNodeReference_def upd_node_def)
qed

theorem create_then_open_witness:
  "(\<exists>r i nm s' i' nm' s2. MemfsCreate demo_env (path_of [[0x63]]) 0 0 None 0 demo_fs = Some (STATUS_SUCCESS, Some (r, i, nm), s') \<and>
      session_ok s' {#r, 2#} \<and> MemfsOpen demo_env (path_of [[0x63]]) s' = Some (STATUS_SUCCESS, Some (r, i', nm'), s2)) \<and>
   (\<exists>st res s'. MemfsCreate demo_env (path_of [[0x61]]) 0 0 None 0 demo_fs = Some (st, res, s') \<and> st = STATUS_OBJECT_NAME_COLLISION)"
proof -
  have p: "adm_path (CaseInsensitive demo_fs) (path_of [[0x61]])" "adm_path (CaseInsensitive demo_fs) (path_of [[0x63]])"
    using demo_paths by simp_all
  have "MemfsFileNodeMapGet demo_env (path_of [[0x61]]) demo_fs \<noteq> None"
    using MapGet_None [OF demo_table(1), of "path_of [[0x61]]" demo_env] p by (auto simp: adm_path_def demo_fs_def)
  then have "\<exists>st res s'. MemfsCreate demo_env (path_of [[0x61]]) 0 0 None 0 demo_fs = Some (st, res, s') \<and> st = STATUS_OBJECT_NAME_COLLISION"
    using create_then_open [OF demo_env_laws(1) demo_session p(1), of 0 0 None 0] by blast
  moreover obtain r i nm s' where c: "MemfsCreate demo_env (path_of [[0x63]]) 0 0 None 0 demo_fs = Some (STATUS_SUCCESS, Some (r, i, nm), s')"
    using demo_create by auto
  moreover have "session_ok s' {#r, 2#} \<and> (\<exists>i' nm' s2. MemfsOpen demo_env (path_of [[0x63]]) s' = Some (STATUS_SUCCESS, Some (r, i', nm'), s2))"
    using create_then_open [OF demo_env_laws(1) demo_session p(2), of 0 0 None 0] c by auto
  ultimately show ?thesis by blast
qed

end
