(* ===== verification/Memfs_Rename.thy ===== *)
theory Memfs_Rename
  imports Memfs_Session
begin

text \<open>
  Renaming in \<open>src/win_vdisk.cpp\<close>: \<open>Rename\<close> collects the node and everything below it, replaces the target
  and enters the collected nodes one by one under their new names. Here: the collected nodes are exactly
  the subtree, no step of the loop meets an occupied name, and afterwards the table is the old one with the
  subtree moved, with the same invariant.
\<close>

section \<open>The subtree of a path\<close>

definition below :: "bool \<Rightarrow> wstr \<Rightarrow> wstr \<Rightarrow> bool" where
  "below ci p k \<longleftrightarrow> (\<exists>Y. name_key ci k = name_key ci p @ Y)"

lemma prefix_below:
  assumes "adm_path ci k" "adm_path ci p" "p \<noteq> [BSLASH]"
  shows "MemfsFileNameHasPrefix os k p ci \<longleftrightarrow> below ci p k"
proof -
  obtain ds where ds: "comps_ok ds" "p = path_of ds" "name_key ci p = path_key ci ds" "name_ok ci p" "ds \<noteq> []"
    using adm_pathE [OF assms(2)] assms(3) by blast
  obtain cs where cs: "comps_ok cs" "k = path_of cs" "name_key ci k = path_key ci cs" "name_ok ci k"
    using adm_pathE [OF assms(1)] by blast
  have ne: "cs \<noteq> []" if "path_key ci cs = path_key ci ds @ Y" for Y
  proof
    assume "cs = []"
    then have "(2, []) = hd (path_key ci ds)" using that ds(5) by (cases ds) (simp_all add: path_key_def)
    then show False using ds(1,5) by (cases ds) (auto simp: path_key_def comp_ok_def)
  qed
  have "MemfsFileNameHasPrefix os k p ci \<longleftrightarrow> cs \<noteq> [] \<and> (\<exists>Y. path_key ci cs = path_key ci ds @ Y)"
    using has_prefix_iff [OF cs(1) ds(1), of ci os] cs(2,4) ds(2,4,5) by simp
  also have "\<dots> \<longleftrightarrow> below ci p k" unfolding below_def cs(3) ds(3) using ne by blast
  finally show ?thesis .
qed

lemma less_eq_append: "K \<le> K @ (Y :: 'a :: linorder list)"
  by (induction K) simp_all

text \<open>The new name of a node below the renamed one.\<close>

lemma moved_name:
  assumes "adm_path ci p" "p \<noteq> [BSLASH]" "adm_path ci k" "below ci p k" "adm_path ci new" "new \<noteq> [BSLASH]"
    and "length k - length p + length new < MEMFS_MAX_PATH"
  shows "adm_path ci (new @ drop (length p) k) \<and>
    name_key ci (new @ drop (length p) k) = name_key ci new @ drop (length (name_key ci p)) (name_key ci k)"
proof -
  obtain ds where ds: "comps_ok ds" "p = path_of ds" "name_key ci p = path_key ci ds" "ds \<noteq> []"
    using adm_pathE [OF assms(1)] assms(2) by blast
  obtain ns where ns: "comps_ok ns" "new = path_of ns" "name_key ci new = path_key ci ns" "name_ok ci new" "ns \<noteq> []"
    using adm_pathE [OF assms(5)] assms(6) by blast
  obtain cs where cs: "comps_ok cs" "k = path_of cs" "name_key ci k = path_key ci cs" "name_ok ci k"
    using adm_pathE [OF assms(3)] by blast
  let ?n = "length ds"
  obtain Y where Y: "path_key ci cs = path_key ci ds @ Y" using assms(4) cs(3) ds(3) by (auto simp: below_def)
  have csne: "cs \<noteq> []"
  proof
    assume "cs = []"
    then show False using Y ds(1,4) by (cases ds) (auto simp: path_key_def comp_ok_def)
  qed
  have ld: "length (path_key ci ds) = ?n" using ds(4) by (simp add: path_key_length)
  have "path_key ci (take ?n cs) = take ?n (path_key ci cs)" using path_key_take [of ?n cs] ds(4) csne by simp
  also have "\<dots> = path_key ci ds" using Y ld by simp
  finally have k: "path_key ci (take ?n cs) = path_key ci ds" .
  have tne: "take ?n cs \<noteq> []" using ds(4) csne by simp
  have lp: "length (joined (take ?n cs)) = length p"
    using path_key_eq_lengths [OF k comps_ok_take [OF cs(1)] ds(1)] tne ds(2) by (simp add: path_of_def)
  have split: "joined cs = joined (take ?n cs) @ joined (drop ?n cs)"
    by (metis append_take_drop_id concat_append map_append)
  have kj: "k = joined cs" using cs(2) csne by (simp add: path_of_def)
  have dr: "drop (length p) k = joined (drop ?n cs)" unfolding kj lp [symmetric] using split by (metis append_eq_conv_conj)
  have w: "new @ drop (length p) k = path_of (ns @ drop ?n cs)" using ns(2,5) dr by (simp add: path_of_def)
  have okd: "comps_ok (ns @ drop ?n cs)" using ns(1) cs(1) by (auto simp: comps_ok_def dest: in_set_dropD)
  have "name_ok ci (joined (take ?n cs) @ joined (drop ?n cs))" using cs(4) kj split by simp
  then have "name_ok ci (new @ drop (length p) k)" using ns(4) dr by simp
  moreover have "length (new @ drop (length p) k) < 512" using assms(7) by simp
  ultimately have "adm_path ci (new @ drop (length p) k)"
    unfolding adm_path_def is_path_def using w okd by blast
  moreover have "name_key ci (new @ drop (length p) k) = name_key ci new @ drop ?n (name_key ci k)"
    unfolding w name_key_path [OF okd] ns(3) cs(3) using ns(5) csne by (simp add: path_key_def drop_map)
  ultimately show ?thesis using ds(3) ld by simp
qed

section \<open>Collecting the subtree\<close>

lemma enum_descendants_ok:
  assumes "adm_path ci p" "p \<noteq> [BSLASH]" "FileName n = p"
  shows "table_ok s \<Longrightarrow> refs_ok s h \<Longrightarrow> CaseInsensitive s = ci \<Longrightarrow> names.sorted_map ci es \<Longrightarrow> set es \<subseteq> set (FileNodeMap s) \<Longrightarrow>
    \<forall>e \<in> set es. name_key ci p \<le> name_key ci (fst e) \<Longrightarrow>
    \<exists>s'. enum_descendants e n es found s = Some (found @ map snd (filter (\<lambda>e. below ci p (fst e)) es), s') \<and>
      table_ok s' \<and> refs_ok s' (mset (map snd (filter (\<lambda>e. below ci p (fst e)) es)) + h) \<and>
      FileNodeMap s' = FileNodeMap s \<and> CaseInsensitive s' = ci \<and> names_kept s s'"
proof (induction es arbitrary: found s h)
  case Nil
  then show ?case by (simp add: names_kept_def)
next
  case (Cons x es)
  obtain k q where x: "x = (k, q)" by (cases x)
  have kq: "(k, q) \<in> set (FileNodeMap s)" using Cons.prems(5) x by simp
  have adm: "adm_path ci k" using table_okD(1) [OF Cons.prems(1) kq] Cons.prems(3) by simp
  obtain n2 where n2: "nodes s q = Some n2" "FileName n2 = k" using table_okD(2) [OF Cons.prems(1) kq] by blast
  have srt: "names.sorted_map ci es" "\<forall>f \<in> set es. name_key ci k < name_key ci (fst f)"
    using Cons.prems(4) x by (auto simp: names.sorted_Cons)
  note pre = prefix_below [OF adm assms(1,2), of "fns e"]
  show ?case
  proof (cases "below ci p k")
    case False
    have "\<not> below ci p (fst f)" if "f \<in> set (x # es)" for f
    proof
      assume b: "below ci p (fst f)"
      then obtain Y where Y: "name_key ci (fst f) = name_key ci p @ Y" by (auto simp: below_def)
      have ne: "f \<noteq> x" using b False x by auto
      then have lt: "name_key ci k < name_key ci p @ Y" using that srt(2) Y by auto
      have "name_key ci p \<le> name_key ci k" using Cons.prems(6) x by simp
      then have "name_key ci p = name_key ci k \<or> name_key ci p < name_key ci k" by auto
      then have "below ci p k"
        using between_extends [OF _ lt] unfolding below_def by (metis append_Nil2)
      then show False using False by blast
    qed
    then have nil: "filter (\<lambda>e. below ci p (fst e)) (x # es) = []" by (auto simp: filter_empty_conv)
    show ?thesis unfolding nil using Cons.prems False pre n2 x assms(3) by (simp add: names_kept_def)
  next
    case True
    obtain s1 n1 where s1: "MemfsFileNodeReference q s = Some s1" "table_ok s1" "refs_ok s1 (add_mset q h)"
      "FileNodeMap s1 = FileNodeMap s" "CaseInsensitive s1 = CaseInsensitive s" "nodes s1 q = Some n1"
      "FileName n1 = FileName (the (nodes s q))" "\<forall>a. a \<noteq> q \<longrightarrow> nodes s1 a = nodes s a"
      using Reference_ok [OF Cons.prems(2,1), of q] n2 by auto
    have nk: "names_kept s s1" unfolding names_kept_def
    proof (intro allI impI)
      fix a n' assume "nodes s1 a = Some n'"
      then show "\<exists>n. nodes s a = Some n \<and> FileName n = FileName n'" using s1(6-8) n2 by (cases "a = q") auto
    qed
    have "set es \<subseteq> set (FileNodeMap s1)" "\<forall>e \<in> set es. name_key ci p \<le> name_key ci (fst e)"
      using Cons.prems(5,6) s1(4) by auto
    from Cons.IH [OF s1(2,3) _ srt(1) this, of "found @ [q]"] obtain s2 where
      s2: "enum_descendants e n es (found @ [q]) s1 = Some ((found @ [q]) @ map snd (filter (\<lambda>e. below ci p (fst e)) es), s2)"
      "table_ok s2" "refs_ok s2 (mset (map snd (filter (\<lambda>e. below ci p (fst e)) es)) + add_mset q h)"
      "FileNodeMap s2 = FileNodeMap s1" "CaseInsensitive s2 = ci" "names_kept s1 s2"
      using s1(5) Cons.prems(3) by auto
    have "enum_descendants e n (x # es) found s =
        Some (found @ map snd (filter (\<lambda>e. below ci p (fst e)) (x # es)), s2)"
      using True pre n2 x assms(3) s1(1) s2(1) Cons.prems(3) by simp
    then show ?thesis using True x s1(4) s2(2-6) names_kept_trans [OF nk s2(6)] by simp
  qed
qed

lemma descendants_ok:
  assumes "session_ok s h" "nodes s r = Some n" "adm_path (CaseInsensitive s) (FileName n)" "FileName n \<noteq> [BSLASH]"
  defines "found \<equiv> map snd (filter (\<lambda>e. below (CaseInsensitive s) (FileName n) (fst e)) (FileNodeMap s))"
  shows "\<exists>s'. MemfsFileNodeMapEnumerateDescendants e r s = Some (found, s') \<and>
    table_ok s' \<and> refs_ok s' (mset found + h) \<and>
    FileNodeMap s' = FileNodeMap s \<and> CaseInsensitive s' = CaseInsensitive s \<and> names_kept s s'"
proof -
  let ?ci = "CaseInsensitive s" and ?p = "FileName n"
  note ok = session_okD [OF assms(1)]
  let ?low = "filter (\<lambda>e. name_key ?ci ?p \<le> name_key ?ci (fst e)) (FileNodeMap s)"
  have low: "lower_bound (name_lt e s) ?p (FileNodeMap s) = ?low"
    using names.split_at [of ?ci "FileNodeMap s" ?p "fns e"] ok assms(3) by (simp add: table_ok_def adm_path_def name_lt_def)
  have srt: "names.sorted_map ?ci ?low" using ok by (auto simp: table_ok_def names.sorted_map_def sorted_wrt_filter)
  have fl: "filter (\<lambda>e. below ?ci ?p (fst e)) ?low = filter (\<lambda>e. below ?ci ?p (fst e)) (FileNodeMap s)"
    using less_eq_append by (auto simp: filter_filter below_def intro!: filter_cong)
  have "\<exists>s'. enum_descendants e n ?low [] s = Some ([] @ map snd (filter (\<lambda>e. below ?ci ?p (fst e)) ?low), s') \<and>
      table_ok s' \<and> refs_ok s' (mset (map snd (filter (\<lambda>e. below ?ci ?p (fst e)) ?low)) + h) \<and>
      FileNodeMap s' = FileNodeMap s \<and> CaseInsensitive s' = ?ci \<and> names_kept s s'"
    by (rule enum_descendants_ok [OF assms(3,4) refl _ _ refl srt]) (use ok in auto)
  then show ?thesis unfolding fl found_def using assms(2) low by (auto simp: MemfsFileNodeMapEnumerateDescendants_def)
qed

lemma free_all:
  "refs_ok s (mset rs + h) \<Longrightarrow> table_ok s \<Longrightarrow>
    \<exists>s'. MemfsFileNodeMapEnumerateFree rs s = Some s' \<and> table_ok s' \<and> refs_ok s' h \<and>
      FileNodeMap s' = FileNodeMap s \<and> CaseInsensitive s' = CaseInsensitive s"
proof (induction rs arbitrary: s)
  case (Cons r rs)
  then show ?case using Dereference_ok [of s r "mset rs + h"] Cons.IH by fastforce
qed simp

lemma too_long_total:
  "\<forall>r \<in> set rs. nodes s r \<noteq> None \<Longrightarrow>
    \<exists>b. too_long s old new rs = Some b \<and>
      (\<not> b \<longrightarrow> (\<forall>r \<in> set rs. \<forall>n. nodes s r = Some n \<longrightarrow> length (FileName n) - old + new < MEMFS_MAX_PATH))"
  by (induction rs) auto

section \<open>One node moves\<close>

text \<open>A node that is held but in no table enters it.\<close>

lemma Insert_linked:
  assumes "path_laws e" "table_grows e" "table_ok s" "refs_ok s h" "\<not> in_table s r" "nodes s r = Some n"
    and "\<forall>(k, q) \<in> set (FileNodeMap s). entry_key s k \<noteq> entry_key s (FileName n)"
  shows "\<exists>s2. MemfsFileNodeMapInsert e r s = Some (STATUS_SUCCESS, True, s2) \<and> table_ok s2 \<and> refs_ok s2 h \<and>
    set (FileNodeMap s2) = insert (FileName n, r) (set (FileNodeMap s)) \<and> CaseInsensitive s2 = CaseInsensitive s \<and>
    names_kept s s2"
proof -
  let ?ci = "CaseInsensitive s"
  have adm: "adm_path ?ci (FileName n)" using assms(4,6) unfolding refs_ok_def by blast
  then have ok: "name_ok ?ci (FileName n)" by (simp add: adm_path_def)
  have srt: "names.sorted_map ?ci (FileNodeMap s)" using assms(3) by (simp add: table_ok_def)
  obtain m ins where m: "map_insert (name_lt e s) (FileName n) r (FileNodeMap s) = (m, ins)" by fastforce
  note ia = names.insert_abs [OF srt ok m [unfolded name_lt_def]]
  have "names.map_abs ?ci (FileNodeMap s) (entry_key s (FileName n)) = None"
    using names.abs_None [of ?ci "FileNodeMap s"] assms(7) by auto
  then have ins: "ins" "set m = insert (FileName n, r) (set (FileNodeMap s))" "length m = Suc (length (FileNodeMap s))"
    "names.sorted_map ?ci m" using ia by simp_all
  let ?n1 = "n\<lparr>RefCount := RefCount n + 1\<rparr>"
  let ?s = "s\<lparr>FileNodeMap := m\<rparr>"
  let ?s2 = "upd_node r (\<lambda>n. n\<lparr>RefCount := RefCount n + 1\<rparr>) ?s"
  have f2: "FileNodeMap ?s2 = m" "CaseInsensitive ?s2 = ?ci" "fresh_address ?s2 = fresh_address s" "nodes ?s2 = (nodes s)(r \<mapsto> ?n1)"
    using assms(6) by (simp_all add: upd_node_def)
  have notin: "r \<notin> set (map snd (FileNodeMap s))" using assms(5) by (simp add: in_table_def)
  have dist: "distinct (map snd m)"
  proof (rule card_distinct)
    have "set (map snd m) = insert r (set (map snd (FileNodeMap s)))" using ins(2) by auto
    moreover have "distinct (map snd (FileNodeMap s))" using assms(3) by (simp add: table_ok_def)
    then have "card (set (map snd (FileNodeMap s))) = length (FileNodeMap s)" by (metis distinct_card length_map)
    ultimately show "card (set (map snd m)) = length (map snd m)" using notin ins(3) by simp
  qed
  have entry: "adm_path ?ci k \<and> (\<exists>nd. ((nodes s)(r \<mapsto> ?n1)) q = Some nd \<and> FileName nd = k)" if "(k, q) \<in> set m" for k q
  proof (cases "(k, q) \<in> set (FileNodeMap s)")
    case True
    then have "q \<noteq> r" using notin by force
    then show ?thesis using table_okD [OF assms(3) True] by simp
  next
    case False
    then show ?thesis using that ins(2) adm by auto
  qed
  have "((nodes s)(r \<mapsto> ?n1)) q = None" if "fresh_address s \<le> q" for q
    using that assms(3,6) by (auto simp: table_ok_def)
  then have t: "table_ok ?s2" unfolding table_ok_def f2 using ins(4) entry dist by blast
  have it: "in_table ?s2 q \<longleftrightarrow> q = r \<or> in_table s q" for q by (auto simp: in_table_def f2(1) ins(2))
  have rf: "refs_ok ?s2 h"
    using assms(4-6) adm unfolding refs_ok_def f2(2,4) it by auto
  obtain s3 where s3: "MemfsFileNodeMapTouchParent e (FileName n) ?s2 = Some s3" "same_shape ?s2 s3"
    using TouchParent_total [OF assms(1) t, of "FileName n"] adm f2(2) by auto
  have "MemfsFileNodeReference r ?s = Some ?s2" using assms(6) by (simp add: MemfsFileNodeReference_def)
  then have run: "MemfsFileNodeMapInsert e r s = Some (STATUS_SUCCESS, True, s3)"
    using assms(2,6) m ins(1) s3(1) by (simp add: MemfsFileNodeMapInsert_def)
  have "names_kept s ?s2" using assms(6) by (auto simp: names_kept_def f2(4))
  then have "names_kept s s3" using same_shape_names [OF s3(2)] names_kept_trans by blast
  then show ?thesis
    using run s3(2) same_shape_table [OF s3(2) t] same_shape_refs [OF s3(2) rf] ins f2 by (auto simp: same_shape_def)
qed

text \<open>Removing a node, whether it is in the table or its name is free.\<close>

lemma Remove_any:
  assumes "path_laws e" "table_ok s" "refs_ok s h" "nodes s r = Some n"
    and "in_table s r \<or> (\<forall>(k, q) \<in> set (FileNodeMap s). entry_key s k \<noteq> entry_key s (FileName n))"
  shows "\<exists>s'. MemfsFileNodeMapRemove e r s = Some s' \<and> table_ok s' \<and> refs_ok s' h \<and>
    set (FileNodeMap s') = {p \<in> set (FileNodeMap s). snd p \<noteq> r} \<and> CaseInsensitive s' = CaseInsensitive s \<and>
    names_kept s s'"
proof (cases "in_table s r")
  case True
  then show ?thesis using Remove_ok [OF assms(1-4)] by blast
next
  case False
  let ?ci = "CaseInsensitive s"
  have srt: "names.sorted_map ?ci (FileNodeMap s)" using assms(2) by (simp add: table_ok_def)
  have ok: "name_ok ?ci (FileName n)" using assms(3,4) unfolding refs_ok_def adm_path_def by blast
  obtain m erased where m: "map_erase (name_lt e s) (FileName n) (FileNodeMap s) = (m, erased)" by fastforce
  have "names.map_abs ?ci (FileNodeMap s) (entry_key s (FileName n)) = None"
    using names.abs_None [of ?ci "FileNodeMap s"] assms(5) False by auto
  then have "\<not> erased" using names.erase_abs [OF srt ok m [unfolded name_lt_def]] by simp
  then have "MemfsFileNodeMapRemove e r s = Some s" using assms(4) m by (simp add: MemfsFileNodeMapRemove_def)
  moreover have "set (FileNodeMap s) = {p \<in> set (FileNodeMap s). snd p \<noteq> r}" using False by (force simp: in_table_def)
  ultimately show ?thesis using assms(2,3) by (auto simp: names_kept_def)
qed

text \<open>A held node outside the table takes another name.\<close>

lemma set_name_ok:
  assumes "table_ok s" "refs_ok s h" "\<not> in_table s r" "nodes s r = Some n" "adm_path (CaseInsensitive s) w"
  defines "s' \<equiv> upd_node r (\<lambda>n. n\<lparr>FileName := w\<rparr>) s"
  shows "table_ok s' \<and> refs_ok s' h \<and> FileNodeMap s' = FileNodeMap s \<and> CaseInsensitive s' = CaseInsensitive s \<and>
    nodes s' = (nodes s)(r \<mapsto> n\<lparr>FileName := w\<rparr>)"
proof -
  have f: "FileNodeMap s' = FileNodeMap s" "CaseInsensitive s' = CaseInsensitive s" "fresh_address s' = fresh_address s"
    "nodes s' = (nodes s)(r \<mapsto> n\<lparr>FileName := w\<rparr>)" using assms(4) by (simp_all add: s'_def upd_node_def)
  have "q \<noteq> r" if "(k, q) \<in> set (FileNodeMap s)" for k q using assms(3) that by (force simp: in_table_def)
  then have "table_ok s'" using assms(1,4) unfolding table_ok_def f by fastforce
  moreover have "refs_ok s' h" using assms(2,4,5) unfolding refs_ok_def f in_table_def by auto
  ultimately show ?thesis using f by simp
qed

lemma rename_one:
  assumes "path_laws e" "table_grows e" "table_ok s" "refs_ok s h" "r \<in># h" "nodes s r = Some n"
    and "in_table s r \<or> (\<forall>(k, q) \<in> set (FileNodeMap s). entry_key s k \<noteq> entry_key s (FileName n))"
    and "adm_path (CaseInsensitive s) w" "w = new @ drop old (FileName n)"
    and "\<forall>(k, q) \<in> set (FileNodeMap s). q \<noteq> r \<longrightarrow> entry_key s k \<noteq> entry_key s w"
  shows "\<exists>s'. rename_nodes e old new (r # rs) s = rename_nodes e old new rs s' \<and> table_ok s' \<and> refs_ok s' h \<and>
    set (FileNodeMap s') = insert (w, r) {p \<in> set (FileNodeMap s). snd p \<noteq> r} \<and> CaseInsensitive s' = CaseInsensitive s \<and>
    (\<forall>q n'. q \<noteq> r \<longrightarrow> nodes s' q = Some n' \<longrightarrow> (\<exists>n. nodes s q = Some n \<and> FileName n = FileName n'))"
proof -
  obtain s1 where s1: "MemfsFileNodeMapRemove e r s = Some s1" "table_ok s1" "refs_ok s1 h"
    "set (FileNodeMap s1) = {p \<in> set (FileNodeMap s). snd p \<noteq> r}" "CaseInsensitive s1 = CaseInsensitive s" "names_kept s s1"
    using Remove_any [OF assms(1,3,4,6,7)] by blast
  have out: "\<not> in_table s1 r" using s1(4) by (auto simp: in_table_def)
  obtain n1 where n1: "nodes s1 r = Some n1" using s1(3) assms(5) unfolding refs_ok_def by blast
  have fn: "FileName n1 = FileName n" using names_keptD [OF s1(6) n1] assms(6) by auto
  have adm: "adm_path (CaseInsensitive s1) w" using assms(8) s1(5) by simp
  define s2 where "s2 = upd_node r (\<lambda>n. n\<lparr>FileName := w\<rparr>) s1"
  have s2: "table_ok s2" "refs_ok s2 h" "FileNodeMap s2 = FileNodeMap s1" "CaseInsensitive s2 = CaseInsensitive s1"
    "nodes s2 = (nodes s1)(r \<mapsto> n1\<lparr>FileName := w\<rparr>)"
    using set_name_ok [OF s1(2,3) out n1 adm] by (simp_all add: s2_def)
  have s2': "s2 = upd_node r (\<lambda>n. n\<lparr>FileName := new @ drop old (FileName n)\<rparr>) s1"
    unfolding s2_def upd_node_def using n1 fn assms(9) by simp
  have r2: "nodes s2 r = Some (n1\<lparr>FileName := w\<rparr>)" "\<not> in_table s2 r"
    using s2(3,5) out by (simp_all add: in_table_def)
  have free: "\<forall>(k, q) \<in> set (FileNodeMap s2). entry_key s2 k \<noteq> entry_key s2 (FileName (n1\<lparr>FileName := w\<rparr>))"
    using assms(10) s1(4,5) s2(3,4) by auto
  obtain s3 where s3: "MemfsFileNodeMapInsert e r s2 = Some (STATUS_SUCCESS, True, s3)" "table_ok s3" "refs_ok s3 h"
    "set (FileNodeMap s3) = insert (w, r) (set (FileNodeMap s2))" "CaseInsensitive s3 = CaseInsensitive s2" "names_kept s2 s3"
    using Insert_linked [OF assms(1,2) s2(1,2) r2(2,1) free] by auto
  have "rename_nodes e old new (r # rs) s = rename_nodes e old new rs s3"
    using s1(1) n1 s3(1) by (simp add: s2' Let_def)
  moreover have "\<exists>n. nodes s q = Some n \<and> FileName n = FileName n'" if "q \<noteq> r" "nodes s3 q = Some n'" for q n'
    using names_keptD [OF s3(6) that(2)] that(1) s2(5) names_keptD [OF s1(6)] by fastforce
  ultimately show ?thesis using s3(2-5) s1(4,5) s2(3,4) by auto
qed

section \<open>The loop over the subtree\<close>

text \<open>What the loop needs of the table and the nodes \<open>rs\<close> still to be moved, where node \<open>r\<close> goes from the name
  \<open>nm r\<close> to \<open>w r\<close>: no new name is taken by a node that stays, or by the old name of another one of them.\<close>

definition movable :: "(nat \<Rightarrow> wstr) \<Rightarrow> (nat \<Rightarrow> wstr) \<Rightarrow> nat list \<Rightarrow> memfs \<Rightarrow> bool" where
  "movable nm w rs s \<longleftrightarrow> distinct rs \<and>
     (\<forall>r \<in> set rs. (\<exists>n. nodes s r = Some n \<and> FileName n = nm r) \<and> adm_path (CaseInsensitive s) (w r) \<and>
        (in_table s r \<or> (\<forall>(k, q) \<in> set (FileNodeMap s). entry_key s k \<noteq> entry_key s (nm r))) \<and>
        (\<forall>(k, q) \<in> set (FileNodeMap s). q \<notin> set rs \<longrightarrow> entry_key s k \<noteq> entry_key s (w r)) \<and>
        (\<forall>r' \<in> set rs. r' \<noteq> r \<longrightarrow> entry_key s (w r) \<noteq> entry_key s (w r') \<and> entry_key s (nm r') \<noteq> entry_key s (w r)))"

lemma movable_step:
  assumes m: "movable nm w (r # rs) s"
    and set: "set (FileNodeMap s') = insert (w r, r) {p \<in> set (FileNodeMap s). snd p \<noteq> r}"
    and ci: "CaseInsensitive s' = CaseInsensitive s"
    and live: "\<forall>q \<in> set rs. nodes s' q \<noteq> None"
    and keep: "\<forall>q n'. q \<noteq> r \<longrightarrow> nodes s' q = Some n' \<longrightarrow> (\<exists>n. nodes s q = Some n \<and> FileName n = FileName n')"
  shows "movable nm w rs s'"
proof -
  have M: "(\<exists>n. nodes s q = Some n \<and> FileName n = nm q)" "adm_path (CaseInsensitive s) (w q)"
    "in_table s q \<or> (\<forall>(k, a) \<in> set (FileNodeMap s). entry_key s k \<noteq> entry_key s (nm q))"
    "\<forall>(k, a) \<in> set (FileNodeMap s). a \<notin> set (r # rs) \<longrightarrow> entry_key s k \<noteq> entry_key s (w q)"
    "\<forall>q' \<in> set (r # rs). q' \<noteq> q \<longrightarrow> entry_key s (w q) \<noteq> entry_key s (w q') \<and> entry_key s (nm q') \<noteq> entry_key s (w q)"
    if "q \<in> set (r # rs)" for q
    using m that unfolding movable_def by blast+
  have rr: "r \<notin> set rs" "distinct rs" using m by (auto simp: movable_def)
  have "(\<exists>n. nodes s' q = Some n \<and> FileName n = nm q) \<and> adm_path (CaseInsensitive s') (w q) \<and>
        (in_table s' q \<or> (\<forall>(k, a) \<in> set (FileNodeMap s'). entry_key s' k \<noteq> entry_key s' (nm q))) \<and>
        (\<forall>(k, a) \<in> set (FileNodeMap s'). a \<notin> set rs \<longrightarrow> entry_key s' k \<noteq> entry_key s' (w q)) \<and>
        (\<forall>q' \<in> set rs. q' \<noteq> q \<longrightarrow> entry_key s' (w q) \<noteq> entry_key s' (w q') \<and> entry_key s' (nm q') \<noteq> entry_key s' (w q))"
    if q: "q \<in> set rs" for q
  proof -
    have qr: "q \<noteq> r" "q \<in> set (r # rs)" using q rr by auto
    note mq = M [OF qr(2)]
    have "\<exists>n. nodes s' q = Some n \<and> FileName n = nm q" using live q keep qr(1) mq(1) by fastforce
    moreover have "in_table s' q \<or> (\<forall>(k, a) \<in> set (FileNodeMap s'). entry_key s' k \<noteq> entry_key s' (nm q))"
    proof (cases "in_table s q")
      case True
      then have "in_table s' q" using qr(1) unfolding in_table_def set by force
      then show ?thesis ..
    next
      case False
      have "entry_key s (nm q) \<noteq> entry_key s (w r)" using M(5) [of r] qr by simp
      then show ?thesis using mq(3) False unfolding set ci by auto
    qed
    moreover have "\<forall>(k, a) \<in> set (FileNodeMap s'). a \<notin> set rs \<longrightarrow> entry_key s' k \<noteq> entry_key s' (w q)"
    proof -
      have "entry_key s (w q) \<noteq> entry_key s (w r)" using mq(5) qr(1) by simp
      then show ?thesis using mq(4) unfolding set ci by auto
    qed
    ultimately show ?thesis using mq(2,5) unfolding ci by simp
  qed
  then show ?thesis using rr unfolding movable_def by blast
qed

lemma rename_loop:
  assumes "path_laws e" "table_grows e"
  shows "movable nm (\<lambda>r. new @ drop old (nm r)) rs s \<Longrightarrow> table_ok s \<Longrightarrow> refs_ok s h \<Longrightarrow> set rs \<subseteq> set_mset h \<Longrightarrow>
    \<exists>s'. rename_nodes e old new rs s = Some s' \<and> table_ok s' \<and> refs_ok s' h \<and> CaseInsensitive s' = CaseInsensitive s \<and>
      set (FileNodeMap s') = {p \<in> set (FileNodeMap s). snd p \<notin> set rs} \<union> (\<lambda>r. (new @ drop old (nm r), r)) ` set rs"
proof (induction rs arbitrary: s)
  case Nil
  then show ?case by auto
next
  case (Cons r rs)
  let ?w = "\<lambda>r. new @ drop old (nm r)"
  have m: "(\<exists>n. nodes s r = Some n \<and> FileName n = nm r)" "adm_path (CaseInsensitive s) (?w r)"
    "in_table s r \<or> (\<forall>(k, a) \<in> set (FileNodeMap s). entry_key s k \<noteq> entry_key s (nm r))"
    "\<forall>(k, a) \<in> set (FileNodeMap s). a \<notin> set (r # rs) \<longrightarrow> entry_key s k \<noteq> entry_key s (?w r)"
    "\<forall>q \<in> set (r # rs). (\<exists>n. nodes s q = Some n \<and> FileName n = nm q) \<and> (q \<noteq> r \<longrightarrow> entry_key s (nm q) \<noteq> entry_key s (?w r))"
    using Cons.prems(1) unfolding movable_def by (simp_all add: Ball_def)
  obtain n where n: "nodes s r = Some n" "FileName n = nm r" using m(1) by blast
  have "entry_key s k \<noteq> entry_key s (?w r)" if "(k, q) \<in> set (FileNodeMap s)" "q \<noteq> r" for k q
  proof (cases "q \<in> set (r # rs)")
    case True
    then have "k = nm q" using m(5) table_okD(2) [OF Cons.prems(2) that(1)] by auto
    then show ?thesis using m(5) True that(2) by blast
  next
    case False
    then show ?thesis using m(4) that(1) by blast
  qed
  then have free: "\<forall>(k, q) \<in> set (FileNodeMap s). q \<noteq> r \<longrightarrow> entry_key s k \<noteq> entry_key s (?w r)" by blast
  have rh: "r \<in># h" using Cons.prems(4) by simp
  have wr: "?w r = new @ drop old (FileName n)" using n(2) by simp
  have it: "in_table s r \<or> (\<forall>(k, a) \<in> set (FileNodeMap s). entry_key s k \<noteq> entry_key s (FileName n))" using m(3) n(2) by simp
  obtain s' where s': "rename_nodes e old new (r # rs) s = rename_nodes e old new rs s'" "table_ok s'" "refs_ok s' h"
    "set (FileNodeMap s') = insert (?w r, r) {p \<in> set (FileNodeMap s). snd p \<noteq> r}" "CaseInsensitive s' = CaseInsensitive s"
    "\<forall>q n'. q \<noteq> r \<longrightarrow> nodes s' q = Some n' \<longrightarrow> (\<exists>n. nodes s q = Some n \<and> FileName n = FileName n')"
    using rename_one [OF assms Cons.prems(2,3) rh n(1) it m(2) wr free] by blast
  have live: "\<forall>q \<in> set rs. nodes s' q \<noteq> None" using s'(3) Cons.prems(4) unfolding refs_ok_def by auto
  note mv = movable_step [OF Cons.prems(1) s'(4,5) live s'(6)]
  have rr: "r \<notin> set rs" using Cons.prems(1) by (simp add: movable_def)
  obtain s2 where s2: "rename_nodes e old new rs s' = Some s2" "table_ok s2" "refs_ok s2 h" "CaseInsensitive s2 = CaseInsensitive s'"
    "set (FileNodeMap s2) = {p \<in> set (FileNodeMap s'). snd p \<notin> set rs} \<union> (\<lambda>r. (?w r, r)) ` set rs"
    using Cons.IH [OF mv s'(2,3)] Cons.prems(4) by auto
  have "set (FileNodeMap s2) = {p \<in> set (FileNodeMap s). snd p \<notin> set (r # rs)} \<union> (\<lambda>r. (?w r, r)) ` set (r # rs)"
    using s2(5) s'(4) rr by auto
  then show ?case using s'(1,5) s2 by auto
qed

section \<open>The table before and after\<close>

lemma table_unique:
  assumes "table_ok s" "(k, q) \<in> set (FileNodeMap s)" "(k', q') \<in> set (FileNodeMap s)" "entry_key s k = entry_key s k'"
  shows "q = q' \<and> k = k'"
proof -
  have srt: "names.sorted_map (CaseInsensitive s) (FileNodeMap s)" using assms(1) by (simp add: table_ok_def)
  have "names.map_abs (CaseInsensitive s) (FileNodeMap s) (entry_key s k) = Some q"
    "names.map_abs (CaseInsensitive s) (FileNodeMap s) (entry_key s k) = Some q'"
    using names.abs_Some [OF srt] assms(2-4) by metis+
  then have "q = q'" by simp
  then show ?thesis using table_okD(2) [OF assms(1,2)] table_okD(2) [OF assms(1,3)] by auto
qed

lemma key_nonempty: "adm_path ci p \<Longrightarrow> 1 \<le> length (name_key ci p)"
  by (elim adm_pathE) (auto simp: path_key_length Suc_le_eq)

lemma key_not_root: "adm_path ci p \<Longrightarrow> p \<noteq> [BSLASH] \<Longrightarrow> name_key ci p @ Y \<noteq> [(2, [])]"
  by (elim adm_pathE) (auto simp: path_key_def comp_ok_def append_eq_Cons_conv)

lemma ancestor_entry:
  assumes "table_ok s" "tree_closed s" "(k, q) \<in> set (FileNodeMap s)" "adm_path (CaseInsensitive s) dir"
    "below (CaseInsensitive s) dir k"
  shows "\<exists>k2 q2. (k2, q2) \<in> set (FileNodeMap s) \<and> entry_key s k2 = entry_key s dir"
proof -
  obtain Y where Y: "entry_key s k = entry_key s dir @ Y" using assms(5) by (auto simp: below_def)
  have "1 \<le> length (entry_key s dir)" "length (entry_key s dir) \<le> length (entry_key s k)"
    using key_nonempty [OF assms(4)] Y by simp_all
  from ancestors [OF assms(1-3) this] show ?thesis using Y by auto
qed

lemma below_child:
  assumes "table_ok s" "tree_closed s" "(k, q) \<in> set (FileNodeMap s)" "adm_path (CaseInsensitive s) dir"
    "entry_key s k = entry_key s dir @ Y" "Y \<noteq> []"
  shows "\<exists>(k2, q2) \<in> set (FileNodeMap s). is_child s dir k2"
proof -
  have d: "1 \<le> length (entry_key s dir)" by (rule key_nonempty [OF assms(4)])
  obtain y Z where y: "Y = y # Z" using assms(6) by (cases Y) simp_all
  obtain k2 q2 where k2: "(k2, q2) \<in> set (FileNodeMap s)" "entry_key s k2 = entry_key s dir @ [y]"
    using ancestors [OF assms(1-3), of "Suc (length (entry_key s dir))"] assms(5) y by auto
  have "k2 \<noteq> [BSLASH]"
  proof
    assume "k2 = [BSLASH]"
    then have "entry_key s dir @ [y] = [(2, [])]" using k2(2) root_key [of s] by simp
    then show False using d by (cases "entry_key s dir") simp_all
  qed
  moreover have "dir \<noteq> []" using d by auto
  then have "parent_key (entry_key s k2) = entry_key s dir" using k2(2) by (simp add: parent_key_def)
  ultimately show ?thesis using k2(1) by (auto simp: is_child_def)
qed

text \<open>When the move of the subtree at \<open>p\<close> to \<open>new\<close> is sound: \<open>new\<close> is not inside the subtree, its directory exists,
  and an entry that is replaced has no children.\<close>

definition rename_ok :: "memfs \<Rightarrow> nat \<Rightarrow> wstr \<Rightarrow> wstr \<Rightarrow> bool" where
  "rename_ok s r p new \<longleftrightarrow> table_ok s \<and> tree_closed s \<and> (p, r) \<in> set (FileNodeMap s) \<and> p \<noteq> [BSLASH] \<and>
     adm_path (CaseInsensitive s) new \<and> (below (CaseInsensitive s) p new \<longrightarrow> entry_key s new = entry_key s p) \<and>
     (\<exists>(k, q) \<in> set (FileNodeMap s). entry_key s k = parent_key (entry_key s new)) \<and>
     (\<forall>(k, q) \<in> set (FileNodeMap s). entry_key s k = entry_key s new \<longrightarrow> q \<noteq> r \<longrightarrow>
        \<not> (\<exists>(k2, q2) \<in> set (FileNodeMap s). is_child s new k2))"

lemma rename_okD:
  assumes "rename_ok s r p new"
  shows "table_ok s" "tree_closed s" "(p, r) \<in> set (FileNodeMap s)" "p \<noteq> [BSLASH]" "adm_path (CaseInsensitive s) new"
    "adm_path (CaseInsensitive s) p" "below (CaseInsensitive s) p new \<Longrightarrow> entry_key s new = entry_key s p"
    "\<exists>k q. (k, q) \<in> set (FileNodeMap s) \<and> entry_key s k = parent_key (entry_key s new)"
    "(k, q) \<in> set (FileNodeMap s) \<Longrightarrow> entry_key s k = entry_key s new \<Longrightarrow> q \<noteq> r \<Longrightarrow>
       \<not> (\<exists>(k2, q2) \<in> set (FileNodeMap s). is_child s new k2)"
  using assms table_okD(1) [of s p r] unfolding rename_ok_def by blast+

text \<open>Nothing is below the new name, unless it is another spelling of the old one.\<close>

lemma below_new:
  assumes "rename_ok s r p new" "(k, q) \<in> set (FileNodeMap s)" "entry_key s k = entry_key s new @ Y" "Y \<noteq> []"
  shows "entry_key s new = entry_key s p"
proof -
  note ok = rename_okD [OF assms(1)]
  have "below (CaseInsensitive s) new k" using assms(3) by (auto simp: below_def)
  then obtain k3 q3 where k3: "(k3, q3) \<in> set (FileNodeMap s)" "entry_key s k3 = entry_key s new"
    using ancestor_entry [OF ok(1,2) assms(2) ok(5)] by blast
  have "q3 = r" using ok(9) [OF k3] below_child [OF ok(1,2) assms(2) ok(5) assms(3,4)] by blast
  then have "k3 = p" using table_okD(2) [OF ok(1) k3(1)] table_okD(2) [OF ok(1,3)] by auto
  then show ?thesis using k3(2) by simp
qed

lemma new_not_root:
  assumes "rename_ok s r p new"
  shows "new \<noteq> [BSLASH]"
proof
  assume new: "new = [BSLASH]"
  note ok = rename_okD [OF assms]
  have "1 \<le> length (entry_key s p)" using key_nonempty [OF ok(6)] .
  then obtain k q where k: "(k, q) \<in> set (FileNodeMap s)" "entry_key s k = take 1 (entry_key s p)"
    using ancestors [OF ok(1-3), of 1] by auto
  have kr: "k \<noteq> [BSLASH]"
  proof
    assume "k = [BSLASH]"
    then have "take 1 (entry_key s p) = [(2, [])]" using k(2) root_key [of s] by simp
    moreover obtain cs where "comps_ok cs" "entry_key s p = path_key (CaseInsensitive s) cs" "cs \<noteq> []"
      using adm_pathE [OF ok(6)] ok(4) by blast
    ultimately show False by (cases cs) (auto simp: path_key_def comp_ok_def)
  qed
  have pk: "parent_key (entry_key s k) = entry_key s new" using k(2) new root_key [of s] by (simp add: parent_key_def)
  obtain k3 q3 where k3: "(k3, q3) \<in> set (FileNodeMap s)" "entry_key s k3 = entry_key s new"
    using ok(2) k(1) kr pk by (fastforce simp: tree_closed_def)
  have "is_child s new k" using kr pk by (simp add: is_child_def)
  then have "q3 = r" using ok(9) [OF k3] k(1) by blast
  then have "k3 = p" using table_okD(2) [OF ok(1) k3(1)] table_okD(2) [OF ok(1,3)] by auto
  then show False using k3(2) new root_key [of s] key_not_root [OF ok(6,4), of "[]"] by simp
qed

text \<open>New names meet no other name.\<close>

lemma new_keys:
  assumes "rename_ok s r p new" "(k, q) \<in> set (FileNodeMap s)" "(k', q') \<in> set (FileNodeMap s)"
    and "entry_key s k = entry_key s p @ Y" "entry_key s k' = entry_key s new @ Y"
  shows "entry_key s k' = entry_key s new \<and> Y = [] \<or> below (CaseInsensitive s) p k'"
    and "below (CaseInsensitive s) p k' \<Longrightarrow> q' = q"
proof -
  note ok = rename_okD [OF assms(1)]
  let ?K = "entry_key s p" and ?T = "entry_key s new"
  show "entry_key s k' = ?T \<and> Y = [] \<or> below (CaseInsensitive s) p k'"
  proof (cases "Y = []")
    case False
    then have "?T = ?K" using below_new [OF assms(1,3,5)] by blast
    then show ?thesis using assms(5) by (auto simp: below_def)
  qed (use assms(5) in simp)
  assume "below (CaseInsensitive s) p k'"
  then obtain Y' where Y': "?K @ Y' = ?T @ Y" using assms(5) by (auto simp: below_def)
  then have "(\<exists>Z. ?T = ?K @ Z) \<or> (\<exists>Z. ?K = ?T @ Z)" unfolding append_eq_append_conv2 by metis
  then consider Z where "?T = ?K @ Z" | Z where "?K = ?T @ Z" "Z \<noteq> []" by (metis append_Nil2)
  then have "?T = ?K"
  proof cases
    case 1
    then show ?thesis using ok(7) by (auto simp: below_def)
  next
    case 2
    then show ?thesis using below_new [OF assms(1) ok(3) 2] by blast
  qed
  then show "q' = q" using table_unique [OF ok(1) assms(2,3)] assms(4,5) by simp
qed

text \<open>So the loop may run, once the target is gone.\<close>

lemma subtree_movable:
  assumes ok: "rename_ok s r p new"
    and s2: "set (FileNodeMap s2) = {x \<in> set (FileNodeMap s). entry_key s (fst x) \<noteq> entry_key s new}"
      "CaseInsensitive s2 = CaseInsensitive s"
    and rs: "distinct rs" "set rs = {q. \<exists>k. (k, q) \<in> set (FileNodeMap s) \<and> below (CaseInsensitive s) p k}"
    and nm: "\<forall>(k, q) \<in> set (FileNodeMap s). nm q = k"
    and live: "\<forall>q \<in> set rs. \<exists>n. nodes s2 q = Some n \<and> FileName n = nm q"
    and short: "\<forall>q \<in> set rs. length (nm q) - length p + length new < MEMFS_MAX_PATH"
  shows "movable nm (\<lambda>q. new @ drop (length p) (nm q)) rs s2"
proof -
  note okD = rename_okD [OF ok]
  let ?ci = "CaseInsensitive s" and ?w = "\<lambda>q. new @ drop (length p) (nm q)"
  have mem: "(nm q, q) \<in> set (FileNodeMap s)" "below ?ci p (nm q)" if "q \<in> set rs" for q
    using that rs(2) nm by auto
  have name: "adm_path ?ci (?w q)" "\<exists>Y. entry_key s (nm q) = entry_key s p @ Y \<and> entry_key s (?w q) = entry_key s new @ Y"
    if q: "q \<in> set rs" for q
  proof -
    note mv = moved_name [OF okD(6,4) table_okD(1) [OF okD(1) mem(1) [OF q]] mem(2) [OF q] okD(5) new_not_root [OF ok]]
    show "adm_path ?ci (?w q)" using mv short q by blast
    show "\<exists>Y. entry_key s (nm q) = entry_key s p @ Y \<and> entry_key s (?w q) = entry_key s new @ Y"
      using mv short q mem(2) [OF q] by (auto simp: below_def)
  qed
  have stay: "in_table s2 q \<or> (\<forall>(k, a) \<in> set (FileNodeMap s2). entry_key s k \<noteq> entry_key s (nm q))" if "q \<in> set rs" for q
  proof (cases "entry_key s (nm q) = entry_key s new")
    case True
    then show ?thesis unfolding s2 by auto
  next
    case False
    then have "(nm q, q) \<in> set (FileNodeMap s2)" using mem(1) [OF that] unfolding s2 by simp
    then show ?thesis by (force simp: in_table_def)
  qed
  have others: "entry_key s k \<noteq> entry_key s (?w q)" if q: "q \<in> set rs" and k: "(k, a) \<in> set (FileNodeMap s2)" "a \<notin> set rs" for k a q
  proof
    assume e: "entry_key s k = entry_key s (?w q)"
    have k0: "(k, a) \<in> set (FileNodeMap s)" "entry_key s k \<noteq> entry_key s new" using k(1) unfolding s2 by simp_all
    obtain Y where Y: "entry_key s (nm q) = entry_key s p @ Y" "entry_key s k = entry_key s new @ Y" using name(2) [OF q] e by auto
    have "below ?ci p k" using new_keys(1) [OF ok mem(1) [OF q] k0(1) Y] k0(2) by blast
    then show False using k0(1) k(2) rs(2) by blast
  qed
  have differ: "entry_key s (?w q) \<noteq> entry_key s (?w q')" "entry_key s (nm q') \<noteq> entry_key s (?w q)"
    if q: "q \<in> set rs" "q' \<in> set rs" "q' \<noteq> q" for q q'
  proof -
    obtain Y where Y: "entry_key s (nm q) = entry_key s p @ Y" "entry_key s (?w q) = entry_key s new @ Y" using name(2) [OF q(1)] by blast
    obtain Y' where Y': "entry_key s (nm q') = entry_key s p @ Y'" "entry_key s (?w q') = entry_key s new @ Y'" using name(2) [OF q(2)] by blast
    show "entry_key s (?w q) \<noteq> entry_key s (?w q')"
      using table_unique [OF okD(1) mem(1) [OF q(1)] mem(1) [OF q(2)]] Y Y' q(3) by auto
    show "entry_key s (nm q') \<noteq> entry_key s (?w q)"
      using new_keys(2) [OF ok mem(1) [OF q(1)] mem(1) [OF q(2)] Y(1)] Y(2) mem(2) [OF q(2)] q(3) by auto
  qed
  show ?thesis unfolding movable_def s2(2) using rs(1) live name(1) stay others differ by blast
qed

text \<open>The tree stays closed.\<close>

lemma moved_closed:
  assumes ok: "rename_ok s r p new" and ci: "CaseInsensitive s' = CaseInsensitive s"
    and set: "set (FileNodeMap s') = {(k, q). (k, q) \<in> set (FileNodeMap s) \<and> \<not> below (CaseInsensitive s) p k \<and> entry_key s k \<noteq> entry_key s new} \<union>
      {(new @ drop (length p) k, q) | k q. (k, q) \<in> set (FileNodeMap s) \<and> below (CaseInsensitive s) p k}"
    and key: "\<forall>(k, q) \<in> set (FileNodeMap s). below (CaseInsensitive s) p k \<longrightarrow>
      entry_key s (new @ drop (length p) k) = entry_key s new @ drop (length (entry_key s p)) (entry_key s k)"
  shows "tree_closed s'"
proof -
  note okD = rename_okD [OF ok]
  let ?ci = "CaseInsensitive s" and ?K = "entry_key s p" and ?T = "entry_key s new"
  have T1: "1 \<le> length ?T" "?T \<noteq> [(2, [])]" "1 \<le> length ?K"
    using key_nonempty [OF okD(5)] key_nonempty [OF okD(6)] key_not_root [OF okD(5) new_not_root [OF ok], of "[]"] by simp_all
  have up: "below ?ci p k" if b: "below ?ci p k2" "entry_key s k2 = parent_key (entry_key s k)" for k k2
  proof -
    obtain Y where Y: "parent_key (entry_key s k) = ?K @ Y" using b by (auto simp: below_def)
    then have "\<not> length (entry_key s k) \<le> 1" using key_not_root [OF okD(6,4), of Y] by (auto simp: parent_key_def)
    then have "entry_key s k = (?K @ Y) @ [last (entry_key s k)]"
      using Y by (metis append_butlast_last_id list.size(3) parent_key_def zero_le_one)
    then show ?thesis unfolding below_def by (metis append.assoc)
  qed
  have "\<exists>(k2, q2) \<in> set (FileNodeMap s'). entry_key s k2 = parent_key (entry_key s k)"
    if m: "(k, q) \<in> set (FileNodeMap s')" "k \<noteq> [BSLASH]" for k q
  proof -
    from m(1) consider (stays) "(k, q) \<in> set (FileNodeMap s)" "\<not> below ?ci p k"
      | (moves) k0 where "k = new @ drop (length p) k0" "(k0, q) \<in> set (FileNodeMap s)" "below ?ci p k0" unfolding set by blast
    then show ?thesis
    proof cases
      case stays
      obtain k2 q2 where k2: "(k2, q2) \<in> set (FileNodeMap s)" "entry_key s k2 = parent_key (entry_key s k)"
        using okD(2) stays(1) m(2) by (fastforce simp: tree_closed_def)
      have nb: "\<not> below ?ci p k2" using up [OF _ k2(2)] stays(2) by blast
      have "entry_key s k2 \<noteq> ?T"
      proof
        assume e: "entry_key s k2 = ?T"
        then have "is_child s new k" using k2(2) m(2) by (simp add: is_child_def)
        then have "q2 = r" using okD(9) [OF k2(1) e] stays(1) by blast
        then have "k2 = p" using table_okD(2) [OF okD(1) k2(1)] table_okD(2) [OF okD(1,3)] by auto
        then show False using nb by (auto simp: below_def)
      qed
      then have "(k2, q2) \<in> set (FileNodeMap s')" unfolding set using k2(1) nb by blast
      then show ?thesis using k2(2) by blast
    next
      case moves
      obtain Y where Y: "entry_key s k0 = ?K @ Y" using moves(3) by (auto simp: below_def)
      have kk: "entry_key s k = ?T @ Y" using key moves Y by auto
      show ?thesis
      proof (cases "Y = []")
        case True
        obtain k2 q2 where k2: "(k2, q2) \<in> set (FileNodeMap s)" "entry_key s k2 = parent_key ?T" using okD(8) by blast
        have shorter: "parent_key ?T \<noteq> ?T" using T1 by (auto simp: parent_key_def dest: arg_cong [of _ _ length])
        have "\<not> below ?ci p k2"
        proof
          assume "below ?ci p k2"
          then have "below ?ci p new" using up [OF _ k2(2)] by blast
          then have "?T = ?K" by (rule okD(7))
          then have "\<exists>Z. parent_key ?T = ?T @ Z" using \<open>below ?ci p k2\<close> k2(2) by (auto simp: below_def)
          then obtain Z where Z: "parent_key ?T = ?T @ Z" by blast
          have "length (parent_key ?T) \<le> length ?T" using T1 by (simp add: parent_key_def)
          then have "Z = []" unfolding Z by simp
          then show False using Z shorter by simp
        qed
        then have "(k2, q2) \<in> set (FileNodeMap s')" unfolding set using k2 shorter by simp
        then show ?thesis using k2(2) kk True by force
      next
        case False
        have "k0 \<noteq> [BSLASH]" using Y root_key [of s] key_not_root [OF okD(6,4), of Y] by metis
        then obtain k2 q2 where k2: "(k2, q2) \<in> set (FileNodeMap s)" "entry_key s k2 = parent_key (entry_key s k0)"
          using okD(2) moves(2) by (fastforce simp: tree_closed_def)
        have "0 < length Y" using False by simp
        then have long: "\<not> length ?K + length Y \<le> 1" "\<not> length ?T + length Y \<le> 1" using T1(1,3) by linarith+
        have "parent_key (?K @ Y) = ?K @ butlast Y" using long(1) False by (simp add: parent_key_def butlast_append)
        then have kb: "entry_key s k2 = ?K @ butlast Y" unfolding k2(2) Y .
        then have b: "below ?ci p k2" by (auto simp: below_def)
        then have "(new @ drop (length p) k2, q2) \<in> set (FileNodeMap s')" unfolding set using k2(1) by blast
        moreover have "entry_key s (new @ drop (length p) k2) = ?T @ drop (length ?K) (entry_key s k2)"
          using key k2(1) b by blast
        then have "entry_key s (new @ drop (length p) k2) = ?T @ butlast Y" unfolding kb by simp
        moreover have "parent_key (?T @ Y) = ?T @ butlast Y" using long(2) False by (simp add: parent_key_def butlast_append)
        ultimately show ?thesis unfolding kk by force
      qed
    qed
  qed
  then show ?thesis unfolding tree_closed_def ci by blast
qed

section \<open>The handler\<close>

lemma drop_target:
  assumes "path_laws e" "table_ok s" "refs_ok s h" "\<forall>t. target = Some t \<longrightarrow> in_table s t"
  shows "\<exists>s'. (case target of
           None \<Rightarrow> Some s
         | Some t \<Rightarrow> do { a \<leftarrow> MemfsFileNodeReference t s; b \<leftarrow> MemfsFileNodeMapRemove e t a; MemfsFileNodeDereference t b }) = Some s' \<and>
    table_ok s' \<and> refs_ok s' h \<and> set (FileNodeMap s') = {x \<in> set (FileNodeMap s). Some (snd x) \<noteq> target} \<and>
    CaseInsensitive s' = CaseInsensitive s \<and> names_kept s s'"
proof (cases target)
  case None
  then show ?thesis using assms(2,3) by (simp add: names_kept_def)
next
  case (Some t)
  have it: "in_table s t" using assms(4) Some by blast
  then obtain n where n: "nodes s t = Some n" using assms(3) unfolding refs_ok_def by blast
  obtain a na where a: "MemfsFileNodeReference t s = Some a" "table_ok a" "refs_ok a (add_mset t h)"
    "FileNodeMap a = FileNodeMap s" "CaseInsensitive a = CaseInsensitive s" "nodes a t = Some na"
    "FileName na = FileName (the (nodes s t))" "\<forall>q. q \<noteq> t \<longrightarrow> nodes a q = nodes s q"
    using Reference_ok [OF assms(3,2), of t] n by auto
  have ka: "names_kept s a" unfolding names_kept_def
  proof (intro allI impI)
    fix q n' assume "nodes a q = Some n'"
    then show "\<exists>n. nodes s q = Some n \<and> FileName n = FileName n'" using a(6-8) n by (cases "q = t") auto
  qed
  have "in_table a t" using it a(4) by (simp add: in_table_def)
  from Remove_ok [OF assms(1) a(2,3,6) this] obtain b where b: "MemfsFileNodeMapRemove e t a = Some b" "table_ok b"
    "refs_ok b (add_mset t h)" "set (FileNodeMap b) = {x \<in> set (FileNodeMap a). snd x \<noteq> t}" "CaseInsensitive b = CaseInsensitive a"
    "names_kept a b" by blast
  obtain s' where s': "MemfsFileNodeDereference t b = Some s'" "table_ok s'" "refs_ok s' h" "FileNodeMap s' = FileNodeMap b"
    "CaseInsensitive s' = CaseInsensitive b" "names_kept b s'" using Dereference_ok [OF b(3,2)] by blast
  have "names_kept s s'" using names_kept_trans [OF ka names_kept_trans [OF b(6) s'(6)]] .
  then show ?thesis using Some a(1,4,5) b(1,4,5) s' by auto
qed

lemma move_subtree_ok:
  assumes "path_laws e" "table_grows e" "session_ok s h" "nodes s r = Some n" "rename_ok s r (FileName n) new"
  shows "\<exists>st s'. move_subtree e r new (MemfsFileNodeMapGet e new s) s = Some (st, s') \<and> session_ok s' h \<and>
    (st = STATUS_OBJECT_NAME_INVALID \<and> FileNodeMap s' = FileNodeMap s \<or>
     st = STATUS_SUCCESS \<and> CaseInsensitive s' = CaseInsensitive s \<and>
     set (FileNodeMap s') = {(k, q). (k, q) \<in> set (FileNodeMap s) \<and> \<not> below (CaseInsensitive s) (FileName n) k \<and> entry_key s k \<noteq> entry_key s new} \<union>
      {(new @ drop (length (FileName n)) k, q) | k q. (k, q) \<in> set (FileNodeMap s) \<and> below (CaseInsensitive s) (FileName n) k})"
proof -
  let ?ci = "CaseInsensitive s" and ?p = "FileName n" and ?target = "MemfsFileNodeMapGet e new s"
  note ok = rename_okD [OF assms(5)]
  note so = session_okD [OF assms(3)]
  define found where "found = map snd (filter (\<lambda>e. below ?ci ?p (fst e)) (FileNodeMap s))"
  define nm where "nm q = FileName (the (nodes s q))" for q
  obtain s1 where s1: "MemfsFileNodeMapEnumerateDescendants e r s = Some (found, s1)" "table_ok s1" "refs_ok s1 (mset found + h)"
    "FileNodeMap s1 = FileNodeMap s" "CaseInsensitive s1 = ?ci" "names_kept s s1"
    using descendants_ok [OF assms(3,4) ok(6,4), of e] unfolding found_def by blast
  have fd: "distinct found" unfolding found_def using so by (auto simp: table_ok_def distinct_map_filter)
  have fs: "set found = {q. \<exists>k. (k, q) \<in> set (FileNodeMap s) \<and> below ?ci ?p k}" by (force simp: found_def)
  have nm: "\<forall>(k, q) \<in> set (FileNodeMap s). nm q = k" using table_okD(2) [OF ok(1)] by (force simp: nm_def)
  have live1: "\<forall>q \<in> set found. nodes s1 q \<noteq> None" using s1(3) unfolding refs_ok_def by auto
  obtain long where long: "too_long s1 (length ?p) (length new) found = Some long"
    "\<not> long \<longrightarrow> (\<forall>q \<in> set found. \<forall>n'. nodes s1 q = Some n' \<longrightarrow> length (FileName n') - length ?p + length new < MEMFS_MAX_PATH)"
    using too_long_total [OF live1] by blast
  show ?thesis
  proof (cases long)
    case True
    obtain s2 where s2: "MemfsFileNodeMapEnumerateFree found s1 = Some s2" "table_ok s2" "refs_ok s2 h"
      "FileNodeMap s2 = FileNodeMap s1" "CaseInsensitive s2 = CaseInsensitive s1" using free_all [OF s1(3,2)] by blast
    have "session_ok s2 h" using s2(2-5) s1(4,5) so by (simp add: session_ok_def tree_closed_def)
    then show ?thesis using assms(4) s1(1,4) long(1) True s2(1,4) by (simp add: move_subtree_def)
  next
    case False
    have get: "?target = Some t \<longleftrightarrow> (\<exists>k. (k, t) \<in> set (FileNodeMap s) \<and> entry_key s k = entry_key s new)" for t
      using MapGet_Some [OF ok(1), of new e t] ok(5) by (simp add: adm_path_def)
    have "\<forall>t. ?target = Some t \<longrightarrow> in_table s1 t" unfolding get in_table_def s1(4) by force
    from drop_target [OF assms(1) s1(2,3) this] obtain s2 where
      s2: "(case ?target of
           None \<Rightarrow> Some s1
         | Some t \<Rightarrow> do { a \<leftarrow> MemfsFileNodeReference t s1; b \<leftarrow> MemfsFileNodeMapRemove e t a; MemfsFileNodeDereference t b }) = Some s2"
      "table_ok s2" "refs_ok s2 (mset found + h)" "set (FileNodeMap s2) = {x \<in> set (FileNodeMap s). Some (snd x) \<noteq> ?target}"
      "CaseInsensitive s2 = ?ci" "names_kept s1 s2" unfolding s1(4,5) by blast
    have gone: "Some (snd x) \<noteq> ?target \<longleftrightarrow> entry_key s (fst x) \<noteq> entry_key s new" if "x \<in> set (FileNodeMap s)" for x
    proof -
      have x: "(fst x, snd x) \<in> set (FileNodeMap s)" using that by simp
      have "k = fst x" if "(k, snd x) \<in> set (FileNodeMap s)" for k
        using table_okD(2) [OF ok(1) x] table_okD(2) [OF ok(1) that] by auto
      then have "?target = Some (snd x) \<longleftrightarrow> entry_key s (fst x) = entry_key s new"
        unfolding get using x by blast
      then show ?thesis by metis
    qed
    have m2: "set (FileNodeMap s2) = {x \<in> set (FileNodeMap s). entry_key s (fst x) \<noteq> entry_key s new}"
      unfolding s2(4) using gone by blast
    have live2: "\<exists>n'. nodes s2 q = Some n' \<and> FileName n' = nm q" if "q \<in> set found" for q
    proof -
      have "nodes s2 q \<noteq> None" using s2(3) that unfolding refs_ok_def by auto
      then obtain n' where n': "nodes s2 q = Some n'" by blast
      then show ?thesis using names_keptD [OF names_kept_trans [OF s1(6) s2(6)] n'] by (auto simp: nm_def)
    qed
    have short: "length (nm q) - length ?p + length new < MEMFS_MAX_PATH" if q: "q \<in> set found" for q
    proof -
      obtain n' where n': "nodes s1 q = Some n'" using live1 q by blast
      then have "FileName n' = nm q" using names_keptD [OF s1(6) n'] by (auto simp: nm_def)
      then show ?thesis using long(2) False q n' by metis
    qed
    have mv: "movable nm (\<lambda>q. new @ drop (length ?p) (nm q)) found s2"
      by (rule subtree_movable [OF assms(5) m2 s2(5) fd fs nm]) (use live2 short in blast)+
    have sub: "set found \<subseteq> set_mset (mset found + h)" by simp
    obtain s3 where s3: "rename_nodes e (length ?p) new found s2 = Some s3" "table_ok s3" "refs_ok s3 (mset found + h)"
      "CaseInsensitive s3 = CaseInsensitive s2"
      "set (FileNodeMap s3) = {x \<in> set (FileNodeMap s2). snd x \<notin> set found} \<union> (\<lambda>q. (new @ drop (length ?p) (nm q), q)) ` set found"
      using rename_loop [OF assms(1,2) mv s2(2,3) sub] by blast
    obtain s4 where s4: "MemfsFileNodeMapEnumerateFree found s3 = Some s4" "table_ok s4" "refs_ok s4 h"
      "FileNodeMap s4 = FileNodeMap s3" "CaseInsensitive s4 = CaseInsensitive s3" using free_all [OF s3(3,2)] by blast
    have nmD: "nm q = k" if "(k, q) \<in> set (FileNodeMap s)" for k q using nm that by blast
    have in_found: "q \<in> set found \<longleftrightarrow> below ?ci ?p k" if kq: "(k, q) \<in> set (FileNodeMap s)" for k q
    proof -
      have "k' = k" if "(k', q) \<in> set (FileNodeMap s)" for k' using nmD [OF that] nmD [OF kq] by simp
      then show ?thesis unfolding fs using kq by blast
    qed
    have m4: "set (FileNodeMap s4) = {(k, q). (k, q) \<in> set (FileNodeMap s) \<and> \<not> below ?ci ?p k \<and> entry_key s k \<noteq> entry_key s new} \<union>
      {(new @ drop (length ?p) k, q) | k q. (k, q) \<in> set (FileNodeMap s) \<and> below ?ci ?p k}" (is "_ = ?A \<union> ?B")
    proof -
      have "{x \<in> set (FileNodeMap s2). snd x \<notin> set found} = ?A" unfolding m2 using in_found by auto
      moreover have "(\<lambda>q. (new @ drop (length ?p) (nm q), q)) ` set found = ?B" unfolding fs using nm by force
      ultimately show ?thesis unfolding s4(4) s3(5) by simp
    qed
    have ci4: "CaseInsensitive s4 = ?ci" using s4(5) s3(4) s2(5) by simp
    have key: "\<forall>(k, q) \<in> set (FileNodeMap s). below ?ci ?p k \<longrightarrow>
      entry_key s (new @ drop (length ?p) k) = entry_key s new @ drop (length (entry_key s ?p)) (entry_key s k)"
    proof (intro ballI, clarify)
      fix k q assume kq: "(k, q) \<in> set (FileNodeMap s)" "below ?ci ?p k"
      then have "length k - length ?p + length new < MEMFS_MAX_PATH" using short [of q] in_found nm by auto
      then show "entry_key s (new @ drop (length ?p) k) = entry_key s new @ drop (length (entry_key s ?p)) (entry_key s k)"
        using moved_name [OF ok(6,4) table_okD(1) [OF ok(1) kq(1)] kq(2) ok(5) new_not_root [OF assms(5)]] by blast
    qed
    have "tree_closed s4" by (rule moved_closed [OF assms(5) ci4 m4 key])
    then have "session_ok s4 h" using s4(2,3) by (simp add: session_ok_def)
    moreover have "move_subtree e r new ?target s = Some (STATUS_SUCCESS, s4)"
      using assms(4) s1(1) long(1) False s2(1) s3(1) s4(1) by (simp add: move_subtree_def)
    ultimately show ?thesis using m4 ci4 by blast
  qed
qed

text \<open>Entries that are not directories have no children.\<close>

definition dirs_ok :: "memfs \<Rightarrow> bool" where
  "dirs_ok s \<longleftrightarrow> (\<forall>(k, q) \<in> set (FileNodeMap s). \<forall>n. nodes s q = Some n \<longrightarrow>
     FileAttributes (FileInfo n) AND FILE_ATTRIBUTE_DIRECTORY = 0 \<longrightarrow>
     \<not> (\<exists>(k2, q2) \<in> set (FileNodeMap s). is_child s k k2))"

text \<open>What the kernel makes sure of before it sends a rename: the file is in the table and is not the root, the new
  name is a path that is not inside the renamed directory, and its directory exists.\<close>

definition rename_request :: "memfs \<Rightarrow> nat \<Rightarrow> wstr \<Rightarrow> bool" where
  "rename_request s r new \<longleftrightarrow> adm_path (CaseInsensitive s) new \<and>
     (\<exists>(p, q) \<in> set (FileNodeMap s). q = r \<and> p \<noteq> [BSLASH] \<and>
        (below (CaseInsensitive s) p new \<longrightarrow> entry_key s new = entry_key s p)) \<and>
     (\<exists>(k, q) \<in> set (FileNodeMap s). entry_key s k = parent_key (entry_key s new))"

lemma Rename_session:
  assumes "path_laws e" "table_grows e" "session_ok s h" "dirs_ok s" "nodes s r = Some n" "rename_request s r new"
  shows "\<exists>st s'. MemfsRename e r new replace s = Some (st, s') \<and> session_ok s' h \<and>
    (if st = STATUS_SUCCESS
     then CaseInsensitive s' = CaseInsensitive s \<and>
       set (FileNodeMap s') =
         {(k, q). (k, q) \<in> set (FileNodeMap s) \<and> \<not> below (CaseInsensitive s) (FileName n) k \<and> entry_key s k \<noteq> entry_key s new} \<union>
         {(new @ drop (length (FileName n)) k, q) | k q. (k, q) \<in> set (FileNodeMap s) \<and> below (CaseInsensitive s) (FileName n) k}
     else FileNodeMap s' = FileNodeMap s)"
proof -
  let ?target = "MemfsFileNodeMapGet e new s"
  note so = session_okD [OF assms(3)]
  obtain p where p: "(p, r) \<in> set (FileNodeMap s)" "p \<noteq> [BSLASH]"
    "below (CaseInsensitive s) p new \<longrightarrow> entry_key s new = entry_key s p"
    using assms(6) by (auto simp: rename_request_def)
  have pn: "p = FileName n" using table_okD(2) [OF _ p(1)] so assms(5) by auto
  have adm: "adm_path (CaseInsensitive s) new" using assms(6) by (simp add: rename_request_def)
  have get: "?target = Some t \<longleftrightarrow> (\<exists>k. (k, t) \<in> set (FileNodeMap s) \<and> entry_key s k = entry_key s new)" for t
    using MapGet_Some [of s new e t] so adm by (simp add: adm_path_def)
  have rok: "rename_ok s r (FileName n) new"
    if childless: "\<And>k q. (k, q) \<in> set (FileNodeMap s) \<Longrightarrow> entry_key s k = entry_key s new \<Longrightarrow> q \<noteq> r \<Longrightarrow>
        \<not> (\<exists>(k2, q2) \<in> set (FileNodeMap s). is_child s new k2)"
    using so p assms(6) childless unfolding rename_ok_def rename_request_def pn by blast
  show ?thesis
  proof (cases "FileName n = ftj_disk_bin")
    case True
    then show ?thesis using assms(3,5) by (simp add: MemfsRename_def)
  next
    case nd: False
    show ?thesis
    proof (cases "\<exists>t. ?target = Some t \<and> t \<noteq> r")
      case False
      have "rename_ok s r (FileName n) new"
        by (rule rok) (use False get in blast)
      moreover have "MemfsRename e r new replace s = move_subtree e r new ?target s"
        using assms(5) nd False by (auto simp: MemfsRename_def Let_def split: option.split)
      ultimately show ?thesis using move_subtree_ok [OF assms(1-3,5)] by fastforce
    next
      case True
      then obtain t where t: "?target = Some t" "t \<noteq> r" by blast
      then obtain k where k: "(k, t) \<in> set (FileNodeMap s)" "entry_key s k = entry_key s new" using get by blast
      obtain tn where tn: "nodes s t = Some tn" using table_okD(2) [OF _ k(1)] so by blast
      show ?thesis
      proof (cases "replace \<and> FileAttributes (FileInfo tn) AND FILE_ATTRIBUTE_DIRECTORY = 0")
        case False
        then show ?thesis using assms(3,5) nd t tn by (auto simp: MemfsRename_def Let_def)
      next
        case plain: True
        have nochild: "\<not> (\<exists>(k2, q2) \<in> set (FileNodeMap s). is_child s k k2)"
          using assms(4) k(1) tn plain unfolding dirs_ok_def by blast
        have "rename_ok s r (FileName n) new"
          by (rule rok) (use nochild k(2) in \<open>simp add: is_child_def\<close>)
        moreover have "MemfsRename e r new replace s = move_subtree e r new ?target s"
          using assms(5) nd t tn plain by (simp add: MemfsRename_def Let_def)
        ultimately show ?thesis using move_subtree_ok [OF assms(1-3,5)] by fastforce
      qed
    qed
  qed
qed

section \<open>Properties\<close>

text \<open>C7: a rename that the kernel may send is always defined and keeps the invariant. When it succeeds, the new table
  is the old one with every entry at or below the old name under the new name instead, and without the entry
  that had the new name; the nodes and their handles stay. Otherwise the table is as before.\<close>

theorem rename_moves_subtree:
  assumes "path_laws e" "table_grows e" "session_ok s h" "dirs_ok s" "nodes s r = Some n" "rename_request s r new"
  shows "\<exists>st s'. MemfsRename e r new replace s = Some (st, s') \<and> session_ok s' h \<and>
    (if st = STATUS_SUCCESS
     then CaseInsensitive s' = CaseInsensitive s \<and>
       set (FileNodeMap s') =
         {(k, q). (k, q) \<in> set (FileNodeMap s) \<and> \<not> below (CaseInsensitive s) (FileName n) k \<and> entry_key s k \<noteq> entry_key s new} \<union>
         {(new @ drop (length (FileName n)) k, q) | k q. (k, q) \<in> set (FileNodeMap s) \<and> below (CaseInsensitive s) (FileName n) k}
     else FileNodeMap s' = FileNodeMap s)"
  by (rule Rename_session [OF assms])

lemma demo_rename: "dirs_ok demo_fs" "rename_request demo_fs 2 (path_of [[0x63]])"
proof -
  show "dirs_ok demo_fs"
    by (auto simp: dirs_ok_def demo_fs_def demo_node_def zero_info_def is_child_def parent_key_def)
  show "rename_request demo_fs 2 (path_of [[0x63]])"
    unfolding rename_request_def below_def using demo_paths
    by (auto simp: demo_fs_def parent_key_def) (simp_all add: path_of_def)
qed

theorem rename_moves_subtree_witness:
  "\<exists>st s'. MemfsRename demo_env 2 (path_of [[0x63]]) False demo_fs = Some (st, s') \<and> session_ok s' {#2#}"
  using rename_moves_subtree [OF demo_env_laws demo_session demo_rename(1) demo_fields(1) demo_rename(2), of False] by blast

end
