(* ===== verification/Memfs_Life.thy ===== *)
theory Memfs_Life
  imports Memfs_Rename
begin

text \<open>
  The life of the file system of \<open>src/win_vdisk.cpp\<close>: it is built by \<open>MemfsCreateFunnel\<close> and then serves
  calls in any order and on any of its open handles. A state is the file system, the open handles and
  the drive. The kernel's part is in the premises of the rules: names are paths, handlers are called
  on open handles, the cleanup that deletes is sent for a file that is still in the table, and a rename
  for a file in the table to a free or replaceable name in an existing directory.
\<close>

definition handles_after :: "opened option \<Rightarrow> nat multiset \<Rightarrow> nat multiset" where
  "handles_after res h = (case res of None \<Rightarrow> h | Some (r, i, nm) \<Rightarrow> add_mset r h)"

abbreviation put_node :: "nat \<Rightarrow> file_node \<Rightarrow> memfs \<Rightarrow> memfs" where
  "put_node r n s \<equiv> s\<lparr>nodes := (nodes s)(r \<mapsto> n)\<rparr>"

type_synonym 'd fs_state = "memfs \<times> nat multiset \<times> 'd option"

inductive fs_step :: "(nat \<Rightarrow> u8 list option \<Rightarrow> nat \<Rightarrow> 'd \<Rightarrow> (bool \<times> 'd) option) \<Rightarrow> 'd fs_state \<Rightarrow> 'd fs_state \<Rightarrow> bool"
  for dev_write :: "nat \<Rightarrow> u8 list option \<Rightarrow> nat \<Rightarrow> 'd \<Rightarrow> (bool \<times> 'd) option" where
  open_file: "path_laws e \<Longrightarrow> adm_path (CaseInsensitive s) name \<Longrightarrow> MemfsOpen e name s = Some (st, res, s') \<Longrightarrow>
    fs_step dev_write (s, h, d) (s', handles_after res h, d)"
| create_file: "path_laws e \<Longrightarrow> adm_path (CaseInsensitive s) name \<Longrightarrow>
    MemfsCreate e name options attributes sd allocation s = Some (st, res, s') \<Longrightarrow>
    fs_step dev_write (s, h, d) (s', handles_after res h, d)"
| close_file: "r \<in># h \<Longrightarrow> MemfsClose r s = Some s' \<Longrightarrow> fs_step dev_write (s, h, d) (s', h - {#r#}, d)"
| cleanup_file: "path_laws e \<Longrightarrow> r \<in># h \<Longrightarrow> (CleanupDelete fl \<Longrightarrow> in_table s r) \<Longrightarrow> MemfsCleanup e r fl s = Some s' \<Longrightarrow>
    fs_step dev_write (s, h, d) (s', h, d)"
| write_file: "r \<in># h \<Longrightarrow> nodes s r = Some n \<Longrightarrow>
    MemfsWrite (win (e :: env)) (LargeHeapAlignment e) (MaxFileSize s) (now e) dev_write n buf off len toEnd constrained want d =
      Some (st, bytes, info, n', d') \<Longrightarrow>
    fs_step dev_write (s, h, d) (put_node r n' s, h, d')"
| set_file_size: "r \<in># h \<Longrightarrow> nodes s r = Some n \<Longrightarrow>
    SetFileSize (win (e :: env)) (LargeHeapAlignment e) (MaxFileSize s) new_size set_alloc n = Some (st, info, n') \<Longrightarrow>
    fs_step dev_write (s, h, d) (put_node r n' s, h, d)"
| overwrite_file: "r \<in># h \<Longrightarrow> nodes s r = Some n \<Longrightarrow>
    MemfsOverwrite (win (e :: env)) (LargeHeapAlignment e) (MaxFileSize s) (now e) attributes replace allocation n = Some (st, info, n') \<Longrightarrow>
    fs_step dev_write (s, h, d) (put_node r n' s, h, d)"
| set_basic_info: "r \<in># h \<Longrightarrow> nodes s r = Some n \<Longrightarrow> MemfsSetBasicInfo attributes ct la lw ch n = (st, info, n') \<Longrightarrow>
    fs_step dev_write (s, h, d) (put_node r n' s, h, d)"
| set_security: "r \<in># h \<Longrightarrow> nodes s r = Some n \<Longrightarrow> MemfsSetSecurity modify (malloc (e :: env)) n = (st, n') \<Longrightarrow>
    fs_step dev_write (s, h, d) (put_node r n' s, h, d)"
| set_label: "SetVolumeLabel label s = (st, info, s') \<Longrightarrow> fs_step dev_write (s, h, d) (s', h, d)"
| rename_file: "path_laws e \<Longrightarrow> table_grows e \<Longrightarrow> r \<in># h \<Longrightarrow> rename_request s r new \<Longrightarrow> dirs_ok s \<Longrightarrow>
    MemfsRename e r new replace s = Some (st, s') \<Longrightarrow> fs_step dev_write (s, h, d) (s', h, d)"

section \<open>Handlers that change one node\<close>

lemma ident_updates [simp]:
  "ident (n\<lparr>FileInfo := i\<rparr>) = ident n" "ident (n\<lparr>FileData := x\<rparr>) = ident n"
  "ident (n\<lparr>FileSecurity := sd\<rparr>) = ident n" "ident (n\<lparr>FileSecuritySize := k\<rparr>) = ident n"
  by (simp_all add: ident_def)

lemma SetFileSizeInternal_ident: "SetFileSizeInternal h al mx N b n = Some (st, n') \<Longrightarrow> ident n' = ident n"
  by (auto simp: SetFileSizeInternal_def Let_def bind_eq_Some_conv dest!: SetAllocation_ident split: if_splits prod.splits)

lemma SetFileSize_ident: "SetFileSize h al mx N b n = Some (st, info, n') \<Longrightarrow> ident n' = ident n"
  by (auto simp: SetFileSize_def bind_eq_Some_conv dest: SetFileSizeInternal_ident split: if_splits)

lemma MemfsOverwrite_ident: "MemfsOverwrite h al mx t at rep N n = Some (st, info, n') \<Longrightarrow> ident n' = ident n"
  by (auto simp: MemfsOverwrite_def Let_def bind_eq_Some_conv dest: SetFileSizeInternal_ident split: if_splits)

lemma MemfsWrite_ident:
  assumes "MemfsWrite h al mx t dw n buf off len toEnd con want d = Some (st, bytes, info, n', d')"
  shows "ident n' = ident n"
proof (cases "FileName n = ftj_disk_bin")
  case True
  then show ?thesis using assms
    by (cases d) (auto simp: MemfsWrite_def Let_def bind_eq_Some_conv split: if_splits)
next
  case plain: False
  show ?thesis
  proof (cases con)
    case True
    then show ?thesis using assms plain by (auto simp: MemfsWrite_def Let_def bind_eq_Some_conv split: if_splits)
  next
    case free: False
    define off' where "off' = (if toEnd then FileSize (FileInfo n) else off)"
    show ?thesis
    proof (cases "off' + ucast len > FileSize (FileInfo n)")
      case True
      obtain st1 n1 where g: "SetFileSizeInternal h al mx (off' + ucast len) False n = Some (st1, n1)"
        using assms True plain free by (cases "SetFileSizeInternal h al mx (off' + ucast len) False n")
          (auto simp: MemfsWrite_def Let_def off'_def [symmetric])
      have "ident n' = ident n1"
        using assms True plain free g by (auto simp: MemfsWrite_def Let_def bind_eq_Some_conv off'_def [symmetric] split: if_splits)
      then show ?thesis using SetFileSizeInternal_ident [OF g] by simp
    next
      case False
      then show ?thesis using assms plain free
        by (auto simp: MemfsWrite_def Let_def bind_eq_Some_conv off'_def [symmetric])
    qed
  qed
qed

lemma SetVolumeLabel_shape: "SetVolumeLabel label s = (st, info, s') \<Longrightarrow> same_shape s s'"
  by (auto simp: SetVolumeLabel_def Let_def same_shape_def idents_def fun_eq_iff)

lemma put_node_session:
  assumes "session_ok s h" "nodes s r = Some n" "ident n' = ident n"
  shows "session_ok (put_node r n' s) h"
  using same_shape_session [OF node_change_shape [OF assms(2,3)] assms(1)] .

lemma fs_step_session:
  "fs_step dw x y \<Longrightarrow> x = (s, h, d) \<Longrightarrow> y = (s', h', d') \<Longrightarrow> session_ok s h \<Longrightarrow> session_ok s' h'"
proof (induction rule: fs_step.induct)
  case (open_file e t name st res t' k c)
  then show ?case using Open_session [of e s h name] by (auto simp: handles_after_def split: option.splits)
next
  case (create_file e t name options attributes sd allocation st res t' k c)
  then show ?case using Create_session [of e s h name options attributes sd allocation] by (auto simp: handles_after_def)
next
  case (close_file r k t t' c)
  then show ?case using Close_session [of s h r] by auto
next
  case (cleanup_file e r k fl t t' c)
  then show ?case using Cleanup_session [of e s h r fl] by auto
next
  case (write_file r k t n e buf off len toEnd constrained want c st bytes info n' c')
  then show ?case using put_node_session [of s h r n n'] MemfsWrite_ident by blast
next
  case (set_file_size r k t n e new_size set_alloc st info n' c)
  then show ?case using put_node_session [of s h r n n'] SetFileSize_ident by blast
next
  case (overwrite_file r k t n e attributes replace allocation st info n' c)
  then show ?case using put_node_session [of s h r n n'] MemfsOverwrite_ident by blast
next
  case (set_basic_info r k t n attributes ct la lw ch st info n' c)
  then have "ident n' = ident n" by (auto simp: MemfsSetBasicInfo_def Let_def)
  then show ?case using set_basic_info put_node_session [of s h r n n'] by blast
next
  case (set_security r k t n modify e st n' c)
  then have "ident n' = ident n" by (auto simp: MemfsSetSecurity_def ident_def split: if_splits prod.splits)
  then show ?case using set_security put_node_session [of s h r n n'] by blast
next
  case (set_label label t st info t' k c)
  then show ?case using same_shape_session [OF SetVolumeLabel_shape] by blast
next
  case (rename_file e r k t new replace st t' c)
  then obtain n where "nodes s r = Some n" unfolding session_ok_def refs_ok_def by blast
  then show ?case using rename_file Rename_session [of e s h r n new replace] by auto
qed

lemma fs_run_session:
  assumes "(fs_step dw)\<^sup>*\<^sup>* (s, h, d) (s', h', d')" "session_ok s h"
  shows "session_ok s' h'"
proof -
  have "session_ok (fst y) (fst (snd y))" if "(fs_step dw)\<^sup>*\<^sup>* (s, h, d) y" for y
    using that
  proof induction
    case base
    then show ?case using assms(2) by simp
  next
    case (step y z)
    then show ?case using fs_step_session [of dw y z "fst y" "fst (snd y)" "snd (snd y)" "fst z" "fst (snd z)" "snd (snd z)"] by simp
  qed
  then show ?thesis using assms(1) by fastforce
qed

end
