(* ===== verification/Memfs_Funnel.thy ===== *)
theory Memfs_Funnel
  imports Memfs_Ops
begin

text \<open>
  The construction of the file system, \<open>MemfsCreateFunnel\<close> of \<open>src/win_vdisk.cpp\<close>, and \<open>MemfsDelete\<close>. What the
  construction acquires is kept in a ledger (\<open>holdings\<close>): the security descriptor, the \<open>MEMFS\<close> block, the table, the WinFsp
  object and the nodes. Each clean-up of the code gives back what it names, and giving back what is not held is undefined
  (\<open>None\<close>). \<open>None\<close> is also the end of the program: \<open>wcscpy_s\<close> with a text that does not fit its buffer, and the exception
  that nobody catches when there is no memory for the controller.
\<close>

section \<open>What the volume is created with\<close>

definition MemfsDisk :: u32 where "MemfsDisk = 0"
definition MemfsNet :: u32 where "MemfsNet = 1"
definition MemfsDeviceMask :: u32 where "MemfsDeviceMask = 0xF"
definition MemfsCaseInsensitive :: u32 where "MemfsCaseInsensitive = 0x80000000"
definition MemfsFlushAndPurgeOnCleanup :: u32 where "MemfsFlushAndPurgeOnCleanup = 0x40000000"
definition MemfsLegacyUnlinkRename :: u32 where "MemfsLegacyUnlinkRename = 0x20000000"

definition FTJFS :: wstr where "FTJFS = [0x46, 0x54, 0x4A, 0x46, 0x53]"

definition default_sddl :: wstr where
  "default_sddl = map of_char ''O:BAG:BAD:P(A;;FA;;;SY)(A;;FA;;;BA)(A;;FA;;;WD)''"

text \<open>The fields of the volume parameters that depend on the options.\<close>

record volume_params =
  net_device :: bool
  vp_FileInfoTimeout :: u32
  CaseSensitiveSearch :: bool
  FlushAndPurge :: bool
  SupportsPosixUnlinkRename :: bool
  Prefix :: wstr
  vp_FileSystemName :: wstr

definition volume_params_of :: "u32 \<Rightarrow> u32 \<Rightarrow> wstr option \<Rightarrow> wstr option \<Rightarrow> volume_params" where
  "volume_params_of flags timeout prefix name =
     \<lparr>net_device = (MemfsNet = flags AND MemfsDeviceMask), vp_FileInfoTimeout = timeout,
      CaseSensitiveSearch = (flags AND MemfsCaseInsensitive = 0),
      FlushAndPurge = (flags AND MemfsFlushAndPurgeOnCleanup \<noteq> 0),
      SupportsPosixUnlinkRename = (flags AND MemfsLegacyUnlinkRename = 0),
      Prefix = (case prefix of None \<Rightarrow> [] | Some p \<Rightarrow> p),
      vp_FileSystemName = (case name of None \<Rightarrow> FTJFS | Some n \<Rightarrow> n)\<rparr>"

section \<open>The system calls and the ledger\<close>

text \<open>What the system answers: the heap, the conversion of a security descriptor (or its error), the memory for the
  file system and its table, the characters that the two texts of the volume parameters have room for (their buffers are
  WinFsp's), the memory for the controller, and \<open>FspFileSystemCreate\<close>. The two nodes are made one after the other; the answers
  for the first are those of the environment, and the disk node has its own time and its own memory. \<open>GetCapacity\<close> is the
  capacity of \<open>g_controller\<close>.\<close>

record funnel_calls =
  heap_state :: large_heap
  heap_created :: bool
  root_descriptor :: "wstr \<Rightarrow> ntstatus + u8 list"
  memfs_malloc :: bool
  map_allocated :: bool
  prefix_room :: nat
  name_room :: nat
  controller_made :: bool
  fsp_created :: "volume_params \<Rightarrow> ntstatus"
  disk_now :: u64
  disk_node_malloc :: bool
  disk_malloc :: "nat \<Rightarrow> bool"
  disk_table_grows :: bool
  GetCapacity :: nat

text \<open>The statuses of the model that are not errors or warnings.\<close>

definition NT_SUCCESS :: "ntstatus \<Rightarrow> bool" where
  "NT_SUCCESS st \<longleftrightarrow> st = STATUS_SUCCESS \<or> st = STATUS_PENDING"

record holdings =
  heap_after :: large_heap
  root_security :: bool
  memfs_block :: bool
  node_map :: bool
  fsp_object :: bool
  fs_of :: memfs

text \<open>\<open>LocalFree(RootSecurity)\<close>, \<open>free(Memfs)\<close>, \<open>MemfsFileNodeMapDelete\<close> and \<open>FspFileSystemDelete\<close>; the last two take their
  argument from the block.\<close>

definition release_security :: "holdings \<Rightarrow> holdings option" where
  "release_security m = (if root_security m then Some (m\<lparr>root_security := False\<rparr>) else None)"

definition release_block :: "holdings \<Rightarrow> holdings option" where
  "release_block m = (if memfs_block m then Some (m\<lparr>memfs_block := False\<rparr>) else None)"

definition release_map :: "holdings \<Rightarrow> holdings option" where
  "release_map m =
     (if memfs_block m \<and> node_map m
      then do { s \<leftarrow> MemfsFileNodeMapDelete (fs_of m); Some (m\<lparr>node_map := False, fs_of := s\<rparr>) }
      else None)"

definition release_fsp :: "holdings \<Rightarrow> holdings option" where
  "release_fsp m = (if memfs_block m \<and> fsp_object m then Some (m\<lparr>fsp_object := False\<rparr>) else None)"

text \<open>\<open>MemfsDelete\<close> on the ledger, and its effect on the nodes alone.\<close>

definition release_all :: "holdings \<Rightarrow> holdings option" where
  "release_all m = do { m1 \<leftarrow> release_fsp m; m2 \<leftarrow> release_map m1; release_block m2 }"

definition MemfsDelete :: "memfs \<Rightarrow> memfs option" where
  "MemfsDelete s = MemfsFileNodeMapDelete s"

section \<open>Construction\<close>

definition rounded_max_size :: "u32 \<Rightarrow> u32" where
  "rounded_max_size m = ucast ((ucast m + AllocationUnit - 1) div AllocationUnit * AllocationUnit)"

definition root_name :: wstr where "root_name = [BSLASH]"

definition empty_memfs :: "bool \<Rightarrow> u32 \<Rightarrow> u32 \<Rightarrow> memfs" where
  "empty_memfs ci max_nodes max_size =
     \<lparr>nodes = \<lambda>_. None, fresh_address = 1, next_index = 1, FileNodeMap = [], CaseInsensitive = ci,
      MaxFileNodes = max_nodes, MaxFileSize = rounded_max_size max_size,
      VolumeLabelLength = 10, VolumeLabel = FTJFS @ replicate 27 0\<rparr>"

definition no_holdings :: "large_heap \<Rightarrow> memfs \<Rightarrow> holdings" where
  "no_holdings lh s = \<lparr>heap_after = lh, root_security = False, memfs_block = False, node_map = False, fsp_object = False, fs_of = s\<rparr>"

text \<open>The clean-up once the WinFsp object exists: \<open>MemfsDelete\<close>, then the descriptor.\<close>

definition give_up :: "ntstatus \<Rightarrow> holdings \<Rightarrow> (ntstatus \<times> holdings) option" where
  "give_up st m = do { m1 \<leftarrow> release_all m; m2 \<leftarrow> release_security m1; Some (st, m2) }"

text \<open>The root node; a failure deletes the node, unless it was not made, and gives up.\<close>

definition create_root :: "env \<Rightarrow> u8 list \<Rightarrow> holdings \<Rightarrow> (ntstatus \<times> holdings) option" where
  "create_root e sd m = do {
     (st, node, s1) \<leftarrow> MemfsFileNodeCreate e root_name (fs_of m);
     (case node of
        None \<Rightarrow> give_up st (m\<lparr>fs_of := s1\<rparr>)
      | Some r \<Rightarrow>
         (let s2 = upd_node r (set_info (\<lambda>i. i\<lparr>FileAttributes := FILE_ATTRIBUTE_DIRECTORY\<rparr>)) s1 in
          if \<not> malloc e (length sd) then give_up STATUS_INSUFFICIENT_RESOURCES (m\<lparr>fs_of := MemfsFileNodeDelete r s2\<rparr>)
          else (let s3 = upd_node r (\<lambda>n. n\<lparr>FileSecuritySize := length sd, FileSecurity := Some sd\<rparr>) s2 in do {
            (st2, inserted, s4) \<leftarrow> MemfsFileNodeMapInsert e r s3;
            if st2 \<noteq> STATUS_SUCCESS then give_up st2 (m\<lparr>fs_of := MemfsFileNodeDelete r s4\<rparr>)
            else Some (STATUS_SUCCESS, m\<lparr>fs_of := s4\<rparr>)
          })))
   }"

text \<open>The node of the virtual disk: left out when its memory is refused or the table cannot take it, without an error;
  without memory for its descriptor it has none.\<close>

definition add_disk_node :: "env \<Rightarrow> u8 list \<Rightarrow> u64 \<Rightarrow> memfs \<Rightarrow> memfs option" where
  "add_disk_node e sd cap s = do {
     (st, node, s1) \<leftarrow> MemfsFileNodeCreate e ftj_disk_bin s;
     (case node of
        None \<Rightarrow> Some s1
      | Some r \<Rightarrow>
         (let s2 = upd_node r (\<lambda>n. set_info (\<lambda>i. i\<lparr>FileAttributes := FILE_ATTRIBUTE_NORMAL, FileSize := cap, AllocationSize := cap\<rparr>)
                (if malloc e (length sd) then n\<lparr>FileSecuritySize := length sd, FileSecurity := Some sd\<rparr> else n)) s1
          in do {
            (st2, inserted, s3) \<leftarrow> MemfsFileNodeMapInsert e r s2;
            Some (if st2 \<noteq> STATUS_SUCCESS then MemfsFileNodeDelete r s3 else s3)
          }))
   }"

definition disk_env :: "env \<Rightarrow> funnel_calls \<Rightarrow> env" where
  "disk_env e c = e\<lparr>now := disk_now c, node_malloc := disk_node_malloc c, malloc := disk_malloc c, table_grows := disk_table_grows c\<rparr>"

text \<open>The copies into the volume parameters; the prefix is copied when there is one.\<close>

definition texts_fit :: "funnel_calls \<Rightarrow> wstr option \<Rightarrow> wstr option \<Rightarrow> bool" where
  "texts_fit c name prefix \<longleftrightarrow>
     (case prefix of None \<Rightarrow> True | Some p \<Rightarrow> length p < prefix_room c) \<and> controller_made c \<and>
     length (case name of None \<Rightarrow> FTJFS | Some n \<Rightarrow> n) < name_room c"

text \<open>The answer: the status, whether \<open>*PMemfs\<close> was set, and what is held when the function returns.\<close>

definition MemfsCreateFunnel :: "env \<Rightarrow> funnel_calls \<Rightarrow> u32 \<Rightarrow> u32 \<Rightarrow> u32 \<Rightarrow> u32 \<Rightarrow> wstr option \<Rightarrow> wstr option \<Rightarrow> wstr option \<Rightarrow>
   (ntstatus \<times> bool \<times> holdings) option" where
  "MemfsCreateFunnel e c Flags timeout max_nodes max_size name prefix sddl =
     (let (st, lh) = MemfsHeapConfigure (win e) (heap_created c) 0 (heap_state c);
          m0 = no_holdings lh (empty_memfs (Flags AND MemfsCaseInsensitive \<noteq> 0) max_nodes max_size);
          st_fsp = fsp_created c (volume_params_of Flags timeout prefix name)
      in if \<not> NT_SUCCESS st then Some (st, False, m0)
      else case root_descriptor c (case sddl of None \<Rightarrow> default_sddl | Some w \<Rightarrow> w) of
        Inl st1 \<Rightarrow> Some (st1, False, m0)
      | Inr sd \<Rightarrow>
         if \<not> memfs_malloc c
         then do { m \<leftarrow> release_security (m0\<lparr>root_security := True\<rparr>); Some (STATUS_INSUFFICIENT_RESOURCES, False, m) }
         else if \<not> map_allocated c
         then do {
           m \<leftarrow> release_block (m0\<lparr>root_security := True, memfs_block := True\<rparr>);
           m \<leftarrow> release_security m;
           Some (STATUS_INSUFFICIENT_RESOURCES, False, m)
         }
         else if \<not> texts_fit c name prefix then None
         else if \<not> NT_SUCCESS st_fsp
         then do {
           m \<leftarrow> release_map (m0\<lparr>root_security := True, memfs_block := True, node_map := True\<rparr>);
           m \<leftarrow> release_block m;
           m \<leftarrow> release_security m;
           Some (st_fsp, False, m)
         }
         else do {
           (st2, m1) \<leftarrow> create_root e sd (m0\<lparr>root_security := True, memfs_block := True, node_map := True, fsp_object := True\<rparr>);
           if st2 \<noteq> STATUS_SUCCESS then Some (st2, False, m1)
           else do {
             s \<leftarrow> add_disk_node (disk_env e c) sd (of_nat (GetCapacity c)) (fs_of m1);
             m2 \<leftarrow> release_security (m1\<lparr>fs_of := s\<rparr>);
             Some (STATUS_SUCCESS, True, m2)
           }
         })"

end
