(* ===== verification/Memfs_Boot.thy ===== *)
theory Memfs_Boot
  imports Memfs_Life Memfs_Funnel
begin

text \<open>
  The outcome of the construction (\<open>MemfsCreateFunnel\<close>) and of the deletion (\<open>MemfsDelete\<close>) of the file system of
  \<open>src/win_vdisk.cpp\<close>, what is held after each, and what holds of every state in between: the reachable states are
  those a fresh file system gets into by the calls of \<open>fs_step\<close>.
\<close>

section \<open>A fresh file system\<close>

lemma empty_session: "session_ok (empty_memfs ci max_nodes max_size) {#}"
  by (simp add: empty_memfs_def session_ok_def table_ok_def tree_closed_def refs_ok_def in_table_def)

lemma root_adm: "adm_path ci [BSLASH]"
  using adm_path_of [of "[]" ci] by (simp add: path_of_def)

lemma disk_path: "ftj_disk_bin = path_of [[0x66, 0x74, 0x6A, 0x5F, 0x64, 0x69, 0x73, 0x6B, 0x2E, 0x62, 0x69, 0x6E]]"
  by (simp add: ftj_disk_bin_def path_of_def)

lemma disk_comps: "comps_ok [[0x66, 0x74, 0x6A, 0x5F, 0x64, 0x69, 0x73, 0x6B, 0x2E, 0x62, 0x69, 0x6E]]"
  by (simp add: comp_ok_def is_sep_def)

lemma disk_adm: "adm_path ci ftj_disk_bin"
  unfolding disk_path by (rule adm_path_of [OF disk_comps]) (simp_all add: path_of_def)

lemma disk_parent: "parent_key (name_key ci ftj_disk_bin) = name_key ci [BSLASH]" "name_key ci [BSLASH] \<noteq> name_key ci ftj_disk_bin"
  unfolding disk_path name_key_path [OF disk_comps] using name_key_path [of "[]" ci]
  by (simp_all add: path_key_def parent_key_def path_of_def)

text \<open>Entering a node into the table keeps what the nodes hold, apart from counts and times.\<close>

definition kept :: "file_node \<Rightarrow> u32 \<times> u64 \<times> u64 \<times> u8 list option" where
  "kept n = (FileAttributes (FileInfo n), FileSize (FileInfo n), AllocationSize (FileInfo n), FileSecurity n)"

lemma Insert_kept:
  assumes "MemfsFileNodeMapInsert e r s = Some (st, inserted, s')"
  shows "map_option kept (nodes s' q) = map_option kept (nodes s q)"
proof -
  have k: "kept (n\<lparr>RefCount := c\<rparr>) = kept n" "kept \<circ> set_info (\<lambda>i. i\<lparr>LastAccessTime := t, LastWriteTime := t, ChangeTime := t\<rparr>) = kept"
    for n c t by (simp_all add: kept_def fun_eq_iff)
  show ?thesis
    using assms
    by (auto simp: MemfsFileNodeMapInsert_def MemfsFileNodeReference_def MemfsFileNodeMapTouchParent_def Let_def upd_node_def k
        option.map_comp split: Option.bind_splits if_splits prod.splits option.splits sum.splits simp del: o_apply)
qed

lemma kept_node: "map_option kept (nodes s' q) = Some k \<Longrightarrow> \<exists>n. nodes s' q = Some n \<and> kept n = k"
  by auto

text \<open>Creating a node and entering it into the table.\<close>

lemma enter_node:
  assumes "path_laws e" "session_ok s h" "node_malloc e" "adm_path (CaseInsensitive s) name"
    and "\<forall>(k, q) \<in> set (FileNodeMap s). entry_key s k \<noteq> entry_key s name"
    and "name = [BSLASH] \<or> (\<exists>(k, q) \<in> set (FileNodeMap s). entry_key s k = parent_key (entry_key s name))"
    and f: "\<And>n. ident (f n) = ident n"
  shows "\<exists>n s1. MemfsFileNodeCreate e name s = Some (STATUS_SUCCESS, Some (fresh_address s), s1) \<and>
    with_fresh s n s1 \<and> FileSecurity n = None \<and>
    (\<not> table_grows e \<and> MemfsFileNodeMapInsert e (fresh_address s) (upd_node (fresh_address s) f s1) =
       Some (STATUS_INSUFFICIENT_RESOURCES, False, upd_node (fresh_address s) f s1) \<or>
     (\<exists>s2. table_grows e \<and> MemfsFileNodeMapInsert e (fresh_address s) (upd_node (fresh_address s) f s1) = Some (STATUS_SUCCESS, True, s2) \<and>
       session_ok s2 h \<and> set (FileNodeMap s2) = insert (name, fresh_address s) (set (FileNodeMap s)) \<and>
       CaseInsensitive s2 = CaseInsensitive s))"
proof -
  let ?r = "fresh_address s"
  have ok: "table_ok s" "refs_ok s h" "tree_closed s" using assms(2) by (simp_all add: session_ok_def)
  have len: "\<not> MEMFS_MAX_PATH \<le> length name" using assms(4) by (simp add: adm_path_def)
  define n where "n = \<lparr>FileName = name, FileInfo = zero_info\<lparr>CreationTime := now e, LastAccessTime := now e, LastWriteTime := now e,
                  ChangeTime := now e, IndexNumber := next_index s\<rparr>, FileSecuritySize = 0, FileSecurity = None, FileData = None,
                  RefCount = 0\<rparr>"
  define s1 where "s1 = s\<lparr>nodes := (nodes s)(?r \<mapsto> n), fresh_address := Suc ?r, next_index := next_index s + 1\<rparr>"
  have mk: "MemfsFileNodeCreate e name s = Some (STATUS_SUCCESS, Some ?r, s1)"
    using assms(3) len by (simp add: MemfsFileNodeCreate_def s1_def n_def Let_def)
  have w1: "with_fresh s n s1" by (simp add: with_fresh_def s1_def)
  have sec: "FileSecurity n = None" by (simp add: n_def)
  have w2: "with_fresh s (f n) (upd_node ?r f s1)" by (rule with_fresh_upd [OF w1])
  have id: "FileName (f n) = name" "RefCount (f n) = 0" using f [of n] by (simp_all add: ident_def n_def)
  have wf: "FileNodeMap (upd_node ?r f s1) = FileNodeMap s" "CaseInsensitive (upd_node ?r f s1) = CaseInsensitive s"
    "nodes (upd_node ?r f s1) = (nodes s)(?r \<mapsto> f n)" "fresh_address (upd_node ?r f s1) = Suc ?r"
    using w2 by (simp_all add: with_fresh_def)
  have nm: "adm_path (CaseInsensitive s) (FileName (f n))"
    "\<forall>(k, q) \<in> set (FileNodeMap s). entry_key s k \<noteq> entry_key s (FileName (f n))" using assms(4,5) id(1) by simp_all
  from Insert_new [OF assms(1) ok(1,2) order_refl wf id(2) nm]
  consider (refused) "MemfsFileNodeMapInsert e ?r (upd_node ?r f s1) = Some (STATUS_INSUFFICIENT_RESOURCES, False, upd_node ?r f s1)" "\<not> table_grows e"
    | (entered) s2 where "MemfsFileNodeMapInsert e ?r (upd_node ?r f s1) = Some (STATUS_SUCCESS, True, s2)" "table_grows e" "table_ok s2"
        "refs_ok s2 h" "set (FileNodeMap s2) = insert (FileName (f n), ?r) (set (FileNodeMap s))" "CaseInsensitive s2 = CaseInsensitive s"
    by blast
  then show ?thesis
  proof cases
    case refused
    then show ?thesis using mk w1 sec by blast
  next
    case entered
    have "\<exists>p \<in> set (FileNodeMap s2). entry_key s2 (fst p) = parent_key (entry_key s2 k)"
      if kq: "(k, q) \<in> set (FileNodeMap s2)" "k \<noteq> [BSLASH]" for k q
    proof (cases "(k, q) \<in> set (FileNodeMap s)")
      case True
      then obtain p where "p \<in> set (FileNodeMap s)" "entry_key s (fst p) = parent_key (entry_key s k)"
        using ok(3) kq(2) by (fastforce simp: tree_closed_def)
      then show ?thesis using entered(5,6) by auto
    next
      case False
      then have "k = name" using kq(1) entered(5) id(1) by auto
      then show ?thesis using assms(6) kq(2) entered(5,6) by fastforce
    qed
    then have "tree_closed s2" by (fastforce simp: tree_closed_def)
    then show ?thesis using mk w1 sec entered id(1) by (simp add: session_ok_def) blast
  qed
qed

lemma root_map: "root_name = [BSLASH]"
  by (simp add: root_name_def)

section \<open>Deleting the file system\<close>

lemma delete_entries_ok:
  "distinct (map snd es) \<Longrightarrow> \<forall>(k, r) \<in> set es. nodes s r \<noteq> None \<Longrightarrow>
    \<exists>s'. delete_entries es s = Some s' \<and> (\<forall>r. nodes s' r = (if r \<in> snd ` set es then None else nodes s r))"
proof (induction es arbitrary: s)
  case (Cons x es)
  obtain k r where x: "x = (k, r)" by (cases x)
  let ?s = "MemfsFileNodeDelete r s"
  have "r \<notin> snd ` set es" using Cons.prems(1) x by simp
  then have "\<forall>(k, q) \<in> set es. nodes ?s q \<noteq> None" using Cons.prems(2) by (force simp: MemfsFileNodeDelete_def)
  from Cons.IH [OF _ this] obtain s' where "delete_entries es ?s = Some s'"
    "\<forall>q. nodes s' q = (if q \<in> snd ` set es then None else nodes ?s q)" using Cons.prems(1) by auto
  then show ?case using Cons.prems(2) x by (auto simp: MemfsFileNodeDelete_def)
qed simp

lemma MemfsDelete_ok:
  assumes "session_ok s h"
  shows "\<exists>s'. MemfsDelete s = Some s' \<and> (\<forall>r. nodes s' r = (if in_table s r then None else nodes s r)) \<and> FileNodeMap s' = []"
proof -
  have t: "table_ok s" using assms by (simp add: session_ok_def)
  then have "distinct (map snd (FileNodeMap s))" "\<forall>(k, r) \<in> set (FileNodeMap s). nodes s r \<noteq> None"
    by (auto simp: table_ok_def)
  from delete_entries_ok [OF this] show ?thesis
    by (auto simp: MemfsDelete_def MemfsFileNodeMapDelete_def in_table_def)
qed

lemma all_freed:
  assumes "session_ok s {#}"
  shows "\<exists>s'. MemfsFileNodeMapDelete s = Some s' \<and> (\<forall>r. nodes s' r = None)"
proof -
  have "\<forall>r. nodes s r \<noteq> None \<longleftrightarrow> in_table s r" using assms unfolding session_ok_def refs_ok_def by simp
  then have "\<forall>r. (if in_table s r then None else nodes s r) = None" by auto
  then show ?thesis using MemfsDelete_ok [OF assms] by (fastforce simp: MemfsDelete_def)
qed

text \<open>The two ways a construction may leave the ledger: nothing is held, or the file system and no more.\<close>

definition nothing_held :: "holdings \<Rightarrow> bool" where
  "nothing_held m \<longleftrightarrow> \<not> root_security m \<and> \<not> memfs_block m \<and> \<not> node_map m \<and> \<not> fsp_object m \<and> (\<forall>r. nodes (fs_of m) r = None)"

definition file_system_held :: "holdings \<Rightarrow> bool" where
  "file_system_held m \<longleftrightarrow> \<not> root_security m \<and> memfs_block m \<and> node_map m \<and> fsp_object m \<and> session_ok (fs_of m) {#}"

lemma release_all_ok:
  assumes "memfs_block m" "node_map m" "fsp_object m" "session_ok (fs_of m) {#}"
  shows "\<exists>s'. release_all m = Some (m\<lparr>fsp_object := False, node_map := False, fs_of := s', memfs_block := False\<rparr>) \<and> (\<forall>r. nodes s' r = None)"
  using all_freed [OF assms(4)] assms(1-3)
  by (auto simp: release_all_def release_fsp_def release_map_def release_block_def)

lemma release_file_system:
  assumes "file_system_held m"
  shows "\<exists>m'. release_all m = Some m' \<and> nothing_held m'"
  using release_all_ok [of m] assms by (auto simp: file_system_held_def nothing_held_def)

section \<open>Constructing the file system\<close>

lemma give_up_ok:
  assumes "root_security m" "memfs_block m" "node_map m" "fsp_object m" "session_ok (fs_of m) {#}"
  shows "\<exists>m'. give_up st m = Some (st, m') \<and> nothing_held m'"
  using release_all_ok [OF assms(2-5)] assms(1) by (auto simp: give_up_def release_security_def nothing_held_def)

lemma disk_env_simps [simp]:
  "path_laws (disk_env e c) = path_laws e" "node_malloc (disk_env e c) = disk_node_malloc c"
  "table_grows (disk_env e c) = disk_table_grows c" "malloc (disk_env e c) = disk_malloc c"
  by (simp_all add: disk_env_def path_laws_def)

text \<open>The disk node enters the table when its memory is granted and the table grows; else everything is as before.\<close>

lemma add_disk_ok:
  assumes "path_laws e" "session_ok s h" "set (FileNodeMap s) = {([BSLASH], r)}"
  shows "\<exists>s'. add_disk_node e sd cap s = Some s' \<and> session_ok s' h \<and> CaseInsensitive s' = CaseInsensitive s \<and>
    set (FileNodeMap s') = insert ([BSLASH], r) (if node_malloc e \<and> table_grows e then {(ftj_disk_bin, fresh_address s)} else {}) \<and>
    (\<forall>q. q \<noteq> fresh_address s \<longrightarrow> map_option kept (nodes s' q) = map_option kept (nodes s q)) \<and>
    (node_malloc e \<and> table_grows e \<longrightarrow> (\<exists>n. nodes s' (fresh_address s) = Some n \<and>
       kept n = (FILE_ATTRIBUTE_NORMAL, cap, cap, if malloc e (length sd) then Some sd else None)))"
proof (cases "node_malloc e")
  case False
  then show ?thesis using assms by (simp add: add_disk_node_def MemfsFileNodeCreate_def)
next
  case True
  let ?r = "fresh_address s"
  define f where "f = (\<lambda>n. set_info (\<lambda>i. i\<lparr>FileAttributes := FILE_ATTRIBUTE_NORMAL, FileSize := cap, AllocationSize := cap\<rparr>)
                (if malloc e (length sd) then n\<lparr>FileSecuritySize := length sd, FileSecurity := Some sd\<rparr> else n))"
  have f: "ident (f n) = ident n" for n by (simp add: f_def)
  have new: "\<forall>(k, q) \<in> set (FileNodeMap s). entry_key s k \<noteq> entry_key s ftj_disk_bin"
    using assms(3) disk_parent(2) by simp
  have par: "ftj_disk_bin = [BSLASH] \<or> (\<exists>(k, q) \<in> set (FileNodeMap s). entry_key s k = parent_key (entry_key s ftj_disk_bin))"
    using assms(3) disk_parent(1) by simp
  obtain n s1 where c: "MemfsFileNodeCreate e ftj_disk_bin s = Some (STATUS_SUCCESS, Some ?r, s1)" "with_fresh s n s1"
    "FileSecurity n = None"
    "\<not> table_grows e \<and> MemfsFileNodeMapInsert e ?r (upd_node ?r f s1) = Some (STATUS_INSUFFICIENT_RESOURCES, False, upd_node ?r f s1) \<or>
     (\<exists>s2. table_grows e \<and> MemfsFileNodeMapInsert e ?r (upd_node ?r f s1) = Some (STATUS_SUCCESS, True, s2) \<and>
       session_ok s2 h \<and> set (FileNodeMap s2) = insert (ftj_disk_bin, ?r) (set (FileNodeMap s)) \<and> CaseInsensitive s2 = CaseInsensitive s)"
    using enter_node [OF assms(1,2) True disk_adm new par f] by blast
  have w: "with_fresh s (f n) (upd_node ?r f s1)" by (rule with_fresh_upd [OF c(2)])
  then have nds: "nodes (upd_node ?r f s1) = (nodes s)(?r \<mapsto> f n)" by (simp add: with_fresh_def)
  have kf: "kept (f n) = (FILE_ATTRIBUTE_NORMAL, cap, cap, if malloc e (length sd) then Some sd else None)"
    using c(3) by (simp add: kept_def f_def)
  from c(4) show ?thesis
  proof (elim disjE conjE exE)
    assume t: "\<not> table_grows e"
      "MemfsFileNodeMapInsert e ?r (upd_node ?r f s1) = Some (STATUS_INSUFFICIENT_RESOURCES, False, upd_node ?r f s1)"
    let ?s = "MemfsFileNodeDelete ?r (upd_node ?r f s1)"
    have a: "add_disk_node e sd cap s = Some ?s" using c(1) t(2) by (simp add: add_disk_node_def f_def)
    have "session_ok ?s h" "FileNodeMap ?s = FileNodeMap s" "nodes ?s = nodes s" using delete_fresh [OF assms(2) w] by blast+
    moreover have "CaseInsensitive ?s = CaseInsensitive s" using w by (simp add: with_fresh_def MemfsFileNodeDelete_def)
    ultimately show ?thesis using a t(1) assms(3) by simp
  next
    fix s2 assume "table_grows e" "MemfsFileNodeMapInsert e ?r (upd_node ?r f s1) = Some (STATUS_SUCCESS, True, s2)" "session_ok s2 h"
      "set (FileNodeMap s2) = insert (ftj_disk_bin, ?r) (set (FileNodeMap s))" "CaseInsensitive s2 = CaseInsensitive s"
    moreover from this(2) have "add_disk_node e sd cap s = Some s2" using c(1) by (simp add: add_disk_node_def f_def)
    moreover have k: "map_option kept (nodes s2 q) = (if q = ?r then Some (kept (f n)) else map_option kept (nodes s q))" for q
      using Insert_kept [OF \<open>MemfsFileNodeMapInsert e ?r (upd_node ?r f s1) = Some (STATUS_SUCCESS, True, s2)\<close>, of q] by (simp add: nds)
    moreover have "\<exists>n'. nodes s2 ?r = Some n' \<and> kept n' = kept (f n)" using k [of ?r] by (intro kept_node) simp
    ultimately show ?thesis using True assms(3) kf by auto
  qed
qed

text \<open>The two nodes: the root is a directory with the descriptor that was converted, the disk file has the capacity of the
  controller as its size and, if the memory was granted, the same descriptor.\<close>

definition root_made :: "u8 list \<Rightarrow> memfs \<Rightarrow> bool" where
  "root_made sd s \<longleftrightarrow> (\<exists>n. nodes s 1 = Some n \<and> FileAttributes (FileInfo n) = FILE_ATTRIBUTE_DIRECTORY \<and> FileSecurity n = Some sd)"

definition disk_made :: "funnel_calls \<Rightarrow> u8 list \<Rightarrow> nat \<Rightarrow> memfs \<Rightarrow> bool" where
  "disk_made c sd r s \<longleftrightarrow> (\<exists>n. nodes s r = Some n \<and> FileAttributes (FileInfo n) = FILE_ATTRIBUTE_NORMAL \<and>
     FileSize (FileInfo n) = of_nat (GetCapacity c) \<and> AllocationSize (FileInfo n) = of_nat (GetCapacity c) \<and>
     FileSecurity n = (if disk_malloc c (length sd) then Some sd else None))"

text \<open>Everything is acquired and the table is still empty.\<close>

definition bare :: "bool \<Rightarrow> holdings \<Rightarrow> bool" where
  "bare ci m \<longleftrightarrow> root_security m \<and> memfs_block m \<and> node_map m \<and> fsp_object m \<and> session_ok (fs_of m) {#} \<and>
     FileNodeMap (fs_of m) = [] \<and> fresh_address (fs_of m) = 1 \<and> CaseInsensitive (fs_of m) = ci"

lemma create_root_ok:
  assumes "path_laws e" "bare ci m"
  shows "\<exists>st m'. create_root e sd m = Some (st, m') \<and>
    (if node_malloc e \<and> malloc e (length sd) \<and> table_grows e
     then st = STATUS_SUCCESS \<and> root_security m' \<and> file_system_held (m'\<lparr>root_security := False\<rparr>) \<and>
       set (FileNodeMap (fs_of m')) = {([BSLASH], 1)} \<and> CaseInsensitive (fs_of m') = ci \<and>
       root_made sd (fs_of m')
     else st = STATUS_INSUFFICIENT_RESOURCES \<and> nothing_held m')"
proof -
  let ?s0 = "fs_of m"
  have b: "root_security m" "memfs_block m" "node_map m" "fsp_object m" "session_ok ?s0 {#}" "FileNodeMap ?s0 = []"
    "fresh_address ?s0 = 1" "CaseInsensitive ?s0 = ci" using assms(2) by (simp_all add: bare_def)
  have up: "\<exists>m'. give_up STATUS_INSUFFICIENT_RESOURCES (m\<lparr>fs_of := s\<rparr>) = Some (STATUS_INSUFFICIENT_RESOURCES, m') \<and> nothing_held m'"
    if "session_ok s {#}" for s
    using give_up_ok [of "m\<lparr>fs_of := s\<rparr>"] that b(1-4) by simp
  define g where "g = set_info (\<lambda>i. i\<lparr>FileAttributes := FILE_ATTRIBUTE_DIRECTORY\<rparr>)"
  define f where "f = (\<lambda>n. (g n)\<lparr>FileSecuritySize := length sd, FileSecurity := Some sd\<rparr>)"
  have f: "ident (f n) = ident n" for n by (simp add: f_def g_def)
  have ff: "upd_node 1 (\<lambda>n. n\<lparr>FileSecuritySize := length sd, FileSecurity := Some sd\<rparr>) (upd_node 1 g s) = upd_node 1 f s" for s
    by (cases "nodes s 1") (simp_all add: upd_node_def f_def fun_eq_iff)
  show ?thesis
  proof (cases "node_malloc e")
    case False
    then have "MemfsFileNodeCreate e root_name ?s0 = Some (STATUS_INSUFFICIENT_RESOURCES, None, ?s0)"
      by (simp add: MemfsFileNodeCreate_def)
    then show ?thesis using False up [OF b(5)] by (auto simp: create_root_def)
  next
    case mem: True
    obtain n s1 where s1: "MemfsFileNodeCreate e [BSLASH] ?s0 = Some (STATUS_SUCCESS, Some 1, s1)" "with_fresh ?s0 n s1"
      "\<not> table_grows e \<and> MemfsFileNodeMapInsert e 1 (upd_node 1 f s1) = Some (STATUS_INSUFFICIENT_RESOURCES, False, upd_node 1 f s1) \<or>
       (\<exists>s2. table_grows e \<and> MemfsFileNodeMapInsert e 1 (upd_node 1 f s1) = Some (STATUS_SUCCESS, True, s2) \<and>
         session_ok s2 {#} \<and> set (FileNodeMap s2) = {([BSLASH], 1)} \<and> CaseInsensitive s2 = ci)"
      using enter_node [OF assms(1) b(5) mem root_adm _ _ f] unfolding b(6-8) by auto
    have drop: "session_ok (MemfsFileNodeDelete 1 (upd_node 1 h s1)) {#}" for h
      using delete_fresh [OF b(5) with_fresh_upd [OF s1(2), of h]] unfolding b(7) by blast
    show ?thesis
    proof (cases "malloc e (length sd)")
      case False
      have "create_root e sd m = give_up STATUS_INSUFFICIENT_RESOURCES (m\<lparr>fs_of := MemfsFileNodeDelete 1 (upd_node 1 g s1)\<rparr>)"
        using s1(1) False by (simp add: create_root_def root_map g_def Let_def)
      then show ?thesis using False up [OF drop [of g]] by auto
    next
      case sec: True
      have step: "create_root e sd m = do { (st2, inserted, s4) \<leftarrow> MemfsFileNodeMapInsert e 1 (upd_node 1 f s1);
          if st2 \<noteq> STATUS_SUCCESS then give_up st2 (m\<lparr>fs_of := MemfsFileNodeDelete 1 s4\<rparr>)
          else Some (STATUS_SUCCESS, m\<lparr>fs_of := s4\<rparr>) }"
        using s1(1) sec by (simp add: create_root_def root_map ff Let_def del: One_nat_def flip: g_def)
      show ?thesis
      proof (cases "table_grows e")
        case False
        then have "MemfsFileNodeMapInsert e 1 (upd_node 1 f s1) = Some (STATUS_INSUFFICIENT_RESOURCES, False, upd_node 1 f s1)"
          using s1(3) by blast
        then show ?thesis using False step up [OF drop [of f]] by auto
      next
        case True
        then obtain s2 where "MemfsFileNodeMapInsert e 1 (upd_node 1 f s1) = Some (STATUS_SUCCESS, True, s2)"
          "session_ok s2 {#}" "set (FileNodeMap s2) = {([BSLASH], 1)}" "CaseInsensitive s2 = ci" using s1(3) by blast
        moreover have "map_option kept (nodes s2 1) = Some (kept (f n))"
          using Insert_kept [OF calculation(1), of 1] with_fresh_upd [OF s1(2), of f] by (simp add: with_fresh_def b(7))
        then obtain n' where "nodes s2 1 = Some n'" "kept n' = kept (f n)" using kept_node by blast
        moreover from this(2) have "FileAttributes (FileInfo n') = FILE_ATTRIBUTE_DIRECTORY" "FileSecurity n' = Some sd"
          by (simp_all add: kept_def f_def g_def)
        ultimately show ?thesis using True step mem sec b(1-4) by (simp add: file_system_held_def root_made_def)
      qed
    qed
  qed
qed

text \<open>The texts are copied when everything before was granted; the whole construction succeeds when the rest is too.
  The disk node has conditions of its own.\<close>

definition sddl_result :: "funnel_calls \<Rightarrow> wstr option \<Rightarrow> ntstatus + u8 list" where
  "sddl_result c sddl = root_descriptor c (case sddl of None \<Rightarrow> default_sddl | Some w \<Rightarrow> w)"

definition reaches_copies :: "env \<Rightarrow> funnel_calls \<Rightarrow> wstr option \<Rightarrow> bool" where
  "reaches_copies e c sddl \<longleftrightarrow> fst (MemfsHeapConfigure (win e) (heap_created c) 0 (heap_state c)) = STATUS_SUCCESS \<and>
     (\<exists>sd. sddl_result c sddl = Inr sd) \<and> memfs_malloc c \<and> map_allocated c"

definition root_granted :: "env \<Rightarrow> funnel_calls \<Rightarrow> volume_params \<Rightarrow> wstr option \<Rightarrow> bool" where
  "root_granted e c vp sddl \<longleftrightarrow> reaches_copies e c sddl \<and> NT_SUCCESS (fsp_created c vp) \<and> node_malloc e \<and> table_grows e \<and>
     (\<exists>sd. sddl_result c sddl = Inr sd \<and> malloc e (length sd))"

definition disk_granted :: "funnel_calls \<Rightarrow> bool" where
  "disk_granted c \<longleftrightarrow> disk_node_malloc c \<and> disk_table_grows c"

lemma no_holdings_nothing [simp]: "nothing_held (no_holdings lh (empty_memfs ci max_nodes max_size))"
  by (simp add: nothing_held_def no_holdings_def empty_memfs_def)

lemma early_releases:
  fixes lh :: large_heap and ci max_nodes max_size
  defines "m0 \<equiv> no_holdings lh (empty_memfs ci max_nodes max_size)"
  shows "release_security (m0\<lparr>root_security := True\<rparr>) = Some m0"
    and "release_block (m0\<lparr>root_security := True, memfs_block := True\<rparr>) = Some (m0\<lparr>root_security := True\<rparr>)"
    and "release_map (m0\<lparr>root_security := True, memfs_block := True, node_map := True\<rparr>) =
      Some (m0\<lparr>root_security := True, memfs_block := True\<rparr>)"
    and "bare ci (m0\<lparr>root_security := True, memfs_block := True, node_map := True, fsp_object := True\<rparr>)"
  using empty_session [of ci max_nodes max_size]
  by (simp_all add: m0_def no_holdings_def release_security_def release_block_def release_map_def MemfsFileNodeMapDelete_def
      bare_def) (simp_all add: empty_memfs_def)

lemma heap_statuses: "fst (MemfsHeapConfigure h created a lh) \<in> {STATUS_SUCCESS, STATUS_INSUFFICIENT_RESOURCES}"
  by (auto simp: MemfsHeapConfigure_def Let_def split: prod.splits)

text \<open>The outcome of the construction.\<close>

definition funnel_outcome :: "env \<Rightarrow> funnel_calls \<Rightarrow> u32 \<Rightarrow> u32 \<Rightarrow> wstr option \<Rightarrow> wstr option \<Rightarrow> wstr option \<Rightarrow>
    (ntstatus \<times> bool \<times> holdings) option \<Rightarrow> bool" where
  "funnel_outcome e c Flags timeout name prefix sddl res \<longleftrightarrow>
     (case res of
        None \<Rightarrow> reaches_copies e c sddl \<and> \<not> texts_fit c name prefix
      | Some (st, made, m) \<Rightarrow>
          (reaches_copies e c sddl \<longrightarrow> texts_fit c name prefix) \<and>
          made = root_granted e c (volume_params_of Flags timeout prefix name) sddl \<and>
          (if made then st = STATUS_SUCCESS \<and> file_system_held m \<and> CaseInsensitive (fs_of m) = (Flags AND MemfsCaseInsensitive \<noteq> 0) \<and>
             (\<exists>sd r. sddl_result c sddl = Inr sd \<and> root_made sd (fs_of m) \<and> 
                (if disk_granted c then disk_made c sd r (fs_of m) \<and> set (FileNodeMap (fs_of m)) = {([BSLASH], 1), (ftj_disk_bin, r)}
                 else set (FileNodeMap (fs_of m)) = {([BSLASH], 1)}))
           else nothing_held m \<and> (NT_SUCCESS st \<longrightarrow> sddl_result c sddl = Inl st)))"

lemma MemfsCreateFunnel_ok:
  assumes "path_laws e"
  shows "funnel_outcome e c Flags timeout name prefix sddl
    (MemfsCreateFunnel e c Flags timeout max_nodes max_size name prefix sddl)"
proof -
  obtain st lh where hc: "MemfsHeapConfigure (win e) (heap_created c) 0 (heap_state c) = (st, lh)" by fastforce
  have st: "st = STATUS_SUCCESS \<or> st = STATUS_INSUFFICIENT_RESOURCES" using heap_statuses hc by (metis fst_conv insertE singletonD)
  define ci where "ci = (Flags AND MemfsCaseInsensitive \<noteq> 0)"
  define m0 where "m0 = no_holdings lh (empty_memfs ci max_nodes max_size)"
  define vp where "vp = volume_params_of Flags timeout prefix name"
  note er = early_releases [where lh = lh and ci = ci and max_nodes = max_nodes and max_size = max_size, folded m0_def]
  have n0: "nothing_held m0" by (simp add: m0_def)
  note funnel = MemfsCreateFunnel_def [of e c Flags timeout max_nodes max_size name prefix sddl, unfolded hc prod.case Let_def,
      folded ci_def, folded m0_def vp_def sddl_result_def]
  note outcome = funnel_outcome_def [of e c Flags timeout name prefix sddl, folded ci_def vp_def]
  have rc: "reaches_copies e c sddl \<longleftrightarrow> st = STATUS_SUCCESS \<and> (\<exists>sd. sddl_result c sddl = Inr sd) \<and> memfs_malloc c \<and> map_allocated c"
    by (simp add: reaches_copies_def hc)
  show ?thesis
  proof (cases "reaches_copies e c sddl")
    case False
    then show ?thesis
      using st unfolding funnel outcome
      by (cases "sddl_result c sddl") (auto simp: rc root_granted_def n0 er NT_SUCCESS_def)
  next
    case True
    then obtain sd where go: "st = STATUS_SUCCESS" "sddl_result c sddl = Inr sd" "memfs_malloc c" "map_allocated c" using rc by blast
    show ?thesis
    proof (cases "texts_fit c name prefix \<and> NT_SUCCESS (fsp_created c vp)")
      case False
      then show ?thesis using True go unfolding funnel outcome
        by (auto simp: root_granted_def n0 er) (simp_all add: NT_SUCCESS_def)
    next
      case fit: True
      obtain st2 m1 where cr: "create_root e sd (m0\<lparr>root_security := True, memfs_block := True, node_map := True, fsp_object := True\<rparr>) = Some (st2, m1)"
        "if node_malloc e \<and> malloc e (length sd) \<and> table_grows e
         then st2 = STATUS_SUCCESS \<and> root_security m1 \<and> file_system_held (m1\<lparr>root_security := False\<rparr>) \<and>
           set (FileNodeMap (fs_of m1)) = {([BSLASH], 1)} \<and> CaseInsensitive (fs_of m1) = ci \<and> root_made sd (fs_of m1)
         else st2 = STATUS_INSUFFICIENT_RESOURCES \<and> nothing_held m1"
        using create_root_ok [OF assms er(4), of sd] by blast
      have g: "root_granted e c vp sddl \<longleftrightarrow> node_malloc e \<and> malloc e (length sd) \<and> table_grows e"
        using True go(2) fit by (auto simp: root_granted_def)
      show ?thesis
      proof (cases "root_granted e c vp sddl")
        case False
        then show ?thesis using cr True go fit g unfolding funnel outcome by (simp add: NT_SUCCESS_def)
      next
        case granted: True
        then have m1: "st2 = STATUS_SUCCESS" "root_security m1" "file_system_held (m1\<lparr>root_security := False\<rparr>)"
          "set (FileNodeMap (fs_of m1)) = {([BSLASH], 1)}" "CaseInsensitive (fs_of m1) = ci" "root_made sd (fs_of m1)" using cr(2) g by simp_all
        have ok: "session_ok (fs_of m1) {#}" using m1(3) by (simp add: file_system_held_def)
        let ?cap = "of_nat (GetCapacity c) :: u64" and ?q = "fresh_address (fs_of m1)"
        obtain s where s: "add_disk_node (disk_env e c) sd ?cap (fs_of m1) = Some s" "session_ok s {#}"
          "CaseInsensitive s = ci" "set (FileNodeMap s) = insert ([BSLASH], 1) (if disk_granted c then {(ftj_disk_bin, ?q)} else {})"
          "\<forall>q. q \<noteq> ?q \<longrightarrow> map_option kept (nodes s q) = map_option kept (nodes (fs_of m1) q)"
          "disk_granted c \<longrightarrow> (\<exists>n. nodes s ?q = Some n \<and>
             kept n = (FILE_ATTRIBUTE_NORMAL, ?cap, ?cap, if disk_malloc c (length sd) then Some sd else None))"
          using add_disk_ok [of "disk_env e c", OF _ ok m1(4), of sd ?cap] assms m1(5) unfolding disk_granted_def by auto
        have disk: "disk_granted c \<longrightarrow> disk_made c sd ?q s" using s(6) by (auto simp: disk_made_def kept_def)
        obtain n where n: "nodes (fs_of m1) 1 = Some n" "FileAttributes (FileInfo n) = FILE_ATTRIBUTE_DIRECTORY" "FileSecurity n = Some sd"
          using m1(6) by (auto simp: root_made_def)
        have "nodes (fs_of m1) ?q = None" using ok by (simp add: session_ok_def table_ok_def)
        then have "map_option kept (nodes s 1) = Some (kept n)" using s(5) n(1) by (metis option.distinct(1) option.simps(9))
        then obtain n' where "nodes s 1 = Some n'" "kept n' = kept n" using kept_node by blast
        then have root: "root_made sd s" using n(2,3) by (simp add: root_made_def kept_def)
        have "MemfsCreateFunnel e c Flags timeout max_nodes max_size name prefix sddl =
            Some (STATUS_SUCCESS, True, m1\<lparr>fs_of := s, root_security := False\<rparr>)"
          unfolding funnel using go fit cr(1) m1(1,2) s(1) by (simp add: NT_SUCCESS_def release_security_def)
        moreover have "file_system_held (m1\<lparr>fs_of := s, root_security := False\<rparr>)" using m1(3) s(2) by (simp add: file_system_held_def)
        moreover have "\<exists>sd r. sddl_result c sddl = Inr sd \<and> root_made sd s \<and>
            (if disk_granted c then disk_made c sd r s \<and> set (FileNodeMap s) = {([BSLASH], 1), (ftj_disk_bin, r)}
             else set (FileNodeMap s) = {([BSLASH], 1)})"
          using go(2) root disk s(4) by (cases "disk_granted c") auto
        ultimately show ?thesis using granted fit s(3) unfolding outcome by (cases "disk_granted c") simp_all
      qed
    qed
  qed
qed

section \<open>Reachable states\<close>

lemma live_node:
  assumes "session_ok s h" "r \<in># h"
  shows "\<exists>n. nodes s r = Some n \<and> 1 \<le> RefCount n \<and> adm_path (CaseInsensitive s) (FileName n)"
proof -
  have f: "refs_ok s h" using assms(1) by (simp add: session_ok_def)
  obtain n where n: "nodes s r = Some n" using f assms(2) unfolding refs_ok_def by blast
  have "1 \<le> count h r" using assms(2) by (simp add: Suc_le_eq)
  moreover have "RefCount n = int (count h r) + (if in_table s r then 1 else 0)" "adm_path (CaseInsensitive s) (FileName n)"
    using f n unfolding refs_ok_def by blast+
  ultimately show ?thesis using n by auto
qed

text \<open>The states a file system gets into: a fresh one without handles, then any calls.\<close>

definition fs_reachable :: "(nat \<Rightarrow> u8 list option \<Rightarrow> nat \<Rightarrow> 'd \<Rightarrow> (bool \<times> 'd) option) \<Rightarrow> 'd fs_state \<Rightarrow> bool" where
  "fs_reachable dev_write x \<longleftrightarrow> (\<exists>(e :: env) c Flags timeout max_nodes max_size name prefix sddl m d. path_laws e \<and>
     MemfsCreateFunnel e c Flags timeout max_nodes max_size name prefix sddl = Some (STATUS_SUCCESS, True, m) \<and>
     (fs_step dev_write)\<^sup>*\<^sup>* (fs_of m, {#}, d) x)"

lemma Funnel_made:
  assumes "path_laws e" "MemfsCreateFunnel e c Flags timeout max_nodes max_size name prefix sddl = Some (st, True, m)"
  shows "st = STATUS_SUCCESS" "file_system_held m" "session_ok (fs_of m) {#}" "([BSLASH], 1) \<in> set (FileNodeMap (fs_of m))"
  using MemfsCreateFunnel_ok [OF assms(1), of c Flags timeout name prefix sddl max_nodes max_size]
  unfolding assms(2) by (auto simp: funnel_outcome_def file_system_held_def split: if_splits)

lemma reachable_session:
  assumes "fs_reachable dw (s, h, d)"
  shows "session_ok s h"
proof -
  obtain e :: env and c Flags timeout max_nodes max_size name prefix sddl m d0 where r: "path_laws e"
    "MemfsCreateFunnel e c Flags timeout max_nodes max_size name prefix sddl = Some (STATUS_SUCCESS, True, m)"
    "(fs_step dw)\<^sup>*\<^sup>* (fs_of m, {#}, d0) (s, h, d)"
    using assms unfolding fs_reachable_def by blast
  show ?thesis by (rule fs_run_session [OF r(3) Funnel_made(3) [OF r(1,2)]])
qed

text \<open>With everything granted, or all but the disk node, there is a fresh file system, and its root can be opened.\<close>

definition demo_calls :: funnel_calls where
  "demo_calls = \<lparr>heap_state = None, heap_created = True, root_descriptor = \<lambda>_. Inr [1, 2, 3], memfs_malloc = True, map_allocated = True,
     prefix_room = 192, name_room = 16, controller_made = True, fsp_created = \<lambda>_. STATUS_SUCCESS, disk_now = 8,
     disk_node_malloc = True, disk_malloc = \<lambda>_. True, disk_table_grows = True, GetCapacity = 134217728\<rparr>"

lemma demo_granted:
  "root_granted demo_env demo_calls vp sddl" "root_granted demo_env (demo_calls\<lparr>disk_table_grows := b\<rparr>) vp sddl"
  "texts_fit demo_calls None None" "texts_fit (demo_calls\<lparr>disk_table_grows := b\<rparr>) None None"
  "reaches_copies demo_env demo_calls sddl"
  by (simp_all add: root_granted_def reaches_copies_def sddl_result_def texts_fit_def FTJFS_def MemfsHeapConfigure_def
      LargeHeapInitialize_def LargeHeapInitOnceF_def NT_SUCCESS_def demo_calls_def demo_env_def)

lemma demo_funnel: "\<exists>m. MemfsCreateFunnel demo_env demo_calls Flags timeout max_nodes max_size None None sddl = Some (STATUS_SUCCESS, True, m)"
  using MemfsCreateFunnel_ok [OF demo_env_laws(1), of demo_calls Flags timeout None None sddl max_nodes max_size] demo_granted
  by (auto simp: funnel_outcome_def split: option.splits)

lemma demo_boot: "\<exists>m. MemfsCreateFunnel demo_env demo_calls MemfsCaseInsensitive 0 16 4096 None None None = Some (STATUS_SUCCESS, True, m)"
  by (rule demo_funnel)

lemma no_table_env: "path_laws (demo_env\<lparr>table_grows := False\<rparr>)" "\<not> root_granted (demo_env\<lparr>table_grows := False\<rparr>) demo_calls vp sddl"
  using demo_env_laws(1) by (simp_all add: path_laws_def root_granted_def)

lemma demo_open: "\<exists>s r. fs_reachable dw (s, {#r#}, d)"
proof -
  obtain m where m: "MemfsCreateFunnel demo_env demo_calls MemfsCaseInsensitive 0 16 4096 None None None = Some (STATUS_SUCCESS, True, m)"
    using demo_boot by blast
  define s where "s = fs_of m"
  have ok: "session_ok s {#}" "([BSLASH], 1) \<in> set (FileNodeMap s)" using Funnel_made [OF demo_env_laws(1) m] by (simp_all add: s_def)
  have adm: "adm_path (CaseInsensitive s) [BSLASH]" by (rule root_adm)
  have "MemfsFileNodeMapGet demo_env [BSLASH] s = Some 1"
    using MapGet_Some [of s "[BSLASH]" demo_env 1] ok adm by (auto simp: session_ok_def adm_path_def)
  then obtain i nm s' where "MemfsOpen demo_env [BSLASH] s = Some (STATUS_SUCCESS, Some (1, i, nm), s')"
    using Open_session [OF demo_env_laws(1) ok(1) adm] by (auto split: if_splits)
  then have "fs_step dw (s, {#}, d) (s', {#1#}, d)"
    using fs_step.open_file [OF demo_env_laws(1) adm, of STATUS_SUCCESS "Some (1, i, nm)" s' dw "{#}" d] by (simp add: handles_after_def)
  then have "fs_reachable dw (s', {#1#}, d)"
    unfolding fs_reachable_def s_def using m demo_env_laws(1) by blast
  then show ?thesis by blast
qed

section \<open>Properties\<close>

text \<open>C19: the outcome of \<open>MemfsCreateFunnel\<close>, whatever the system answers. It ends the program only at the copies of the prefix
  and the name, when one does not fit or there is no memory for the controller; this is reached exactly when the heap, the
  descriptor, the block and the table were granted. Otherwise it gives a file system if and only if
  WinFsp, the root node, its descriptor and its table entry are granted too, and then it answers success and holds the
  block, the table and the WinFsp object, not the descriptor; the table holds the root, a directory with the converted descriptor, and the virtual disk file,
  with the capacity of the controller as its size, if and only if that node's own memory and table entry were granted; nothing is open, and the invariant holds (names sorted and
  different, every directory present, every node's reference count the number of its handles plus one for the
  table). When it gives none it has freed everything it had acquired, nodes included.\<close>

theorem fresh_file_system:
  assumes "path_laws e"
  shows "case MemfsCreateFunnel e c Flags timeout max_nodes max_size name prefix sddl of
      None \<Rightarrow> reaches_copies e c sddl \<and> \<not> texts_fit c name prefix
    | Some (st, made, m) \<Rightarrow>
        \<not> (reaches_copies e c sddl \<and> \<not> texts_fit c name prefix) \<and>
        made = root_granted e c (volume_params_of Flags timeout prefix name) sddl \<and>
        (if made then st = STATUS_SUCCESS \<and> file_system_held m \<and> session_ok (fs_of m) {#} \<and>
           CaseInsensitive (fs_of m) = (Flags AND MemfsCaseInsensitive \<noteq> 0) \<and>
           (\<exists>sd r. sddl_result c sddl = Inr sd \<and> root_made sd (fs_of m) \<and>
              (if disk_granted c then disk_made c sd r (fs_of m) \<and> set (FileNodeMap (fs_of m)) = {([BSLASH], 1), (ftj_disk_bin, r)}
               else set (FileNodeMap (fs_of m)) = {([BSLASH], 1)}))
         else nothing_held m)"
proof -
  note out = MemfsCreateFunnel_ok [OF assms, of c Flags timeout name prefix sddl max_nodes max_size, unfolded funnel_outcome_def]
  show ?thesis
  proof (cases "MemfsCreateFunnel e c Flags timeout max_nodes max_size name prefix sddl")
    case None
    then show ?thesis using out by simp
  next
    case (Some x)
    obtain st made m where x: "x = (st, made, m)" by (cases x)
    show ?thesis
      using out unfolding Some x option.case prod.case by (cases made) (simp_all add: file_system_held_def)
  qed
qed

text \<open>Without room for the disk node in the table the construction still succeeds, with the root alone; without room for the root
  it fails and holds nothing.\<close>

theorem fresh_file_system_witness:
  "(\<exists>m. MemfsCreateFunnel demo_env (demo_calls\<lparr>disk_table_grows := False\<rparr>) 0 0 16 4096 None None None = Some (STATUS_SUCCESS, True, m) \<and>
      set (FileNodeMap (fs_of m)) = {([BSLASH], 1)}) \<and>
   (\<exists>st m. MemfsCreateFunnel (demo_env\<lparr>table_grows := False\<rparr>) demo_calls 0 0 16 4096 None None None = Some (st, False, m) \<and> nothing_held m)"
proof -
  let ?c = "demo_calls\<lparr>disk_table_grows := False\<rparr>" and ?e = "demo_env\<lparr>table_grows := False\<rparr>"
  have "\<not> disk_granted ?c" by (simp add: disk_granted_def)
  then have a: "\<exists>m. MemfsCreateFunnel demo_env ?c 0 0 16 4096 None None None = Some (STATUS_SUCCESS, True, m) \<and>
      set (FileNodeMap (fs_of m)) = {([BSLASH], 1)}"
    using demo_env_laws(1) fresh_file_system [where e = demo_env and c = ?c and Flags = 0 and timeout = 0 and max_nodes = 16 and max_size = 4096 and name = None and prefix = None and sddl = None] demo_granted
    by (auto split: option.splits)
  have "\<exists>st m. MemfsCreateFunnel ?e demo_calls 0 0 16 4096 None None None = Some (st, False, m) \<and> nothing_held m"
    using fresh_file_system [where e = ?e and c = demo_calls and Flags = 0 and timeout = 0 and max_nodes = 16 and max_size = 4096 and name = None and prefix = None and sddl = None] demo_granted(3) no_table_env
    by (auto split: option.splits)
  with a show ?thesis by blast
qed

text \<open>C2: no use after free. In every reachable state each open handle's node exists and is counted, and closing it,
  asking whether it can be deleted and cleaning it up are defined; closing it frees no other handle's node.\<close>

theorem no_use_after_free:
  assumes "fs_reachable dw (s, h, d)" "r \<in># h" "path_laws e" "CleanupDelete fl \<Longrightarrow> in_table s r"
  shows "(\<exists>n. nodes s r = Some n \<and> 1 \<le> RefCount n) \<and> MemfsCanDelete e r s \<noteq> None \<and> MemfsCleanup e r fl s \<noteq> None \<and>
    (\<exists>s'. MemfsClose r s = Some s' \<and> (\<forall>q. q \<in># h - {#r#} \<longrightarrow> nodes s' q \<noteq> None))"
proof -
  have ok: "session_ok s h" by (rule reachable_session [OF assms(1)])
  obtain n where n: "nodes s r = Some n" "1 \<le> RefCount n" "adm_path (CaseInsensitive s) (FileName n)"
    using live_node [OF ok assms(2)] by blast
  have "MemfsFileNodeMapHasChild e r s \<noteq> None"
    using HasChild_correct [OF assms(3) _ _ n(1,3)] ok by (auto simp: session_ok_def)
  then have "MemfsCanDelete e r s \<noteq> None" using n(1) by (auto simp: MemfsCanDelete_def)
  moreover have "MemfsCleanup e r fl s \<noteq> None" using Cleanup_session [OF assms(3) ok assms(2), of fl] assms(4) by auto
  moreover obtain s' where s': "MemfsClose r s = Some s'" "session_ok s' (h - {#r#})" using Close_session [OF ok assms(2)] by blast
  ultimately show ?thesis using n(1,2) live_node [OF s'(2)] by (metis option.distinct(1))
qed

theorem no_use_after_free_witness: "\<exists>s r. r \<in># {#r#} \<and> (\<exists>n. nodes s r = Some n \<and> 1 \<le> RefCount n) \<and> MemfsClose r s \<noteq> None"
proof -
  obtain s :: memfs and r where s: "fs_reachable (\<lambda>_ _ _ d. Some (True, d)) (s, {#r#}, None :: unit option)" using demo_open by blast
  have "CleanupDelete fl \<Longrightarrow> in_table s r" if "fl = \<lparr>CleanupDelete = False, SetAllocationSizeFlag = False, SetArchiveBit = True,
      SetLastAccessTime = False, SetLastWriteTime = False, SetChangeTime = False\<rparr>" for fl using that by simp
  from no_use_after_free [OF s _ demo_env_laws(1) this] show ?thesis by fastforce
qed

text \<open>C14: nothing leaks. When all handles are closed, exactly the nodes of the table are allocated, and \<open>MemfsDelete\<close>
  frees every one of them, each once.\<close>

theorem shutdown_frees_all:
  assumes "fs_reachable dw (s, {#}, d)"
  shows "(\<forall>r. nodes s r \<noteq> None \<longleftrightarrow> in_table s r) \<and> (\<exists>s'. MemfsDelete s = Some s' \<and> (\<forall>r. nodes s' r = None))"
proof -
  have ok: "session_ok s {#}" by (rule reachable_session [OF assms])
  then have all: "\<forall>r. nodes s r \<noteq> None \<longleftrightarrow> in_table s r" unfolding session_ok_def refs_ok_def by simp
  then have "\<forall>r. (if in_table s r then None else nodes s r) = None" by auto
  then show ?thesis using all MemfsDelete_ok [OF ok] by fastforce
qed

theorem shutdown_frees_all_witness: "\<exists>s s'. nodes s 1 \<noteq> None \<and> MemfsDelete s = Some s' \<and> nodes s' 1 = None"
proof -
  obtain m where m: "MemfsCreateFunnel demo_env demo_calls MemfsCaseInsensitive 0 16 4096 None None None = Some (STATUS_SUCCESS, True, m)"
    using demo_boot by blast
  then have r: "fs_reachable (\<lambda>_ _ _ d. Some (True, d)) (fs_of m, {#}, None :: unit option)"
    unfolding fs_reachable_def using demo_env_laws(1) by blast
  have "([BSLASH], 1) \<in> set (FileNodeMap (fs_of m))" by (rule Funnel_made(4) [OF demo_env_laws(1) m])
  then have "in_table (fs_of m) 1" by (force simp: in_table_def)
  then show ?thesis using shutdown_frees_all [OF r] by blast
qed

end
