(* ===== verification/Memfs_Service.thy ===== *)
theory Memfs_Service
  imports Memfs_Boot
begin

text \<open>
  The service around the file system (\<open>src/win_vdisk_srv.c\<close>): parsing of the options, start with its clean-up
  on every failure, stop. Strings are lists of characters without the final NUL. The calls of WinFsp and Windows
  are arguments; \<open>wcstol\<close> is the function of the C library on ASCII text, with the 32-bit \<open>long\<close> of Windows.
\<close>

section \<open>Numbers\<close>

definition is_space :: "wchar \<Rightarrow> bool" where
  "is_space c \<longleftrightarrow> c = 0x20 \<or> 9 \<le> c \<and> c \<le> 13"

definition digit_value :: "wchar \<Rightarrow> nat" where
  "digit_value c =
     (if 0x30 \<le> c \<and> c \<le> 0x39 then unat c - 0x30
      else if 0x41 \<le> c \<and> c \<le> 0x5A then unat c - 0x37
      else if 0x61 \<le> c \<and> c \<le> 0x7A then unat c - 0x57
      else 36)"

fun scan_digits :: "nat \<Rightarrow> nat \<Rightarrow> wstr \<Rightarrow> nat \<times> wstr" where
  "scan_digits base acc [] = (acc, [])"
| "scan_digits base acc (c # cs) =
     (if digit_value c < base then scan_digits base (acc * base + digit_value c) cs else (acc, c # cs))"

text \<open>The number and the unread rest; without digits the rest is the whole string. The base is that of the prefix.\<close>

definition number_base :: "wstr \<Rightarrow> nat \<times> wstr" where
  "number_base w =
     (if char_at w = 0x30 then
        if (char_at (tl w) = 0x78 \<or> char_at (tl w) = 0x58) \<and> digit_value (char_at (tl (tl w))) < 16 then (16, tl (tl w))
        else (8, w)
      else (10, w))"

definition wcstol :: "wstr \<Rightarrow> int \<times> wstr" where
  "wcstol w =
     (let s = dropWhile is_space w;
          neg = (char_at s = 0x2D);
          s1 = (if neg \<or> char_at s = 0x2B then tl s else s);
          (base, s2) = number_base s1
      in if digit_value (char_at s2) < base then
           (case scan_digits base 0 s2 of (v, rest) \<Rightarrow>
              (max (- (2 ^ 31)) (min (2 ^ 31 - 1) (if neg then - int v else int v)), rest))
         else (0, w))"

definition wcstol_deflt :: "wstr \<Rightarrow> u32 \<Rightarrow> u32" where
  "wcstol_deflt w deflt = (case wcstol w of (ul, endp) \<Rightarrow> if w \<noteq> [] \<and> endp = [] then of_int ul else deflt)"

section \<open>The options\<close>

record svc_options =
  DebugFlags :: u32
  DebugLogFile :: "wstr option"
  svc_Flags :: u32
  OtherFlags :: u32
  FileInfoTimeout :: u32
  svc_MaxFileNodes :: u32
  svc_MaxFileSize :: u32
  SlowioMaxDelay :: u32
  SlowioPercentDelay :: u32
  SlowioRarefyDelay :: u32
  FileSystemName :: "wstr option"
  MountPoint :: "wstr option"
  VolumePrefix :: "wstr option"
  RootSddl :: "wstr option"

definition default_options :: svc_options where
  "default_options =
     \<lparr>DebugFlags = 0, DebugLogFile = None, svc_Flags = MemfsDisk, OtherFlags = 0, FileInfoTimeout = 0xFFFFFFFF,
      svc_MaxFileNodes = 1024, svc_MaxFileSize = 16 * 1024 * 1024, SlowioMaxDelay = 0, SlowioPercentDelay = 0,
      SlowioRarefyDelay = 0, FileSystemName = None, MountPoint = None, VolumePrefix = None, RootSddl = None\<rparr>"

text \<open>The options without a value and those with one; \<open>None\<close>: not such an option.\<close>

definition set_flag :: "wchar \<Rightarrow> svc_options \<Rightarrow> svc_options option" where
  "set_flag c opts =
     (if c = 0x66 then Some (opts\<lparr>OtherFlags := MemfsFlushAndPurgeOnCleanup\<rparr>)
      else if c = 0x69 then Some (opts\<lparr>OtherFlags := MemfsCaseInsensitive\<rparr>)
      else None)"

definition set_value :: "wchar \<Rightarrow> wstr \<Rightarrow> svc_options \<Rightarrow> svc_options option" where
  "set_value c v opts =
     (if c = 0x64 then Some (opts\<lparr>DebugFlags := wcstol_deflt v (DebugFlags opts)\<rparr>)
      else if c = 0x44 then Some (opts\<lparr>DebugLogFile := Some v\<rparr>)
      else if c = 0x46 then Some (opts\<lparr>FileSystemName := Some v\<rparr>)
      else if c = 0x6D then Some (opts\<lparr>MountPoint := Some v\<rparr>)
      else if c = 0x4D then Some (opts\<lparr>SlowioMaxDelay := wcstol_deflt v (SlowioMaxDelay opts)\<rparr>)
      else if c = 0x6E then Some (opts\<lparr>svc_MaxFileNodes := wcstol_deflt v (svc_MaxFileNodes opts)\<rparr>)
      else if c = 0x50 then Some (opts\<lparr>SlowioPercentDelay := wcstol_deflt v (SlowioPercentDelay opts)\<rparr>)
      else if c = 0x52 then Some (opts\<lparr>SlowioRarefyDelay := wcstol_deflt v (SlowioRarefyDelay opts)\<rparr>)
      else if c = 0x53 then Some (opts\<lparr>RootSddl := Some v\<rparr>)
      else if c = 0x73 then Some (opts\<lparr>svc_MaxFileSize := wcstol_deflt v (svc_MaxFileSize opts)\<rparr>)
      else if c = 0x74 then Some (opts\<lparr>FileInfoTimeout := wcstol_deflt v (FileInfoTimeout opts)\<rparr>)
      else if c = 0x75 then
        Some (let opts' = opts\<lparr>VolumePrefix := Some v\<rparr> in if v \<noteq> [] then opts'\<lparr>svc_Flags := MemfsNet\<rparr> else opts')
      else None)"

text \<open>The loop over the arguments; \<open>None\<close> is the jump to \<open>usage\<close>, also for an argument that is no option.\<close>

fun parse_args :: "wstr list \<Rightarrow> svc_options \<Rightarrow> svc_options option" where
  "parse_args [] opts = Some opts"
| "parse_args (a # as) opts =
     (if char_at a \<noteq> 0x2D then None
      else case set_flag (char_at (tl a)) opts of
        Some opts' \<Rightarrow> parse_args as opts'
      | None \<Rightarrow> (case as of
          [] \<Rightarrow> None
        | v # rest \<Rightarrow> (case set_value (char_at (tl a)) v opts of None \<Rightarrow> None | Some opts' \<Rightarrow> parse_args rest opts')))"

section \<open>Start and stop\<close>

text \<open>What the system answers: the calls of the funnel, the two ways to open the log, \<open>FspFileSystemSetMountPoint\<close> (\<open>None\<close>:
  any free drive) and \<open>FspFileSystemStartDispatcher\<close>.\<close>

record svc_calls =
  funnel :: funnel_calls
  std_error_valid :: bool
  log_file_opens :: "wstr \<Rightarrow> bool"
  set_mount_point :: "wstr option \<Rightarrow> ntstatus"
  start_dispatcher :: ntstatus

definition log_ok :: "svc_calls \<Rightarrow> wstr option \<Rightarrow> bool" where
  "log_ok c file = (case file of None \<Rightarrow> True | Some f \<Rightarrow> if f = [0x2D] then std_error_valid c else log_file_opens c f)"

definition mount_result :: "svc_calls \<Rightarrow> wstr option \<Rightarrow> ntstatus" where
  "mount_result c mp =
     (case mp of
        None \<Rightarrow> STATUS_SUCCESS
      | Some m \<Rightarrow> if m = [] then STATUS_SUCCESS else set_mount_point c (if m = [0x2A] then None else Some m))"

text \<open>The answer: the status, whether the service keeps a file system, and what is held. A success without a file
  system would make the calls that follow use a null pointer.\<close>

definition SvcStart :: "env \<Rightarrow> svc_calls \<Rightarrow> wstr list \<Rightarrow> (ntstatus \<times> bool \<times> holdings) option" where
  "SvcStart e c argv =
     (let idle = no_holdings (heap_state (funnel c)) (empty_memfs False 0 0) in
      case parse_args (tl argv) default_options of
        None \<Rightarrow> Some (STATUS_UNSUCCESSFUL, False, idle)
      | Some opts \<Rightarrow>
         if svc_Flags opts = MemfsDisk \<and> MountPoint opts = None then Some (STATUS_UNSUCCESSFUL, False, idle)
         else if \<not> log_ok c (DebugLogFile opts) then Some (STATUS_UNSUCCESSFUL, False, idle)
         else do {
           (st, made, m) \<leftarrow> MemfsCreateFunnel e (funnel c) (svc_Flags opts OR OtherFlags opts) (FileInfoTimeout opts)
                              (svc_MaxFileNodes opts) (svc_MaxFileSize opts) (FileSystemName opts) (VolumePrefix opts) (RootSddl opts);
           if \<not> NT_SUCCESS st
           then (if made then do { m' \<leftarrow> release_all m; Some (st, False, m') } else Some (st, False, m))
           else if \<not> made then None
           else (let st1 = mount_result c (MountPoint opts);
                     st2 = (if \<not> NT_SUCCESS st1 then st1 else start_dispatcher c)
                 in if \<not> NT_SUCCESS st2 then do { m' \<leftarrow> release_all m; Some (st2, False, m') }
                    else Some (STATUS_SUCCESS, True, m))
         })"

text \<open>Stopping the dispatcher ends all requests; then the file system is deleted.\<close>

definition SvcStop :: "holdings \<Rightarrow> (ntstatus \<times> holdings) option" where
  "SvcStop m = do { m' \<leftarrow> release_all m; Some (STATUS_SUCCESS, m') }"

text \<open>The line the service logs once it runs; \<open>%ld\<close> prints a 32-bit number with its sign. The mount point is what
  \<open>FspFileSystemMountPoint\<close> answers, which for \<open>*\<close> is the drive that was chosen.\<close>

fun dec_nat :: "nat \<Rightarrow> wstr" where
  "dec_nat n = (if n < 10 then [0x30 + of_nat n] else dec_nat (n div 10) @ [0x30 + of_nat (n mod 10)])"

declare dec_nat.simps [simp del]

definition dec :: "u32 \<Rightarrow> wstr" where
  "dec w = (if sint w < 0 then 0x2D # dec_nat (nat (- sint w)) else dec_nat (nat (sint w)))"

abbreviation wide :: "char list \<Rightarrow> wstr" where "wide \<equiv> map of_char"

definition logged_option :: "char list \<Rightarrow> wstr option \<Rightarrow> wstr" where
  "logged_option opt v = (case v of None \<Rightarrow> [] | Some w \<Rightarrow> wide opt @ w)"

definition logged_line :: "wstr option \<Rightarrow> svc_options \<Rightarrow> wstr" where
  "logged_line mount_point opts =
     wide ''ftj_vdisk_srv'' @ wide '' -t '' @ dec (FileInfoTimeout opts) @ wide '' -n '' @ dec (svc_MaxFileNodes opts) @
     wide '' -s '' @ dec (svc_MaxFileSize opts) @ logged_option '' -S '' (RootSddl opts) @
     logged_option '' -u '' (if VolumePrefix opts = Some [] then None else VolumePrefix opts) @ logged_option '' -m '' mount_point"

text \<open>The arguments of the server when the main program is called with \<open>--mount\<close>, for a drive without blanks.\<close>

definition mount_args :: "wstr \<Rightarrow> wstr list \<Rightarrow> wstr list" where
  "mount_args server argv = [server, if length argv > 2 then argv ! 2 else [0x5A, 0x3A]]"

section \<open>Printed numbers are read back\<close>

lemma digit_of_nat:
  assumes "n < 10"
  shows "digit_value (0x30 + of_nat n) = n" "0x30 + of_nat n = (0x30 :: wchar) \<longleftrightarrow> n = 0" "\<not> is_space (0x30 + of_nat n)"
    "0x30 + of_nat n \<noteq> (0x2D :: wchar)" "0x30 + of_nat n \<noteq> (0x2B :: wchar)" "0x30 + of_nat n \<noteq> (0x78 :: wchar)"
    "0x30 + of_nat n \<noteq> (0x58 :: wchar)"
proof -
  have "n \<in> {0, 1, 2, 3, 4, 5, 6, 7, 8, 9}" using assms by auto
  then show "digit_value (0x30 + of_nat n) = n" "0x30 + of_nat n = (0x30 :: wchar) \<longleftrightarrow> n = 0" "\<not> is_space (0x30 + of_nat n)"
    "0x30 + of_nat n \<noteq> (0x2D :: wchar)" "0x30 + of_nat n \<noteq> (0x2B :: wchar)" "0x30 + of_nat n \<noteq> (0x78 :: wchar)"
    "0x30 + of_nat n \<noteq> (0x58 :: wchar)"
    by (auto simp: digit_value_def is_space_def word_le_nat_alt)
qed

lemma scan_dec: "scan_digits 10 0 (dec_nat n @ ys) = scan_digits 10 n ys"
proof (induction n arbitrary: ys rule: dec_nat.induct)
  case (1 n)
  show ?case
  proof (cases "n < 10")
    case True
    then show ?thesis using digit_of_nat(1) [OF True] by (simp add: dec_nat.simps [of n])
  next
    case False
    have "scan_digits 10 0 (dec_nat n @ ys) = scan_digits 10 (n div 10) ((0x30 + of_nat (n mod 10)) # ys)"
      using 1 [OF False] False by (simp add: dec_nat.simps [of n])
    also have "\<dots> = scan_digits 10 (n div 10 * 10 + n mod 10) ys" using digit_of_nat(1) [of "n mod 10"] by simp
    finally show ?thesis by simp
  qed
qed

lemma dec_first: "\<exists>d ds. d < 10 \<and> dec_nat n = (0x30 + of_nat d) # ds \<and> (d = 0 \<longrightarrow> n = 0 \<and> ds = [])"
proof (induction n rule: dec_nat.induct)
  case (1 n)
  show ?case
  proof (cases "n < 10")
    case True
    then show ?thesis by (intro exI [of _ n] exI [of _ "[]"]) (simp add: dec_nat.simps [of n])
  next
    case False
    then obtain d ds where d: "d < 10" "dec_nat (n div 10) = (0x30 + of_nat d) # ds" "d = 0 \<longrightarrow> n div 10 = 0 \<and> ds = []"
      using 1 by blast
    have "d \<noteq> 0" using d(3) False by auto
    then show ?thesis using d(1,2) False by (intro exI [of _ d] exI) (simp add: dec_nat.simps [of n])
  qed
qed

text \<open>A decimal number has no prefix of another base, except that 0 is read as an octal 0.\<close>

lemma base_dec: "\<exists>b. number_base (dec_nat n) = (b, dec_nat n) \<and> digit_value (char_at (dec_nat n)) < b \<and>
    scan_digits b 0 (dec_nat n) = (n, []) \<and> (\<exists>d < 10. char_at (dec_nat n) = 0x30 + of_nat d) \<and> dec_nat n \<noteq> []"
proof -
  obtain d ds where d: "d < 10" "dec_nat n = (0x30 + of_nat d) # ds" "d = 0 \<longrightarrow> n = 0 \<and> ds = []" using dec_first by blast
  have p: "\<exists>d < 10. char_at (dec_nat n) = 0x30 + of_nat d" using d(1,2) by (intro exI [of _ d]) simp
  show ?thesis
  proof (cases "d = 0")
    case True
    then have "dec_nat n = [0x30]" "n = 0" using d by simp_all
    then have "number_base (dec_nat n) = (8, dec_nat n)" "digit_value (char_at (dec_nat n)) < 8"
      "scan_digits 8 0 (dec_nat n) = (n, [])" "dec_nat n \<noteq> []"
      using digit_of_nat(1) [of 0] by (simp_all add: number_base_def)
    then show ?thesis using p by blast
  next
    case False
    then have "number_base (dec_nat n) = (10, dec_nat n)" using d(1,2) digit_of_nat(2) [OF d(1)] by (simp add: number_base_def)
    moreover have "scan_digits 10 0 (dec_nat n) = (n, [])" using scan_dec [of n "[]"] by simp
    moreover have "digit_value (char_at (dec_nat n)) < 10" "dec_nat n \<noteq> []" using d(1,2) digit_of_nat(1) [OF d(1)] by simp_all
    ultimately show ?thesis using p by blast
  qed
qed

lemma wcstol_dec_nat:
  assumes "n < 2 ^ 31"
  shows "wcstol (dec_nat n) = (int n, [])"
proof -
  obtain b d where b: "number_base (dec_nat n) = (b, dec_nat n)" "digit_value (char_at (dec_nat n)) < b"
    "scan_digits b 0 (dec_nat n) = (n, [])" "d < 10" "char_at (dec_nat n) = 0x30 + of_nat d" "dec_nat n \<noteq> []"
    using base_dec by blast
  note g = digit_of_nat [OF b(4)]
  have "dropWhile is_space (dec_nat n) = dec_nat n" using b(5,6) g(3) by (cases "dec_nat n") auto
  then show ?thesis using b g assms by (simp add: wcstol_def)
qed

lemma wcstol_minus_dec_nat:
  assumes "n \<le> 2 ^ 31"
  shows "wcstol (0x2D # dec_nat n) = (- int n, [])"
proof -
  obtain b where b: "number_base (dec_nat n) = (b, dec_nat n)" "digit_value (char_at (dec_nat n)) < b"
    "scan_digits b 0 (dec_nat n) = (n, [])" using base_dec by blast
  have "dropWhile is_space (0x2D # dec_nat n) = 0x2D # dec_nat n" by (simp add: is_space_def)
  then show ?thesis using b assms by (simp add: wcstol_def)
qed

lemma sint_range: "- (2 ^ 31) \<le> sint (w :: u32)" "sint (w :: u32) < 2 ^ 31"
  using sint_ge [of w] sint_lt [of w] by simp_all

lemma wcstol_deflt_dec [simp]: "wcstol_deflt (dec w) deflt = w"
proof (cases "sint w < 0")
  case True
  have "nat (- sint w) \<le> 2 ^ 31" using sint_range(1) [of w] by simp
  then have "wcstol (dec w) = (sint w, [])" using wcstol_minus_dec_nat [of "nat (- sint w)"] True by (simp add: dec_def)
  then show ?thesis using True by (simp add: wcstol_deflt_def dec_def)
next
  case False
  have "nat (sint w) < 2 ^ 31" using sint_range(2) [of w] False by simp
  then have "wcstol (dec w) = (sint w, [])" using wcstol_dec_nat [of "nat (sint w)"] False by (simp add: dec_def)
  moreover have "dec w \<noteq> []" using dec_first [of "nat (sint w)"] False by (auto simp: dec_def)
  ultimately show ?thesis by (simp add: wcstol_deflt_def)
qed

text \<open>The values in the line are not quoted: different options may give the same line, so the line does not tell them.\<close>

lemma logged_line_ambiguous:
  "logged_line mp (default_options\<lparr>RootSddl := Some (wide ''D -u S'')\<rparr>) =
   logged_line mp (default_options\<lparr>RootSddl := Some (wide ''D''), VolumePrefix := Some (wide ''S'')\<rparr>)"
  by (simp add: logged_line_def logged_option_def default_options_def)

section \<open>Properties\<close>

text \<open>C30: the start of the service and what it leaves behind, whatever the arguments and the answers of the system. It does not end
  the program, except when the prefix or the name does not fit its buffer or there is no memory for the controller. Otherwise it
  either answers success and keeps a file system with nothing open, which the stop frees entirely; or it answers an error and
  holds nothing: wherever the failure occurred, in the options, in the construction or after it, the descriptor, the block,
  the table, the WinFsp object and every node have been freed. The hypothesis on the conversion of the descriptor says that
  its errors are errors.\<close>

theorem service_start_outcome:
  assumes "path_laws e" "\<forall>w st. root_descriptor (funnel c) w = Inl st \<longrightarrow> \<not> NT_SUCCESS st"
  shows "case SvcStart e c argv of
      None \<Rightarrow> (case parse_args (tl argv) default_options of
          None \<Rightarrow> False
        | Some opts \<Rightarrow> reaches_copies e (funnel c) (RootSddl opts) \<and> \<not> texts_fit (funnel c) (FileSystemName opts) (VolumePrefix opts))
    | Some (st, running, m) \<Rightarrow> NT_SUCCESS st = running \<and>
        (if running then file_system_held m \<and> (\<exists>m'. SvcStop m = Some (STATUS_SUCCESS, m') \<and> nothing_held m') else nothing_held m)"
proof (cases "\<exists>opts. parse_args (tl argv) default_options = Some opts \<and> \<not> (svc_Flags opts = MemfsDisk \<and> MountPoint opts = None) \<and>
    log_ok c (DebugLogFile opts)")
  case False
  then show ?thesis by (auto simp: SvcStart_def NT_SUCCESS_def Let_def split: option.splits)
next
  case True
  then obtain opts where p: "parse_args (tl argv) default_options = Some opts" "\<not> (svc_Flags opts = MemfsDisk \<and> MountPoint opts = None)"
    "log_ok c (DebugLogFile opts)" by blast
  define res where "res = MemfsCreateFunnel e (funnel c) (svc_Flags opts OR OtherFlags opts) (FileInfoTimeout opts)
      (svc_MaxFileNodes opts) (svc_MaxFileSize opts) (FileSystemName opts) (VolumePrefix opts) (RootSddl opts)"
  have out: "funnel_outcome e (funnel c) (svc_Flags opts OR OtherFlags opts) (FileInfoTimeout opts) (FileSystemName opts)
      (VolumePrefix opts) (RootSddl opts) res" unfolding res_def by (rule MemfsCreateFunnel_ok [OF assms(1)])
  note start = SvcStart_def [of e c argv, unfolded Let_def p(1) option.case, folded res_def]
  show ?thesis
  proof (cases res)
    case None
    then show ?thesis using out p unfolding start by (auto simp: funnel_outcome_def)
  next
    case (Some x)
    obtain st made m where x: "x = (st, made, m)" by (cases x)
    show ?thesis
    proof (cases made)
      case False
      then have "nothing_held m" "\<not> NT_SUCCESS st"
        using out assms(2) unfolding Some x by (auto simp: funnel_outcome_def sddl_result_def)
      then show ?thesis using False p unfolding start Some x by auto
    next
      case made: True
      then have m: "st = STATUS_SUCCESS" "file_system_held m" using out unfolding Some x by (simp_all add: funnel_outcome_def)
      obtain m' where m': "release_all m = Some m'" "nothing_held m'" using release_file_system [OF m(2)] by blast
      show ?thesis using made p m m' unfolding start Some x by (simp add: SvcStop_def NT_SUCCESS_def)
    qed
  qed
qed

definition demo_svc :: svc_calls where
  "demo_svc = \<lparr>funnel = demo_calls, std_error_valid = True, log_file_opens = (\<lambda>_. False), set_mount_point = (\<lambda>_. STATUS_SUCCESS),
     start_dispatcher = STATUS_DISK_FULL\<rparr>"

text \<open>A start that fails at the very end, and one that fails when the root node cannot enter the table.\<close>

theorem service_start_outcome_witness:
  "(\<exists>m. SvcStart demo_env demo_svc [[], [0x2D, 0x6D], [0x59, 0x3A]] = Some (STATUS_DISK_FULL, False, m) \<and> nothing_held m) \<and>
   (\<exists>st m. SvcStart (demo_env\<lparr>table_grows := False\<rparr>) demo_svc [[], [0x2D, 0x6D], [0x59, 0x3A]] = Some (st, False, m) \<and> nothing_held m)"
proof -
  let ?argv = "[[], [0x2D, 0x6D], [0x59, 0x3A]] :: wstr list" and ?e = "demo_env\<lparr>table_grows := False\<rparr>"
  define opts where "opts = default_options\<lparr>MountPoint := Some [0x59, 0x3A]\<rparr>"
  have p: "parse_args (tl ?argv) default_options = Some opts"
    by (simp add: opts_def set_flag_def set_value_def)
  have o: "svc_Flags opts = MemfsDisk" "MountPoint opts = Some [0x59, 0x3A]" "DebugLogFile opts = None" "FileSystemName opts = None"
    "VolumePrefix opts = None" by (simp_all add: opts_def default_options_def)
  have d: "\<forall>w st. root_descriptor (funnel demo_svc) w = Inl st \<longrightarrow> \<not> NT_SUCCESS st" by (simp add: demo_svc_def demo_calls_def)
  note c = demo_svc_def log_ok_def mount_result_def NT_SUCCESS_def
  note start = SvcStart_def [of _ demo_svc ?argv, unfolded Let_def p option.case]
  note outcome = service_start_outcome [where c = demo_svc and argv = ?argv, OF _ d, unfolded p option.case]
  obtain m where m: "MemfsCreateFunnel demo_env demo_calls (svc_Flags opts OR OtherFlags opts) (FileInfoTimeout opts)
      (svc_MaxFileNodes opts) (svc_MaxFileSize opts) None None (RootSddl opts) = Some (STATUS_SUCCESS, True, m)"
    using demo_funnel by blast
  obtain m' where "release_all m = Some m'" using release_file_system [OF Funnel_made(2) [OF demo_env_laws(1) m]] by blast
  then have run1: "SvcStart demo_env demo_svc ?argv = Some (STATUS_DISK_FULL, False, m')"
    unfolding start using m by (simp add: o c)
  then have "nothing_held m'" using outcome [OF demo_env_laws(1)] by simp
  moreover obtain st m2 where "MemfsCreateFunnel ?e demo_calls (svc_Flags opts OR OtherFlags opts) (FileInfoTimeout opts)
      (svc_MaxFileNodes opts) (svc_MaxFileSize opts) None None (RootSddl opts) = Some (st, False, m2)"
    using MemfsCreateFunnel_ok [OF no_table_env(1), of demo_calls "svc_Flags opts OR OtherFlags opts" "FileInfoTimeout opts" None None
        "RootSddl opts" "svc_MaxFileNodes opts" "svc_MaxFileSize opts"] no_table_env(2) demo_granted(3)
    by (auto simp: funnel_outcome_def split: option.splits)
  then have "SvcStart ?e demo_svc ?argv = (if \<not> NT_SUCCESS st then Some (st, False, m2) else None)"
    unfolding start by (simp add: o demo_svc_def log_ok_def)
  then have "SvcStart ?e demo_svc ?argv = Some (st, False, m2) \<and> nothing_held m2"
    using outcome [OF no_table_env(1)] demo_granted(3) by (auto simp: o demo_svc_def split: if_splits)
  ultimately show ?thesis using run1 by blast
qed

text \<open>The main program called with \<open>--mount\<close> passes the drive as an argument of its own, which the service takes for no option:
  whatever the system answers, the start fails.\<close>

lemma mount_command_fails:
  assumes "\<forall>a \<in> set argv. char_at a \<noteq> 0x2D"
  shows "SvcStart e c (mount_args server argv) =
    Some (STATUS_UNSUCCESSFUL, False, no_holdings (heap_state (funnel c)) (empty_memfs False 0 0))"
  using assms by (auto simp: SvcStart_def mount_args_def)

text \<open>Two options that do not exclude each other overwrite each other: the last one wins.\<close>

lemma flag_overwritten:
  "parse_args [[0x2D, 0x66], [0x2D, 0x69]] default_options = Some (default_options\<lparr>OtherFlags := MemfsCaseInsensitive\<rparr>)"
  "\<not> FlushAndPurge (volume_params_of (MemfsDisk OR MemfsCaseInsensitive) timeout prefix name)"
  by (simp_all add: set_flag_def volume_params_of_def MemfsDisk_def MemfsCaseInsensitive_def MemfsFlushAndPurgeOnCleanup_def)

text \<open>A number above the largest \<open>long\<close> is cut to it.\<close>

lemma large_number_saturates: "wcstol_deflt [0x33, 0x30, 0x30, 0x30, 0x30, 0x30, 0x30, 0x30, 0x30, 0x30] deflt = 0x7FFFFFFF"
  by (simp add: wcstol_deflt_def wcstol_def number_base_def digit_value_def is_space_def word_le_nat_alt)

end
