(* ===== verification/Memfs_Listing.thy ===== *)
theory Memfs_Listing
  imports Memfs_Rename
begin

text \<open>
  Directory listings of \<open>src/win_vdisk.cpp\<close>: what \<open>ReadDirectory\<close> puts into a buffer that is large enough, from
  the start and when it resumes after a name.
\<close>

section \<open>Collecting the entries\<close>

text \<open>\<open>FspFileSystemAddDirInfo\<close> on a buffer that never fills up: the entries in order, then the end mark.\<close>

definition collect :: "dir_entry option \<Rightarrow> dir_entry option list \<Rightarrow> bool \<times> dir_entry option list" where
  "collect x buf = (True, buf @ [x])"

definition entry_of :: "env \<Rightarrow> file_node \<Rightarrow> dir_entry option" where
  "entry_of e n = Some (snd (path_suffix e (FileName n)), FileInfo n)"

lemma AddDirInfo_collect:
  "AddDirInfo e collect n None buf = (True, buf @ [entry_of e n])"
  "AddDirInfo e collect n (Some nm) buf = (True, buf @ [Some (nm, FileInfo n)])"
  by (simp_all add: AddDirInfo_def collect_def entry_of_def)

lemma run_enum_collect:
  "run_enum (\<lambda>n b. AddDirInfo e collect n None b) ns buf = (True, buf @ map (entry_of e) ns)"
  by (induction ns arbitrary: buf) (simp_all add: AddDirInfo_collect)

section \<open>The parent of a directory entry\<close>

lemma GetParent_entry:
  assumes "path_laws e" "table_ok s" "tree_closed s" "dirs_ok s" "(k, r) \<in> set (FileNodeMap s)" "k \<noteq> [BSLASH]"
  shows "\<exists>p pn. MemfsFileNodeMapGetParent e k s = Some (Inr p) \<and> nodes s p = Some pn \<and>
    (FileName pn, p) \<in> set (FileNodeMap s) \<and> is_child s (FileName pn) k"
proof -
  have adm: "adm_path (CaseInsensitive s) k" by (rule table_okD(1) [OF assms(2,5)])
  note suf = name_ok_fst_suffix [OF assms(1) adm]
  obtain k2 p where p: "(k2, p) \<in> set (FileNodeMap s)" "entry_key s k2 = parent_key (entry_key s k)"
    using assms(3,5,6) by (fastforce simp: tree_closed_def)
  obtain pn where pn: "nodes s p = Some pn" "FileName pn = k2" using table_okD(2) [OF assms(2) p(1)] by blast
  have get: "MemfsFileNodeMapGet e (fst (path_suffix e k)) s = Some p"
    using MapGet_Some [OF assms(2), of "fst (path_suffix e k)" e p] suf p by (auto simp: adm_path_def)
  have child: "is_child s k2 k" using p(2) assms(6) by (simp add: is_child_def)
  have "FileAttributes (FileInfo pn) AND FILE_ATTRIBUTE_DIRECTORY \<noteq> 0"
    using assms(4,5) p(1) pn(1) child unfolding dirs_ok_def by blast
  then have "MemfsFileNodeMapGetParent e k s = Some (Inr p)"
    using get pn(1) adm by (simp add: MemfsFileNodeMapGetParent_def adm_path_def)
  then show ?thesis using p(1) pn child by blast
qed

lemma second_char:
  assumes "adm_path ci k"
  shows "char_at (drop 1 k) \<noteq> 0 \<longleftrightarrow> k \<noteq> [BSLASH]"
proof -
  obtain cs where cs: "comps_ok cs" "k = path_of cs" "name_ok ci k" "k = [BSLASH] \<longleftrightarrow> cs = []"
    using adm_pathE [OF assms] by blast
  show ?thesis
  proof (cases cs)
    case Nil
    then show ?thesis using cs(2) by (simp add: path_of_def)
  next
    case (Cons c ds)
    then obtain x xs where "c = x # xs" using cs(1) by (cases c) (auto simp: comp_ok_def)
    then show ?thesis using cs Cons by (auto simp: path_of_def name_ok_def)
  qed
qed

section \<open>Listings\<close>

lemma ReadDirectory_start:
  assumes "path_laws e" "table_ok s" "tree_closed s" "dirs_ok s" "(FileName n, r) \<in> set (FileNodeMap s)" "nodes s r = Some n"
  shows "\<exists>dots. MemfsReadDirectory e collect r None s [] =
      Some (STATUS_SUCCESS, dots @ map (entry_of e) (children_in s (FileName n) (FileNodeMap s)) @ [None]) \<and>
    (if FileName n = [BSLASH] then dots = []
     else \<exists>p pn. nodes s p = Some pn \<and> (FileName pn, p) \<in> set (FileNodeMap s) \<and> is_child s (FileName pn) (FileName n) \<and>
       dots = [Some ([DOT], FileInfo n), Some ([DOT, DOT], FileInfo pn)])"
proof -
  have adm: "adm_path (CaseInsensitive s) (FileName n)" by (rule table_okD(1) [OF assms(2,5)])
  note en = EnumerateChildren_correct [OF assms(1,2,6) adm]
  show ?thesis
  proof (cases "FileName n = [BSLASH]")
    case True
    then show ?thesis
      using assms(6) by (simp add: MemfsReadDirectory_def en run_enum_collect collect_def)
  next
    case False
    obtain p pn where p: "MemfsFileNodeMapGetParent e (FileName n) s = Some (Inr p)" "nodes s p = Some pn"
      "(FileName pn, p) \<in> set (FileNodeMap s)" "is_child s (FileName pn) (FileName n)"
      using GetParent_entry [OF assms(1-5) False] by blast
    have "char_at (drop 1 (FileName n)) \<noteq> 0" using second_char [OF adm] False by blast
    then show ?thesis
      using assms(6) p False
      by (auto simp: MemfsReadDirectory_def AddDirInfo_collect en run_enum_collect collect_def)
  qed
qed

text \<open>The name a marker stands for.\<close>

definition dir_join :: "wstr \<Rightarrow> wstr \<Rightarrow> wstr" where
  "dir_join dir m = dir @ (if dir = [BSLASH] then [] else [BSLASH]) @ m"

lemma dir_join_key:
  assumes "adm_path ci dir" "comp_ok m" "name_ok ci m"
  shows "name_ok ci (dir_join dir m) \<and> name_key ci dir < name_key ci (dir_join dir m) \<and>
    parent_key (name_key ci (dir_join dir m)) = name_key ci dir"
proof -
  obtain ds where ds: "comps_ok ds" "dir = path_of ds" "name_key ci dir = path_key ci ds" "name_ok ci dir" "dir = [BSLASH] \<longleftrightarrow> ds = []"
    using adm_pathE [OF assms(1)] by blast
  have j: "dir_join dir m = path_of (ds @ [m])" using ds(2,5) by (simp add: dir_join_def path_of_def)
  have ok: "comps_ok (ds @ [m])" using ds(1) assms(2) by simp
  have p: "parent_key (path_key ci (ds @ [m])) = path_key ci ds" using path_key_butlast [of ci "ds @ [m]"] by simp
  have "path_key ci ds < path_key ci (ds @ [m])" using child_key [OF ok _ ds(1) p] by simp
  moreover have "name_ok ci (dir_join dir m)" using ds(4) assms(3) by (simp add: dir_join_def)
  ultimately show ?thesis using p unfolding j name_key_path [OF ok] ds(3) by (simp add: j)
qed

lemma EnumerateChildren_marker:
  assumes "path_laws e" "table_ok s" "nodes s r = Some n" "adm_path (CaseInsensitive s) (FileName n)"
    and m: "comp_ok m" "name_ok (CaseInsensitive s) m" "length m < 256"
  shows "MemfsFileNodeMapEnumerateChildren e r (Some m) EnumFn s ctx =
    Some (run_enum EnumFn (children_in s (FileName n)
      (filter (\<lambda>x. entry_key s (dir_join (FileName n) m) < entry_key s (fst x)) (FileNodeMap s))) ctx)"
proof -
  let ?start = "dir_join (FileName n) m"
  let ?up = "filter (\<lambda>x. entry_key s ?start < entry_key s (fst x)) (FileNodeMap s)"
  note j = dir_join_key [OF assms(4) m(1,2)]
  have up: "upper_bound (name_lt e s) ?start (FileNodeMap s) = ?up"
    by (rule upper_bound_table [OF assms(2)]) (use j in blast)
  have srt: "names.sorted_map (CaseInsensitive s) ?up"
    using assms(2) by (auto simp: table_ok_def names.sorted_map_def sorted_wrt_filter)
  have above: "\<forall>(k, q) \<in> set ?up. entry_key s (FileName n) < entry_key s k" using j by auto
  have "enum_children e s n EnumFn ?up ctx = Some (run_enum EnumFn (children_in s (FileName n) ?up) ctx)"
    by (rule enum_children_list [OF assms(1,2,4) srt _ above]) auto
  moreover have "length ?start < MEMFS_MAX_PATH + 256" using assms(4) m(3) by (simp add: dir_join_def adm_path_def)
  ultimately show ?thesis using up assms(3)
    by (simp add: MemfsFileNodeMapEnumerateChildren_def dir_join_def [symmetric] not_le)
qed

lemma ReadDirectory_resume:
  assumes "path_laws e" "table_ok s" "tree_closed s" "dirs_ok s" "(FileName n, r) \<in> set (FileNodeMap s)" "nodes s r = Some n"
    and m: "comp_ok m" "name_ok (CaseInsensitive s) m" "length m < 256" "m \<noteq> [DOT]"
  shows "MemfsReadDirectory e collect r (Some m) s [] =
      Some (STATUS_SUCCESS, map (entry_of e) (children_in s (FileName n)
        (filter (\<lambda>x. entry_key s (dir_join (FileName n) m) < entry_key s (fst x)) (FileNodeMap s))) @ [None])"
proof -
  have adm: "adm_path (CaseInsensitive s) (FileName n)" by (rule table_okD(1) [OF assms(2,5)])
  note en = EnumerateChildren_marker [OF assms(1,2,6) adm m(1-3)]
  show ?thesis
  proof (cases "FileName n = [BSLASH]")
    case True
    then show ?thesis
      using assms(6) by (simp add: MemfsReadDirectory_def en run_enum_collect collect_def)
  next
    case False
    obtain p pn where p: "MemfsFileNodeMapGetParent e (FileName n) s = Some (Inr p)" "nodes s p = Some pn"
      using GetParent_entry [OF assms(1-5) False] by blast
    have "char_at (drop 1 (FileName n)) \<noteq> 0" using second_char [OF adm] False by blast
    then show ?thesis
      using assms(6) p False m(4)
      by (simp add: MemfsReadDirectory_def AddDirInfo_collect en run_enum_collect collect_def)
  qed
qed

section \<open>Properties\<close>

text \<open>C27: a directory read from the start gives the dot entries with the right information (none for the root), then
  exactly its children in the order of the table, then the end mark.\<close>

theorem read_directory_lists:
  assumes "path_laws e" "table_ok s" "tree_closed s" "dirs_ok s" "(FileName n, r) \<in> set (FileNodeMap s)" "nodes s r = Some n"
  shows "\<exists>dots. MemfsReadDirectory e collect r None s [] =
      Some (STATUS_SUCCESS, dots @ map (entry_of e) (children_in s (FileName n) (FileNodeMap s)) @ [None]) \<and>
    (if FileName n = [BSLASH] then dots = []
     else \<exists>p pn. nodes s p = Some pn \<and> (FileName pn, p) \<in> set (FileNodeMap s) \<and> is_child s (FileName pn) (FileName n) \<and>
       dots = [Some ([DOT], FileInfo n), Some ([DOT, DOT], FileInfo pn)])"
  by (rule ReadDirectory_start [OF assms])

lemma demo_dir: "(FileName (demo_node (path_of [[0x61]]) FILE_ATTRIBUTE_DIRECTORY 2), 2) \<in> set (FileNodeMap demo_fs)"
  by (simp add: demo_fs_def demo_node_def)

lemma demo_children:
  "children_in demo_fs (path_of [[0x61]]) (FileNodeMap demo_fs) = [demo_node (path_of [[0x61], [0x21]]) FILE_ATTRIBUTE_NORMAL 1]"
  "children_in demo_fs (path_of [[0x61]])
     (filter (\<lambda>x. entry_key demo_fs (dir_join (path_of [[0x61]]) [DOT, DOT]) < entry_key demo_fs (fst x)) (FileNodeMap demo_fs)) = []"
proof -
  have ne: "path_of [[0x61]] \<noteq> [BSLASH]" "path_of [[0x61], [0x21]] \<noteq> [BSLASH]" by (simp_all add: path_of_def)
  show "children_in demo_fs (path_of [[0x61]]) (FileNodeMap demo_fs) = [demo_node (path_of [[0x61], [0x21]]) FILE_ATTRIBUTE_NORMAL 1]"
    using ne by (simp add: children_in_def is_child_def demo_fs_def parent_key_def path_of_def [of "[]"])
  have ok: "comps_ok [[0x61], [DOT, DOT]]" by (simp add: comp_ok_def is_sep_def)
  have "dir_join (path_of [[0x61]]) [DOT, DOT] = path_of [[0x61], [DOT, DOT]]" using ne by (simp add: dir_join_def path_of_def)
  then have "entry_key demo_fs (dir_join (path_of [[0x61]]) [DOT, DOT]) = [(2, [0x41]), (2, [DOT, DOT])]"
    using name_key_path [OF ok, of True] by (simp add: path_key_def fold_char_def MemfsUpperChar_def)
  then show "children_in demo_fs (path_of [[0x61]])
     (filter (\<lambda>x. entry_key demo_fs (dir_join (path_of [[0x61]]) [DOT, DOT]) < entry_key demo_fs (fst x)) (FileNodeMap demo_fs)) = []"
    by (simp add: children_in_def demo_fs_def less_prod_def')
qed

theorem read_directory_lists_witness:
  "\<exists>dots. MemfsReadDirectory demo_env collect 2 None demo_fs [] =
    Some (STATUS_SUCCESS, dots @ [entry_of demo_env (demo_node (path_of [[0x61], [0x21]]) FILE_ATTRIBUTE_NORMAL 1), None])"
  using read_directory_lists [OF demo_env_laws(1) demo_table demo_rename(1) demo_dir demo_fields(1)] demo_children(1) by auto

text \<open>C28: reading on after a name (other than the dot) gives exactly the children whose names come after it in the
  order of the table, then the end mark.\<close>

theorem read_directory_resumes:
  assumes "path_laws e" "table_ok s" "tree_closed s" "dirs_ok s" "(FileName n, r) \<in> set (FileNodeMap s)" "nodes s r = Some n"
    and "comp_ok m" "name_ok (CaseInsensitive s) m" "length m < 256" "m \<noteq> [DOT]"
  shows "MemfsReadDirectory e collect r (Some m) s [] =
      Some (STATUS_SUCCESS, map (entry_of e) (children_in s (FileName n)
        (filter (\<lambda>x. entry_key s (dir_join (FileName n) m) < entry_key s (fst x)) (FileNodeMap s))) @ [None])"
  by (rule ReadDirectory_resume [OF assms])

theorem read_directory_resumes_witness:
  "MemfsReadDirectory demo_env collect 2 (Some [DOT, DOT]) demo_fs [] = Some (STATUS_SUCCESS, [None])"
proof -
  have m: "comp_ok [DOT, DOT]" "name_ok (CaseInsensitive demo_fs) [DOT, DOT]" "length [DOT, DOT] < 256" "[DOT, DOT] \<noteq> [DOT]"
    by (simp_all add: comp_ok_def is_sep_def)
  show ?thesis
    using read_directory_resumes [OF demo_env_laws(1) demo_table demo_rename(1) demo_dir demo_fields(1) m] demo_children(2)
    by simp
qed

text \<open>a listing that was cut after the two dots loses entries: in the example directory the file \<open>!\<close> is listed
  when the directory is read in one go, but reading on after \<open>..\<close> starts at the name \<open>..\<close> in the order, above it.\<close>

lemma dotdot_marker_loses_entries:
  "(\<exists>dots. MemfsReadDirectory demo_env collect 2 None demo_fs [] =
      Some (STATUS_SUCCESS, dots @ [entry_of demo_env (demo_node (path_of [[0x61], [0x21]]) FILE_ATTRIBUTE_NORMAL 1), None])) \<and>
   MemfsReadDirectory demo_env collect 2 (Some [DOT, DOT]) demo_fs [] = Some (STATUS_SUCCESS, [None])"
proof -
  have m: "comp_ok [DOT, DOT]" "name_ok (CaseInsensitive demo_fs) [DOT, DOT]" "length [DOT, DOT] < 256" "[DOT, DOT] \<noteq> [DOT]"
    by (simp_all add: comp_ok_def is_sep_def)
  show ?thesis
    using ReadDirectory_start [OF demo_env_laws(1) demo_table demo_rename(1) demo_dir demo_fields(1)]
      ReadDirectory_resume [OF demo_env_laws(1) demo_table demo_rename(1) demo_dir demo_fields(1) m] demo_children
    by auto
qed

end
