(* ===== verification/Memfs_Volume.thy ===== *)
theory Memfs_Volume
  imports Memfs_Funnel
begin

text \<open>
  The volume information of \<open>src/win_vdisk.cpp\<close>: the label, and the 32-bit and 64-bit arithmetic of the sizes.
\<close>

lemma word_product_32:
  "ucast (a * b :: u32) = (ucast a * ucast b :: u64) \<longleftrightarrow> unat a * unat b < 2 ^ 32"
proof -
  have "unat a < 2 ^ 32" "unat b < 2 ^ 32" using unsigned_less [of a] unsigned_less [of b] by simp_all
  then have "unat a * unat b < 2 ^ 32 * 2 ^ 32" by (intro mult_strict_mono) simp_all
  moreover note up = unat_ulong
  ultimately have wide: "unat (ucast a * ucast b :: u64) = unat a * unat b"
    by (simp add: unat_word_ariths(2))
  have narrow: "unat (ucast (a * b) :: u64) = (unat a * unat b) mod 2 ^ 32"
    by (simp add: up unat_word_ariths(2))
  have "ucast (a * b :: u32) = (ucast a * ucast b :: u64) \<longleftrightarrow> (unat a * unat b) mod 2 ^ 32 = unat a * unat b"
    unfolding word_unat_eq_iff wide narrow by (rule refl)
  also have "\<dots> \<longleftrightarrow> unat a * unat b < 2 ^ 32" by (simp add: mod_eq_self_iff_div_eq_0 div_eq_0_iff)
  finally show ?thesis .
qed

text \<open>\<open>SetVolumeLabel\<close> computes the total size of the volume in 32 bits, \<open>GetVolumeInfo\<close> in 64 bits: they agree
  exactly when the size is below 4 GiB.\<close>

lemma volume_total_size:
  "TotalSize (fst (snd (SetVolumeLabel label s))) = TotalSize (snd (GetVolumeInfo s)) \<longleftrightarrow>
   unat (MaxFileNodes s) * unat (MaxFileSize s) < 2 ^ 32"
  by (simp add: SetVolumeLabel_def GetVolumeInfo_def Let_def word_product_32)

text \<open>a label of at most 32 characters that was set is the label that is reported.\<close>

lemma volume_label_round_trip:
  assumes "length label \<le> 32"
  shows "Label (snd (GetVolumeInfo (snd (snd (SetVolumeLabel label s))))) = label \<and>
    LabelLength (snd (GetVolumeInfo (snd (snd (SetVolumeLabel label s))))) = of_nat (2 * length label)"
proof -
  have u: "unat (of_nat (length label * 2) :: u16) = length label * 2" 
    using assms unat_of_nat [where 'a = 16, of "length label * 2"] by (simp del: of_nat_mult)
  then have "\<not> unat (of_nat (length label * 2) :: u16) > 64" using assms by simp
  then show ?thesis using u by (simp add: SetVolumeLabel_def GetVolumeInfo_def Let_def mult.commute [of 2] del: of_nat_mult)
qed

text \<open>the construction rounds the maximal file size up to the allocation unit in 64 bits and cuts the result to 32
  bits: the sizes within the last unit below 4 GiB become 0, all others are the next multiple of 512.\<close>

lemma max_file_size_rounding:
  "unat (rounded_max_size m) = (if unat m \<le> 2 ^ 32 - 512 then (unat m + 511) div 512 * 512 else 0)"
proof -
  have m: "unat m < 4294967296" using unsigned_less [of m] by simp
  have "unat (ucast m + AllocationUnit - 1 :: u64) = unat m + 511"
  proof -
    have "ucast m + AllocationUnit - 1 = (ucast m + 511 :: u64)" by (simp add: AllocationUnit_def)
    moreover have "unat (ucast m + 511 :: u64) = unat m + 511"
      using m by (simp add: unat_word_ariths unsigned_ucast_eq take_bit_eq_mod)
    ultimately show ?thesis by (simp only:)
  qed
  moreover have "unat AllocationUnit = 512" by (simp add: AllocationUnit_def)
  ultimately have "unat ((ucast m + AllocationUnit - 1) div AllocationUnit * AllocationUnit) = ((unat m + 511) div 512 * 512) mod 2 ^ 64"
    unfolding unat_word_ariths(2) by (simp add: unat_div)
  also have "\<dots> = (unat m + 511) div 512 * 512" 
  proof (rule mod_less)
    have "(unat m + 511) div 512 * 512 < 18446744073709551616" using m by linarith
    then show "(unat m + 511) div 512 * 512 < 2 ^ 64" by simp
  qed
  finally have "unat (rounded_max_size m) = ((unat m + 511) div 512 * 512) mod 4294967296"
    by (simp add: rounded_max_size_def unsigned_ucast_eq take_bit_eq_mod)
  moreover have "((unat m + 511) div 512 * 512) mod 4294967296 = (if unat m \<le> 4294966784 then (unat m + 511) div 512 * 512 else 0)"
  proof (cases "unat m \<le> 4294966784")
    case True
    then have "(unat m + 511) div 512 * 512 < 4294967296" by linarith
    then show ?thesis using True by simp
  next
    case False
    then have "(unat m + 511) div 512 = 8388608" using m by linarith
    then show ?thesis using False by simp
  qed
  ultimately show ?thesis by simp
qed

end
