(* ===== verification/Nvme_Bench.thy ===== *)
theory Nvme_Bench
  imports Ring Controller_Safety
begin

text \<open>
  The queue-depth benchmark of \<open>main.cpp\<close>: client threads submit writes through an \<open>NVMeQueuePair\<close> and reap
  completions, worker threads pop requests, run them on the drive and complete them. A state holds the shared
  variables and where every thread is; a step is one step of one thread, in any order. One call of a queue
  operation and one call of the drive is one step: the theory Ring_Threads shows what the interleaving inside
  the queue operations does, and the drive takes a lock.

  The offsets drawn by the generator and the clock are arbitrary values given to a step.
\<close>

section \<open>The code\<close>

definition TOTAL_OPS :: nat where
  "TOTAL_OPS = 50000"

text \<open>Where a client is; the number is its loop counter.\<close>

datatype client =
    ClientLoop nat
  | Submitting nat SQEntry
  | Reaping nat
  | Recording nat CQEntry
  | ClientDone

datatype worker_pc =
    Testing
  | Polling
  | Serving SQEntry
  | Completing CQEntry
  | WorkerDone

text \<open>The seed of the drive's generator is one per thread.\<close>

record worker =
  worker_at :: worker_pc
  worker_seed :: u64

record bench =
  queue_pair :: NVMeQueuePair
  controller :: ctrl
  ops_submitted :: u64
  ops_reaped :: u64
  backend_active :: bool
  latencies :: "u64 list"
  submit_times :: "u64 list"
  memory :: "nat \<rightharpoonup> u8 list"
  clients :: "client list"
  workers :: "worker list"

definition io_buf :: nat where
  "io_buf = 1"

definition num_clients :: "nat \<Rightarrow> nat" where
  "num_clients qd = max 1 (min qd 8)"

definition ops_per_client :: "nat \<Rightarrow> nat" where
  "ops_per_client qd = TOTAL_OPS div num_clients qd"

definition at_client :: "nat \<Rightarrow> client \<Rightarrow> bench \<Rightarrow> bench" where
  "at_client c pc s = s\<lparr>clients := (clients s)[c := pc]\<rparr>"

definition at_worker :: "nat \<Rightarrow> worker_pc \<Rightarrow> bench \<Rightarrow> bench" where
  "at_worker w pc s = s\<lparr>workers := (workers s)[w := (workers s ! w)\<lparr>worker_at := pc\<rparr>]\<rparr>"

definition client_step :: "nat \<Rightarrow> u64 \<Rightarrow> u64 \<Rightarrow> nat \<Rightarrow> bench \<Rightarrow> bench option" where
  "client_step ops offset now c s =
     (case clients s ! c of
        ClientLoop i \<Rightarrow>
          if i < ops then
            let cid = ops_submitted s; s1 = s\<lparr>ops_submitted := cid + 1\<rparr> in
            if TOTAL_OPS \<le> unat cid then Some (at_client c ClientDone s1)
            else do {
              times \<leftarrow> wr (submit_times s1) (unat cid) now;
              Some (at_client c (Submitting i \<lparr>opcode = 1, sq_offset = offset, sq_buffer = io_buf, sq_size = 4096,
                  sq_cid = ucast cid\<rparr>) (s1\<lparr>submit_times := times\<rparr>))
            }
          else Some (at_client c ClientDone s)
      | Submitting i e \<Rightarrow> do {
          (ok, q) \<leftarrow> Submit e (queue_pair s);
          Some (at_client c (if ok then Reaping i else Submitting i e) (s\<lparr>queue_pair := q\<rparr>))
        }
      | Reaping i \<Rightarrow> do {
          (r, q) \<leftarrow> Reap (queue_pair s);
          Some (at_client c (case r of None \<Rightarrow> Reaping i | Some e \<Rightarrow> Recording i e) (s\<lparr>queue_pair := q\<rparr>))
        }
      | Recording i e \<Rightarrow> do {
          s1 \<leftarrow> (if unat (cq_cid e) < TOTAL_OPS then do {
                   t \<leftarrow> rd (submit_times s) (unat (cq_cid e));
                   ls \<leftarrow> wr (latencies s) (unat (cq_cid e)) (if t \<le> now then now - t else 50);
                   Some (s\<lparr>latencies := ls\<rparr>)
                 } else Some s);
          Some (at_client c (ClientLoop (Suc i)) (s1\<lparr>ops_reaped := ops_reaped s1 + 1\<rparr>))
        }
      | ClientDone \<Rightarrow> None)"

definition worker_step :: "nat \<Rightarrow> bench \<Rightarrow> bench option" where
  "worker_step w s =
     (case worker_at (workers s ! w) of
        Testing \<Rightarrow> Some (at_worker w (if backend_active s \<or> unat (ops_reaped s) < TOTAL_OPS then Polling else WorkerDone) s)
      | Polling \<Rightarrow> do {
          (r, q) \<leftarrow> PopRequest (queue_pair s);
          Some (at_worker w (case r of None \<Rightarrow> Testing | Some e \<Rightarrow> Serving e) (s\<lparr>queue_pair := q\<rparr>))
        }
      | Serving e \<Rightarrow> do {
          let c = (controller s)\<lparr>g_seed := worker_seed (workers s ! w)\<rparr>;
          (c1, mem) \<leftarrow> (if opcode e = 1 then do {
                         (ok, c1) \<leftarrow> Write c (unat (sq_offset e)) (memory s (sq_buffer e)) (sq_size e);
                         Some (c1, memory s)
                       } else do {
                         (ok, dest, c1) \<leftarrow> Read c (unat (sq_offset e)) (memory s (sq_buffer e)) (sq_size e);
                         Some (c1, (memory s)(sq_buffer e := dest))
                       });
          Some (s\<lparr>controller := c1, memory := mem, workers := (workers s)[w :=
            \<lparr>worker_at = Completing \<lparr>cq_cid = sq_cid e, cq_status = 0\<rparr>, worker_seed = g_seed c1\<rparr>]\<rparr>)
        }
      | Completing e \<Rightarrow> do {
          (ok, q) \<leftarrow> CompleteRequest e (queue_pair s);
          Some (at_worker w (if ok then Testing else Completing e) (s\<lparr>queue_pair := q\<rparr>))
        }
      | WorkerDone \<Rightarrow> None)"

text \<open>The completion a step of client \<open>c\<close> takes off the queue.\<close>

definition reaped_cid :: "nat \<Rightarrow> bench \<Rightarrow> bench \<Rightarrow> nat list" where
  "reaped_cid c s s' = (case (clients s ! c, clients s' ! c) of (Reaping i, Recording j e) \<Rightarrow> [unat (cq_cid e)] | _ \<Rightarrow> [])"

text \<open>The main thread waits for the clients, then stops the workers.\<close>

inductive bench_step :: "nat \<Rightarrow> bench \<Rightarrow> nat list \<Rightarrow> bench \<Rightarrow> bool" where
  client: "c < length (clients s) \<Longrightarrow> unat offset \<le> capacity (controller s) - 4096 \<Longrightarrow>
    client_step ops offset now c s = Some s' \<Longrightarrow> bench_step ops s (reaped_cid c s s') s'"
| worker: "w < length (workers s) \<Longrightarrow> worker_step w s = Some s' \<Longrightarrow> bench_step ops s [] s'"
| join: "\<forall>pc \<in> set (clients s). pc = ClientDone \<Longrightarrow> bench_step ops s [] (s\<lparr>backend_active := False\<rparr>)"

inductive bench_run :: "nat \<Rightarrow> bench \<Rightarrow> nat list \<Rightarrow> bench \<Rightarrow> bool" for ops s0 where
  bench_start: "bench_run ops s0 [] s0"
| bench_more: "bench_run ops s0 tr s \<Longrightarrow> bench_step ops s ev s' \<Longrightarrow> bench_run ops s0 (tr @ ev) s'"

text \<open>The state when the threads of queue depth \<open>qd\<close> have been started, with \<open>threads\<close> workers.\<close>

definition new_bench :: "u64 \<Rightarrow> nat \<Rightarrow> ctrl \<Rightarrow> bench option" where
  "new_bench qd threads ctrl = do {
     q \<leftarrow> NewQueuePair qd;
     Some \<lparr>queue_pair = q, controller = ctrl, ops_submitted = 0, ops_reaped = 0, backend_active = True,
           latencies = replicate TOTAL_OPS 0, submit_times = replicate TOTAL_OPS 0,
           memory = [io_buf \<mapsto> replicate 4096 0x99],
           clients = replicate (num_clients (unat qd)) (ClientLoop 0),
           workers = replicate (max 1 threads) \<lparr>worker_at = Testing, worker_seed = 1337\<rparr>\<rparr>
   }"

section \<open>Queue operations for a client of the pair\<close>

lemma Submit_room:
  assumes "ring_wf (sq q)" "0 < ring_life (sq q)" "length (ring_abs (sq q)) < ring_room (sq q)"
  shows "\<exists>q'. Submit e q = Some (True, q') \<and> ring_wf (sq q') \<and> ring_abs (sq q') = ring_abs (sq q) @ [e] \<and>
    ring_room (sq q') = ring_room (sq q) \<and> ring_life (sq q) = Suc (ring_life (sq q')) \<and> cq q' = cq q"
  using wf_ring.push_room [OF assms, of e] by (auto simp: Submit_def)

lemma CompleteRequest_room:
  assumes "ring_wf (cq q)" "0 < ring_life (cq q)" "length (ring_abs (cq q)) < ring_room (cq q)"
  shows "\<exists>q'. CompleteRequest e q = Some (True, q') \<and> ring_wf (cq q') \<and> ring_abs (cq q') = ring_abs (cq q) @ [e] \<and>
    ring_room (cq q') = ring_room (cq q) \<and> ring_life (cq q) = Suc (ring_life (cq q')) \<and> sq q' = sq q"
  using wf_ring.push_room [OF assms, of e] by (auto simp: CompleteRequest_def)

lemma PopRequest_total:
  assumes "ring_wf (sq q)"
  shows "\<exists>r q'. PopRequest q = Some (r, q') \<and> ring_wf (sq q') \<and> ring_room (sq q') = ring_room (sq q) \<and>
    ring_life (sq q') = ring_life (sq q) \<and> cq q' = cq q \<and>
    (case r of None \<Rightarrow> ring_abs (sq q) = [] \<and> q' = q | Some e \<Rightarrow> ring_abs (sq q) = e # ring_abs (sq q'))"
proof -
  obtain r q1 where "Pop (sq q) = Some (r, q1)" using wf_ring.pop_defined [OF assms] by auto
  then show ?thesis using wf_ring.pop_then [OF assms, of r q1] by (auto simp: PopRequest_def split: option.splits)
qed

lemma Reap_total:
  assumes "ring_wf (cq q)"
  shows "\<exists>r q'. Reap q = Some (r, q') \<and> ring_wf (cq q') \<and> ring_room (cq q') = ring_room (cq q) \<and>
    ring_life (cq q') = ring_life (cq q) \<and> sq q' = sq q \<and>
    (case r of None \<Rightarrow> ring_abs (cq q) = [] \<and> q' = q | Some e \<Rightarrow> ring_abs (cq q) = e # ring_abs (cq q'))"
proof -
  obtain r q1 where "Pop (cq q) = Some (r, q1)" using wf_ring.pop_defined [OF assms] by auto
  then show ?thesis using wf_ring.pop_then [OF assms, of r q1] by (auto simp: Reap_def split: option.splits)
qed

section \<open>The invariant\<close>

text \<open>How many operations a client has issued, taken a completion for, and recorded.\<close>

fun issued :: "nat \<Rightarrow> client \<Rightarrow> nat" where
  "issued ops (ClientLoop i) = i" | "issued ops (Submitting i e) = Suc i" | "issued ops (Reaping i) = Suc i"
| "issued ops (Recording i e) = Suc i" | "issued ops ClientDone = ops"

fun taken :: "nat \<Rightarrow> client \<Rightarrow> nat" where
  "taken ops (ClientLoop i) = i" | "taken ops (Submitting i e) = i" | "taken ops (Reaping i) = i"
| "taken ops (Recording i e) = Suc i" | "taken ops ClientDone = ops"

fun recorded :: "nat \<Rightarrow> client \<Rightarrow> nat" where
  "recorded ops (ClientLoop i) = i" | "recorded ops (Submitting i e) = i" | "recorded ops (Reaping i) = i"
| "recorded ops (Recording i e) = i" | "recorded ops ClientDone = ops"

fun counter_ok :: "nat \<Rightarrow> client \<Rightarrow> bool" where
  "counter_ok ops (ClientLoop i) \<longleftrightarrow> i \<le> ops" | "counter_ok ops (Submitting i e) \<longleftrightarrow> i < ops"
| "counter_ok ops (Reaping i) \<longleftrightarrow> i < ops" | "counter_ok ops (Recording i e) \<longleftrightarrow> i < ops"
| "counter_ok ops ClientDone \<longleftrightarrow> True"

text \<open>The command identifiers on their way.\<close>

fun submitting_ids :: "client \<Rightarrow> nat multiset" where
  "submitting_ids (Submitting i e) = {#unat (sq_cid e)#}" | "submitting_ids _ = {#}"

fun serving_ids :: "worker_pc \<Rightarrow> nat multiset" where
  "serving_ids (Serving e) = {#unat (sq_cid e)#}" | "serving_ids (Completing e) = {#unat (cq_cid e)#}"
| "serving_ids _ = {#}"

definition submitting :: "bench \<Rightarrow> nat multiset" where
  "submitting s = sum_list (map submitting_ids (clients s))"

definition serving :: "bench \<Rightarrow> nat multiset" where
  "serving s = sum_list (map (\<lambda>w. serving_ids (worker_at w)) (workers s))"

definition queued :: "NVMeQueuePair \<Rightarrow> nat multiset" where
  "queued q = mset (map (\<lambda>e. unat (sq_cid e)) (ring_abs (sq q)))"

definition completed :: "NVMeQueuePair \<Rightarrow> nat multiset" where
  "completed q = mset (map (\<lambda>e. unat (cq_cid e)) (ring_abs (cq q)))"

definition entry_ok :: "nat \<Rightarrow> SQEntry \<Rightarrow> bool" where
  "entry_ok cap e \<longleftrightarrow> opcode e = 1 \<and> sq_buffer e = io_buf \<and> sq_size e = 4096 \<and> unat (sq_offset e) + 4096 \<le> cap"

definition bench_static :: "nat \<Rightarrow> bench \<Rightarrow> bool" where
  "bench_static ops s \<longleftrightarrow> (\<exists>buf. memory s io_buf = Some buf \<and> length buf = 4096) \<and> ctrl_safe False (controller s) \<and>
     4096 \<le> capacity (controller s) \<and> length (latencies s) = TOTAL_OPS \<and> length (submit_times s) = TOTAL_OPS \<and>
     length (clients s) * ops \<le> TOTAL_OPS \<and> clients s \<noteq> [] \<and> workers s \<noteq> []"

definition bench_entries :: "bench \<Rightarrow> bool" where
  "bench_entries s \<longleftrightarrow> (\<forall>e \<in> set (ring_abs (sq (queue_pair s))). entry_ok (capacity (controller s)) e) \<and>
     (\<forall>i e. Submitting i e \<in> set (clients s) \<longrightarrow> entry_ok (capacity (controller s)) e) \<and>
     (\<forall>w \<in> set (workers s). \<forall>e. worker_at w = Serving e \<longrightarrow> entry_ok (capacity (controller s)) e)"

definition bench_rings :: "nat list \<Rightarrow> bench \<Rightarrow> bool" where
  "bench_rings R s \<longleftrightarrow> ring_wf (sq (queue_pair s)) \<and> ring_wf (cq (queue_pair s)) \<and>
     length (clients s) \<le> ring_room (sq (queue_pair s)) \<and> length (clients s) \<le> ring_room (cq (queue_pair s)) \<and>
     TOTAL_OPS + size (submitting s) < ring_life (sq (queue_pair s)) + unat (ops_submitted s) \<and>
     TOTAL_OPS < ring_life (cq (queue_pair s)) + length R + size (completed (queue_pair s))"

definition bench_counts :: "nat \<Rightarrow> nat list \<Rightarrow> bench \<Rightarrow> bool" where
  "bench_counts ops R s \<longleftrightarrow>
     mset R + completed (queue_pair s) + serving s + queued (queue_pair s) + submitting s = mset [0..<unat (ops_submitted s)] \<and>
     unat (ops_submitted s) = sum_list (map (issued ops) (clients s)) \<and>
     unat (ops_reaped s) = sum_list (map (recorded ops) (clients s)) \<and>
     length R = sum_list (map (taken ops) (clients s)) \<and> (\<forall>pc \<in> set (clients s). counter_ok ops pc)"

definition bench_stop :: "bench \<Rightarrow> bool" where
  "bench_stop s \<longleftrightarrow> (\<not> backend_active s \<longrightarrow> (\<forall>pc \<in> set (clients s). pc = ClientDone)) \<and>
     (\<forall>w \<in> set (workers s). worker_at w = WorkerDone \<longrightarrow> \<not> backend_active s \<and> TOTAL_OPS \<le> unat (ops_reaped s))"

definition bench_inv :: "nat \<Rightarrow> nat list \<Rightarrow> bench \<Rightarrow> bool" where
  "bench_inv ops R s \<longleftrightarrow> bench_static ops s \<and> bench_entries s \<and> bench_rings R s \<and> bench_counts ops R s \<and> bench_stop s"

lemma bench_invD:
  assumes "bench_inv ops R s"
  shows "bench_static ops s" "bench_entries s" "bench_rings R s" "bench_counts ops R s" "bench_stop s"
  using assms by (simp_all add: bench_inv_def)

lemma sum_list_swap:
  fixes f :: "'a \<Rightarrow> 'b :: cancel_comm_monoid_add"
  assumes "i < length xs"
  shows "sum_list (map f (xs[i := y])) + f (xs ! i) = sum_list (map f xs) + f y"
  using assms
proof (induction xs arbitrary: i)
  case (Cons x xs)
  then show ?case by (cases i) (simp_all add: ac_simps)
qed simp

lemma issued_bound: "counter_ok ops pc \<Longrightarrow> issued ops pc \<le> ops"
  by (cases pc) auto

lemma sum_issued_bound: "\<forall>pc \<in> set cs. counter_ok ops pc \<Longrightarrow> sum_list (map (issued ops) cs) \<le> length cs * ops"
  by (induction cs) (auto simp: add_mono issued_bound)

text \<open>As many requests are between submission and reaping as clients wait for one.\<close>

fun waits :: "client \<Rightarrow> nat" where
  "waits (Reaping i) = 1" | "waits _ = 0"

lemma balance: "sum_list (map (issued ops) cs) =
    sum_list (map (taken ops) cs) + size (sum_list (map submitting_ids cs)) + sum_list (map waits cs)"
proof (induction cs)
  case (Cons c cs)
  then show ?case by (cases c) simp_all
qed simp

lemma sum_waits_bound: "sum_list (map waits cs) \<le> length cs"
proof (induction cs)
  case (Cons c cs)
  then show ?case by (cases c) simp_all
qed simp

lemma sum_waits_less:
  assumes "c < length cs" "waits (cs ! c) = 0"
  shows "sum_list (map waits cs) < length cs"
  using assms
proof (induction cs arbitrary: c)
  case (Cons x xs)
  show ?case
  proof (cases c)
    case 0
    then show ?thesis using Cons.prems sum_waits_bound [of xs] by simp
  next
    case (Suc k)
    moreover have "waits x \<le> 1" by (cases x) simp_all
    ultimately show ?thesis using Cons.IH [of k] Cons.prems by simp
  qed
qed simp

lemma in_flight:
  assumes "bench_counts ops R s"
  shows "size (completed (queue_pair s)) + size (serving s) + size (queued (queue_pair s)) = sum_list (map waits (clients s))"
proof -
  have "size (mset R + completed (queue_pair s) + serving s + queued (queue_pair s) + submitting s) = unat (ops_submitted s)"
    using assms unfolding bench_counts_def by (simp only: size_mset length_upt)
  then show ?thesis using assms balance [of ops "clients s"] by (simp add: bench_counts_def submitting_def)
qed

section \<open>The steps of a client\<close>

text \<open>What moving one client does to the sums.\<close>

lemma client_sums:
  assumes "c < length (clients s)"
  shows "sum_list (map (issued ops) ((clients s)[c := pc])) + issued ops (clients s ! c) = sum_list (map (issued ops) (clients s)) + issued ops pc"
    "sum_list (map (taken ops) ((clients s)[c := pc])) + taken ops (clients s ! c) = sum_list (map (taken ops) (clients s)) + taken ops pc"
    "sum_list (map (recorded ops) ((clients s)[c := pc])) + recorded ops (clients s ! c) = sum_list (map (recorded ops) (clients s)) + recorded ops pc"
  using assms by (simp_all add: sum_list_swap)

lemma client_submitting:
  assumes "c < length (clients s)" "clients s' = (clients s)[c := pc]"
  shows "submitting s' + submitting_ids (clients s ! c) = submitting s + submitting_ids pc"
  using assms by (simp add: sum_list_swap submitting_def)

lemma client_set: "x \<in> set ((clients s)[c := pc]) \<Longrightarrow> x = pc \<or> x \<in> set (clients s)"
  using set_update_subset_insert [of "clients s" c pc] by blast

lemma bench_countsD:
  assumes "bench_counts ops R s"
  shows "mset R + completed (queue_pair s) + serving s + queued (queue_pair s) + submitting s = mset [0..<unat (ops_submitted s)]"
    "unat (ops_submitted s) = sum_list (map (issued ops) (clients s))"
    "unat (ops_reaped s) = sum_list (map (recorded ops) (clients s))"
    "length R = sum_list (map (taken ops) (clients s))" "pc \<in> set (clients s) \<Longrightarrow> counter_ok ops pc"
  using assms unfolding bench_counts_def by blast+

lemma submitted_bound:
  assumes "bench_inv ops R s"
  shows "unat (ops_submitted s) \<le> TOTAL_OPS"
proof -
  note I = bench_invD [OF assms]
  have "sum_list (map (issued ops) (clients s)) \<le> length (clients s) * ops"
    using bench_countsD(5) [OF I(4)] by (intro sum_issued_bound) blast
  then show ?thesis using bench_countsD(2) [OF I(4)] I(1) by (simp add: bench_static_def)
qed

text \<open>The test against the total never ends a client early: the shares of the clients do not exceed it.\<close>

lemma issue_room:
  assumes "bench_inv ops R s" "c < length (clients s)" "clients s ! c = ClientLoop i" "i < ops"
  shows "unat (ops_submitted s) < TOTAL_OPS"
proof -
  note I = bench_invD [OF assms(1)]
  let ?cs = "(clients s)[c := ClientLoop ops]"
  have "counter_ok ops pc" if "pc \<in> set ?cs" for pc
    using client_set [OF that] bench_countsD(5) [OF I(4)] by auto
  then have "sum_list (map (issued ops) ?cs) \<le> length ?cs * ops" by (intro sum_issued_bound) blast
  moreover have "sum_list (map (issued ops) ?cs) + i = sum_list (map (issued ops) (clients s)) + ops"
    using client_sums(1) [OF assms(2), of ops "ClientLoop ops"] assms(3) by simp
  moreover have "length (clients s) * ops \<le> TOTAL_OPS" using I(1) by (simp add: bench_static_def)
  ultimately show ?thesis using bench_countsD(2) [OF I(4)] assms(4) by simp
qed

lemma TOTAL_OPS_small: "TOTAL_OPS < 2 ^ 32" "TOTAL_OPS < 2 ^ 63"
  by (simp_all add: TOTAL_OPS_def)

lemma bump_counter: "unat (w :: u64) \<le> TOTAL_OPS \<Longrightarrow> unat (w + 1) = unat w + 1"
  by (intro unat_suc_small) (simp add: TOTAL_OPS_def)

lemma cid_fits:
  assumes "unat (w :: u64) < TOTAL_OPS"
  shows "unat (ucast w :: u32) = unat w"
proof -
  have "unat (ucast w :: u32) = take_bit 32 (unat w)" by (simp add: unsigned_ucast_eq)
  also have "\<dots> = unat w mod 2 ^ 32" by (rule take_bit_eq_mod)
  also have "\<dots> = unat w" using assms TOTAL_OPS_small(1) by simp
  finally show ?thesis .
qed

lemma still_active:
  assumes "bench_stop s" "c < length (clients s)" "clients s ! c \<noteq> ClientDone"
  shows "backend_active s"
  using assms nth_mem [OF assms(2)] unfolding bench_stop_def by blast

lemma issue_step:
  assumes inv: "bench_inv ops R s" and c: "c < length (clients s)" "clients s ! c = ClientLoop i" and i: "i < ops"
    and off: "unat offset \<le> capacity (controller s) - 4096"
  shows "\<exists>s' e. client_step ops offset now c s = Some s' \<and> clients s' = (clients s)[c := Submitting i e] \<and> bench_inv ops R s'"
proof -
  note I = bench_invD [OF inv]
  let ?cid = "ops_submitted s"
  note lt = issue_room [OF inv c i]
  define e where "e = \<lparr>opcode = 1, sq_offset = offset, sq_buffer = io_buf, sq_size = 4096, sq_cid = ucast ?cid\<rparr>"
  define s' where "s' = at_client c (Submitting i e) (s\<lparr>ops_submitted := ?cid + 1, submit_times := (submit_times s)[unat ?cid := now]\<rparr>)"
  have step: "client_step ops offset now c s = Some s'"
    using c(2) i lt I(1) by (simp add: client_step_def Let_def e_def s'_def bench_static_def wr_def)
  have eq: "clients s' = (clients s)[c := Submitting i e]" "queue_pair s' = queue_pair s" "controller s' = controller s"
    "workers s' = workers s" "ops_reaped s' = ops_reaped s" "backend_active s' = backend_active s"
    "memory s' = memory s" "latencies s' = latencies s" "length (submit_times s') = length (submit_times s)"
    "ops_submitted s' = ?cid + 1"
    by (simp_all add: s'_def at_client_def)
  note sums = client_sums [OF c(1), of ops "Submitting i e", unfolded c(2)]
  have sub: "submitting s' = submitting s + {#unat ?cid#}"
    using client_submitting [OF c(1) eq(1)] c(2) cid_fits [OF lt] by (simp add: e_def)
  have n: "unat (?cid + 1) = unat ?cid + 1" using lt by (intro bump_counter) simp
  have "4096 \<le> capacity (controller s)" using I(1) by (simp add: bench_static_def)
  then have "unat offset + 4096 \<le> capacity (controller s)" using off by linarith
  then have "entry_ok (capacity (controller s)) e" by (simp add: entry_ok_def e_def)
  then have "bench_entries s'" using I(2) unfolding bench_entries_def eq by (auto dest: client_set)
  moreover have "bench_static ops s'" using I(1) unfolding bench_static_def eq by simp
  moreover have "bench_rings R s'" using I(3) sub n unfolding bench_rings_def eq by simp
  moreover have "bench_counts ops R s'"
  proof -
    have "serving s' = serving s" by (simp add: serving_def eq)
    then show ?thesis
      using bench_countsD [OF I(4)] sums(1-3) sub n i unfolding bench_counts_def eq by (auto dest: client_set)
  qed
  moreover have "bench_stop s'"
    using I(5) still_active [OF I(5) c(1)] c(2) unfolding bench_stop_def eq by simp
  ultimately show ?thesis using step eq(1) by (auto simp: bench_inv_def)
qed

lemma exit_step:
  assumes inv: "bench_inv ops R s" and c: "c < length (clients s)" "clients s ! c = ClientLoop i" and i: "\<not> i < ops"
  shows "\<exists>s'. client_step ops offset now c s = Some s' \<and> clients s' = (clients s)[c := ClientDone] \<and> bench_inv ops R s'"
proof -
  note I = bench_invD [OF inv]
  have "i = ops" using bench_countsD(5) [OF I(4) nth_mem [OF c(1)]] c(2) i by simp
  define s' where "s' = at_client c ClientDone s"
  have step: "client_step ops offset now c s = Some s'" using c(2) i by (simp add: client_step_def s'_def)
  have eq: "clients s' = (clients s)[c := ClientDone]" "queue_pair s' = queue_pair s" "controller s' = controller s"
    "workers s' = workers s" "ops_reaped s' = ops_reaped s" "backend_active s' = backend_active s"
    "memory s' = memory s" "latencies s' = latencies s" "submit_times s' = submit_times s" "ops_submitted s' = ops_submitted s"
    by (simp_all add: s'_def at_client_def)
  note sums = client_sums [OF c(1), of ops ClientDone, unfolded c(2)]
  have sub: "submitting s' = submitting s" using client_submitting [OF c(1) eq(1)] c(2) by simp
  have serv: "serving s' = serving s" by (simp add: serving_def eq)
  have "bench_entries s'" using I(2) unfolding bench_entries_def eq by (auto dest: client_set)
  moreover have "bench_static ops s'" using I(1) unfolding bench_static_def eq by simp
  moreover have "bench_rings R s'" using I(3) sub unfolding bench_rings_def eq by simp
  moreover have "bench_counts ops R s'"
    using bench_countsD [OF I(4)] sums sub serv \<open>i = ops\<close> unfolding bench_counts_def eq by (auto dest: client_set)
  moreover have "bench_stop s'"
    using I(5) still_active [OF I(5) c(1)] c(2) unfolding bench_stop_def eq by simp
  ultimately show ?thesis using step eq(1) by (auto simp: bench_inv_def)
qed

lemma submit_step:
  assumes inv: "bench_inv ops R s" and c: "c < length (clients s)" "clients s ! c = Submitting i e"
  shows "\<exists>s' q. Submit e (queue_pair s) = Some (True, q) \<and> client_step ops offset now c s = Some s' \<and>
    clients s' = (clients s)[c := Reaping i] \<and> workers s' = workers s \<and> queued (queue_pair s') = queued (queue_pair s) + {#unat (sq_cid e)#} \<and>
    completed (queue_pair s') = completed (queue_pair s) \<and> bench_inv ops R s'"
proof -
  note I = bench_invD [OF inv]
  let ?q = "queue_pair s"
  have rings: "ring_wf (sq ?q)" "length (clients s) \<le> ring_room (sq ?q)"
    "TOTAL_OPS + size (submitting s) < ring_life (sq ?q) + unat (ops_submitted s)"
    using I(3) unfolding bench_rings_def by blast+
  have "waits (clients s ! c) = 0" using c(2) by simp
  from sum_waits_less [OF c(1) this] have "size (queued ?q) < length (clients s)" using in_flight [OF I(4)] by linarith
  then have room: "length (ring_abs (sq ?q)) < ring_room (sq ?q)" using rings(2) by (simp add: queued_def)
  have "0 < ring_life (sq ?q)" using rings(3) submitted_bound [OF inv] by linarith
  from Submit_room [OF rings(1) this room, of e] obtain q where q: "Submit e ?q = Some (True, q)" "ring_wf (sq q)"
    "ring_abs (sq q) = ring_abs (sq ?q) @ [e]" "ring_room (sq q) = ring_room (sq ?q)"
    "ring_life (sq ?q) = Suc (ring_life (sq q))" "cq q = cq ?q" by blast
  define s' where "s' = at_client c (Reaping i) (s\<lparr>queue_pair := q\<rparr>)"
  have step: "client_step ops offset now c s = Some s'" using c(2) q(1) by (simp add: client_step_def s'_def)
  have eq: "clients s' = (clients s)[c := Reaping i]" "queue_pair s' = q" "controller s' = controller s"
    "workers s' = workers s" "ops_reaped s' = ops_reaped s" "backend_active s' = backend_active s"
    "memory s' = memory s" "latencies s' = latencies s" "submit_times s' = submit_times s" "ops_submitted s' = ops_submitted s"
    by (simp_all add: s'_def at_client_def)
  note sums = client_sums [OF c(1), of ops "Reaping i", unfolded c(2)]
  have sub: "submitting s = submitting s' + {#unat (sq_cid e)#}" using client_submitting [OF c(1) eq(1)] c(2) by simp
  have serv: "serving s' = serving s" by (simp add: serving_def eq)
  have qs: "queued q = queued ?q + {#unat (sq_cid e)#}" "completed q = completed ?q"
    using q(3,6) by (simp_all add: queued_def completed_def)
  have "entry_ok (capacity (controller s)) e" using I(2) nth_mem [OF c(1)] c(2) unfolding bench_entries_def by auto
  then have "bench_entries s'" using I(2) q(3) unfolding bench_entries_def eq by (auto dest: client_set)
  moreover have "bench_static ops s'" using I(1) unfolding bench_static_def eq by simp
  moreover have "bench_rings R s'" using I(3) sub q(2,4,5,6) qs unfolding bench_rings_def eq by simp
  moreover have "bench_counts ops R s'"
  proof -
    have "i < ops" using bench_countsD(5) [OF I(4) nth_mem [OF c(1)]] c(2) by simp
    then show ?thesis
      using bench_countsD [OF I(4)] sums sub serv qs unfolding bench_counts_def eq by (auto dest: client_set)
  qed
  moreover have "bench_stop s'"
    using I(5) still_active [OF I(5) c(1)] c(2) unfolding bench_stop_def eq by simp
  ultimately show ?thesis using step eq q(1) qs by (auto simp: bench_inv_def)
qed

lemma reap_step:
  assumes inv: "bench_inv ops R s" and c: "c < length (clients s)" "clients s ! c = Reaping i"
  shows "\<exists>s'. client_step ops offset now c s = Some s' \<and> bench_inv ops (R @ reaped_cid c s s') s' \<and> workers s' = workers s \<and>
    (if completed (queue_pair s) = {#} then s' = s
     else \<exists>e. clients s' = (clients s)[c := Recording i e] \<and> queued (queue_pair s') = queued (queue_pair s) \<and>
       completed (queue_pair s) = completed (queue_pair s') + {#unat (cq_cid e)#})"
proof -
  note I = bench_invD [OF inv]
  let ?q = "queue_pair s"
  have "ring_wf (cq ?q)" using I(3) by (simp add: bench_rings_def)
  from Reap_total [OF this] obtain r q where q: "Reap ?q = Some (r, q)" "ring_wf (cq q)" "ring_room (cq q) = ring_room (cq ?q)"
    "ring_life (cq q) = ring_life (cq ?q)" "sq q = sq ?q"
    "case r of None \<Rightarrow> ring_abs (cq ?q) = [] \<and> q = ?q | Some e \<Rightarrow> ring_abs (cq ?q) = e # ring_abs (cq q)" by blast
  show ?thesis
  proof (cases r)
    case None
    then have "client_step ops offset now c s = Some s" "completed ?q = {#}"
      using c(2) q(1,6) list_update_id [of "clients s" c] by (simp_all add: client_step_def at_client_def completed_def)
    moreover have "reaped_cid c s s = []" using c(2) by (simp add: reaped_cid_def)
    ultimately show ?thesis using inv by simp
  next
    case (Some e)
    define s' where "s' = at_client c (Recording i e) (s\<lparr>queue_pair := q\<rparr>)"
    have step: "client_step ops offset now c s = Some s'" using c(2) q(1) Some by (simp add: client_step_def s'_def)
    have eq: "clients s' = (clients s)[c := Recording i e]" "queue_pair s' = q" "controller s' = controller s"
      "workers s' = workers s" "ops_reaped s' = ops_reaped s" "backend_active s' = backend_active s"
      "memory s' = memory s" "latencies s' = latencies s" "submit_times s' = submit_times s" "ops_submitted s' = ops_submitted s"
      by (simp_all add: s'_def at_client_def)
    note sums = client_sums [OF c(1), of ops "Recording i e", unfolded c(2)]
    have sub: "submitting s' = submitting s" using client_submitting [OF c(1) eq(1)] c(2) by simp
    have serv: "serving s' = serving s" by (simp add: serving_def eq)
    have qs: "queued q = queued ?q" "completed ?q = completed q + {#unat (cq_cid e)#}"
      using q(5,6) Some by (simp_all add: queued_def completed_def)
    have got: "reaped_cid c s s' = [unat (cq_cid e)]" using c by (simp add: reaped_cid_def eq)
    have "bench_entries s'" using I(2) q(5) unfolding bench_entries_def eq by (auto dest: client_set)
    moreover have "bench_static ops s'" using I(1) unfolding bench_static_def eq by simp
    moreover have "bench_rings (R @ [unat (cq_cid e)]) s'"
      using I(3) sub q(2-5) qs unfolding bench_rings_def eq by simp
    moreover have "bench_counts ops (R @ [unat (cq_cid e)]) s'"
    proof -
      have "i < ops" using bench_countsD(5) [OF I(4) nth_mem [OF c(1)]] c(2) by simp
      then show ?thesis
        using bench_countsD [OF I(4)] sums sub serv qs unfolding bench_counts_def eq by (auto dest: client_set)
    qed
    moreover have "bench_stop s'"
      using I(5) still_active [OF I(5) c(1)] c(2) unfolding bench_stop_def eq by simp
    ultimately show ?thesis using step eq got qs by (auto simp: bench_inv_def)
  qed
qed

lemma record_step:
  assumes inv: "bench_inv ops R s" and c: "c < length (clients s)" "clients s ! c = Recording i e"
  shows "\<exists>s'. client_step ops offset now c s = Some s' \<and> clients s' = (clients s)[c := ClientLoop (Suc i)] \<and>
    workers s' = workers s \<and> queue_pair s' = queue_pair s \<and> bench_inv ops R s'"
proof -
  note I = bench_invD [OF inv]
  let ?k = "unat (cq_cid e)"
  have len: "length (latencies s) = TOTAL_OPS" "length (submit_times s) = TOTAL_OPS" using I(1) by (simp_all add: bench_static_def)
  define ls where "ls = (if ?k < TOTAL_OPS then (latencies s)[?k := (if submit_times s ! ?k \<le> now then now - submit_times s ! ?k else 50)]
    else latencies s)"
  define s' where "s' = at_client c (ClientLoop (Suc i)) (s\<lparr>latencies := ls, ops_reaped := ops_reaped s + 1\<rparr>)"
  have step: "client_step ops offset now c s = Some s'"
    using c(2) len by (simp add: client_step_def s'_def ls_def rd_def wr_def)
  have eq: "clients s' = (clients s)[c := ClientLoop (Suc i)]" "queue_pair s' = queue_pair s" "controller s' = controller s"
    "workers s' = workers s" "ops_reaped s' = ops_reaped s + 1" "backend_active s' = backend_active s"
    "memory s' = memory s" "length (latencies s') = length (latencies s)" "submit_times s' = submit_times s" "ops_submitted s' = ops_submitted s"
    by (simp_all add: s'_def at_client_def ls_def)
  note sums = client_sums [OF c(1), of ops "ClientLoop (Suc i)", unfolded c(2)]
  have sub: "submitting s' = submitting s" using client_submitting [OF c(1) eq(1)] c(2) by simp
  have serv: "serving s' = serving s" by (simp add: serving_def eq)
  have "sum_list (map (recorded ops) cs) \<le> sum_list (map (issued ops) cs)" for cs
  proof (induction cs)
    case (Cons x xs)
    then show ?case by (cases x) simp_all
  qed simp
  then have "unat (ops_reaped s) \<le> TOTAL_OPS"
    using bench_countsD(2,3) [OF I(4)] submitted_bound [OF inv] order.trans by metis
  then have n: "unat (ops_reaped s + 1) = unat (ops_reaped s) + 1" by (rule bump_counter)
  have i: "i < ops" using bench_countsD(5) [OF I(4) nth_mem [OF c(1)]] c(2) by simp
  have active: "backend_active s" using still_active [OF I(5) c(1)] c(2) by simp
  have "bench_entries s'" using I(2) unfolding bench_entries_def eq by (auto dest: client_set)
  moreover have "bench_static ops s'" using I(1) unfolding bench_static_def eq by simp
  moreover have "bench_rings R s'" using I(3) sub unfolding bench_rings_def eq by simp
  moreover have "bench_counts ops R s'"
    using bench_countsD [OF I(4)] sums sub serv n i unfolding bench_counts_def eq by (auto dest: client_set)
  moreover have "bench_stop s'" using I(5) active unfolding bench_stop_def eq by simp
  ultimately show ?thesis using step eq by (auto simp: bench_inv_def)
qed

section \<open>The steps of a worker\<close>

lemma worker_serving:
  assumes "w < length (workers s)" "workers s' = (workers s)[w := u]"
  shows "serving s' + serving_ids (worker_at (workers s ! w)) = serving s + serving_ids (worker_at u)"
  using assms sum_list_swap [of w "workers s" "\<lambda>w. serving_ids (worker_at w)" u] by (simp add: serving_def)

lemma worker_set: "x \<in> set ((workers s)[w := u]) \<Longrightarrow> x = u \<or> x \<in> set (workers s)"
  using set_update_subset_insert [of "workers s" w u] by blast

text \<open>A step that moves one worker, leaves the clients and the counters alone and keeps the identifiers together.\<close>

lemma worker_move:
  assumes inv: "bench_inv ops R s" and w: "w < length (workers s)"
    and eq: "clients s' = clients s" "workers s' = (workers s)[w := u]" "ops_reaped s' = ops_reaped s" "ops_submitted s' = ops_submitted s"
      "backend_active s' = backend_active s" "latencies s' = latencies s" "submit_times s' = submit_times s"
      "memory s' = memory s" "capacity (controller s') = capacity (controller s)" "ctrl_safe False (controller s')"
    and rings: "bench_rings R s'"
    and ids: "completed (queue_pair s') + serving s' + queued (queue_pair s') =
      completed (queue_pair s) + serving s + queued (queue_pair s)"
    and entries: "set (ring_abs (sq (queue_pair s'))) \<subseteq> set (ring_abs (sq (queue_pair s)))"
      "\<And>e. worker_at u = Serving e \<Longrightarrow> entry_ok (capacity (controller s)) e"
    and stop: "worker_at u = WorkerDone \<Longrightarrow> \<not> backend_active s \<and> TOTAL_OPS \<le> unat (ops_reaped s)"
  shows "bench_inv ops R s'"
proof -
  note I = bench_invD [OF inv]
  have sub: "submitting s' = submitting s" by (simp add: submitting_def eq)
  have "bench_entries s'" using I(2) entries unfolding bench_entries_def eq by (auto dest: worker_set)
  moreover have "bench_static ops s'" using I(1) eq(10) unfolding bench_static_def eq by simp
  moreover have "bench_counts ops R s'"
  proof -
    have "mset R + completed (queue_pair s') + serving s' + queued (queue_pair s') + submitting s' =
      mset R + (completed (queue_pair s') + serving s' + queued (queue_pair s')) + submitting s'" by (simp add: ac_simps)
    also have "\<dots> = mset R + completed (queue_pair s) + serving s + queued (queue_pair s) + submitting s"
      unfolding ids sub by (simp add: ac_simps)
    finally show ?thesis using I(4) unfolding bench_counts_def eq by simp
  qed
  moreover have "bench_stop s'" using I(5) stop unfolding bench_stop_def eq by (auto dest: worker_set)
  ultimately show ?thesis using rings by (simp add: bench_inv_def)
qed

lemma test_step:
  assumes inv: "bench_inv ops R s" and w: "w < length (workers s)" "worker_at (workers s ! w) = Testing"
  shows "\<exists>s'. worker_step w s = Some s' \<and> bench_inv ops R s' \<and> clients s' = clients s \<and> queue_pair s' = queue_pair s \<and>
    backend_active s' = backend_active s \<and> workers s' = (workers s)[w := (workers s ! w)\<lparr>worker_at :=
      if backend_active s \<or> unat (ops_reaped s) < TOTAL_OPS then Polling else WorkerDone\<rparr>]"
proof -
  note I = bench_invD [OF inv]
  define pc where "pc = (if backend_active s \<or> unat (ops_reaped s) < TOTAL_OPS then Polling else WorkerDone)"
  define s' where "s' = at_worker w pc s"
  have step: "worker_step w s = Some s'" using w(2) by (simp add: worker_step_def s'_def pc_def)
  have ws: "workers s' = (workers s)[w := (workers s ! w)\<lparr>worker_at := pc\<rparr>]" by (simp add: s'_def at_worker_def)
  have pc: "pc \<noteq> Serving e" "pc = WorkerDone \<Longrightarrow> \<not> backend_active s \<and> TOTAL_OPS \<le> unat (ops_reaped s)" "serving_ids pc = {#}" for e
    by (simp_all add: pc_def split: if_splits)
  have "serving s' = serving s" using worker_serving [OF w(1) ws] w(2) pc(3) by simp
  then have "bench_inv ops R s'"
    using I(1,3) pc(1,2) by (intro worker_move [OF inv w(1) _ ws])
      (simp_all add: s'_def at_worker_def bench_static_def bench_rings_def submitting_def)
  then show ?thesis using step ws unfolding pc_def by (auto simp: s'_def at_worker_def)
qed

lemma poll_step:
  assumes inv: "bench_inv ops R s" and w: "w < length (workers s)" "worker_at (workers s ! w) = Polling"
  shows "\<exists>s'. worker_step w s = Some s' \<and> bench_inv ops R s' \<and> clients s' = clients s \<and> backend_active s' = backend_active s \<and>
    completed (queue_pair s') = completed (queue_pair s) \<and>
    (if queued (queue_pair s) = {#} then queued (queue_pair s') = {#} \<and> workers s' = (workers s)[w := (workers s ! w)\<lparr>worker_at := Testing\<rparr>]
     else \<exists>e. workers s' = (workers s)[w := (workers s ! w)\<lparr>worker_at := Serving e\<rparr>] \<and>
       queued (queue_pair s) = queued (queue_pair s') + {#unat (sq_cid e)#})"
proof -
  note I = bench_invD [OF inv]
  let ?q = "queue_pair s"
  have "ring_wf (sq ?q)" using I(3) by (simp add: bench_rings_def)
  from PopRequest_total [OF this] obtain r q where q: "PopRequest ?q = Some (r, q)" "ring_wf (sq q)"
    "ring_room (sq q) = ring_room (sq ?q)" "ring_life (sq q) = ring_life (sq ?q)" "cq q = cq ?q"
    "case r of None \<Rightarrow> ring_abs (sq ?q) = [] \<and> q = ?q | Some e \<Rightarrow> ring_abs (sq ?q) = e # ring_abs (sq q)" by blast
  define pc where "pc = (case r of None \<Rightarrow> Testing | Some e \<Rightarrow> Serving e)"
  define s' where "s' = at_worker w pc (s\<lparr>queue_pair := q\<rparr>)"
  have step: "worker_step w s = Some s'" using w(2) q(1) by (simp add: worker_step_def s'_def pc_def)
  have ws: "workers s' = (workers s)[w := (workers s ! w)\<lparr>worker_at := pc\<rparr>]" by (simp add: s'_def at_worker_def)
  have qs: "queued ?q = queued q + serving_ids pc" "completed q = completed ?q"
    using q(5,6) by (auto simp: queued_def completed_def pc_def split: option.splits)
  have serv: "serving s' = serving s + serving_ids pc" using worker_serving [OF w(1) ws] w(2) by simp
  have "bench_rings R s'" using I(3) q(2-5) qs by (simp add: s'_def at_worker_def bench_rings_def submitting_def)
  moreover have "entry_ok (capacity (controller s)) e" if "pc = Serving e" for e
    using that q(6) I(2) by (auto simp: pc_def bench_entries_def split: option.splits)
  moreover have "set (ring_abs (sq q)) \<subseteq> set (ring_abs (sq ?q))" using q(6) by (auto split: option.splits)
  moreover have "pc \<noteq> WorkerDone" by (simp add: pc_def split: option.splits)
  ultimately have inv': "bench_inv ops R s'"
    using I(1) qs serv by (intro worker_move [OF inv w(1) _ ws]) (simp_all add: s'_def at_worker_def bench_static_def)
  have eq: "queue_pair s' = q" "clients s' = clients s" "backend_active s' = backend_active s" by (simp_all add: s'_def at_worker_def)
  show ?thesis
  proof (cases r)
    case None
    then have "queued ?q = {#}" "q = ?q" using q(6) by (simp_all add: queued_def)
    then show ?thesis using step inv' ws eq None by (simp add: pc_def)
  next
    case (Some e)
    then have "queued ?q = queued q + {#unat (sq_cid e)#}" using qs by (simp add: pc_def)
    moreover from this have "queued ?q \<noteq> {#}" by simp
    ultimately show ?thesis using step inv' ws eq qs(2) Some unfolding pc_def by auto
  qed
qed

lemma serve_step:
  assumes inv: "bench_inv ops R s" and w: "w < length (workers s)" "worker_at (workers s ! w) = Serving e"
  shows "\<exists>s' sd. worker_step w s = Some s' \<and> bench_inv ops R s' \<and> clients s' = clients s \<and> queue_pair s' = queue_pair s \<and>
    backend_active s' = backend_active s \<and>
    workers s' = (workers s)[w := \<lparr>worker_at = Completing \<lparr>cq_cid = sq_cid e, cq_status = 0\<rparr>, worker_seed = sd\<rparr>]"
proof -
  note I = bench_invD [OF inv]
  have e: "entry_ok (capacity (controller s)) e" using I(2) nth_mem [OF w(1)] w(2) unfolding bench_entries_def by blast
  obtain buf where buf: "memory s io_buf = Some buf" "length buf = 4096" using I(1) unfolding bench_static_def by blast
  let ?c = "(controller s)\<lparr>g_seed := worker_seed (workers s ! w)\<rparr>"
  have "ctrl_safe False ?c" using I(1) by (simp add: bench_static_def ctrl_safe_def)
  moreover have "memory s (sq_buffer e) = Some b \<Longrightarrow> sq_size e \<le> length b" for b using e buf by (simp add: entry_ok_def)
  ultimately obtain ok c1 where c1: "Write ?c (unat (sq_offset e)) (memory s (sq_buffer e)) (sq_size e) = Some (ok, c1)"
    "ctrl_safe False c1" "capacity c1 = capacity (controller s)"
    using Write_safe [of False ?c "memory s (sq_buffer e)" "sq_size e" "unat (sq_offset e)"] by auto
  define u where "u = \<lparr>worker_at = Completing \<lparr>cq_cid = sq_cid e, cq_status = 0\<rparr>, worker_seed = g_seed c1\<rparr>"
  define s' where "s' = s\<lparr>controller := c1, memory := memory s, workers := (workers s)[w := u]\<rparr>"
  have step: "worker_step w s = Some s'" using w(2) e c1(1) by (simp add: worker_step_def s'_def u_def entry_ok_def)
  have ws: "workers s' = (workers s)[w := u]" by (simp add: s'_def)
  have "serving s' = serving s" using worker_serving [OF w(1) ws] w(2) by (simp add: u_def)
  then have "bench_inv ops R s'"
    using I(3) c1(2,3) by (intro worker_move [OF inv w(1) _ ws])
      (simp_all add: s'_def u_def bench_rings_def submitting_def)
  then show ?thesis using step ws by (auto simp: s'_def u_def)
qed

lemma serving_member:
  assumes "w < length (workers s)"
  shows "size (serving_ids (worker_at (workers s ! w))) \<le> size (serving s)"
proof -
  let ?s = "s\<lparr>workers := (workers s)[w := (workers s ! w)\<lparr>worker_at := Testing\<rparr>]\<rparr>"
  have "serving ?s + serving_ids (worker_at (workers s ! w)) = serving s"
    using worker_serving [OF assms, of ?s "(workers s ! w)\<lparr>worker_at := Testing\<rparr>"] by simp
  then have "size (serving s) = size (serving ?s) + size (serving_ids (worker_at (workers s ! w)))" by (metis size_union)
  then show ?thesis by simp
qed

lemma complete_step:
  assumes inv: "bench_inv ops R s" and w: "w < length (workers s)" "worker_at (workers s ! w) = Completing e"
  shows "\<exists>s' q. CompleteRequest e (queue_pair s) = Some (True, q) \<and> worker_step w s = Some s' \<and> bench_inv ops R s' \<and>
    clients s' = clients s \<and> backend_active s' = backend_active s \<and> queued (queue_pair s') = queued (queue_pair s) \<and>
    completed (queue_pair s') = completed (queue_pair s) + {#unat (cq_cid e)#} \<and>
    workers s' = (workers s)[w := (workers s ! w)\<lparr>worker_at := Testing\<rparr>]"
proof -
  note I = bench_invD [OF inv]
  let ?q = "queue_pair s"
  have rings: "ring_wf (cq ?q)" "length (clients s) \<le> ring_room (cq ?q)"
    "TOTAL_OPS < ring_life (cq ?q) + length R + size (completed ?q)"
    using I(3) unfolding bench_rings_def by blast+
  have one: "1 \<le> size (serving s)" using serving_member [OF w(1)] w(2) by simp
  have fl: "size (completed ?q) + size (serving s) + size (queued ?q) \<le> length (clients s)"
    using in_flight [OF I(4)] sum_waits_bound [of "clients s"] by simp
  then have "length (ring_abs (cq ?q)) < ring_room (cq ?q)" using one rings(2) by (simp add: completed_def)
  moreover have "size (mset R + completed ?q + serving s + queued ?q + submitting s) = unat (ops_submitted s)"
    unfolding bench_countsD(1) [OF I(4)] by simp
  then have "length R + size (completed ?q) \<le> TOTAL_OPS" using submitted_bound [OF inv] by simp
  then have "0 < ring_life (cq ?q)" using rings(3) by linarith
  ultimately obtain q where q: "CompleteRequest e ?q = Some (True, q)" "ring_wf (cq q)" "ring_abs (cq q) = ring_abs (cq ?q) @ [e]"
    "ring_room (cq q) = ring_room (cq ?q)" "ring_life (cq ?q) = Suc (ring_life (cq q))" "sq q = sq ?q"
    using CompleteRequest_room [OF rings(1), of e] by blast
  define s' where "s' = at_worker w Testing (s\<lparr>queue_pair := q\<rparr>)"
  have step: "worker_step w s = Some s'" using w(2) q(1) by (simp add: worker_step_def s'_def)
  have ws: "workers s' = (workers s)[w := (workers s ! w)\<lparr>worker_at := Testing\<rparr>]" by (simp add: s'_def at_worker_def)
  have qs: "queued q = queued ?q" "completed q = completed ?q + {#unat (cq_cid e)#}"
    using q(3,6) by (simp_all add: queued_def completed_def)
  have serv: "serving s = serving s' + {#unat (cq_cid e)#}" using worker_serving [OF w(1) ws] w(2) by simp
  have "bench_rings R s'" using I(3) q(2-6) qs by (simp add: s'_def at_worker_def bench_rings_def submitting_def)
  then have "bench_inv ops R s'"
    using I(1) qs serv q(6) by (intro worker_move [OF inv w(1) _ ws]) (simp_all add: s'_def at_worker_def bench_static_def)
  then show ?thesis using step ws q(1) qs by (auto simp: s'_def at_worker_def)
qed

section \<open>Runs\<close>

lemma client_step_inv:
  assumes inv: "bench_inv ops R s" and c: "c < length (clients s)" "unat offset \<le> capacity (controller s) - 4096"
    and step: "client_step ops offset now c s = Some s'"
  shows "bench_inv ops (R @ reaped_cid c s s') s'"
proof (cases "clients s ! c")
  case (ClientLoop i)
  then have "reaped_cid c s s' = []" by (simp add: reaped_cid_def)
  moreover have "bench_inv ops R s'"
    using issue_step [OF inv c(1) ClientLoop _ c(2), of now] exit_step [OF inv c(1) ClientLoop, of offset now] step
    by (cases "i < ops") auto
  ultimately show ?thesis by simp
next
  case (Submitting i e)
  then have "reaped_cid c s s' = []" by (simp add: reaped_cid_def)
  then show ?thesis using submit_step [OF inv c(1) Submitting, of offset now] step by auto
next
  case (Reaping i)
  then show ?thesis using reap_step [OF inv c(1) Reaping, of offset now] step by auto
next
  case (Recording i e)
  then have "reaped_cid c s s' = []" by (simp add: reaped_cid_def)
  then show ?thesis using record_step [OF inv c(1) Recording, of offset now] step by auto
next
  case ClientDone
  then show ?thesis using step by (simp add: client_step_def)
qed

lemma worker_step_inv:
  assumes inv: "bench_inv ops R s" and w: "w < length (workers s)" and step: "worker_step w s = Some s'"
  shows "bench_inv ops R s'"
proof (cases "worker_at (workers s ! w)")
  case Testing
  then show ?thesis using test_step [OF inv w Testing] step by auto
next
  case Polling
  then show ?thesis using poll_step [OF inv w Polling] step by auto
next
  case (Serving e)
  then show ?thesis using serve_step [OF inv w Serving] step by auto
next
  case (Completing e)
  then show ?thesis using complete_step [OF inv w Completing] step by auto
next
  case WorkerDone
  then show ?thesis using step by (simp add: worker_step_def)
qed

lemma join_inv:
  assumes "bench_inv ops R s" "\<forall>pc \<in> set (clients s). pc = ClientDone"
  shows "bench_inv ops R (s\<lparr>backend_active := False\<rparr>)"
proof -
  note I = bench_invD [OF assms(1)]
  have "bench_stop (s\<lparr>backend_active := False\<rparr>)" using I(5) assms(2) unfolding bench_stop_def by simp
  then show ?thesis
    using I by (simp add: bench_inv_def bench_static_def bench_entries_def bench_rings_def bench_counts_def submitting_def serving_def)
qed

lemma bench_step_inv:
  assumes "bench_step ops s ev s'" "bench_inv ops R s"
  shows "bench_inv ops (R @ ev) s'"
  using assms
proof (cases rule: bench_step.cases)
  case (client c offset now)
  then show ?thesis using client_step_inv [OF assms(2)] by simp
next
  case (worker w)
  then show ?thesis using worker_step_inv [OF assms(2)] by simp
next
  case join
  then show ?thesis using join_inv [OF assms(2)] by simp
qed

lemma bench_run_inv: "bench_run ops s0 tr s \<Longrightarrow> bench_inv ops [] s0 \<Longrightarrow> bench_inv ops tr s"
  by (induction rule: bench_run.induct) (auto dest: bench_step_inv)

lemma sum_list_empty [simp]: "sum_list (replicate n {#}) = {#}"
  by (induction n) simp_all

lemma new_bench_inv:
  assumes "1 \<le> unat qd" "unat qd \<le> 2 ^ 62" "ctrl_safe False ctrl" "4096 \<le> capacity ctrl"
  shows "\<exists>s. new_bench qd threads ctrl = Some s \<and> bench_inv (ops_per_client (unat qd)) [] s \<and>
    clients s = replicate (num_clients (unat qd)) (ClientLoop 0) \<and> length (workers s) = max 1 threads"
proof -
  let ?e = "\<lparr>opcode = 0, sq_offset = 0, sq_buffer = 0, sq_size = 0, sq_cid = 0\<rparr>" and ?d = "\<lparr>cq_cid = 0, cq_status = 0\<rparr>"
  let ?n = "num_clients (unat qd)" and ?ops = "ops_per_client (unat qd)"
  obtain r1 where r1: "LockFreeRingBuffer ?e qd = Some r1" "ring_wf r1" "ring_abs r1 = []" "unat qd \<le> ring_room r1"
    "2 ^ 62 - 1 \<le> ring_life r1" using ring_new_wf [OF assms(1,2), of ?e] by blast
  obtain r2 where r2: "LockFreeRingBuffer ?d qd = Some r2" "ring_wf r2" "ring_abs r2 = []" "unat qd \<le> ring_room r2"
    "2 ^ 62 - 1 \<le> ring_life r2" using ring_new_wf [OF assms(1,2), of ?d] by blast
  define s where "s = \<lparr>queue_pair = \<lparr>sq = r1, cq = r2\<rparr>, controller = ctrl, ops_submitted = 0, ops_reaped = 0, backend_active = True,
           latencies = replicate TOTAL_OPS 0, submit_times = replicate TOTAL_OPS 0,
           memory = [io_buf \<mapsto> replicate 4096 0x99], clients = replicate ?n (ClientLoop 0),
           workers = replicate (max 1 threads) \<lparr>worker_at = Testing, worker_seed = 1337\<rparr>\<rparr>"
  have new: "new_bench qd threads ctrl = Some s"
    using r1(1) r2(1) by (simp add: new_bench_def NewQueuePair_def s_def)
  have n: "0 < ?n" "?n \<le> unat qd" "?n * ?ops \<le> TOTAL_OPS" using assms(1) by (auto simp: num_clients_def ops_per_client_def)
  have big: "TOTAL_OPS < 2 ^ 62 - 1" by (simp add: TOTAL_OPS_def)
  have sums: "submitting s = {#}" "serving s = {#}" "queued (queue_pair s) = {#}" "completed (queue_pair s) = {#}"
    using r1(3) r2(3) by (simp_all add: s_def submitting_def serving_def queued_def completed_def sum_list_replicate)
  have "bench_static ?ops s" using assms(3,4) n by (simp add: bench_static_def s_def)
  moreover have "bench_entries s" using r1(3) by (simp add: bench_entries_def s_def)
  moreover have "bench_rings [] s" unfolding bench_rings_def sums using r1 r2 n(2) big by (simp add: s_def)
  moreover have "bench_counts ?ops [] s" unfolding bench_counts_def sums by (simp add: s_def sum_list_replicate)
  moreover have "bench_stop s" by (simp add: bench_stop_def s_def)
  ultimately have "bench_inv ?ops [] s" by (simp add: bench_inv_def)
  then show ?thesis using new by (auto simp: s_def)
qed

end
