(* ===== verification/Nvme_Progress.thy ===== *)
theory Nvme_Progress
  imports Nvme_Bench
begin

text \<open>
  The queue-depth benchmark comes to its end: from every reachable state there is a way to the state in which all
  threads have ended, when the clients' shares add up to the number of operations, and none when they do not.
  The weight of a state counts the steps that are left; it goes down with each step that does work.
\<close>

section \<open>The weight of a state\<close>

fun client_weight :: "nat \<Rightarrow> client \<Rightarrow> nat" where
  "client_weight ops (ClientLoop i) = Suc (8 * (ops - i))"
| "client_weight ops (Submitting i e) = 8 * (ops - i)"
| "client_weight ops (Reaping i) = 8 * (ops - i) - 5"
| "client_weight ops (Recording i e) = 8 * (ops - i) - 6"
| "client_weight ops ClientDone = 0"

fun worker_weight :: "worker_pc \<Rightarrow> nat" where
  "worker_weight Testing = 1"
| "worker_weight Polling = 1"
| "worker_weight (Serving e) = 4"
| "worker_weight (Completing e) = 3"
| "worker_weight WorkerDone = 0"

definition weight :: "nat \<Rightarrow> bench \<Rightarrow> nat" where
  "weight ops s = sum_list (map (client_weight ops) (clients s)) + sum_list (map (\<lambda>w. worker_weight (worker_at w)) (workers s)) +
     4 * size (queued (queue_pair s)) + size (completed (queue_pair s)) + (if backend_active s then 1 else 0)"

definition all_ended :: "bench \<Rightarrow> bool" where
  "all_ended s \<longleftrightarrow> (\<forall>pc \<in> set (clients s). pc = ClientDone) \<and> (\<forall>w \<in> set (workers s). worker_at w = WorkerDone)"

lemma client_weight_update:
  assumes "c < length (clients s)" "clients s' = (clients s)[c := pc]"
  shows "sum_list (map (client_weight ops) (clients s')) + client_weight ops (clients s ! c) =
    sum_list (map (client_weight ops) (clients s)) + client_weight ops pc"
  using assms by (simp add: sum_list_swap)

lemma worker_weight_update:
  assumes "w < length (workers s)" "workers s' = (workers s)[w := u]"
  shows "sum_list (map (\<lambda>w. worker_weight (worker_at w)) (workers s')) + worker_weight (worker_at (workers s ! w)) =
    sum_list (map (\<lambda>w. worker_weight (worker_at w)) (workers s)) + worker_weight (worker_at u)"
  using assms sum_list_swap [of w "workers s" "\<lambda>w. worker_weight (worker_at w)" u] by simp

text \<open>A sequence of steps, whatever it reaps.\<close>

definition bench_reaches :: "nat \<Rightarrow> bench \<Rightarrow> bench \<Rightarrow> bool" where
  "bench_reaches ops s s' \<longleftrightarrow> (\<exists>tr. bench_run ops s tr s')"

lemma reaches_trans: "bench_run ops s tr' s' \<Longrightarrow> bench_run ops s0 tr s \<Longrightarrow> bench_run ops s0 (tr @ tr') s'"
proof (induction rule: bench_run.induct)
  case (bench_more tr' s1 ev s2)
  then show ?case using bench_run.bench_more [of ops s0 "tr @ tr'" s1 ev s2] by simp
qed simp

lemma one_step: "bench_step ops s ev s' \<Longrightarrow> bench_reaches ops s s'"
  unfolding bench_reaches_def using bench_run.bench_more [OF bench_run.bench_start] by fastforce

lemma bench_reaches_trans: "bench_reaches ops s t \<Longrightarrow> bench_reaches ops t u \<Longrightarrow> bench_reaches ops s u"
  unfolding bench_reaches_def by (blast intro: reaches_trans)

lemma reaches_inv: "bench_reaches ops s s' \<Longrightarrow> bench_inv ops R s \<Longrightarrow> \<exists>R'. bench_inv ops R' s'"
proof -
  have "bench_run ops s tr s' \<Longrightarrow> bench_inv ops R s \<Longrightarrow> \<exists>R'. bench_inv ops R' s'" for tr
    by (induction rule: bench_run.induct) (blast dest: bench_step_inv)+
  then show "bench_reaches ops s s' \<Longrightarrow> bench_inv ops R s \<Longrightarrow> \<exists>R'. bench_inv ops R' s'"
    unfolding bench_reaches_def by blast
qed

text \<open>A step changes neither the number of clients nor that of workers.\<close>

lemma client_step_frame: "client_step ops offset now c s = Some s' \<Longrightarrow> length (clients s') = length (clients s) \<and> length (workers s') = length (workers s)"
  by (auto simp: client_step_def at_client_def Let_def split: client.splits if_splits Option.bind_splits)

lemma worker_step_frame: "worker_step w s = Some s' \<Longrightarrow> length (clients s') = length (clients s) \<and> length (workers s') = length (workers s)"
  by (auto simp: worker_step_def at_worker_def Let_def split: worker_pc.splits if_splits Option.bind_splits)

lemma bench_step_frame: "bench_step ops s ev s' \<Longrightarrow> length (clients s') = length (clients s) \<and> length (workers s') = length (workers s)"
  by (erule bench_step.cases) (auto dest: client_step_frame worker_step_frame)

lemma bench_run_frame: "bench_run ops s tr s' \<Longrightarrow> length (clients s') = length (clients s) \<and> length (workers s') = length (workers s)"
  by (induction rule: bench_run.induct) (auto dest: bench_step_frame)

section \<open>Steps that do work\<close>

lemma client_works:
  assumes inv: "bench_inv ops R s" and c: "c < length (clients s)" "clients s ! c \<noteq> ClientDone"
    and off: "unat offset \<le> capacity (controller s) - 4096"
    and busy: "\<And>i. clients s ! c = Reaping i \<Longrightarrow> completed (queue_pair s) \<noteq> {#}"
  shows "\<exists>s'. client_step ops offset now c s = Some s' \<and> weight ops s' < weight ops s"
proof -
  note I = bench_invD [OF inv]
  note ok = bench_countsD(5) [OF I(4) nth_mem [OF c(1)]]
  have smaller: "weight ops s' < weight ops s"
    if "clients s' = (clients s)[c := pc]" "workers s' = workers s" "backend_active s' = backend_active s"
      "client_weight ops pc + 4 * size (queued (queue_pair s')) + size (completed (queue_pair s')) <
       client_weight ops (clients s ! c) + 4 * size (queued (queue_pair s)) + size (completed (queue_pair s))" for s' pc
    using client_weight_update [OF c(1) that(1), of ops] that by (simp add: weight_def)
  have active: "backend_active s' = backend_active s" if "client_step ops offset now c s = Some s'" for s'
    using that by (auto simp: client_step_def at_client_def Let_def split: client.splits if_splits Option.bind_splits)
  have ws: "workers s' = workers s" if "client_step ops offset now c s = Some s'" for s'
    using that by (auto simp: client_step_def at_client_def Let_def split: client.splits if_splits Option.bind_splits)
  show ?thesis
  proof (cases "clients s ! c")
    case (ClientLoop i)
    have qp: "queue_pair s' = queue_pair s" if "client_step ops offset now c s = Some s'" for s'
      using that ClientLoop by (auto simp: client_step_def at_client_def Let_def split: if_splits Option.bind_splits)
    show ?thesis
    proof (cases "i < ops")
      case True
      obtain s' e where s': "client_step ops offset now c s = Some s'" "clients s' = (clients s)[c := Submitting i e]"
        using issue_step [OF inv c(1) ClientLoop True off, of now] by auto
      show ?thesis using s'(1) smaller [OF s'(2) ws [OF s'(1)] active [OF s'(1)]] ClientLoop qp [OF s'(1)] by auto
    next
      case False
      obtain s' where s': "client_step ops offset now c s = Some s'" "clients s' = (clients s)[c := ClientDone]"
        using exit_step [OF inv c(1) ClientLoop False, of offset now] by auto
      show ?thesis using s'(1) smaller [OF s'(2) ws [OF s'(1)] active [OF s'(1)]] ClientLoop qp [OF s'(1)] by auto
    qed
  next
    case (Submitting i e)
    obtain s' where s': "client_step ops offset now c s = Some s'" "clients s' = (clients s)[c := Reaping i]"
      "queued (queue_pair s') = queued (queue_pair s) + {#unat (sq_cid e)#}" "completed (queue_pair s') = completed (queue_pair s)"
      using submit_step [OF inv c(1) Submitting, of offset now] by blast
    have "i < ops" using ok Submitting by simp
    then show ?thesis using s'(1) smaller [OF s'(2) ws [OF s'(1)] active [OF s'(1)]] Submitting s'(3,4) by auto
  next
    case (Reaping i)
    obtain s' e where s': "client_step ops offset now c s = Some s'" "clients s' = (clients s)[c := Recording i e]"
      "queued (queue_pair s') = queued (queue_pair s)" "completed (queue_pair s) = completed (queue_pair s') + {#unat (cq_cid e)#}"
      using reap_step [OF inv c(1) Reaping, of offset now] busy [OF Reaping] by auto
    have "i < ops" using ok Reaping by simp
    then show ?thesis using s'(1) smaller [OF s'(2) ws [OF s'(1)] active [OF s'(1)]] Reaping s'(3,4) by auto
  next
    case (Recording i e)
    obtain s' where s': "client_step ops offset now c s = Some s'" "clients s' = (clients s)[c := ClientLoop (Suc i)]"
      "queue_pair s' = queue_pair s"
      using record_step [OF inv c(1) Recording, of offset now] by blast
    have "i < ops" using ok Recording by simp
    then show ?thesis using s'(1) smaller [OF s'(2) ws [OF s'(1)] active [OF s'(1)]] Recording s'(3) by auto
  qed (use c in simp)
qed

lemma worker_serves:
  assumes inv: "bench_inv ops R s" and w: "w < length (workers s)" "serving_ids (worker_at (workers s ! w)) \<noteq> {#}"
  shows "\<exists>s'. worker_step w s = Some s' \<and> weight ops s' < weight ops s"
proof -
  have smaller: "weight ops s' < weight ops s"
    if "clients s' = clients s" "workers s' = (workers s)[w := u]" "backend_active s' = backend_active s"
      "worker_weight (worker_at u) + 4 * size (queued (queue_pair s')) + size (completed (queue_pair s')) <
       worker_weight (worker_at (workers s ! w)) + 4 * size (queued (queue_pair s)) + size (completed (queue_pair s))" for s' u
    using worker_weight_update [OF w(1) that(2)] that by (simp add: weight_def)
  show ?thesis
  proof (cases "worker_at (workers s ! w)")
    case (Serving e)
    obtain s' sd where s': "worker_step w s = Some s'" "clients s' = clients s" "queue_pair s' = queue_pair s"
      "backend_active s' = backend_active s"
      "workers s' = (workers s)[w := \<lparr>worker_at = Completing \<lparr>cq_cid = sq_cid e, cq_status = 0\<rparr>, worker_seed = sd\<rparr>]"
      using serve_step [OF inv w(1) Serving] by blast
    show ?thesis using s'(1) smaller [OF s'(2,5,4)] s'(3) Serving by auto
  next
    case (Completing e)
    obtain s' where s': "worker_step w s = Some s'" "clients s' = clients s" "backend_active s' = backend_active s"
      "queued (queue_pair s') = queued (queue_pair s)" "completed (queue_pair s') = completed (queue_pair s) + {#unat (cq_cid e)#}"
      "workers s' = (workers s)[w := (workers s ! w)\<lparr>worker_at := Testing\<rparr>]"
      using complete_step [OF inv w(1) Completing] by blast
    show ?thesis using s'(1) smaller [OF s'(2,6,3)] s'(4,5) Completing by auto
  qed (use w in simp_all)
qed

lemma worker_takes:
  assumes inv: "bench_inv ops R s" and w: "w < length (workers s)" "worker_at (workers s ! w) = Polling" "queued (queue_pair s) \<noteq> {#}"
  shows "\<exists>s'. worker_step w s = Some s' \<and> weight ops s' < weight ops s"
proof -
  obtain s' e where s': "worker_step w s = Some s'" "clients s' = clients s" "backend_active s' = backend_active s"
    "completed (queue_pair s') = completed (queue_pair s)" "workers s' = (workers s)[w := (workers s ! w)\<lparr>worker_at := Serving e\<rparr>]"
    "queued (queue_pair s) = queued (queue_pair s') + {#unat (sq_cid e)#}"
    using poll_step [OF inv w(1,2)] w(3) by auto
  have "weight ops s' < weight ops s"
    using worker_weight_update [OF w(1) s'(5)] s'(2-4,6) w(2) by (simp add: weight_def)
  then show ?thesis using s'(1) by blast
qed

text \<open>No step makes a state heavier.\<close>

lemma weight_step:
  assumes "bench_step ops s ev s'" "bench_inv ops R s"
  shows "weight ops s' \<le> weight ops s"
  using assms
proof (cases rule: bench_step.cases)
  case (client c offset now)
  show ?thesis
  proof (cases "\<exists>i. clients s ! c = Reaping i \<and> completed (queue_pair s) = {#}")
    case True
    then have "s' = s" using reap_step [OF assms(2) client(2), of _ offset now] client(4) by auto
    then show ?thesis by simp
  next
    case False
    have "clients s ! c \<noteq> ClientDone" using client(4) by (auto simp: client_step_def)
    then show ?thesis using client_works [OF assms(2) client(2) _ client(3), of now] False client(4) by force
  qed
next
  case (worker w)
  have upd: "weight ops s' \<le> weight ops s"
    if "workers s' = (workers s)[w := u]" "clients s' = clients s" "backend_active s' = backend_active s"
      "queued (queue_pair s') = queued (queue_pair s)" "completed (queue_pair s') = completed (queue_pair s)"
      "worker_weight (worker_at u) \<le> worker_weight (worker_at (workers s ! w))" for u
    using worker_weight_update [OF worker(2) that(1)] that by (simp add: weight_def)
  show ?thesis
  proof (cases "worker_at (workers s ! w)")
    case Testing
    then show ?thesis using test_step [OF assms(2) worker(2) Testing] worker(3) upd by (auto split: if_splits)
  next
    case Polling
    then show ?thesis
      using poll_step [OF assms(2) worker(2) Polling] worker_takes [OF assms(2) worker(2) Polling] worker(3) upd
      by (cases "queued (queue_pair s) = {#}") auto
  next
    case (Serving e)
    then show ?thesis using worker_serves [OF assms(2) worker(2)] worker(3) by force
  next
    case (Completing e)
    then show ?thesis using worker_serves [OF assms(2) worker(2)] worker(3) by force
  next
    case WorkerDone
    then show ?thesis using worker(3) by (simp add: worker_step_def)
  qed
next
  case join
  then show ?thesis by (simp add: weight_def)
qed

section \<open>Progress\<close>

lemma worker_reach:
  assumes "w < length (workers s)" "\<exists>s'. worker_step w s = Some s' \<and> weight ops s' < weight ops s"
  shows "\<exists>s'. bench_reaches ops s s' \<and> weight ops s' < weight ops s"
  using assms one_step [OF bench_step.worker [OF assms(1)]] by blast

lemma sum_list_ne:
  "sum_list (map f xs) \<noteq> {#} \<Longrightarrow> \<exists>i < length xs. f (xs ! i) \<noteq> {#}"
proof (induction xs)
  case (Cons x xs)
  show ?case
  proof (cases "f x = {#}")
    case True
    then obtain i where "i < length xs" "f (xs ! i) \<noteq> {#}" using Cons by auto
    then show ?thesis by (intro exI [of _ "Suc i"]) simp
  next
    case False
    then show ?thesis by (intro exI [of _ 0]) simp
  qed
qed simp

text \<open>A worker in its loop takes a waiting request, after at most one test.\<close>

lemma queued_progress:
  assumes inv: "bench_inv ops R s" and active: "backend_active s" and q: "queued (queue_pair s) \<noteq> {#}" and idle: "serving s = {#}"
  shows "\<exists>s'. bench_reaches ops s s' \<and> weight ops s' < weight ops s"
proof -
  note I = bench_invD [OF inv]
  have w: "0 < length (workers s)" using I(1) by (simp add: bench_static_def)
  have "serving_ids (worker_at (workers s ! 0)) = {#}" using serving_member [OF w] idle by simp
  moreover have "worker_at (workers s ! 0) \<noteq> WorkerDone" using I(5) nth_mem [OF w] active unfolding bench_stop_def by blast
  ultimately consider "worker_at (workers s ! 0) = Testing" | "worker_at (workers s ! 0) = Polling"
    by (cases "worker_at (workers s ! 0)") auto
  then show ?thesis
  proof cases
    case 1
    obtain s1 where s1: "worker_step 0 s = Some s1" "bench_inv ops R s1" "clients s1 = clients s" "queue_pair s1 = queue_pair s"
      "backend_active s1 = backend_active s" "workers s1 = (workers s)[0 := (workers s ! 0)\<lparr>worker_at := Polling\<rparr>]"
      using test_step [OF inv w 1] active by auto
    have same: "weight ops s1 = weight ops s"
      using worker_weight_update [OF w s1(6)] s1(3-5) 1 by (simp add: weight_def)
    have "0 < length (workers s1)" "worker_at (workers s1 ! 0) = Polling" "queued (queue_pair s1) \<noteq> {#}" using w s1(4,6) q by simp_all
    from worker_reach [OF this(1) worker_takes [OF s1(2) this]] obtain s2 where
      "bench_reaches ops s1 s2" "weight ops s2 < weight ops s1" by blast
    then show ?thesis using same bench_reaches_trans [OF one_step [OF bench_step.worker [OF w s1(1)]]] by auto
  next
    case 2
    show ?thesis by (rule worker_reach [OF w worker_takes [OF inv w 2 q]])
  qed
qed

text \<open>When all clients have ended, the workers stop one by one.\<close>

lemma worker_ends:
  assumes inv: "bench_inv ops R s" and w: "w < length (workers s)" "worker_at (workers s ! w) = Testing"
    and stop: "\<not> backend_active s" "\<not> unat (ops_reaped s) < TOTAL_OPS"
  shows "\<exists>s'. worker_step w s = Some s' \<and> weight ops s' < weight ops s"
proof -
  obtain s' where s': "worker_step w s = Some s'" "clients s' = clients s" "queue_pair s' = queue_pair s"
    "backend_active s' = backend_active s" "workers s' = (workers s)[w := (workers s ! w)\<lparr>worker_at := WorkerDone\<rparr>]"
    using test_step [OF inv w] stop by auto
  then show ?thesis using worker_weight_update [OF w(1) s'(5)] w(2) by (simp add: weight_def)
qed

lemma stop_progress:
  assumes inv: "bench_inv ops R s" and full: "TOTAL_OPS \<le> length (clients s) * ops"
    and quiet: "\<forall>pc \<in> set (clients s). pc = ClientDone" and more: "\<exists>u \<in> set (workers s). worker_at u \<noteq> WorkerDone"
  shows "\<exists>s'. bench_reaches ops s s' \<and> weight ops s' < weight ops s"
proof (cases "backend_active s")
  case True
  have "weight ops (s\<lparr>backend_active := False\<rparr>) < weight ops s" using True by (simp add: weight_def)
  then show ?thesis using one_step [OF bench_step.join [OF quiet]] by blast
next
  case False
  note I = bench_invD [OF inv]
  have all: "clients s = replicate (length (clients s)) ClientDone" using quiet by (simp add: replicate_length_same)
  have z: "sum_list (map waits (clients s)) = 0" by (subst all) (simp add: sum_list_replicate)
  have "size (completed (queue_pair s)) + size (serving s) + size (queued (queue_pair s)) = 0"
    unfolding in_flight [OF I(4)] by (rule z)
  then have empty: "completed (queue_pair s) = {#}" "serving s = {#}" "queued (queue_pair s) = {#}" by simp_all
  have "unat (ops_reaped s) = length (clients s) * ops"
    unfolding bench_countsD(3) [OF I(4)] by (subst all) (simp add: sum_list_replicate)
  then have done_all: "\<not> unat (ops_reaped s) < TOTAL_OPS" using full by simp
  obtain w where w: "w < length (workers s)" "worker_at (workers s ! w) \<noteq> WorkerDone" using more by (auto simp: in_set_conv_nth)
  have "serving_ids (worker_at (workers s ! w)) = {#}" using serving_member [OF w(1)] empty(2) by simp
  then consider "worker_at (workers s ! w) = Testing" | "worker_at (workers s ! w) = Polling"
    using w(2) by (cases "worker_at (workers s ! w)") auto
  then show ?thesis
  proof cases
    case 1
    show ?thesis by (rule worker_reach [OF w(1) worker_ends [OF inv w(1) 1 False done_all]])
  next
    case 2
    obtain s1 where s1: "worker_step w s = Some s1" "bench_inv ops R s1" "clients s1 = clients s"
      "backend_active s1 = backend_active s" "completed (queue_pair s1) = completed (queue_pair s)"
      "queued (queue_pair s1) = {#}" "workers s1 = (workers s)[w := (workers s ! w)\<lparr>worker_at := Testing\<rparr>]"
      using poll_step [OF inv w(1) 2] empty(3) by auto
    have same: "weight ops s1 = weight ops s"
      using worker_weight_update [OF w(1) s1(7)] s1(3-6) empty(3) 2 by (simp add: weight_def)
    have w1: "w < length (workers s1)" "worker_at (workers s1 ! w) = Testing" using w(1) s1(7) by simp_all
    have "ops_reaped s1 = ops_reaped s"
      using bench_countsD(3) [OF bench_invD(4) [OF s1(2)]] bench_countsD(3) [OF I(4)] s1(3) by (simp add: word_unat_eq_iff)
    then have "\<exists>s2. worker_step w s1 = Some s2 \<and> weight ops s2 < weight ops s1"
      using worker_ends [OF s1(2) w1] False done_all s1(4) by simp
    from worker_reach [OF w1(1) this] obtain s2 where "bench_reaches ops s1 s2" "weight ops s2 < weight ops s1" by blast
    then show ?thesis using same bench_reaches_trans [OF one_step [OF bench_step.worker [OF w(1) s1(1)]]] by auto
  qed
qed

lemma some_progress:
  assumes inv: "bench_inv ops R s" and full: "TOTAL_OPS \<le> length (clients s) * ops" and more: "\<not> all_ended s"
  shows "\<exists>s'. bench_reaches ops s s' \<and> weight ops s' < weight ops s"
proof (cases "\<forall>pc \<in> set (clients s). pc = ClientDone")
  case True
  then show ?thesis using stop_progress [OF inv full] more by (auto simp: all_ended_def)
next
  case False
  then obtain c where c: "c < length (clients s)" "clients s ! c \<noteq> ClientDone" by (auto simp: in_set_conv_nth)
  note I = bench_invD [OF inv]
  have active: "backend_active s" using still_active [OF I(5) c] .
  show ?thesis
  proof (cases "(\<exists>i. clients s ! c = Reaping i) \<and> completed (queue_pair s) = {#}")
    case False
    have "\<exists>s'. client_step ops 0 0 c s = Some s' \<and> weight ops s' < weight ops s"
      by (rule client_works [OF inv c]) (use False in auto)
    then show ?thesis using one_step [OF bench_step.client [OF c(1), of 0]] by fastforce
  next
    case True
    have "sum_list (map waits ((clients s)[c := ClientDone])) + waits (clients s ! c) = sum_list (map waits (clients s)) + waits ClientDone"
      by (rule sum_list_swap [OF c(1)])
    moreover have "waits (clients s ! c) = 1" "waits ClientDone = 0" "size (completed (queue_pair s)) = 0" using True by auto
    ultimately have "size (serving s) + size (queued (queue_pair s)) \<noteq> 0" using in_flight [OF I(4)] by linarith
    then have "serving s \<noteq> {#} \<or> queued (queue_pair s) \<noteq> {#}" by auto
    then show ?thesis
    proof (cases "serving s = {#}")
      case False
      then obtain w where "w < length (workers s)" "serving_ids (worker_at (workers s ! w)) \<noteq> {#}"
        using sum_list_ne [of "\<lambda>w. serving_ids (worker_at w)" "workers s"] by (auto simp: serving_def)
      then show ?thesis using worker_reach worker_serves [OF inv] by blast
    next
      case True
      then show ?thesis using queued_progress [OF inv active] \<open>serving s \<noteq> {#} \<or> queued (queue_pair s) \<noteq> {#}\<close> by blast
    qed
  qed
qed

lemma reaches_frame: "bench_reaches ops s s' \<Longrightarrow> length (clients s') = length (clients s)"
  unfolding bench_reaches_def by (auto dest: bench_run_frame)

lemma can_end:
  "bench_inv ops R s \<Longrightarrow> TOTAL_OPS \<le> length (clients s) * ops \<Longrightarrow> \<exists>s'. bench_reaches ops s s' \<and> all_ended s'"
proof (induction "weight ops s" arbitrary: s R rule: less_induct)
  case less
  show ?case
  proof (cases "all_ended s")
    case True
    then show ?thesis unfolding bench_reaches_def using bench_run.bench_start by blast
  next
    case False
    from some_progress [OF less.prems False] obtain s1 where s1: "bench_reaches ops s s1" "weight ops s1 < weight ops s" by blast
    obtain R1 where R1: "bench_inv ops R1 s1" using reaches_inv [OF s1(1) less.prems(1)] by blast
    have "TOTAL_OPS \<le> length (clients s1) * ops" using less.prems(2) reaches_frame [OF s1(1)] by simp
    from less.hyps [OF s1(2) R1 this] show ?thesis using bench_reaches_trans [OF s1(1)] by blast
  qed
qed

section \<open>The guarantees\<close>

lemma reachable_bench:
  assumes "1 \<le> unat qd" "unat qd \<le> 2 ^ 62" "ctrl_safe False ctrl" "4096 \<le> capacity ctrl" "new_bench qd threads ctrl = Some s0"
    and "bench_run (ops_per_client (unat qd)) s0 tr s"
  shows "bench_inv (ops_per_client (unat qd)) tr s" "length (clients s) = num_clients (unat qd)"
proof -
  obtain s1 where "new_bench qd threads ctrl = Some s1" "bench_inv (ops_per_client (unat qd)) [] s1"
    "clients s1 = replicate (num_clients (unat qd)) (ClientLoop 0)"
    using new_bench_inv [OF assms(1-4), of threads] by blast
  then have "bench_inv (ops_per_client (unat qd)) [] s0" "length (clients s0) = num_clients (unat qd)" using assms(5) by simp_all
  then show "bench_inv (ops_per_client (unat qd)) tr s" "length (clients s) = num_clients (unat qd)"
    using bench_run_inv [OF assms(6)] bench_run_frame [OF assms(6)] by simp_all
qed

lemma shares_add_up: "num_clients n dvd TOTAL_OPS \<Longrightarrow> num_clients n * ops_per_client n = TOTAL_OPS"
  by (simp add: ops_per_client_def)

lemma distinct_submset: "mset xs \<subseteq># mset ys \<Longrightarrow> distinct ys \<Longrightarrow> distinct xs"
proof -
  assume "mset xs \<subseteq># mset ys" "distinct ys"
  then have "count (mset xs) a \<le> 1" for a
    using distinct_count_atmost_1 [of ys] order.trans [OF mset_subset_eq_count [of "mset xs" "mset ys" a]] by auto
  then have "count (mset xs) a = (if a \<in> set xs then 1 else 0)" for a
    using count_mset_0_iff [of xs a] by (cases "a \<in> set xs") (auto simp: le_Suc_eq)
  then show "distinct xs" by (simp add: distinct_count_atmost_1)
qed

lemma all_done_sums:
  assumes "\<forall>pc \<in> set cs. pc = ClientDone"
  shows "sum_list (map (issued ops) cs) = length cs * ops" "sum_list (map (recorded ops) cs) = length cs * ops"
    "sum_list (map waits cs) = 0" "sum_list (map submitting_ids cs) = {#}"
proof -
  have cs: "cs = replicate (length cs) ClientDone" using assms by (simp add: replicate_length_same)
  show "sum_list (map (issued ops) cs) = length cs * ops" "sum_list (map (recorded ops) cs) = length cs * ops"
    "sum_list (map waits cs) = 0" "sum_list (map submitting_ids cs) = {#}"
    by (subst cs, simp add: sum_list_replicate)+
qed

text \<open>The depths the program tries: 1, 4, 16, 32 and 64.\<close>

lemma tested_depths:
  assumes "n \<in> {1, 4, 16, 32, 64}"
  shows "num_clients n dvd TOTAL_OPS"
proof -
  have "num_clients n \<in> {1, 4, 8}" using assms by (auto simp: num_clients_def)
  moreover have "(4::nat) dvd 50000" "(8::nat) dvd 50000" by simp_all
  ultimately show ?thesis by (auto simp: TOTAL_OPS_def)
qed

definition demo_drive :: ctrl where
  "demo_drive = FTJController 1048576 10"

lemma demo_bench:
  assumes "1 \<le> unat qd" "unat qd \<le> 2 ^ 62"
  shows "\<exists>s0. new_bench qd 2 demo_drive = Some s0 \<and> bench_inv (ops_per_client (unat qd)) [] s0 \<and>
    clients s0 = replicate (num_clients (unat qd)) (ClientLoop 0) \<and> length (workers s0) = 2"
    and "ctrl_safe False demo_drive" "4096 \<le> capacity demo_drive"
proof -
  show "ctrl_safe False demo_drive" "4096 \<le> capacity demo_drive"
    using ctrl_safe_weaken [OF FTJController_safe [OF good_1MiB]] by (simp_all add: demo_drive_def FTJController_def)
  then show "\<exists>s0. new_bench qd 2 demo_drive = Some s0 \<and> bench_inv (ops_per_client (unat qd)) [] s0 \<and>
    clients s0 = replicate (num_clients (unat qd)) (ClientLoop 0) \<and> length (workers s0) = 2"
    using new_bench_inv [OF assms, of demo_drive 2] by auto
qed

text \<open>C9: the benchmark completes every operation exactly once, in every interleaving of its threads: no completion is reaped
  twice or made up, and when the clients have ended (with shares that add up) each of the 50000 commands has been
  reaped.\<close>

theorem nvme_exactly_once:
  assumes "1 \<le> unat qd" "unat qd \<le> 2 ^ 62" "ctrl_safe False ctrl" "4096 \<le> capacity ctrl" "new_bench qd threads ctrl = Some s0"
    and "bench_run (ops_per_client (unat qd)) s0 tr s"
  shows "distinct tr \<and> set tr \<subseteq> {..<TOTAL_OPS} \<and>
    (num_clients (unat qd) dvd TOTAL_OPS \<and> (\<forall>pc \<in> set (clients s). pc = ClientDone) \<longrightarrow>
      set tr = {..<TOTAL_OPS} \<and> unat (ops_reaped s) = TOTAL_OPS)"
proof -
  note inv = reachable_bench [OF assms]
  note I = bench_invD [OF inv(1)]
  let ?rest = "completed (queue_pair s) + serving s + queued (queue_pair s) + submitting s"
  have cons: "mset tr + ?rest = mset [0..<unat (ops_submitted s)]" using bench_countsD(1) [OF I(4)] by (simp add: ac_simps)
  then have sub: "mset tr \<subseteq># mset [0..<unat (ops_submitted s)]" by (metis mset_subset_eq_add_left)
  have "distinct tr" by (rule distinct_submset [OF sub]) simp
  moreover have "set tr \<subseteq> {..<unat (ops_submitted s)}" using set_mset_mono [OF sub] by auto
  then have "set tr \<subseteq> {..<TOTAL_OPS}" using submitted_bound [OF inv(1)] by auto
  moreover have "set tr = {..<TOTAL_OPS} \<and> unat (ops_reaped s) = TOTAL_OPS"
    if dvd: "num_clients (unat qd) dvd TOTAL_OPS" and ended: "\<forall>pc \<in> set (clients s). pc = ClientDone"
  proof -
    note z = all_done_sums [OF ended]
    have "size (completed (queue_pair s)) + size (serving s) + size (queued (queue_pair s)) = 0"
      unfolding in_flight [OF I(4)] by (rule z(3))
    then have "?rest = {#}" using z(4) by (simp add: submitting_def)
    then have eq: "mset tr = mset [0..<unat (ops_submitted s)]" using cons by simp
    have "unat (ops_submitted s) = TOTAL_OPS" "unat (ops_reaped s) = TOTAL_OPS"
      using bench_countsD(2,3) [OF I(4)] z(1,2) inv(2) shares_add_up [OF dvd] by simp_all
    then show ?thesis using arg_cong [OF eq, of set_mset] by (simp add: atLeast0LessThan)
  qed
  ultimately show ?thesis by blast
qed

theorem nvme_exactly_once_witness:
  "\<exists>s0 tr s. new_bench 64 2 demo_drive = Some s0 \<and> bench_run 6250 s0 tr s \<and> distinct tr \<and> set tr = {..<50000}"
proof -
  have qd: "1 \<le> unat (64 :: u64)" "unat (64 :: u64) \<le> 2 ^ 62" by simp_all
  have dvd: "num_clients (unat (64 :: u64)) dvd TOTAL_OPS" by (rule tested_depths) simp
  have ops: "ops_per_client (unat (64 :: u64)) = 6250" by (simp add: ops_per_client_def num_clients_def TOTAL_OPS_def)
  obtain s0 where s0: "new_bench 64 2 demo_drive = Some s0" "bench_inv 6250 [] s0" "length (clients s0) = 8"
    using demo_bench(1) [OF qd] unfolding ops by (auto simp: num_clients_def)
  have "TOTAL_OPS \<le> length (clients s0) * 6250" using s0(3) by (simp add: TOTAL_OPS_def)
  then obtain tr s where run: "bench_run 6250 s0 tr s" "all_ended s" using can_end [OF s0(2)] unfolding bench_reaches_def by blast
  show ?thesis
    using nvme_exactly_once [OF qd demo_bench(2,3) [OF qd] s0(1), unfolded ops, OF run(1)] run s0(1) dvd
    by (auto simp: all_ended_def TOTAL_OPS_def)
qed

text \<open>no thread of the benchmark is ever stuck: each step of a thread that has not ended is defined, and neither queue
  ever refuses an entry, at any depth from one up.\<close>

lemma nvme_never_refused:
  assumes "1 \<le> unat qd" "unat qd \<le> 2 ^ 62" "ctrl_safe False ctrl" "4096 \<le> capacity ctrl" "new_bench qd threads ctrl = Some s0"
    and "bench_run (ops_per_client (unat qd)) s0 tr s"
  shows "(\<forall>c < length (clients s). clients s ! c \<noteq> ClientDone \<longrightarrow> client_step (ops_per_client (unat qd)) 0 now c s \<noteq> None \<and>
      (\<forall>i e. clients s ! c = Submitting i e \<longrightarrow> (\<exists>q. Submit e (queue_pair s) = Some (True, q)))) \<and>
    (\<forall>w < length (workers s). worker_at (workers s ! w) \<noteq> WorkerDone \<longrightarrow> worker_step w s \<noteq> None \<and>
      (\<forall>e. worker_at (workers s ! w) = Completing e \<longrightarrow> (\<exists>q. CompleteRequest e (queue_pair s) = Some (True, q))))"
proof -
  note inv = reachable_bench(1) [OF assms]
  have "client_step (ops_per_client (unat qd)) 0 now c s \<noteq> None" if "c < length (clients s)" "clients s ! c \<noteq> ClientDone" for c
  proof (cases "(\<exists>i. clients s ! c = Reaping i)")
    case True
    then show ?thesis using reap_step [OF inv that(1), of _ 0 now] by auto
  next
    case False
    then show ?thesis using client_works [OF inv that, of 0 now] by auto
  qed
  moreover have "\<exists>q. Submit e (queue_pair s) = Some (True, q)" if "c < length (clients s)" "clients s ! c = Submitting i e" for c i e
    using submit_step [OF inv that] by blast
  moreover have "worker_step w s \<noteq> None" if "w < length (workers s)" "worker_at (workers s ! w) \<noteq> WorkerDone" for w
    using that test_step [OF inv that(1)] poll_step [OF inv that(1)] serve_step [OF inv that(1)] complete_step [OF inv that(1)]
    by (cases "worker_at (workers s ! w)") auto
  moreover have "\<exists>q. CompleteRequest e (queue_pair s) = Some (True, q)"
    if "w < length (workers s)" "worker_at (workers s ! w) = Completing e" for w e
    using complete_step [OF inv that] by blast
  ultimately show ?thesis by blast
qed

text \<open>C17: the benchmark can always come to its end, and never moves away from it: when the shares of the clients add up, every
  reachable state leads to one in which all threads have ended, and no step adds to the work that is left.\<close>

theorem nvme_comes_to_end:
  assumes "1 \<le> unat qd" "unat qd \<le> 2 ^ 62" "ctrl_safe False ctrl" "4096 \<le> capacity ctrl" "new_bench qd threads ctrl = Some s0"
    and "bench_run (ops_per_client (unat qd)) s0 tr s" "num_clients (unat qd) dvd TOTAL_OPS"
  shows "(\<exists>tr' s'. bench_run (ops_per_client (unat qd)) s tr' s' \<and> all_ended s') \<and>
    (\<forall>ev s'. bench_step (ops_per_client (unat qd)) s ev s' \<longrightarrow> weight (ops_per_client (unat qd)) s' \<le> weight (ops_per_client (unat qd)) s)"
proof -
  note inv = reachable_bench [OF assms(1-6)]
  have "TOTAL_OPS \<le> length (clients s) * ops_per_client (unat qd)" using inv(2) shares_add_up [OF assms(7)] by simp
  from can_end [OF inv(1) this] show ?thesis unfolding bench_reaches_def using weight_step [OF _ inv(1)] by blast
qed

theorem nvme_comes_to_end_witness:
  "\<exists>s0 tr s. new_bench 64 2 demo_drive = Some s0 \<and> bench_run 6250 s0 tr s \<and> (\<exists>tr' s'. bench_run 6250 s tr' s' \<and> all_ended s')"
proof -
  have qd: "1 \<le> unat (64 :: u64)" "unat (64 :: u64) \<le> 2 ^ 62" by simp_all
  have dvd: "num_clients (unat (64 :: u64)) dvd TOTAL_OPS" by (rule tested_depths) simp
  have ops: "ops_per_client (unat (64 :: u64)) = 6250" by (simp add: ops_per_client_def num_clients_def TOTAL_OPS_def)
  obtain s0 where s0: "new_bench 64 2 demo_drive = Some s0" "bench_inv 6250 [] s0" "length (clients s0) = 8"
    using demo_bench(1) [OF qd] unfolding ops by (auto simp: num_clients_def)
  show ?thesis
    using nvme_comes_to_end [OF qd demo_bench(2,3) [OF qd] s0(1), unfolded ops, OF bench_run.bench_start dvd] s0(1)
    by (blast intro: bench_run.bench_start)
qed

text \<open>C37: with a depth whose number of clients does not divide the number of operations the benchmark hangs: the workers wait
  for completions that nobody asks for, and none of them ever ends.\<close>

theorem nvme_uneven_shares_hang:
  assumes "1 \<le> unat qd" "unat qd \<le> 2 ^ 62" "ctrl_safe False ctrl" "4096 \<le> capacity ctrl" "new_bench qd threads ctrl = Some s0"
    and "bench_run (ops_per_client (unat qd)) s0 tr s" "\<not> num_clients (unat qd) dvd TOTAL_OPS"
  shows "\<forall>w \<in> set (workers s). worker_at w \<noteq> WorkerDone"
proof
  note inv = reachable_bench [OF assms(1-6)]
  note I = bench_invD [OF inv(1)]
  fix w assume w: "w \<in> set (workers s)"
  show "worker_at w \<noteq> WorkerDone"
  proof
    assume "worker_at w = WorkerDone"
    then have stop: "\<not> backend_active s" "TOTAL_OPS \<le> unat (ops_reaped s)" using I(5) w unfolding bench_stop_def by blast+
    then have "\<forall>pc \<in> set (clients s). pc = ClientDone" using I(5) unfolding bench_stop_def by blast
    from all_done_sums(2) [OF this, of "ops_per_client (unat qd)"]
    have "TOTAL_OPS \<le> num_clients (unat qd) * (TOTAL_OPS div num_clients (unat qd))"
      using stop(2) bench_countsD(3) [OF I(4)] inv(2) by (simp add: ops_per_client_def)
    then have "TOTAL_OPS mod num_clients (unat qd) = 0"
      using mult_div_mod_eq [of "num_clients (unat qd)" TOTAL_OPS] by linarith
    then show False using assms(7) by (simp add: mod_eq_0_iff_dvd)
  qed
qed

theorem nvme_uneven_shares_hang_witness:
  "\<exists>s0. new_bench 3 2 demo_drive = Some s0 \<and> workers s0 \<noteq> [] \<and> (\<forall>w \<in> set (workers s0). worker_at w \<noteq> WorkerDone)"
proof -
  have qd: "1 \<le> unat (3 :: u64)" "unat (3 :: u64) \<le> 2 ^ 62" by simp_all
  have uneven: "\<not> num_clients (unat (3 :: u64)) dvd TOTAL_OPS" by (simp add: num_clients_def TOTAL_OPS_def)
  obtain s0 where s0: "new_bench 3 2 demo_drive = Some s0" "length (workers s0) = 2" using demo_bench(1) [OF qd] by blast
  have "workers s0 \<noteq> []" using s0(2) by auto
  then show ?thesis
    using nvme_uneven_shares_hang [OF qd demo_bench(2,3) [OF qd] s0(1) bench_run.bench_start uneven] s0(1) by blast
qed

end
