(* ===== verification/Memfs_Ea.thy ===== *)
theory Memfs_Ea
  imports Memfs_Map Memfs_File
begin

text \<open>
  Extended attributes of \<open>src/win_vdisk.cpp\<close>, the code under \<open>MEMFS_EA\<close> (a build option that the file
  leaves off): the comparison of their names, the map of a node, and the operations \<open>SetEa\<close> and \<open>GetEa\<close>.

  A node of this build is a file node with the fields \<open>EaMap\<close> and \<open>FileInfo.EaSize\<close>. An attribute is a
  \<open>FILE_FULL_EA_INFORMATION\<close>; its two length fields are the lengths of its name and of its value.

  Not under \<open>src\<close>, and so fields of \<open>ea_env\<close> or arguments: \<open>CompareStringA\<close>, \<open>_stricmp\<close>, whether the
  three allocations succeed, \<open>FspFileSystemGetEaPackedSize\<close>, \<open>FspFileSystemEnumerateEa\<close> (documented to call
  a function on each attribute of a buffer until one fails) and \<open>FspFileSystemAddEa\<close>.
\<close>

section \<open>The code\<close>

abbreviation FILE_NEED_EA :: u8 where "FILE_NEED_EA \<equiv> 0x80"

record ea_info =
  NextEntryOffset :: u32
  Flags :: u8
  EaName :: "u8 list"
  EaValue :: "u8 list"

record ea_env =
  CompareStringA :: "u8 list \<Rightarrow> u8 list \<Rightarrow> int"
  stricmp :: "u8 list \<Rightarrow> u8 list \<Rightarrow> int"
  GetEaPackedSize :: "ea_info \<Rightarrow> u32"
  ea_map_new :: bool
  ea_malloc :: "nat \<Rightarrow> bool"
  ea_map_grows :: bool

record ea_node = file_node +
  EaMap :: "(u8 list \<times> ea_info) list option"
  EaSize :: u32

definition MemfsEaNameCompare :: "ea_env \<Rightarrow> u8 list \<Rightarrow> u8 list \<Rightarrow> int" where
  "MemfsEaNameCompare e a b =
     (let res = CompareStringA e a b in if res \<noteq> 0 then res - 2 else stricmp e a b)"

definition ea_less :: "ea_env \<Rightarrow> u8 list \<Rightarrow> u8 list \<Rightarrow> bool" where
  "ea_less e a b \<longleftrightarrow> MemfsEaNameCompare e a b < 0"

definition MemfsFileNodeDeleteEaMap :: "ea_node \<Rightarrow> ea_node" where
  "MemfsFileNodeDeleteEaMap n = (if EaMap n \<noteq> None then n\<lparr>EaMap := None, EaSize := 0\<rparr> else n)"

definition MemfsFileNodeGetEaMap :: "ea_env \<Rightarrow> ea_node \<Rightarrow> (ntstatus + (u8 list \<times> ea_info) list) \<times> ea_node" where
  "MemfsFileNodeGetEaMap e n =
     (case EaMap n of
        Some m \<Rightarrow> (Inr m, n)
      | None \<Rightarrow> if ea_map_new e then (Inr [], n\<lparr>EaMap := Some []\<rparr>) else (Inl STATUS_INSUFFICIENT_RESOURCES, n))"

text \<open>\<open>FIELD_OFFSET(FILE_FULL_EA_INFORMATION, EaName)\<close> is 8.\<close>

definition MemfsFileNodeSetEa :: "ea_env \<Rightarrow> ea_info \<Rightarrow> ea_node \<Rightarrow> ntstatus \<times> ea_node" where
  "MemfsFileNodeSetEa e Ea n0 =
     (case MemfsFileNodeGetEaMap e n0 of
        (Inl st, n) \<Rightarrow> (st, n)
      | (Inr m, n) \<Rightarrow>
          if EaValue Ea \<noteq> [] \<and> \<not> ea_malloc e (8 + length (EaName Ea) + 1 + length (EaValue Ea))
          then (STATUS_INSUFFICIENT_RESOURCES, n)
          else (let FileNodeEa = Ea\<lparr>NextEntryOffset := 0\<rparr>;
                    EaSizePlus = (if EaValue Ea \<noteq> [] then GetEaPackedSize e Ea else 0);
                    (m1, erased) = map_erase (ea_less e) (EaName Ea) m;
                    EaSizeMinus = (if erased then GetEaPackedSize e Ea else 0) in
            if EaValue Ea \<noteq> [] \<and> \<not> ea_map_grows e
            then (STATUS_INSUFFICIENT_RESOURCES, n\<lparr>EaMap := Some m1\<rparr>)
            else (let m2 = (if EaValue Ea \<noteq> [] then fst (map_insert (ea_less e) (EaName FileNodeEa) FileNodeEa m1)
                            else m1) in
              (STATUS_SUCCESS, n\<lparr>EaMap := Some m2, EaSize := EaSize n + EaSizePlus - EaSizeMinus\<rparr>))))"

definition MemfsFileNodeNeedEa :: "ea_node \<Rightarrow> bool" where
  "MemfsFileNodeNeedEa n =
     (case EaMap n of None \<Rightarrow> False | Some m \<Rightarrow> list_ex (\<lambda>p. Flags (snd p) AND FILE_NEED_EA \<noteq> 0) m)"

fun enumerate_ea :: "(ea_info \<Rightarrow> 'c \<Rightarrow> bool \<times> 'c) \<Rightarrow> (u8 list \<times> ea_info) list \<Rightarrow> 'c \<Rightarrow> bool \<times> 'c" where
  "enumerate_ea EnumFn [] ctx = (True, ctx)"
| "enumerate_ea EnumFn (p # ps) ctx =
     (let (continue, ctx') = EnumFn (snd p) ctx in
      if \<not> continue then (False, ctx') else enumerate_ea EnumFn ps ctx')"

definition MemfsFileNodeEnumerateEa :: "ea_node \<Rightarrow> (ea_info \<Rightarrow> 'c \<Rightarrow> bool \<times> 'c) \<Rightarrow> 'c \<Rightarrow> bool \<times> 'c" where
  "MemfsFileNodeEnumerateEa n EnumFn ctx =
     (case EaMap n of None \<Rightarrow> (True, ctx) | Some m \<Rightarrow> enumerate_ea EnumFn m ctx)"

text \<open>\<open>AddEa\<close> is \<open>FspFileSystemAddEa\<close>: an attribute, or the end mark \<open>None\<close>, into the buffer, \<open>False\<close> when
  it is full. \<open>EnumerateEa\<close> is \<open>FspFileSystemEnumerateEa\<close> on the caller's buffer of attributes.\<close>

definition GetEaEnumFn :: "(ea_info option \<Rightarrow> 'b \<Rightarrow> bool \<times> 'b) \<Rightarrow> ea_info \<Rightarrow> 'b \<Rightarrow> bool \<times> 'b" where
  "GetEaEnumFn AddEa Ea buf = AddEa (Some Ea) buf"

definition GetEa :: "(ea_info option \<Rightarrow> 'b \<Rightarrow> bool \<times> 'b) \<Rightarrow> ea_node \<Rightarrow> 'b \<Rightarrow> ntstatus \<times> 'b" where
  "GetEa AddEa n buf =
     (let (complete, buf1) = MemfsFileNodeEnumerateEa n (GetEaEnumFn AddEa) buf in
      (STATUS_SUCCESS, if complete then snd (AddEa None buf1) else buf1))"

definition SetEa :: "((ea_info \<Rightarrow> ea_node \<Rightarrow> ntstatus \<times> ea_node) \<Rightarrow> ea_node \<Rightarrow> ntstatus \<times> ea_node) \<Rightarrow> ea_env \<Rightarrow>
   ea_node \<Rightarrow> (ntstatus + file_info \<times> u32) \<times> ea_node" where
  "SetEa EnumerateEa e n =
     (let (Result, n') = EnumerateEa (MemfsFileNodeSetEa e) n in
      if Result \<noteq> STATUS_SUCCESS then (Inl Result, n') else (Inr (FileInfo n', EaSize n'), n'))"

text \<open>The lines that \<open>Overwrite\<close> and \<open>Open\<close> gain in this build: the attributes of an overwritten file are
  those of the request (\<open>None\<close> when it has none), and a caller without knowledge of attributes is refused a file
  that needs them.\<close>

abbreviation FILE_NO_EA_KNOWLEDGE :: u32 where "FILE_NO_EA_KNOWLEDGE \<equiv> 0x200"

definition OverwriteEas :: "((ea_info \<Rightarrow> ea_node \<Rightarrow> ntstatus \<times> ea_node) \<Rightarrow> ea_node \<Rightarrow> ntstatus \<times> ea_node) option \<Rightarrow>
   ea_env \<Rightarrow> ea_node \<Rightarrow> ntstatus \<times> ea_node" where
  "OverwriteEas Ea e n =
     (let n1 = MemfsFileNodeDeleteEaMap n in
      case Ea of None \<Rightarrow> (STATUS_SUCCESS, n1) | Some EnumerateEa \<Rightarrow> EnumerateEa (MemfsFileNodeSetEa e) n1)"

definition OpenNeedsEa :: "u32 \<Rightarrow> ea_node \<Rightarrow> ntstatus option" where
  "OpenNeedsEa CreateOptions n =
     (if CreateOptions AND FILE_NO_EA_KNOWLEDGE \<noteq> 0 \<and> MemfsFileNodeNeedEa n then Some STATUS_ACCESS_DENIED else None)"

section \<open>What the code relies on\<close>

text \<open>\<open>CompareStringA\<close> orders the names by a key: 1 for less, 2 for equal, 3 for greater.\<close>

definition ea_order :: "ea_env \<Rightarrow> (u8 list \<Rightarrow> 'o :: linorder) \<Rightarrow> bool" where
  "ea_order e key \<longleftrightarrow>
     (\<forall>a b. CompareStringA e a b = (if key a < key b then 1 else if key a = key b then 2 else 3))"

definition ea_memory :: "ea_env \<Rightarrow> bool" where
  "ea_memory e \<longleftrightarrow> ea_map_new e \<and> (\<forall>k. ea_malloc e k) \<and> ea_map_grows e"

fun each_ea :: "ea_info list \<Rightarrow> (ea_info \<Rightarrow> 'n \<Rightarrow> ntstatus \<times> 'n) \<Rightarrow> 'n \<Rightarrow> ntstatus \<times> 'n" where
  "each_ea [] f n = (STATUS_SUCCESS, n)"
| "each_ea (ea # eas) f n =
     (let (st, n') = f ea n in if st \<noteq> STATUS_SUCCESS then (st, n') else each_ea eas f n')"

definition enumerates :: "((ea_info \<Rightarrow> 'n \<Rightarrow> ntstatus \<times> 'n) \<Rightarrow> 'n \<Rightarrow> ntstatus \<times> 'n) \<Rightarrow> ea_info list \<Rightarrow> bool" where
  "enumerates enum eas \<longleftrightarrow> (\<forall>f n. enum f n = each_ea eas f n)"

lemma ea_keyed: "ea_order e key \<Longrightarrow> keyed_map (ea_less e) key (\<lambda>a. True)"
  by unfold_locales (simp add: ea_order_def ea_less_def MemfsEaNameCompare_def)

section \<open>The map of a node\<close>

text \<open>The attributes of a node by the key of their names; a map is kept in the order of the keys, each
  entry under the name in the attribute itself.\<close>

definition ea_entries :: "ea_node \<Rightarrow> (u8 list \<times> ea_info) list" where
  "ea_entries n = (case EaMap n of None \<Rightarrow> [] | Some m \<Rightarrow> m)"

definition ea_ok :: "(u8 list \<Rightarrow> 'o :: linorder) \<Rightarrow> ea_node \<Rightarrow> bool" where
  "ea_ok key n \<longleftrightarrow> sorted_wrt (\<lambda>p q. key (fst p) < key (fst q)) (ea_entries n) \<and>
     (\<forall>p \<in> set (ea_entries n). fst p = EaName (snd p))"

definition ea_abs :: "(u8 list \<Rightarrow> 'o) \<Rightarrow> ea_node \<Rightarrow> 'o \<Rightarrow> ea_info option" where
  "ea_abs key n = map_of (map (\<lambda>(k, v). (key k, v)) (ea_entries n))"

definition ea_assign :: "(u8 list \<Rightarrow> 'o) \<Rightarrow> ea_info \<Rightarrow> ('o \<Rightarrow> ea_info option) \<Rightarrow> 'o \<Rightarrow> ea_info option" where
  "ea_assign key Ea f = f(key (EaName Ea) := (if EaValue Ea = [] then None else Some (Ea\<lparr>NextEntryOffset := 0\<rparr>)))"

definition ea_total :: "ea_env \<Rightarrow> ea_node \<Rightarrow> u32" where
  "ea_total e n = sum_list (map (GetEaPackedSize e \<circ> snd) (ea_entries n))"

definition packed_ignores_offset :: "ea_env \<Rightarrow> bool" where
  "packed_ignores_offset e \<longleftrightarrow> (\<forall>ea k. GetEaPackedSize e (ea\<lparr>NextEntryOffset := k\<rparr>) = GetEaPackedSize e ea)"

lemma erase_total:
  assumes "map_erase lt k m = (m1, er)"
  shows "sum_list (map f m) = sum_list (map f m1) +
    (if map_find lt k m = None then (0 :: u32) else f (hd (lower_bound lt k m))) \<and> (er \<longleftrightarrow> map_find lt k m \<noteq> None)"
proof (cases "map_find lt k m")
  case None
  then show ?thesis using assms by (simp add: map_erase_def)
next
  case (Some w)
  obtain p ps where lb: "lower_bound lt k m = p # ps"
    using Some by (auto simp: map_find_def split: list.splits)
  have "m = takeWhile (\<lambda>e. lt (fst e) k) m @ p # ps"
    using lb by (metis lower_bound_def takeWhile_dropWhile_id)
  then have "sum_list (map f m) = sum_list (map f (takeWhile (\<lambda>e. lt (fst e) k) m @ p # ps))" by simp
  then show ?thesis using assms Some lb by (auto simp: map_erase_def)
qed

lemma insert_total:
  assumes "map_find lt k m = None"
  shows "sum_list (map f (fst (map_insert lt k v m))) = sum_list (map f m) + (f (k, v) :: u32)"
proof -
  have "sum_list (map f m) = sum_list (map f (takeWhile (\<lambda>e. lt (fst e) k) m @ lower_bound lt k m))"
    by (simp add: lower_bound_def)
  then show ?thesis using assms by (simp add: map_insert_def)
qed

lemma find_hd: "map_find lt k m = Some w \<Longrightarrow> w = snd (hd (lower_bound lt k m))"
  by (auto simp: map_find_def split: list.splits if_splits)

text \<open>The attributes a node is left with, whichever branch made its map.\<close>

lemma get_ea_map:
  assumes "ea_map_new e"
  shows "\<exists>m n1. MemfsFileNodeGetEaMap e n = (Inr m, n1) \<and> m = ea_entries n \<and> EaMap n1 = Some m \<and>
    EaSize n1 = EaSize n \<and> file_node.truncate n1 = file_node.truncate n"
  using assms by (auto simp: MemfsFileNodeGetEaMap_def ea_entries_def file_node.defs split: option.splits)

lemma set_ea_step:
  assumes ord: "ea_order e key" and mem: "ea_memory e" and ok: "ea_ok key n"
    and run: "MemfsFileNodeSetEa e Ea n = (st, n')"
  shows "st = STATUS_SUCCESS \<and> ea_ok key n' \<and> ea_abs key n' = ea_assign key Ea (ea_abs key n) \<and>
    FileInfo n' = FileInfo n"
    and "packed_ignores_offset e \<Longrightarrow> EaSize n' - ea_total e n' = EaSize n - ea_total e n +
      (case ea_abs key n (key (EaName Ea)) of None \<Rightarrow> 0
       | Some old \<Rightarrow> GetEaPackedSize e old - GetEaPackedSize e Ea)"
proof -
  note K = ea_keyed [OF ord]
  obtain m n1 where g: "MemfsFileNodeGetEaMap e n = (Inr m, n1)" "m = ea_entries n" "EaSize n1 = EaSize n"
    "FileInfo n1 = FileInfo n"
    using get_ea_map [of e n] mem by (auto simp: ea_memory_def file_node.defs)
  obtain m1 er where er: "map_erase (ea_less e) (EaName Ea) m = (m1, er)" by fastforce
  define v where "v = Ea\<lparr>NextEntryOffset := 0\<rparr>"
  have v: "EaName v = EaName Ea" by (simp add: v_def)
  obtain m3 ins where ins: "map_insert (ea_less e) (EaName Ea) v m1 = (m3, ins)" by fastforce
  define m2 where "m2 = (if EaValue Ea \<noteq> [] then m3 else m1)"
  have srt: "keyed_map.sorted_map key (\<lambda>a. True) m"
    using ok g(2) by (simp add: ea_ok_def keyed_map.sorted_map_def [OF K])
  note E = keyed_map.erase_abs [OF K srt TrueI er]
  note I = keyed_map.insert_abs [OF K conjunct1 [OF E] TrueI ins]
  have n': "st = STATUS_SUCCESS" "n' = n1\<lparr>EaMap := Some m2, EaSize := EaSize n1 +
      (if EaValue Ea \<noteq> [] then GetEaPackedSize e Ea else 0) - (if er then GetEaPackedSize e Ea else 0)\<rparr>"
    using run mem ins er by (simp_all add: MemfsFileNodeSetEa_def g(1) ea_memory_def m2_def v_def Let_def split: if_splits)
  have en': "ea_entries n' = m2" by (simp add: n'(2) ea_entries_def)
  have abs: "ea_abs key n = keyed_map.map_abs key m" "ea_abs key n' = keyed_map.map_abs key m2"
    by (simp_all add: ea_abs_def g(2) keyed_map.map_abs_def [OF K] en')
  have ok1: "ins" using I E by simp
  have names: "\<forall>p \<in> set m. fst p = EaName (snd p)" using ok g(2) by (simp add: ea_ok_def)
  have srt2: "keyed_map.sorted_map key (\<lambda>a. True) m2" using E I by (simp add: m2_def)
  have "\<forall>p \<in> set m2. fst p = EaName (snd p)" using E I names v by (auto simp: m2_def)
  then have okn: "ea_ok key n'"
    using srt2 by (simp add: ea_ok_def en' keyed_map.sorted_map_def [OF K])
  have "keyed_map.map_abs key m2 = ea_assign key Ea (keyed_map.map_abs key m)"
    using E I ok1 by (simp add: m2_def ea_assign_def v_def)
  then show "st = STATUS_SUCCESS \<and> ea_ok key n' \<and> ea_abs key n' = ea_assign key Ea (ea_abs key n) \<and>
    FileInfo n' = FileInfo n" using okn n' abs g(4) by simp
  assume pk: "packed_ignores_offset e"
  let ?f = "\<lambda>p. GetEaPackedSize e (snd p)"
  have f: "map_find (ea_less e) (EaName Ea) m = ea_abs key n (key (EaName Ea))"
    using keyed_map.find_abs [OF K srt TrueI] abs by simp
  note T = erase_total [OF er, of ?f]
  have none: "map_find (ea_less e) (EaName Ea) m1 = None"
    using keyed_map.find_abs [OF K conjunct1 [OF E] TrueI] E by simp
  have T2: "sum_list (map ?f m2) = sum_list (map ?f m1) + (if EaValue Ea \<noteq> [] then GetEaPackedSize e Ea else 0)"
    using insert_total [OF none, of ?f v] ins pk by (simp add: m2_def v_def packed_ignores_offset_def)
  have tot: "ea_total e n = sum_list (map ?f m)" "ea_total e n' = sum_list (map ?f m2)"
    by (simp_all add: ea_total_def g(2) en' comp_def)
  have old: "(case ea_abs key n (key (EaName Ea)) of None \<Rightarrow> 0
       | Some old \<Rightarrow> GetEaPackedSize e old - GetEaPackedSize e Ea) =
     (if er then ?f (hd (lower_bound (ea_less e) (EaName Ea) m)) - GetEaPackedSize e Ea else 0)"
    using T find_hd [of "ea_less e" "EaName Ea" m] f by (auto split: option.splits)
  show "EaSize n' - ea_total e n' = EaSize n - ea_total e n +
      (case ea_abs key n (key (EaName Ea)) of None \<Rightarrow> 0
       | Some old \<Rightarrow> GetEaPackedSize e old - GetEaPackedSize e Ea)"
    unfolding old tot T2 using T g(3) by (auto simp: n'(2))
qed

section \<open>Setting and getting\<close>

lemma each_ea_assign:
  assumes "ea_order e key" "ea_memory e" "ea_ok key n" "each_ea eas (MemfsFileNodeSetEa e) n = (st, n')"
  shows "st = STATUS_SUCCESS \<and> ea_ok key n' \<and> ea_abs key n' = fold (ea_assign key) eas (ea_abs key n) \<and>
    FileInfo n' = FileInfo n"
  using assms(3,4)
proof (induction eas arbitrary: n)
  case (Cons ea eas)
  obtain st1 n1 where s: "MemfsFileNodeSetEa e ea n = (st1, n1)" by fastforce
  note h = set_ea_step(1) [OF assms(1,2) Cons.prems(1) s]
  have "each_ea eas (MemfsFileNodeSetEa e) n1 = (st, n')" using Cons.prems(2) s h by simp
  then show ?case using Cons.IH [of n1] h by simp
qed simp

lemma enumerate_ea_room:
  assumes "length buf \<le> k"
  shows "enumerate_ea (GetEaEnumFn (room k)) m buf =
    (length buf + length m \<le> k, take k (buf @ map (Some \<circ> snd) m))"
  using assms
proof (induction m arbitrary: buf)
  case (Cons p m)
  then show ?case by (cases "length buf < k") (simp_all add: GetEaEnumFn_def room_def take_Cons')
qed simp

lemma get_ea_room:
  "GetEa (room k) n [] = (STATUS_SUCCESS, take k (map (Some \<circ> snd) (ea_entries n) @ [None]))"
proof -
  have e: "MemfsFileNodeEnumerateEa n (GetEaEnumFn (room k)) [] =
    (length (ea_entries n) \<le> k, take k (map (Some \<circ> snd) (ea_entries n)))"
    using enumerate_ea_room [of "[]" k "ea_entries n"]
    by (cases "EaMap n") (simp_all add: MemfsFileNodeEnumerateEa_def ea_entries_def)
  show ?thesis by (simp add: GetEa_def e room_def take_Cons')
qed

text \<open>An instance for the witnesses: names compared by their characters folded to upper case, the packed size
  of WinFsp.\<close>

definition ea_upper :: "u8 list \<Rightarrow> u8 list" where
  "ea_upper = map (\<lambda>c. if 0x61 \<le> c \<and> c \<le> 0x7A then c - 0x20 else c)"

definition ea_windows :: ea_env where
  "ea_windows = \<lparr>CompareStringA = \<lambda>a b. if ea_upper a < ea_upper b then 1 else if ea_upper a = ea_upper b then 2 else 3,
     stricmp = \<lambda>a b. 0, GetEaPackedSize = \<lambda>ea. of_nat (5 + length (EaName ea) + length (EaValue ea)),
     ea_map_new = True, ea_malloc = \<lambda>k. True, ea_map_grows = True\<rparr>"

lemma ea_windows_ok [simp]:
  "ea_order ea_windows ea_upper" "ea_memory ea_windows" "packed_ignores_offset ea_windows"
  by (simp_all add: ea_windows_def ea_order_def ea_memory_def packed_ignores_offset_def)

definition some_info :: file_info where
  "some_info = \<lparr>FileAttributes = 0x80, AllocationSize = 0, FileSize = 0, CreationTime = 0, LastAccessTime = 0,
     LastWriteTime = 0, ChangeTime = 0, IndexNumber = 1\<rparr>"

definition plain_node :: ea_node where
  "plain_node = \<lparr>FileName = [0x5C, 0x61], FileInfo = some_info, FileSecuritySize = 0, FileSecurity = None, FileData = None,
     RefCount = 1, EaMap = None, EaSize = 0\<rparr>"

text \<open>C34: with memory for it, \<open>SetEa\<close> with the attributes \<open>eas\<close> succeeds and \<open>GetEa\<close> then returns, as far as the
  caller's buffer has room, exactly the attributes that the assignments of \<open>eas\<close> in their order leave (an
  attribute replaces the one whose name differs only in case, an empty value deletes it), each once, in the
  order of the names, and then the end mark.\<close>

theorem ea_set_then_get:
  assumes "ea_order e key" "ea_memory e" "ea_ok key n" "enumerates EnumerateEa eas"
    and "SetEa EnumerateEa e n = (r, n')"
  shows "r = Inr (FileInfo n, EaSize n') \<and>
    (\<exists>L. GetEa (room k) n' [] = (STATUS_SUCCESS, take k (map Some L @ [None])) \<and>
         sorted_wrt (\<lambda>a b. key (EaName a) < key (EaName b)) L \<and>
         map_of (map (\<lambda>a. (key (EaName a), a)) L) = fold (ea_assign key) eas (ea_abs key n))"
proof -
  obtain st n1 where run: "each_ea eas (MemfsFileNodeSetEa e) n = (st, n1)" by fastforce
  note h = each_ea_assign [OF assms(1-3) run]
  have r: "r = Inr (FileInfo n, EaSize n')" "n' = n1"
    using assms(4,5) run h by (auto simp: SetEa_def enumerates_def)
  let ?L = "map snd (ea_entries n')"
  have ok: "ea_ok key n'" using h r by simp
  then have nm: "\<forall>p \<in> set (ea_entries n'). fst p = EaName (snd p)" by (simp add: ea_ok_def)
  have "sorted_wrt (\<lambda>p q. key (EaName (snd p)) < key (EaName (snd q))) (ea_entries n')"
  proof (rule sorted_wrt_mono_rel)
    show "sorted_wrt (\<lambda>p q. key (fst p) < key (fst q)) (ea_entries n')" using ok by (simp add: ea_ok_def)
  qed (use nm in simp)
  then have "sorted_wrt (\<lambda>a b. key (EaName a) < key (EaName b)) ?L" by (simp add: sorted_wrt_map)
  moreover have eqm: "map (\<lambda>a. (key (EaName a), a)) ?L = map (\<lambda>(k, v). (key k, v)) (ea_entries n')"
    using nm by (auto simp: comp_def)
  have "map_of (map (\<lambda>a. (key (EaName a), a)) ?L) = fold (ea_assign key) eas (ea_abs key n)"
    unfolding eqm using h r by (simp add: ea_abs_def)
  moreover have "GetEa (room k) n' [] = (STATUS_SUCCESS, take k (map Some ?L @ [None]))"
    using get_ea_room [of k n'] by simp
  ultimately show ?thesis using r by blast
qed

theorem ea_set_then_get_witness:
  "let eas = [\<lparr>NextEntryOffset = 24, Flags = 0, EaName = [0x62], EaValue = [1]\<rparr>,
              \<lparr>NextEntryOffset = 0, Flags = 0, EaName = [0x42], EaValue = [2, 3]\<rparr>] in
   \<exists>L. GetEa (room 4) (snd (SetEa (each_ea eas) ea_windows plain_node)) [] =
         (STATUS_SUCCESS, take 4 (map Some L @ [None])) \<and>
       map_of (map (\<lambda>a. (ea_upper (EaName a), a)) L) =
         [[0x42] \<mapsto> \<lparr>NextEntryOffset = 0, Flags = 0, EaName = [0x42], EaValue = [2, 3]\<rparr>]"
proof -
  define a :: ea_info where "a = \<lparr>NextEntryOffset = 24, Flags = 0, EaName = [0x62], EaValue = [1]\<rparr>"
  define b :: ea_info where "b = \<lparr>NextEntryOffset = 0, Flags = 0, EaName = [0x42], EaValue = [2, 3]\<rparr>"
  have en: "enumerates (each_ea [a, b]) [a, b]" by (simp add: enumerates_def)
  have ok: "ea_ok ea_upper plain_node" by (simp add: ea_ok_def ea_entries_def plain_node_def)
  have up: "ea_upper [0x62] = [0x42]" "ea_upper [0x42] = [0x42]" by (simp_all add: ea_upper_def)
  have "fold (ea_assign ea_upper) [a, b] (ea_abs ea_upper plain_node) = [[0x42] \<mapsto> b]"
    by (simp add: ea_assign_def a_def b_def up ea_abs_def ea_entries_def plain_node_def)
  then obtain L where "GetEa (room 4) (snd (SetEa (each_ea [a, b]) ea_windows plain_node)) [] =
      (STATUS_SUCCESS, take 4 (map Some L @ [None]))"
    "map_of (map (\<lambda>a. (ea_upper (EaName a), a)) L) = [[0x42] \<mapsto> b]"
    using ea_set_then_get [OF ea_windows_ok(1,2) ok en prod.collapse [symmetric], of 4] by auto
  then show ?thesis unfolding Let_def a_def [symmetric] b_def [symmetric] by blast
qed

section \<open>The size field\<close>

text \<open>\<open>FileInfo.EaSize\<close> against the packed size of the attributes: setting a new name keeps the difference;
  replacing or deleting an existing one shifts it by the old attribute's packed size less the request's, since the
  code subtracts the size of the request (\<open>Ea\<close>) where it erases the old entry. The field is right only as long as
  every request that hits a name has the size of the stored attribute.\<close>

lemma ea_size_drift:
  assumes "ea_order e key" "ea_memory e" "ea_ok key n" "packed_ignores_offset e"
    and "MemfsFileNodeSetEa e Ea n = (st, n')"
  shows "EaSize n' - ea_total e n' = EaSize n - ea_total e n +
      (case ea_abs key n (key (EaName Ea)) of None \<Rightarrow> 0
       | Some old \<Rightarrow> GetEaPackedSize e old - GetEaPackedSize e Ea)"
  by (rule set_ea_step(2) [OF assms(1-3,5,4)])

definition tagged_node :: ea_node where
  "tagged_node = plain_node\<lparr>EaMap := Some [([0x42], \<lparr>NextEntryOffset = 0, Flags = 0, EaName = [0x42], EaValue = [7, 8, 9]\<rparr>)],
     EaSize := 9\<rparr>"

text \<open>After the only attribute, with a value of 3 bytes, is deleted, the field still reports 3.\<close>

lemma ea_size_after_delete:
  "EaSize tagged_node = ea_total ea_windows tagged_node \<and>
   (let n' = snd (MemfsFileNodeSetEa ea_windows \<lparr>NextEntryOffset = 0, Flags = 0, EaName = [0x62], EaValue = []\<rparr> tagged_node) in
    EaSize n' - ea_total ea_windows n' = 3)"
proof -
  have ok: "ea_ok ea_upper tagged_node" by (simp add: ea_ok_def ea_entries_def tagged_node_def)
  have z: "EaSize tagged_node = 9" "ea_total ea_windows tagged_node = 9"
    by (simp_all add: tagged_node_def ea_total_def ea_entries_def ea_windows_def)
  have up: "ea_upper [0x62] = [0x42]" "ea_upper [0x42] = [0x42]" by (simp_all add: ea_upper_def)
  have a: "ea_abs ea_upper tagged_node [0x42] = Some \<lparr>NextEntryOffset = 0, Flags = 0, EaName = [0x42], EaValue = [7, 8, 9]\<rparr>"
    by (simp add: ea_abs_def ea_entries_def tagged_node_def up)
  have p: "GetEaPackedSize ea_windows ea = of_nat (5 + length (EaName ea) + length (EaValue ea))" for ea
    by (simp add: ea_windows_def)
  show ?thesis
    using ea_size_drift [OF ea_windows_ok(1,2) ok ea_windows_ok(3) prod.collapse [symmetric],
      of "\<lparr>NextEntryOffset = 0, Flags = 0, EaName = [0x62], EaValue = []\<rparr>"]
    by (simp add: Let_def z up a p)
qed


text \<open>Overwriting a file with distinct names starts from an empty map, and the field is exact.\<close>

lemma each_ea_exact:
  assumes "ea_order e key" "ea_memory e" "packed_ignores_offset e" "ea_ok key n" "EaSize n = ea_total e n"
    and "distinct (map (key \<circ> EaName) eas)" "\<forall>a \<in> set eas. ea_abs key n (key (EaName a)) = None"
    and "each_ea eas (MemfsFileNodeSetEa e) n = (st, n')"
  shows "EaSize n' = ea_total e n'"
  using assms(4-8)
proof (induction eas arbitrary: n)
  case (Cons ea eas)
  obtain st1 n1 where s: "MemfsFileNodeSetEa e ea n = (st1, n1)" by fastforce
  note h = set_ea_step(1) [OF assms(1,2) Cons.prems(1) s]
  have "EaSize n1 - ea_total e n1 = 0"
    using set_ea_step(2) [OF assms(1,2) Cons.prems(1) s assms(3)] Cons.prems by simp
  moreover have "each_ea eas (MemfsFileNodeSetEa e) n1 = (st, n')" using Cons.prems(5) s h by simp
  moreover have "\<forall>a \<in> set eas. ea_abs key n1 (key (EaName a)) = None"
  proof
    fix a assume a: "a \<in> set eas"
    then have "key (EaName a) \<noteq> key (EaName ea)" using Cons.prems(3) by (auto simp: image_iff)
    then show "ea_abs key n1 (key (EaName a)) = None" using h Cons.prems(4) a by (simp add: ea_assign_def)
  qed
  ultimately show ?case using Cons.IH [of n1] h Cons.prems(3) by simp
qed simp

lemma overwrite_ea_exact:
  assumes "ea_order e key" "ea_memory e" "packed_ignores_offset e" "enumerates EnumerateEa eas"
    and "distinct (map (key \<circ> EaName) eas)" "EaMap n = None \<longrightarrow> EaSize n = 0"
    and "OverwriteEas (Some EnumerateEa) e n = (st, n')"
  shows "st = STATUS_SUCCESS \<and> EaSize n' = ea_total e n' \<and>
    ea_abs key n' = fold (ea_assign key) eas Map.empty"
proof -
  define n1 where "n1 = MemfsFileNodeDeleteEaMap n"
  have n1: "ea_entries n1 = []" "EaSize n1 = 0"
    using assms(6) by (auto simp: n1_def MemfsFileNodeDeleteEaMap_def ea_entries_def)
  have ok: "ea_ok key n1" "EaSize n1 = ea_total e n1" "ea_abs key n1 = Map.empty"
    using n1 by (simp_all add: ea_ok_def ea_total_def ea_abs_def)
  have run: "each_ea eas (MemfsFileNodeSetEa e) n1 = (st, n')"
    using assms(4,7) by (simp add: OverwriteEas_def n1_def enumerates_def Let_def)
  show ?thesis
    using each_ea_assign [OF assms(1,2) ok(1) run] each_ea_exact [OF assms(1-3) ok(1,2) assms(5) _ run] ok(3) by simp
qed

text \<open>When the map cannot grow, the request fails, but its old attribute is gone and the size unchanged.\<close>

lemma set_ea_no_room:
  assumes ord: "ea_order e key" and ok: "ea_ok key n" and "EaMap n = Some m" "\<forall>k. ea_malloc e k" "\<not> ea_map_grows e"
    "EaValue Ea \<noteq> []" and run: "MemfsFileNodeSetEa e Ea n = (st, n')"
  shows "st = STATUS_INSUFFICIENT_RESOURCES \<and> ea_abs key n' = (ea_abs key n)(key (EaName Ea) := None) \<and> EaSize n' = EaSize n"
proof -
  note K = ea_keyed [OF ord]
  obtain m1 er where er: "map_erase (ea_less e) (EaName Ea) m = (m1, er)" by fastforce
  have m: "ea_entries n = m" using assms(3) by (simp add: ea_entries_def)
  have srt: "keyed_map.sorted_map key (\<lambda>a. True) m"
    using ok m by (simp add: ea_ok_def keyed_map.sorted_map_def [OF K])
  have n': "st = STATUS_INSUFFICIENT_RESOURCES" "n' = n\<lparr>EaMap := Some m1\<rparr>"
    using run assms(3-6) er by (simp_all add: MemfsFileNodeSetEa_def MemfsFileNodeGetEaMap_def Let_def)
  have "ea_entries n' = m1" by (simp add: n'(2) ea_entries_def)
  then show ?thesis
    using keyed_map.erase_abs [OF K srt TrueI er] n' m
    by (simp add: ea_abs_def keyed_map.map_abs_def [OF K])
qed

end
