(* ===== verification/Memfs_Streams.thy ===== *)
theory Memfs_Streams
  imports Memfs_Tree
begin

text \<open>
  Named streams of \<open>src/win_vdisk.cpp\<close>, the code under \<open>MEMFS_NAMED_STREAMS\<close> (a build option that the file leaves
  off): a stream \<open>name:stream\<close> is a node of its own in the table, and its field \<open>MainFileNode\<close> points to the
  node of the file. Here that field is the function \<open>main\<close>, from the address of a node.

  Modelled are the functions that exist only in this build or behave differently in it: the prefix test, the
  look-up of the main node, the test for children, the enumeration of a file's streams, \<open>GetStreamInfo\<close>, and the
  file information and deletion of a node; the other handlers are in Memfs_Streams_Ops. \<open>FspFileSystemAddStreamInfo\<close> of WinFsp is the argument \<open>add\<close>.
\<close>

section \<open>The code\<close>

text \<open>\<open>MemfsFileNameHasPrefix\<close>, \<open>MemfsFileNodeGetFileInfo\<close> and \<open>MemfsFileNodeMapHasChild\<close> of this build.\<close>

definition HasPrefix_ns :: "locale_fns \<Rightarrow> wstr \<Rightarrow> wstr \<Rightarrow> bool \<Rightarrow> bool" where
  "HasPrefix_ns os a b ci \<longleftrightarrow>
     length a \<ge> length b \<and> MemfsFileNameCompare os a (int (length b)) b (int (length b)) ci = 0 \<and>
     (length a = length b \<or> b = [BSLASH] \<or> char_at (drop (length b) a) = BSLASH \<or> char_at (drop (length b) a) = COLON)"

definition GetFileInfo_ns :: "(nat \<Rightarrow> nat option) \<Rightarrow> nat \<Rightarrow> memfs \<Rightarrow> file_info option" where
  "GetFileInfo_ns main r s = do {
     n \<leftarrow> nodes s r;
     (case main r of
        None \<Rightarrow> Some (FileInfo n)
      | Some q \<Rightarrow> do {
          mn \<leftarrow> nodes s q;
          Some ((FileInfo mn)\<lparr>FileAttributes := FileAttributes (FileInfo mn) AND NOT FILE_ATTRIBUTE_DIRECTORY,
            AllocationSize := AllocationSize (FileInfo n), FileSize := FileSize (FileInfo n)\<rparr>)
        })
   }"

definition MemfsFileNodeMapGetMain :: "env \<Rightarrow> wstr \<Rightarrow> memfs \<Rightarrow> nat option option" where
  "MemfsFileNodeMapGetMain e name s =
     (if MEMFS_MAX_PATH \<le> length name then None
      else if COLON \<notin> set name then Some None
      else Some (map_find (name_lt e s) (takeWhile (\<lambda>c. c \<noteq> COLON) name) (FileNodeMap s)))"

fun has_child_ns :: "env \<Rightarrow> memfs \<Rightarrow> file_node \<Rightarrow> (wstr \<times> nat) list \<Rightarrow> bool option" where
  "has_child_ns e s n [] = Some False"
| "has_child_ns e s n ((k, r2) # es) = do {
     n2 \<leftarrow> nodes s r2;
     if COLON \<in> set (FileName n2) then has_child_ns e s n es
     else Some (is_parent_name e s (FileName n2) (FileName n))
   }"

definition HasChild_ns :: "env \<Rightarrow> nat \<Rightarrow> memfs \<Rightarrow> bool option" where
  "HasChild_ns e r s = do {
     n \<leftarrow> nodes s r;
     has_child_ns e s n (upper_bound (name_lt e s) (FileName n) (FileNodeMap s))
   }"

fun enum_streams :: "env \<Rightarrow> memfs \<Rightarrow> file_node \<Rightarrow> (nat \<Rightarrow> file_node \<Rightarrow> 'c \<Rightarrow> bool \<times> 'c) \<Rightarrow> (wstr \<times> nat) list \<Rightarrow> 'c \<Rightarrow>
   (bool \<times> 'c) option" where
  "enum_streams e s n EnumFn [] ctx = Some (True, ctx)"
| "enum_streams e s n EnumFn ((k, r2) # es) ctx = do {
     n2 \<leftarrow> nodes s r2;
     if \<not> HasPrefix_ns (fns e) (FileName n2) (FileName n) (CaseInsensitive s) then Some (True, ctx)
     else if COLON \<noteq> char_at (drop (length (FileName n)) (FileName n2)) then Some (True, ctx)
     else (let (continue, ctx') = EnumFn r2 n2 ctx in
       if \<not> continue then Some (False, ctx') else enum_streams e s n EnumFn es ctx')
   }"

definition MemfsFileNodeMapEnumerateNamedStreams :: "env \<Rightarrow> nat \<Rightarrow> (nat \<Rightarrow> file_node \<Rightarrow> 'c \<Rightarrow> bool \<times> 'c) \<Rightarrow>
   memfs \<Rightarrow> 'c \<Rightarrow> (bool \<times> 'c) option" where
  "MemfsFileNodeMapEnumerateNamedStreams e r EnumFn s ctx = do {
     n \<leftarrow> nodes s r;
     enum_streams e s n EnumFn (upper_bound (name_lt e s) (FileName n) (FileNodeMap s)) ctx
   }"

text \<open>\<open>FSP_FSCTL_STREAM_INFO\<close>: the stream's name, its size and its allocation.\<close>

type_synonym stream_info = "wstr \<times> u64 \<times> u64"

definition AddStreamInfo :: "(stream_info option \<Rightarrow> 'b \<Rightarrow> bool \<times> 'b) \<Rightarrow> file_node \<Rightarrow> 'b \<Rightarrow> bool \<times> 'b" where
  "AddStreamInfo add n buf =
     (let StreamName = (if COLON \<in> set (FileName n) then tl (dropWhile (\<lambda>c. c \<noteq> COLON) (FileName n)) else []) in
      add (Some (StreamName, FileSize (FileInfo n), AllocationSize (FileInfo n))) buf)"

definition GetStreamInfo :: "env \<Rightarrow> (stream_info option \<Rightarrow> 'b \<Rightarrow> bool \<times> 'b) \<Rightarrow> (nat \<Rightarrow> nat option) \<Rightarrow> nat \<Rightarrow> memfs \<Rightarrow> 'b \<Rightarrow>
   (ntstatus \<times> 'b) option" where
  "GetStreamInfo e add main r s buf = do {
     _ \<leftarrow> nodes s r;
     let q = (case main r of Some m \<Rightarrow> m | None \<Rightarrow> r);
     n \<leftarrow> nodes s q;
     let (room_left, buf1) = (if FileAttributes (FileInfo n) AND FILE_ATTRIBUTE_DIRECTORY = 0
                              then AddStreamInfo add n buf else (True, buf));
     if \<not> room_left then Some (STATUS_SUCCESS, buf1)
     else do {
       (complete, buf2) \<leftarrow> MemfsFileNodeMapEnumerateNamedStreams e q (\<lambda>r2 n2. AddStreamInfo add n2) s buf1;
       Some (STATUS_SUCCESS, if complete then snd (add None buf2) else buf2)
     }
   }"

text \<open>The deletion at the end of \<open>Cleanup\<close> (\<open>FspCleanupDelete\<close>): the streams of the node are collected without a
  reference and removed, then the node itself.\<close>

fun remove_all :: "env \<Rightarrow> nat list \<Rightarrow> memfs \<Rightarrow> memfs option" where
  "remove_all e [] s = Some s"
| "remove_all e (r # rs) s = do { s1 \<leftarrow> MemfsFileNodeMapRemove e r s; remove_all e rs s1 }"

definition CleanupDelete_ns :: "env \<Rightarrow> nat \<Rightarrow> memfs \<Rightarrow> memfs option" where
  "CleanupDelete_ns e r s = do {
     child \<leftarrow> HasChild_ns e r s;
     if child then Some s
     else do {
       (_, found) \<leftarrow> MemfsFileNodeMapEnumerateNamedStreams e r (\<lambda>r2 n2 rs. (True, rs @ [r2])) s [];
       s1 \<leftarrow> remove_all e found s;
       MemfsFileNodeMapRemove e r s1
     }
   }"

section \<open>Names with a stream\<close>

definition stream_path :: "wstr list \<Rightarrow> wstr \<Rightarrow> wstr" where
  "stream_path cs t = path_of cs @ COLON # t"

definition adm_entry :: "bool \<Rightarrow> wstr \<Rightarrow> bool" where
  "adm_entry ci k \<longleftrightarrow> name_ok ci k \<and> length k < MEMFS_MAX_PATH \<and>
     (\<exists>cs. comps_ok cs \<and> (k = path_of cs \<or> (\<exists>t. comp_ok t \<and> k = stream_path cs t)))"

definition streams_ok :: "memfs \<Rightarrow> bool" where
  "streams_ok s \<longleftrightarrow> names.sorted_map (CaseInsensitive s) (FileNodeMap s) \<and>
     (\<forall>(k, r) \<in> set (FileNodeMap s). adm_entry (CaseInsensitive s) k \<and> (\<exists>n. nodes s r = Some n \<and> FileName n = k))"

definition is_stream_of :: "memfs \<Rightarrow> wstr \<Rightarrow> wstr \<Rightarrow> bool" where
  "is_stream_of s file k \<longleftrightarrow>
     (\<exists>cs t. comps_ok cs \<and> comp_ok t \<and> k = stream_path cs t \<and> entry_key s (path_of cs) = entry_key s file)"

lemma colon_comp: "comp_ok t \<Longrightarrow> COLON \<notin> set t"
  by (auto simp: comp_ok_def is_sep_def)

lemma colon_path: "comps_ok cs \<Longrightarrow> COLON \<notin> set (path_of cs)"
  by (auto simp: path_of_def comps_ok_def dest: colon_comp)

lemma name_key_stream_joined:
  assumes "comps_ok cs" "comp_ok t"
  shows "name_key ci (joined cs @ COLON # t) = map (\<lambda>c. (2, map (fold_char ci) c)) cs @ [(1, map (fold_char ci) t)]"
  using assms(1)
proof (induction cs)
  case Nil
  obtain x xs where t: "t = x # xs" "\<not> is_sep x" using assms(2) by (cases t) (auto simp: comp_ok_def)
  have w: "takeWhile (\<lambda>x. \<not> is_sep x) t = t" "dropWhile (\<lambda>x. \<not> is_sep x) t = []"
    using assms(2) by (auto simp: comp_ok_def)
  have sk: "skip_seps 0 (COLON # t) = (COLON, t)" using t by (simp add: is_sep_def)
  show ?case by (subst name_key.simps) (simp add: sk w sep_class_def del: skip_seps.simps)
next
  case (Cons c cs)
  obtain x xs where c: "c = x # xs" "\<not> is_sep x" using Cons.prems by (cases c) (auto simp: comp_ok_def)
  obtain y ys where rest: "joined cs @ COLON # t = y # ys" "is_sep y" by (cases cs) (auto simp: is_sep_def)
  have c2: "\<forall>x \<in> set c. \<not> is_sep x" using Cons.prems by (simp add: comp_ok_def)
  have w: "takeWhile (\<lambda>x. \<not> is_sep x) (c @ y # ys) = c" "dropWhile (\<lambda>x. \<not> is_sep x) (c @ y # ys) = y # ys"
    using c2 rest(2) by (simp_all add: takeWhile_append dropWhile_append)
  have sk: "skip_seps 0 (BSLASH # c @ y # ys) = (BSLASH, c @ y # ys)" using c by simp
  have "name_key ci (BSLASH # c @ y # ys) = (2, map (fold_char ci) c) # name_key ci (y # ys)"
    by (subst name_key.simps) (use w sk in simp)
  then show ?case using Cons rest(1) by simp
qed

lemma name_key_stream:
  assumes "comps_ok cs" "comp_ok t"
  shows "name_key ci (stream_path cs t) = (if cs = [] then [] else path_key ci cs) @ [(1, map (fold_char ci) t)]"
proof (cases "cs = []")
  case True
  obtain x xs where t: "t = x # xs" "\<not> is_sep x" using assms(2) by (cases t) (auto simp: comp_ok_def)
  have w: "takeWhile (\<lambda>x. \<not> is_sep x) t = t" "dropWhile (\<lambda>x. \<not> is_sep x) t = []"
    using assms(2) by (auto simp: comp_ok_def)
  have sk: "skip_seps 0 (BSLASH # COLON # t) = (COLON, t)" using t by (simp add: is_sep_def)
  have "name_key ci (BSLASH # COLON # t) = [(1, map (fold_char ci) t)]"
    by (subst name_key.simps) (simp add: sk w sep_class_def del: skip_seps.simps)
  then show ?thesis using True by (simp add: stream_path_def path_of_def)
next
  case False
  then show ?thesis using name_key_stream_joined [OF assms, of ci] by (simp add: stream_path_def path_of_def path_key_def)
qed

lemma path_key_classes: "(c, u) \<in> set (path_key ci cs) \<Longrightarrow> c = 2"
  by (auto simp: path_key_def split: if_splits)

section \<open>The streams of a file follow it in the order\<close>

text \<open>The test that the enumeration makes of a name.\<close>

abbreviation passes :: "env \<Rightarrow> memfs \<Rightarrow> wstr \<Rightarrow> wstr \<Rightarrow> bool" where
  "passes e s f k \<equiv> HasPrefix_ns (fns e) k f (CaseInsensitive s) \<and> COLON = char_at (drop (length f) k)"

lemma stream_position:
  assumes "comps_ok cs" "comp_ok t" "char_at (drop m (stream_path cs t)) = COLON"
  shows "m = length (path_of cs)"
proof (rule ccontr)
  assume ne: "m \<noteq> length (path_of cs)"
  have "m < length (stream_path cs t)"
  proof (rule ccontr)
    assume "\<not> m < length (stream_path cs t)"
    then have "drop m (stream_path cs t) = []" by simp
    then show False using assms(3) by simp
  qed
  then have at: "stream_path cs t ! m = COLON" using assms(3) by (simp add: Cons_nth_drop_Suc [symmetric])
  show False
  proof (cases "m < length (path_of cs)")
    case True
    then have "path_of cs ! m = COLON" using at by (simp add: stream_path_def nth_append)
    then show False using True colon_path [OF assms(1)] nth_mem by metis
  next
    case False
    then obtain j where j: "m = length (path_of cs) + Suc j"
      using ne by (metis add_Suc_right less_imp_Suc_add nat_neq_iff)
    then have "t ! j = COLON" "j < length t" using at \<open>m < length (stream_path cs t)\<close> by (simp_all add: stream_path_def nth_append)
    then show False using colon_comp [OF assms(2)] nth_mem by metis
  qed
qed

lemma passes_iff:
  assumes "adm_entry (CaseInsensitive s) k" "comps_ok ds" "f = path_of ds" "name_ok (CaseInsensitive s) f"
  shows "passes e s f k \<longleftrightarrow> is_stream_of s f k"
proof
  assume p: "passes e s f k"
  obtain cs where cs: "comps_ok cs" "k = path_of cs \<or> (\<exists>t. comp_ok t \<and> k = stream_path cs t)"
    using assms(1) by (auto simp: adm_entry_def)
  have "COLON \<in> set k"
  proof -
    have "drop (length f) k \<noteq> []" using p by auto
    then have "COLON = hd (drop (length f) k)" using p by (cases "drop (length f) k") simp_all
    then show ?thesis using \<open>drop (length f) k \<noteq> []\<close> by (metis hd_in_set in_set_dropD)
  qed
  then obtain t where t: "comp_ok t" "k = stream_path cs t" using cs colon_path [OF cs(1)] by auto
  have len: "length f = length (path_of cs)" using stream_position [OF cs(1) t(1)] p t(2) by metis
  then have tk: "take (length f) k = path_of cs" by (simp add: t(2) stream_path_def)
  have ok: "name_ok (CaseInsensitive s) (path_of cs)" using assms(1) t(2) by (simp add: adm_entry_def stream_path_def)
  have "MemfsFileNameCompare (fns e) k (int (length f)) f (int (length f)) (CaseInsensitive s) = 0"
    using p by (simp add: HasPrefix_ns_def)
  then have "entry_key s (path_of cs) = entry_key s f"
    using compare_loop_key [OF ok assms(4), of "fns e"] by (simp add: MemfsFileNameCompare_def tk)
  then show "is_stream_of s f k" using cs(1) t by (auto simp: is_stream_of_def)
next
  assume "is_stream_of s f k"
  then obtain cs t where h: "comps_ok cs" "comp_ok t" "k = stream_path cs t" "entry_key s (path_of cs) = entry_key s f"
    by (auto simp: is_stream_of_def)
  have ok: "name_ok (CaseInsensitive s) (path_of cs)" using assms(1) h(3) by (simp add: adm_entry_def stream_path_def)
  have "path_key (CaseInsensitive s) cs = path_key (CaseInsensitive s) ds"
    using h(4) name_key_path [OF h(1)] name_key_path [OF assms(2)] assms(3) by simp
  then have len: "length f = length (path_of cs)" using path_key_eq_lengths [OF _ h(1) assms(2)] assms(3) by simp
  then have tk: "take (length f) k = path_of cs" "drop (length f) k = COLON # t" by (simp_all add: h(3) stream_path_def)
  have "MemfsFileNameCompare (fns e) k (int (length f)) f (int (length f)) (CaseInsensitive s) = 0"
    using compare_loop_key [OF ok assms(4), of "fns e"] h(4) by (simp add: MemfsFileNameCompare_def tk)
  moreover have "length f \<le> length k" using len by (simp add: h(3) stream_path_def)
  ultimately show "passes e s f k" by (simp add: HasPrefix_ns_def tk)
qed

lemma is_stream_key:
  assumes "is_stream_of s f k" "f \<noteq> [BSLASH]" "comps_ok ds" "f = path_of ds"
  shows "\<exists>u. entry_key s k = entry_key s f @ [(1, u)]"
proof -
  obtain cs t where h: "comps_ok cs" "comp_ok t" "k = stream_path cs t" "entry_key s (path_of cs) = entry_key s f"
    using assms(1) by (auto simp: is_stream_of_def)
  have "cs \<noteq> []"
  proof
    assume "cs = []"
    then have "path_key (CaseInsensitive s) ds = [(2, [])]"
      using h(4) name_key_path [OF assms(3)] name_key_path [OF h(1)] assms(4) by (simp add: path_key_def)
    then have "ds = []" using path_key_root [OF assms(3)] by blast
    then show False using assms(2,4) by (simp add: path_of_def)
  qed
  then show ?thesis using name_key_stream [OF h(1,2)] h(3,4) name_key_path [OF h(1)] by auto
qed

text \<open>An entry between a file and one of its streams is a stream of the file.\<close>

lemma between_stream:
  assumes f: "comps_ok ds" "f = path_of ds" "f \<noteq> [BSLASH]"
    and x: "adm_entry (CaseInsensitive s) x" "entry_key s f < entry_key s x" "entry_key s x < entry_key s y"
    and y: "is_stream_of s f y"
  shows "is_stream_of s f x"
proof -
  obtain u where u: "entry_key s y = entry_key s f @ [(1, u)]" using is_stream_key [OF y f(3,1,2)] by blast
  obtain Y where Y: "entry_key s x = entry_key s f @ Y" "Y \<noteq> []"
    using between_extends [OF x(2), of "[(1, u)]"] x(3) u by auto
  obtain c v Y' where Yc: "Y = (c, v) # Y'" using Y(2) by (cases Y) auto
  have c: "c \<le> 1"
  proof -
    have "K @ A < K @ B \<longleftrightarrow> A < B" for K A B :: "(int \<times> wstr) list" by (induction K) simp_all
    then have "Y < [(1, u)]" using x(3) u Y by simp
    then show ?thesis by (auto simp: Yc less_prod_def')
  qed
  have fne: "entry_key s f \<noteq> []" using path_of_nonempty(1) [of ds] f(2) by simp
  obtain cs where cs: "comps_ok cs" "x = path_of cs \<or> (\<exists>t. comp_ok t \<and> x = stream_path cs t)"
    using x(1) by (auto simp: adm_entry_def)
  have "x \<noteq> path_of cs"
  proof
    assume "x = path_of cs"
    then have "path_key (CaseInsensitive s) cs = entry_key s f @ (c, v) # Y'"
      using Y Yc name_key_path [OF cs(1)] by simp
    then have "(c, v) \<in> set (path_key (CaseInsensitive s) cs)" by simp
    then show False using c path_key_classes by fastforce
  qed
  then obtain t where t: "comp_ok t" "x = stream_path cs t" using cs by blast
  let ?K = "if cs = [] then [] else path_key (CaseInsensitive s) cs"
  have k: "?K @ [(1, map (fold_char (CaseInsensitive s)) t)] = entry_key s f @ (c, v) # Y'"
    using name_key_stream [OF cs(1) t(1)] t(2) Y Yc by simp
  have "Y' = []"
  proof (rule ccontr)
    assume ne: "Y' \<noteq> []"
    have "butlast (?K @ [(1, map (fold_char (CaseInsensitive s)) t)]) = entry_key s f @ (c, v) # butlast Y'"
      unfolding k using ne by (simp add: butlast_append)
    then have "?K = entry_key s f @ (c, v) # butlast Y'" by simp
    then have "(c, v) \<in> set ?K" by simp
    then show False using c path_key_classes [of c v "CaseInsensitive s" cs] by (auto split: if_splits)
  qed
  then have K: "?K = entry_key s f" using k by simp
  then have "cs \<noteq> []" using fne by auto
  then have "entry_key s (path_of cs) = entry_key s f" using K name_key_path [OF cs(1)] by simp
  then show ?thesis using cs(1) t by (auto simp: is_stream_of_def)
qed

section \<open>Running an enumeration\<close>

fun run_list :: "('a \<Rightarrow> 'c \<Rightarrow> bool \<times> 'c) \<Rightarrow> 'a list \<Rightarrow> 'c \<Rightarrow> bool \<times> 'c" where
  "run_list f [] ctx = (True, ctx)"
| "run_list f (x # xs) ctx =
     (let (continue, ctx') = f x ctx in if \<not> continue then (False, ctx') else run_list f xs ctx')"

lemma run_list_room:
  "length buf \<le> k \<Longrightarrow>
   run_list (\<lambda>x. room k (g x)) xs buf = (length buf + length xs \<le> k, take k (buf @ map g xs))"
  by (induction xs arbitrary: buf) (simp_all add: room_def take_Cons')

lemma run_list_collect: "run_list (\<lambda>x rs. (True, rs @ [h x])) xs rs = (True, rs @ map h xs)"
  by (induction xs arbitrary: rs) simp_all

definition streams_of :: "memfs \<Rightarrow> wstr \<Rightarrow> (wstr \<times> nat) list" where
  "streams_of s f = filter (\<lambda>e. is_stream_of s f (fst e)) (FileNodeMap s)"

lemma enum_streams_run:
  assumes "\<forall>(k, r) \<in> set es. \<exists>m. nodes s r = Some m \<and> FileName m = k"
  shows "enum_streams e s n EnumFn es ctx =
    Some (run_list (\<lambda>(k, r). EnumFn r (the (nodes s r))) (takeWhile (\<lambda>x. passes e s (FileName n) (fst x)) es) ctx)"
  using assms
proof (induction es arbitrary: ctx)
  case (Cons x es)
  obtain k r where x: "x = (k, r)" by (cases x)
  obtain m where m: "nodes s r = Some m" "FileName m = k" using Cons.prems x by auto
  have "\<forall>(k, r) \<in> set es. \<exists>m. nodes s r = Some m \<and> FileName m = k" using Cons.prems by simp
  note IH = Cons.IH [OF this]
  show ?case by (auto simp: x m IH split: prod.splits)
qed simp

lemma streams_above:
  assumes ok: "streams_ok s" and f: "comps_ok ds" "f = path_of ds" "name_ok (CaseInsensitive s) f"
  shows "takeWhile (\<lambda>x. passes e s f (fst x)) (upper_bound (name_lt e s) f (FileNodeMap s)) =
    (if f = [BSLASH] then [] else streams_of s f)"
proof -
  let ?up = "filter (\<lambda>x. entry_key s f < entry_key s (fst x)) (FileNodeMap s)"
  have srt: "names.sorted_map (CaseInsensitive s) (FileNodeMap s)" using ok by (simp add: streams_ok_def)
  have up: "upper_bound (name_lt e s) f (FileNodeMap s) = ?up"
    using names.split_at [OF srt f(3), of "fns e"] by (simp add: name_lt_def)
  have adm: "adm_entry (CaseInsensitive s) (fst x)" if "x \<in> set (FileNodeMap s)" for x
    using ok that by (auto simp: streams_ok_def)
  have iff: "passes e s f (fst x) \<longleftrightarrow> is_stream_of s f (fst x)" if "x \<in> set (FileNodeMap s)" for x
    by (rule passes_iff [OF adm [OF that] f])
  show ?thesis
  proof (cases "f = [BSLASH]")
    case True
    have "\<not> passes e s f (fst x)" if x: "x \<in> set ?up" for x
    proof
      assume "passes e s f (fst x)"
      then obtain cs t where h: "comps_ok cs" "comp_ok t" "fst x = stream_path cs t" "entry_key s (path_of cs) = entry_key s f"
        using iff x by (auto simp: is_stream_of_def)
      have "path_key (CaseInsensitive s) cs = [(2, [])]"
        using h(4) True name_key_path [OF h(1)] root_key by simp
      then have "cs = []" using path_key_root [OF h(1)] by blast
      then have "entry_key s (fst x) = [(1, map (fold_char (CaseInsensitive s)) t)]"
        using name_key_stream [OF h(1,2)] h(3) by simp
      then show False using x True root_key by (simp add: less_prod_def')
    qed
    then have "takeWhile (\<lambda>x. passes e s f (fst x)) ?up = []"
      unfolding takeWhile_eq_Nil_iff by (meson hd_in_set)
    then show ?thesis using True up by simp
  next
    case False
    have "takeWhile (\<lambda>x. passes e s f (fst x)) ?up = filter (\<lambda>x. passes e s f (fst x)) ?up"
    proof (rule takeWhile_sorted_filter)
      show "sorted_wrt (\<lambda>x y. entry_key s (fst x) < entry_key s (fst y)) ?up"
        using srt by (simp add: names.sorted_map_def sorted_wrt_filter)
    next
      fix x y assume x: "x \<in> set ?up" and y: "y \<in> set ?up" and lt: "entry_key s (fst x) < entry_key s (fst y)"
        and p: "passes e s f (fst y)"
      have "is_stream_of s f (fst x)"
        using between_stream [OF f(1,2) False adm _ lt] x y iff p by auto
      then show "passes e s f (fst x)" using iff x by auto
    qed
    also have "\<dots> = filter (\<lambda>x. is_stream_of s f (fst x)) ?up"
      by (rule filter_cong [OF refl]) (use iff in auto)
    also have "\<dots> = streams_of s f"
    proof -
      have "K < K @ [(1, u)]" for K :: "(int \<times> wstr) list" and u by (induction K) simp_all
      then have "entry_key s f < entry_key s (fst x)" if "is_stream_of s f (fst x)" for x :: "wstr \<times> nat"
        using is_stream_key [OF that False f(1,2)] by auto
      then show ?thesis by (auto simp: streams_of_def intro: filter_cong)
    qed
    finally show ?thesis using False up by simp
  qed
qed

lemma EnumerateNamedStreams_correct:
  assumes "streams_ok s" "nodes s r = Some n" "is_path (FileName n)" "name_ok (CaseInsensitive s) (FileName n)"
  shows "MemfsFileNodeMapEnumerateNamedStreams e r EnumFn s ctx =
    Some (run_list (\<lambda>(k, r2). EnumFn r2 (the (nodes s r2)))
      (if FileName n = [BSLASH] then [] else streams_of s (FileName n)) ctx)"
proof -
  obtain ds where ds: "comps_ok ds" "FileName n = path_of ds" using assms(3) by (auto simp: is_path_def)
  have "\<forall>(k, r) \<in> set (upper_bound (name_lt e s) (FileName n) (FileNodeMap s)). \<exists>m. nodes s r = Some m \<and> FileName m = k"
    using assms(1) by (auto simp: streams_ok_def upper_bound_def dest!: set_dropWhileD)
  then have "enum_streams e s n EnumFn (upper_bound (name_lt e s) (FileName n) (FileNodeMap s)) ctx =
    Some (run_list (\<lambda>(k, r). EnumFn r (the (nodes s r))) (takeWhile (\<lambda>x. passes e s (FileName n) (fst x))
      (upper_bound (name_lt e s) (FileName n) (FileNodeMap s))) ctx)" by (rule enum_streams_run)
  then have "enum_streams e s n EnumFn (upper_bound (name_lt e s) (FileName n) (FileNodeMap s)) ctx =
    Some (run_list (\<lambda>(k, r2). EnumFn r2 (the (nodes s r2)))
      (if FileName n = [BSLASH] then [] else streams_of s (FileName n)) ctx)"
    unfolding streams_above [OF assms(1) ds assms(4)] .
  then show ?thesis by (simp only: MemfsFileNodeMapEnumerateNamedStreams_def assms(2) Option.bind.bind_lunit)
qed

section \<open>Listing the streams\<close>

text \<open>The entry of a node: the part of its name behind the colon, and its sizes.\<close>

definition stream_entry :: "file_node \<Rightarrow> stream_info option" where
  "stream_entry n = Some (tl (dropWhile (\<lambda>c. c \<noteq> COLON) (FileName n)), FileSize (FileInfo n), AllocationSize (FileInfo n))"

lemma AddStreamInfo_entry: "AddStreamInfo add n buf = add (stream_entry n) buf"
proof (cases "COLON \<in> set (FileName n)")
  case False
  then have "dropWhile (\<lambda>c. c \<noteq> COLON) (FileName n) = []" by auto
  then have "tl (dropWhile (\<lambda>c. c \<noteq> COLON) (FileName n)) = []" by (simp only: list.sel(2))
  then show ?thesis using False unfolding AddStreamInfo_def stream_entry_def by (simp only: Let_def if_False)
qed (simp add: AddStreamInfo_def stream_entry_def)

text \<open>C35: \<open>GetStreamInfo\<close> on a file, or on one of its streams, returns as far as the buffer has room the unnamed
  stream (unless it is a directory), then exactly the named streams of the file in the order of the table, then the
  end mark. For the root directory it returns none: in the order its streams come before it, and the enumeration
  starts above it.\<close>

theorem stream_info_lists:
  assumes "streams_ok s" "nodes s r \<noteq> None" "(case main r of None \<Rightarrow> r | Some q \<Rightarrow> q) = q" "nodes s q = Some n"
    and "is_path (FileName n)" "name_ok (CaseInsensitive s) (FileName n)"
  shows "GetStreamInfo e (room k) main r s [] = Some (STATUS_SUCCESS, take k (
     (if FileAttributes (FileInfo n) AND FILE_ATTRIBUTE_DIRECTORY = 0 then [stream_entry n] else []) @
     (if FileName n = [BSLASH] then [] else map (\<lambda>(m, r2). stream_entry (the (nodes s r2))) (streams_of s (FileName n))) @ [None]))"
proof -
  let ?L = "if FileName n = [BSLASH] then [] else streams_of s (FileName n)"
  let ?g = "\<lambda>(m, r2). stream_entry (the (nodes s r2))"
  have fn: "(\<lambda>(m, r2). AddStreamInfo (room k) (the (nodes s r2))) = (\<lambda>x. room k (?g x))"
    by (auto simp: AddStreamInfo_entry fun_eq_iff)
  have en: "MemfsFileNodeMapEnumerateNamedStreams e q (\<lambda>r2 n2. AddStreamInfo (room k) n2) s buf =
      Some (length buf + length ?L \<le> k, take k (buf @ map ?g ?L))" if "length buf \<le> k" for buf
    unfolding EnumerateNamedStreams_correct [OF assms(1,4-6)] fn by (simp only: run_list_room [OF that])
  have q: "(case main r of Some q \<Rightarrow> q | None \<Rightarrow> r) = q" using assms(3) by (simp split: option.splits)
  obtain n0 where n0: "nodes s r = Some n0" using assms(2) by blast
  have L: "map ?g ?L = (if FileName n = [BSLASH] then [] else map ?g (streams_of s (FileName n)))" by simp
  define M where "M = map ?g ?L"
  have lM: "length ?L = length M" by (simp add: M_def)
  have "GetStreamInfo e (room k) main r s [] = Some (STATUS_SUCCESS, take k (
     (if FileAttributes (FileInfo n) AND FILE_ATTRIBUTE_DIRECTORY = 0 then [stream_entry n] else []) @ M @ [None]))"
  proof (cases "FileAttributes (FileInfo n) AND FILE_ATTRIBUTE_DIRECTORY = 0")
    case False
    have "MemfsFileNodeMapEnumerateNamedStreams e q (\<lambda>r2 n2. AddStreamInfo (room k) n2) s [] = Some (length M \<le> k, take k M)"
      using en [of "[]"] by (simp only: lM M_def [symmetric]) simp
    then show ?thesis using False by (simp add: GetStreamInfo_def n0 q assms(4) room_def take_Cons')
  next
    case True
    show ?thesis
    proof (cases k)
      case 0
      then show ?thesis using True by (simp add: GetStreamInfo_def n0 q assms(4) AddStreamInfo_entry room_def)
    next
      case (Suc j)
      have "MemfsFileNodeMapEnumerateNamedStreams e q (\<lambda>r2 n2. AddStreamInfo (room k) n2) s [stream_entry n] =
        Some (Suc (length M) \<le> k, take k (stream_entry n # M))"
        using en [of "[stream_entry n]"] Suc by (simp only: lM M_def [symmetric]) simp
      then show ?thesis
        using True Suc by (simp add: GetStreamInfo_def n0 q assms(4) AddStreamInfo_entry room_def take_Cons')
    qed
  qed
  then show ?thesis unfolding M_def L .
qed

definition stream_fs :: memfs where
  "stream_fs = \<lparr>nodes = [1 \<mapsto> demo_node [BSLASH] FILE_ATTRIBUTE_DIRECTORY 1, 2 \<mapsto> demo_node [BSLASH, 0x61] FILE_ATTRIBUTE_NORMAL 2,
       3 \<mapsto> demo_node [BSLASH, 0x61, COLON, 0x73] FILE_ATTRIBUTE_NORMAL 2, 4 \<mapsto> demo_node [BSLASH, COLON, 0x73] FILE_ATTRIBUTE_NORMAL 1],
     fresh_address = 5, next_index = 5, FileNodeMap = [([BSLASH, COLON, 0x73], 4), ([BSLASH], 1), ([BSLASH, 0x61], 2),
       ([BSLASH, 0x61, COLON, 0x73], 3)],
     CaseInsensitive = False, MaxFileNodes = 16, MaxFileSize = 4096, VolumeLabelLength = 0, VolumeLabel = replicate 32 0\<rparr>"

definition stream_main :: "nat \<Rightarrow> nat option" where
  "stream_main = [3 \<mapsto> 2, 4 \<mapsto> 1]"

lemma stream_names:
  "comps_ok []" "comps_ok [[0x61]]" "comp_ok [0x73]" "[BSLASH] = path_of []" "[BSLASH, 0x61] = path_of [[0x61]]"
  "[BSLASH, COLON, 0x73] = stream_path [] [0x73]" "[BSLASH, 0x61, COLON, 0x73] = stream_path [[0x61]] [0x73]"
  by (simp_all add: comp_ok_def is_sep_def path_of_def stream_path_def)

lemma adm_entryI:
  "comps_ok cs \<Longrightarrow> name_ok ci (path_of cs) \<Longrightarrow> length (path_of cs) < MEMFS_MAX_PATH \<Longrightarrow> adm_entry ci (path_of cs)"
  "comps_ok cs \<Longrightarrow> comp_ok t \<Longrightarrow> name_ok ci (stream_path cs t) \<Longrightarrow> length (stream_path cs t) < MEMFS_MAX_PATH \<Longrightarrow>
   adm_entry ci (stream_path cs t)"
  by (auto simp: adm_entry_def)

lemma stream_keys:
  "name_key False [BSLASH] = [(2, [])]" "name_key False [BSLASH, 0x61] = [(2, [0x61])]"
  "name_key False [BSLASH, COLON, 0x73] = [(1, [0x73])]" "name_key False [BSLASH, 0x61, COLON, 0x73] = [(2, [0x61]), (1, [0x73])]"
  using name_key_stream [OF stream_names(1,3), of False] name_key_stream [OF stream_names(2,3), of False]
    name_key_path [OF stream_names(1), of False] name_key_path [OF stream_names(2), of False]
  unfolding stream_names(4-7) [symmetric] by (simp_all add: path_key_def fold_char_def)

lemma stream_adm:
  "adm_entry False [BSLASH]" "adm_entry False [BSLASH, 0x61]" "adm_entry False [BSLASH, COLON, 0x73]"
  "adm_entry False [BSLASH, 0x61, COLON, 0x73]"
  using adm_entryI(1) [OF stream_names(1), of False] adm_entryI(1) [OF stream_names(2), of False]
    adm_entryI(2) [OF stream_names(1,3), of False] adm_entryI(2) [OF stream_names(2,3), of False]
  unfolding stream_names(4-7) [symmetric] by simp_all

lemma stream_fs_ok: "streams_ok stream_fs"
  unfolding streams_ok_def
proof
  show "names.sorted_map (CaseInsensitive stream_fs) (FileNodeMap stream_fs)"
    by (simp add: stream_fs_def names.sorted_map_def stream_keys less_prod_def')
  show "\<forall>(k, r) \<in> set (FileNodeMap stream_fs). adm_entry (CaseInsensitive stream_fs) k \<and>
      (\<exists>n. nodes stream_fs r = Some n \<and> FileName n = k)"
    by (simp add: stream_fs_def stream_adm demo_node_def)
qed

lemma stream_fs_fields [simp]:
  "CaseInsensitive stream_fs = False" "nodes stream_fs (Suc 0) = Some (demo_node [BSLASH] FILE_ATTRIBUTE_DIRECTORY 1)"
  "nodes stream_fs 2 = Some (demo_node [BSLASH, 0x61] FILE_ATTRIBUTE_NORMAL 2)"
  "nodes stream_fs 3 = Some (demo_node [BSLASH, 0x61, COLON, 0x73] FILE_ATTRIBUTE_NORMAL 2)"
  "nodes stream_fs 4 = Some (demo_node [BSLASH, COLON, 0x73] FILE_ATTRIBUTE_NORMAL 1)"
  by (simp_all add: stream_fs_def)

lemma stream_fs_streams: "streams_of stream_fs [BSLASH, 0x61] = [([BSLASH, 0x61, COLON, 0x73], 3)]"
proof -
  have no: "\<not> is_stream_of stream_fs [BSLASH, 0x61] k" if "length (name_key False k) = 1" for k
  proof
    assume "is_stream_of stream_fs [BSLASH, 0x61] k"
    then have "\<exists>u. entry_key stream_fs k = entry_key stream_fs [BSLASH, 0x61] @ [(1, u)]"
      by (rule is_stream_key [OF _ _ stream_names(2,5)]) simp
    then show False using that by (auto simp: stream_keys)
  qed
  have yes: "is_stream_of stream_fs [BSLASH, 0x61] [BSLASH, 0x61, COLON, 0x73]"
    unfolding is_stream_of_def using stream_names(2,3,5,7) by metis
  show ?thesis
    using yes no [of "[BSLASH, COLON, 0x73]"] no [of "[BSLASH]"] no [of "[BSLASH, 0x61]"]
    by (simp add: streams_of_def stream_fs_def stream_keys)
qed

theorem stream_info_lists_witness:
  "GetStreamInfo demo_env (room 5) stream_main 3 stream_fs [] =
     Some (STATUS_SUCCESS, [Some ([], 0, 0), Some ([0x73], 0, 0), None]) \<and>
   GetStreamInfo demo_env (room 5) stream_main 1 stream_fs [] = Some (STATUS_SUCCESS, [None]) \<and>
   ([BSLASH, COLON, 0x73], 4) \<in> set (FileNodeMap stream_fs)"
proof -
  have p: "is_path [BSLASH]" "is_path [BSLASH, 0x61]" unfolding is_path_def using stream_names by metis+
  have e: "stream_entry (demo_node [BSLASH, 0x61] FILE_ATTRIBUTE_NORMAL 2) = Some ([], 0, 0)"
    "stream_entry (demo_node [BSLASH, 0x61, COLON, 0x73] FILE_ATTRIBUTE_NORMAL 2) = Some ([0x73], 0, 0)"
    by (simp_all add: stream_entry_def demo_node_def zero_info_def)
  have "GetStreamInfo demo_env (room 5) stream_main 3 stream_fs [] =
     Some (STATUS_SUCCESS, [Some ([], 0, 0), Some ([0x73], 0, 0), None])"
    using stream_info_lists [OF stream_fs_ok, of 3 stream_main 2 "demo_node [BSLASH, 0x61] FILE_ATTRIBUTE_NORMAL 2" demo_env 5] p
    by (simp add: stream_main_def stream_fs_streams e)
  moreover have "GetStreamInfo demo_env (room 5) stream_main 1 stream_fs [] = Some (STATUS_SUCCESS, [None])"
    using stream_info_lists [OF stream_fs_ok, of 1 stream_main 1 "demo_node [BSLASH] FILE_ATTRIBUTE_DIRECTORY 1" demo_env 5] p
    by (simp add: stream_main_def)
  ultimately show ?thesis by (simp add: stream_fs_def)
qed

section \<open>Children\<close>

text \<open>With its streams skipped, the look at the next entry is that of the table without streams.\<close>

definition plain_fs :: "memfs \<Rightarrow> memfs" where
  "plain_fs s = s\<lparr>FileNodeMap := filter (\<lambda>x. COLON \<notin> set (fst x)) (FileNodeMap s)\<rparr>"

lemma has_child_ns_skip:
  assumes "\<forall>(k, r) \<in> set es. \<exists>m. nodes s r = Some m \<and> FileName m = k"
  shows "has_child_ns e s n es = (case filter (\<lambda>x. COLON \<notin> set (fst x)) es of
      [] \<Rightarrow> Some False
    | (k, r2) # _ \<Rightarrow> do { n2 \<leftarrow> nodes s r2; Some (is_parent_name e s (FileName n2) (FileName n)) })"
  using assms by (induction es) auto

lemma HasChild_ns_plain:
  assumes "streams_ok s" "nodes s r = Some n" "name_ok (CaseInsensitive s) (FileName n)"
  shows "HasChild_ns e r s = MemfsFileNodeMapHasChild e r (plain_fs s)"
proof -
  have srt: "names.sorted_map (CaseInsensitive s) (FileNodeMap s)"
    "names.sorted_map (CaseInsensitive s) (filter (\<lambda>x. COLON \<notin> set (fst x)) (FileNodeMap s))"
    using assms(1) by (auto simp: streams_ok_def names.sorted_map_def sorted_wrt_filter)
  have up: "filter (\<lambda>x. COLON \<notin> set (fst x)) (upper_bound (name_lt e s) (FileName n) (FileNodeMap s)) =
      upper_bound (name_lt e (plain_fs s)) (FileName n) (FileNodeMap (plain_fs s))"
    using names.split_at [OF srt(1) assms(3), of "fns e"] names.split_at [OF srt(2) assms(3), of "fns e"]
    by (simp add: name_lt_def plain_fs_def conj_commute)
  have "\<forall>(k, r) \<in> set (upper_bound (name_lt e s) (FileName n) (FileNodeMap s)). \<exists>m. nodes s r = Some m \<and> FileName m = k"
    using assms(1) by (auto simp: streams_ok_def upper_bound_def dest!: set_dropWhileD)
  from has_child_ns_skip [OF this, of e n]
  have "HasChild_ns e r s = (case upper_bound (name_lt e (plain_fs s)) (FileName n) (FileNodeMap (plain_fs s)) of
      [] \<Rightarrow> Some False
    | (k, r2) # _ \<Rightarrow> do { n2 \<leftarrow> nodes s r2; Some (is_parent_name e s (FileName n2) (FileName n)) })"
    unfolding up using assms(2) by (simp add: HasChild_ns_def)
  moreover have "nodes (plain_fs s) = nodes s" "is_parent_name e (plain_fs s) = is_parent_name e s"
    by (auto simp: plain_fs_def is_parent_name_def fun_eq_iff)
  ultimately show ?thesis
    by (simp only: MemfsFileNodeMapHasChild_def assms(2) Option.bind.bind_lunit)
qed

lemma HasChild_ns_correct:
  assumes "path_laws e" "streams_ok s" "table_ok (plain_fs s)" "tree_closed (plain_fs s)" "nodes s r = Some n"
    "adm_path (CaseInsensitive s) (FileName n)"
  shows "HasChild_ns e r s = Some (\<exists>(k, r2) \<in> set (FileNodeMap s). COLON \<notin> set k \<and> is_child s (FileName n) k)"
proof -
  have "HasChild_ns e r s = MemfsFileNodeMapHasChild e r (plain_fs s)"
    by (rule HasChild_ns_plain [OF assms(2,5)]) (use assms(6) in \<open>simp add: adm_path_def\<close>)
  also have "\<dots> = Some (\<exists>(k, r2) \<in> set (FileNodeMap (plain_fs s)). is_child (plain_fs s) (FileName n) k)"
    using HasChild_correct [OF assms(1,3,4)] assms(5,6) by (simp add: plain_fs_def)
  finally show ?thesis by (auto simp: plain_fs_def is_child_def)
qed

section \<open>A stream does not keep its file alive\<close>

text \<open>A file and a stream of it are both open. Deleting the file removes both from the table; when the file is then
  closed its node is freed, and the open stream's \<open>MainFileNode\<close> dangles: reading its information is undefined.\<close>

lemma stream_touch:
  assumes "CaseInsensitive s = False" "map_find (name_lt demo_env s) [BSLASH] (FileNodeMap s) = Some 1" "nodes s 1 = Some n"
    "FileAttributes (FileInfo n) = FILE_ATTRIBUTE_DIRECTORY" "k = [BSLASH, 0x61] \<or> k = [BSLASH, 0x61, COLON, 0x73]"
  shows "\<exists>f. MemfsFileNodeMapTouchParent demo_env k s = Some (upd_node 1 f s) \<and>
    (\<forall>m. FileAttributes (FileInfo (f m)) = FileAttributes (FileInfo m))"
proof -
  have "fst (path_suffix demo_env k) = [BSLASH]" "length k < MEMFS_MAX_PATH" "k \<noteq> [BSLASH]"
    using assms(5) by (auto simp: demo_env_def split_path_def)
  then have "MemfsFileNodeMapGetParent demo_env k s = Some (Inr 1)"
    using assms(2-4) by (simp add: MemfsFileNodeMapGetParent_def MemfsFileNodeMapGet_def not_le del: One_nat_def)
  then show ?thesis using \<open>k \<noteq> [BSLASH]\<close> by (simp add: MemfsFileNodeMapTouchParent_def del: One_nat_def) fastforce
qed

lemma stream_remove:
  assumes "CaseInsensitive s = False" "map_erase (name_lt demo_env s) (FileName n) (FileNodeMap s) = (m, True)"
    "map_find (name_lt demo_env s) [BSLASH] m = Some 1" "nodes s 1 = Some d"
    "FileAttributes (FileInfo d) = FILE_ATTRIBUTE_DIRECTORY" "nodes s r = Some n" "r \<noteq> 1" "RefCount n \<noteq> 1"
    "FileName n = [BSLASH, 0x61] \<or> FileName n = [BSLASH, 0x61, COLON, 0x73]"
  shows "\<exists>s' d'. MemfsFileNodeMapRemove demo_env r s = Some s' \<and> CaseInsensitive s' = False \<and> FileNodeMap s' = m \<and>
    FileAttributes (FileInfo d') = FILE_ATTRIBUTE_DIRECTORY \<and>
    nodes s' = (nodes s)(1 \<mapsto> d', r \<mapsto> n\<lparr>RefCount := RefCount n - 1\<rparr>)"
proof -
  let ?t = "s\<lparr>FileNodeMap := m\<rparr>"
  have "name_lt demo_env ?t = name_lt demo_env s" by (auto simp: name_lt_def)
  then obtain f where f: "MemfsFileNodeMapTouchParent demo_env (FileName n) ?t = Some (upd_node 1 f ?t)"
    "\<forall>m. FileAttributes (FileInfo (f m)) = FileAttributes (FileInfo m)"
    using stream_touch [of ?t d "FileName n"] assms by auto
  have "MemfsFileNodeDereference r (upd_node 1 f ?t) =
      Some (upd_node r (\<lambda>n. n\<lparr>RefCount := RefCount n - 1\<rparr>) (upd_node 1 f ?t))"
    using assms(6-8) by (simp add: MemfsFileNodeDereference_def upd_node_def)
  then have "MemfsFileNodeMapRemove demo_env r s =
      Some (upd_node r (\<lambda>n. n\<lparr>RefCount := RefCount n - 1\<rparr>) (upd_node 1 f ?t))"
    using f(1) assms(2,6) by (simp add: MemfsFileNodeMapRemove_def)
  then show ?thesis
    using f(2) assms(1,4-7)
    by (intro exI [of _ "upd_node r (\<lambda>n. n\<lparr>RefCount := RefCount n - 1\<rparr>) (upd_node 1 f ?t)"] exI [of _ "f d"]) (simp add: upd_node_def)
qed

lemma stream_outlives_file:
  "\<exists>s1 s2. CleanupDelete_ns demo_env 2 stream_fs = Some s1 \<and> MemfsClose 2 s1 = Some s2 \<and>
     nodes s2 3 \<noteq> None \<and> GetFileInfo_ns stream_main 3 s2 = None"
proof -
  have ok: "name_ok False [BSLASH]" "name_ok False [BSLASH, 0x61]" "name_ok False [BSLASH, COLON, 0x73]"
    "name_ok False [BSLASH, 0x61, COLON, 0x73]" by simp_all
  note lt = file_node_less_key stream_keys less_prod_def' ok
  note eval = map_erase_def map_find_def lower_bound_def name_lt_def
  have ch: "HasChild_ns demo_env 2 stream_fs = Some False"
    by (simp add: HasChild_ns_def upper_bound_def name_lt_def lt) (simp add: stream_fs_def lt demo_node_def)
  have p: "is_path [BSLASH, 0x61]" unfolding is_path_def using stream_names by metis
  have en: "MemfsFileNodeMapEnumerateNamedStreams demo_env 2 (\<lambda>r2 n2 rs. (True, rs @ [r2])) stream_fs [] = Some (True, [3])"
    using EnumerateNamedStreams_correct [OF stream_fs_ok stream_fs_fields(3), of demo_env "\<lambda>r2 n2 rs. (True, rs @ [r2])" "[]"] p
    by (simp add: stream_fs_streams)
  define M where "M = [([BSLASH, COLON, 0x73], 4 :: nat), ([BSLASH], 1), ([BSLASH, 0x61], 2)]"
  have e3: "map_erase (name_lt demo_env stream_fs) [BSLASH, 0x61, COLON, 0x73] (FileNodeMap stream_fs) = (M, True)"
    by (simp add: eval) (simp add: stream_fs_def lt M_def lower_bound_def)
  obtain t d where t: "MemfsFileNodeMapRemove demo_env 3 stream_fs = Some t" "CaseInsensitive t = False" "FileNodeMap t = M"
    "FileAttributes (FileInfo d) = FILE_ATTRIBUTE_DIRECTORY"
    "nodes t = (nodes stream_fs)(1 \<mapsto> d, 3 \<mapsto> (demo_node [BSLASH, 0x61, COLON, 0x73] FILE_ATTRIBUTE_NORMAL 2)\<lparr>RefCount := 1\<rparr>)"
    using stream_remove [OF stream_fs_fields(1) _ _ _ _ stream_fs_fields(4), of M] e3
    by (simp add: M_def map_find_def lower_bound_def name_lt_def lt) blast
  have e2: "map_erase (name_lt demo_env t) [BSLASH, 0x61] (FileNodeMap t) = (butlast M, True)"
    by (simp add: eval t) (simp add: lt M_def lower_bound_def)
  have f2: "map_find (name_lt demo_env t) [BSLASH] (butlast M) = Some 1" by (simp add: M_def eval t lt)
  have n2: "nodes t 2 = Some (demo_node [BSLASH, 0x61] FILE_ATTRIBUTE_NORMAL 2)" "nodes t 1 = Some d" by (simp_all add: t(5))
  obtain u d' where u: "MemfsFileNodeMapRemove demo_env 2 t = Some u"
    "nodes u = (nodes t)(1 \<mapsto> d', 2 \<mapsto> (demo_node [BSLASH, 0x61] FILE_ATTRIBUTE_NORMAL 2)\<lparr>RefCount := 1\<rparr>)"
    using stream_remove [OF t(2) _ f2 n2(2) t(4) n2(1)] e2 by auto
  have del: "CleanupDelete_ns demo_env 2 stream_fs = Some u"
    by (simp add: CleanupDelete_ns_def ch en t(1) u(1))
  have cl: "MemfsClose 2 u = Some (MemfsFileNodeDelete 2 u)"
    by (simp add: MemfsClose_def MemfsFileNodeDereference_def u(2))
  have n3: "nodes u 3 \<noteq> None" by (simp add: u(2) t(5))
  then have "GetFileInfo_ns stream_main 3 (MemfsFileNodeDelete 2 u) = None"
    by (auto simp: GetFileInfo_ns_def MemfsFileNodeDelete_def stream_main_def)
  then show ?thesis using del cl n3 by (auto simp: MemfsFileNodeDelete_def)
qed

end
