(* ===== verification/Memfs_Streams_Ops.thy ===== *)
theory Memfs_Streams_Ops
  imports Memfs_Streams
begin

text \<open>
  What the handlers of \<open>src/win_vdisk.cpp\<close> do differently under \<open>MEMFS_NAMED_STREAMS\<close>: attributes, times and security
  of a stream are those of its file (the field \<open>MainFileNode\<close>, here \<open>main\<close>), a new node gets that field, deleting a
  file deletes its streams, and overwriting it drops the streams that nobody has open.
\<close>

section \<open>The code\<close>

definition main_of :: "(nat \<Rightarrow> nat option) \<Rightarrow> nat \<Rightarrow> nat" where
  "main_of main r = (case main r of Some q \<Rightarrow> q | None \<Rightarrow> r)"

text \<open>\<open>GetSecurityByName\<close> when the name is in the table: attributes, size and copy of the descriptor.\<close>

definition SecurityByName_ns :: "(nat \<Rightarrow> nat option) \<Rightarrow> nat \<Rightarrow> nat option \<Rightarrow> bool \<Rightarrow> memfs \<Rightarrow>
   (ntstatus \<times> u32 \<times> nat option \<times> u8 list option) option" where
  "SecurityByName_ns main r PSize has_buffer s = do {
     _ \<leftarrow> nodes s r;
     n \<leftarrow> nodes s (main_of main r);
     let attributes = FileAttributes (FileInfo n) AND (if main r \<noteq> None then NOT FILE_ATTRIBUTE_DIRECTORY else NOT 0);
     (case PSize of
        None \<Rightarrow> Some (STATUS_SUCCESS, attributes, None, None)
      | Some size_arg \<Rightarrow>
          (case MemfsGetSecurity size_arg has_buffer n of (st, sz, copied) \<Rightarrow> Some (st, attributes, Some sz, copied)))
   }"

definition SetBasicInfo_ns :: "(nat \<Rightarrow> nat option) \<Rightarrow> nat \<Rightarrow> u32 \<Rightarrow> u64 \<Rightarrow> u64 \<Rightarrow> u64 \<Rightarrow> u64 \<Rightarrow> memfs \<Rightarrow>
   (ntstatus \<times> file_info \<times> memfs) option" where
  "SetBasicInfo_ns main r attributes creation lastAccess lastWrite changed s = do {
     _ \<leftarrow> nodes s r;
     n \<leftarrow> nodes s (main_of main r);
     let (st, _, n') = MemfsSetBasicInfo attributes creation lastAccess lastWrite changed n;
     let s' = s\<lparr>nodes := (nodes s)(main_of main r \<mapsto> n')\<rparr>;
     info \<leftarrow> GetFileInfo_ns main (main_of main r) s';
     Some (st, info, s')
   }"

definition GetSecurity_ns :: "(nat \<Rightarrow> nat option) \<Rightarrow> nat \<Rightarrow> nat \<Rightarrow> bool \<Rightarrow> memfs \<Rightarrow> (ntstatus \<times> nat \<times> u8 list option) option" where
  "GetSecurity_ns main r PSize has_buffer s = do {
     _ \<leftarrow> nodes s r;
     n \<leftarrow> nodes s (main_of main r);
     Some (MemfsGetSecurity PSize has_buffer n)
   }"

definition SetSecurity_ns :: "(nat \<Rightarrow> nat option) \<Rightarrow> nat \<Rightarrow> (u8 list option \<Rightarrow> ntstatus \<times> u8 list) \<Rightarrow> (nat \<Rightarrow> bool) \<Rightarrow> memfs \<Rightarrow>
   (ntstatus \<times> memfs) option" where
  "SetSecurity_ns main r modify granted s = do {
     _ \<leftarrow> nodes s r;
     n \<leftarrow> nodes s (main_of main r);
     let (st, n') = MemfsSetSecurity modify granted n;
     Some (st, s\<lparr>nodes := (nodes s)(main_of main r \<mapsto> n')\<rparr>)
   }"

text \<open>\<open>Create\<close> sets the field of the new node from the table as it was before the insertion.\<close>

definition Create_ns :: "env \<Rightarrow> wstr \<Rightarrow> u32 \<Rightarrow> u32 \<Rightarrow> u8 list option \<Rightarrow> u64 \<Rightarrow> (nat \<Rightarrow> nat option) \<Rightarrow> memfs \<Rightarrow>
   (ntstatus \<times> (nat \<times> file_info) option \<times> (nat \<Rightarrow> nat option) \<times> memfs) option" where
  "Create_ns e name CreateOptions attributes SecurityDescriptor allocation main s = do {
     (st, node, s1) \<leftarrow> MemfsCreate e name CreateOptions attributes SecurityDescriptor allocation s;
     (case node of
        None \<Rightarrow> Some (st, None, main, s1)
      | Some (r, _) \<Rightarrow> do {
          n \<leftarrow> nodes s1 r;
          q \<leftarrow> MemfsFileNodeMapGetMain e (FileName n) s;
          let main' = main(r := q);
          info \<leftarrow> GetFileInfo_ns main' r s1;
          Some (st, Some (r, info), main', s1)
        })
   }"

definition Cleanup_ns :: "env \<Rightarrow> (nat \<Rightarrow> nat option) \<Rightarrow> nat \<Rightarrow> cleanup_flags \<Rightarrow> memfs \<Rightarrow> memfs option" where
  "Cleanup_ns e main r fl s = do {
     _ \<leftarrow> nodes s r;
     _ \<leftarrow> nodes s (main_of main r);
     let s1 = upd_node (main_of main r) (set_info (cleanup_info e fl)) s;
     s2 \<leftarrow> (if SetAllocationSizeFlag fl then do {
              n1 \<leftarrow> nodes s1 r;
              (st, n2) \<leftarrow> SetFileSizeInternal (win e) (LargeHeapAlignment e) (MaxFileSize s)
                 ((FileSize (FileInfo n1) + AllocationUnit - 1) div AllocationUnit * AllocationUnit) True n1;
              Some (s1\<lparr>nodes := (nodes s1)(r \<mapsto> n2)\<rparr>)
            } else Some s1);
     if CleanupDelete fl then CleanupDelete_ns e r s2 else Some s2
   }"

text \<open>The start of \<open>Overwrite\<close>: the streams are collected with a reference each, and those whose count is then at
  most 2, the table's and the new one, are removed.\<close>

fun drop_unused :: "env \<Rightarrow> nat list \<Rightarrow> memfs \<Rightarrow> memfs option" where
  "drop_unused e [] s = Some s"
| "drop_unused e (r # rs) s = do {
     n \<leftarrow> nodes s r;
     s1 \<leftarrow> (if 2 \<ge> RefCount n then MemfsFileNodeMapRemove e r s else Some s);
     drop_unused e rs s1
   }"

definition OverwriteStreams :: "env \<Rightarrow> nat \<Rightarrow> memfs \<Rightarrow> memfs option" where
  "OverwriteStreams e r s = do {
     (_, found, s0) \<leftarrow> MemfsFileNodeMapEnumerateNamedStreams e r
        (\<lambda>r2 n2 (rs, so). (True, rs @ [r2], do { s' \<leftarrow> so; MemfsFileNodeReference r2 s' })) s ([], Some s);
     s1 \<leftarrow> s0;
     s2 \<leftarrow> drop_unused e found s1;
     MemfsFileNodeMapEnumerateFree found s2
   }"

text \<open>Listing skips streams. Renaming collects the descendants with the prefix test of this build, so that the streams
  of a file move with it; otherwise it is the function of the other build.\<close>

fun enum_children_ns :: "env \<Rightarrow> memfs \<Rightarrow> file_node \<Rightarrow> (file_node \<Rightarrow> 'c \<Rightarrow> bool \<times> 'c) \<Rightarrow> (wstr \<times> nat) list \<Rightarrow> 'c \<Rightarrow>
   (bool \<times> 'c) option" where
  "enum_children_ns e s n EnumFn [] ctx = Some (True, ctx)"
| "enum_children_ns e s n EnumFn ((k, r2) # es) ctx = do {
     n2 \<leftarrow> nodes s r2;
     if \<not> HasPrefix_ns (fns e) (FileName n2) (FileName n) (CaseInsensitive s) then Some (True, ctx)
     else if is_parent_name e s (FileName n2) (FileName n) \<and> COLON \<notin> set (snd (path_suffix e (FileName n2))) then
       (let (continue, ctx') = EnumFn n2 ctx in
        if \<not> continue then Some (False, ctx') else enum_children_ns e s n EnumFn es ctx')
     else enum_children_ns e s n EnumFn es ctx
   }"

fun enum_descendants_ns :: "env \<Rightarrow> file_node \<Rightarrow> (wstr \<times> nat) list \<Rightarrow> nat list \<Rightarrow> memfs \<Rightarrow> (nat list \<times> memfs) option" where
  "enum_descendants_ns e n [] found s = Some (found, s)"
| "enum_descendants_ns e n ((k, r2) # es) found s = do {
     n2 \<leftarrow> nodes s r2;
     if \<not> HasPrefix_ns (fns e) (FileName n2) (FileName n) (CaseInsensitive s) then Some (found, s)
     else do {
       s1 \<leftarrow> MemfsFileNodeReference r2 s;
       enum_descendants_ns e n es (found @ [r2]) s1
     }
   }"

definition replace_target :: "env \<Rightarrow> nat \<Rightarrow> memfs \<Rightarrow> memfs option" where
  "replace_target e t s = do {
     a \<leftarrow> MemfsFileNodeReference t s;
     b \<leftarrow> MemfsFileNodeMapRemove e t a;
     MemfsFileNodeDereference t b
   }"

definition move_subtree_ns :: "env \<Rightarrow> nat \<Rightarrow> wstr \<Rightarrow> nat option \<Rightarrow> memfs \<Rightarrow> (ntstatus \<times> memfs) option" where
  "move_subtree_ns e r NewFileName target s = do {
     n \<leftarrow> nodes s r;
     (found, s1) \<leftarrow> enum_descendants_ns e n (lower_bound (name_lt e s) (FileName n) (FileNodeMap s)) [] s;
     long \<leftarrow> too_long s1 (length (FileName n)) (length NewFileName) found;
     if long then do { s2 \<leftarrow> MemfsFileNodeMapEnumerateFree found s1; Some (STATUS_OBJECT_NAME_INVALID, s2) }
     else do {
       s2 \<leftarrow> (case target of None \<Rightarrow> Some s1 | Some t \<Rightarrow> replace_target e t s1);
       s3 \<leftarrow> rename_nodes e (length (FileName n)) NewFileName found s2;
       s4 \<leftarrow> MemfsFileNodeMapEnumerateFree found s3;
       Some (STATUS_SUCCESS, s4)
     }
   }"

definition Rename_ns :: "env \<Rightarrow> nat \<Rightarrow> wstr \<Rightarrow> bool \<Rightarrow> memfs \<Rightarrow> (ntstatus \<times> memfs) option" where
  "Rename_ns e r NewFileName ReplaceIfExists s = do {
     n \<leftarrow> nodes s r;
     if FileName n = ftj_disk_bin then Some (STATUS_ACCESS_DENIED, s)
     else (let target = MemfsFileNodeMapGet e NewFileName s in
       case target of
         None \<Rightarrow> move_subtree_ns e r NewFileName target s
       | Some t \<Rightarrow>
           if t = r then move_subtree_ns e r NewFileName target s
           else if \<not> ReplaceIfExists then Some (STATUS_OBJECT_NAME_COLLISION, s)
           else do {
             tn \<leftarrow> nodes s t;
             if FileAttributes (FileInfo tn) AND FILE_ATTRIBUTE_DIRECTORY \<noteq> 0 then Some (STATUS_ACCESS_DENIED, s)
             else move_subtree_ns e r NewFileName target s
           })
   }"

section \<open>Attributes and security of a stream\<close>

text \<open>A stream shows the security of its file, and what is set through the stream is read through the file.\<close>

lemma stream_security_shared:
  assumes "nodes s (main_of main r) = Some n" "nodes s r \<noteq> None" "nodes s r2 \<noteq> None" "main_of main r2 = main_of main r"
    and "modify (FileSecurity n) = (STATUS_SUCCESS, sd)" "granted (length sd)" "length sd \<le> m"
  shows "\<exists>s'. SetSecurity_ns main r modify granted s = Some (STATUS_SUCCESS, s') \<and>
    GetSecurity_ns main r2 m True s' = Some (STATUS_SUCCESS, length sd, Some sd)"
  using assms by (auto simp: SetSecurity_ns_def GetSecurity_ns_def MemfsSetSecurity_def MemfsGetSecurity_def)

text \<open>The information that \<open>SetBasicInfo\<close> returns for a stream has the sizes of the file, not those of the stream.\<close>

lemma basic_info_wrong_size:
  assumes "main r = Some q" "main q = None" "q \<noteq> r" "nodes s r = Some n" "nodes s q = Some mn"
  shows "\<exists>info s' info'. SetBasicInfo_ns main r attributes c a w ch s = Some (STATUS_SUCCESS, info, s') \<and>
    GetFileInfo_ns main r s' = Some info' \<and> FileSize info = FileSize (FileInfo mn) \<and> FileSize info' = FileSize (FileInfo n)"
  using assms by (simp add: SetBasicInfo_ns_def main_of_def MemfsSetBasicInfo_def GetFileInfo_ns_def Let_def)

text \<open>The main node of a stream's name is the entry of its file.\<close>

lemma GetMain_stream:
  assumes "comps_ok cs" "length (stream_path cs t) < MEMFS_MAX_PATH"
  shows "MemfsFileNodeMapGetMain e (stream_path cs t) s = Some (MemfsFileNodeMapGet e (path_of cs) s)"
    and "MemfsFileNodeMapGetMain e (path_of cs) s = Some None"
proof -
  have c: "\<forall>x \<in> set (path_of cs). x \<noteq> COLON" using colon_path [OF assms(1)] by auto
  then have "takeWhile (\<lambda>c. c \<noteq> COLON) (stream_path cs t) = path_of cs"
    unfolding stream_path_def by (subst takeWhile_append2) simp_all
  moreover have "COLON \<in> set (stream_path cs t)" by (simp add: stream_path_def)
  ultimately show "MemfsFileNodeMapGetMain e (stream_path cs t) s = Some (MemfsFileNodeMapGet e (path_of cs) s)"
    using assms(2) by (simp add: MemfsFileNodeMapGetMain_def MemfsFileNodeMapGet_def)
  have "length (path_of cs) < MEMFS_MAX_PATH" using assms(2) by (simp add: stream_path_def)
  then show "MemfsFileNodeMapGetMain e (path_of cs) s = Some None"
    using colon_path [OF assms(1)] by (simp add: MemfsFileNodeMapGetMain_def)
qed

text \<open>A listing never hands out a node whose last component has a colon.\<close>

lemma enum_children_ns_no_streams:
  assumes "enum_children_ns e s n (\<lambda>m ms. (True, ms @ [m])) es ms = Some (b, ms')"
  shows "\<exists>new. ms' = ms @ new \<and> (\<forall>m \<in> set new. COLON \<notin> set (snd (path_suffix e (FileName m))))"
  using assms
proof (induction e s n "\<lambda>m ms. (True, ms @ [m :: file_node])" es ms rule: enum_children_ns.induct)
  case (2 e s n k r2 es ctx)
  then show ?case by (fastforce simp: bind_eq_Some_conv split: if_splits)
qed simp

section \<open>Removing streams\<close>

text \<open>Name and count of the node at an address; the table with its names and addresses.\<close>

definition counts :: "memfs \<Rightarrow> nat \<Rightarrow> (wstr \<times> int) option" where
  "counts s r = map_option (\<lambda>n. (FileName n, RefCount n)) (nodes s r)"

definition stream_table :: "memfs \<Rightarrow> bool" where
  "stream_table s \<longleftrightarrow> streams_ok s \<and> inj_on snd (set (FileNodeMap s))"

lemma stream_tableD:
  assumes "stream_table s"
  shows "names.sorted_map (CaseInsensitive s) (FileNodeMap s)"
    and "(k, r) \<in> set (FileNodeMap s) \<Longrightarrow> name_ok (CaseInsensitive s) k \<and> length k < MEMFS_MAX_PATH \<and> (\<exists>c. counts s r = Some (k, c))"
    and "(k, r) \<in> set (FileNodeMap s) \<Longrightarrow> (k2, r) \<in> set (FileNodeMap s) \<Longrightarrow> k2 = k"
  using assms by (fastforce simp: stream_table_def streams_ok_def adm_entry_def counts_def inj_on_def)+

text \<open>A change of the state that keeps the comparison, takes entries from the table and keeps the names left.\<close>

lemma stream_table_subset:
  assumes "stream_table s" "names.sorted_map (CaseInsensitive s1) (FileNodeMap s1)" "set (FileNodeMap s1) \<subseteq> set (FileNodeMap s)"
    and "CaseInsensitive s1 = CaseInsensitive s"
    and "\<And>k r c. (k, r) \<in> set (FileNodeMap s1) \<Longrightarrow> counts s r = Some (k, c) \<Longrightarrow> \<exists>c1. counts s1 r = Some (k, c1)"
  shows "stream_table s1"
  unfolding stream_table_def streams_ok_def
proof (intro conjI ballI)
  show "names.sorted_map (CaseInsensitive s1) (FileNodeMap s1)" by (rule assms(2))
  show "inj_on snd (set (FileNodeMap s1))" using assms(1,3) by (auto simp: stream_table_def intro: inj_on_subset)
next
  fix x assume x: "x \<in> set (FileNodeMap s1)"
  obtain k r where kr: "x = (k, r)" by (cases x)
  have "(k, r) \<in> set (FileNodeMap s)" using assms(3) x kr by auto
  then have "adm_entry (CaseInsensitive s) k" "\<exists>c. counts s r = Some (k, c)"
    using assms(1) stream_tableD(2) [OF assms(1)] by (auto simp: stream_table_def streams_ok_def)
  then show "case x of (k, r) \<Rightarrow> adm_entry (CaseInsensitive s1) k \<and> (\<exists>n. nodes s1 r = Some n \<and> FileName n = k)"
    using assms(4,5) x by (auto simp: kr counts_def)
qed

lemma map_find_mem: "map_find lt k m = Some v \<Longrightarrow> \<exists>k2. (k2, v) \<in> set m"
  by (auto simp: map_find_def lower_bound_def split: list.splits if_splits dest!: arg_cong [where f = set] set_dropWhileD)

lemma TouchParent_counts:
  assumes "\<forall>(k, r) \<in> set (FileNodeMap s). nodes s r \<noteq> None" "length name < MEMFS_MAX_PATH"
  shows "\<exists>s1. MemfsFileNodeMapTouchParent e name s = Some s1 \<and> FileNodeMap s1 = FileNodeMap s \<and>
    CaseInsensitive s1 = CaseInsensitive s \<and> counts s1 = counts s"
proof -
  have same: "counts (upd_node p (set_info f) s) = counts s" for p f
    by (rule ext) (simp add: counts_def upd_node_def option.map_comp comp_def)
  show ?thesis
  proof (cases "MemfsFileNodeMapGet e (fst (path_suffix e name)) s")
    case None
    then show ?thesis using assms(2) by (simp add: MemfsFileNodeMapTouchParent_def MemfsFileNodeMapGetParent_def)
  next
    case (Some p)
    then obtain n where "nodes s p = Some n" using map_find_mem assms(1) unfolding MemfsFileNodeMapGet_def by fastforce
    moreover have "FileNodeMap (upd_node p f s) = FileNodeMap s" "CaseInsensitive (upd_node p f s) = CaseInsensitive s" for f
      by (simp_all add: upd_node_def)
    ultimately show ?thesis
      using Some assms(2) same [of p "\<lambda>i. i\<lparr>LastAccessTime := now e, LastWriteTime := now e, ChangeTime := now e\<rparr>"]
      by (simp add: MemfsFileNodeMapTouchParent_def MemfsFileNodeMapGetParent_def)
  qed
qed

lemma Dereference_counts:
  assumes "counts s r = Some (k, c)"
  shows "\<exists>s1. MemfsFileNodeDereference r s = Some s1 \<and> FileNodeMap s1 = FileNodeMap s \<and> CaseInsensitive s1 = CaseInsensitive s \<and>
    counts s1 = (counts s)(r := if c = 1 then None else Some (k, c - 1))"
proof -
  obtain n where n: "nodes s r = Some n" "FileName n = k" "RefCount n = c" using assms by (auto simp: counts_def)
  show ?thesis
  proof (cases "c = 1")
    case True
    then show ?thesis using n by (auto simp: MemfsFileNodeDereference_def MemfsFileNodeDelete_def counts_def)
  next
    case False
    then show ?thesis using n by (auto simp: MemfsFileNodeDereference_def upd_node_def counts_def)
  qed
qed

lemma Remove_counts:
  assumes "stream_table s" "(k, r) \<in> set (FileNodeMap s)" "counts s r = Some (k, c)"
  shows "\<exists>s1. MemfsFileNodeMapRemove e r s = Some s1 \<and> set (FileNodeMap s1) = {x \<in> set (FileNodeMap s). snd x \<noteq> r} \<and>
    CaseInsensitive s1 = CaseInsensitive s \<and> counts s1 = (counts s)(r := if c = 1 then None else Some (k, c - 1)) \<and> stream_table s1"
proof -
  note sd = stream_tableD [OF assms(1)]
  obtain n where n: "nodes s r = Some n" "FileName n = k" using assms(3) by (auto simp: counts_def)
  obtain m erased where m: "map_erase (name_lt e s) k (FileNodeMap s) = (m, erased)" by fastforce
  have ok: "name_ok (CaseInsensitive s) k" "length k < MEMFS_MAX_PATH" using sd(2) [OF assms(2)] by simp_all
  note er = names.erase_abs [OF sd(1) ok(1) m [unfolded name_lt_def]]
  have key: "names.map_abs (CaseInsensitive s) (FileNodeMap s) (entry_key s k) = Some r"
    using names.abs_Some [OF sd(1)] assms(2) by blast
  then have erased using er by simp
  have iff: "entry_key s (fst x) \<noteq> entry_key s k \<longleftrightarrow> snd x \<noteq> r" if x: "x \<in> set (FileNodeMap s)" for x
  proof -
    obtain k2 r2 where x2: "x = (k2, r2)" by (cases x)
    have "r2 = r" if "entry_key s k2 = entry_key s k"
      using names.abs_Some [OF sd(1), of "entry_key s k" r2] key that x x2 by auto
    moreover have "k2 = k" if "r2 = r" using sd(3) [OF assms(2)] x x2 that by simp
    ultimately show ?thesis unfolding x2 fst_conv snd_conv by blast
  qed
  have set: "set m = {x \<in> set (FileNodeMap s). snd x \<noteq> r}"
  proof -
    have "set m = {x \<in> set (FileNodeMap s). entry_key s (fst x) \<noteq> entry_key s k}" using er by blast
    then show ?thesis using iff by blast
  qed
  let ?s = "s\<lparr>FileNodeMap := m\<rparr>"
  have "\<forall>(k, r) \<in> set (FileNodeMap ?s). nodes ?s r \<noteq> None" using sd(2) set by (fastforce simp: counts_def)
  from TouchParent_counts [OF this ok(2), of e] obtain s1 where s1: "MemfsFileNodeMapTouchParent e k ?s = Some s1"
    "FileNodeMap s1 = m" "CaseInsensitive s1 = CaseInsensitive s" "counts s1 = counts ?s" by auto
  have same: "counts ?s = counts s" by (simp add: counts_def fun_eq_iff)
  then have "counts s1 r = Some (k, c)" using s1(4) assms(3) by simp
  from Dereference_counts [OF this] obtain s2 where s2: "MemfsFileNodeDereference r s1 = Some s2" "FileNodeMap s2 = m"
    "CaseInsensitive s2 = CaseInsensitive s" "counts s2 = (counts s)(r := if c = 1 then None else Some (k, c - 1))"
    using s1(2-4) same by auto
  have "stream_table s2"
  proof (rule stream_table_subset [OF assms(1)])
    show "names.sorted_map (CaseInsensitive s2) (FileNodeMap s2)" using er s2(2,3) by simp
    show "set (FileNodeMap s2) \<subseteq> set (FileNodeMap s)" using set s2(2) by auto
    show "\<exists>c1. counts s2 q = Some (l, c1)" if "(l, q) \<in> set (FileNodeMap s2)" "counts s q = Some (l, d)" for l q d
      using that set s2(2,4) by auto
  qed (rule s2(3))
  moreover have "MemfsFileNodeMapRemove e r s = Some s2"
    using n m \<open>erased\<close> s1(1) s2(1) by (simp add: MemfsFileNodeMapRemove_def)
  ultimately show ?thesis using s2 set by simp
qed

lemma remove_all_counts:
  assumes "stream_table s" "distinct rs" "\<forall>r \<in> set rs. \<exists>k c. (k, r) \<in> set (FileNodeMap s) \<and> counts s r = Some (k, c)"
  shows "\<exists>s1. remove_all e rs s = Some s1 \<and> set (FileNodeMap s1) = {x \<in> set (FileNodeMap s). snd x \<notin> set rs} \<and>
    CaseInsensitive s1 = CaseInsensitive s \<and> stream_table s1 \<and>
    (\<forall>q. counts s1 q = (if q \<in> set rs then (case counts s q of None \<Rightarrow> None | Some (k, c) \<Rightarrow> if c = 1 then None else Some (k, c - 1))
       else counts s q))"
  using assms
proof (induction rs arbitrary: s)
  case (Cons r rs)
  obtain k c where r: "(k, r) \<in> set (FileNodeMap s)" "counts s r = Some (k, c)" using Cons.prems(3) by auto
  obtain s1 where s1: "MemfsFileNodeMapRemove e r s = Some s1" "set (FileNodeMap s1) = {x \<in> set (FileNodeMap s). snd x \<noteq> r}"
    "CaseInsensitive s1 = CaseInsensitive s" "counts s1 = (counts s)(r := if c = 1 then None else Some (k, c - 1))" "stream_table s1"
    using Remove_counts [OF Cons.prems(1) r, of e] by blast
  have "\<forall>q \<in> set rs. \<exists>k c. (k, q) \<in> set (FileNodeMap s1) \<and> counts s1 q = Some (k, c)"
    using Cons.prems(2,3) by (auto simp: s1(2,4))
  with Cons.IH [OF s1(5)] Cons.prems(2) obtain s2 where s2: "remove_all e rs s1 = Some s2"
    "set (FileNodeMap s2) = {x \<in> set (FileNodeMap s1). snd x \<notin> set rs}" "CaseInsensitive s2 = CaseInsensitive s1" "stream_table s2"
    "\<forall>q. counts s2 q = (if q \<in> set rs then (case counts s1 q of None \<Rightarrow> None | Some (k, c) \<Rightarrow> if c = 1 then None else Some (k, c - 1))
       else counts s1 q)" by auto
  have "set (FileNodeMap s2) = {x \<in> set (FileNodeMap s). snd x \<notin> set (r # rs)}" unfolding s2(2) s1(2) by auto
  moreover have "counts s2 q = (if q \<in> set (r # rs) then (case counts s q of None \<Rightarrow> None | Some (k, c) \<Rightarrow> if c = 1 then None else Some (k, c - 1))
       else counts s q)" for q
    using s2(5) [rule_format, of q] Cons.prems(2) r(2) by (auto simp: s1(4))
  ultimately show ?case using s1(1,3) s2(1,3,4) by simp
qed simp

text \<open>Collecting the streams gives their addresses in the order of the table.\<close>

lemma run_list_addresses: "run_list (\<lambda>(k, r2) rs. (True, rs @ [r2])) es ctx = (True, ctx @ map snd es)"
  by (induction es arbitrary: ctx) auto

text \<open>The addresses of the streams of a file.\<close>

definition dropped :: "memfs \<Rightarrow> wstr \<Rightarrow> nat set" where
  "dropped s f = {r. \<exists>k. (k, r) \<in> set (FileNodeMap s) \<and> is_stream_of s f k}"

lemma collected_streams:
  assumes "stream_table s" "nodes s r = Some n" "is_path (FileName n)" "name_ok (CaseInsensitive s) (FileName n)" "FileName n \<noteq> [BSLASH]"
  shows "MemfsFileNodeMapEnumerateNamedStreams e r EnumFn s ctx =
      Some (run_list (\<lambda>(k, r2). EnumFn r2 (the (nodes s r2))) (streams_of s (FileName n)) ctx)"
    and "distinct (map snd (streams_of s (FileName n)))" "set (map snd (streams_of s (FileName n))) = dropped s (FileName n)"
    and "\<forall>q \<in> dropped s (FileName n). \<exists>k c. (k, q) \<in> set (FileNodeMap s) \<and> is_stream_of s (FileName n) k \<and> counts s q = Some (k, c)"
proof -
  show "MemfsFileNodeMapEnumerateNamedStreams e r EnumFn s ctx =
      Some (run_list (\<lambda>(k, r2). EnumFn r2 (the (nodes s r2))) (streams_of s (FileName n)) ctx)"
    using EnumerateNamedStreams_correct [OF _ assms(2-4)] assms(1,5) by (simp add: stream_table_def)
  have "distinct (FileNodeMap s)"
    using stream_tableD(1) [OF assms(1)] unfolding names.sorted_map_def
    by (auto simp: distinct_conv_nth sorted_wrt_iff_nth_less) (metis less_irrefl nat_neq_iff)
  then show "distinct (map snd (streams_of s (FileName n)))"
    using assms(1) by (auto simp: streams_of_def distinct_map stream_table_def intro: inj_on_subset)
  show "set (map snd (streams_of s (FileName n))) = dropped s (FileName n)" by (force simp: streams_of_def dropped_def)
  show "\<forall>q \<in> dropped s (FileName n). \<exists>k c. (k, q) \<in> set (FileNodeMap s) \<and> is_stream_of s (FileName n) k \<and> counts s q = Some (k, c)"
    using stream_tableD(2) [OF assms(1)] by (fastforce simp: dropped_def)
qed

text \<open>Deleting a file that has no children removes exactly the file and its streams from the table, and frees
  those nodes that nobody has open.\<close>

lemma cleanup_delete_streams:
  assumes "stream_table s" "(k, r) \<in> set (FileNodeMap s)" "is_path k" "k \<noteq> [BSLASH]" "HasChild_ns e r s = Some False"
  shows "\<exists>s1. CleanupDelete_ns e r s = Some s1 \<and> stream_table s1 \<and>
    set (FileNodeMap s1) = {(l, q) \<in> set (FileNodeMap s). q \<noteq> r \<and> \<not> is_stream_of s k l} \<and>
    (\<forall>q. counts s1 q = (if q = r \<or> q \<in> dropped s k then (case counts s q of None \<Rightarrow> None | Some (l, c) \<Rightarrow> if c = 1 then None else Some (l, c - 1))
       else counts s q))"
proof -
  note sd = stream_tableD [OF assms(1)]
  obtain n c where n: "nodes s r = Some n" "FileName n = k" "counts s r = Some (k, c)" "name_ok (CaseInsensitive s) k"
    using sd(2) [OF assms(2)] by (auto simp: counts_def)
  obtain ds where ds: "comps_ok ds" "k = path_of ds" using assms(3) by (auto simp: is_path_def)
  note cs = collected_streams [OF assms(1) n(1) assms(3) [folded n(2)] n(4) [folded n(2)] assms(4) [folded n(2)], unfolded n(2)]
  let ?rs = "map snd (streams_of s k)"
  have found: "MemfsFileNodeMapEnumerateNamedStreams e r (\<lambda>r2 n2 rs. (True, rs @ [r2])) s [] = Some (True, ?rs)"
    unfolding cs(1) by (simp add: run_list_addresses)
  have self: "r \<notin> dropped s k"
  proof
    assume "r \<in> dropped s k"
    then have "is_stream_of s k k" using sd(3) [OF assms(2)] by (auto simp: dropped_def)
    then show False using is_stream_key [OF _ assms(4) ds] by fastforce
  qed
  obtain s1 where s1: "remove_all e ?rs s = Some s1" "set (FileNodeMap s1) = {x \<in> set (FileNodeMap s). snd x \<notin> set ?rs}"
    "CaseInsensitive s1 = CaseInsensitive s" "stream_table s1"
    "\<forall>q. counts s1 q = (if q \<in> set ?rs then (case counts s q of None \<Rightarrow> None | Some (k, c) \<Rightarrow> if c = 1 then None else Some (k, c - 1))
       else counts s q)"
    using remove_all_counts [OF assms(1) cs(2), of e] cs(3,4) by (metis (no_types, lifting))
  have "(k, r) \<in> set (FileNodeMap s1)" "counts s1 r = Some (k, c)"
    using s1(2,5) self assms(2) n(3) unfolding cs(3) by auto
  from Remove_counts [OF s1(4) this, of e] obtain s2 where s2: "MemfsFileNodeMapRemove e r s1 = Some s2"
    "set (FileNodeMap s2) = {x \<in> set (FileNodeMap s1). snd x \<noteq> r}" "stream_table s2"
    "counts s2 = (counts s1)(r := if c = 1 then None else Some (k, c - 1))" by blast
  have "CleanupDelete_ns e r s = Some s2" using s1(1) s2(1) by (simp add: CleanupDelete_ns_def assms(5) found)
  moreover have "set (FileNodeMap s2) = {(l, q) \<in> set (FileNodeMap s). q \<noteq> r \<and> \<not> is_stream_of s k l}"
  proof -
    have "q \<in> dropped s k \<longleftrightarrow> is_stream_of s k l" if "(l, q) \<in> set (FileNodeMap s)" for l q
      using that sd(3) by (auto simp: dropped_def)
    then show ?thesis unfolding s2(2) s1(2) cs(3) by auto
  qed
  ultimately show ?thesis using s2(3) s1(5) n(3) self unfolding cs(3) by (intro exI [of _ s2]) (auto simp: s2(4))
qed

section \<open>Overwriting a file with streams\<close>

definition count_of :: "memfs \<Rightarrow> nat \<Rightarrow> int" where
  "count_of s r = (case counts s r of None \<Rightarrow> 0 | Some (k, c) \<Rightarrow> c)"

definition add_counts :: "nat set \<Rightarrow> int \<Rightarrow> (nat \<Rightarrow> (wstr \<times> int) option) \<Rightarrow> nat \<Rightarrow> (wstr \<times> int) option" where
  "add_counts R d f q = (if q \<in> R then map_option (\<lambda>(k, c). (k, c + d)) (f q) else f q)"

lemma Reference_counts:
  assumes "counts s r = Some (k, c)"
  shows "\<exists>s1. MemfsFileNodeReference r s = Some s1 \<and> FileNodeMap s1 = FileNodeMap s \<and> CaseInsensitive s1 = CaseInsensitive s \<and>
    counts s1 = (counts s)(r \<mapsto> (k, c + 1))"
  using assms by (auto simp: counts_def MemfsFileNodeReference_def upd_node_def split: option.splits)

lemma collect_references:
  assumes "distinct (map snd es)" "\<forall>q \<in> set (map snd es). counts s q \<noteq> None"
  shows "\<exists>s1. run_list (\<lambda>(k, r2) (rs, so). (True, rs @ [r2], do { s' \<leftarrow> so; MemfsFileNodeReference r2 s' })) es (rs0, Some s) =
      (True, rs0 @ map snd es, Some s1) \<and> FileNodeMap s1 = FileNodeMap s \<and> CaseInsensitive s1 = CaseInsensitive s \<and>
    counts s1 = add_counts (set (map snd es)) 1 (counts s)"
  using assms
proof (induction es arbitrary: s rs0)
  case (Cons x es)
  obtain k r where x: "x = (k, r)" by (cases x)
  obtain l c where c: "counts s r = Some (l, c)" using Cons.prems(2) x by auto
  obtain s1 where s1: "MemfsFileNodeReference r s = Some s1" "FileNodeMap s1 = FileNodeMap s" "CaseInsensitive s1 = CaseInsensitive s"
    "counts s1 = (counts s)(r \<mapsto> (l, c + 1))" using Reference_counts [OF c] by blast
  have "\<forall>q \<in> set (map snd es). counts s1 q \<noteq> None" using Cons.prems(2) by (auto simp: s1(4))
  with Cons.IH [of s1 "rs0 @ [r]"] Cons.prems(1) obtain s2 where s2:
    "run_list (\<lambda>(k, r2) (rs, so). (True, rs @ [r2], do { s' \<leftarrow> so; MemfsFileNodeReference r2 s' })) es (rs0 @ [r], Some s1) =
      (True, (rs0 @ [r]) @ map snd es, Some s2)" "FileNodeMap s2 = FileNodeMap s1" "CaseInsensitive s2 = CaseInsensitive s1"
    "counts s2 = add_counts (set (map snd es)) 1 (counts s1)" by auto
  have "r \<notin> set (map snd es)" using Cons.prems(1) x by simp
  then have "counts s2 = add_counts (set (map snd (x # es))) 1 (counts s)"
    using c unfolding s2(4) s1(4) by (auto simp: add_counts_def fun_eq_iff x)
  then show ?case using s1 s2 by (simp add: x)
qed (simp add: add_counts_def fun_eq_iff)

lemma drop_unused_counts:
  assumes "stream_table s" "distinct rs" "\<forall>r \<in> set rs. \<exists>k c. (k, r) \<in> set (FileNodeMap s) \<and> counts s r = Some (k, c) \<and> 2 \<le> c"
  shows "\<exists>s1. drop_unused e rs s = Some s1 \<and> stream_table s1 \<and>
    set (FileNodeMap s1) = {x \<in> set (FileNodeMap s). \<not> (snd x \<in> set rs \<and> count_of s (snd x) = 2)} \<and>
    counts s1 = add_counts {r \<in> set rs. count_of s r = 2} (- 1) (counts s)"
  using assms
proof (induction rs arbitrary: s)
  case Nil
  then show ?case by (auto simp: add_counts_def fun_eq_iff)
next
  case (Cons r rs)
  obtain k c where r: "(k, r) \<in> set (FileNodeMap s)" "counts s r = Some (k, c)" "2 \<le> c" using Cons.prems(3) by auto
  have cr: "count_of s r = c" by (simp add: count_of_def r(2))
  have "\<exists>s1. (if 2 \<ge> c then MemfsFileNodeMapRemove e r s else Some s) = Some s1 \<and> stream_table s1 \<and>
    set (FileNodeMap s1) = {x \<in> set (FileNodeMap s). \<not> (snd x = r \<and> c = 2)} \<and>
    counts s1 = (if c = 2 then (counts s)(r \<mapsto> (k, 1)) else counts s)"
  proof (cases "c = 2")
    case True
    then show ?thesis using Remove_counts [OF Cons.prems(1) r(1,2), of e] by auto
  next
    case False
    then show ?thesis using r(3) Cons.prems(1) by auto
  qed
  then obtain s1 where s1: "(if 2 \<ge> c then MemfsFileNodeMapRemove e r s else Some s) = Some s1" "stream_table s1"
    "set (FileNodeMap s1) = {x \<in> set (FileNodeMap s). \<not> (snd x = r \<and> c = 2)}"
    "counts s1 = (if c = 2 then (counts s)(r \<mapsto> (k, 1)) else counts s)" by blast
  have ne: "q \<noteq> r" if "q \<in> set rs" for q using Cons.prems(2) that by auto
  have same: "counts s1 q = counts s q" "count_of s1 q = count_of s q" if "q \<in> set rs" for q
    using ne [OF that] by (simp_all add: s1(4) count_of_def)
  have "\<forall>q \<in> set rs. \<exists>k c. (k, q) \<in> set (FileNodeMap s1) \<and> counts s1 q = Some (k, c) \<and> 2 \<le> c"
    using Cons.prems(3) same ne by (auto simp: s1(3))
  with Cons.IH [OF s1(2)] Cons.prems(2) obtain s2 where s2: "drop_unused e rs s1 = Some s2" "stream_table s2"
    "set (FileNodeMap s2) = {x \<in> set (FileNodeMap s1). \<not> (snd x \<in> set rs \<and> count_of s1 (snd x) = 2)}"
    "counts s2 = add_counts {r \<in> set rs. count_of s1 r = 2} (- 1) (counts s1)" by auto
  have "drop_unused e (r # rs) s = Some s2"
    using r(2) s1(1) s2(1) by (auto simp: counts_def)
  moreover have "set (FileNodeMap s2) = {x \<in> set (FileNodeMap s). \<not> (snd x \<in> set (r # rs) \<and> count_of s (snd x) = 2)}"
    unfolding s2(3) s1(3) using same ne cr by auto
  moreover have "counts s2 = add_counts {q \<in> set (r # rs). count_of s q = 2} (- 1) (counts s)"
  proof
    fix q
    show "counts s2 q = add_counts {q \<in> set (r # rs). count_of s q = 2} (- 1) (counts s) q"
      using same [of q] ne [of q] r(2) cr by (cases "q = r") (auto simp: s2(4) add_counts_def s1(4))
  qed
  ultimately show ?case using s2(2) by blast
qed

lemma EnumerateFree_counts:
  assumes "distinct rs" "\<forall>r \<in> set rs. counts s r \<noteq> None"
  shows "\<exists>s1. MemfsFileNodeMapEnumerateFree rs s = Some s1 \<and> FileNodeMap s1 = FileNodeMap s \<and> CaseInsensitive s1 = CaseInsensitive s \<and>
    (\<forall>q. counts s1 q = (if q \<in> set rs then (case counts s q of None \<Rightarrow> None | Some (k, c) \<Rightarrow> if c = 1 then None else Some (k, c - 1))
       else counts s q))"
  using assms
proof (induction rs arbitrary: s)
  case (Cons r rs)
  obtain k c where r: "counts s r = Some (k, c)" using Cons.prems(2) by auto
  obtain s1 where s1: "MemfsFileNodeDereference r s = Some s1" "FileNodeMap s1 = FileNodeMap s" "CaseInsensitive s1 = CaseInsensitive s"
    "counts s1 = (counts s)(r := if c = 1 then None else Some (k, c - 1))" using Dereference_counts [OF r] by blast
  have "\<forall>q \<in> set rs. counts s1 q \<noteq> None" using Cons.prems by (auto simp: s1(4))
  with Cons.IH [of s1] Cons.prems(1) obtain s2 where s2: "MemfsFileNodeMapEnumerateFree rs s1 = Some s2" "FileNodeMap s2 = FileNodeMap s1"
    "CaseInsensitive s2 = CaseInsensitive s1"
    "\<forall>q. counts s2 q = (if q \<in> set rs then (case counts s1 q of None \<Rightarrow> None | Some (k, c) \<Rightarrow> if c = 1 then None else Some (k, c - 1))
       else counts s1 q)" by auto
  have "counts s2 q = (if q \<in> set (r # rs) then (case counts s q of None \<Rightarrow> None | Some (k, c) \<Rightarrow> if c = 1 then None else Some (k, c - 1))
       else counts s q)" for q
    using s2(4) [rule_format, of q] Cons.prems(1) r by (auto simp: s1(4))
  then show ?case using s1(1-3) s2(1-3) by simp
qed simp

text \<open>Overwriting a file removes and frees exactly those of its streams that nobody has open; the counts of all other
  nodes are as before.\<close>

definition unused_stream :: "memfs \<Rightarrow> wstr \<Rightarrow> nat \<Rightarrow> bool" where
  "unused_stream s k q \<longleftrightarrow> q \<in> dropped s k \<and> count_of s q = 1"

lemma overwrite_drops_unused:
  assumes "stream_table s" "nodes s r = Some n" "is_path (FileName n)" "name_ok (CaseInsensitive s) (FileName n)" "FileName n \<noteq> [BSLASH]"
    and "\<forall>(k, q) \<in> set (FileNodeMap s). 1 \<le> count_of s q"
  shows "\<exists>s1. OverwriteStreams e r s = Some s1 \<and>
    set (FileNodeMap s1) = {x \<in> set (FileNodeMap s). \<not> unused_stream s (FileName n) (snd x)} \<and>
    (\<forall>q. counts s1 q = (if unused_stream s (FileName n) q then None else counts s q))"
proof -
  let ?f = "FileName n"
  note cs = collected_streams [OF assms(1-5)]
  let ?rs = "map snd (streams_of s ?f)"
  have some: "\<forall>q \<in> set ?rs. counts s q \<noteq> None" using cs(3,4) by fastforce
  obtain s1 where s1: "run_list (\<lambda>(k, r2) (rs, so). (True, rs @ [r2], do { s' \<leftarrow> so; MemfsFileNodeReference r2 s' }))
      (streams_of s ?f) ([], Some s) = (True, ?rs, Some s1)" "FileNodeMap s1 = FileNodeMap s" "CaseInsensitive s1 = CaseInsensitive s"
    "counts s1 = add_counts (set ?rs) 1 (counts s)"
    using collect_references [OF cs(2) some, of "[]"] by auto
  have t1: "stream_table s1"
  proof (rule stream_table_subset [OF assms(1)])
    show "names.sorted_map (CaseInsensitive s1) (FileNodeMap s1)" using stream_tableD(1) [OF assms(1)] s1(2,3) by simp
    show "\<exists>c1. counts s1 q = Some (l, c1)" if "counts s q = Some (l, d)" for l q d
      using that by (auto simp: s1(4) add_counts_def)
  qed (simp_all add: s1(2,3))
  have c1: "count_of s1 q = count_of s q + 1" if "q \<in> set ?rs" for q
    using that some by (auto simp: count_of_def s1(4) add_counts_def split: option.splits)
  have "\<forall>q \<in> set ?rs. \<exists>k c. (k, q) \<in> set (FileNodeMap s1) \<and> counts s1 q = Some (k, c) \<and> 2 \<le> c"
  proof
    fix q assume q: "q \<in> set ?rs"
    then obtain k c where kc: "(k, q) \<in> set (FileNodeMap s)" "counts s q = Some (k, c)" using cs(3,4) by metis
    then have "1 \<le> c" using assms(6) by (fastforce simp: count_of_def)
    then show "\<exists>k c. (k, q) \<in> set (FileNodeMap s1) \<and> counts s1 q = Some (k, c) \<and> 2 \<le> c"
      using kc q by (intro exI [of _ k] exI [of _ "c + 1"]) (simp add: s1(2,4) add_counts_def)
  qed
  from drop_unused_counts [OF t1 cs(2) this, of e] obtain s2 where s2: "drop_unused e ?rs s1 = Some s2"
    "set (FileNodeMap s2) = {x \<in> set (FileNodeMap s1). \<not> (snd x \<in> set ?rs \<and> count_of s1 (snd x) = 2)}"
    "counts s2 = add_counts {r \<in> set ?rs. count_of s1 r = 2} (- 1) (counts s1)" by blast
  have "\<forall>q \<in> set ?rs. counts s2 q \<noteq> None" using some by (auto simp: s2(3) s1(4) add_counts_def)
  from EnumerateFree_counts [OF cs(2) this] obtain s3 where s3: "MemfsFileNodeMapEnumerateFree ?rs s2 = Some s3"
    "FileNodeMap s3 = FileNodeMap s2"
    "\<forall>q. counts s3 q = (if q \<in> set ?rs then (case counts s2 q of None \<Rightarrow> None | Some (k, c) \<Rightarrow> if c = 1 then None else Some (k, c - 1))
       else counts s2 q)" by blast
  have "OverwriteStreams e r s = Some s3"
    unfolding OverwriteStreams_def cs(1) s1(1) by (simp add: s2(1) s3(1))
  moreover have "unused_stream s ?f q \<longleftrightarrow> q \<in> set ?rs \<and> count_of s1 q = 2" for q
    using c1 [of q] cs(3) by (auto simp: unused_stream_def)
  then have "set (FileNodeMap s3) = {x \<in> set (FileNodeMap s). \<not> unused_stream s ?f (snd x)}"
    unfolding s3(2) s2(2) s1(2) by simp
  moreover have "counts s3 q = (if unused_stream s ?f q then None else counts s q)" for q
  proof (cases "q \<in> set ?rs")
    case False
    then show ?thesis using s3(3) [rule_format, of q] cs(3) by (simp add: s2(3) s1(4) add_counts_def unused_stream_def)
  next
    case True
    then obtain k c where kc: "counts s q = Some (k, c)" using some by fastforce
    have "\<exists>l. (l, q) \<in> set (FileNodeMap s)" using True cs(3,4) by metis
    then have "1 \<le> c" using assms(6) kc by (fastforce simp: count_of_def)
    moreover have "count_of s1 q = c + 1" "unused_stream s ?f q \<longleftrightarrow> c = 1"
      using c1 [OF True] True cs(3) kc by (auto simp: count_of_def unused_stream_def)
    ultimately show ?thesis using s3(3) [rule_format, of q] True kc by (auto simp: s2(3) s1(4) add_counts_def)
  qed
  ultimately show ?thesis by blast
qed

section \<open>Renaming over a file with streams\<close>

text \<open>A rename over an existing file that nobody has open frees its node, but its streams stay in the table, and their
  \<open>MainFileNode\<close> dangles: the next request for the information of such a stream reads the freed node.\<close>

lemma replaced_file_leaves_streams:
  assumes "stream_table s" "(k, t) \<in> set (FileNodeMap s)" "counts s t = Some (k, 1)" "is_path k" "k \<noteq> [BSLASH]"
    and "(l, q) \<in> set (FileNodeMap s)" "is_stream_of s k l" "main q = Some t"
  shows "\<exists>s1. replace_target e t s = Some s1 \<and> (l, q) \<in> set (FileNodeMap s1) \<and> nodes s1 q \<noteq> None \<and> GetFileInfo_ns main q s1 = None"
proof -
  obtain ds where ds: "comps_ok ds" "k = path_of ds" using assms(4) by (auto simp: is_path_def)
  have "l \<noteq> k" using is_stream_key [OF assms(7,5) ds] by auto
  then have qt: "q \<noteq> t" using stream_tableD(3) [OF assms(1,2)] assms(6) by auto
  obtain a where a: "MemfsFileNodeReference t s = Some a" "FileNodeMap a = FileNodeMap s" "CaseInsensitive a = CaseInsensitive s"
    "counts a = (counts s)(t \<mapsto> (k, 2))" using Reference_counts [OF assms(3)] by auto
  have ta: "stream_table a"
  proof (rule stream_table_subset [OF assms(1)])
    show "names.sorted_map (CaseInsensitive a) (FileNodeMap a)" using stream_tableD(1) [OF assms(1)] a(2,3) by simp
    show "\<exists>c1. counts a p = Some (m, c1)" if "(m, p) \<in> set (FileNodeMap a)" "counts s p = Some (m, d)" for m p d
      using that assms(3) by (auto simp: a(4))
  qed (simp_all add: a(2,3))
  have "(k, t) \<in> set (FileNodeMap a)" "counts a t = Some (k, 2)" using assms(2) a(2,4) by simp_all
  from Remove_counts [OF ta this, of e] obtain b where b: "MemfsFileNodeMapRemove e t a = Some b"
    "set (FileNodeMap b) = {x \<in> set (FileNodeMap s). snd x \<noteq> t}" "counts b = (counts a)(t \<mapsto> (k, 1))" by (auto simp: a(2))
  have "counts b t = Some (k, 1)" by (simp add: b(3))
  from Dereference_counts [OF this] obtain c where c: "MemfsFileNodeDereference t b = Some c" "FileNodeMap c = FileNodeMap b"
    "counts c = (counts b)(t := None)" by auto
  have "nodes c t = None" using fun_cong [OF c(3), of t] by (simp add: counts_def)
  moreover have "counts c q = counts s q" using qt by (simp add: c(3) b(3) a(4))
  then have "nodes c q \<noteq> None" using stream_tableD(2) [OF assms(1,6)] by (auto simp: counts_def)
  moreover have "replace_target e t s = Some c" using a(1) b(1) c(1) by (simp add: replace_target_def)
  moreover have "(l, q) \<in> set (FileNodeMap c)" using assms(6) qt by (simp add: c(2) b(2))
  ultimately show ?thesis using assms(8) by (intro exI [of _ c]) (auto simp: GetFileInfo_ns_def)
qed

end
