(* ===== verification/Memfs_Reparse.thy ===== *)
theory Memfs_Reparse
  imports Memfs_Session
begin

text \<open>
  Reparse points of \<open>src/win_vdisk.cpp\<close>, the code under \<open>MEMFS_REPARSE_POINTS\<close> (a build option that the file leaves
  off): setting, reading and deleting the data attached to a node.

  The three fields that a node gains in this build, \<open>FileInfo.ReparseTag\<close>, \<open>ReparseData\<close> and its size (the length
  of the data), are a record, from the address of the node. \<open>FspFileSystemCanReplaceReparsePoint\<close> of WinFsp is the
  argument \<open>CanReplace\<close>; \<open>realloc_ok\<close> says whether \<open>realloc\<close> finds memory.
\<close>

section \<open>The code\<close>

abbreviation FILE_ATTRIBUTE_REPARSE_POINT :: u32 where "FILE_ATTRIBUTE_REPARSE_POINT \<equiv> 0x400"

record reparse =
  ReparseTag :: u32
  ReparseData :: "u8 list option"

type_synonym reparse_fs = "memfs \<times> (nat \<Rightarrow> reparse)"

definition reparse_size :: "reparse \<Rightarrow> nat" where
  "reparse_size p = (case ReparseData p of None \<Rightarrow> 0 | Some d \<Rightarrow> length d)"

text \<open>The copy into the caller's buffer of \<open>Size\<close> bytes; \<open>memcpy\<close> from a null pointer copies nothing.\<close>

definition copy_reparse :: "reparse \<Rightarrow> nat \<Rightarrow> ntstatus \<times> u8 list option" where
  "copy_reparse p Size =
     (if reparse_size p > Size then (STATUS_BUFFER_TOO_SMALL, None)
      else (STATUS_SUCCESS, Some (case ReparseData p of None \<Rightarrow> [] | Some d \<Rightarrow> d)))"

definition GetReparsePoint :: "nat \<Rightarrow> nat \<Rightarrow> reparse_fs \<Rightarrow> (ntstatus \<times> u8 list option) option" where
  "GetReparsePoint r Size = (\<lambda>(s, rp). do {
     n \<leftarrow> nodes s r;
     if FileAttributes (FileInfo n) AND FILE_ATTRIBUTE_REPARSE_POINT = 0 then Some (STATUS_NOT_A_REPARSE_POINT, None)
     else Some (copy_reparse (rp r) Size)
   })"

text \<open>Without a buffer (\<open>None\<close>) only the test is made.\<close>

definition GetReparsePointByName :: "env \<Rightarrow> wstr \<Rightarrow> nat option \<Rightarrow> reparse_fs \<Rightarrow> (ntstatus \<times> u8 list option) option" where
  "GetReparsePointByName e name Size = (\<lambda>(s, rp).
     (case MemfsFileNodeMapGet e name s of
        None \<Rightarrow> Some (STATUS_OBJECT_NAME_NOT_FOUND, None)
      | Some r \<Rightarrow> do {
          n \<leftarrow> nodes s r;
          if FileAttributes (FileInfo n) AND FILE_ATTRIBUTE_REPARSE_POINT = 0 then Some (STATUS_NOT_A_REPARSE_POINT, None)
          else (case Size of None \<Rightarrow> Some (STATUS_SUCCESS, None) | Some k \<Rightarrow> Some (copy_reparse (rp r) k))
        }))"

text \<open>The tag is the first four bytes of the buffer; the code reads them without a look at the size.\<close>

definition SetReparsePoint :: "env \<Rightarrow> (u8 list \<Rightarrow> u8 list \<Rightarrow> ntstatus) \<Rightarrow> bool \<Rightarrow> nat \<Rightarrow> u8 list \<Rightarrow> reparse_fs \<Rightarrow>
   (ntstatus \<times> reparse_fs) option" where
  "SetReparsePoint e CanReplace realloc_ok r Buffer = (\<lambda>(s, rp). do {
     child \<leftarrow> MemfsFileNodeMapHasChild e r s;
     let can = (case ReparseData (rp r) of None \<Rightarrow> STATUS_SUCCESS | Some d \<Rightarrow> CanReplace d Buffer);
     if child then Some (STATUS_DIRECTORY_NOT_EMPTY, s, rp)
     else if can \<noteq> STATUS_SUCCESS then Some (can, s, rp)
     else if \<not> realloc_ok \<and> Buffer \<noteq> [] then Some (STATUS_INSUFFICIENT_RESOURCES, s, rp)
     else do {
       tag \<leftarrow> slice Buffer 0 4;
       Some (STATUS_SUCCESS,
         upd_node r (set_info (\<lambda>i. i\<lparr>FileAttributes := FileAttributes i OR FILE_ATTRIBUTE_REPARSE_POINT\<rparr>)) s,
         rp(r := \<lparr>ReparseTag = ucast (le_word tag), ReparseData = Some Buffer\<rparr>))
     }
   })"

definition DeleteReparsePoint :: "(u8 list \<Rightarrow> u8 list \<Rightarrow> ntstatus) \<Rightarrow> nat \<Rightarrow> u8 list \<Rightarrow> reparse_fs \<Rightarrow>
   (ntstatus \<times> reparse_fs) option" where
  "DeleteReparsePoint CanReplace r Buffer = (\<lambda>(s, rp). do {
     n \<leftarrow> nodes s r;
     (case ReparseData (rp r) of
        None \<Rightarrow> Some (STATUS_NOT_A_REPARSE_POINT, s, rp)
      | Some d \<Rightarrow>
          if CanReplace d Buffer \<noteq> STATUS_SUCCESS then Some (CanReplace d Buffer, s, rp)
          else Some (STATUS_SUCCESS,
            upd_node r (set_info (\<lambda>i. i\<lparr>FileAttributes := FileAttributes i AND NOT FILE_ATTRIBUTE_REPARSE_POINT\<rparr>)) s,
            rp(r := \<lparr>ReparseTag = 0, ReparseData = None\<rparr>)))
   })"

section \<open>The attribute and the data\<close>

text \<open>The attribute bit says whether a node has data.\<close>

definition reparse_ok :: "reparse_fs \<Rightarrow> bool" where
  "reparse_ok = (\<lambda>(s, rp). \<forall>r n. nodes s r = Some n \<longrightarrow>
     (FileAttributes (FileInfo n) AND FILE_ATTRIBUTE_REPARSE_POINT \<noteq> 0 \<longleftrightarrow> ReparseData (rp r) \<noteq> None))"

lemma set_clear_bits:
  fixes a m :: u32
  shows "(a OR m) AND m = m" "(a AND NOT m) AND m = 0" "a AND m = 0 \<Longrightarrow> (a OR m) AND NOT m = a"
proof -
  show "(a OR m) AND m = m" "(a AND NOT m) AND m = 0"
    by (rule bit_word_eqI, auto simp: bit_and_iff bit_or_iff bit_not_iff)+
  show "(a OR m) AND NOT m = a" if h: "a AND m = 0"
  proof (rule bit_word_eqI)
    fix k assume k: "k < LENGTH(32)"
    have "\<not> bit (a AND m) k" using h by simp
    then show "bit ((a OR m) AND NOT m) k = bit a k" using k by (auto simp: bit_and_iff bit_or_iff bit_not_iff)
  qed
qed

lemma reparse_ok_upd:
  assumes "reparse_ok (s, rp)"
    and "\<And>n. nodes s r = Some n \<Longrightarrow> FileAttributes (FileInfo (f n)) AND FILE_ATTRIBUTE_REPARSE_POINT \<noteq> 0 \<longleftrightarrow> ReparseData q \<noteq> None"
  shows "reparse_ok (upd_node r f s, rp(r := q))"
  unfolding reparse_ok_def prod.case
proof (intro allI impI)
  fix x n assume n: "nodes (upd_node r f s) x = Some n"
  show "FileAttributes (FileInfo n) AND FILE_ATTRIBUTE_REPARSE_POINT \<noteq> 0 \<longleftrightarrow> ReparseData ((rp(r := q)) x) \<noteq> None"
  proof (cases "x = r")
    case True
    then obtain m where "nodes s r = Some m" "n = f m" using n by (auto simp: upd_node_def)
    then show ?thesis using assms(2) True by simp
  next
    case False
    then have "nodes s x = Some n" using n by (simp add: upd_node_def)
    then show ?thesis using assms(1) False by (auto simp: reparse_ok_def)
  qed
qed

text \<open>The shape of a successful call.\<close>

lemma SetReparsePoint_success:
  assumes "SetReparsePoint e CanReplace realloc_ok r Buffer (s, rp) = Some (st, p')"
  shows "if st = STATUS_SUCCESS
    then MemfsFileNodeMapHasChild e r s = Some False \<and> 4 \<le> length Buffer \<and>
      p' = (upd_node r (set_info (\<lambda>i. i\<lparr>FileAttributes := FileAttributes i OR FILE_ATTRIBUTE_REPARSE_POINT\<rparr>)) s,
            rp(r := \<lparr>ReparseTag = ucast (le_word (take 4 Buffer)), ReparseData = Some Buffer\<rparr>))
    else p' = (s, rp)"
  using assms by (auto simp: SetReparsePoint_def Let_def slice_def split: Option.bind_splits if_splits)

lemma SetReparsePoint_ok:
  assumes "reparse_ok p" "SetReparsePoint e CanReplace realloc_ok r Buffer p = Some (st, p')"
  shows "reparse_ok p'"
proof -
  obtain s rp where p: "p = (s, rp)" by (cases p)
  note h = SetReparsePoint_success [OF assms(2) [unfolded p]]
  show ?thesis
  proof (cases "st = STATUS_SUCCESS")
    case True
    then have p': "p' = (upd_node r (set_info (\<lambda>i. i\<lparr>FileAttributes := FileAttributes i OR FILE_ATTRIBUTE_REPARSE_POINT\<rparr>)) s,
            rp(r := \<lparr>ReparseTag = ucast (le_word (take 4 Buffer)), ReparseData = Some Buffer\<rparr>))" using h by simp
    show ?thesis unfolding p' by (rule reparse_ok_upd [OF assms(1) [unfolded p]]) (simp add: set_clear_bits(1))
  qed (use h assms(1) p in simp)
qed

lemma DeleteReparsePoint_success:
  assumes "DeleteReparsePoint CanReplace r Buffer (s, rp) = Some (st, p')"
  shows "if st = STATUS_SUCCESS
    then ReparseData (rp r) \<noteq> None \<and>
      p' = (upd_node r (set_info (\<lambda>i. i\<lparr>FileAttributes := FileAttributes i AND NOT FILE_ATTRIBUTE_REPARSE_POINT\<rparr>)) s,
            rp(r := \<lparr>ReparseTag = 0, ReparseData = None\<rparr>))
    else p' = (s, rp)"
  using assms by (auto simp: DeleteReparsePoint_def split: Option.bind_splits if_splits option.splits)

lemma DeleteReparsePoint_ok:
  assumes "reparse_ok p" "DeleteReparsePoint CanReplace r Buffer p = Some (st, p')"
  shows "reparse_ok p'"
proof -
  obtain s rp where p: "p = (s, rp)" by (cases p)
  note h = DeleteReparsePoint_success [OF assms(2) [unfolded p]]
  show ?thesis
  proof (cases "st = STATUS_SUCCESS")
    case True
    then have p': "p' = (upd_node r (set_info (\<lambda>i. i\<lparr>FileAttributes := FileAttributes i AND NOT FILE_ATTRIBUTE_REPARSE_POINT\<rparr>)) s,
            rp(r := \<lparr>ReparseTag = 0, ReparseData = None\<rparr>))" using h by simp
    have z: "(FileAttributes (FileInfo n) AND NOT FILE_ATTRIBUTE_REPARSE_POINT) AND FILE_ATTRIBUTE_REPARSE_POINT = 0" for n
      by (rule set_clear_bits(2))
    show ?thesis unfolding p' by (rule reparse_ok_upd [OF assms(1) [unfolded p]]) (use z in simp)
  qed (use h assms(1) p in simp)
qed

section \<open>Setting, reading and deleting\<close>

lemma HasChild_node: "MemfsFileNodeMapHasChild e r s = Some c \<Longrightarrow> \<exists>n. nodes s r = Some n"
  by (auto simp: MemfsFileNodeMapHasChild_def split: Option.bind_splits)

text \<open>C33: after a reparse point is set on a node of the table, it is read back by handle and by name, byte for byte
  when the caller's buffer has room for it and refused otherwise; once it is deleted the node is no reparse point, and
  a node that was none before has its old attributes and the whole state is as before.\<close>

theorem reparse_round_trip:
  fixes m :: nat
  assumes "table_ok s" "(k, r) \<in> set (FileNodeMap s)" "reparse_ok (s, rp)"
    and "SetReparsePoint e CanReplace realloc_ok r Buffer (s, rp) = Some (STATUS_SUCCESS, p)"
    and "CanReplace Buffer Buffer2 = STATUS_SUCCESS"
  defines "answer \<equiv> if length Buffer \<le> m then (STATUS_SUCCESS, Some Buffer) else (STATUS_BUFFER_TOO_SMALL, None)"
  shows "GetReparsePoint r m p = Some answer \<and> GetReparsePointByName e k (Some m) p = Some answer \<and>
    (\<exists>p'. DeleteReparsePoint CanReplace r Buffer2 p = Some (STATUS_SUCCESS, p') \<and>
       GetReparsePoint r m p' = Some (STATUS_NOT_A_REPARSE_POINT, None) \<and>
       (rp r = \<lparr>ReparseTag = 0, ReparseData = None\<rparr> \<longrightarrow> p' = (s, rp)))"
proof -
  note h = SetReparsePoint_success [OF assms(4)]
  obtain n where n: "nodes s r = Some n" using h HasChild_node [of e r s] by auto
  let ?set = "\<lambda>i. i\<lparr>FileAttributes := FileAttributes i OR FILE_ATTRIBUTE_REPARSE_POINT\<rparr>"
  define q where "q = \<lparr>ReparseTag = ucast (le_word (take 4 Buffer)) :: u32, ReparseData = Some Buffer\<rparr>"
  have p: "p = (upd_node r (set_info ?set) s, rp(r := q))" using h by (simp add: q_def)
  have n': "nodes (fst p) r = Some (set_info ?set n)" by (simp add: p upd_node_def n)
  have bit: "(FileAttributes (FileInfo n) OR FILE_ATTRIBUTE_REPARSE_POINT) AND FILE_ATTRIBUTE_REPARSE_POINT \<noteq> 0"
    by (simp add: set_clear_bits(1))
  have cp: "copy_reparse q m = answer" by (simp add: copy_reparse_def reparse_size_def q_def answer_def)
  have get: "GetReparsePoint r m p = Some answer"
    using n' bit cp by (simp add: GetReparsePoint_def p)
  have "name_ok (CaseInsensitive s) k" using table_okD(1) [OF assms(1,2)] by (simp add: adm_path_def)
  then have "MemfsFileNodeMapGet e k s = Some r" using MapGet_Some [OF assms(1)] assms(2) by blast
  moreover have "MemfsFileNodeMapGet e k (fst p) = MemfsFileNodeMapGet e k s"
    by (simp add: MemfsFileNodeMapGet_def p upd_node_def name_lt_def)
  ultimately have nm: "GetReparsePointByName e k (Some m) p = Some answer"
    using n' bit cp by (simp add: GetReparsePointByName_def p)
  let ?clear = "\<lambda>i. i\<lparr>FileAttributes := FileAttributes i AND NOT FILE_ATTRIBUTE_REPARSE_POINT\<rparr>"
  define p' where "p' = (upd_node r (set_info ?clear) (fst p), (snd p)(r := \<lparr>ReparseTag = 0, ReparseData = None\<rparr>))"
  have del: "DeleteReparsePoint CanReplace r Buffer2 p = Some (STATUS_SUCCESS, p')"
    using n' assms(5) by (simp add: DeleteReparsePoint_def p p'_def q_def)
  have gone: "((FileAttributes (FileInfo n) OR FILE_ATTRIBUTE_REPARSE_POINT) AND NOT FILE_ATTRIBUTE_REPARSE_POINT)
      AND FILE_ATTRIBUTE_REPARSE_POINT = 0" by (rule set_clear_bits(2))
  have none: "GetReparsePoint r m p' = Some (STATUS_NOT_A_REPARSE_POINT, None)"
    using n' gone by (simp add: GetReparsePoint_def p'_def upd_node_def)
  have "p' = (s, rp)" if old: "rp r = \<lparr>ReparseTag = 0, ReparseData = None\<rparr>"
  proof -
    have "FileAttributes (FileInfo n) AND FILE_ATTRIBUTE_REPARSE_POINT = 0"
      using assms(3) [unfolded reparse_ok_def prod.case, rule_format, OF n] old by simp
    then have e: "(FileAttributes (FileInfo n) OR FILE_ATTRIBUTE_REPARSE_POINT) AND NOT FILE_ATTRIBUTE_REPARSE_POINT =
      FileAttributes (FileInfo n)" by (rule set_clear_bits(3))
    have "?clear (?set (FileInfo n)) = FileInfo n" using e by simp
    then have "set_info ?clear (set_info ?set n) = n" by simp
    then have "upd_node r (set_info ?clear) (upd_node r (set_info ?set) s) = s"
      using n by (simp add: upd_node_def fun_upd_idem)
    moreover have "rp(r := \<lparr>ReparseTag = 0, ReparseData = None\<rparr>) = rp" using old by (metis fun_upd_triv)
    ultimately show ?thesis by (simp add: p'_def p)
  qed
  then show ?thesis using get nm del none by blast
qed

text \<open>Setting the attributes of a node as \<open>SetBasicInfo\<close> does, or overwriting them, drops the bit and keeps the data:
  the reparse point can no longer be read.\<close>

lemma basic_info_hides_reparse:
  assumes "nodes s r = Some n" "attributes \<noteq> INVALID_FILE_ATTRIBUTES" "attributes AND FILE_ATTRIBUTE_REPARSE_POINT = 0"
    and "MemfsSetBasicInfo attributes c a w ch n = (st, i, n')"
  shows "GetReparsePoint r m (s\<lparr>nodes := (nodes s)(r \<mapsto> n')\<rparr>, rp) = Some (STATUS_NOT_A_REPARSE_POINT, None)"
  using assms by (auto simp: GetReparsePoint_def MemfsSetBasicInfo_def Let_def)

theorem reparse_round_trip_witness:
  "\<exists>p p'. SetReparsePoint demo_env (\<lambda>a b. STATUS_SUCCESS) True 3 [0x0C, 0, 0, 0xA0, 7] (demo_fs, \<lambda>r. \<lparr>ReparseTag = 0, ReparseData = None\<rparr>) =
      Some (STATUS_SUCCESS, p) \<and>
    GetReparsePoint 3 16 p = Some (STATUS_SUCCESS, Some [0x0C, 0, 0, 0xA0, 7]) \<and>
    DeleteReparsePoint (\<lambda>a b. STATUS_SUCCESS) 3 [0x0C, 0, 0, 0xA0] p = Some (STATUS_SUCCESS, p') \<and>
    p' = (demo_fs, \<lambda>r. \<lparr>ReparseTag = 0, ReparseData = None\<rparr>)"
proof -
  let ?rp = "\<lambda>r :: nat. \<lparr>ReparseTag = 0, ReparseData = None\<rparr>"
  have mem: "(path_of [[0x61], [0x21]], 3) \<in> set (FileNodeMap demo_fs)" by (simp add: demo_fs_def)
  have ok: "reparse_ok (demo_fs, ?rp)"
    by (auto simp: reparse_ok_def demo_fs_def demo_node_def split: if_splits)
  have n3: "nodes demo_fs 3 = Some (demo_node (path_of [[0x61], [0x21]]) FILE_ATTRIBUTE_NORMAL 1)" by (simp add: demo_fs_def)
  have "MemfsFileNodeMapHasChild demo_env 3 demo_fs = Some (\<exists>(k, r2) \<in> set (FileNodeMap demo_fs). is_child demo_fs (path_of [[0x61], [0x21]]) k)"
    using HasChild_correct [OF demo_env_laws(1) demo_table n3] demo_paths(3) by simp
  moreover have "\<not> (\<exists>(k, r2) \<in> set (FileNodeMap demo_fs). is_child demo_fs (path_of [[0x61], [0x21]]) k)"
    by (auto simp: is_child_def demo_fs_def parent_key_def)
  ultimately have hc: "MemfsFileNodeMapHasChild demo_env 3 demo_fs = Some False" by simp
  obtain p where p: "SetReparsePoint demo_env (\<lambda>a b. STATUS_SUCCESS) True 3 [0x0C, 0, 0, 0xA0, 7] (demo_fs, ?rp) = Some (STATUS_SUCCESS, p)"
    by (simp add: SetReparsePoint_def hc slice_def)
  show ?thesis
    using reparse_round_trip [OF demo_table(1) mem ok p, of 16 "[0x0C, 0, 0, 0xA0]"] p by simp
qed

end
