(* ===== verification/Memfs_Slowio.thy ===== *)
theory Memfs_Slowio
  imports Memfs_File_Spec "HOL-Library.Multiset"
begin

text \<open>
  Delayed requests of \<open>src/win_vdisk.cpp\<close>, the code under \<open>MEMFS_SLOWIO\<close> (a build option that the file leaves off):
  a handler may answer \<open>STATUS_PENDING\<close> and leave the copy and the response to a detached thread, which sleeps first.

  The state holds the options, the counter of running threads, the file nodes and the callers' buffers by address,
  the threads with the place where each is, and the responses sent. A step is one handler call, one step of one thread
  (its sleep, its copy, its response, its end), or a change made elsewhere. What the file system driver guarantees is a
  premise of the steps: while a request is not answered nobody else resizes or frees its file, and its buffer stays.
  \<open>PseudoRandom\<close> is one step; whether a thread could be started is an argument.
\<close>

section \<open>The code\<close>

definition Hash :: "u64 \<Rightarrow> u64" where
  "Hash x =
     (let x = (x XOR drop_bit 30 x) * 0xbf58476d1ce4e5b9;
          x = (x XOR drop_bit 27 x) * 0x94d049bb133111eb
      in x XOR drop_bit 31 x)"

definition PseudoRandom :: "u32 \<Rightarrow> u64 \<Rightarrow> (u32 \<times> u64) option" where
  "PseudoRandom limit spin =
     (let spin = spin + 1 in if limit = 0 then None else Some (ucast (Hash spin mod ucast limit), spin))"

text \<open>What a thread was given: node, buffer, both offsets and the hint of the request; or the size of a listing.\<close>

datatype job =
    ReadJob nat nat u64 u64 u64
  | WriteJob nat nat u64 u64 u64
  | DirectoryJob u32 u64

datatype slow_pc = Snoozing | Copying | Responding | Ending

datatype rsp_kind = ReadKind | WriteKind | QueryDirectoryKind

record response =
  Kind :: rsp_kind
  Hint :: u64
  Status :: ntstatus
  Information :: u32
  WrittenInfo :: "file_info option"

record slowio =
  SlowioMaxDelay :: u32
  SlowioPercentDelay :: u32
  SlowioRarefyDelay :: u32
  SlowioThreadsRunning :: u32
  spin :: u64
  files :: "nat \<rightharpoonup> file_node"
  buffers :: "nat \<rightharpoonup> u8 list"
  threads :: "(slow_pc \<times> job) list"
  responses :: "response list"

definition SlowioReturnPending :: "slowio \<Rightarrow> (bool \<times> slowio) option" where
  "SlowioReturnPending s =
     (if SlowioMaxDelay s = 0 then Some (False, s)
      else do {
        (r, sp) \<leftarrow> PseudoRandom 100 (spin s);
        Some (r < SlowioPercentDelay s, s\<lparr>spin := sp\<rparr>)
      })"

text \<open>The milliseconds slept, if the thread sleeps. A shift by 32 or more is undefined.\<close>

definition SlowioSnooze :: "slowio \<Rightarrow> (u32 option \<times> slowio) option" where
  "SlowioSnooze s =
     (if SlowioMaxDelay s = 0 then Some (None, s)
      else do {
        (a, sp1) \<leftarrow> PseudoRandom (SlowioMaxDelay s + 1) (spin s);
        (b, sp2) \<leftarrow> PseudoRandom (SlowioRarefyDelay s + 1) sp1;
        if 32 \<le> unat b then None else Some (Some (drop_bit (unat b) a), s\<lparr>spin := sp2\<rparr>)
      })"

text \<open>The block that the three handlers share: start a thread, or sleep and go on. When the start fails the counter
  is put back.\<close>

definition start_delayed :: "job \<Rightarrow> bool \<Rightarrow> slowio \<Rightarrow> (bool \<times> slowio) option" where
  "start_delayed j thread_ok s = do {
     (pending, s1) \<leftarrow> SlowioReturnPending s;
     if pending \<and> thread_ok
     then Some (True, s1\<lparr>SlowioThreadsRunning := SlowioThreadsRunning s1 + 1, threads := threads s1 @ [(Snoozing, j)]\<rparr>)
     else do {
       (slept, s2) \<leftarrow> SlowioSnooze s1;
       Some (False, s2)
     }
   }"

definition copy_out :: "file_node \<Rightarrow> u8 list \<Rightarrow> u64 \<Rightarrow> u64 \<Rightarrow> u8 list option" where
  "copy_out n Buffer Offset EndOffset = do {
     data \<leftarrow> FileData n;
     bytes \<leftarrow> slice data (unat Offset) (unat (EndOffset - Offset));
     splice Buffer 0 bytes
   }"

definition copy_in :: "file_node \<Rightarrow> u8 list \<Rightarrow> u64 \<Rightarrow> u64 \<Rightarrow> file_node option" where
  "copy_in n Buffer Offset EndOffset = do {
     bytes \<leftarrow> slice Buffer 0 (unat (EndOffset - Offset));
     data \<leftarrow> FileData n;
     data' \<leftarrow> splice data (unat Offset) bytes;
     Some (n\<lparr>FileData := Some data'\<rparr>)
   }"

text \<open>\<open>Read\<close> and \<open>Write\<close> of this build. The branches before the delay are those of the other build.\<close>

definition SlowRead :: "(nat \<Rightarrow> u8 list option \<Rightarrow> nat \<Rightarrow> 'd \<Rightarrow> (bool \<times> u8 list option \<times> 'd) option) \<Rightarrow> 'd option \<Rightarrow> bool \<Rightarrow>
   u64 \<Rightarrow> nat \<Rightarrow> nat \<Rightarrow> u64 \<Rightarrow> u32 \<Rightarrow> slowio \<Rightarrow> (ntstatus \<times> u32 option \<times> 'd option \<times> slowio) option" where
  "SlowRead dev_read ctrl thread_ok hint r b Offset Length s = do {
     n \<leftarrow> files s r;
     Buffer \<leftarrow> buffers s b;
     if FileName n = ftj_disk_bin \<or> Offset \<ge> FileSize (FileInfo n)
     then do {
       (st, Buffer', k, ctrl') \<leftarrow> MemfsRead dev_read n Buffer Offset Length ctrl;
       Some (st, k, ctrl', s\<lparr>buffers := (buffers s)(b \<mapsto> Buffer')\<rparr>)
     }
     else do {
       let EndOffset = clamped_end Offset Length (FileSize (FileInfo n));
       (pending, s1) \<leftarrow> start_delayed (ReadJob r b Offset EndOffset hint) thread_ok s;
       if pending then Some (STATUS_PENDING, None, ctrl, s1)
       else do {
         Buffer' \<leftarrow> copy_out n Buffer Offset EndOffset;
         Some (STATUS_SUCCESS, Some (ucast (EndOffset - Offset)), ctrl, s1\<lparr>buffers := (buffers s1)(b \<mapsto> Buffer')\<rparr>)
       }
     }
   }"

definition SlowWrite :: "win_heap \<Rightarrow> nat \<Rightarrow> u32 \<Rightarrow> u64 \<Rightarrow> (nat \<Rightarrow> u8 list option \<Rightarrow> nat \<Rightarrow> 'd \<Rightarrow> (bool \<times> 'd) option) \<Rightarrow> 'd option \<Rightarrow> bool \<Rightarrow>
   u64 \<Rightarrow> nat \<Rightarrow> nat \<Rightarrow> u64 \<Rightarrow> u32 \<Rightarrow> bool \<Rightarrow> bool \<Rightarrow> bool \<Rightarrow> slowio \<Rightarrow>
   (ntstatus \<times> u32 option \<times> file_info option \<times> 'd option \<times> slowio) option" where
  "SlowWrite h alignment MaxFileSize now dev_write ctrl thread_ok hint r b Offset0 Length WriteToEndOfFile ConstrainedIo want_info s = do {
     n \<leftarrow> files s r;
     Buffer \<leftarrow> buffers s b;
     let size_of_file = FileSize (FileInfo n);
     if FileName n = ftj_disk_bin \<or> ConstrainedIo \<and> Offset0 \<ge> size_of_file
     then do {
       (st, k, info, n', ctrl') \<leftarrow>
         MemfsWrite h alignment MaxFileSize now dev_write n Buffer Offset0 Length WriteToEndOfFile ConstrainedIo want_info ctrl;
       Some (st, k, info, ctrl', s\<lparr>files := (files s)(r \<mapsto> n')\<rparr>)
     }
     else do {
       let Offset = (if \<not> ConstrainedIo \<and> WriteToEndOfFile then size_of_file else Offset0);
       let EndOffset = (if ConstrainedIo then clamped_end Offset Length size_of_file else Offset + ucast Length);
       (st, n1) \<leftarrow> (if \<not> ConstrainedIo \<and> EndOffset > size_of_file
                      then SetFileSizeInternal h alignment MaxFileSize EndOffset False n else Some (STATUS_SUCCESS, n));
       let s0 = s\<lparr>files := (files s)(r \<mapsto> n1)\<rparr>;
       if st \<noteq> STATUS_SUCCESS then Some (st, None, None, ctrl, s0)
       else do {
         (pending, s1) \<leftarrow> start_delayed (WriteJob r b Offset EndOffset hint) thread_ok s0;
         if pending then Some (STATUS_PENDING, None, None, ctrl, s1)
         else do {
           n2 \<leftarrow> copy_in n1 Buffer Offset EndOffset;
           Some (STATUS_SUCCESS, Some (ucast (EndOffset - Offset)), Some (MemfsFileNodeGetFileInfo n2), ctrl,
                 s1\<lparr>files := (files s1)(r \<mapsto> n2)\<rparr>)
         }
       }
     }
   }"

text \<open>\<open>ReadDirectory\<close> once the entries are in the buffer, \<open>bytes\<close> of them.\<close>

definition SlowReadDirectory :: "bool \<Rightarrow> u64 \<Rightarrow> u32 \<Rightarrow> slowio \<Rightarrow> (ntstatus \<times> slowio) option" where
  "SlowReadDirectory thread_ok hint bytes s = do {
     (pending, s1) \<leftarrow> start_delayed (DirectoryJob bytes hint) thread_ok s;
     Some (if pending then STATUS_PENDING else STATUS_SUCCESS, s1)
   }"

text \<open>The three thread functions: the copy, and the response.\<close>

definition run_copy :: "job \<Rightarrow> slowio \<Rightarrow> slowio option" where
  "run_copy j s =
     (case j of
        ReadJob r b Offset EndOffset hint \<Rightarrow> do {
          n \<leftarrow> files s r; Buffer \<leftarrow> buffers s b;
          Buffer' \<leftarrow> copy_out n Buffer Offset EndOffset;
          Some (s\<lparr>buffers := (buffers s)(b \<mapsto> Buffer')\<rparr>)
        }
      | WriteJob r b Offset EndOffset hint \<Rightarrow> do {
          n \<leftarrow> files s r; Buffer \<leftarrow> buffers s b;
          n' \<leftarrow> copy_in n Buffer Offset EndOffset;
          Some (s\<lparr>files := (files s)(r \<mapsto> n')\<rparr>)
        }
      | DirectoryJob bytes hint \<Rightarrow> Some s)"

definition response_of :: "job \<Rightarrow> slowio \<Rightarrow> response option" where
  "response_of j s =
     (case j of
        ReadJob r b Offset EndOffset hint \<Rightarrow>
          Some \<lparr>Kind = ReadKind, Hint = hint, Status = STATUS_SUCCESS, Information = ucast (EndOffset - Offset), WrittenInfo = None\<rparr>
      | WriteJob r b Offset EndOffset hint \<Rightarrow> do {
          n \<leftarrow> files s r;
          Some \<lparr>Kind = WriteKind, Hint = hint, Status = STATUS_SUCCESS, Information = ucast (EndOffset - Offset),
                WrittenInfo = Some (MemfsFileNodeGetFileInfo n)\<rparr>
        }
      | DirectoryJob bytes hint \<Rightarrow>
          Some \<lparr>Kind = QueryDirectoryKind, Hint = hint, Status = STATUS_SUCCESS, Information = bytes, WrittenInfo = None\<rparr>)"

definition slow_thread_step :: "nat \<Rightarrow> slowio \<Rightarrow> slowio option" where
  "slow_thread_step i s =
     (case threads s ! i of
        (Snoozing, j) \<Rightarrow> do {
          (slept, s1) \<leftarrow> SlowioSnooze s;
          Some (s1\<lparr>threads := (threads s1)[i := (Copying, j)]\<rparr>)
        }
      | (Copying, j) \<Rightarrow> do {
          s1 \<leftarrow> run_copy j s;
          Some (s1\<lparr>threads := (threads s1)[i := (Responding, j)]\<rparr>)
        }
      | (Responding, j) \<Rightarrow> do {
          rsp \<leftarrow> response_of j s;
          Some (s\<lparr>responses := responses s @ [rsp], threads := (threads s)[i := (Ending, j)]\<rparr>)
        }
      | (Ending, j) \<Rightarrow>
          Some (s\<lparr>SlowioThreadsRunning := SlowioThreadsRunning s - 1, threads := take i (threads s) @ drop (Suc i) (threads s)\<rparr>))"

text \<open>\<open>MemfsStart\<close> clears the counter; \<open>MemfsStop\<close> waits until it is zero.\<close>

definition SlowStart :: "slowio \<Rightarrow> slowio" where
  "SlowStart s = s\<lparr>SlowioThreadsRunning := 0\<rparr>"

definition stop_returns :: "slowio \<Rightarrow> bool" where
  "stop_returns s \<longleftrightarrow> SlowioThreadsRunning s = 0"

section \<open>Delays\<close>

text \<open>The options with which the delays are defined: the largest 32-bit delay would divide by zero, and a
  rarefying shift of 32 or more may be drawn.\<close>

definition delays_ok :: "slowio \<Rightarrow> bool" where
  "delays_ok s \<longleftrightarrow> SlowioMaxDelay s \<noteq> - 1 \<and> unat (SlowioRarefyDelay s) < 32"

lemma PseudoRandom_below:
  assumes "limit \<noteq> 0"
  shows "\<exists>r. PseudoRandom limit sp = Some (r, sp + 1) \<and> r < limit"
proof -
  have w: "unat (Hash (sp + 1) mod ucast limit) = unat (Hash (sp + 1)) mod unat limit" by (simp add: unat_mod unat_ulong)
  have pos: "0 < unat limit" using assms by (simp add: unat_gt_0)
  then have "unat (Hash (sp + 1)) mod unat limit < unat limit" by simp
  moreover have "unat limit < 2 ^ 32" using unsigned_less [of limit] by simp
  ultimately have "unat (ucast (Hash (sp + 1) mod ucast limit) :: u32) = unat (Hash (sp + 1)) mod unat limit"
    by (simp add: unsigned_ucast_eq w take_bit_nat_eq_self)
  then have "(ucast (Hash (sp + 1) mod ucast limit) :: u32) < limit" using pos by (simp only: word_less_nat_alt) simp
  then show ?thesis using assms by (simp add: PseudoRandom_def Let_def)
qed

lemma plus_one_nonzero: "x \<noteq> - 1 \<Longrightarrow> x + 1 \<noteq> (0 :: 'a :: len word)"
  using eq_neg_iff_add_eq_0 [of x 1] by blast

lemma snooze_bounded:
  assumes "delays_ok s"
  shows "\<exists>t sp. SlowioSnooze s = Some (t, s\<lparr>spin := sp\<rparr>) \<and> (case t of None \<Rightarrow> SlowioMaxDelay s = 0 | Some m \<Rightarrow> m \<le> SlowioMaxDelay s)"
proof (cases "SlowioMaxDelay s = 0")
  case True
  then have "SlowioSnooze s = Some (None, s\<lparr>spin := spin s\<rparr>)" by (simp add: SlowioSnooze_def)
  then show ?thesis using True by (intro exI [of _ None] exI [of _ "spin s"]) simp
next
  case False
  have m: "SlowioMaxDelay s + 1 \<noteq> 0" using assms plus_one_nonzero by (auto simp: delays_ok_def)
  have r: "SlowioRarefyDelay s + 1 \<noteq> 0" "unat (SlowioRarefyDelay s + 1) = unat (SlowioRarefyDelay s) + 1"
    using assms unsigned_less [of "SlowioRarefyDelay s"] by (auto simp: delays_ok_def unat_word_ariths word_unat_eq_iff)
  obtain a where a: "PseudoRandom (SlowioMaxDelay s + 1) (spin s) = Some (a, spin s + 1)" "a < SlowioMaxDelay s + 1"
    using PseudoRandom_below [OF m] by blast
  obtain b where b: "PseudoRandom (SlowioRarefyDelay s + 1) (spin s + 1) = Some (b, spin s + 1 + 1)" "b < SlowioRarefyDelay s + 1"
    using PseudoRandom_below [OF r(1)] by blast
  have "unat b < 32" using b(2) r(2) assms by (simp add: word_less_nat_alt delays_ok_def)
  then have s: "SlowioSnooze s = Some (Some (drop_bit (unat b) a), s\<lparr>spin := spin s + 1 + 1\<rparr>)"
    using False by (simp add: SlowioSnooze_def a(1) b(1))
  have "unat (SlowioMaxDelay s + 1) = unat (SlowioMaxDelay s) + 1"
    using unatSuc [of "SlowioMaxDelay s"] m by (simp add: add.commute)
  then have "a \<le> SlowioMaxDelay s" using a(2) by (simp add: word_less_nat_alt word_le_nat_alt)
  moreover have "drop_bit (unat b) a \<le> a" by (simp only: word_le_nat_alt unat_drop_bit_eq) (simp only: drop_bit_eq_div div_le_dividend)
  ultimately have "drop_bit (unat b) a \<le> SlowioMaxDelay s" by simp
  then show ?thesis using s by auto
qed

lemma snooze_zero_division:
  assumes "SlowioMaxDelay s = - 1"
  shows "SlowioSnooze s = None"
  using assms by (simp add: SlowioSnooze_def PseudoRandom_def)

lemma start_delayed_defined:
  assumes "delays_ok s"
  obtains sp where "start_delayed j ok s = Some (False, s\<lparr>spin := sp\<rparr>)"
  | sp where "ok" "start_delayed j ok s = Some (True, s\<lparr>spin := sp, SlowioThreadsRunning := SlowioThreadsRunning s + 1,
      threads := threads s @ [(Snoozing, j)]\<rparr>)"
proof -
  obtain p sp1 where p: "SlowioReturnPending s = Some (p, s\<lparr>spin := sp1\<rparr>)"
  proof (cases "SlowioMaxDelay s = 0")
    case True
    then show ?thesis using that [of False "spin s"] by (simp add: SlowioReturnPending_def)
  next
    case False
    obtain x where "PseudoRandom 100 (spin s) = Some (x, spin s + 1)" using PseudoRandom_below [of 100] by auto
    then show ?thesis using that False by (simp add: SlowioReturnPending_def)
  qed
  have "delays_ok (s\<lparr>spin := sp1\<rparr>)" using assms by (simp add: delays_ok_def)
  then obtain t sp2 where t: "SlowioSnooze (s\<lparr>spin := sp1\<rparr>) = Some (t, s\<lparr>spin := sp1, spin := sp2\<rparr>)"
    using snooze_bounded by blast
  show thesis
  proof (cases "p \<and> ok")
    case True
    then show thesis using that(2) [of sp1] p by (simp add: start_delayed_def)
  next
    case False
    then have "start_delayed j ok s = Some (False, s\<lparr>spin := sp2\<rparr>)" using t by (auto simp: start_delayed_def p)
    then show thesis by (rule that(1))
  qed
qed

text \<open>Without a maximal delay the build behaves like the other one.\<close>

lemma start_delayed_off: "SlowioMaxDelay s = 0 \<Longrightarrow> start_delayed j ok s = Some (False, s)"
  by (simp add: start_delayed_def SlowioReturnPending_def SlowioSnooze_def)

section \<open>A delayed request does what an immediate one does\<close>

text \<open>The four steps of a thread, one after the other.\<close>

definition finish_thread :: "nat \<Rightarrow> slowio \<Rightarrow> slowio option" where
  "finish_thread i s = do {
     s1 \<leftarrow> slow_thread_step i s;
     s2 \<leftarrow> slow_thread_step i s1;
     s3 \<leftarrow> slow_thread_step i s2;
     slow_thread_step i s3
   }"

definition forget_spin :: "slowio \<Rightarrow> slowio" where
  "forget_spin s = s\<lparr>spin := 0\<rparr>"

lemma run_copy_frame:
  assumes "run_copy j s = Some s1"
  shows "threads s1 = threads s" "responses s1 = responses s" "SlowioThreadsRunning s1 = SlowioThreadsRunning s"
  using assms by (auto simp: run_copy_def bind_eq_Some_conv split: job.splits)

lemma run_copy_threads:
  "run_copy j (s\<lparr>spin := sp, threads := ts\<rparr>) = map_option (\<lambda>x. x\<lparr>spin := sp, threads := ts\<rparr>) (run_copy j s)"
  by (cases j) (auto simp: run_copy_def split: Option.bind_splits)

lemma finish_last:
  assumes "delays_ok s" "threads s = ts @ [(Snoozing, j)]"
  shows "map_option forget_spin (finish_thread (length ts) s) = do {
     s1 \<leftarrow> run_copy j s;
     rsp \<leftarrow> response_of j s1;
     Some (forget_spin (s1\<lparr>SlowioThreadsRunning := SlowioThreadsRunning s1 - 1, threads := ts,
       responses := responses s1 @ [rsp]\<rparr>))
   }"
proof -
  obtain t sp where t: "SlowioSnooze s = Some (t, s\<lparr>spin := sp\<rparr>)" using snooze_bounded [OF assms(1)] by blast
  have 1: "slow_thread_step (length ts) s = Some (s\<lparr>spin := sp, threads := ts @ [(Copying, j)]\<rparr>)"
    by (simp add: slow_thread_step_def assms(2) t)
  show ?thesis
  proof (cases "run_copy j s")
    case None
    then have "slow_thread_step (length ts) (s\<lparr>spin := sp, threads := ts @ [(Copying, j)]\<rparr>) = None"
      by (simp add: slow_thread_step_def run_copy_threads)
    then show ?thesis by (simp add: finish_thread_def 1 None)
  next
    case (Some s1)
    have 2: "slow_thread_step (length ts) (s\<lparr>spin := sp, threads := ts @ [(Copying, j)]\<rparr>) =
        Some (s1\<lparr>spin := sp, threads := ts @ [(Responding, j)]\<rparr>)"
      by (simp add: slow_thread_step_def run_copy_threads Some)
    have rsp: "response_of j (s1\<lparr>spin := sp, threads := ts @ [(Responding, j)]\<rparr>) = response_of j s1"
      by (cases j) (simp_all add: response_of_def)
    show ?thesis
    proof (cases "response_of j s1")
      case None
      then have "slow_thread_step (length ts) (s1\<lparr>spin := sp, threads := ts @ [(Responding, j)]\<rparr>) = None"
        by (simp add: slow_thread_step_def rsp)
      then show ?thesis by (simp add: finish_thread_def 1 2 None \<open>run_copy j s = Some s1\<close>)
    next
      case (Some rs)
      have 3: "slow_thread_step (length ts) (s1\<lparr>spin := sp, threads := ts @ [(Responding, j)]\<rparr>) =
          Some (s1\<lparr>spin := sp, responses := responses s1 @ [rs], threads := ts @ [(Ending, j)]\<rparr>)"
        by (simp add: slow_thread_step_def rsp Some)
      have 4: "slow_thread_step (length ts) (s1\<lparr>spin := sp, responses := responses s1 @ [rs], threads := ts @ [(Ending, j)]\<rparr>) =
          Some (s1\<lparr>spin := sp, responses := responses s1 @ [rs], threads := ts, SlowioThreadsRunning := SlowioThreadsRunning s1 - 1\<rparr>)"
        by (simp add: slow_thread_step_def)
      show ?thesis by (simp add: finish_thread_def 1 2 3 4 Some \<open>run_copy j s = Some s1\<close> forget_spin_def)
    qed
  qed
qed

text \<open>The handlers of the other build in terms of the same copies.\<close>

lemma MemfsRead_copy:
  assumes "FileName n \<noteq> ftj_disk_bin" "\<not> Offset \<ge> FileSize (FileInfo n)"
  shows "MemfsRead dev_read n Buffer Offset Length ctrl = do {
     Buffer' \<leftarrow> copy_out n Buffer Offset (clamped_end Offset Length (FileSize (FileInfo n)));
     Some (STATUS_SUCCESS, Buffer', Some (ucast (clamped_end Offset Length (FileSize (FileInfo n)) - Offset)), ctrl)
   }"
  using assms by (simp add: MemfsRead_def copy_out_def Let_def)

definition write_start :: "u64 \<Rightarrow> bool \<Rightarrow> bool \<Rightarrow> u64 \<Rightarrow> u64" where
  "write_start Offset0 toEnd constrained fs = (if \<not> constrained \<and> toEnd then fs else Offset0)"

definition write_end :: "u64 \<Rightarrow> u32 \<Rightarrow> bool \<Rightarrow> u64 \<Rightarrow> u64" where
  "write_end Offset Length constrained fs = (if constrained then clamped_end Offset Length fs else Offset + ucast Length)"

definition write_resize :: "win_heap \<Rightarrow> nat \<Rightarrow> u32 \<Rightarrow> bool \<Rightarrow> u64 \<Rightarrow> file_node \<Rightarrow> (ntstatus \<times> file_node) option" where
  "write_resize h al mx constrained EndOffset n =
     (if \<not> constrained \<and> EndOffset > FileSize (FileInfo n) then SetFileSizeInternal h al mx EndOffset False n
      else Some (STATUS_SUCCESS, n))"

lemma MemfsWrite_copy:
  assumes "FileName n \<noteq> ftj_disk_bin" "\<not> (constrained \<and> Offset0 \<ge> FileSize (FileInfo n))"
    and "Off = write_start Offset0 toEnd constrained (FileSize (FileInfo n))"
    and "En = write_end Off Length constrained (FileSize (FileInfo n))"
  shows "MemfsWrite h al mx now dev_write n Buffer Offset0 Length toEnd constrained want ctrl = do {
     (st, n1) \<leftarrow> write_resize h al mx constrained En n;
     if st \<noteq> STATUS_SUCCESS then Some (st, None, None, n1, ctrl)
     else do {
       n2 \<leftarrow> copy_in n1 Buffer Off En;
       Some (STATUS_SUCCESS, Some (ucast (En - Off)), Some (FileInfo n2), n2, ctrl)
     }
   }"
  using assms(1,2)
  by (auto simp: MemfsWrite_def copy_in_def Let_def assms(3,4) write_start_def write_end_def write_resize_def MemfsFileNodeGetFileInfo_def
      split: Option.bind_splits)

lemma SlowWrite_copy:
  assumes "files s r = Some n" "buffers s b = Some Buffer"
    and "FileName n \<noteq> ftj_disk_bin" "\<not> (constrained \<and> Offset0 \<ge> FileSize (FileInfo n))"
    and "Off = write_start Offset0 toEnd constrained (FileSize (FileInfo n))"
    and "En = write_end Off Length constrained (FileSize (FileInfo n))"
  shows "SlowWrite h al mx now dev_write ctrl ok hint r b Offset0 Length toEnd constrained want s = do {
     (st, n1) \<leftarrow> write_resize h al mx constrained En n;
     let s0 = s\<lparr>files := (files s)(r \<mapsto> n1)\<rparr>;
     if st \<noteq> STATUS_SUCCESS then Some (st, None, None, ctrl, s0)
     else do {
       (pending, s1) \<leftarrow> start_delayed (WriteJob r b Off En hint) ok s0;
       if pending then Some (STATUS_PENDING, None, None, ctrl, s1)
       else do {
         n2 \<leftarrow> copy_in n1 Buffer Off En;
         Some (STATUS_SUCCESS, Some (ucast (En - Off)), Some (FileInfo n2), ctrl, s1\<lparr>files := (files s1)(r \<mapsto> n2)\<rparr>)
       }
     }
   }"
proof -
  have c: "(FileName n = ftj_disk_bin \<or> constrained \<and> Offset0 \<ge> FileSize (FileInfo n)) = False" using assms(3,4) by simp
  show ?thesis
    unfolding SlowWrite_def assms(1,2,5,6) Option.bind.bind_lunit Let_def c if_False
      write_start_def write_end_def write_resize_def MemfsFileNodeGetFileInfo_def by (rule refl)
qed

lemma SetAllocation_not_pending: "fst (SetAllocation h al mx N n) \<noteq> STATUS_PENDING"
  by (simp add: SetAllocation_def Let_def)

lemma SetFileSizeInternal_not_pending: "SetFileSizeInternal h al mx N a n = Some (st, n') \<Longrightarrow> st \<noteq> STATUS_PENDING"
  using SetAllocation_not_pending [of h al mx N n]
    SetAllocation_not_pending [of h al mx "(N + AllocationUnit - 1) div AllocationUnit * AllocationUnit" n]
  by (auto simp: SetFileSizeInternal_def split: if_splits prod.splits Option.bind_splits)

lemma MemfsRead_not_pending: "MemfsRead dev_read n B Offset Length ctrl = Some (st, rest) \<Longrightarrow> st \<noteq> STATUS_PENDING"
  by (auto simp: MemfsRead_def Let_def bind_eq_Some_conv split: if_splits option.splits prod.splits)

lemma MemfsWrite_disk_not_pending:
  assumes "FileName n = ftj_disk_bin \<or> constrained \<and> Offset \<ge> FileSize (FileInfo n)"
    and "MemfsWrite h al mx now dev_write n B Offset Length toEnd constrained want ctrl = Some (st, rest)"
  shows "st \<noteq> STATUS_PENDING"
  using assms by (auto simp: MemfsWrite_def Let_def bind_eq_Some_conv split: if_splits option.splits prod.splits)

text \<open>C32: a request that is answered with \<open>STATUS_PENDING\<close> has, once its thread has run, the same effect on the buffer
  and the file as an immediate one, and the response carries the status, the count and the file information that
  the immediate call returns; the counter and the list of threads are as before.\<close>

theorem delayed_equals_immediate:
  assumes "delays_ok s" "files s r = Some n" "buffers s b = Some B"
  shows "(SlowRead dev_read ctrl ok hint r b Offset Length s = Some (STATUS_PENDING, k, ctrl1, s1) \<longrightarrow>
      map_option forget_spin (finish_thread (length (threads s)) s1) = do {
        (st, B', m, _) \<leftarrow> MemfsRead dev_read n B Offset Length ctrl;
        if st = STATUS_SUCCESS then Some (forget_spin (s\<lparr>buffers := (buffers s)(b \<mapsto> B'), responses := responses s @
          [\<lparr>Kind = ReadKind, Hint = hint, Status = st, Information = the m, WrittenInfo = None\<rparr>]\<rparr>)) else None
      }) \<and>
    (SlowWrite h al mx now dev_write ctrl ok hint r b Offset Length toEnd constrained want s =
        Some (STATUS_PENDING, k, info, ctrl1, s1) \<longrightarrow>
      map_option forget_spin (finish_thread (length (threads s)) s1) = do {
        (st, m, i, n', _) \<leftarrow> MemfsWrite h al mx now dev_write n B Offset Length toEnd constrained want ctrl;
        if st = STATUS_SUCCESS then Some (forget_spin (s\<lparr>files := (files s)(r \<mapsto> n'), responses := responses s @
          [\<lparr>Kind = WriteKind, Hint = hint, Status = st, Information = the m, WrittenInfo = i\<rparr>]\<rparr>)) else None
      })"
proof (intro conjI impI)
  assume a: "SlowRead dev_read ctrl ok hint r b Offset Length s = Some (STATUS_PENDING, k, ctrl1, s1)"
  have c: "FileName n \<noteq> ftj_disk_bin" "\<not> Offset \<ge> FileSize (FileInfo n)"
    using a MemfsRead_not_pending [of dev_read n B Offset Length ctrl STATUS_PENDING]
    by (auto simp: SlowRead_def assms(2,3) bind_eq_Some_conv split: if_splits)
  let ?E = "clamped_end Offset Length (FileSize (FileInfo n))" and ?j = "ReadJob r b Offset (clamped_end Offset Length (FileSize (FileInfo n))) hint"
  obtain sp where s1: "s1 = s\<lparr>spin := sp, SlowioThreadsRunning := SlowioThreadsRunning s + 1, threads := threads s @ [(Snoozing, ?j)]\<rparr>"
    by (rule start_delayed_defined [OF assms(1), of ?j ok]) (use a c in \<open>auto simp: SlowRead_def assms(2,3) bind_eq_Some_conv Let_def\<close>)
  have "delays_ok s1" using assms(1) by (simp add: s1 delays_ok_def)
  note f = finish_last [OF this, of "threads s" ?j]
  show "map_option forget_spin (finish_thread (length (threads s)) s1) = do {
        (st, B', m, _) \<leftarrow> MemfsRead dev_read n B Offset Length ctrl;
        if st = STATUS_SUCCESS then Some (forget_spin (s\<lparr>buffers := (buffers s)(b \<mapsto> B'), responses := responses s @
          [\<lparr>Kind = ReadKind, Hint = hint, Status = st, Information = the m, WrittenInfo = None\<rparr>]\<rparr>)) else None
      }"
    using f unfolding MemfsRead_copy [OF c]
    by (cases "copy_out n B Offset ?E") (simp_all add: s1 run_copy_def response_of_def assms(2,3) forget_spin_def)
next
  assume a: "SlowWrite h al mx now dev_write ctrl ok hint r b Offset Length toEnd constrained want s =
        Some (STATUS_PENDING, k, info, ctrl1, s1)"
  have c: "FileName n \<noteq> ftj_disk_bin" "\<not> (constrained \<and> Offset \<ge> FileSize (FileInfo n))"
    using a MemfsWrite_disk_not_pending [of n constrained Offset h al mx now dev_write B Length toEnd want ctrl STATUS_PENDING]
    by (auto simp: SlowWrite_def assms(2,3) bind_eq_Some_conv Let_def split: if_splits)
  define Off where "Off = write_start Offset toEnd constrained (FileSize (FileInfo n))"
  define En where "En = write_end Off Length constrained (FileSize (FileInfo n))"
  note w = SlowWrite_copy [OF assms(2,3) c Off_def En_def]
  obtain st n1 where n1: "write_resize h al mx constrained En n = Some (st, n1)"
    using a unfolding w by (auto simp: bind_eq_Some_conv)
  have st: "st = STATUS_SUCCESS"
    using a n1 SetFileSizeInternal_not_pending [of h al mx En False n st n1] unfolding w
    by (auto simp: write_resize_def Let_def split: if_splits)
  let ?s0 = "s\<lparr>files := (files s)(r \<mapsto> n1)\<rparr>" and ?j = "WriteJob r b Off En hint"
  have "delays_ok ?s0" using assms(1) by (simp add: delays_ok_def)
  then obtain sp where s1: "s1 = ?s0\<lparr>spin := sp, SlowioThreadsRunning := SlowioThreadsRunning s + 1, threads := threads s @ [(Snoozing, ?j)]\<rparr>"
    by (rule start_delayed_defined [of ?s0 ?j ok]) (use a in \<open>auto simp: w n1 st bind_eq_Some_conv Let_def\<close>)
  have "delays_ok s1" using assms(1) by (simp add: s1 delays_ok_def)
  note f = finish_last [OF this, of "threads s" ?j]
  show "map_option forget_spin (finish_thread (length (threads s)) s1) = do {
        (st, m, i, n', _) \<leftarrow> MemfsWrite h al mx now dev_write n B Offset Length toEnd constrained want ctrl;
        if st = STATUS_SUCCESS then Some (forget_spin (s\<lparr>files := (files s)(r \<mapsto> n'), responses := responses s @
          [\<lparr>Kind = WriteKind, Hint = hint, Status = st, Information = the m, WrittenInfo = i\<rparr>]\<rparr>)) else None
      }"
    using f unfolding MemfsWrite_copy [OF c Off_def En_def] n1
    by (cases "copy_in n1 B Off En") (simp_all add: s1 st run_copy_def response_of_def assms(3) forget_spin_def MemfsFileNodeGetFileInfo_def)
qed

section \<open>The steps\<close>

fun job_range :: "job \<Rightarrow> (nat \<times> nat \<times> u64 \<times> u64) option" where
  "job_range (ReadJob r b off en hint) = Some (r, b, off, en)"
| "job_range (WriteJob r b off en hint) = Some (r, b, off, en)"
| "job_range (DirectoryJob bytes hint) = None"

fun job_hint :: "job \<Rightarrow> u64" where
  "job_hint (ReadJob r b off en hint) = hint"
| "job_hint (WriteJob r b off en hint) = hint"
| "job_hint (DirectoryJob bytes hint) = hint"

text \<open>The jobs whose request is not answered yet.\<close>

definition open_jobs :: "slowio \<Rightarrow> job list" where
  "open_jobs s = map snd (filter (\<lambda>(pc, j). pc \<noteq> Ending) (threads s))"

definition uses_file :: "nat \<Rightarrow> job \<Rightarrow> bool" where
  "uses_file r j \<longleftrightarrow> (case job_range j of None \<Rightarrow> False | Some (r2, b, off, en) \<Rightarrow> r2 = r)"

definition uses_buffer :: "nat \<Rightarrow> job \<Rightarrow> bool" where
  "uses_buffer b j \<longleftrightarrow> (case job_range j of None \<Rightarrow> False | Some (r, b2, off, en) \<Rightarrow> b2 = b)"

text \<open>What comes with a request: a buffer of the stated length, and an end below \<open>2 ^ 63\<close>.\<close>

definition request_ok :: "nat \<Rightarrow> u64 \<Rightarrow> u32 \<Rightarrow> slowio \<Rightarrow> bool" where
  "request_ok b Offset Length s \<longleftrightarrow> Length \<noteq> 0 \<and> unat Offset + unat Length \<le> 2 ^ 63 \<and>
     (\<forall>B. buffers s b = Some B \<longrightarrow> unat Length \<le> length B)"

definition pended :: "ntstatus \<Rightarrow> u64 \<Rightarrow> u64 list" where
  "pended st hint = (if st = STATUS_PENDING then [hint] else [])"

inductive slow_step :: "win_heap \<Rightarrow> nat \<Rightarrow> u32 \<Rightarrow>
   (nat \<Rightarrow> u8 list option \<Rightarrow> nat \<Rightarrow> 'd \<Rightarrow> (bool \<times> u8 list option \<times> 'd) option) \<Rightarrow>
   (nat \<Rightarrow> u8 list option \<Rightarrow> nat \<Rightarrow> 'd \<Rightarrow> (bool \<times> 'd) option) \<Rightarrow> slowio \<Rightarrow> u64 list \<Rightarrow> slowio \<Rightarrow> bool"
  for h al mx dev_read dev_write where
  read_call: "request_ok b Offset Length s \<Longrightarrow>
    SlowRead dev_read ctrl ok hint r b Offset Length s = Some (st, k, ctrl1, s1) \<Longrightarrow>
    slow_step h al mx dev_read dev_write s (pended st hint) s1"
| write_call: "request_ok b Offset Length s \<Longrightarrow>
    (\<And>n. files s r = Some n \<Longrightarrow> unat (FileSize (FileInfo n)) + unat Length \<le> 2 ^ 63) \<Longrightarrow>
    SlowWrite h al mx now dev_write ctrl ok hint r b Offset Length toEnd constrained want s = Some (st, k, info, ctrl1, s1) \<Longrightarrow>
    slow_step h al mx dev_read dev_write s (pended st hint) s1"
| directory_call: "SlowReadDirectory ok hint bytes s = Some (st, s1) \<Longrightarrow>
    slow_step h al mx dev_read dev_write s (pended st hint) s1"
| thread_moves: "i < length (threads s) \<Longrightarrow> slow_thread_step i s = Some s1 \<Longrightarrow> slow_step h al mx dev_read dev_write s [] s1"
| other_file: "\<not> list_ex (uses_file r) (open_jobs s) \<Longrightarrow>
    (\<And>n. f = Some n \<Longrightarrow> FileName n = ftj_disk_bin \<or> node_ok n) \<Longrightarrow>
    slow_step h al mx dev_read dev_write s [] (s\<lparr>files := (files s)(r := f)\<rparr>)"
| other_buffer: "\<not> list_ex (uses_buffer b) (open_jobs s) \<Longrightarrow>
    slow_step h al mx dev_read dev_write s [] (s\<lparr>buffers := (buffers s)(b := B)\<rparr>)"

text \<open>The trace collects the hints of the requests answered with \<open>STATUS_PENDING\<close>.\<close>

inductive slow_run :: "win_heap \<Rightarrow> nat \<Rightarrow> u32 \<Rightarrow>
   (nat \<Rightarrow> u8 list option \<Rightarrow> nat \<Rightarrow> 'd \<Rightarrow> (bool \<times> u8 list option \<times> 'd) option) \<Rightarrow>
   (nat \<Rightarrow> u8 list option \<Rightarrow> nat \<Rightarrow> 'd \<Rightarrow> (bool \<times> 'd) option) \<Rightarrow> slowio \<Rightarrow> u64 list \<Rightarrow> slowio \<Rightarrow> bool"
  for h al mx dev_read dev_write s0 where
  slow_begin: "slow_run h al mx dev_read dev_write s0 [] s0"
| slow_more: "slow_run h al mx dev_read dev_write s0 tr s \<Longrightarrow> slow_step h al mx dev_read dev_write s ev s1 \<Longrightarrow>
    slow_run h al mx dev_read dev_write s0 (tr @ ev) s1"

section \<open>The invariant\<close>

definition transfer_ok :: "slowio \<Rightarrow> nat \<Rightarrow> nat \<Rightarrow> u64 \<Rightarrow> u64 \<Rightarrow> bool" where
  "transfer_ok s r b off en \<longleftrightarrow> (\<exists>n B. files s r = Some n \<and> buffers s b = Some B \<and> FileName n \<noteq> ftj_disk_bin \<and>
     FileSize (FileInfo n) \<noteq> 0 \<and> unat off + unat (en - off) \<le> unat (FileSize (FileInfo n)) \<and> unat (en - off) \<le> length B)"

definition job_ok :: "slowio \<Rightarrow> job \<Rightarrow> bool" where
  "job_ok s j \<longleftrightarrow> (case job_range j of None \<Rightarrow> True | Some (r, b, off, en) \<Rightarrow> transfer_ok s r b off en)"

definition nodes_ok :: "slowio \<Rightarrow> bool" where
  "nodes_ok s \<longleftrightarrow> (\<forall>r n. files s r = Some n \<longrightarrow> FileName n = ftj_disk_bin \<or> node_ok n)"

definition slow_inv :: "u64 list \<Rightarrow> slowio \<Rightarrow> bool" where
  "slow_inv tr s \<longleftrightarrow> delays_ok s \<and> nodes_ok s \<and> (\<forall>j \<in> set (open_jobs s). job_ok s j) \<and>
     SlowioThreadsRunning s = of_nat (length (threads s)) \<and>
     mset tr = mset (map Hint (responses s)) + mset (map job_hint (open_jobs s))"

text \<open>The drive's \<open>Read\<close> leaves the length of the caller's buffer alone.\<close>

definition keeps_length :: "(nat \<Rightarrow> u8 list option \<Rightarrow> nat \<Rightarrow> 'd \<Rightarrow> (bool \<times> u8 list option \<times> 'd) option) \<Rightarrow> bool" where
  "keeps_length dev_read \<longleftrightarrow> (\<forall>off B m d ok B1 d1. dev_read off (Some B) m d = Some (ok, B1, d1) \<longrightarrow>
     (\<exists>B2. B1 = Some B2 \<and> length B2 = length B))"

text \<open>Files outside the drive only grow, and buffers keep their length.\<close>

definition grows :: "slowio \<Rightarrow> slowio \<Rightarrow> bool" where
  "grows s s1 \<longleftrightarrow>
     (\<forall>r n. files s r = Some n \<and> FileName n \<noteq> ftj_disk_bin \<longrightarrow>
        (\<exists>n1. files s1 r = Some n1 \<and> FileName n1 = FileName n \<and> FileSize (FileInfo n) \<le> FileSize (FileInfo n1))) \<and>
     (\<forall>b B. buffers s b = Some B \<longrightarrow> (\<exists>B1. buffers s1 b = Some B1 \<and> length B1 = length B))"

lemma grows_same: "files s1 = files s \<Longrightarrow> buffers s1 = buffers s \<Longrightarrow> grows s s1"
  by (simp add: grows_def)

lemma grows_buffer: "files s1 = files s \<Longrightarrow> buffers s b = Some B \<Longrightarrow> length B1 = length B \<Longrightarrow> buffers s1 = (buffers s)(b \<mapsto> B1) \<Longrightarrow> grows s s1"
  by (simp add: grows_def)

lemma grows_file:
  assumes "buffers s1 = buffers s" "files s r = Some n" "files s1 = (files s)(r \<mapsto> n1)"
    and "FileName n \<noteq> ftj_disk_bin \<Longrightarrow> FileName n1 = FileName n \<and> FileSize (FileInfo n) \<le> FileSize (FileInfo n1)"
  shows "grows s s1"
  using assms by (auto simp: grows_def)

lemma grows_trans: "grows s s1 \<Longrightarrow> grows s1 s2 \<Longrightarrow> grows s s2"
  unfolding grows_def by (fastforce intro: order_trans)

lemma job_ok_grows:
  assumes "job_ok s j" "grows s s1"
  shows "job_ok s1 j"
proof (cases "job_range j")
  case (Some x)
  obtain r b off en where x: "x = (r, b, off, en)" by (cases x)
  obtain n B where n: "files s r = Some n" "buffers s b = Some B" "FileName n \<noteq> ftj_disk_bin" "FileSize (FileInfo n) \<noteq> 0"
    "unat off + unat (en - off) \<le> unat (FileSize (FileInfo n))" "unat (en - off) \<le> length B"
    using assms(1) by (auto simp: job_ok_def Some x transfer_ok_def)
  obtain n1 B1 where n1: "files s1 r = Some n1" "FileName n1 = FileName n" "FileSize (FileInfo n) \<le> FileSize (FileInfo n1)"
    "buffers s1 b = Some B1" "length B1 = length B"
    using assms(2) n(1-3) unfolding grows_def by meson
  have "unat (FileSize (FileInfo n)) \<le> unat (FileSize (FileInfo n1))" using n1(3) by (simp add: word_le_nat_alt)
  moreover have "FileSize (FileInfo n1) \<noteq> 0" using n(4) n1(3) by (auto simp: word_le_0_iff)
  ultimately show ?thesis using n n1 by (simp add: job_ok_def Some x transfer_ok_def)
qed (simp add: job_ok_def)

section \<open>The copies are defined\<close>

lemma node_block:
  assumes "node_ok n" "FileSize (FileInfo n) \<noteq> 0"
  shows "\<exists>d. FileData n = Some d \<and> unat (FileSize (FileInfo n)) \<le> length d"
proof -
  have "unat (FileSize (FileInfo n)) \<le> length (block n)" using assms(1) by (simp add: node_ok_def word_le_nat_alt)
  moreover have "0 < unat (FileSize (FileInfo n))" using assms(2) by (simp add: unat_gt_0)
  ultimately show ?thesis by (cases "FileData n") (auto simp: block_def)
qed

lemma copy_out_defined:
  assumes "node_ok n" "FileSize (FileInfo n) \<noteq> 0" "unat off + unat (en - off) \<le> unat (FileSize (FileInfo n))" "unat (en - off) \<le> length B"
  shows "\<exists>B1. copy_out n B off en = Some B1 \<and> length B1 = length B"
proof -
  obtain d where d: "FileData n = Some d" "unat (FileSize (FileInfo n)) \<le> length d" using node_block [OF assms(1,2)] by blast
  then show ?thesis using assms(3,4) by (simp add: copy_out_def slice_def splice_def)
qed

lemma copy_in_defined:
  assumes "node_ok n" "FileSize (FileInfo n) \<noteq> 0" "unat off + unat (en - off) \<le> unat (FileSize (FileInfo n))" "unat (en - off) \<le> length B"
  shows "\<exists>d. copy_in n B off en = Some (n\<lparr>FileData := Some d\<rparr>) \<and> node_ok (n\<lparr>FileData := Some d\<rparr>)"
proof -
  obtain d where d: "FileData n = Some d" "unat (FileSize (FileInfo n)) \<le> length d" using node_block [OF assms(1,2)] by blast
  let ?d = "take (unat off) d @ take (unat (en - off)) B @ drop (unat off + unat (en - off)) d"
  have "length ?d = length d" using assms(3,4) d(2) by simp
  then have "node_ok (n\<lparr>FileData := Some ?d\<rparr>)" using assms(1) d by (simp add: node_ok_def block_def)
  then show ?thesis using assms(3,4) d by (intro exI [of _ ?d]) (simp add: copy_in_def slice_def splice_def)
qed

lemma run_copy_ok:
  assumes "job_ok s j" "nodes_ok s"
  shows "\<exists>s1. run_copy j s = Some s1 \<and> grows s s1 \<and> nodes_ok s1 \<and> delays_ok s1 = delays_ok s"
proof (cases j)
  case (ReadJob r b off en hint)
  obtain n B where n: "files s r = Some n" "buffers s b = Some B" "FileName n \<noteq> ftj_disk_bin" "FileSize (FileInfo n) \<noteq> 0"
    "unat off + unat (en - off) \<le> unat (FileSize (FileInfo n))" "unat (en - off) \<le> length B"
    using assms(1) by (auto simp: job_ok_def ReadJob transfer_ok_def)
  have "node_ok n" using assms(2) n(1,3) by (auto simp: nodes_ok_def)
  from copy_out_defined [OF this n(4-6)] obtain B1 where B1: "copy_out n B off en = Some B1" "length B1 = length B" by blast
  show ?thesis
    by (intro exI [of _ "s\<lparr>buffers := (buffers s)(b \<mapsto> B1)\<rparr>"] conjI grows_buffer [OF _ n(2) B1(2)])
      (use assms(2) in \<open>simp_all add: ReadJob run_copy_def n(1,2) B1(1) nodes_ok_def delays_ok_def\<close>)
next
  case (WriteJob r b off en hint)
  obtain n B where n: "files s r = Some n" "buffers s b = Some B" "FileName n \<noteq> ftj_disk_bin" "FileSize (FileInfo n) \<noteq> 0"
    "unat off + unat (en - off) \<le> unat (FileSize (FileInfo n))" "unat (en - off) \<le> length B"
    using assms(1) by (auto simp: job_ok_def WriteJob transfer_ok_def)
  have "node_ok n" using assms(2) n(1,3) by (auto simp: nodes_ok_def)
  from copy_in_defined [OF this n(4-6)] obtain d where d: "copy_in n B off en = Some (n\<lparr>FileData := Some d\<rparr>)"
    "node_ok (n\<lparr>FileData := Some d\<rparr>)" by blast
  show ?thesis
    by (intro exI [of _ "s\<lparr>files := (files s)(r \<mapsto> n\<lparr>FileData := Some d\<rparr>)\<rparr>"] conjI grows_file [where ?n1.0 = "n\<lparr>FileData := Some d\<rparr>", OF _ n(1)])
      (use assms(2) d in \<open>auto simp: WriteJob run_copy_def n(1,2) nodes_ok_def delays_ok_def\<close>)
qed (use assms(2) in \<open>simp add: run_copy_def grows_same\<close>)

lemma response_of_ok:
  assumes "job_ok s j"
  shows "\<exists>rsp. response_of j s = Some rsp \<and> Hint rsp = job_hint j"
  using assms by (cases j) (auto simp: response_of_def job_ok_def transfer_ok_def)

section \<open>The invariant is kept\<close>

lemma inv_grows:
  assumes "slow_inv tr s" "grows s s1" "nodes_ok s1" "delays_ok s1"
    and "threads s1 = threads s" "responses s1 = responses s" "SlowioThreadsRunning s1 = SlowioThreadsRunning s"
  shows "slow_inv tr s1"
  using assms job_ok_grows [OF _ assms(2)] by (simp add: slow_inv_def open_jobs_def)

lemma start_delayed_inv:
  assumes "slow_inv tr s" "job_ok s j" "start_delayed j ok s = Some (p, s1)"
  shows "slow_inv (tr @ (if p then [job_hint j] else [])) s1 \<and> files s1 = files s \<and> buffers s1 = buffers s"
proof -
  have d: "delays_ok s" using assms(1) by (simp add: slow_inv_def)
  have ok: "job_ok (s\<lparr>spin := sp, SlowioThreadsRunning := m, threads := ts\<rparr>) i = job_ok s i" for sp m ts i
    by (auto simp: job_ok_def transfer_ok_def split: option.split)
  show ?thesis
  proof (rule start_delayed_defined [OF d, of j ok])
    fix sp assume "start_delayed j ok s = Some (False, s\<lparr>spin := sp\<rparr>)"
    then have s1: "s1 = s\<lparr>spin := sp\<rparr>" "\<not> p" using assms(3) by simp_all
    have "slow_inv tr s1"
      by (rule inv_grows [OF assms(1)]) (use assms(1) in \<open>auto simp: s1 grows_same slow_inv_def nodes_ok_def delays_ok_def\<close>)
    then show ?thesis using s1 by simp
  next
    fix sp assume "start_delayed j ok s = Some (True, s\<lparr>spin := sp, SlowioThreadsRunning := SlowioThreadsRunning s + 1,
      threads := threads s @ [(Snoozing, j)]\<rparr>)"
    then have s1: "s1 = s\<lparr>spin := sp, SlowioThreadsRunning := SlowioThreadsRunning s + 1, threads := threads s @ [(Snoozing, j)]\<rparr>" "p"
      using assms(3) by simp_all
    have "open_jobs s1 = open_jobs s @ [j]" by (simp add: open_jobs_def s1)
    then show ?thesis
      using assms(1,2) unfolding slow_inv_def by (simp add: s1 ok nodes_ok_def delays_ok_def add.commute)
  qed
qed

lemma clamped_transfer:
  assumes "unat Offset + unat Length \<le> 2 ^ 63" "\<not> Offset \<ge> FileSize (FileInfo n)" "files s r = Some n" "buffers s b = Some B"
    and "FileName n \<noteq> ftj_disk_bin" "unat Length \<le> length B"
  shows "transfer_ok s r b Offset (clamped_end Offset Length (FileSize (FileInfo n)))"
proof -
  let ?E = "clamped_end Offset Length (FileSize (FileInfo n))"
  have lt: "Offset < FileSize (FileInfo n)" "unat Offset < unat (FileSize (FileInfo n))"
    using assms(2) by (simp_all add: not_le word_less_nat_alt)
  have e: "unat (?E - Offset) = min (unat Length) (unat (FileSize (FileInfo n)) - unat Offset)"
    using clamped_end_unat(2) [OF _ lt(1), of Length] assms(1) by simp
  have "FileSize (FileInfo n) \<noteq> 0" using lt(1) by auto
  then show ?thesis unfolding transfer_ok_def e using assms(3-6) lt(2) by auto
qed

lemma SlowRead_inv:
  assumes "slow_inv tr s" "request_ok b Offset Length s"
    and "SlowRead dev_read ctrl ok hint r b Offset Length s = Some (st, k, ctrl1, s1)"
    and dev: "keeps_length dev_read"
  shows "slow_inv (tr @ pended st hint) s1"
proof -
  obtain n B where n: "files s r = Some n" "buffers s b = Some B" using assms(3) by (auto simp: SlowRead_def bind_eq_Some_conv)
  have inv: "nodes_ok s" "delays_ok s" using assms(1) by (simp_all add: slow_inv_def)
  show ?thesis
  proof (cases "FileName n = ftj_disk_bin \<or> Offset \<ge> FileSize (FileInfo n)")
    case True
    then obtain B1 where B1: "MemfsRead dev_read n B Offset Length ctrl = Some (st, B1, k, ctrl1)"
      "s1 = s\<lparr>buffers := (buffers s)(b \<mapsto> B1)\<rparr>"
      using assms(3) by (auto simp: SlowRead_def n bind_eq_Some_conv)
    have np: "pended st hint = []" using MemfsRead_not_pending [OF B1(1)] by (simp add: pended_def)
    have "length B1 = length B"
      using B1(1) True dev unfolding keeps_length_def
      by (fastforce simp: MemfsRead_def Let_def bind_eq_Some_conv split: if_splits option.splits)
    then have "slow_inv tr s1"
      by (intro inv_grows [OF assms(1) grows_buffer [OF _ n(2)]]) (use inv in \<open>auto simp: B1(2) nodes_ok_def delays_ok_def\<close>)
    then show ?thesis by (simp add: np)
  next
    case False
    let ?E = "clamped_end Offset Length (FileSize (FileInfo n))"
    have t: "transfer_ok s r b Offset ?E"
      using clamped_transfer [OF _ _ n, of Offset Length] assms(2) False n(2) by (simp add: request_ok_def)
    then have j: "job_ok s (ReadJob r b Offset ?E hint)" by (simp add: job_ok_def)
    obtain p s2 where p: "start_delayed (ReadJob r b Offset ?E hint) ok s = Some (p, s2)"
      using assms(3) False by (auto simp: SlowRead_def n bind_eq_Some_conv Let_def)
    note i = start_delayed_inv [OF assms(1) j p]
    show ?thesis
    proof (cases p)
      case True
      then have "st = STATUS_PENDING \<and> s1 = s2" using assms(3) False p by (simp add: SlowRead_def n Let_def)
      then show ?thesis using i True by (simp add: pended_def)
    next
      case np: False
      obtain B1 where B1: "copy_out n B Offset ?E = Some B1" "s1 = s2\<lparr>buffers := (buffers s2)(b \<mapsto> B1)\<rparr>" "st = STATUS_SUCCESS"
        using assms(3) False p np by (auto simp: SlowRead_def n Let_def bind_eq_Some_conv)
      have "length B1 = length B" using B1(1) by (auto simp: copy_out_def bind_eq_Some_conv dest: length_splice)
      then have "slow_inv tr s1"
        using i np n by (intro inv_grows [of tr s2 s1] grows_buffer [of s1 s2 b B B1])
          (auto simp: B1(2) slow_inv_def nodes_ok_def delays_ok_def)
      then show ?thesis by (simp add: pended_def B1(3))
    qed
  qed
qed

lemma MemfsWrite_disk:
  assumes "FileName n = ftj_disk_bin" "MemfsWrite h al mx now dev_write n B Offset Length toEnd constrained want ctrl = Some (st, k, info, n1, ctrl1)"
  shows "FileName n1 = ftj_disk_bin"
  using assms by (auto simp: MemfsWrite_def Let_def bind_eq_Some_conv split: if_splits option.splits prod.splits)

lemma write_resize_spec:
  assumes "heap_laws h" "node_ok n" "FileName n \<noteq> ftj_disk_bin" "unat En \<le> 2 ^ 63"
    and "write_resize h al mx constrained En n = Some (st, n1)"
  shows "node_ok n1 \<and> FileName n1 = FileName n \<and> FileSize (FileInfo n) \<le> FileSize (FileInfo n1) \<and>
    (\<not> constrained \<and> st = STATUS_SUCCESS \<longrightarrow> En \<le> FileSize (FileInfo n1)) \<and> (constrained \<longrightarrow> n1 = n)"
proof (cases "\<not> constrained \<and> En > FileSize (FileInfo n)")
  case True
  then have "SetFileSizeInternal h al mx En False n = Some (st, n1)" using assms(5) by (simp add: write_resize_def)
  then have "node_ok n1 \<and> same_file n n1 \<and> (if st = STATUS_SUCCESS then FileSize (FileInfo n1) = En else n1 = n)"
    using SetFileSizeInternal_spec [OF assms(1,2,4), of al mx] by (auto split: if_splits)
  then show ?thesis using True by (auto simp: same_file_def split: if_splits)
next
  case False
  then show ?thesis using assms(2,5) by (auto simp: write_resize_def split: if_splits)
qed

lemma SlowWrite_inv:
  assumes "heap_laws h" "slow_inv tr s" "request_ok b Offset Length s"
    and bound: "\<And>n. files s r = Some n \<Longrightarrow> unat (FileSize (FileInfo n)) + unat Length \<le> 2 ^ 63"
    and w: "SlowWrite h al mx now dev_write ctrl ok hint r b Offset Length toEnd constrained want s = Some (st, k, info, ctrl1, s1)"
  shows "slow_inv (tr @ pended st hint) s1"
proof -
  obtain n B where n: "files s r = Some n" "buffers s b = Some B" using w by (auto simp: SlowWrite_def bind_eq_Some_conv)
  have inv: "nodes_ok s" "delays_ok s" using assms(2) by (simp_all add: slow_inv_def)
  show ?thesis
  proof (cases "FileName n = ftj_disk_bin \<or> constrained \<and> Offset \<ge> FileSize (FileInfo n)")
    case True
    then obtain n1 where n1: "MemfsWrite h al mx now dev_write n B Offset Length toEnd constrained want ctrl = Some (st, k, info, n1, ctrl1)"
      "s1 = s\<lparr>files := (files s)(r \<mapsto> n1)\<rparr>"
      using w by (auto simp: SlowWrite_def n bind_eq_Some_conv Let_def)
    have np: "pended st hint = []" using MemfsWrite_disk_not_pending [OF True n1(1)] by (simp add: pended_def)
    have same: "FileName n1 = ftj_disk_bin \<and> FileName n = ftj_disk_bin \<or> n1 = n"
    proof (cases "FileName n = ftj_disk_bin")
      case True
      then show ?thesis using MemfsWrite_disk [OF _ n1(1)] by simp
    next
      case False
      then have "constrained \<and> Offset \<ge> FileSize (FileInfo n)" using True by simp
      then show ?thesis using n1(1) by (simp add: MemfsWrite_def)
    qed
    then have "slow_inv tr s1" using inv n
      by (intro inv_grows [OF assms(2)] grows_file [of s1 s r n n1]) (auto simp: n1(2) nodes_ok_def delays_ok_def)
    then show ?thesis by (simp add: np)
  next
    case False
    then have c: "FileName n \<noteq> ftj_disk_bin" "\<not> (constrained \<and> Offset \<ge> FileSize (FileInfo n))" by simp_all
    have nok: "node_ok n" using inv(1) n(1) c(1) by (auto simp: nodes_ok_def)
    define Off where "Off = write_start Offset toEnd constrained (FileSize (FileInfo n))"
    define En where "En = write_end Off Length constrained (FileSize (FileInfo n))"
    note sw = SlowWrite_copy [OF n c Off_def En_def]
    obtain st1 n1 where n1: "write_resize h al mx constrained En n = Some (st1, n1)"
      using w unfolding sw by (auto simp: bind_eq_Some_conv)
    have req: "Length \<noteq> 0" "unat Offset + unat Length \<le> 2 ^ 63" "unat Length \<le> length B"
      using assms(3) n(2) by (simp_all add: request_ok_def)
    have off: "unat Off + unat Length \<le> 2 ^ 63" using req(2) bound [OF n(1)] by (simp add: Off_def write_start_def)
    have en: "unat En \<le> 2 ^ 63" and tr: "st1 = STATUS_SUCCESS \<Longrightarrow> transfer_ok (s\<lparr>files := (files s)(r \<mapsto> n1)\<rparr>) r b Off En"
    proof -
      have sum: "unat (Off + ucast Length) = unat Off + unat Length" using off by (simp add: unat_word_ariths unat_ulong)
      show "unat En \<le> 2 ^ 63"
      proof (cases constrained)
        case True
        have "unat (FileSize (FileInfo n)) \<le> 2 ^ 63" using bound [OF n(1)] by simp
        then show ?thesis using sum off by (simp add: En_def write_end_def clamped_end_def Let_def True)
      qed (use sum off in \<open>simp add: En_def write_end_def\<close>)
      then have r1: "node_ok n1" "FileName n1 = FileName n" "FileSize (FileInfo n) \<le> FileSize (FileInfo n1)"
        "\<not> constrained \<and> st1 = STATUS_SUCCESS \<Longrightarrow> En \<le> FileSize (FileInfo n1)" "constrained \<Longrightarrow> n1 = n"
        using write_resize_spec [OF assms(1) nok c(1) _ n1] by auto
      show "transfer_ok (s\<lparr>files := (files s)(r \<mapsto> n1)\<rparr>) r b Off En" if "st1 = STATUS_SUCCESS"
      proof (cases constrained)
        case True
        then have "n1 = n" "Off = Offset" "En = clamped_end Offset Length (FileSize (FileInfo n))"
          using r1(5) by (simp_all add: Off_def write_start_def En_def write_end_def)
        then show ?thesis using clamped_transfer [of Offset Length n "s\<lparr>files := (files s)(r \<mapsto> n1)\<rparr>" r b B] True c n(2) req by simp
      next
        case False
        then have E: "En = Off + ucast Length" by (simp add: En_def write_end_def)
        then have d: "unat (En - Off) = unat Length" by (simp add: unat_ulong)
        have le: "unat Off + unat Length \<le> unat (FileSize (FileInfo n1))"
          using r1(4) False that sum by (simp add: E word_le_nat_alt)
        moreover have "0 < unat Length" using req(1) by (simp add: unat_gt_0)
        ultimately have "FileSize (FileInfo n1) \<noteq> 0" by auto
        then show ?thesis unfolding transfer_ok_def d using le r1(2) c(1) n(2) req(3) by simp
      qed
    qed
    have r1: "node_ok n1" "FileName n1 = FileName n" "FileSize (FileInfo n) \<le> FileSize (FileInfo n1)"
      using write_resize_spec [OF assms(1) nok c(1) en n1] by auto
    let ?s0 = "s\<lparr>files := (files s)(r \<mapsto> n1)\<rparr>" and ?j = "WriteJob r b Off En hint"
    have i0: "slow_inv tr ?s0"
      using inv r1 n by (intro inv_grows [OF assms(2)] grows_file [of ?s0 s r n n1]) (auto simp: nodes_ok_def delays_ok_def)
    show ?thesis
    proof (cases "st1 = STATUS_SUCCESS")
      case False
      then have "s1 = ?s0 \<and> st = st1" "st1 \<noteq> STATUS_PENDING"
        using w SetFileSizeInternal_not_pending [of h al mx En False n st1 n1] n1 unfolding sw
        by (auto simp: write_resize_def Let_def split: if_splits)
      then show ?thesis using i0 by (simp add: pended_def)
    next
      case True
      then have j: "job_ok ?s0 ?j" using tr by (simp add: job_ok_def)
      obtain p s2 where p: "start_delayed ?j ok ?s0 = Some (p, s2)"
        using w n1 True unfolding sw by (auto simp: bind_eq_Some_conv Let_def)
      note i = start_delayed_inv [OF i0 j p]
      show ?thesis
      proof (cases p)
        case True
        then have "st = STATUS_PENDING \<and> s1 = s2" using w n1 p \<open>st1 = STATUS_SUCCESS\<close> unfolding sw by (simp add: Let_def)
        then show ?thesis using i True by (simp add: pended_def)
      next
        case np: False
        obtain n2 where n2: "copy_in n1 B Off En = Some n2" "s1 = s2\<lparr>files := (files s2)(r \<mapsto> n2)\<rparr>" "st = STATUS_SUCCESS"
          using w n1 p np \<open>st1 = STATUS_SUCCESS\<close> unfolding sw by (auto simp: Let_def bind_eq_Some_conv)
        have "FileSize (FileInfo n1) \<noteq> 0" "unat Off + unat (En - Off) \<le> unat (FileSize (FileInfo n1))" "unat (En - Off) \<le> length B"
          using tr [OF True] n(2) by (auto simp: transfer_ok_def)
        from copy_in_defined [OF r1(1) this] obtain d where d: "n2 = n1\<lparr>FileData := Some d\<rparr>" "node_ok n2"
          using n2(1) by auto
        have "slow_inv tr s1"
          using i np d inv(1) by (intro inv_grows [of tr s2 s1] grows_file [of s1 s2 r n1 n2])
            (auto simp: n2(2) slow_inv_def nodes_ok_def delays_ok_def split: if_splits)
        then show ?thesis by (simp add: pended_def n2(3))
      qed
    qed
  qed
qed

text \<open>A thread's step is always defined, and brings its end nearer.\<close>

fun steps_left :: "slow_pc \<Rightarrow> nat" where
  "steps_left Snoozing = 4" | "steps_left Copying = 3" | "steps_left Responding = 2" | "steps_left Ending = 1"

definition work_left :: "slowio \<Rightarrow> nat" where
  "work_left s = sum_list (map (\<lambda>(pc, j). steps_left pc) (threads s))"

lemma slow_thread_step_inv:
  assumes "slow_inv tr s" "i < length (threads s)"
  shows "\<exists>s1. slow_thread_step i s = Some s1 \<and> slow_inv tr s1 \<and> work_left s1 < work_left s"
proof -
  define xs ys where "xs = take i (threads s)" and "ys = drop (Suc i) (threads s)"
  obtain pc j where x: "threads s ! i = (pc, j)" by fastforce
  have ts: "threads s = xs @ (pc, j) # ys" using id_take_nth_drop [OF assms(2)] x by (simp add: xs_def ys_def)
  have len: "length xs = i" using assms(2) by (simp add: xs_def)
  have upd: "(threads s)[i := y] = xs @ y # ys" for y by (simp add: ts flip: len)
  have inv: "delays_ok s" "nodes_ok s" "\<forall>k \<in> set (open_jobs s). job_ok s k" using assms(1) by (simp_all add: slow_inv_def)
  have opn: "open_jobs s = map snd (filter (\<lambda>(pc, j). pc \<noteq> Ending) xs) @ (if pc \<noteq> Ending then [j] else []) @
      map snd (filter (\<lambda>(pc, j). pc \<noteq> Ending) ys)"
    by (simp add: open_jobs_def ts)
  have jok: "job_ok s j" if "pc \<noteq> Ending" using inv(3) opn that by simp
  have move: "slow_inv tr (s1\<lparr>threads := xs @ (pc1, j) # ys\<rparr>)"
    if "slow_inv tr s1" "threads s1 = threads s" "pc \<noteq> Ending" "pc1 \<noteq> Ending" for s1 pc1
  proof -
    have "open_jobs (s1\<lparr>threads := xs @ (pc1, j) # ys\<rparr>) = open_jobs s1"
      using that by (simp add: open_jobs_def ts)
    moreover have "job_ok (s1\<lparr>threads := xs @ (pc1, j) # ys\<rparr>) k = job_ok s1 k" for k
      by (auto simp: job_ok_def transfer_ok_def split: option.split)
    ultimately show ?thesis using that(1,2) by (simp add: slow_inv_def ts nodes_ok_def delays_ok_def)
  qed
  have work: "work_left (s1\<lparr>threads := xs @ (pc1, j) # ys\<rparr>) < work_left s" if "steps_left pc1 < steps_left pc" for s1 pc1
    using that by (simp add: work_left_def ts)
  show ?thesis
  proof (cases pc)
    case Snoozing
    obtain t sp where t: "SlowioSnooze s = Some (t, s\<lparr>spin := sp\<rparr>)" using snooze_bounded [OF inv(1)] by blast
    have "slow_inv tr (s\<lparr>spin := sp\<rparr>)"
      using inv by (intro inv_grows [OF assms(1)]) (simp_all add: grows_same nodes_ok_def delays_ok_def)
    then have "slow_inv tr (s\<lparr>spin := sp, threads := xs @ (Copying, j) # ys\<rparr>)" using move [of "s\<lparr>spin := sp\<rparr>" Copying] Snoozing by simp
    then show ?thesis using work [of Copying "s\<lparr>spin := sp\<rparr>"] Snoozing by (simp add: slow_thread_step_def x t upd)
  next
    case Copying
    obtain s1 where s1: "run_copy j s = Some s1" "grows s s1" "nodes_ok s1" "delays_ok s1 = delays_ok s"
      using run_copy_ok [OF jok inv(2)] Copying by auto
    note fr = run_copy_frame [OF s1(1)]
    have "slow_inv tr s1" by (rule inv_grows [OF assms(1) s1(2,3)]) (use s1(4) inv(1) fr in simp_all)
    then have "slow_inv tr (s1\<lparr>threads := xs @ (Responding, j) # ys\<rparr>)" using move [of s1 Responding] fr Copying by simp
    then show ?thesis using work [of Responding s1] Copying by (simp add: slow_thread_step_def x s1(1) fr upd)
  next
    case Responding
    obtain rsp where rsp: "response_of j s = Some rsp" "Hint rsp = job_hint j" using response_of_ok [OF jok] Responding by auto
    let ?s1 = "s\<lparr>responses := responses s @ [rsp], threads := xs @ (Ending, j) # ys\<rparr>"
    have "open_jobs s = map snd (filter (\<lambda>(pc, j). pc \<noteq> Ending) xs) @ j # map snd (filter (\<lambda>(pc, j). pc \<noteq> Ending) ys)"
      "open_jobs ?s1 = map snd (filter (\<lambda>(pc, j). pc \<noteq> Ending) xs) @ map snd (filter (\<lambda>(pc, j). pc \<noteq> Ending) ys)"
      using opn Responding by (simp_all add: open_jobs_def)
    moreover have "job_ok ?s1 k = job_ok s k" for k
      by (auto simp: job_ok_def transfer_ok_def split: option.split)
    ultimately have "slow_inv tr ?s1" using assms(1) rsp(2) by (simp add: slow_inv_def ts nodes_ok_def delays_ok_def)
    then show ?thesis using work [of Ending "s\<lparr>responses := responses s @ [rsp]\<rparr>"] Responding
      by (simp add: slow_thread_step_def x rsp(1) upd)
  next
    case Ending
    let ?s1 = "s\<lparr>SlowioThreadsRunning := SlowioThreadsRunning s - 1, threads := xs @ ys\<rparr>"
    have "open_jobs ?s1 = open_jobs s" using opn Ending by (simp add: open_jobs_def)
    moreover have "job_ok ?s1 k = job_ok s k" for k
      by (auto simp: job_ok_def transfer_ok_def split: option.split)
    ultimately have "slow_inv tr ?s1" using assms(1) by (simp add: slow_inv_def ts nodes_ok_def delays_ok_def)
    moreover have "work_left ?s1 < work_left s" by (simp add: work_left_def ts Ending)
    ultimately show ?thesis using Ending by (simp add: slow_thread_step_def x flip: xs_def ys_def)
  qed
qed

lemma slow_step_inv:
  assumes "heap_laws h" "keeps_length dev_read" "slow_step h al mx dev_read dev_write s ev s1" "slow_inv tr s"
  shows "slow_inv (tr @ ev) s1"
  using assms(3)
proof cases
  case read_call
  show ?thesis unfolding read_call(1) by (rule SlowRead_inv [OF assms(4) read_call(2,3) assms(2)])
next
  case write_call
  show ?thesis unfolding write_call(1) by (rule SlowWrite_inv [OF assms(1,4) write_call(2,3,4)])
next
  case (directory_call ok hint bytes st)
  obtain p s2 where p: "start_delayed (DirectoryJob bytes hint) ok s = Some (p, s2)"
    using directory_call by (auto simp: SlowReadDirectory_def bind_eq_Some_conv)
  have "job_ok s (DirectoryJob bytes hint)" by (simp add: job_ok_def)
  note i = start_delayed_inv [OF assms(4) this p]
  have "s1 = s2 \<and> st = (if p then STATUS_PENDING else STATUS_SUCCESS)" using directory_call p by (simp add: SlowReadDirectory_def)
  then show ?thesis using i directory_call(1) by (auto simp: pended_def)
next
  case (thread_moves i)
  then show ?thesis using slow_thread_step_inv [OF assms(4) thread_moves(2)] by auto
next
  case (other_file r f)
  have "job_ok s1 j" if "j \<in> set (open_jobs s)" for j
  proof -
    have "\<not> uses_file r j" using other_file(3) that by (auto simp: list_ex_iff)
    moreover have "job_ok s j" using assms(4) that by (simp add: slow_inv_def)
    ultimately show ?thesis by (auto simp: other_file(2) job_ok_def uses_file_def transfer_ok_def split: option.splits)
  qed
  then show ?thesis using assms(4) other_file(1,4)
    by (auto simp: slow_inv_def other_file(2) open_jobs_def nodes_ok_def delays_ok_def)
next
  case (other_buffer b B)
  have "job_ok s1 j" if "j \<in> set (open_jobs s)" for j
  proof -
    have "\<not> uses_buffer b j" using other_buffer(3) that by (auto simp: list_ex_iff)
    moreover have "job_ok s j" using assms(4) that by (simp add: slow_inv_def)
    ultimately show ?thesis by (auto simp: other_buffer(2) job_ok_def uses_buffer_def transfer_ok_def split: option.splits)
  qed
  then show ?thesis using assms(4) other_buffer(1)
    by (auto simp: slow_inv_def other_buffer(2) open_jobs_def nodes_ok_def delays_ok_def)
qed

lemma slow_run_inv:
  assumes "heap_laws h" "keeps_length dev_read" "slow_run h al mx dev_read dev_write s0 tr s" "slow_inv [] s0"
  shows "slow_inv tr s"
  using assms(3)
proof induction
  case slow_begin
  show ?case by (rule assms(4))
next
  case (slow_more tr s ev s1)
  show ?case by (rule slow_step_inv [OF assms(1,2) slow_more.hyps(2) slow_more.IH])
qed

lemma threads_come_to_end:
  assumes "slow_inv tr s"
  shows "\<exists>s1. (slow_run h al mx dev_read dev_write s0 tr s \<longrightarrow> slow_run h al mx dev_read dev_write s0 tr s1) \<and> threads s1 = [] \<and> slow_inv tr s1"
  using assms
proof (induction "work_left s" arbitrary: s rule: less_induct)
  case less
  show ?case
  proof (cases "threads s = []")
    case True
    then show ?thesis using less.prems by blast
  next
    case False
    then have i: "0 < length (threads s)" by simp
    obtain s1 where s1: "slow_thread_step 0 s = Some s1" "slow_inv tr s1" "work_left s1 < work_left s"
      using slow_thread_step_inv [OF less.prems i] by blast
    have "slow_run h al mx dev_read dev_write s0 tr s1" if "slow_run h al mx dev_read dev_write s0 tr s"
      using slow_run.slow_more [OF that slow_step.thread_moves [OF i s1(1)]] by simp
    then show ?thesis using less.hyps [OF s1(3,2)] by blast
  qed
qed

section \<open>The guarantees\<close>

text \<open>No thread at first, and no response.\<close>

definition slow_fresh :: "slowio \<Rightarrow> bool" where
  "slow_fresh s \<longleftrightarrow> nodes_ok s \<and> threads s = [] \<and> responses s = []"

text \<open>C18: with a maximal delay other than 0xFFFFFFFF and a rarefying shift below 32 (the service does not check either
  option; outside these ranges a delay is undefined, see \<open>snooze_zero_division\<close>): whatever requests come and however the
  threads interleave, no step of a thread is undefined, the counter is the number of threads modulo \<open>2 ^ 32\<close>, and every request
  answered with \<open>STATUS_PENDING\<close> is answered once or still has its thread. When \<open>MemfsStop\<close> finds the counter at zero, and
  fewer than \<open>2 ^ 32\<close> threads exist, no thread is left to touch the memory that is freed next, and all requests have been
  answered; and the threads can always get there.\<close>

theorem delayed_threads_safe:
  assumes "heap_laws h" "keeps_length dev_read" "slow_fresh s0"
    and "SlowioMaxDelay s0 \<noteq> - 1" "unat (SlowioRarefyDelay s0) < 32"
    and "slow_run h al mx dev_read dev_write (SlowStart s0) tr s"
  shows "(\<forall>i < length (threads s). slow_thread_step i s \<noteq> None) \<and>
    SlowioThreadsRunning s = of_nat (length (threads s)) \<and>
    mset tr = mset (map Hint (responses s)) + mset (map job_hint (open_jobs s)) \<and>
    (stop_returns s \<and> length (threads s) < 2 ^ 32 \<longrightarrow> threads s = [] \<and> mset tr = mset (map Hint (responses s))) \<and>
    (\<exists>s1. slow_run h al mx dev_read dev_write (SlowStart s0) tr s1 \<and> stop_returns s1 \<and> mset tr = mset (map Hint (responses s1)))"
proof -
  have "slow_inv [] (SlowStart s0)"
    using assms(3-5) by (simp add: slow_inv_def slow_fresh_def SlowStart_def open_jobs_def nodes_ok_def delays_ok_def)
  from slow_run_inv [OF assms(1,2,6) this] have inv: "slow_inv tr s" .
  have "length (threads s) = 0" if "stop_returns s" "length (threads s) < 2 ^ 32"
  proof -
    have "(of_nat (length (threads s)) :: u32) = 0" using inv that(1) by (simp add: slow_inv_def stop_returns_def)
    then have "(2 :: nat) ^ 32 dvd length (threads s)" by (simp add: word_of_nat_eq_0_iff)
    then show ?thesis using that(2) by (auto dest: dvd_imp_le)
  qed
  moreover obtain s1 where "slow_run h al mx dev_read dev_write (SlowStart s0) tr s1" "threads s1 = []" "slow_inv tr s1"
    using threads_come_to_end [OF inv] assms(6) by blast
  ultimately show ?thesis
    using inv slow_thread_step_inv [OF inv] by (fastforce simp: slow_inv_def stop_returns_def open_jobs_def)
qed

text \<open>A small state: one file of three bytes and one buffer; every request is delayed.\<close>

definition slow_demo :: slowio where
  "slow_demo = \<lparr>SlowioMaxDelay = 1, SlowioPercentDelay = 100, SlowioRarefyDelay = 0, SlowioThreadsRunning = 0, spin = 0,
     files = [3 \<mapsto> empty_file\<lparr>FileInfo := (FileInfo empty_file)\<lparr>AllocationSize := 3, FileSize := 3\<rparr>, FileData := Some [5, 6, 7]\<rparr>],
     buffers = [7 \<mapsto> [0, 0, 0]], threads = [], responses = []\<rparr>"

lemma slow_demo_ok: "slow_fresh slow_demo" "SlowStart slow_demo = slow_demo" "delays_ok slow_demo"
proof -
  have "(1 :: u32) \<noteq> - 1" by simp
  then show "delays_ok slow_demo" by (simp add: delays_ok_def slow_demo_def)
  then show "slow_fresh slow_demo"
    by (simp add: slow_fresh_def nodes_ok_def) (simp add: slow_demo_def node_ok_def block_def empty_file_def)
qed (simp add: slow_demo_def SlowStart_def)

lemma slow_demo_pends:
  "start_delayed j True slow_demo =
    Some (True, slow_demo\<lparr>spin := 1, SlowioThreadsRunning := 1, threads := [(Snoozing, j)]\<rparr>)"
proof -
  obtain x where x: "PseudoRandom 100 0 = Some (x, 1)" "x < 100" using PseudoRandom_below [of 100 0] by auto
  then have "SlowioReturnPending slow_demo = Some (True, slow_demo\<lparr>spin := 1\<rparr>)"
    by (simp add: SlowioReturnPending_def) (simp add: slow_demo_def)
  then show ?thesis by (simp add: start_delayed_def) (simp add: slow_demo_def)
qed

lemma slow_demo_read:
  "SlowRead (\<lambda>off b m (d :: unit). Some (True, b, d)) None True 9 3 7 1 2 slow_demo =
    Some (STATUS_PENDING, None, None, slow_demo\<lparr>spin := 1, SlowioThreadsRunning := 1, threads := [(Snoozing, ReadJob 3 7 1 3 9)]\<rparr>)"
proof -
  have "clamped_end 1 2 3 = 3" by (simp add: clamped_end_def)
  moreover have "FileName empty_file \<noteq> ftj_disk_bin" "\<not> (3 :: u64) \<le> 1" by (rule empty_file_ok) (simp add: word_le_nat_alt)
  ultimately show ?thesis
    by (simp add: SlowRead_def slow_demo_pends) (simp add: slow_demo_def slow_demo_pends [unfolded slow_demo_def])
qed

theorem delayed_equals_immediate_witness:
  "\<exists>s1. SlowRead (\<lambda>off b m (d :: unit). Some (True, b, d)) None True 9 3 7 1 2 slow_demo = Some (STATUS_PENDING, None, None, s1) \<and>
    map_option forget_spin (finish_thread 0 s1) = Some (forget_spin (slow_demo\<lparr>buffers := [7 \<mapsto> [6, 7, 0]],
      responses := [\<lparr>Kind = ReadKind, Hint = 9, Status = STATUS_SUCCESS, Information = 2, WrittenInfo = None\<rparr>]\<rparr>))"
proof -
  let ?n = "empty_file\<lparr>FileInfo := (FileInfo empty_file)\<lparr>AllocationSize := 3, FileSize := 3\<rparr>, FileData := Some [5, 6, 7]\<rparr>"
  have f: "files slow_demo 3 = Some ?n" "buffers slow_demo 7 = Some [0, 0, 0]" by (simp_all add: slow_demo_def)
  have c: "FileName ?n \<noteq> ftj_disk_bin" "\<not> 1 \<ge> FileSize (FileInfo ?n)" by (simp_all add: empty_file_ok word_le_nat_alt)
  have "clamped_end 1 2 3 = 3" by (simp add: clamped_end_def)
  then have "MemfsRead (\<lambda>off b m (d :: unit). Some (True, b, d)) ?n [0, 0, 0] 1 2 None = Some (STATUS_SUCCESS, [6, 7, 0], Some 2, None)"
    unfolding MemfsRead_copy [OF c] by (simp add: copy_out_def slice_def splice_def)
  then show ?thesis
    using delayed_equals_immediate [OF slow_demo_ok(3) f, of "\<lambda>off b m (d :: unit). Some (True, b, d)" None True 9 1 2 None None] slow_demo_read
    by (simp add: slow_demo_def)
qed

theorem delayed_threads_safe_witness:
  "\<exists>s. slow_run plain_heap 65536 4096 (\<lambda>off b m (d :: unit). Some (True, b, d)) (\<lambda>off b m d. Some (True, d)) (SlowStart slow_demo) [9] s \<and>
    length (threads s) = 1 \<and> SlowioThreadsRunning s = 1 \<and> slow_thread_step 0 s \<noteq> None"
proof -
  let ?s = "slow_demo\<lparr>spin := 1, SlowioThreadsRunning := 1, threads := [(Snoozing, ReadJob 3 7 1 3 9)]\<rparr>"
  have "request_ok 7 1 2 slow_demo" by (simp add: request_ok_def slow_demo_def)
  note st = slow_step.read_call [OF this slow_demo_read, of plain_heap 65536 4096 "\<lambda>off b m d. Some (True, d)"]
  have run: "slow_run plain_heap 65536 4096 (\<lambda>off b m (d :: unit). Some (True, b, d)) (\<lambda>off b m d. Some (True, d)) (SlowStart slow_demo) [9] ?s"
    using slow_run.slow_more [OF slow_run.slow_begin, of plain_heap 65536 4096 _ _ slow_demo] st
    by (fastforce simp: pended_def slow_demo_ok(2))
  have "keeps_length (\<lambda>off b m (d :: unit). Some (True, b, d))" by (simp add: keeps_length_def)
  moreover have "SlowioMaxDelay slow_demo \<noteq> - 1" "unat (SlowioRarefyDelay slow_demo) < 32"
    using slow_demo_ok(3) by (simp_all add: delays_ok_def)
  ultimately show ?thesis
    using delayed_threads_safe [OF plain_heap_laws _ slow_demo_ok(1) _ _ run] run by (intro exI [of _ ?s]) (simp del: One_nat_def)
qed

end
