(* ===== verification/Main_Report.thy ===== *)
theory Main_Report
  imports Workloads "HOL-Library.Signed_Division"
begin

text \<open>
  What \<open>src/main.cpp\<close> computes around its benchmarks: the clock, the rows of the result table, the percentiles of the
  queue-depth benchmark, the comparison with NAND, the live monitor's lines and heat map, and the request to mount the
  disk. Times, as the clock returns them, and the results of \<open>std::system\<close> are arguments; a \<open>double\<close> is a real
  number, and a row whose duration is zero (its rates are infinite) is \<open>None\<close>.
\<close>

section \<open>The clock\<close>

text \<open>The counter and its frequency are signed 64-bit integers. Their product with a thousand million is computed before
  the division; its overflow is undefined.\<close>

definition int64 :: "int \<Rightarrow> int option" where
  "int64 z = (if - (2 ^ 63) \<le> z \<and> z < 2 ^ 63 then Some z else None)"

definition GetTimeNs :: "int \<Rightarrow> int \<Rightarrow> u64 option" where
  "GetTimeNs freq ticks = do {
     scaled \<leftarrow> int64 (ticks * 1000000000);
     if freq = 0 then None else Some (word_of_int (scaled sdiv freq))
   }"

section \<open>The result table\<close>

record bench_row =
  row_name :: string
  duration_ms :: real
  row_ops :: nat
  row_iops :: real
  avg_latency_ns :: real
  throughput_mb_s :: real

definition bench_row_of :: "string \<Rightarrow> nat \<Rightarrow> nat \<Rightarrow> u64 \<Rightarrow> u64 \<Rightarrow> bench_row option" where
  "bench_row_of name NUM_OPS BLOCK_SIZE start_time end_time =
     (let ns = real (unat (end_time - start_time)); elapsed_ms = ns / 1000000 in
      if elapsed_ms = 0 then None
      else Some \<lparr>row_name = name, duration_ms = elapsed_ms, row_ops = NUM_OPS,
        row_iops = real NUM_OPS / elapsed_ms * 1000,
        avg_latency_ns = ns / real NUM_OPS,
        throughput_mb_s = real (NUM_OPS * BLOCK_SIZE) / (1024 * 1024) / (elapsed_ms / 1000)\<rparr>)"

text \<open>The rows of the benchmarks 1, 2, 3, 6 and 7. The last has the switching latency of the telemetry in the column of
  the average.\<close>

definition random_row :: "u64 \<Rightarrow> u64 \<Rightarrow> bench_row option" where
  "random_row = bench_row_of ''Random 4K Writes (FTJ)'' 50000 4096"

definition sequential_row :: "u64 \<Rightarrow> u64 \<Rightarrow> bench_row option" where
  "sequential_row = bench_row_of ''Sequential 256B R/W (FTJ)'' 200000 256"

definition mixed_row :: "u64 \<Rightarrow> u64 \<Rightarrow> bench_row option" where
  "mixed_row = bench_row_of ''Mixed 70/30 (4K FTJ)'' 100000 4096"

definition wear_row :: "u64 \<Rightarrow> u64 \<Rightarrow> bench_row option" where
  "wear_row = bench_row_of ''Wear/ECC Recovered Reads'' 10000 8"

definition crossbar_row :: "telemetry \<Rightarrow> u64 \<Rightarrow> u64 \<Rightarrow> bench_row option" where
  "crossbar_row t start_phys end_phys =
     map_option (\<lambda>row. row\<lparr>avg_latency_ns := telemetry.avg_switching_latency_ns t\<rparr>)
       (bench_row_of ''Crossbar Physics & IR-Drop Stress (85C)'' 15000 4096 start_phys end_phys)"

section \<open>The queue-depth benchmark\<close>

record qd_metric =
  queue_depth :: nat
  qd_iops :: real
  qd_throughput_mb_s :: real
  p50_latency_ns :: u64
  p99_latency_ns :: u64
  p99_9_latency_ns :: u64

text \<open>\<open>QD_OPS * 0.50\<close> and so on, rounded down. The argument \<open>digits\<close> is the printed queue depth.\<close>

abbreviation QD_OPS :: nat where "QD_OPS \<equiv> 50000"

definition percentile_index :: "nat \<Rightarrow> nat" where
  "percentile_index permille = QD_OPS * permille div 1000"

definition qd_metrics :: "nat \<Rightarrow> string \<Rightarrow> u64 \<Rightarrow> u64 \<Rightarrow> u64 list \<Rightarrow> (qd_metric \<times> bench_row) option" where
  "qd_metrics qd digits start_time end_time latencies = do {
     row \<leftarrow> bench_row_of (''QD-'' @ digits @ '' NVMe Queue'') QD_OPS 4096 start_time end_time;
     let latencies = sort latencies;
     p50 \<leftarrow> rd latencies (percentile_index 500);
     p99 \<leftarrow> rd latencies (percentile_index 990);
     p99_9 \<leftarrow> rd latencies (percentile_index 999);
     Some (\<lparr>queue_depth = qd, qd_iops = row_iops row, qd_throughput_mb_s = throughput_mb_s row, p50_latency_ns = p50,
            p99_latency_ns = p99, p99_9_latency_ns = p99_9\<rparr>,
           row\<lparr>avg_latency_ns := real (unat p50)\<rparr>)
   }"

section \<open>The comparison with NAND\<close>

text \<open>The FTJ row is computed from a constant of 300 ns; the NAND row from the model's total.\<close>

definition ftj_mode_row :: bench_row where
  "ftj_mode_row =
     (let ftj_avg = 300; ftj_ms = 20000 * ftj_avg / 1000000 in
      \<lparr>row_name = ''NAND-Comparison (FTJ Mode)'', duration_ms = ftj_ms, row_ops = 20000, row_iops = 20000 / ftj_ms * 1000,
       avg_latency_ns = ftj_avg, throughput_mb_s = 20000 * 4096 / (1024 * 1024) / (ftj_ms / 1000)\<rparr>)"

definition nand_mode_row :: "nand \<Rightarrow> bench_row" where
  "nand_mode_row nand =
     (let nand_ms = real (unat (total_latency_ns nand)) / 1000000 in
      \<lparr>row_name = ''NAND-Comparison (3D NAND Mode)'', duration_ms = nand_ms, row_ops = 20000,
       row_iops = 20000 / nand_ms * 1000, avg_latency_ns = real (unat (total_latency_ns nand)) / 20000,
       throughput_mb_s = 20000 * 4096 / (1024 * 1024) / (nand_ms / 1000)\<rparr>)"

definition reported_speedup :: "nand \<Rightarrow> nat" where
  "reported_speedup nand = nat \<lfloor>avg_latency_ns (nand_mode_row nand) / avg_latency_ns ftj_mode_row\<rfloor>"

section \<open>The live monitor\<close>

text \<open>The text between the two borders of a line.\<close>

definition print_line :: "string \<Rightarrow> string" where
  "print_line content =
     (if length content < 56 then content @ replicate (56 - length content) CHR '' ''
      else if length content > 56 then take 56 content else content)"

definition monitor_rates :: "u64 \<Rightarrow> u64 \<Rightarrow> u64 \<Rightarrow> u64 \<Rightarrow> real \<Rightarrow> real \<times> real" where
  "monitor_rates current_reads last_reads current_writes last_writes duration_s =
     (let diff_reads = current_reads - last_reads; diff_writes = current_writes - last_writes;
          iops = real (unat (diff_reads + diff_writes)) / duration_s
      in (iops, iops * 4096 / (1024 * 1024)))"

definition heat_cell :: "u64 \<Rightarrow> nat \<Rightarrow> string" where
  "heat_cell writes region_idx =
     (if region_idx = 0 then ''[X] ''
      else if region_idx mod 9 = 0 \<and> writes > 2000 then ''[/] '' else ''[.] '')"

definition heat_map :: "ctrl \<Rightarrow> string list" where
  "heat_map c = map (\<lambda>r. print_line (''    '' @ concat (map (\<lambda>col. heat_cell (total_writes c) (r * 8 + col)) [0..<8]))) [0..<8]"

section \<open>The request to mount\<close>

text \<open>\<open>std::system\<close> is the argument \<open>system\<close>, on the state of the machine; each place of the server is tried until one
  call returns 0.\<close>

definition mount_commands :: "string \<Rightarrow> string list" where
  "mount_commands drive = map (\<lambda>place. place @ ''ftj_vdisk_srv.exe '' @ drive)
     [[], ''build'' @ [CHR 0x5C] @ ''Release'' @ [CHR 0x5C], ''build'' @ [CHR 0x5C], ''Release'' @ [CHR 0x5C]]"

fun try_commands :: "(string \<Rightarrow> 'w \<Rightarrow> int \<times> 'w) \<Rightarrow> string list \<Rightarrow> int \<Rightarrow> 'w \<Rightarrow> int \<times> 'w" where
  "try_commands system [] ret w = (ret, w)"
| "try_commands system (cmd # cmds) ret w =
     (if ret \<noteq> 0 then (let (ret', w') = system cmd w in try_commands system cmds ret' w') else (ret, w))"

definition MountRequest :: "(string \<Rightarrow> 'w \<Rightarrow> int \<times> 'w) \<Rightarrow> string list \<Rightarrow> 'w \<Rightarrow> (int \<times> 'w) option" where
  "MountRequest system argv w =
     (if length argv > 1 \<and> argv ! 1 = ''--mount''
      then (let drive = (if length argv > 2 then argv ! 2 else ''Z:'');
                cmds = mount_commands drive; (ret, w1) = system (hd cmds) w in
            Some (try_commands system (tl cmds) ret w1))
      else None)"

section \<open>Properties\<close>

text \<open>C40: the clock of the benchmarks is defined only while the counter is at most 9223372036: with the usual frequency of
  10 MHz that is 15 minutes and 22 seconds after the machine was started. Until then it is the time in nanoseconds,
  rounded down.\<close>

theorem clock_defined_iff:
  assumes "0 < freq" "0 \<le> ticks"
  shows "GetTimeNs freq ticks =
    (if ticks \<le> 9223372036 then Some (word_of_int (ticks * 1000000000 div freq)) else None)"
proof (cases "ticks \<le> 9223372036")
  case True
  then have "int64 (ticks * 1000000000) = Some (ticks * 1000000000)" using assms(2) by (simp add: int64_def)
  moreover have "(ticks * 1000000000) sdiv freq = ticks * 1000000000 div freq"
    using assms by (simp add: signed_divide_int_def sgn_if abs_if not_less)
  ultimately show ?thesis using True assms(1) by (simp add: GetTimeNs_def)
next
  case False
  then have "int64 (ticks * 1000000000) = None" by (simp add: int64_def)
  then show ?thesis using False by (simp add: GetTimeNs_def)
qed

theorem clock_defined_iff_witness:
  "GetTimeNs 10000000 (922 * 10000000) = Some 922000000000 \<and> GetTimeNs 10000000 (923 * 10000000) = None"
  using clock_defined_iff [of 10000000 "922 * 10000000"] clock_defined_iff [of 10000000 "923 * 10000000"] by simp

text \<open>In a row of the first benchmarks the rate and the average latency belong together.\<close>

lemma bench_row_consistent:
  assumes "bench_row_of name ops block t0 t1 = Some row" "ops \<noteq> 0"
  shows "row_iops row * avg_latency_ns row = 1000000000"
  using assms by (auto simp: bench_row_of_def Let_def field_simps split: if_splits)

lemma rows_consistent:
  "random_row t0 t1 = Some row \<or> sequential_row t0 t1 = Some row \<or> mixed_row t0 t1 = Some row \<or> wear_row t0 t1 = Some row \<Longrightarrow>
   row_iops row * avg_latency_ns row = 1000000000"
  by (auto simp: random_row_def sequential_row_def mixed_row_def wear_row_def dest: bench_row_consistent)

text \<open>The rate of the last benchmark is that of its run; its latency column does not depend on it.\<close>

lemma crossbar_row_latency:
  "crossbar_row t t0 t1 = Some row \<Longrightarrow> avg_latency_ns row = telemetry.avg_switching_latency_ns t \<and>
   row_iops row * duration_ms row = 15000000"
  by (auto simp: crossbar_row_def bench_row_of_def Let_def split: if_splits)

text \<open>The element at an index of the sorted list: more than that many values are at most as large, and at most
  that many are smaller.\<close>

lemma sorted_nth_counts:
  fixes xs :: "'a :: linorder list"
  assumes "sorted xs" "i < length xs"
  shows "i < length (filter (\<lambda>x. x \<le> xs ! i) xs) \<and> length (filter (\<lambda>x. x < xs ! i) xs) \<le> i"
proof
  have "{..i} \<subseteq> {j. j < length xs \<and> xs ! j \<le> xs ! i}" using assms by (auto simp: sorted_nth_mono)
  then have "card {..i} \<le> card {j. j < length xs \<and> xs ! j \<le> xs ! i}" by (intro card_mono) auto
  then show "i < length (filter (\<lambda>x. x \<le> xs ! i) xs)" by (simp add: length_filter_conv_card)
  have "{j. j < length xs \<and> xs ! j < xs ! i} \<subseteq> {..<i}"
    using assms sorted_nth_mono [of xs i] by (auto simp: not_less [symmetric])
  then have "card {j. j < length xs \<and> xs ! j < xs ! i} \<le> card {..<i}" by (intro card_mono) auto
  then show "length (filter (\<lambda>x. x < xs ! i) xs) \<le> i" by (simp add: length_filter_conv_card)
qed

lemma percentile_counts:
  fixes xs :: "'a :: linorder list"
  assumes "i < length xs"
  shows "\<exists>v. rd (sort xs) i = Some v \<and> v \<in> set xs \<and> i < length (filter (\<lambda>x. x \<le> v) xs) \<and> length (filter (\<lambda>x. x < v) xs) \<le> i"
proof -
  have len: "length (filter P (sort xs)) = length (filter P xs)" for P by (metis filter_sort length_sort)
  have "sort xs ! i \<in> set xs" using assms by (metis length_sort nth_mem set_sort)
  then show ?thesis
    using sorted_nth_counts [of "sort xs" i] assms by (simp add: rd_def len)
qed

text \<open>The percentiles that the queue-depth benchmark reports exist for its 50000 latencies and are order statistics
  of them: at most 25000, 49500 and 49950 of the latencies are smaller, more than so many are at most as large, and
  the three are in order. The row of the table has the median in the column of the average.\<close>

lemma qd_percentiles:
  assumes "length latencies = QD_OPS" "t1 \<noteq> t0"
  shows "\<exists>m row. qd_metrics qd digits t0 t1 latencies = Some (m, row) \<and>
    (\<forall>(i, v) \<in> {(25000, p50_latency_ns m), (49500, p99_latency_ns m), (49950, p99_9_latency_ns m)}.
       v \<in> set latencies \<and> i < length (filter (\<lambda>x. x \<le> v) latencies) \<and> length (filter (\<lambda>x. x < v) latencies) \<le> i) \<and>
    p50_latency_ns m \<le> p99_latency_ns m \<and> p99_latency_ns m \<le> p99_9_latency_ns m \<and>
    avg_latency_ns row = real (unat (p50_latency_ns m))"
proof -
  have "unat (t1 - t0) \<noteq> 0" using assms(2) by (simp add: unsigned_eq_0_iff)
  then have z: "(real (unat (t1 - t0)) / 1000000 = 0) = False"
    by (simp only: divide_eq_0_iff of_nat_eq_0_iff) simp
  obtain row where row: "bench_row_of (''QD-'' @ digits @ '' NVMe Queue'') QD_OPS 4096 t0 t1 = Some row"
    unfolding bench_row_of_def Let_def z if_False by blast
  note pc = percentile_counts [of _ latencies, unfolded assms(1)]
  obtain a where a: "rd (sort latencies) 25000 = Some a" "a \<in> set latencies" "25000 < length (filter (\<lambda>x. x \<le> a) latencies)"
    "length (filter (\<lambda>x. x < a) latencies) \<le> 25000" using pc [of 25000] by auto
  obtain b where b: "rd (sort latencies) 49500 = Some b" "b \<in> set latencies" "49500 < length (filter (\<lambda>x. x \<le> b) latencies)"
    "length (filter (\<lambda>x. x < b) latencies) \<le> 49500" using pc [of 49500] by auto
  obtain c where c: "rd (sort latencies) 49950 = Some c" "c \<in> set latencies" "49950 < length (filter (\<lambda>x. x \<le> c) latencies)"
    "length (filter (\<lambda>x. x < c) latencies) \<le> 49950" using pc [of 49950] by auto
  have mono: "v \<le> w" if "rd (sort latencies) i = Some v" "rd (sort latencies) j = Some w" "i \<le> j" for i j v w
    using that sorted_nth_mono [of "sort latencies" i j] by (auto dest!: rd_eq_SomeD)
  have "qd_metrics qd digits t0 t1 latencies = Some (\<lparr>queue_depth = qd, qd_iops = row_iops row,
      qd_throughput_mb_s = throughput_mb_s row, p50_latency_ns = a, p99_latency_ns = b, p99_9_latency_ns = c\<rparr>,
      row\<lparr>avg_latency_ns := real (unat a)\<rparr>)"
    unfolding qd_metrics_def row by (simp add: percentile_index_def a(1) b(1) c(1))
  then show ?thesis using a b c mono [OF a(1) b(1)] mono [OF b(1) c(1)] by simp
qed

text \<open>The row of the drive in the comparison is a constant, and so is the reported speed-up: the run of the drive does
  not enter it.\<close>

lemma reported_speedup_constant:
  assumes "engine_capacity \<noteq> 4096" "nand_comparison engine_capacity n = Some m"
  shows "reported_speedup m = 489 \<and> avg_latency_ns ftj_mode_row = 300"
proof -
  have "m = \<lparr>total_erases = 312, nand_writes = 20000, nand_reads = 0, total_latency_ns = 2936000000\<rparr>"
    using nand_comparison_totals [OF assms(1)] assms(2) by simp
  then show ?thesis by (simp add: reported_speedup_def nand_mode_row_def ftj_mode_row_def Let_def)
qed

text \<open>Every line of the monitor is 56 characters wide. The heat map is a function of the number of writes alone: its
  marks stand where they stand, whatever the wear of the pages behind them.\<close>

lemma length_print_line [simp]: "length (print_line content) = 56"
  by (simp add: print_line_def)

lemma heat_map_not_wear:
  "length (heat_map c) = 8 \<and> (\<forall>line \<in> set (heat_map c). length line = 56) \<and>
   (total_writes c = total_writes c' \<longrightarrow> heat_map c = heat_map c')"
  by (auto simp: heat_map_def)

lemma heat_map_marks:
  "heat_cell w 0 = ''[X] ''" "region \<noteq> 0 \<Longrightarrow> heat_cell w region = (if region mod 9 = 0 \<and> w > 2000 then ''[/] '' else ''[.] '')"
  by (simp_all add: heat_cell_def)

text \<open>The commands that the request to mount runs: those up to the first that returns 0, and its result is that of
  the last one run.\<close>

lemma mount_request_commands:
  assumes "MountRequest (\<lambda>cmd w. (f cmd, w @ [cmd])) [prog, ''--mount'', drive] [] = Some (ret, run)"
  shows "(ret = 0 \<longleftrightarrow> (\<exists>cmd \<in> set (mount_commands drive). f cmd = 0)) \<and> run \<noteq> [] \<and> ret = f (last run) \<and>
    (\<exists>rest. mount_commands drive = run @ rest) \<and> (\<forall>cmd \<in> set (butlast run). f cmd \<noteq> 0)"
  using assms by (auto simp: MountRequest_def mount_commands_def Let_def split: if_splits)

end
