(* ===== verification/Analysis_Report.thy ===== *)
theory Analysis_Report
  imports Workloads
begin

text \<open>
  The main function of \<open>src/analysis_tool.cpp\<close>: the sweep over four shares of over-provisioning, each with the three
  workloads on a new drive, and the figures computed from them. Draws and measured times are arguments, a \<open>double\<close> is
  a real number, and printing is not modelled beyond the six decimals of \<open>std::to_string\<close> that the tool reads back.

  The second part is what the sweep does at 7% and 28%: the drive then has a partial last block, for which the
  constructor makes no entry in \<open>block_valid_count_\<close>, and the sequential workload reaches it.
\<close>

section \<open>The sweep\<close>

abbreviation LOGICAL_CAPACITY :: nat where "LOGICAL_CAPACITY \<equiv> 67108864"

definition overprovision :: "real list" where
  "overprovision = [0, 7 / 100, 28 / 100, 1 / 2]"

type_synonym draws = "(nat \<Rightarrow> nat) \<times> (nat \<Rightarrow> int)"

definition analysis_round :: "draws \<Rightarrow> real \<Rightarrow> (run_result \<times> run_result \<times> run_result) option" where
  "analysis_round d opct = do {
     let cap = phys_cap LOGICAL_CAPACITY opct;
     (r1, ctrl) \<leftarrow> Random4KMixed (fst d) (snd d) 100000 (FTJController cap 8);
     (r2, ctrl2) \<leftarrow> SequentialLargeWrites (of_nat LOGICAL_CAPACITY) 2000 (FTJController cap 8);
     (r3, ctrl3) \<leftarrow> DB_WAL_Append (of_nat LOGICAL_CAPACITY) 20000 (FTJController cap 8);
     Some (r1, r2, r3)
   }"

text \<open>The argument of the command line picks one round; -1 and any negative number pick all.\<close>

definition picked :: "int \<Rightarrow> nat \<Rightarrow> bool" where
  "picked run_index idx \<longleftrightarrow> \<not> (0 \<le> run_index \<and> int idx \<noteq> run_index)"

fun analysis_rounds :: "int \<Rightarrow> draws \<Rightarrow> nat \<Rightarrow> real list \<Rightarrow> (run_result \<times> run_result \<times> run_result) list option" where
  "analysis_rounds run_index d idx [] = Some []"
| "analysis_rounds run_index d idx (opct # opcts) =
     (if \<not> picked run_index idx then analysis_rounds run_index d (Suc idx) opcts
      else do {
        r \<leftarrow> analysis_round d opct;
        rs \<leftarrow> analysis_rounds run_index d (Suc idx) opcts;
        Some (r # rs)
      })"

definition analysis_sweep :: "int \<Rightarrow> draws \<Rightarrow> (run_result \<times> run_result \<times> run_result) list option" where
  "analysis_sweep run_index d = analysis_rounds run_index d 0 overprovision"

section \<open>The figures\<close>

definition tb_per_day :: "u64 \<Rightarrow> u64 \<Rightarrow> u64 \<Rightarrow> real \<Rightarrow> real" where
  "tb_per_day p1 p2 p3 dur_s =
     (let phys_bytes = real (unat (p1 + p2 + p3));
          phys_b_per_s = (if dur_s > 0 then phys_bytes / dur_s else 0)
      in phys_b_per_s * 86400 / 10 ^ 12)"

definition years_nand :: "real \<Rightarrow> real" where
  "years_nand per_day_tb =
     (let nand_tbw_total = real LOGICAL_CAPACITY * 3000 / 10 ^ 12
      in if per_day_tb > 0 then nand_tbw_total / (per_day_tb * 365) else 0)"

definition cost_per_device :: "real \<Rightarrow> real" where
  "cost_per_device fabric_cost = fabric_cost * 0.064 + 10"

definition cost_per_gb :: "real \<Rightarrow> real" where
  "cost_per_gb fabric_cost = cost_per_device fabric_cost / 0.064"

text \<open>The report's lines are searched for the first daily volume, which was printed with six decimals.\<close>

definition to_string6 :: "real \<Rightarrow> real" where
  "to_string6 x = of_int \<lfloor>x * 10 ^ 6 + 1 / 2\<rfloor> / 10 ^ 6"

definition sample_per_day_tb :: "real list \<Rightarrow> real" where
  "sample_per_day_tb per_day_tbs = (case per_day_tbs of [] \<Rightarrow> 0 | x # xs \<Rightarrow> to_string6 x)"

definition daily_cost :: "real list \<Rightarrow> real option" where
  "daily_cost per_day_tbs =
     (if sample_per_day_tb per_day_tbs > 0
      then Some (cost_per_gb 2 * 1024 * sample_per_day_tb per_day_tbs) else None)"

section \<open>The sizes of the drives\<close>

lemma sweep_capacities:
  "map (phys_cap LOGICAL_CAPACITY) overprovision = [67108864, 71806976, 85901312, 100663296]"
proof -
  have "\<lfloor>real 67108864 * (1 + 7 / 100)\<rfloor> = 71806484" by (rule floor_unique) simp_all
  moreover have "\<lfloor>real 67108864 * (1 + 28 / 100)\<rfloor> = 85899345" by (rule floor_unique) simp_all
  moreover have "\<lfloor>real 67108864 * (1 + 1 / 2)\<rfloor> = 100663296" by (rule floor_unique) simp_all
  moreover have "\<lfloor>real 67108864 * (1 + 0)\<rfloor> = 67108864" by (rule floor_unique) simp_all
  ultimately show ?thesis by (simp only: overprovision_def list.map phys_cap_def Let_def) simp
qed

section \<open>The cost figures\<close>

text \<open>The controller's ten dollars on 0.064 GB dominate the price of a gigabyte. The daily volume is that of the first
  line of the report: when it prints as zero there is no figure, whatever the other rounds wrote.\<close>

lemma cost_per_gb_flat: "cost_per_gb fabric_cost = fabric_cost + 156.25"
  by (simp add: cost_per_gb_def cost_per_device_def field_simps)

lemma to_string6_error: "\<bar>to_string6 x - x\<bar> \<le> 1 / (2 * 10 ^ 6)"
proof -
  have "of_int \<lfloor>x * 10 ^ 6 + 1 / 2\<rfloor> \<le> x * 10 ^ 6 + 1 / 2" "x * 10 ^ 6 + 1 / 2 < of_int \<lfloor>x * 10 ^ 6 + 1 / 2\<rfloor> + (1 :: real)"
    by linarith+
  then show ?thesis unfolding to_string6_def abs_le_iff by (auto simp: field_simps)
qed

lemma daily_cost_first_line:
  assumes "0 \<le> x" "x < 1 / (2 * 10 ^ 6)"
  shows "daily_cost (x # xs) = None"
proof -
  have "\<lfloor>x * 10 ^ 6 + 1 / 2\<rfloor> = 0" using assms by (intro floor_unique) (simp_all add: field_simps)
  then show ?thesis by (simp add: daily_cost_def sample_per_day_tb_def to_string6_def)
qed

section \<open>Sequential writes on a new drive\<close>

text \<open>The sequential workload goes through the first 16352 logical pages in laps. As long as every page has been written
  fewer than four times, the page step number \<open>k\<close> takes the next page of the cold zone, which starts at \<open>H\<close>.\<close>

abbreviation lap :: nat where "lap \<equiv> 16352"

definition sweeping :: "nat \<Rightarrow> nat \<Rightarrow> nat \<Rightarrow> nat \<Rightarrow> ftl \<Rightarrow> bool" where
  "sweeping N NB H k f \<longleftrightarrow> page_count f = N \<and> length (block_valid_count f) = NB \<and>
     phys_block f = map (\<lambda>p. p div 256) [0..<N] \<and> free_cold f = rev [H + k..<N] \<and> length (free_hot f) = H \<and>
     gc_low_watermark f = N div 20 \<and> length (lba_hot_counters f) = N \<and>
     (\<forall>lp < N. unat (lba_hot_counters f ! lp) \<le> k div lap + (if lp < k mod lap then 1 else 0))"

lemma lap_step:
  assumes "unat c \<le> k div lap + (if lp < k mod lap then 1 else 0)"
  shows "lp \<noteq> k mod lap \<Longrightarrow> unat c \<le> Suc k div lap + (if lp < Suc k mod lap then 1 else 0)"
    and "lp = k mod lap \<Longrightarrow> unat c + 1 \<le> Suc k div lap + (if lp < Suc k mod lap then 1 else 0)"
proof -
  consider "Suc k mod lap = 0" "Suc k div lap = Suc (k div lap)" "k mod lap = lap - 1" |
    "Suc k mod lap = Suc (k mod lap)" "Suc k div lap = k div lap"
    by (cases "Suc (k mod lap) = lap") (simp_all add: mod_Suc div_Suc)
  note cases = this
  show "lp \<noteq> k mod lap \<Longrightarrow> unat c \<le> Suc k div lap + (if lp < Suc k mod lap then 1 else 0)"
    using cases assms by cases (auto split: if_splits)
  show "lp = k mod lap \<Longrightarrow> unat c + 1 \<le> Suc k div lap + (if lp < Suc k mod lap then 1 else 0)"
    using cases assms by cases (auto split: if_splits)
qed

text \<open>What a page step leaves alone.\<close>

lemma commit_frame:
  assumes "commit_write tr f lp p old = Some f'"
  shows "p < length (phys_block f) \<and> phys_block f ! p < length (block_valid_count f) \<and> page_count f' = page_count f \<and>
    length (block_valid_count f') = length (block_valid_count f) \<and> phys_block f' = phys_block f \<and>
    free_cold f' = free_cold f \<and> free_hot f' = free_hot f \<and> gc_low_watermark f' = gc_low_watermark f \<and>
    lba_hot_counters f' = lba_hot_counters f"
proof -
  obtain f1 f2 where f1: "map_page f lp p = Some f1" and f2: "disturb_neighbor tr f1 p = Some f2"
    and f': "case old of None \<Rightarrow> f' = f2 | Some q \<Rightarrow> invalidate_page f2 q = Some f'"
    using assms by (auto simp: commit_write_def split: Option.bind_splits option.splits)
  have a: "p < length (phys_block f) \<and> phys_block f ! p < length (block_valid_count f) \<and> page_count f1 = page_count f \<and>
    length (block_valid_count f1) = length (block_valid_count f) \<and> phys_block f1 = phys_block f \<and>
    free_cold f1 = free_cold f \<and> free_hot f1 = free_hot f \<and> gc_low_watermark f1 = gc_low_watermark f \<and>
    lba_hot_counters f1 = lba_hot_counters f"
    using f1 by (auto simp: map_page_def rd_def wr_def split: Option.bind_splits if_splits)
  have b: "page_count f2 = page_count f1 \<and> block_valid_count f2 = block_valid_count f1 \<and> phys_block f2 = phys_block f1 \<and>
    free_cold f2 = free_cold f1 \<and> free_hot f2 = free_hot f1 \<and> gc_low_watermark f2 = gc_low_watermark f1 \<and>
    lba_hot_counters f2 = lba_hot_counters f1"
    using f2 by (auto simp: disturb_neighbor_def Let_def split: Option.bind_splits if_splits)
  have "page_count f' = page_count f2 \<and> length (block_valid_count f') = length (block_valid_count f2) \<and>
    phys_block f' = phys_block f2 \<and> free_cold f' = free_cold f2 \<and> free_hot f' = free_hot f2 \<and>
    gc_low_watermark f' = gc_low_watermark f2 \<and> lba_hot_counters f' = lba_hot_counters f2"
    using f' by (cases old) (auto simp: invalidate_page_def wr_def split: Option.bind_splits if_splits)
  then show ?thesis using a b by simp
qed

lemma u32_le_max: "min UINT32_MAX x = x"
proof -
  have "unat x < 2 ^ 32" using unsigned_less [of x] by simp
  then show ?thesis by (simp add: UINT32_MAX_def min_def word_le_nat_alt word_unat_eq_iff)
qed

lemma sweeping_step:
  assumes s: "sweeping N NB H k f" and room: "H + k < N" "lap \<le> N" "k < 3 * lap"
    and w: "write_step copy put tr (k mod lap) (f, m) = Some (ok, f', m')"
  shows "ok \<and> sweeping N NB H (Suc k) f' \<and> (H + k) div 256 < NB"
proof -
  define lp where "lp = k mod lap"
  have lp: "lp < N" using room(2) by (simp add: lp_def order.strict_trans2 [OF mod_less_divisor])
  define c where "c = lba_hot_counters f ! lp"
  have "unat c \<le> k div lap" using s lp by (auto simp: sweeping_def c_def lp_def)
  moreover have "k div lap \<le> 2" using room(3) by (simp add: less_Suc_eq_le [symmetric] div_less_iff_less_mult)
  ultimately have c2: "unat c \<le> 2" by simp
  then have c1: "unat (c + 1) = unat c + 1" by (simp add: unat_word_ariths(1))
  define f1 where "f1 = f\<lparr>lba_hot_counters := (lba_hot_counters f)[lp := c + 1]\<rparr>"
  have len: "length (lba_hot_counters f) = N" using s by (simp add: sweeping_def)
  have b: "bump_hot f lp = f1" using lp len by (simp add: bump_hot_def f1_def c_def u32_le_max)
  have cold: "prefers_hot f1 lp = False"
    using lp len c1 c2 by (simp add: prefers_hot_def f1_def HOT_THRESHOLD_def word_le_nat_alt)
  have fc: "free_cold f1 = rev [H + k..<N]" using s by (simp add: sweeping_def f1_def)
  define f2 where "f2 = f1\<lparr>free_cold := rev [H + Suc k..<N]\<rparr>"
  have al: "AllocatePhysicalPage f1 False = (Some (H + k), f2)"
    using room(1) by (simp add: AllocatePhysicalPage_def pop_cold_def fc f2_def last_rev butlast_rev)
  obtain f3 where f3: "commit_write tr f2 lp (H + k) (if lp < length (l2p_map f2) then l2p_map f2 ! lp else None) = Some f3"
    "ok" "f' = f3"
    using w unfolding write_step_def lp_def [symmetric]
    by (auto simp: b cold alloc_or_gc_def al Let_def split: Option.bind_splits)
  note fr = commit_frame [OF f3(1)]
  have fields: "page_count f2 = N" "length (block_valid_count f2) = NB" "phys_block f2 = map (\<lambda>p. p div 256) [0..<N]"
    "length (free_hot f2) = H" "gc_low_watermark f2 = N div 20" "lba_hot_counters f2 = (lba_hot_counters f)[lp := c + 1]"
    using s by (simp_all add: f2_def f1_def sweeping_def)
  have "(H + k) div 256 < NB" using fr fields(2,3) room(1) by simp
  moreover have "\<forall>q < N. unat (lba_hot_counters f' ! q) \<le> Suc k div lap + (if q < Suc k mod lap then 1 else 0)"
  proof (intro allI impI)
    fix q assume q: "q < N"
    have old: "unat (lba_hot_counters f ! q) \<le> k div lap + (if q < k mod lap then 1 else 0)"
      using s q by (simp add: sweeping_def)
    show "unat (lba_hot_counters f' ! q) \<le> Suc k div lap + (if q < Suc k mod lap then 1 else 0)"
    proof (cases "q = lp")
      case True
      then have "unat c + 1 \<le> Suc k div lap + (if q < Suc k mod lap then 1 else 0)"
        using lap_step(2) [OF old] by (simp add: lp_def c_def)
      then show ?thesis using True fr f3(3) fields(6) c1 lp len by simp
    next
      case False
      then show ?thesis using lap_step(1) [OF old] fr f3(3) fields(6) by (simp add: lp_def)
    qed
  qed
  ultimately show ?thesis using fr f3(2,3) fields lp len by (simp add: sweeping_def f2_def)
qed

text \<open>One call with a block of whole pages that stays within a lap.\<close>

lemma sweeping_write_loop:
  assumes "sweeping N NB H k f" "H + k + n \<le> N" "lap \<le> N" "k + n \<le> 3 * lap" "k mod lap + n \<le> lap" "length src = n * 4096"
    and "write_loop tr (k mod lap * 4096) src (f, m) = Some (ok, f', m')"
  shows "ok \<and> sweeping N NB H (k + n) f' \<and> (n \<noteq> 0 \<longrightarrow> (H + k) div 256 < NB)"
  using assms
proof (induction n arbitrary: k f m src)
  case 0
  then show ?case by (simp add: write_loop.simps [of _ _ "[]"])
next
  case (Suc n)
  have ne: "src \<noteq> []" using Suc.prems(6) by auto
  have tw: "min (length src) 4096 = 4096" using Suc.prems(6) by simp
  have "write_loop tr (k mod lap * 4096) src (f, m) = do {
      (ok, s') \<leftarrow> write_step copy_page (put_page 0 (take 4096 src)) tr (k mod lap) (f, m);
      if ok then write_loop tr (k mod lap * 4096 + 4096) (drop 4096 src) s' else Some (False, s')
    }"
    by (subst write_loop.simps) (simp add: geom Let_def ne tw cong: if_cong)
  then obtain ok1 f1 m1 where s: "write_step copy_page (put_page 0 (take 4096 src)) tr (k mod lap) (f, m) = Some (ok1, f1, m1)"
    and rest: "(if ok1 then write_loop tr (k mod lap * 4096 + 4096) (drop 4096 src) (f1, m1) else Some (False, f1, m1)) = Some (ok, f', m')"
    using Suc.prems(7) by (cases "write_step copy_page (put_page 0 (take 4096 src)) tr (k mod lap) (f, m)") auto
  have st: "ok1 \<and> sweeping N NB H (Suc k) f1 \<and> (H + k) div 256 < NB"
    by (rule sweeping_step [OF Suc.prems(1) _ Suc.prems(3) _ s]) (use Suc.prems(2,4) in simp_all)
  show ?case
  proof (cases n)
    case 0
    then have "drop 4096 src = []" using Suc.prems(6) by simp
    then show ?thesis using rest st 0 by (simp add: write_loop.simps [of _ _ "[]"])
  next
    case (Suc j)
    then have nx: "Suc k mod lap = Suc (k mod lap)" using Suc.prems(5) by (simp add: mod_Suc)
    then have "write_loop tr (Suc k mod lap * 4096) (drop 4096 src) (f1, m1) = Some (ok, f', m')"
      using rest st by (simp add: add.commute)
    then have "ok \<and> sweeping N NB H (Suc k + n) f' \<and> (n \<noteq> 0 \<longrightarrow> (H + Suc k) div 256 < NB)"
      using Suc.prems nx by (intro Suc.IH [of "Suc k" f1 "drop 4096 src" m1]) (use st in simp_all)
    then show ?thesis using st by simp
  qed
qed

lemma sweeping_free_count: "sweeping N NB H k f \<Longrightarrow> H + k \<le> N \<Longrightarrow> free_count f = N - k"
  by (simp add: sweeping_def free_count_def)

lemma sequential_offset:
  assumes "i < 2000"
  shows "seq_offset (of_nat i * 131072) (of_nat LOGICAL_CAPACITY) 131072 = Some (of_nat (32 * i mod lap * 4096))"
    and "unat (of_nat (32 * i mod lap * 4096) :: u64) = 32 * i mod lap * 4096" "32 * i mod lap + 32 \<le> lap"
proof -
  have l: "32 * i mod lap = 32 * (i mod 511)" using mult_mod_right [of 32 i 511] by simp
  then show "32 * i mod lap + 32 \<le> lap" by simp
  have small: "32 * i mod lap * 4096 < 2 ^ 64" using l by simp
  then show u: "unat (of_nat (32 * i mod lap * 4096) :: u64) = 32 * i mod lap * 4096"
    by (simp only: unat_of_nat len_num1 len_bit0) simp
  have p: "unat (of_nat i * 131072 :: u64) = i * 131072" using assms by (simp add: unat_word_ariths(2) unat_of_nat)
  have d: "(of_nat LOGICAL_CAPACITY - 131072 :: u64) = 66977792" by simp
  have "unat (of_nat i * 131072 mod (66977792 :: u64)) = i * 131072 mod 66977792" by (simp add: unat_mod p)
  also have "\<dots> = 32 * i mod lap * 4096" using mult_mod_left [of "32 * i" lap 4096] by (simp add: mult.commute mult.left_commute)
  finally have "of_nat i * 131072 mod (66977792 :: u64) = of_nat (32 * i mod lap * 4096)" using u by (simp add: word_unat_eq_iff)
  then show "seq_offset (of_nat i * 131072) (of_nat LOGICAL_CAPACITY) 131072 = Some (of_nat (32 * i mod lap * 4096))"
    unfolding seq_offset_def d by simp
qed

definition sweep_state :: "nat \<Rightarrow> nat \<Rightarrow> nat \<Rightarrow> nat \<Rightarrow> u8 list \<times> u64 \<times> ctrl \<Rightarrow> bool" where
  "sweep_state N NB H i s \<longleftrightarrow>
     (case s of (buf, logical, c) \<Rightarrow> length buf = 131072 \<and> capacity c = N * 4096 \<and> sweeping N NB H (32 * i) (meta c))"

lemma sweep_write:
  assumes "sweep_state N NB H i s" "H + 32 * i + 32 \<le> N" "lap \<le> N" "32 * i + 32 \<le> 3 * lap" "N div 20 + 32 * i + 32 \<le> N"
    "i < 2000" "counted_write (32 * i mod lap * 4096) 131072 s = Some s'"
  shows "sweep_state N NB H (Suc i) s' \<and> (H + 32 * i) div 256 < NB"
proof -
  obtain buf logical c where s: "s = (buf, logical, c)" by (cases s)
  have c: "length buf = 131072" "capacity c = N * 4096" "sweeping N NB H (32 * i) (meta c)"
    using assms(1) by (simp_all add: s sweep_state_def)
  note o = sequential_offset(3) [OF assms(6)]
  obtain ok c' where w: "Write c (32 * i mod lap * 4096) (Some buf) 131072 = Some (ok, c')" "s' = (buf, logical + of_nat 131072, c')"
    using assms(7) by (auto simp: counted_write_def s do_write_def split: Option.bind_splits)
  have in_range: "\<not> (131072 > capacity c \<or> 32 * i mod lap * 4096 > capacity c - 131072)" using o assms(3) c(2) by simp
  have sl: "slice buf 0 131072 = Some buf" using c(1) by (simp add: slice_def)
  let ?tr = "enable_disturb_tracking (physics_cfg c)"
  obtain ok1 f st where wl: "write_loop ?tr (32 * i mod lap * 4096) buf (meta c, buffers c) = Some (ok1, f, st)"
    using w(1) in_range sl by (auto simp: Write_def Let_def split: Option.bind_splits)
  have st: "ok1 \<and> sweeping N NB H (32 * i + 32) f \<and> ((32 :: nat) \<noteq> 0 \<longrightarrow> (H + 32 * i) div 256 < NB)"
    by (rule sweeping_write_loop [OF c(3) assms(2,3,4) o _ wl]) (simp add: c(1))
  have "\<not> free_count f < gc_low_watermark f"
    using sweeping_free_count [of N NB H "32 * i + 32" f] st assms(2,5) by (simp add: sweeping_def)
  then have "meta c' = f \<and> capacity c' = capacity c"
    using w(1) wl in_range sl st by (auto simp: Write_def Let_def gc_if_low_def split: Option.bind_splits)
  then show ?thesis using st c w(2) by (simp add: sweep_state_def add.commute)
qed

lemma for_loop_add: "for_loop body i (m + n) s = do { s1 \<leftarrow> for_loop body i m s; for_loop body (i + m) n s1 }"
  by (induction m arbitrary: i s) (auto split: bind_splits)

lemma for_loop_partial:
  assumes "for_loop body i n s = Some s'" "P i s"
    "\<And>j s s'. i \<le> j \<Longrightarrow> j < i + n \<Longrightarrow> P j s \<Longrightarrow> body j s = Some s' \<Longrightarrow> P (Suc j) s'"
  shows "P (i + n) s'"
  using assms
proof (induction n arbitrary: i s)
  case (Suc n)
  obtain s1 where s1: "body i s = Some s1" "for_loop body (Suc i) n s1 = Some s'"
    using Suc.prems(1) by (auto split: Option.bind_splits)
  have "P (Suc i) s1" using Suc.prems(3) [OF _ _ Suc.prems(2) s1(1)] by simp
  then have "P (Suc i + n) s'" using Suc.prems(3) by (intro Suc.IH [OF s1(2)]) auto
  then show ?case by simp
qed simp

lemma sweeping_init:
  assumes "NB = N div 256" "0 < NB" "H = 256 * max 1 (NB div 5)" "H \<le> N" "20 \<le> N"
  shows "sweeping N NB H 0 (ftl_init (N * 4096))"
proof -
  have pages: "page_count (ftl_init (N * 4096)) = N" by (simp add: ftl_init_page_count)
  have np: "(N * 4096 + 4096 - 1) div 4096 = N" by simp
  let ?b = "max 1 (NB div 5)"
  have blk: "map (\<lambda>p. p div 256) [0..<N] ! p < ?b \<longleftrightarrow> p < H" if "p < N" for p
    using that assms(3) by (simp only: nth_map_upt diff_zero add_0 div_less_iff_less_mult) (simp add: mult.commute)
  have c: "free_cold (ftl_init (N * 4096)) = filter (\<lambda>p. \<not> map (\<lambda>p. p div 256) [0..<N] ! p < ?b) (rev [0..<N])"
    and h: "free_hot (ftl_init (N * 4096)) = filter (\<lambda>p. map (\<lambda>p. p div 256) [0..<N] ! p < ?b) (rev [0..<N])"
    using assms(1,2) by (simp_all only: ftl_init_def Let_def ftl.select_convs PAGE_SIZE_def PAGES_PER_BLOCK_def np) simp_all
  have c': "filter (\<lambda>p. \<not> map (\<lambda>p. p div 256) [0..<N] ! p < ?b) (rev [0..<N]) = filter (\<lambda>p. \<not> p < H) (rev [0..<N])"
    by (rule filter_cong) (simp_all add: blk del: nth_map One_nat_def)
  have h': "filter (\<lambda>p. map (\<lambda>p. p div 256) [0..<N] ! p < ?b) (rev [0..<N]) = filter (\<lambda>p. p < H) (rev [0..<N])"
    by (rule filter_cong) (simp_all add: blk del: nth_map One_nat_def)
  have split: "[0..<N] = [0..<H] @ [H..<N]" using assms(4) upt_add_eq_append [of 0 H "N - H"] by simp
  have "filter (\<lambda>p. \<not> p < H) (rev [0..<N]) = rev [H..<N]" "filter (\<lambda>p. p < H) (rev [0..<N]) = rev [0..<H]"
    unfolding split by (simp_all add: filter_empty_conv)
  then have lists: "free_cold (ftl_init (N * 4096)) = rev [H + 0..<N]" "length (free_hot (ftl_init (N * 4096))) = H"
    unfolding c c' h h' by simp_all
  have reps: "block_valid_count (ftl_init (N * 4096)) = replicate NB 0" "phys_block (ftl_init (N * 4096)) = map (\<lambda>p. p div 256) [0..<N]"
    "lba_hot_counters (ftl_init (N * 4096)) = replicate N 0" "gc_low_watermark (ftl_init (N * 4096)) = max 1 (N div 20)"
    using assms(1,2) by (simp_all only: ftl_init_def Let_def ftl.select_convs PAGE_SIZE_def PAGES_PER_BLOCK_def np) simp_all
  show ?thesis unfolding sweeping_def using pages lists reps assms(5) by simp
qed

section \<open>The sequential workload runs past the block counts\<close>

lemma sequential_overflow:
  assumes N: "NB = N div 256" "0 < NB" "H = 256 * max 1 (NB div 5)" "lap \<le> N"
    and T: "H + 32 * T = 256 * NB" "T < 2000" "H + 32 * T + 32 \<le> N" "32 * T + 32 \<le> 3 * lap" "N div 20 + 32 * T + 32 \<le> N"
  shows "SequentialLargeWrites (of_nat LOGICAL_CAPACITY) 2000 (FTJController (N * 4096) 8) = None"
proof -
  let ?body = "\<lambda>i s. do { off \<leftarrow> seq_offset (of_nat i * 131072) (of_nat LOGICAL_CAPACITY) 131072; counted_write (unat off) 131072 s }"
  let ?s0 = "(replicate 131072 0xBB, 0 :: u64, FTJController (N * 4096) 8)"
  have body: "?body i s = counted_write (32 * i mod lap * 4096) 131072 s" if "i < 2000" for i s
    using sequential_offset(1,2) [OF that] by simp
  have step: "sweep_state N NB H (Suc i) s' \<and> (H + 32 * i) div 256 < NB"
    if "i \<le> T" "sweep_state N NB H i s" "?body i s = Some s'" for i s s'
  proof (rule sweep_write [OF that(2) _ N(4)])
    have "i < 2000" using that(1) T(2) by simp
    then show "counted_write (32 * i mod lap * 4096) 131072 s = Some s'" using that(3) unfolding body [OF \<open>i < 2000\<close>] by simp
  qed (use that(1) T in simp_all)
  have "H \<le> N" "20 \<le> N" using T(1,3) N(4) by simp_all
  then have "sweep_state N NB H 0 ?s0"
    using sweeping_init [OF N(1-3)] by (simp add: sweep_state_def FTJController_def)
  then have start: "sweep_state N NB H 0 ?s0" .
  have none: "for_loop ?body 0 2000 ?s0 = None"
  proof (rule ccontr)
    assume "for_loop ?body 0 2000 ?s0 \<noteq> None"
    then obtain z where "for_loop ?body 0 (T + (Suc (1999 - T))) ?s0 = Some z" using T(2) by auto
    then obtain s1 where s1: "for_loop ?body 0 T ?s0 = Some s1" "for_loop ?body T (Suc (1999 - T)) s1 = Some z"
      unfolding for_loop_add by (auto split: Option.bind_splits)
    have "sweep_state N NB H (0 + T) s1"
      by (rule for_loop_partial [where P = "sweep_state N NB H", OF s1(1) start]) (use step in \<open>auto simp del: for_loop.simps\<close>)
    moreover obtain s2 where "?body T s1 = Some s2" using s1(2) by (auto split: Option.bind_splits)
    ultimately have "(H + 32 * T) div 256 < NB" using step [of T s1 s2] by simp
    then show False using T(1) by simp
  qed
  then show ?thesis by (simp only: SequentialLargeWrites_def none option.map)
qed

section \<open>The rounds on a drive of whole blocks\<close>

definition count_ok :: "nat \<Rightarrow> nat \<Rightarrow> u8 list \<times> u64 \<times> ctrl \<Rightarrow> bool" where
  "count_ok cap n s \<longleftrightarrow> (case s of (buf, logical, c) \<Rightarrow> io_ok cap n (buf, c))"

lemma counted_write_ok:
  assumes "count_ok cap n s" "block \<le> n"
  shows "\<exists>s'. counted_write off block s = Some s' \<and> count_ok cap n s' \<and> fst (snd s') = fst (snd s) + of_nat block"
proof -
  obtain buf logical c where s: "s = (buf, logical, c)" by (cases s)
  then obtain s1 where "do_write off block (buf, c) = Some s1" "io_ok cap n s1"
    using do_write_ok [of cap n "(buf, c)" block off] assms by (auto simp: count_ok_def)
  then show ?thesis by (cases s1) (auto simp: s counted_write_def count_ok_def)
qed

lemma counted_loop:
  assumes "count_ok cap n s" "block \<le> n" "\<And>i s. body i s = counted_write (off i) block s"
  shows "\<exists>s'. for_loop body k m s = Some s' \<and> count_ok cap n s' \<and> fst (snd s') = fst (snd s) + of_nat (m * block)"
  using assms(1)
proof (induction m arbitrary: k s)
  case (Suc m)
  obtain s1 where s1: "counted_write (off k) block s = Some s1" "count_ok cap n s1" "fst (snd s1) = fst (snd s) + of_nat block"
    using counted_write_ok [OF Suc.prems assms(2)] by blast
  obtain s2 where "for_loop body (Suc k) m s1 = Some s2" "count_ok cap n s2" "fst (snd s2) = fst (snd s1) + of_nat (m * block)"
    using Suc.IH [OF s1(2)] by blast
  note s2 = this
  have "body k s = Some s1" unfolding assms(3) by (rule s1(1))
  then have "for_loop body k (Suc m) s = Some s2" by (simp only: for_loop.simps Option.bind.bind_lunit s2(1))
  moreover have "fst (snd s2) = fst (snd s) + of_nat (Suc m * block)" using s1(3) s2(3) by (simp add: algebra_simps)
  ultimately show ?case using s2(2) by blast
qed simp

lemma mixed_loop:
  assumes "count_ok cap 4096 s"
    and "\<And>i s. body i s = (if op i \<le> 70
          then (case s of (buf, logical, c) \<Rightarrow> do { (buf', c') \<leftarrow> do_read (draw i) 4096 (buf, c); Some (buf', logical, c') })
          else counted_write (draw i) 4096 s)"
  shows "\<exists>s'. for_loop body k m s = Some s' \<and> count_ok cap 4096 s'"
proof (rule for_loop_inv [where P = "count_ok cap 4096"])
  show "\<exists>s'. body i s = Some s' \<and> count_ok cap 4096 s'" if ok: "count_ok cap 4096 s" for i s
  proof (cases "op i \<le> 70")
    case True
    obtain buf logical c where s: "s = (buf, logical, c)" by (cases s)
    obtain s1 where "do_read (draw i) 4096 (buf, c) = Some s1" "io_ok cap 4096 s1"
      using do_read_ok [of cap 4096 "(buf, c)" 4096 "draw i"] ok by (auto simp: s count_ok_def)
    then show ?thesis using True by (cases s1) (simp add: assms(2) s count_ok_def)
  next
    case False
    then show ?thesis using counted_write_ok [OF ok, of 4096 "draw i"] by (auto simp: assms(2))
  qed
qed (rule assms(1))

lemma analysis_round_runs:
  assumes "good_capacity (phys_cap LOGICAL_CAPACITY opct)"
  shows "\<exists>r1 r2 r3. analysis_round d opct = Some (r1, r2, r3) \<and> logical_bytes r2 = 262144000 \<and> logical_bytes r3 = 163840000"
proof -
  let ?cap = "phys_cap LOGICAL_CAPACITY opct"
  let ?c = "FTJController ?cap 8"
  have start: "count_ok ?cap n (replicate n b, 0, ?c)" for n b
    using ctrl_safe_weaken [OF FTJController_safe [OF assms], of False 8]
    by (simp add: count_ok_def io_ok_def) (simp add: FTJController_def)
  have "Random4KMixed (fst d) (snd d) 100000 ?c \<noteq> None"
    using mixed_loop [OF start [of 4096 "0xAA"], where draw = "fst d" and op = "snd d" and k = 0 and m = 100000, OF refl]
    unfolding Random4KMixed_def option.map_disc_iff by (metis option.distinct(1))
  then obtain r1 c1 where 1: "Random4KMixed (fst d) (snd d) 100000 ?c = Some (r1, c1)" by fastforce
  have b2: "\<exists>s'. for_loop (\<lambda>i s. do { off \<leftarrow> seq_offset (of_nat i * 131072) (of_nat LOGICAL_CAPACITY) 131072; counted_write (unat off) 131072 s })
      0 2000 (replicate 131072 0xBB, 0, ?c) = Some s' \<and> count_ok ?cap 131072 s' \<and>
      fst (snd s') = fst (snd (replicate 131072 (0xBB :: u8), 0 :: u64, ?c)) + of_nat (2000 * 131072)"
    by (rule counted_loop [OF start order.refl, where off = "\<lambda>i. unat (of_nat i * 131072 mod (of_nat LOGICAL_CAPACITY - 131072 :: u64))"])
      (simp add: seq_offset_def)
  then obtain r2 c2 where 2: "SequentialLargeWrites (of_nat LOGICAL_CAPACITY) 2000 ?c = Some (r2, c2)" "logical_bytes r2 = 262144000"
    unfolding SequentialLargeWrites_def run_report_def by fastforce
  have b3: "\<exists>s'. for_loop (\<lambda>i s. do { off \<leftarrow> seq_offset (0 + of_nat i * 8192) (of_nat LOGICAL_CAPACITY) 8192; counted_write (unat off) 8192 s })
      0 20000 (replicate 8192 0xCC, 0, ?c) = Some s' \<and> count_ok ?cap 8192 s' \<and>
      fst (snd s') = fst (snd (replicate 8192 (0xCC :: u8), 0 :: u64, ?c)) + of_nat (20000 * 8192)"
    by (rule counted_loop [OF start order.refl, where off = "\<lambda>i. unat (of_nat i * 8192 mod (of_nat LOGICAL_CAPACITY - 8192 :: u64))"])
      (simp add: seq_offset_def)
  then obtain r3 c3 where 3: "DB_WAL_Append (of_nat LOGICAL_CAPACITY) 20000 ?c = Some (r3, c3)" "logical_bytes r3 = 163840000"
    unfolding DB_WAL_Append_def run_report_def by fastforce
  show ?thesis using 1 2 3 by (simp add: analysis_round_def Let_def)
qed

text \<open>C5: the sweep that the analysis tool runs by default has undefined behaviour: with 7% and with 28% of
  over-provisioning the drive has 17531 and 20972 pages, a partial last block without an entry in the block
  counts, and the sequential workload writes past the end of that vector, whatever the generators draw; only
  the rounds at 0% and 50%, picked on the command line, run to their end.\<close>

theorem analysis_sweep_overflows:
  "analysis_round d (7 / 100) = None \<and> analysis_round d (28 / 100) = None \<and>
   analysis_sweep (- 1) d = None \<and> analysis_sweep 1 d = None \<and> analysis_sweep 2 d = None \<and>
   analysis_sweep 0 d \<noteq> None \<and> analysis_sweep 3 d \<noteq> None"
proof -
  have caps: "phys_cap LOGICAL_CAPACITY (7 / 100) = 17531 * 4096" "phys_cap LOGICAL_CAPACITY (28 / 100) = 20972 * 4096"
    using sweep_capacities by (simp_all add: overprovision_def)
  have a: "SequentialLargeWrites (of_nat LOGICAL_CAPACITY) 2000 (FTJController (17531 * 4096) 8) = None"
    by (rule sequential_overflow [where NB = 68 and H = 3328 and T = 440]) simp_all
  have b: "SequentialLargeWrites (of_nat LOGICAL_CAPACITY) 2000 (FTJController (20972 * 4096) 8) = None"
    by (rule sequential_overflow [where NB = 81 and H = 4096 and T = 520]) simp_all
  have r: "analysis_round d (7 / 100) = None" "analysis_round d (28 / 100) = None"
    unfolding analysis_round_def caps Let_def a b
    by (cases "Random4KMixed (fst d) (snd d) 100000 (FTJController (17531 * 4096) 8)";
        cases "Random4KMixed (fst d) (snd d) 100000 (FTJController (20972 * 4096) 8)"; simp add: split_beta)+
  have "good_capacity (phys_cap LOGICAL_CAPACITY 0)" "good_capacity (phys_cap LOGICAL_CAPACITY (1 / 2))"
    using sweep_capacities by (simp_all add: overprovision_def good_capacity_def geom)
  then have "analysis_round d 0 \<noteq> None" "analysis_round d (1 / 2) \<noteq> None"
    using analysis_round_runs by fastforce+
  then show ?thesis
    using r by (auto simp: analysis_sweep_def overprovision_def picked_def)
qed

end
