(* ===== verification/Spec2Isabelle.thy ===== *)
theory Spec2Isabelle
  imports Latency Gc_Fill Ring_Threads Coalescer_Drive Memfs_Disk Memfs_Service Memfs_Listing Memfs_Volume Nvme_Progress
    Memfs_Ea Memfs_Streams_Ops Memfs_Reparse Memfs_Slowio Main_Report Analysis_Report
begin

text \<open>
  A verification library of the FTJ solid-state-drive simulator. The program has four layers, and each is modelled
  from its source; the theories follow the files:

  \<^bold>\<open>The engine\<close> (\<open>src/ftj_engine.cpp\<close>, \<open>include/ftj_engine.hpp\<close>)
    \<^item> Prelude: checked buffer accesses (\<open>rd\<close>, \<open>wr\<close>, \<open>slice\<close>, \<open>splice\<close>: an access out of range is \<open>None\<close>), bytes of words,
      the collections \<open>access\<close> and \<open>geom\<close>.
    \<^item> Ecc: \<open>CalculateECC\<close> and \<open>VerifyAndCorrectECC\<close>; the code is linear (locale \<open>linear_code\<close>), exactly which single and double
      errors are corrected, detected or miscorrected.
    \<^item> Prng, Physics, Latency: bit-error injection, the crossbar formulas over exact reals with their bounds, the busy wait
      and its calibration.
    \<^item> Ftl: page table, free lists, block counters, \<open>AllocatePhysicalPage\<close>, \<open>RunGC\<close>. Ftl_Safety (every operation is
      defined), Ftl_Mapping (the mapping is injective and matches the owners), Ftl_Gc (a collection keeps what every
      logical page holds), Gc_Choice and Gc_Idle (which block is collected), Gc_Fill (what goes wrong when the drive is
      filled). The page contents are an interface: locale \<open>page_store\<close>, extended by \<open>page_writer\<close>.
    \<^item> Store: the memory and check bytes of a drive; the interpretation \<open>buf\<close> discharges that interface.
    \<^item> Controller: \<open>FTJController\<close> with \<open>Read\<close> and \<open>Write\<close>; Controller_Safety (no undefined behaviour), Controller_Spec
      (the drive as an array of bytes), Drive (wear, and the properties of a drive in good health).
    \<^item> Ring: \<open>LockFreeRingBuffer\<close> and \<open>NVMeQueuePair\<close>, called serially; a refinement of a bounded queue (locales
      \<open>roomy_queue\<close> and \<open>bounded_queue\<close>). Ring_Threads: the same code as a step relation, one access to shared memory at
      a time, for any number of threads; a spurious failure of the weak compare-and-swap is a step too.
    \<^item> Coalescer, Coalescer_Drive: \<open>BurstCoalescer\<close> over a sink of pages (locale \<open>page_sink\<close>), and over the drive, where a
      flush puts the staged pages byte for byte.

  \<^bold>\<open>The virtual disk\<close> (\<open>src/win_vdisk.cpp\<close>)
    \<^item> Memfs_Names (comparison of names), Memfs_Map (the sorted table; locale \<open>keyed_map\<close>), Memfs_File and Memfs_File_Spec
      (the handlers of one file), Memfs_Disk (the file \<open>ftj_disk.bin\<close> over the drive; locale \<open>block_device\<close>),
      Memfs_Table (nodes, references, the table operations), Memfs_Ops (the handlers of the file system).
    \<^item> Memfs_Paths, Memfs_Tree, Memfs_Session, Memfs_Rename, Memfs_Life: paths as lists of components, children and
      descendants, the invariant \<open>session_ok\<close> (sorted names, closed tree, exact reference counts) and that every handler keeps it.
    \<^item> Memfs_Funnel: construction (\<open>MemfsCreateFunnel\<close>) and deletion on a ledger of what is held (descriptor, block, table,
      WinFsp object, nodes), with the clean-up of every error path; giving back what is not held is undefined. Memfs_Boot: the
      outcome for every combination of answers of the system, and the reachable states. Memfs_Listing: \<open>ReadDirectory\<close>. Memfs_Volume: sizes.
    \<^item> Memfs_Ea, Memfs_Streams, Memfs_Streams_Ops, Memfs_Reparse: extended attributes, named streams and reparse points, the code of three build
      options that the file leaves off; what is set is read back, what is listed is what the table holds, and where the
      bookkeeping (\<open>EaSize\<close>, the streams of the root, the main node of a stream) goes wrong.
    \<^item> Memfs_Slowio: the option for delayed requests, with its detached threads as a step relation; a delayed request does
      what an immediate one does, each is answered once, and stopping waits for the threads. The delays are defined for a maximal
      delay other than 0xFFFFFFFF and a rarefying shift below 32, which the service does not check.

  \<^bold>\<open>The service\<close> (\<open>src/win_vdisk_srv.c\<close>, \<open>src/memfs.h\<close>): Memfs_Service, options, start, what it has
  freed when it fails, stop, the logged line.

  \<^bold>\<open>The programs\<close> (\<open>src/main.cpp\<close>, \<open>src/analysis_tool.cpp\<close>, \<open>src/waf_harness.cpp\<close>): Nvme_Bench is the queue-depth
  benchmark as a step relation of client and worker threads, Nvme_Progress its guarantees; Workloads has the other
  loops, the simulated NAND and the harness. Main_Report: the clock and when it overflows, the rows and percentiles of the
  result tables, the live monitor's lines, the request to mount. Analysis_Report: the sweep of the analysis tool, which leaves
  the block counts of its drives at 7% and 28%, and its cost figures.

  \<^bold>\<open>How state corresponds.\<close> A class is a record, its vectors are lists, a null pointer or an index of \<open>-1\<close> is \<open>None\<close>;
  machine integers that wrap are words, sizes are naturals. An operation that may leave a buffer, divide by zero or
  follow a null pointer answers \<open>None\<close> there. Errors are the status codes and flags of the source.

  \<^bold>\<open>Bounds.\<close> No fuel is used. Loops recurse on lists or have a measure (\<open>RunGC\<close>: the pages missing to the target; the code
  leaves the loop when a cycle frees nothing); the spin loops, the bit search, the rounding of the
  ring size and the loops of the ring are \<open>partial_function (option)\<close>, and their return is proved. The ring needs at least two cells and positions below \<open>2 ^ 63\<close> (with threads: at most \<open>2 ^ 62\<close>
  cells and pushes), so that the signed difference of positions is exact. The drive properties need a
  capacity that is a whole number of pages and blocks, and pages within their wear limits; reading back what was
  written needs free pages above the watermark, because the collector may hand out pages twice (Gc_Fill).

  \<^bold>\<open>Arguments that stand for code outside \<open>src\<close>.\<close> The Windows heap, the clock, \<open>CompareStringW\<close> and \<open>_wcsnicmp\<close>, the path
  functions of WinFsp, its directory buffer, the sizes of the two text buffers of its volume parameters, the security functions, the random draws of the standard generators (except
  \<open>xorshift\<close> of the source), the cycle counter. What is assumed of them is in \<open>heap_laws\<close> and \<open>path_laws\<close>; both have
  instances.

  \<^bold>\<open>Simplifications.\<close> Floating-point numbers are exact reals. The scores of the collector wrap at 32 bits, where C++
  leaves the overflow undefined. \<open>wcscpy_s\<close> with a text that does not fit ends the program, and so does an allocation of the controller
  that fails; both are \<open>None\<close> in Memfs_Funnel. Addresses of new nodes are fresh and never reused. The key of a table entry is a copy of the name.
  Threads see one order of the shared accesses (sequential consistency). In the queue-depth benchmark one call of
  the queue or of the drive is one step.
  The steps of Memfs_Life and Memfs_Slowio carry what the kernel guarantees for a request (no request on a closed handle, a
  renamed file is not above its target, a file is not resized while a request on it is pending).

  \<^bold>\<open>Not modelled.\<close> Console output, the text of the report files and the console set-up; the test program; in \<open>win_vdisk.cpp\<close>
  the extra buffer of WSL in \<open>Create\<close> and the buffer check of debug builds; the dispatch table and start-up of WinFsp; the hardware descriptions, scripts and pages of
  the repository, which are no C++.
\<close>

end
